(* ===== verification/Epg_Prelude.thy ===== *)
theory Epg_Prelude
  imports Main "HOL-Library.Word" "HOL-Library.Product_Lexorder" "HOL-Library.Multiset"
begin

text \<open>
  Shared vocabulary of the development. It holds the model of the JavaScript constructs the server
  code is written with: strings as lists of UTF-16 code units, the decimal rendering of integer
  numbers, the stable sort of \<open>Array.prototype.sort\<close>, \<open>findIndex\<close> and the one element
  \<open>splice\<close>; the type of thrown errors; and the lemmas about them that every component uses.
\<close>

subsection \<open>Collections of facts\<close>

named_theorems js_simps \<open>equations about the JavaScript helpers\<close>
named_theorems lock_simps \<open>equations about the execution lock\<close>
named_theorems resv_simps \<open>equations about reservations\<close>

subsection \<open>Errors\<close>

text \<open>\<open>Thrown m\<close> is \<open>throw new Error(m)\<close>; \<open>DbFailure\<close> is a rejected database
  promise, whose value comes from the driver.\<close>

datatype err = Thrown string | DbFailure

type_synonym 'a result = "err + 'a"

subsection \<open>Strings and numbers\<close>

type_synonym code_unit = "16 word"
type_synonym jstr = "code_unit list"

definition js :: "string \<Rightarrow> jstr" where
  "js s = map of_char s"

definition digit :: "nat \<Rightarrow> code_unit" where
  "digit d = of_nat (48 + d)"

fun nat_str :: "nat \<Rightarrow> jstr" where
  "nat_str n = (if n < 10 then [digit n] else nat_str (n div 10) @ [digit (n mod 10)])"

declare nat_str.simps [simp del]

definition num_str :: "int \<Rightarrow> jstr" where
  "num_str i = (if i < 0 then 45 # nat_str (nat (- i)) else nat_str (nat i))"

definition bool_str :: "bool \<Rightarrow> jstr" where
  "bool_str b = (if b then js ''true'' else js ''false'')"

definition opt_num_str :: "int option \<Rightarrow> jstr" where
  "opt_num_str x = (case x of None \<Rightarrow> js ''null'' | Some i \<Rightarrow> num_str i)"

text \<open>The rendering of the non-negative numbers is injective and free of dashes.\<close>

lemma js_dash [simp]: "js ''-'' = [45]"
  by (simp add: js_def)

lemma digit_val: "d < 10 \<Longrightarrow> unat (digit d) = 48 + d"
proof -
  assume "d < 10"
  then have "take_bit 16 (48 + d) = 48 + d" by (intro take_bit_nat_eq_self) simp
  then show ?thesis unfolding digit_def by (simp only: unsigned_of_nat)simp
qed

lemma digit_inj: "c < 10 \<Longrightarrow> d < 10 \<Longrightarrow> digit c = digit d \<longleftrightarrow> c = d"
  using digit_val by (metis add_left_cancel)

lemma digit_not_dash: "d < 10 \<Longrightarrow> digit d \<noteq> 45"
  using digit_val [of d] by auto

lemma nat_str_digits: "c \<in> set (nat_str n) \<Longrightarrow> \<exists>d < 10. c = digit d"
proof (induction n rule: nat_str.induct)
  case (1 n)
  show ?case
  proof (cases "n < 10")
    case True
    then show ?thesis using "1.prems" by (auto simp: nat_str.simps [of n])
  next
    case False
    then have "c \<in> set (nat_str (n div 10)) \<or> c = digit (n mod 10)"
      using "1.prems" by (auto simp: nat_str.simps [of n])
    then show ?thesis
    proof
      assume "c = digit (n mod 10)"
      then show ?thesis by (intro exI [of _ "n mod 10"]) simp
    qed (rule "1.IH" [OF False])
  qed
qed

lemma nat_str_no_dash: "45 \<notin> set (nat_str n)"
  using nat_str_digits digit_not_dash by metis

lemma nat_str_nonempty: "nat_str n \<noteq> []"
  by (simp add: nat_str.simps [of n])

lemma nat_str_inj: "nat_str m = nat_str n \<Longrightarrow> m = n"
proof (induction m arbitrary: n rule: nat_str.induct)
  case (1 m)
  have l: "nat_str (k div 10) @ [digit (k mod 10)] \<noteq> [digit d]" for k d
    using nat_str_nonempty by simp
  show ?case
  proof (cases "m < 10 \<or> n < 10")
    case True
    then have "m < 10 \<and> n < 10"
      using "1.prems" l l [symmetric] by (auto simp: nat_str.simps [of m] nat_str.simps [of n] split: if_splits)
    then show ?thesis using "1.prems" digit_inj by (simp add: nat_str.simps [of m] nat_str.simps [of n])
  next
    case False
    then have "nat_str (m div 10) = nat_str (n div 10)" "digit (m mod 10) = digit (n mod 10)"
      using "1.prems" by (simp_all add: nat_str.simps [of m] nat_str.simps [of n])
    then have "m div 10 = n div 10" "m mod 10 = n mod 10" using "1.IH" False digit_inj by auto
    then show ?thesis by (metis div_mult_mod_eq)
  qed
qed

lemma num_str_nonneg: "0 \<le> i \<Longrightarrow> num_str i = nat_str (nat i)"
  by (simp add: num_str_def)

lemma num_str_inj: "0 \<le> i \<Longrightarrow> 0 \<le> j \<Longrightarrow> num_str i = num_str j \<longleftrightarrow> i = j"
  using nat_str_inj [of "nat i" "nat j"] by (auto simp: num_str_nonneg)

lemma num_str_no_dash: "0 \<le> i \<Longrightarrow> 45 \<notin> set (num_str i)"
  by (simp add: num_str_nonneg nat_str_no_dash)

definition nonneg :: "int option \<Rightarrow> bool" where
  "nonneg x \<longleftrightarrow> (case x of None \<Rightarrow> True | Some i \<Rightarrow> 0 \<le> i)"

lemma opt_num_str_no_dash: "nonneg x \<Longrightarrow> 45 \<notin> set (opt_num_str x)"
  by (auto simp: nonneg_def opt_num_str_def num_str_no_dash js_def split: option.splits)

lemma num_str_not_null: "0 \<le> i \<Longrightarrow> num_str i \<noteq> js ''null''"
proof
  assume i: "0 \<le> i" "num_str i = js ''null''"
  then have "(0x6E :: code_unit) \<in> set (nat_str (nat i))" by (simp add: num_str_nonneg js_def)
  then obtain d where "d < 10" "(0x6E :: code_unit) = digit d" using nat_str_digits by blast
  then show False using digit_val [of d] by simp
qed

lemma opt_num_str_inj: "nonneg x \<Longrightarrow> nonneg y \<Longrightarrow> opt_num_str x = opt_num_str y \<longleftrightarrow> x = y"
  using num_str_not_null num_str_not_null [symmetric]
  by (auto simp: nonneg_def opt_num_str_def num_str_inj split: option.splits)

lemma split_first:
  "x \<notin> set xs \<Longrightarrow> x \<notin> set ys \<Longrightarrow> xs @ x # us = ys @ x # vs \<longleftrightarrow> xs = ys \<and> us = vs"
proof (induction xs arbitrary: ys)
  case Nil
  then show ?case by (cases ys) auto
next
  case (Cons a xs)
  then show ?case by (cases ys) auto
qed

lemma split_last:
  "x \<notin> set us \<Longrightarrow> x \<notin> set vs \<Longrightarrow> xs @ x # us = ys @ x # vs \<longleftrightarrow> xs = ys \<and> us = vs"
  using split_first [of x "rev us" "rev vs" "rev xs" "rev ys"]
  by (metis append.assoc append_Cons append_Nil rev.simps(2) rev_append rev_rev_ident set_rev)

subsection \<open>Stable sorting with a comparator\<close>

text \<open>
  \<open>Array.prototype.sort(cmp)\<close> is stable, so for a consistent comparator its result is
  determined: it is the insertion sort below. Elements are inserted from the right, before the
  elements they compare equal to.
\<close>

fun js_insort :: "('a \<Rightarrow> 'a \<Rightarrow> int) \<Rightarrow> 'a \<Rightarrow> 'a list \<Rightarrow> 'a list" where
  "js_insort cmp x [] = [x]"
| "js_insort cmp x (y # ys) = (if cmp x y \<le> 0 then x # y # ys else y # js_insort cmp x ys)"

definition js_sort :: "('a \<Rightarrow> 'a \<Rightarrow> int) \<Rightarrow> 'a list \<Rightarrow> 'a list" where
  "js_sort cmp xs = foldr (js_insort cmp) xs []"

lemma js_insort_key:
  assumes "\<And>x y. cmp x y \<le> 0 \<longleftrightarrow> f x \<le> f y"
  shows "js_insort cmp x xs = insort_key f x xs"
  by (induction xs) (auto simp: assms)

lemma js_sort_key:
  assumes "\<And>x y. cmp x y \<le> 0 \<longleftrightarrow> f x \<le> f y"
  shows "js_sort cmp xs = sort_key f xs"
  unfolding js_sort_def sort_key_def
  by (induction xs) (auto simp: js_insort_key [OF assms])

lemma mset_js_insort [simp]: "mset (js_insort cmp x xs) = add_mset x (mset xs)"
  by (induction xs) auto

lemma mset_js_sort [simp]: "mset (js_sort cmp xs) = mset xs"
  unfolding js_sort_def by (induction xs) auto

lemma set_js_sort [simp]: "set (js_sort cmp xs) = set xs"
  by (metis mset_js_sort set_mset_mset)

lemma length_js_sort [simp]: "length (js_sort cmp xs) = length xs"
  by (metis mset_js_sort size_mset)

lemma distinct_js_sort [simp]: "distinct (js_sort cmp xs) = distinct xs"
  by (metis distinct_count_atmost_1 mset_js_sort set_js_sort)

subsection \<open>\<open>findIndex\<close> and \<open>splice\<close>\<close>

fun find_index :: "('a \<Rightarrow> bool) \<Rightarrow> 'a list \<Rightarrow> int" where
  "find_index P [] = -1"
| "find_index P (x # xs) =
     (if P x then 0 else (let i = find_index P xs in if i = -1 then -1 else i + 1))"

text \<open>\<open>xs.splice(i, 1)\<close>: a negative start counts from the end, as the language defines it, so
  \<open>splice(-1, 1)\<close> removes the last element.\<close>

definition splice_remove :: "int \<Rightarrow> 'a list \<Rightarrow> 'a list" where
  "splice_remove i xs =
     (let k = nat (if i < 0 then max 0 (int (length xs) + i) else i)
      in take k xs @ drop (Suc k) xs)"

text \<open>\<open>xs.splice(i, 0, x)\<close> for an index the code has found.\<close>

definition splice_insert :: "int \<Rightarrow> 'a \<Rightarrow> 'a list \<Rightarrow> 'a list" where
  "splice_insert i x xs = take (nat i) xs @ x # drop (nat i) xs"

lemma find_index_ge [simp]: "-1 \<le> find_index P xs"
  by (induction xs) (auto simp: Let_def)

lemma find_index_none [simp]: "find_index P xs = -1 \<longleftrightarrow> (\<forall>x \<in> set xs. \<not> P x)"
proof (induction xs)
  case (Cons a xs)
  have "-1 \<le> find_index P xs" by simp
  then have "find_index P xs + 1 \<noteq> -1" by linarith
  with Cons show ?case by (auto simp: Let_def)
qed simp

lemma splice_remove_find:
  assumes "\<exists>x \<in> set xs. P x"
  obtains ys x zs where "xs = ys @ x # zs" "P x" "\<forall>y \<in> set ys. \<not> P y"
    "splice_remove (find_index P xs) xs = ys @ zs"
proof -
  have "\<exists>ys x zs. xs = ys @ x # zs \<and> P x \<and> (\<forall>y \<in> set ys. \<not> P y) \<and>
      find_index P xs = int (length ys)"
    using assms
  proof (induction xs)
    case (Cons a xs)
    show ?case
    proof (cases "P a")
      case True
      then show ?thesis by (intro exI [of _ "[]"] exI [of _ a] exI [of _ xs]) simp
    next
      case False
      with Cons obtain ys x zs where "xs = ys @ x # zs" "P x" "\<forall>y \<in> set ys. \<not> P y"
        "find_index P xs = int (length ys)" by auto
      with False show ?thesis
        by (intro exI [of _ "a # ys"] exI [of _ x] exI [of _ zs]) (simp add: Let_def)
    qed
  qed simp
  then obtain ys x zs where f: "xs = ys @ x # zs" "P x" "\<forall>y \<in> set ys. \<not> P y" "find_index P xs = int (length ys)"
    by blast
  then have "splice_remove (find_index P xs) xs = ys @ zs" by (simp add: splice_remove_def Let_def)
  with f(1-3) show ?thesis by (rule that)
qed

lemma set_splice_insert [simp]: "set (splice_insert i x xs) = insert x (set xs)"
proof -
  have "set (take (nat i) xs) \<union> set (drop (nat i) xs) = set xs"
    by (metis append_take_drop_id set_append)
  then show ?thesis by (auto simp: splice_insert_def)
qed

lemma mset_splice_insert [simp]: "mset (splice_insert i x xs) = add_mset x (mset xs)"
proof -
  have "mset (take (nat i) xs) + mset (drop (nat i) xs) = mset xs"
    by (metis append_take_drop_id mset_append)
  then show ?thesis by (simp add: splice_insert_def)
qed

text \<open>Insertion before the first element that satisfies the test, or at the end: the pattern
  \<open>findIndex\<close> then \<open>push\<close> or \<open>splice\<close> of the priority queues.\<close>

definition insert_before :: "('a \<Rightarrow> bool) \<Rightarrow> 'a \<Rightarrow> 'a list \<Rightarrow> 'a list" where
  "insert_before P x xs =
     (let i = find_index P xs in if i = -1 then xs @ [x] else splice_insert i x xs)"

lemma insert_before_Nil [simp]: "insert_before P x [] = [x]"
  by (simp add: insert_before_def)

lemma insert_before_Cons [simp]:
  "insert_before P x (y # ys) = (if P y then x # y # ys else y # insert_before P x ys)"
proof (cases "P y \<or> find_index P ys = -1")
  case True
  then show ?thesis by (auto simp: insert_before_def Let_def splice_insert_def)
next
  case False
  moreover have "-1 \<le> find_index P ys" by simp
  ultimately have "0 \<le> find_index P ys" by linarith
  then have "nat (find_index P ys + 1) = Suc (nat (find_index P ys))" by simp
  with False \<open>0 \<le> find_index P ys\<close> show ?thesis
    by (auto simp: insert_before_def Let_def splice_insert_def)
qed

lemma mset_insert_before [simp]: "mset (insert_before P x xs) = add_mset x (mset xs)"
  by (induction xs) auto

lemma set_insert_before [simp]: "set (insert_before P x xs) = insert x (set xs)"
  by (induction xs) auto

lemma length_insert_before [simp]: "length (insert_before P x xs) = Suc (length xs)"
  by (induction xs) auto

lemma distinct_insert_before [simp]:
  "distinct (insert_before P x xs) \<longleftrightarrow> x \<notin> set xs \<and> distinct xs"
  by (induction xs) auto

end
