(* ===== verification/Exec_Lock.thy ===== *)
theory Exec_Lock
  imports Epg_Prelude
begin

text \<open>
  \<open>src/src/model/ExecutionManagementModel.ts\<close>: the lock that serialises the operations of one
  manager. A request first obtains an id (or waits in \<open>allocationQueue\<close> while the id space is
  exhausted), then waits in \<open>exeQueue\<close> in the order of its priority, and finally owns the lock.

  The entries (\<open>ExeQueueData\<close>) are objects shared by the queues, the owner field, the timers and
  the event listeners, so they live in a store \<open>heap\<close> and everything else holds references
  (natural numbers, handed out in creation order). The two callbacks of a promise are recorded in
  the lists \<open>resolved\<close> and \<open>rejected\<close>, which the code does not have: they are the
  observable outcome of each request.
\<close>

subsection \<open>State\<close>

datatype exec_state = Allocating | Waiting | Granted | Overdue | Expired | Released

record exe_queue_data =
  exId :: "nat option"
  exPriority :: int
  exState :: exec_state
  timerArmed :: bool
  ownerTimerArmed :: bool

record exec_model =
  heap :: "nat \<Rightarrow> exe_queue_data"
  nextRef :: nat
  lockId :: "nat option"
  owner :: "nat option"
  nextExecutionId :: nat
  exeQueue :: "nat list"
  allocationQueue :: "nat list"
  listeners :: "nat list"
  maxExecutionId :: nat
  ownerWatchdog :: bool
  resolved :: "(nat \<times> nat) list"
  rejected :: "nat list"

definition blank_entry :: exe_queue_data where
  "blank_entry = \<lparr>exId = None, exPriority = 0, exState = Allocating,
     timerArmed = False, ownerTimerArmed = False\<rparr>"

text \<open>The constructor refuses an id limit below 1.\<close>

definition new_exec_model :: "int \<Rightarrow> bool \<Rightarrow> exec_model result" where
  "new_exec_model maxId watchdog =
     (if maxId < 1 \<or> 2 ^ 53 - 1 < maxId then Inl (Thrown ''ExecutionManagementMaxIdError'')
      else Inr \<lparr>heap = (\<lambda>_. blank_entry), nextRef = 0, lockId = None, owner = None,
        nextExecutionId = 1, exeQueue = [], allocationQueue = [], listeners = [],
        maxExecutionId = nat maxId, ownerWatchdog = watchdog, resolved = [], rejected = []\<rparr>)"

definition upd_entry ::
  "nat \<Rightarrow> (exe_queue_data \<Rightarrow> exe_queue_data) \<Rightarrow> exec_model \<Rightarrow> exec_model" where
  "upd_entry r f s = s\<lparr>heap := (heap s)(r := f (heap s r))\<rparr>"

definition createEntry :: "int \<Rightarrow> exec_model \<Rightarrow> exec_model \<times> nat" where
  "createEntry priority s =
     (let r = nextRef s;
          e = \<lparr>exId = None, exPriority = priority, exState = Allocating,
               timerArmed = False, ownerTimerArmed = False\<rparr>
      in (s\<lparr>heap := (heap s)(r := e), nextRef := Suc r\<rparr>, r))"

subsection \<open>Identifiers\<close>

definition isIdHoldingState :: "exec_state \<Rightarrow> bool" where
  "isIdHoldingState st \<longleftrightarrow> st = Waiting \<or> st = Granted \<or> st = Overdue"

definition isExecutionIdUsed :: "exec_model \<Rightarrow> nat \<Rightarrow> bool" where
  "isExecutionIdUsed s i \<longleftrightarrow>
     lockId s = Some i \<or>
     list_ex (\<lambda>r. exId (heap s r) = Some i \<and> isIdHoldingState (exState (heap s r))) (exeQueue s)"

fun allocate_loop :: "nat \<Rightarrow> nat \<Rightarrow> exec_model \<Rightarrow> exec_model \<times> bool" where
  "allocate_loop 0 r s = (s, False)"
| "allocate_loop (Suc attempts) r s =
     (let candidate = nextExecutionId s;
          s1 = s\<lparr>nextExecutionId := (if candidate = maxExecutionId s then 1 else candidate + 1)\<rparr>
      in if isExecutionIdUsed s1 candidate then allocate_loop attempts r s1
         else (upd_entry r (exId_update (\<lambda>_. Some candidate)) s1, True))"

definition allocateExecutionId :: "nat \<Rightarrow> exec_model \<Rightarrow> exec_model \<times> bool" where
  "allocateExecutionId r s = allocate_loop (maxExecutionId s) r s"

subsection \<open>The two queues\<close>

definition lower_priority :: "exec_model \<Rightarrow> nat \<Rightarrow> nat \<Rightarrow> bool" where
  "lower_priority s r candidate \<longleftrightarrow> exPriority (heap s candidate) < exPriority (heap s r)"

definition enqueueWaiting :: "nat \<Rightarrow> exec_model \<Rightarrow> exec_model" where
  "enqueueWaiting r s =
     (let s1 = upd_entry r (exState_update (\<lambda>_. Waiting)) s;
          s2 = s1\<lparr>listeners := listeners s1 @ [r]\<rparr>
      in s2\<lparr>exeQueue := insert_before (lower_priority s2 r) r (exeQueue s2)\<rparr>)"

definition enqueueAllocating :: "nat \<Rightarrow> exec_model \<Rightarrow> exec_model" where
  "enqueueAllocating r s =
     s\<lparr>allocationQueue := insert_before (lower_priority s r) r (allocationQueue s)\<rparr>"

function assignAllocationWaiters :: "exec_model \<Rightarrow> exec_model" where
  "assignAllocationWaiters s =
     (case allocationQueue s of
        [] \<Rightarrow> s
      | r # rest \<Rightarrow>
          if exState (heap s r) \<noteq> Allocating
          then assignAllocationWaiters (s\<lparr>allocationQueue := rest\<rparr>)
          else (case allocateExecutionId r s of
                  (s1, False) \<Rightarrow> s1
                | (s1, True) \<Rightarrow>
                    assignAllocationWaiters (enqueueWaiting r (s1\<lparr>allocationQueue := rest\<rparr>))))"
  by pat_completeness auto
termination
  by (relation "measure (\<lambda>s. length (allocationQueue s))")
     (auto simp: enqueueWaiting_def upd_entry_def Let_def)

declare assignAllocationWaiters.simps [simp del]

lemma assignAllocationWaiters_Nil [simp]:
  "allocationQueue s = [] \<Longrightarrow> assignAllocationWaiters s = s"
  by (simp add: assignAllocationWaiters.simps [of s])

subsection \<open>Granting the lock\<close>

text \<open>The listener of an entry: it settles the promise of the entry the lock was given to.\<close>

definition grant :: "nat \<Rightarrow> nat \<Rightarrow> exec_model \<Rightarrow> exec_model" where
  "grant i r s =
     (if owner s \<noteq> Some r \<or> exId (heap s r) \<noteq> Some i \<or> exState (heap s r) \<noteq> Granted then s
      else let s1 = upd_entry r (timerArmed_update (\<lambda>_. False)) s
           in s1\<lparr>listeners := remove1 r (listeners s1), resolved := resolved s1 @ [(r, i)]\<rparr>)"

definition startOwnerWatchdog :: "nat \<Rightarrow> exec_model \<Rightarrow> exec_model" where
  "startOwnerWatchdog r s =
     (if \<not> ownerWatchdog s then s else upd_entry r (ownerTimerArmed_update (\<lambda>_. True)) s)"

definition clearOwnerWatchdog :: "nat \<Rightarrow> exec_model \<Rightarrow> exec_model" where
  "clearOwnerWatchdog r s =
     (if \<not> ownerTimerArmed (heap s r) then s
      else upd_entry r (ownerTimerArmed_update (\<lambda>_. False)) s)"

text \<open>\<open>emit\<close> calls every listener that was registered when the event was emitted.\<close>

definition emit_unlock :: "nat \<Rightarrow> exec_model \<Rightarrow> exec_model" where
  "emit_unlock i s = fold (grant i) (listeners s) s"

function grantNext :: "exec_model \<Rightarrow> exec_model" where
  "grantNext s =
     (if lockId s \<noteq> None then s
      else case exeQueue s of
        [] \<Rightarrow> s
      | r # rest \<Rightarrow>
          let s1 = s\<lparr>exeQueue := rest\<rparr>
          in case exId (heap s1 r) of
               None \<Rightarrow> grantNext s1
             | Some i \<Rightarrow>
                 if exState (heap s1 r) \<noteq> Waiting then grantNext s1
                 else emit_unlock i
                   (startOwnerWatchdog r
                     (upd_entry r (exState_update (\<lambda>_. Granted))
                       (s1\<lparr>lockId := Some i, owner := Some r\<rparr>))))"
  by pat_completeness auto
termination
  by (relation "measure (\<lambda>s. length (exeQueue s))") auto

declare grantNext.simps [simp del]

subsection \<open>Operations\<close>

definition getExecution :: "int \<Rightarrow> exec_model \<Rightarrow> exec_model \<times> nat" where
  "getExecution priority s =
     (let (s1, r) = createEntry priority s;
          s2 = upd_entry r (timerArmed_update (\<lambda>_. True)) s1;
          (s3, ok) = allocateExecutionId r s2;
          s4 = (if ok then enqueueWaiting r s3 else enqueueAllocating r s3)
      in (grantNext s4, r))"

definition unLockExecution :: "nat \<Rightarrow> exec_model \<Rightarrow> exec_model" where
  "unLockExecution i s =
     (if lockId s \<noteq> Some i then s
      else case owner s of
        None \<Rightarrow> s
      | Some r \<Rightarrow>
          if exState (heap s r) \<noteq> Granted \<and> exState (heap s r) \<noteq> Overdue then s
          else let s1 = clearOwnerWatchdog r s;
                   s2 = upd_entry r (exState_update (\<lambda>_. Released)) s1;
                   s3 = s2\<lparr>owner := None, lockId := None\<rparr>
               in grantNext (assignAllocationWaiters s3))"

definition removeEntry :: "nat \<Rightarrow> exec_model \<Rightarrow> exec_model" where
  "removeEntry r s =
     s\<lparr>allocationQueue := remove1 r (allocationQueue s), exeQueue := remove1 r (exeQueue s)\<rparr>"

text \<open>The request's timer fires.\<close>

definition expire :: "nat \<Rightarrow> exec_model \<Rightarrow> exec_model" where
  "expire r s =
     (if exState (heap s r) \<noteq> Allocating \<and> exState (heap s r) \<noteq> Waiting then s
      else let s1 = removeEntry r s;
               s2 = upd_entry r (exState_update (\<lambda>_. Expired)) s1;
               s3 = upd_entry r (timerArmed_update (\<lambda>_. False)) s2;
               s4 = s3\<lparr>listeners := remove1 r (listeners s3)\<rparr>;
               s5 = assignAllocationWaiters s4
           in s5\<lparr>rejected := rejected s5 @ [r]\<rparr>)"

text \<open>The watchdog of the owner fires.\<close>

definition watchdogFires :: "nat \<Rightarrow> exec_model \<Rightarrow> exec_model" where
  "watchdogFires r s =
     (if owner s \<noteq> Some r \<or> exState (heap s r) \<noteq> Granted then s
      else upd_entry r (exState_update (\<lambda>_. Overdue) \<circ> ownerTimerArmed_update (\<lambda>_. False)) s)"

subsection \<open>Steps and reachable states\<close>

datatype exec_event = Request int | Unlock nat | Timeout nat | Watchdog nat

inductive exec_step :: "exec_model \<Rightarrow> exec_event \<Rightarrow> exec_model \<Rightarrow> bool" where
  request: "exec_step s (Request p) (fst (getExecution p s))"
| unlock: "exec_step s (Unlock i) (unLockExecution i s)"
| timeout: "r < nextRef s \<Longrightarrow> timerArmed (heap s r) \<Longrightarrow> exec_step s (Timeout r) (expire r s)"
| watchdog: "r < nextRef s \<Longrightarrow> ownerTimerArmed (heap s r) \<Longrightarrow>
    exec_step s (Watchdog r) (watchdogFires r s)"

inductive exec_reachable :: "exec_model \<Rightarrow> bool" where
  start: "new_exec_model m w = Inr s \<Longrightarrow> exec_reachable s"
| step: "exec_reachable s \<Longrightarrow> exec_step s e t \<Longrightarrow> exec_reachable t"

inductive_cases exec_step_requestE: "exec_step s (Request p) t"
inductive_cases exec_step_timeoutE: "exec_step s (Timeout r) t"

subsection \<open>The invariant\<close>

text \<open>Order of service: a higher priority first, and among equal priorities the older request.\<close>

definition served_before :: "exec_model \<Rightarrow> nat \<Rightarrow> nat \<Rightarrow> bool" where
  "served_before s a b \<longleftrightarrow>
     exPriority (heap s b) < exPriority (heap s a) \<or>
     (exPriority (heap s b) = exPriority (heap s a) \<and> a < b)"

definition ids_ok :: "exec_model \<Rightarrow> bool" where
  "ids_ok s \<longleftrightarrow> 1 \<le> nextExecutionId s \<and> nextExecutionId s \<le> maxExecutionId s \<and>
     (\<forall>r \<in> set (exeQueue s). \<exists>i. exId (heap s r) = Some i \<and> 1 \<le> i \<and> i \<le> maxExecutionId s) \<and>
     (\<forall>i. lockId s = Some i \<longrightarrow> 1 \<le> i \<and> i \<le> maxExecutionId s) \<and>
     inj_on (\<lambda>r. exId (heap s r)) (set (exeQueue s)) \<and>
     (\<forall>r \<in> set (exeQueue s). exId (heap s r) \<noteq> lockId s)"

text \<open>\<open>X\<close> holds the requests in flight between their creation and their queue.\<close>

definition queues_ok :: "nat set \<Rightarrow> exec_model \<Rightarrow> bool" where
  "queues_ok X s \<longleftrightarrow>
     (\<forall>r. r \<in> set (exeQueue s) \<longleftrightarrow> r < nextRef s \<and> exState (heap s r) = Waiting) \<and>
     (\<forall>r. r \<in> set (allocationQueue s) \<longleftrightarrow>
        r < nextRef s \<and> exState (heap s r) = Allocating \<and> r \<notin> X) \<and>
     (\<forall>r \<in> X. r < nextRef s \<and> exState (heap s r) = Allocating) \<and>
     (\<forall>r. r \<in> set (listeners s) \<longleftrightarrow> r < nextRef s \<and> exState (heap s r) = Waiting) \<and>
     distinct (listeners s) \<and>
     sorted_wrt (served_before s) (exeQueue s) \<and>
     sorted_wrt (served_before s) (allocationQueue s) \<and>
     (\<forall>a \<in> set (exeQueue s). \<forall>b \<in> set (allocationQueue s).
        exPriority (heap s a) = exPriority (heap s b) \<longrightarrow> a < b)"

definition owner_ok :: "exec_model \<Rightarrow> bool" where
  "owner_ok s \<longleftrightarrow> (lockId s = None \<longleftrightarrow> owner s = None) \<and>
     (\<forall>r. owner s = Some r \<longrightarrow> exId (heap s r) = lockId s) \<and>
     (\<forall>r. owner s = Some r \<longleftrightarrow>
        r < nextRef s \<and> (exState (heap s r) = Granted \<or> exState (heap s r) = Overdue))"

definition settled_ok :: "exec_model \<Rightarrow> bool" where
  "settled_ok s \<longleftrightarrow>
     distinct (map fst (resolved s)) \<and> distinct (rejected s) \<and>
     (\<forall>r. r \<in> fst ` set (resolved s) \<longleftrightarrow> r < nextRef s \<and>
        (exState (heap s r) = Granted \<or> exState (heap s r) = Overdue \<or>
         exState (heap s r) = Released)) \<and>
     (\<forall>r. r \<in> set (rejected s) \<longleftrightarrow> r < nextRef s \<and> exState (heap s r) = Expired) \<and>
     (\<forall>r. r < nextRef s \<longrightarrow>
        (timerArmed (heap s r) \<longleftrightarrow>
         exState (heap s r) = Allocating \<or> exState (heap s r) = Waiting))"

definition ids_exhausted :: "exec_model \<Rightarrow> bool" where
  "ids_exhausted s \<longleftrightarrow> (\<forall>i. 1 \<le> i \<and> i \<le> maxExecutionId s \<longrightarrow> isExecutionIdUsed s i)"

definition core_inv :: "nat set \<Rightarrow> exec_model \<Rightarrow> bool" where
  "core_inv X s \<longleftrightarrow> ids_ok s \<and> queues_ok X s \<and> owner_ok s \<and> settled_ok s"

definition exec_inv :: "exec_model \<Rightarrow> bool" where
  "exec_inv s \<longleftrightarrow> core_inv {} s \<and>
     (lockId s = None \<longrightarrow> exeQueue s = []) \<and>
     (allocationQueue s \<noteq> [] \<longrightarrow> ids_exhausted s)"

text \<open>The clauses one by one: the conjunction is rewritten into loops by the simplifier.\<close>

lemma queues_okD:
  assumes "queues_ok X s"
  shows "r \<in> set (exeQueue s) \<longleftrightarrow> r < nextRef s \<and> exState (heap s r) = Waiting"
    and "r \<in> set (allocationQueue s) \<longleftrightarrow>
      r < nextRef s \<and> exState (heap s r) = Allocating \<and> r \<notin> X"
    and "r \<in> X \<Longrightarrow> r < nextRef s \<and> exState (heap s r) = Allocating"
    and "r \<in> set (listeners s) \<longleftrightarrow> r < nextRef s \<and> exState (heap s r) = Waiting"
    and "distinct (listeners s)"
    and "sorted_wrt (served_before s) (exeQueue s)"
    and "sorted_wrt (served_before s) (allocationQueue s)"
    and "a \<in> set (exeQueue s) \<Longrightarrow> b \<in> set (allocationQueue s) \<Longrightarrow>
      exPriority (heap s a) = exPriority (heap s b) \<Longrightarrow> a < b"
  using assms unfolding queues_ok_def by blast+

lemma queues_okI:
  assumes "\<And>r. r \<in> set (exeQueue s) \<longleftrightarrow> r < nextRef s \<and> exState (heap s r) = Waiting"
    and "\<And>r. r \<in> set (allocationQueue s) \<longleftrightarrow>
      r < nextRef s \<and> exState (heap s r) = Allocating \<and> r \<notin> X"
    and "\<And>r. r \<in> X \<Longrightarrow> r < nextRef s \<and> exState (heap s r) = Allocating"
    and "\<And>r. r \<in> set (listeners s) \<longleftrightarrow> r < nextRef s \<and> exState (heap s r) = Waiting"
    and "distinct (listeners s)"
    and "sorted_wrt (served_before s) (exeQueue s)"
    and "sorted_wrt (served_before s) (allocationQueue s)"
    and "\<And>a b. a \<in> set (exeQueue s) \<Longrightarrow> b \<in> set (allocationQueue s) \<Longrightarrow>
      exPriority (heap s a) = exPriority (heap s b) \<Longrightarrow> a < b"
  shows "queues_ok X s"
  using assms unfolding queues_ok_def by blast

lemma owner_okD:
  assumes "owner_ok s"
  shows "lockId s = None \<longleftrightarrow> owner s = None"
    and "owner s = Some r \<Longrightarrow> exId (heap s r) = lockId s"
    and "owner s = Some r \<longleftrightarrow>
      r < nextRef s \<and> (exState (heap s r) = Granted \<or> exState (heap s r) = Overdue)"
  using assms unfolding owner_ok_def by blast+

lemma settled_okD:
  assumes "settled_ok s"
  shows "distinct (map fst (resolved s))" and "distinct (rejected s)"
    and "r \<in> fst ` set (resolved s) \<longleftrightarrow> r < nextRef s \<and>
      (exState (heap s r) = Granted \<or> exState (heap s r) = Overdue \<or> exState (heap s r) = Released)"
    and "r \<in> set (rejected s) \<longleftrightarrow> r < nextRef s \<and> exState (heap s r) = Expired"
    and "r < nextRef s \<Longrightarrow> timerArmed (heap s r) \<longleftrightarrow>
      exState (heap s r) = Allocating \<or> exState (heap s r) = Waiting"
  using assms unfolding settled_ok_def by blast+

lemma settled_okI:
  assumes "distinct (map fst (resolved s))" and "distinct (rejected s)"
    and "\<And>r. r \<in> fst ` set (resolved s) \<longleftrightarrow> r < nextRef s \<and>
      (exState (heap s r) = Granted \<or> exState (heap s r) = Overdue \<or> exState (heap s r) = Released)"
    and "\<And>r. r \<in> set (rejected s) \<longleftrightarrow> r < nextRef s \<and> exState (heap s r) = Expired"
    and "\<And>r. r < nextRef s \<Longrightarrow> timerArmed (heap s r) \<longleftrightarrow>
      exState (heap s r) = Allocating \<or> exState (heap s r) = Waiting"
  shows "settled_ok s"
  using assms unfolding settled_ok_def by blast

lemma owner_okI:
  assumes "lockId s = None \<longleftrightarrow> owner s = None"
    and "\<And>r. owner s = Some r \<Longrightarrow> exId (heap s r) = lockId s"
    and "\<And>r. owner s = Some r \<longleftrightarrow>
      r < nextRef s \<and> (exState (heap s r) = Granted \<or> exState (heap s r) = Overdue)"
  shows "owner_ok s"
  using assms unfolding owner_ok_def by blast

lemmas core_defs = core_inv_def ids_ok_def queues_ok_def owner_ok_def settled_ok_def

subsection \<open>Allocation visits every identifier once\<close>

definition cyc :: "nat \<Rightarrow> nat \<Rightarrow> nat \<Rightarrow> nat" where
  "cyc m n j = (n - 1 + j) mod m + 1"

lemma cyc_0: "1 \<le> n \<Longrightarrow> n \<le> m \<Longrightarrow> cyc m n 0 = n"
  by (simp add: cyc_def)

lemma cyc_Suc:
  assumes "1 \<le> n" "n \<le> m"
  shows "cyc m (if n = m then 1 else n + 1) j = cyc m n (Suc j)"
proof (cases "n = m")
  case True
  with assms have "n - 1 + Suc j = m + j" by simp
  then have "(n - 1 + Suc j) mod m = j mod m" by (metis mod_add_self1)
  then have "cyc m n (Suc j) = j mod m + 1" by (simp only: cyc_def)
  then show ?thesis using True by (simp add: cyc_def)
next
  case False
  with assms have "n + 1 - 1 + j = n - 1 + Suc j" by simp
  then show ?thesis using False by (simp add: cyc_def)
qed

lemma cyc_onto:
  assumes "1 \<le> n" "n \<le> m" "1 \<le> i" "i \<le> m"
  shows "\<exists>j < m. cyc m n j = i"
proof (cases "n \<le> i")
  case True
  then have "cyc m n (i - n) = i" "i - n < m"
    using assms by (auto simp: cyc_def)
  then show ?thesis by blast
next
  case False
  then have "n - 1 + (m + i - n) = m + (i - 1)" "m + i - n < m"
    using assms by auto
  then have "cyc m n (m + i - n) = (i - 1) mod m + 1"
    by (metis cyc_def mod_add_self1)
  then have "cyc m n (m + i - n) = i" using assms by simp
  with \<open>m + i - n < m\<close> show ?thesis by blast
qed

lemma isExecutionIdUsed_next [simp]:
  "isExecutionIdUsed (s\<lparr>nextExecutionId := n\<rparr>) i = isExecutionIdUsed s i"
  by (simp add: isExecutionIdUsed_def)

lemma allocate_loop_cases:
  assumes "allocate_loop k r s = (t, ok)"
    and "1 \<le> nextExecutionId s" "nextExecutionId s \<le> maxExecutionId s"
  shows "if ok
    then \<exists>c n. t = upd_entry r (exId_update (\<lambda>_. Some c)) (s\<lparr>nextExecutionId := n\<rparr>) \<and>
           \<not> isExecutionIdUsed s c \<and> 1 \<le> c \<and> c \<le> maxExecutionId s \<and>
           1 \<le> n \<and> n \<le> maxExecutionId s
    else (\<exists>n. t = s\<lparr>nextExecutionId := n\<rparr> \<and> 1 \<le> n \<and> n \<le> maxExecutionId s) \<and>
         (\<forall>j < k. isExecutionIdUsed s (cyc (maxExecutionId s) (nextExecutionId s) j))"
  using assms
proof (induction k arbitrary: s)
  case 0
  then have "t = s\<lparr>nextExecutionId := nextExecutionId s\<rparr>" "\<not> ok" by auto
  with 0 show ?case by (metis not_less_zero)
next
  case (Suc k)
  let ?c = "nextExecutionId s"
  let ?n = "if ?c = maxExecutionId s then 1 else ?c + 1"
  let ?s = "s\<lparr>nextExecutionId := ?n\<rparr>"
  have n: "1 \<le> ?n" "?n \<le> maxExecutionId s" using Suc.prems by auto
  show ?case
  proof (cases "isExecutionIdUsed s ?c")
    case False
    then have "t = upd_entry r (exId_update (\<lambda>_. Some ?c)) ?s" and ok: "ok"
      using Suc.prems(1) by (auto simp: Let_def)
    then have "\<exists>c n. t = upd_entry r (exId_update (\<lambda>_. Some c)) (s\<lparr>nextExecutionId := n\<rparr>) \<and>
        \<not> isExecutionIdUsed s c \<and> 1 \<le> c \<and> c \<le> maxExecutionId s \<and> 1 \<le> n \<and> n \<le> maxExecutionId s"
      using False Suc.prems(2,3) n by blast
    then show ?thesis by (simp only: ok if_True)
  next
    case True
    then have loop: "allocate_loop k r ?s = (t, ok)"
      using Suc.prems(1) by (simp add: Let_def)
    have used: "isExecutionIdUsed s (cyc (maxExecutionId s) ?c j)"
      if "\<forall>j < k. isExecutionIdUsed s (cyc (maxExecutionId s) ?n j)" "j < Suc k" for j
      using that True Suc.prems(2,3) by (cases j) (auto simp: cyc_0 cyc_Suc)
    show ?thesis using Suc.IH [OF loop] n used by (auto simp: less_Suc_eq_0_disj)
  qed
qed

lemma allocateExecutionId_cases:
  assumes "allocateExecutionId r s = (t, ok)"
    and "1 \<le> nextExecutionId s" "nextExecutionId s \<le> maxExecutionId s"
  obtains (some) c n where "ok" "t = upd_entry r (exId_update (\<lambda>_. Some c)) (s\<lparr>nextExecutionId := n\<rparr>)"
      "\<not> isExecutionIdUsed s c" "1 \<le> c" "c \<le> maxExecutionId s" "1 \<le> n" "n \<le> maxExecutionId s"
    | (none) n where "\<not> ok" "t = s\<lparr>nextExecutionId := n\<rparr>" "1 \<le> n" "n \<le> maxExecutionId s"
      "ids_exhausted s"
proof -
  have "ids_exhausted s"
    if "\<forall>j < maxExecutionId s. isExecutionIdUsed s (cyc (maxExecutionId s) (nextExecutionId s) j)"
    using that cyc_onto [OF assms(2,3)] unfolding ids_exhausted_def by metis
  then show ?thesis
    using allocate_loop_cases [OF assms(1) [unfolded allocateExecutionId_def] assms(2,3)] some none
    by (cases ok) (auto simp: allocateExecutionId_def)
qed

subsection \<open>Preservation: the queues\<close>

lemma served_before_cong:
  "(\<And>x. exPriority (heap t x) = exPriority (heap s x)) \<Longrightarrow> served_before t = served_before s"
  by (simp add: served_before_def fun_eq_iff)

lemma lower_priority_cong:
  "(\<And>x. exPriority (heap t x) = exPriority (heap s x)) \<Longrightarrow> lower_priority t = lower_priority s"
  by (simp add: lower_priority_def fun_eq_iff)

lemma sorted_insert_before:
  assumes "sorted_wrt (served_before s) xs"
    and "\<forall>a \<in> set xs. exPriority (heap s a) = exPriority (heap s r) \<longrightarrow> a < r"
  shows "sorted_wrt (served_before s) (insert_before (lower_priority s r) r xs)"
  using assms
proof (induction xs)
  case (Cons y ys)
  show ?case
  proof (cases "lower_priority s r y")
    case True
    with Cons.prems(1) have "\<forall>z \<in> set (y # ys). served_before s r z"
      by (auto simp: served_before_def lower_priority_def)
    with True Cons.prems(1) show ?thesis by simp
  next
    case False
    with Cons.prems(2) have "served_before s y r"
      by (auto simp: served_before_def lower_priority_def)
    with False Cons show ?thesis by simp
  qed
qed simp

lemma enqueueWaiting_eq:
  "enqueueWaiting r (upd_entry r (exId_update (\<lambda>_. Some c)) (s\<lparr>nextExecutionId := n\<rparr>)) =
   s\<lparr>heap := (heap s)(r := (heap s r)\<lparr>exId := Some c, exState := Waiting\<rparr>),
     nextExecutionId := n, listeners := listeners s @ [r],
     exeQueue := insert_before (lower_priority s r) r (exeQueue s)\<rparr>"
proof -
  let ?t = "s\<lparr>nextExecutionId := n,
     heap := (heap s)(r := (heap s r)\<lparr>exId := Some c, exState := Waiting\<rparr>),
     listeners := listeners s @ [r]\<rparr>"
  have "lower_priority ?t = lower_priority s" by (rule lower_priority_cong) simp
  then show ?thesis by (simp add: enqueueWaiting_def upd_entry_def Let_def)
qed

lemma start_waiting:
  assumes inv: "core_inv X s" and r: "r \<in> X"
    and c: "\<not> isExecutionIdUsed s c" "1 \<le> c" "c \<le> maxExecutionId s"
    and n: "1 \<le> n" "n \<le> maxExecutionId s"
    and old: "\<forall>a \<in> set (exeQueue s). exPriority (heap s a) = exPriority (heap s r) \<longrightarrow> a < r"
    and new: "\<forall>b \<in> set (allocationQueue s). exPriority (heap s b) = exPriority (heap s r) \<longrightarrow> r < b"
  shows "core_inv (X - {r})
    (enqueueWaiting r (upd_entry r (exId_update (\<lambda>_. Some c)) (s\<lparr>nextExecutionId := n\<rparr>)))"
    (is "core_inv _ ?t")
proof -
  note t = enqueueWaiting_eq [of r c n s]
  have q: "queues_ok X s" and i: "ids_ok s" and o: "owner_ok s" and e: "settled_ok s"
    using inv by (simp_all add: core_inv_def)
  have r0: "r < nextRef s" "exState (heap s r) = Allocating"
    using q r by (auto simp: queues_ok_def)
  have r1: "r \<notin> set (exeQueue s)" "r \<notin> set (allocationQueue s)"
    using q r r0 by (auto simp: queues_ok_def)
  have r2: "owner s \<noteq> Some r" using o r0 by (simp add: owner_ok_def)
  have sb: "served_before ?t = served_before s"
    by (rule served_before_cong) (simp add: t)
  have held: "isIdHoldingState (exState (heap s a))" if "a \<in> set (exeQueue s)" for a
    using q that by (simp add: queues_ok_def isIdHoldingState_def)
  then have fresh: "exId (heap s a) \<noteq> Some c" if "a \<in> set (exeQueue s)" for a
    using c(1) that by (auto simp: isExecutionIdUsed_def list_ex_iff)
  then have fresh': "Some c \<noteq> exId (heap s a)" if "a \<in> set (exeQueue s)" for a
    using that by metis
  have lock: "lockId s \<noteq> Some c" using c(1) by (simp add: isExecutionIdUsed_def)
  have "inj_on (\<lambda>a. exId (heap ?t a)) (set (exeQueue ?t))"
    using i fresh fresh' r1 by (simp add: ids_ok_def inj_on_def t)
  then have "ids_ok ?t"
    using i c n r1 lock fresh by (simp add: ids_ok_def t)
  moreover have "queues_ok (X - {r}) ?t"
  proof -
    have "sorted_wrt (served_before ?t) (exeQueue ?t)"
      using sorted_insert_before [OF _ old] q sb by (simp add: t queues_ok_def)
    moreover have "sorted_wrt (served_before ?t) (allocationQueue ?t)"
      using q sb by (simp add: t queues_ok_def)
    moreover have "\<forall>a \<in> set (exeQueue ?t). \<forall>b \<in> set (allocationQueue ?t).
        exPriority (heap ?t a) = exPriority (heap ?t b) \<longrightarrow> a < b"
    proof -
      have prio: "exPriority (heap ?t x) = exPriority (heap s x)" for x by (simp add: t)
      have sets: "set (exeQueue ?t) = insert r (set (exeQueue s))"
          "set (allocationQueue ?t) = set (allocationQueue s)"
        by (simp_all add: t)
      have "\<forall>a \<in> set (exeQueue s). \<forall>b \<in> set (allocationQueue s).
          exPriority (heap s a) = exPriority (heap s b) \<longrightarrow> a < b"
        using q unfolding queues_ok_def by blast
      with new show ?thesis unfolding prio sets by (metis insertE)
    qed
    moreover have "\<forall>x. x \<in> set (exeQueue ?t) \<longleftrightarrow>
        x < nextRef ?t \<and> exState (heap ?t x) = Waiting"
      using q r0 by (simp add: t queues_ok_def)
    moreover have "\<forall>x. x \<in> set (listeners ?t) \<longleftrightarrow>
        x < nextRef ?t \<and> exState (heap ?t x) = Waiting"
      using q r0 by (simp add: t queues_ok_def)
    moreover have "\<forall>x. x \<in> set (allocationQueue ?t) \<longleftrightarrow>
        x < nextRef ?t \<and> exState (heap ?t x) = Allocating \<and> x \<notin> X - {r}"
      using q r r0 by (simp add: t queues_ok_def)
    moreover have "\<forall>x \<in> X - {r}. x < nextRef ?t \<and> exState (heap ?t x) = Allocating"
      using q r0 by (simp add: t queues_ok_def)
    moreover have "distinct (listeners ?t)"
      using q r0 by (simp add: t queues_ok_def)
    ultimately show ?thesis unfolding queues_ok_def by blast
  qed
  moreover have "owner_ok ?t"
    using o r0 r2 by (simp add: owner_ok_def t)
  moreover have "settled_ok ?t"
    using e r0 by (simp add: settled_ok_def t)
  ultimately show ?thesis by (simp add: core_inv_def)
qed

lemma start_allocating:
  assumes inv: "core_inv X s" and r: "r \<in> X"
    and old: "\<forall>a \<in> set (exeQueue s) \<union> set (allocationQueue s).
      exPriority (heap s a) = exPriority (heap s r) \<longrightarrow> a < r"
  shows "core_inv (X - {r}) (enqueueAllocating r s)"
proof -
  have q: "queues_ok X s" using inv by (simp add: core_inv_def)
  have sb: "served_before (enqueueAllocating r s) = served_before s"
    by (rule served_before_cong) (simp add: enqueueAllocating_def)
  have "sorted_wrt (served_before s) (allocationQueue (enqueueAllocating r s))"
    using sorted_insert_before [of s "allocationQueue s" r] q old
    by (simp add: enqueueAllocating_def queues_ok_def)
  then have "queues_ok (X - {r}) (enqueueAllocating r s)"
    using q r old unfolding queues_ok_def sb by (auto simp: enqueueAllocating_def)
  moreover have "ids_ok (enqueueAllocating r s) = ids_ok s" "owner_ok (enqueueAllocating r s) = owner_ok s"
      "settled_ok (enqueueAllocating r s) = settled_ok s"
    by (simp_all add: ids_ok_def owner_ok_def settled_ok_def enqueueAllocating_def)
  ultimately show ?thesis using inv by (simp add: core_inv_def)
qed

lemma next_id_core:
  "core_inv X s \<Longrightarrow> 1 \<le> n \<Longrightarrow> n \<le> maxExecutionId s \<Longrightarrow> core_inv X (s\<lparr>nextExecutionId := n\<rparr>)"
proof -
  assume *: "core_inv X s" "1 \<le> n" "n \<le> maxExecutionId s"
  have "served_before (s\<lparr>nextExecutionId := n\<rparr>) = served_before s"
    by (rule served_before_cong) simp
  with * show ?thesis by (simp add: core_defs)
qed

lemma ids_exhausted_next [simp]: "ids_exhausted (s\<lparr>nextExecutionId := n\<rparr>) = ids_exhausted s"
  by (simp add: ids_exhausted_def)

lemma pop_allocation:
  assumes inv: "core_inv {} s" and hd: "allocationQueue s = r # rest"
  shows "core_inv {r} (s\<lparr>allocationQueue := rest\<rparr>)"
    and "r < nextRef s" and "exState (heap s r) = Allocating"
    and "\<forall>a \<in> set (exeQueue s). exPriority (heap s a) = exPriority (heap s r) \<longrightarrow> a < r"
    and "\<forall>b \<in> set rest. exPriority (heap s b) = exPriority (heap s r) \<longrightarrow> r < b"
proof -
  have q: "queues_ok {} s" and rest: "ids_ok s" "owner_ok s" "settled_ok s"
    using inv by (simp_all add: core_inv_def)
  have alloc: "\<forall>x. x \<in> set (r # rest) \<longleftrightarrow> x < nextRef s \<and> exState (heap s x) = Allocating"
    using q unfolding queues_ok_def hd by blast
  then show r: "r < nextRef s" "exState (heap s r) = Allocating" by auto
  have sorted: "sorted_wrt (served_before s) (r # rest)"
    using q unfolding queues_ok_def hd by blast
  have notin: "r \<notin> set rest"
    using sorted by (auto simp: served_before_def)
  have cross: "\<forall>a \<in> set (exeQueue s). \<forall>b \<in> set (r # rest).
      exPriority (heap s a) = exPriority (heap s b) \<longrightarrow> a < b"
    using q unfolding queues_ok_def hd by blast
  then show "\<forall>a \<in> set (exeQueue s). exPriority (heap s a) = exPriority (heap s r) \<longrightarrow> a < r"
    by simp
  show "\<forall>b \<in> set rest. exPriority (heap s b) = exPriority (heap s r) \<longrightarrow> r < b"
    using sorted by (auto simp: served_before_def)
  have sb: "served_before (s\<lparr>allocationQueue := rest\<rparr>) = served_before s"
    by (rule served_before_cong) simp
  have "queues_ok {r} (s\<lparr>allocationQueue := rest\<rparr>)"
  proof (rule queues_okI)
    fix x
    show "x \<in> set (allocationQueue (s\<lparr>allocationQueue := rest\<rparr>)) \<longleftrightarrow>
        x < nextRef (s\<lparr>allocationQueue := rest\<rparr>) \<and>
        exState (heap (s\<lparr>allocationQueue := rest\<rparr>) x) = Allocating \<and> x \<notin> {r}"
      using alloc notin by auto
  next
    fix a b
    assume "a \<in> set (exeQueue (s\<lparr>allocationQueue := rest\<rparr>))"
      "b \<in> set (allocationQueue (s\<lparr>allocationQueue := rest\<rparr>))"
      "exPriority (heap (s\<lparr>allocationQueue := rest\<rparr>) a) =
       exPriority (heap (s\<lparr>allocationQueue := rest\<rparr>) b)"
    then show "a < b" using cross by simp
  qed (use r sorted queues_okD [OF q] sb in simp_all)
  then show "core_inv {r} (s\<lparr>allocationQueue := rest\<rparr>)"
    using rest by (simp add: core_inv_def ids_ok_def owner_ok_def settled_ok_def)
qed

lemma assignAllocationWaiters_inv:
  assumes "core_inv {} s"
  shows "core_inv {} (assignAllocationWaiters s) \<and>
    (allocationQueue (assignAllocationWaiters s) \<noteq> [] \<longrightarrow>
       ids_exhausted (assignAllocationWaiters s)) \<and>
    lockId (assignAllocationWaiters s) = lockId s \<and>
    maxExecutionId (assignAllocationWaiters s) = maxExecutionId s"
  using assms
proof (induction s rule: assignAllocationWaiters.induct)
  case (1 s)
  show ?case
  proof (cases "allocationQueue s")
    case Nil
    then show ?thesis using 1 by (simp add: assignAllocationWaiters.simps [of s])
  next
    case (Cons r rest)
    note pop = pop_allocation [OF 1(3) Cons]
    obtain t ok where alloc: "allocateExecutionId r s = (t, ok)" by fastforce
    have bounds: "1 \<le> nextExecutionId s" "nextExecutionId s \<le> maxExecutionId s"
      using 1(3) by (auto simp: core_inv_def ids_ok_def)
    from alloc bounds show ?thesis
    proof (cases rule: allocateExecutionId_cases)
      case (some c n)
      let ?s = "s\<lparr>allocationQueue := rest\<rparr>"
      let ?u = "enqueueWaiting r (upd_entry r (exId_update (\<lambda>_. Some c)) (?s\<lparr>nextExecutionId := n\<rparr>))"
      have u: "enqueueWaiting r (t\<lparr>allocationQueue := rest\<rparr>) = ?u"
      proof -
        have "t\<lparr>allocationQueue := rest\<rparr> =
            upd_entry r (exId_update (\<lambda>_. Some c)) (?s\<lparr>nextExecutionId := n\<rparr>)"
          using some by (cases s) (simp add: upd_entry_def)
        then show ?thesis by simp
      qed
      have "\<not> isExecutionIdUsed ?s c" using some by (simp add: isExecutionIdUsed_def)
      then have "core_inv ({r} - {r}) ?u"
        using start_waiting [OF pop(1), of r c n] some pop by simp
      moreover have "assignAllocationWaiters s = assignAllocationWaiters ?u"
        using Cons pop alloc some u by (simp add: assignAllocationWaiters.simps [of s])
      moreover have "lockId ?u = lockId s" "maxExecutionId ?u = maxExecutionId s"
        unfolding enqueueWaiting_eq by simp_all
      ultimately show ?thesis
        using 1(2) [OF Cons _ alloc [symmetric]] pop some u by simp
    next
      case (none n)
      then have "assignAllocationWaiters s = s\<lparr>nextExecutionId := n\<rparr>"
        using Cons pop alloc by (simp add: assignAllocationWaiters.simps [of s])
      then show ?thesis using none next_id_core [OF 1(3)] by simp
    qed
  qed
qed

subsection \<open>Preservation: granting\<close>

lemma fold_grant:
  assumes "distinct ls" and "owner s = Some r" and "r \<notin> set ls"
  shows "fold (grant i) ls s = s"
  using assms by (induction ls) (auto simp: grant_def)

lemma fold_grant_owner:
  assumes "distinct ls" and "r \<in> set ls" and "owner s = Some r"
    and "exId (heap s r) = Some i" and "exState (heap s r) = Granted"
  shows "fold (grant i) ls s = grant i r s"
proof -
  obtain xs ys where ls: "ls = xs @ r # ys" "r \<notin> set xs" "r \<notin> set ys" "distinct xs" "distinct ys"
    using assms(1,2) by (metis split_list distinct.simps(2) distinct_append not_distinct_conv_prefix)
  have "owner (grant i r s) = Some r" using assms by (simp add: grant_def upd_entry_def Let_def)
  then show ?thesis using ls assms by (simp add: fold_grant)
qed

lemma grantNext_busy [simp]: "lockId s \<noteq> None \<Longrightarrow> grantNext s = s"
  by (auto simp: grantNext.simps [of s])

lemma grantNext_idle [simp]: "exeQueue s = [] \<Longrightarrow> grantNext s = s"
  by (simp add: grantNext.simps [of s])

lemma grantNext_head:
  assumes inv: "core_inv {} s" and free: "lockId s = None" and q: "exeQueue s = r # rest"
  obtains i where "exId (heap s r) = Some i" "1 \<le> i" "i \<le> maxExecutionId s"
    "r < nextRef s" "exState (heap s r) = Waiting"
    "grantNext s = s\<lparr>heap := (heap s)(r := (heap s r)\<lparr>exState := Granted, timerArmed := False,
         ownerTimerArmed := ownerWatchdog s \<or> ownerTimerArmed (heap s r)\<rparr>),
       lockId := Some i, owner := Some r, exeQueue := rest, listeners := remove1 r (listeners s),
       resolved := resolved s @ [(r, i)]\<rparr>"
proof -
  have r: "r < nextRef s" "exState (heap s r) = Waiting" "r \<in> set (listeners s)"
      "distinct (listeners s)"
    using inv q unfolding core_inv_def queues_ok_def by auto
  obtain i where i: "exId (heap s r) = Some i" "1 \<le> i" "i \<le> maxExecutionId s"
    using inv q unfolding core_inv_def ids_ok_def by auto
  let ?g = "startOwnerWatchdog r (upd_entry r (exState_update (\<lambda>_. Granted))
      (s\<lparr>exeQueue := rest, lockId := Some i, owner := Some r\<rparr>))"
  have g: "owner ?g = Some r" "exId (heap ?g r) = Some i" "exState (heap ?g r) = Granted"
      "listeners ?g = listeners s"
    using i by (simp_all add: startOwnerWatchdog_def upd_entry_def)
  have "grantNext s = emit_unlock i ?g"
    using q free i r by (simp add: grantNext.simps [of s])
  also have "\<dots> = grant i r ?g"
    unfolding emit_unlock_def using g r by (simp add: fold_grant_owner)
  also have "\<dots> = s\<lparr>heap := (heap s)(r := (heap s r)\<lparr>exState := Granted, timerArmed := False,
         ownerTimerArmed := ownerWatchdog s \<or> ownerTimerArmed (heap s r)\<rparr>),
       lockId := Some i, owner := Some r, exeQueue := rest, listeners := remove1 r (listeners s),
       resolved := resolved s @ [(r, i)]\<rparr>"
    using i by (cases "ownerWatchdog s")
      (auto simp: grant_def startOwnerWatchdog_def upd_entry_def Let_def
        intro!: exec_model.equality exe_queue_data.equality ext)
  finally show ?thesis using that i r by blast
qed

lemma grantNext_core:
  assumes inv: "core_inv {} s" and free: "lockId s = None" and q: "exeQueue s = r # rest"
  shows "core_inv {} (grantNext s)" and "lockId (grantNext s) \<noteq> None"
    and "ids_exhausted s \<Longrightarrow> ids_exhausted (grantNext s)"
    and "allocationQueue (grantNext s) = allocationQueue s"
proof -
  obtain i where i: "exId (heap s r) = Some i" "1 \<le> i" "i \<le> maxExecutionId s"
    and r: "r < nextRef s" "exState (heap s r) = Waiting"
    and t: "grantNext s = s\<lparr>heap := (heap s)(r := (heap s r)\<lparr>exState := Granted,
         timerArmed := False, ownerTimerArmed := ownerWatchdog s \<or> ownerTimerArmed (heap s r)\<rparr>),
       lockId := Some i, owner := Some r, exeQueue := rest, listeners := remove1 r (listeners s),
       resolved := resolved s @ [(r, i)]\<rparr>" (is "_ = ?t")
    using grantNext_head [OF inv free q] by blast
  have qk: "queues_ok {} s" and ik: "ids_ok s" and ok: "owner_ok s" and sk: "settled_ok s"
    using inv by (simp_all add: core_inv_def)
  have sorted: "sorted_wrt (served_before s) (r # rest)" using queues_okD(6) [OF qk] q by simp
  have notin: "r \<notin> set rest" using sorted by (auto simp: served_before_def)
  have sb: "served_before ?t = served_before s" by (rule served_before_cong) simp
  have waiting: "x \<in> set rest \<longleftrightarrow> x < nextRef s \<and> exState (heap s x) = Waiting \<and> x \<noteq> r" for x
    using queues_okD(1) [OF qk, of x] q notin by auto
  have other: "exId (heap s x) \<noteq> Some i" if "x \<in> set rest" for x
    using ik q i that notin unfolding ids_ok_def inj_on_def by (metis list.set_intros(1,2))
  have same: "exId (heap ?t x) = exId (heap s x)" for x by simp
  have "inj_on (\<lambda>a. exId (heap s a)) (set rest)"
    using ik q unfolding ids_ok_def by (auto intro: inj_on_subset)
  moreover have "\<forall>x \<in> set rest. \<exists>k. exId (heap s x) = Some k \<and> 1 \<le> k \<and> k \<le> maxExecutionId s"
    using ik q unfolding ids_ok_def by simp
  moreover have "1 \<le> nextExecutionId s" "nextExecutionId s \<le> maxExecutionId s"
    using ik by (simp_all add: ids_ok_def)
  ultimately have "ids_ok ?t"
    unfolding ids_ok_def same using i other by simp
  moreover have "queues_ok {} ?t"
  proof (rule queues_okI)
    show "sorted_wrt (served_before ?t) (exeQueue ?t)"
      "sorted_wrt (served_before ?t) (allocationQueue ?t)"
      unfolding sb using sorted queues_okD(7) [OF qk] by simp_all
    fix a b
    assume "a \<in> set (exeQueue ?t)" "b \<in> set (allocationQueue ?t)"
      "exPriority (heap ?t a) = exPriority (heap ?t b)"
    moreover have "exPriority (heap ?t x) = exPriority (heap s x)" for x by simp
    ultimately show "a < b"
      using queues_okD(8) [OF qk, of a b] q by simp
  qed (use waiting queues_okD(2,4,5) [OF qk] r in \<open>auto simp: set_remove1_eq\<close>)
  moreover have "owner_ok ?t"
  proof -
    have "owner s = None" using owner_okD(1) [OF ok] free by simp
    then have "\<not> (x < nextRef s \<and> (exState (heap s x) = Granted \<or> exState (heap s x) = Overdue))" for x
      using owner_okD(3) [OF ok, of x] by simp
    then show ?thesis using r i by (simp add: owner_ok_def)
  qed
  moreover have "settled_ok ?t"
    using sk r by (auto simp: settled_ok_def)
  ultimately show "core_inv {} (grantNext s)" unfolding t by (simp add: core_inv_def)
  show "lockId (grantNext s) \<noteq> None" "allocationQueue (grantNext s) = allocationQueue s"
    by (simp_all add: t)
  have "isExecutionIdUsed ?t j" if "isExecutionIdUsed s j" for j
    using that free q i notin
    by (auto simp: isExecutionIdUsed_def isIdHoldingState_def list_ex_iff)
  then show "ids_exhausted s \<Longrightarrow> ids_exhausted (grantNext s)"
    unfolding t by (simp add: ids_exhausted_def)
qed

lemma grantNext_fields:
  assumes "core_inv {} s" and "lockId s = None" and "exeQueue s = r # rest"
  shows "owner (grantNext s) = Some r" and "lockId (grantNext s) = exId (heap (grantNext s) r)"
    and "exeQueue (grantNext s) = rest"
    and "\<exists>i. lockId (grantNext s) = Some i \<and> (r, i) \<in> set (resolved (grantNext s))"
proof -
  obtain i w where w: "grantNext s = s\<lparr>heap := (heap s)(r := (heap s r)\<lparr>exState := Granted,
         timerArmed := False, ownerTimerArmed := w\<rparr>),
       lockId := Some i, owner := Some r, exeQueue := rest, listeners := remove1 r (listeners s),
       resolved := resolved s @ [(r, i)]\<rparr>" and i: "exId (heap s r) = Some i"
    using grantNext_head [OF assms] by metis
  show "owner (grantNext s) = Some r" "lockId (grantNext s) = exId (heap (grantNext s) r)"
    "exeQueue (grantNext s) = rest"
    "\<exists>i. lockId (grantNext s) = Some i \<and> (r, i) \<in> set (resolved (grantNext s))"
    unfolding w using i by simp_all
qed

lemma grantNext_exec_inv:
  assumes "core_inv {} s" and "allocationQueue s \<noteq> [] \<longrightarrow> ids_exhausted s"
  shows "exec_inv (grantNext s)"
proof (cases "lockId s = None \<and> exeQueue s \<noteq> []")
  case True
  then obtain r rest where "lockId s = None" "exeQueue s = r # rest" by (cases "exeQueue s") auto
  from grantNext_core [OF assms(1) this] assms(2) show ?thesis by (auto simp: exec_inv_def)
next
  case False
  then have "grantNext s = s" by (cases "lockId s = None") auto
  with False assms show ?thesis by (auto simp: exec_inv_def)
qed

subsection \<open>Preservation: the operations\<close>

lemma createEntry_core:
  fixes p :: int
  assumes inv: "core_inv {} s"
  defines "t \<equiv> upd_entry (nextRef s) (timerArmed_update (\<lambda>_. True)) (fst (createEntry p s))"
  shows "core_inv {nextRef s} t" and "ids_exhausted s \<Longrightarrow> ids_exhausted t"
    and "exeQueue t = exeQueue s" and "allocationQueue t = allocationQueue s"
proof -
  have t: "t = s\<lparr>heap := (heap s)(nextRef s := \<lparr>exId = None, exPriority = p,
      exState = Allocating, timerArmed = True, ownerTimerArmed = False\<rparr>),
      nextRef := Suc (nextRef s)\<rparr>"
    by (simp add: t_def createEntry_def upd_entry_def Let_def)
  have qk: "queues_ok {} s" and ik: "ids_ok s" and ok: "owner_ok s" and sk: "settled_ok s"
    using inv by (simp_all add: core_inv_def)
  have old: "x < nextRef s" if "x \<in> set (exeQueue s) \<union> set (allocationQueue s)" for x
    using that queues_okD(1,2) [OF qk, of x] by auto
  have sb: "served_before t a b = served_before s a b" if "a < nextRef s" "b < nextRef s" for a b
    using that by (simp add: t served_before_def)
  have srt: "sorted_wrt (served_before t) xs"
    if "sorted_wrt (served_before s) xs" "set xs \<subseteq> set (exeQueue s) \<union> set (allocationQueue s)" for xs
  proof (rule sorted_wrt_mono_rel [OF _ that(1)])
    fix x y
    assume "x \<in> set xs" "y \<in> set xs" "served_before s x y"
    moreover from this that(2) have "x < nextRef s" "y < nextRef s" using old by blast+
    ultimately show "served_before t x y" using sb by simp
  qed
  have "ids_ok t"
    using ik old by (fastforce simp: ids_ok_def t inj_on_def)
  moreover have "queues_ok {nextRef s} t"
  proof (rule queues_okI)
    show "sorted_wrt (served_before t) (exeQueue t)" "sorted_wrt (served_before t) (allocationQueue t)"
      using srt queues_okD(6,7) [OF qk] by (simp_all add: t)
    fix a b
    assume "a \<in> set (exeQueue t)" "b \<in> set (allocationQueue t)"
      "exPriority (heap t a) = exPriority (heap t b)"
    then show "a < b"
      using queues_okD(8) [OF qk, of a b] old [of a] old [of b] by (simp add: t)
  qed (use queues_okD(1,2,4,5) [OF qk] in \<open>auto simp: t less_Suc_eq\<close>)
  moreover have "owner_ok t"
  proof -
    have "owner s \<noteq> Some (nextRef s)" using ok by (simp add: owner_ok_def)
    with ok show ?thesis by (auto simp: owner_ok_def t less_Suc_eq)
  qed
  moreover have "settled_ok t"
    using sk by (auto simp: settled_ok_def t less_Suc_eq)
  ultimately show "core_inv {nextRef s} t" by (simp add: core_inv_def)
  show "exeQueue t = exeQueue s" "allocationQueue t = allocationQueue s" by (simp_all add: t)
  have "heap t a = heap s a" if "a \<in> set (exeQueue s)" for a
    using old [of a] that by (simp add: t)
  moreover have "lockId t = lockId s" "exeQueue t = exeQueue s" by (simp_all add: t)
  ultimately have "isExecutionIdUsed t j = isExecutionIdUsed s j" for j
    by (simp add: isExecutionIdUsed_def list_ex_iff)
  then show "ids_exhausted s \<Longrightarrow> ids_exhausted t" by (simp add: ids_exhausted_def t)
qed

lemma getExecution_inv:
  assumes inv: "exec_inv s"
  shows "exec_inv (fst (getExecution p s))"
proof -
  let ?r = "nextRef s"
  let ?u = "upd_entry ?r (timerArmed_update (\<lambda>_. True)) (fst (createEntry p s))"
  have core: "core_inv {} s" using inv by (simp add: exec_inv_def)
  note u = createEntry_core [OF core, of p]
  have qk: "queues_ok {} s" using core by (simp add: core_inv_def)
  have older: "\<forall>a \<in> set (exeQueue ?u) \<union> set (allocationQueue ?u).
      exPriority (heap ?u a) = exPriority (heap ?u ?r) \<longrightarrow> a < ?r"
    using queues_okD(1,2) [OF qk] u(3,4) by auto
  obtain t ok where alloc: "allocateExecutionId ?r ?u = (t, ok)" by fastforce
  have eq: "fst (getExecution p s) =
      grantNext (if ok then enqueueWaiting ?r t else enqueueAllocating ?r t)"
    using alloc by (simp add: getExecution_def createEntry_def Let_def)
  have bounds: "1 \<le> nextExecutionId ?u" "nextExecutionId ?u \<le> maxExecutionId ?u"
    using u(1) by (auto simp: core_inv_def ids_ok_def)
  from alloc bounds show ?thesis
  proof (cases rule: allocateExecutionId_cases)
    case (some c n)
    have "\<not> ids_exhausted ?u" using some by (auto simp: ids_exhausted_def)
    then have none: "allocationQueue ?u = []" using inv u by (auto simp: exec_inv_def)
    have "core_inv ({?r} - {?r}) (enqueueWaiting ?r t)"
      unfolding some(2) using start_waiting [OF u(1), of ?r c n] some older none by simp
    moreover have "allocationQueue (enqueueWaiting ?r t) = []"
      using none some unfolding some(2) enqueueWaiting_eq by simp
    ultimately show ?thesis unfolding eq using some(1) by (simp add: grantNext_exec_inv)
  next
    case (none n)
    have "core_inv {?r} t" unfolding none(2) using next_id_core [OF u(1)] none by simp
    then have "core_inv ({?r} - {?r}) (enqueueAllocating ?r t)"
      using start_allocating [of "{?r}" t ?r] older none(2) by simp
    moreover have "ids_exhausted (enqueueAllocating ?r t)"
      using none by (simp add: enqueueAllocating_def ids_exhausted_def isExecutionIdUsed_def)
    ultimately show ?thesis unfolding eq using none(1) by (simp add: grantNext_exec_inv)
  qed
qed

text \<open>Releasing the lock: the state handed to the reassignment and the next grant.\<close>

lemma unlock_release:
  assumes inv: "exec_inv s" and True: "lockId s = Some i"
  obtains t where "unLockExecution i s = grantNext (assignAllocationWaiters t)" "core_inv {} t"
    "exeQueue t = exeQueue s" "allocationQueue t = allocationQueue s" "lockId t = None"
    "\<forall>x. exPriority (heap t x) = exPriority (heap s x)" "\<not> ids_exhausted t"
proof -
  have qk: "queues_ok {} s" and ik: "ids_ok s" and ok: "owner_ok s" and sk: "settled_ok s"
    using inv by (simp_all add: exec_inv_def core_inv_def)
  obtain r where r: "owner s = Some r" using owner_okD(1) [OF ok] True by auto
  have st: "r < nextRef s" "exState (heap s r) = Granted \<or> exState (heap s r) = Overdue"
    using owner_okD(3) [OF ok, of r] r by auto
  then have st': "exState (heap s r) \<noteq> Waiting" "exState (heap s r) \<noteq> Allocating" by auto
  let ?e = "(if ownerTimerArmed (heap s r) then (heap s r)\<lparr>ownerTimerArmed := False\<rparr> else heap s r)
      \<lparr>exState := Released\<rparr>"
  let ?t = "s\<lparr>heap := (heap s)(r := ?e), owner := None, lockId := None\<rparr>"
  have eq: "unLockExecution i s = grantNext (assignAllocationWaiters ?t)"
    using True r st by (auto simp: unLockExecution_def clearOwnerWatchdog_def upd_entry_def Let_def)
  have prio: "exPriority (heap ?t x) = exPriority (heap s x)" for x by simp
  have exid: "exId (heap ?t x) = exId (heap s x)" for x by simp
  have sb: "served_before ?t = served_before s" by (rule served_before_cong) simp
  have "ids_ok ?t" using ik unfolding ids_ok_def exid by auto
  moreover have "queues_ok {} ?t"
  proof (rule queues_okI)
    show "sorted_wrt (served_before ?t) (exeQueue ?t)"
      "sorted_wrt (served_before ?t) (allocationQueue ?t)"
      unfolding sb using queues_okD(6,7) [OF qk] by simp_all
    show "a < b" if "a \<in> set (exeQueue ?t)" "b \<in> set (allocationQueue ?t)"
      "exPriority (heap ?t a) = exPriority (heap ?t b)" for a b
      using that queues_okD(8) [OF qk, of a b] unfolding prio by simp
  qed (use queues_okD(1,2,4,5) [OF qk] st' in simp_all)
  moreover have "owner_ok ?t"
  proof -
    have "\<not> (x < nextRef s \<and> (exState (heap s x) = Granted \<or> exState (heap s x) = Overdue))"
      if "x \<noteq> r" for x
      using owner_okD(3) [OF ok, of x] r that by simp
    then show ?thesis by (simp add: owner_ok_def)
  qed
  moreover have "settled_ok ?t"
  proof (rule settled_okI)
    fix x
    show "x \<in> fst ` set (resolved ?t) \<longleftrightarrow> x < nextRef ?t \<and>
        (exState (heap ?t x) = Granted \<or> exState (heap ?t x) = Overdue \<or>
         exState (heap ?t x) = Released)"
      using settled_okD(3) [OF sk, of x] st by (cases "x = r") auto
    show "x \<in> set (rejected ?t) \<longleftrightarrow> x < nextRef ?t \<and> exState (heap ?t x) = Expired"
      using settled_okD(4) [OF sk, of x] st by (cases "x = r") auto
    assume "x < nextRef ?t"
    then show "timerArmed (heap ?t x) \<longleftrightarrow>
        exState (heap ?t x) = Allocating \<or> exState (heap ?t x) = Waiting"
      using settled_okD(5) [OF sk, of x] st' by (cases "x = r") simp_all
  qed (use settled_okD(1,2) [OF sk] in simp_all)
  ultimately have "core_inv {} ?t" by (simp add: core_inv_def)
  moreover have "\<not> isExecutionIdUsed ?t i"
  proof -
    have "exId (heap s x) \<noteq> Some i" if "x \<in> set (exeQueue s)" for x
      using ik that True unfolding ids_ok_def by auto
    then show ?thesis by (auto simp: isExecutionIdUsed_def list_ex_iff)
  qed
  then have "\<not> ids_exhausted ?t"
    using ik True by (auto simp: ids_exhausted_def ids_ok_def)
  ultimately show ?thesis using that [of ?t] eq by simp
qed

lemma unLockExecution_inv:
  assumes inv: "exec_inv s"
  shows "exec_inv (unLockExecution i s)"
proof (cases "lockId s = Some i")
  case False
  then show ?thesis using inv by (simp add: unLockExecution_def)
next
  case True
  then obtain t where "unLockExecution i s = grantNext (assignAllocationWaiters t)" "core_inv {} t"
    using unlock_release [OF inv True] by metis
  then show ?thesis
    using assignAllocationWaiters_inv by (auto intro: grantNext_exec_inv)
qed

text \<open>Timing out: reassigning identifiers does not look at the rejected requests.\<close>

lemma allocate_loop_rejected:
  "allocate_loop k r (s\<lparr>rejected := x\<rparr>) = apfst (rejected_update (\<lambda>_. x)) (allocate_loop k r s)"
proof (induction k arbitrary: s)
  case (Suc k)
  let ?n = "if nextExecutionId s = maxExecutionId s then 1 else nextExecutionId s + 1"
  have "s\<lparr>rejected := x, nextExecutionId := ?n\<rparr> = s\<lparr>nextExecutionId := ?n, rejected := x\<rparr>"
    by (cases s) simp
  with Suc [of "s\<lparr>nextExecutionId := ?n\<rparr>"] show ?case
    by (cases s) (auto simp: Let_def upd_entry_def isExecutionIdUsed_def)
qed simp

lemma enqueueWaiting_rejected:
  "enqueueWaiting r (s\<lparr>rejected := x\<rparr>) = (enqueueWaiting r s)\<lparr>rejected := x\<rparr>"
  by (cases s) (simp add: enqueueWaiting_def upd_entry_def Let_def lower_priority_def [abs_def])

lemma assignAllocationWaiters_rejected:
  "assignAllocationWaiters (s\<lparr>rejected := x\<rparr>) = (assignAllocationWaiters s)\<lparr>rejected := x\<rparr>"
proof (induction s rule: assignAllocationWaiters.induct)
  case (1 s)
  show ?case
  proof (cases "allocationQueue s")
    case Nil
    then show ?thesis
      by (simp add: assignAllocationWaiters.simps [of s] assignAllocationWaiters.simps [of "s\<lparr>rejected := x\<rparr>"])
  next
    case (Cons r rest)
    have pop: "t\<lparr>rejected := x, allocationQueue := rest\<rparr> = t\<lparr>allocationQueue := rest, rejected := x\<rparr>" for t
      by (cases t) simp
    show ?thesis
    proof (cases "exState (heap s r) = Allocating")
      case False
      then show ?thesis
        using 1(1) [OF Cons] Cons
        by (simp add: assignAllocationWaiters.simps [of s]
            assignAllocationWaiters.simps [of "s\<lparr>rejected := x\<rparr>"] pop)
    next
      case True
      obtain t ok where alloc: "allocateExecutionId r s = (t, ok)" by fastforce
      then have alloc': "allocateExecutionId r (s\<lparr>rejected := x\<rparr>) = (t\<lparr>rejected := x\<rparr>, ok)"
        by (simp add: allocateExecutionId_def allocate_loop_rejected)
      show ?thesis
      proof (cases ok)
        case ok: True
        have "assignAllocationWaiters (enqueueWaiting r (t\<lparr>allocationQueue := rest\<rparr>)\<lparr>rejected := x\<rparr>) =
            assignAllocationWaiters (enqueueWaiting r (t\<lparr>allocationQueue := rest\<rparr>))\<lparr>rejected := x\<rparr>"
          using 1(2) [OF Cons _ alloc [symmetric]] True ok by simp
        then show ?thesis
          using True alloc alloc' Cons ok
          by (simp add: assignAllocationWaiters.simps [of s]
              assignAllocationWaiters.simps [of "s\<lparr>rejected := x\<rparr>"] pop enqueueWaiting_rejected)
      next
        case False
        then show ?thesis using True alloc alloc' Cons
          by (simp add: assignAllocationWaiters.simps [of s]
              assignAllocationWaiters.simps [of "s\<lparr>rejected := x\<rparr>"])
      qed
    qed
  qed
qed

lemma sorted_served_distinct: "sorted_wrt (served_before s) xs \<Longrightarrow> distinct xs"
  by (induction xs) (auto simp: served_before_def)

lemma sorted_wrt_remove1: "sorted_wrt P xs \<Longrightarrow> sorted_wrt P (remove1 x xs)"
proof (induction xs)
  case (Cons a xs)
  then show ?case using set_remove1_subset [of x xs] by (cases "a = x") auto
qed simp

lemma expire_inv:
  assumes inv: "exec_inv s" and r: "r < nextRef s"
  shows "exec_inv (expire r s)"
proof (cases "exState (heap s r) = Allocating \<or> exState (heap s r) = Waiting")
  case False
  then show ?thesis using inv by (auto simp: expire_def)
next
  case True
  have qk: "queues_ok {} s" and ik: "ids_ok s" and ok: "owner_ok s" and sk: "settled_ok s"
    using inv by (simp_all add: exec_inv_def core_inv_def)
  let ?t = "s\<lparr>allocationQueue := remove1 r (allocationQueue s), exeQueue := remove1 r (exeQueue s),
      heap := (heap s)(r := (heap s r)\<lparr>exState := Expired, timerArmed := False\<rparr>),
      listeners := remove1 r (listeners s), rejected := rejected s @ [r]\<rparr>"
  let ?u = "s\<lparr>allocationQueue := remove1 r (allocationQueue s), exeQueue := remove1 r (exeQueue s),
      heap := (heap s)(r := (heap s r)\<lparr>exState := Expired, timerArmed := False\<rparr>),
      listeners := remove1 r (listeners s)\<rparr>"
  have eq: "expire r s = (assignAllocationWaiters ?u)\<lparr>rejected := rejected (assignAllocationWaiters ?u) @ [r]\<rparr>"
    using True by (auto simp: expire_def removeEntry_def upd_entry_def Let_def)
  have "assignAllocationWaiters ?u = (assignAllocationWaiters ?u)\<lparr>rejected := rejected s\<rparr>"
    using assignAllocationWaiters_rejected [of "rejected s" ?u] by simp
  then have "rejected (assignAllocationWaiters ?u) =
      rejected ((assignAllocationWaiters ?u)\<lparr>rejected := rejected s\<rparr>)"
    by (rule arg_cong)
  then have "rejected (assignAllocationWaiters ?u) = rejected s" by simp
  then have eq: "expire r s = assignAllocationWaiters ?t"
    unfolding eq using assignAllocationWaiters_rejected [of "rejected s @ [r]" ?u] by simp
  have prio: "exPriority (heap ?t x) = exPriority (heap s x)" for x by simp
  have exid: "exId (heap ?t x) = exId (heap s x)" for x by simp
  have sb: "served_before ?t = served_before s" by (rule served_before_cong) simp
  have dist: "distinct (exeQueue s)" "distinct (allocationQueue s)"
    using queues_okD(6,7) [OF qk]
    by (simp_all add: sorted_served_distinct)
  have "ids_ok ?t"
    unfolding ids_ok_def exid using ik dist by (auto simp: ids_ok_def set_remove1_eq inj_on_def)
  moreover have "queues_ok {} ?t"
  proof (rule queues_okI)
    show "sorted_wrt (served_before ?t) (exeQueue ?t)"
      "sorted_wrt (served_before ?t) (allocationQueue ?t)"
      unfolding sb using queues_okD(6,7) [OF qk] by (simp_all add: sorted_wrt_remove1)
    show "a < b" if "a \<in> set (exeQueue ?t)" "b \<in> set (allocationQueue ?t)"
      "exPriority (heap ?t a) = exPriority (heap ?t b)" for a b
      using that queues_okD(8) [OF qk, of a b] dist unfolding prio by (simp add: set_remove1_eq)
  qed (use queues_okD(1,2,4,5) [OF qk] dist in \<open>auto simp: set_remove1_eq\<close>)
  moreover have "owner_ok ?t"
  proof -
    have "owner s \<noteq> Some r" using owner_okD(3) [OF ok, of r] True by auto
    moreover have "exState (heap s r) \<noteq> Granted" "exState (heap s r) \<noteq> Overdue"
      using True by auto
    ultimately show ?thesis using owner_okD [OF ok] by (simp add: owner_ok_def)
  qed
  moreover have "settled_ok ?t"
  proof (rule settled_okI)
    fix x
    show "x \<in> fst ` set (resolved ?t) \<longleftrightarrow> x < nextRef ?t \<and>
        (exState (heap ?t x) = Granted \<or> exState (heap ?t x) = Overdue \<or>
         exState (heap ?t x) = Released)"
      using settled_okD(3) [OF sk, of x] True by (cases "x = r") auto
    show "x \<in> set (rejected ?t) \<longleftrightarrow> x < nextRef ?t \<and> exState (heap ?t x) = Expired"
      using settled_okD(4) [OF sk, of x] True r by (cases "x = r") auto
    assume "x < nextRef ?t"
    then show "timerArmed (heap ?t x) \<longleftrightarrow>
        exState (heap ?t x) = Allocating \<or> exState (heap ?t x) = Waiting"
      using settled_okD(5) [OF sk, of x] by (cases "x = r") simp_all
  next
    have "r \<notin> set (rejected s)" using settled_okD(4) [OF sk, of r] True by auto
    then show "distinct (rejected ?t)" using settled_okD(2) [OF sk] by simp
  qed (use settled_okD(1) [OF sk] in simp)
  ultimately have core: "core_inv {} ?t" by (simp add: core_inv_def)
  have "exeQueue (expire r s) = []" if "lockId s = None"
  proof -
    have e: "exeQueue s = []" using that inv by (simp add: exec_inv_def)
    have "allocationQueue s = []"
    proof (rule ccontr)
      assume "allocationQueue s \<noteq> []"
      then have "ids_exhausted s" using inv by (simp add: exec_inv_def)
      then show False
        using ik that e by (force simp: ids_exhausted_def isExecutionIdUsed_def ids_ok_def)
    qed
    then show ?thesis unfolding eq using e by simp
  qed
  then show ?thesis
    using assignAllocationWaiters_inv [OF core] unfolding exec_inv_def eq by simp
qed

lemma watchdogFires_inv:
  assumes inv: "exec_inv s"
  shows "exec_inv (watchdogFires r s)"
proof (cases "owner s = Some r \<and> exState (heap s r) = Granted")
  case False
  then show ?thesis using inv by (auto simp: watchdogFires_def)
next
  case True
  have qk: "queues_ok {} s" and ik: "ids_ok s" and ok: "owner_ok s" and sk: "settled_ok s"
    using inv by (simp_all add: exec_inv_def core_inv_def)
  let ?t = "s\<lparr>heap := (heap s)(r := (heap s r)\<lparr>ownerTimerArmed := False, exState := Overdue\<rparr>)\<rparr>"
  have eq: "watchdogFires r s = ?t"
    using True by (simp add: watchdogFires_def upd_entry_def)
  have r: "r < nextRef s" using owner_okD(3) [OF ok, of r] True by simp
  have prio: "exPriority (heap ?t x) = exPriority (heap s x)" for x by simp
  have exid: "exId (heap ?t x) = exId (heap s x)" for x by simp
  have sb: "served_before ?t = served_before s" by (rule served_before_cong) simp
  have notin: "r \<notin> set (exeQueue s)" using queues_okD(1) [OF qk, of r] True by simp
  have "ids_ok ?t" using ik unfolding ids_ok_def exid by simp
  moreover have "queues_ok {} ?t"
  proof (rule queues_okI)
    show "sorted_wrt (served_before ?t) (exeQueue ?t)"
      "sorted_wrt (served_before ?t) (allocationQueue ?t)"
      unfolding sb using queues_okD(6,7) [OF qk] by simp_all
    show "a < b" if "a \<in> set (exeQueue ?t)" "b \<in> set (allocationQueue ?t)"
      "exPriority (heap ?t a) = exPriority (heap ?t b)" for a b
      using that queues_okD(8) [OF qk, of a b] unfolding prio by simp
  qed (use queues_okD(1,2,4,5) [OF qk] True in simp_all)
  moreover have "owner_ok ?t"
  proof (rule owner_okI)
    fix x
    show "owner ?t = Some x \<longleftrightarrow> x < nextRef ?t \<and>
        (exState (heap ?t x) = Granted \<or> exState (heap ?t x) = Overdue)"
      using owner_okD(3) [OF ok, of x] True by (cases "x = r") simp_all
  qed (use owner_okD(1,2) [OF ok] in auto)
  moreover have "settled_ok ?t"
  proof (rule settled_okI)
    fix x
    show "x \<in> fst ` set (resolved ?t) \<longleftrightarrow> x < nextRef ?t \<and>
        (exState (heap ?t x) = Granted \<or> exState (heap ?t x) = Overdue \<or>
         exState (heap ?t x) = Released)"
      using settled_okD(3) [OF sk, of x] True by (cases "x = r") simp_all
    show "x \<in> set (rejected ?t) \<longleftrightarrow> x < nextRef ?t \<and> exState (heap ?t x) = Expired"
      using settled_okD(4) [OF sk, of x] True by (cases "x = r") simp_all
    assume "x < nextRef ?t"
    then show "timerArmed (heap ?t x) \<longleftrightarrow>
        exState (heap ?t x) = Allocating \<or> exState (heap ?t x) = Waiting"
      using settled_okD(5) [OF sk, of x] True by (cases "x = r") simp_all
  qed (use settled_okD(1,2) [OF sk] in simp_all)
  moreover have "ids_exhausted ?t" if "ids_exhausted s"
    using that notin
    by (force simp: ids_exhausted_def isExecutionIdUsed_def list_ex_iff)
  ultimately show ?thesis using inv unfolding eq by (simp add: exec_inv_def core_inv_def)
qed

lemma new_exec_model_inv: "new_exec_model m w = Inr s \<Longrightarrow> exec_inv s"
  by (auto simp: new_exec_model_def exec_inv_def core_defs split: if_splits)

lemma exec_step_inv: "exec_step s e t \<Longrightarrow> exec_inv s \<Longrightarrow> exec_inv t"
  by (auto elim!: exec_step.cases
      intro: getExecution_inv unLockExecution_inv expire_inv watchdogFires_inv)

lemma exec_reachable_inv: "exec_reachable s \<Longrightarrow> exec_inv s"
  by (induction rule: exec_reachable.induct) (auto intro: new_exec_model_inv exec_step_inv)

subsection \<open>Who is served next\<close>

definition pending :: "exec_model \<Rightarrow> nat \<Rightarrow> bool" where
  "pending s r \<longleftrightarrow> r < nextRef s \<and> (exState (heap s r) = Allocating \<or> exState (heap s r) = Waiting)"

lemma pending_queues:
  "queues_ok {} s \<Longrightarrow> pending s r \<longleftrightarrow> r \<in> set (exeQueue s) \<or> r \<in> set (allocationQueue s)"
  using queues_okD(1,2) [of "{}" s r] by (auto simp: pending_def)

lemma served_before_trans: "served_before s a b \<Longrightarrow> served_before s b c \<Longrightarrow> served_before s a c"
  by (auto simp: served_before_def)

text \<open>Assigning identifiers keeps every pending request pending and every priority, and leaves no
  request without an identifier ahead of all those that have one.\<close>

lemma assignAllocationWaiters_order:
  assumes "core_inv {} s"
    and "allocationQueue s \<noteq> [] \<Longrightarrow> \<not> ids_exhausted s \<or>
      (\<exists>m \<in> set (exeQueue s). \<forall>b \<in> set (allocationQueue s). served_before s m b)"
  shows "(\<forall>b \<in> set (allocationQueue (assignAllocationWaiters s)).
        \<exists>m \<in> set (exeQueue (assignAllocationWaiters s)). served_before s m b) \<and>
    set (exeQueue (assignAllocationWaiters s)) \<union> set (allocationQueue (assignAllocationWaiters s)) =
      set (exeQueue s) \<union> set (allocationQueue s) \<and>
    (\<forall>x. exPriority (heap (assignAllocationWaiters s) x) = exPriority (heap s x))"
  using assms
proof (induction s rule: assignAllocationWaiters.induct)
  case (1 s)
  show ?case
  proof (cases "allocationQueue s")
    case Nil
    then show ?thesis by simp
  next
    case (Cons r rest)
    note pop = pop_allocation [OF 1(3) Cons]
    obtain t ok where alloc: "allocateExecutionId r s = (t, ok)" by fastforce
    have bounds: "1 \<le> nextExecutionId s" "nextExecutionId s \<le> maxExecutionId s"
      using 1(3) by (auto simp: core_inv_def ids_ok_def)
    from alloc bounds show ?thesis
    proof (cases rule: allocateExecutionId_cases)
      case (some c n)
      let ?s = "s\<lparr>allocationQueue := rest\<rparr>"
      let ?u = "enqueueWaiting r (upd_entry r (exId_update (\<lambda>_. Some c)) (?s\<lparr>nextExecutionId := n\<rparr>))"
      have "t\<lparr>allocationQueue := rest\<rparr> =
          upd_entry r (exId_update (\<lambda>_. Some c)) (?s\<lparr>nextExecutionId := n\<rparr>)"
        using some by (cases s) (simp add: upd_entry_def)
      then have u: "enqueueWaiting r (t\<lparr>allocationQueue := rest\<rparr>) = ?u" by simp
      have "\<not> isExecutionIdUsed ?s c" using some by (simp add: isExecutionIdUsed_def)
      then have core: "core_inv {} ?u"
        using start_waiting [OF pop(1), of r c n] some pop by simp
      have next': "assignAllocationWaiters s = assignAllocationWaiters ?u"
        using Cons pop alloc some u by (simp add: assignAllocationWaiters.simps [of s])
      have f: "set (exeQueue ?u) = insert r (set (exeQueue s))" "allocationQueue ?u = rest"
          "\<forall>x. exPriority (heap ?u x) = exPriority (heap s x)"
        unfolding enqueueWaiting_eq by simp_all
      have sb: "served_before ?u = served_before s" by (rule served_before_cong) (use f in simp)
      have "sorted_wrt (served_before s) (r # rest)"
        using queues_okD(7) [of "{}" s] 1(3) Cons by (simp add: core_inv_def)
      then have "\<forall>b \<in> set rest. served_before s r b" by simp
      then have ahead: "\<exists>m \<in> set (exeQueue ?u). \<forall>b \<in> set (allocationQueue ?u). served_before ?u m b"
        unfolding f sb by blast
      obtain v where v: "v = ?u" by simp
      have "(\<forall>b \<in> set (allocationQueue (assignAllocationWaiters v)).
            \<exists>m \<in> set (exeQueue (assignAllocationWaiters v)). served_before v m b) \<and>
          set (exeQueue (assignAllocationWaiters v)) \<union> set (allocationQueue (assignAllocationWaiters v)) =
            set (exeQueue v) \<union> set (allocationQueue v) \<and>
          (\<forall>x. exPriority (heap (assignAllocationWaiters v) x) = exPriority (heap v x))"
        by (rule 1(2) [OF Cons _ alloc [symmetric], unfolded u, folded v])
           (use pop some core ahead in \<open>simp_all add: v\<close>)
      moreover have "served_before v = served_before s" "set (exeQueue v) = insert r (set (exeQueue s))"
          "allocationQueue v = rest" "\<forall>x. exPriority (heap v x) = exPriority (heap s x)"
          "assignAllocationWaiters s = assignAllocationWaiters v"
        unfolding v by (rule sb f next')+
      ultimately show ?thesis using Cons by auto
    next
      case (none n)
      then have eq: "assignAllocationWaiters s = s\<lparr>nextExecutionId := n\<rparr>"
        using Cons pop alloc by (simp add: assignAllocationWaiters.simps [of s])
      then show ?thesis using 1(4) none Cons by auto
    qed
  qed
qed

lemma unlock_hands_over:
  assumes inv: "exec_inv s" and lock: "lockId s = Some i" and w: "pending s w"
  obtains r where "pending s r" "owner (unLockExecution i s) = Some r"
    "lockId (unLockExecution i s) = exId (heap (unLockExecution i s) r)"
    "\<forall>x. pending s x \<and> x \<noteq> r \<longrightarrow> served_before s r x"
proof -
  obtain t where t: "unLockExecution i s = grantNext (assignAllocationWaiters t)" "core_inv {} t"
    "exeQueue t = exeQueue s" "allocationQueue t = allocationQueue s" "lockId t = None"
    "\<forall>x. exPriority (heap t x) = exPriority (heap s x)" "\<not> ids_exhausted t"
    using unlock_release [OF inv lock] by metis
  have sbt: "served_before t = served_before s" by (rule served_before_cong) (use t in simp)
  let ?u = "assignAllocationWaiters t"
  note ord = assignAllocationWaiters_order [OF t(2)]
  have core: "core_inv {} ?u" and free: "lockId ?u = None"
    using assignAllocationWaiters_inv [OF t(2)] t(5) by auto
  have all: "set (exeQueue ?u) \<union> set (allocationQueue ?u) = {x. pending s x}"
    using ord t pending_queues [of s] inv by (auto simp: exec_inv_def core_inv_def)
  have ahead: "\<forall>b \<in> set (allocationQueue ?u). \<exists>m \<in> set (exeQueue ?u). served_before s m b"
    using ord t(7) unfolding sbt by blast
  have sbu: "served_before ?u = served_before s"
    by (rule served_before_cong) (use ord t in auto)
  have "exeQueue ?u \<noteq> []" using all ahead w by (cases "exeQueue ?u") auto
  then obtain r rest where q: "exeQueue ?u = r # rest" by (cases "exeQueue ?u") auto
  have "sorted_wrt (served_before s) (r # rest)"
    using core q sbu queues_okD(6) [of "{}" ?u] by (simp add: core_inv_def)
  then have rest: "served_before s r x" if "x \<in> set rest" for x using that by simp
  have best: "\<forall>x. pending s x \<and> x \<noteq> r \<longrightarrow> served_before s r x"
  proof (intro allI impI)
    fix x
    assume x: "pending s x \<and> x \<noteq> r"
    then have "x \<in> set rest \<or> x \<in> set (allocationQueue ?u)" using all q by auto
    then show "served_before s r x"
      using rest ahead q by (metis served_before_trans set_ConsD)
  qed
  have "owner (grantNext ?u) = Some r" "lockId (grantNext ?u) = exId (heap (grantNext ?u) r)"
    using grantNext_fields [OF core free q] by simp_all
  with best all q t(1) show ?thesis using that [of r] by auto
qed

subsection \<open>The lock as an interface\<close>

text \<open>What a manager relies on when it brackets an operation between \<open>getExecution\<close> and
  \<open>unLockExecution\<close>: an idle lock is granted at once, and releasing it with nobody waiting
  makes it idle again. \<open>held\<close> is the id the holder was given.\<close>

locale execution_lock =
  fixes acquire :: "int \<Rightarrow> 's \<Rightarrow> 's \<times> nat"
    and release :: "nat \<Rightarrow> 's \<Rightarrow> 's"
    and held :: "'s \<Rightarrow> nat option"
    and waiting :: "'s \<Rightarrow> nat \<Rightarrow> bool"
    and invar :: "'s \<Rightarrow> bool"
  assumes invar_acquire: "invar s \<Longrightarrow> invar (fst (acquire p s))"
    and invar_release: "invar s \<Longrightarrow> invar (release i s)"
    and idle_empty: "invar s \<Longrightarrow> held s = None \<Longrightarrow> \<not> waiting s r"
    and acquire_idle: "invar s \<Longrightarrow> held s = None \<Longrightarrow>
      \<exists>i. held (fst (acquire p s)) = Some i \<and> (\<forall>r. \<not> waiting (fst (acquire p s)) r)"
    and release_other: "held s \<noteq> Some i \<Longrightarrow> release i s = s"
    and release_last: "invar s \<Longrightarrow> held s = Some i \<Longrightarrow> (\<forall>r. \<not> waiting s r) \<Longrightarrow>
      held (release i s) = None"
begin

lemma bracket_idle:
  assumes "invar s" and "held s = None" and "held (fst (acquire p s)) = Some i"
  shows "held (release i (fst (acquire p s))) = None" and "invar (release i (fst (acquire p s)))"
  using assms acquire_idle [OF assms(1,2), of p] invar_acquire [OF assms(1), of p]
  by (auto intro: release_last invar_release)

lemma release_twice:
  assumes "invar s" and "held s = Some i" and "\<forall>r. \<not> waiting s r"
  shows "release i (release i s) = release i s"
  using release_last [OF assms] by (intro release_other) simp

end

lemma getExecution_idle:
  assumes inv: "exec_inv s" and free: "lockId s = None"
  shows "\<exists>i. lockId (fst (getExecution p s)) = Some i \<and>
    (nextRef s, i) \<in> set (resolved (fst (getExecution p s))) \<and>
    (\<forall>r. \<not> pending (fst (getExecution p s)) r)"
proof -
  let ?r = "nextRef s"
  let ?u = "upd_entry ?r (timerArmed_update (\<lambda>_. True)) (fst (createEntry p s))"
  have core: "core_inv {} s" and e: "exeQueue s = []"
    using inv free by (simp_all add: exec_inv_def)
  note u = createEntry_core [OF core, of p]
  have unused: "\<not> isExecutionIdUsed ?u j" for j
    using e free by (simp add: isExecutionIdUsed_def upd_entry_def createEntry_def Let_def)
  have max: "1 \<le> maxExecutionId s" using core by (auto simp: core_inv_def ids_ok_def)
  have "\<not> ids_exhausted s"
    using e free max by (auto simp: ids_exhausted_def isExecutionIdUsed_def)
  then have a: "allocationQueue s = []" using inv by (auto simp: exec_inv_def)
  obtain t ok where alloc: "allocateExecutionId ?r ?u = (t, ok)" by fastforce
  have bounds: "1 \<le> nextExecutionId ?u" "nextExecutionId ?u \<le> maxExecutionId ?u"
    using u(1) by (auto simp: core_inv_def ids_ok_def)
  from alloc bounds show ?thesis
  proof (cases rule: allocateExecutionId_cases)
    case (some c n)
    let ?w = "enqueueWaiting ?r t"
    have eq: "fst (getExecution p s) = grantNext ?w"
      using alloc some(1) by (simp add: getExecution_def createEntry_def Let_def)
    have core_w: "core_inv {} ?w"
      unfolding some(2) using start_waiting [OF u(1), of ?r c n] some u e a by simp
    have w: "exeQueue ?w = [?r]" "lockId ?w = None" "allocationQueue ?w = []"
      unfolding some(2) enqueueWaiting_eq using u e a free
      by (simp_all add: upd_entry_def createEntry_def Let_def)
    note g = grantNext_core [OF core_w w(2) w(1)]
    have empty: "exeQueue (grantNext ?w) = []" "allocationQueue (grantNext ?w) = []"
      "\<exists>i. lockId (grantNext ?w) = Some i \<and> (?r, i) \<in> set (resolved (grantNext ?w))"
      using grantNext_fields [OF core_w w(2) w(1)] g(4) w(3) by simp_all
    then show ?thesis
      unfolding eq using pending_queues [of "grantNext ?w"] g(1) by (simp add: core_inv_def)
  next
    case (none n)
    then have "isExecutionIdUsed ?u 1" using max
      by (simp add: ids_exhausted_def upd_entry_def createEntry_def Let_def)
    with unused show ?thesis by blast
  qed
qed

interpretation exec: execution_lock getExecution unLockExecution lockId pending exec_inv
proof
  fix s :: exec_model and p i r
  show "exec_inv s \<Longrightarrow> exec_inv (fst (getExecution p s))" by (rule getExecution_inv)
  show "exec_inv s \<Longrightarrow> exec_inv (unLockExecution i s)" by (rule unLockExecution_inv)
  show "lockId s \<noteq> Some i \<Longrightarrow> unLockExecution i s = s" by (simp add: unLockExecution_def)
  show "\<exists>i. lockId (fst (getExecution p s)) = Some i \<and> (\<forall>r. \<not> pending (fst (getExecution p s)) r)"
    if "exec_inv s" "lockId s = None"
    using getExecution_idle [OF that] by blast
  show "\<not> pending s r" if "exec_inv s" "lockId s = None"
  proof -
    have e: "exeQueue s = []" using that by (simp add: exec_inv_def)
    have "\<not> ids_exhausted s"
      using e that by (auto simp: exec_inv_def core_inv_def ids_ok_def ids_exhausted_def
          isExecutionIdUsed_def)
    then have "allocationQueue s = []" using that by (auto simp: exec_inv_def)
    with e that show ?thesis
      using pending_queues [of s r] by (simp add: exec_inv_def core_inv_def)
  qed
  show "lockId (unLockExecution i s) = None"
    if inv: "exec_inv s" and l: "lockId s = Some i" and none: "\<forall>r. \<not> pending s r"
  proof -
    have "exeQueue s = []" "allocationQueue s = []"
      using none pending_queues [of s] inv
      by (auto simp: exec_inv_def core_inv_def) (metis list.set_intros(1) neq_Nil_conv)+
    then show ?thesis
      by (auto intro: unlock_release [OF inv l])
  qed
qed

subsection \<open>A concrete run\<close>

fun exec_do :: "exec_event \<Rightarrow> exec_model \<Rightarrow> exec_model" where
  "exec_do (Request p) s = fst (getExecution p s)"
| "exec_do (Unlock i) s = unLockExecution i s"
| "exec_do (Timeout r) s =
     (if r < nextRef s \<and> timerArmed (heap s r) then expire r s else s)"
| "exec_do (Watchdog r) s =
     (if r < nextRef s \<and> ownerTimerArmed (heap s r) then watchdogFires r s else s)"

lemma exec_do_reachable: "exec_reachable s \<Longrightarrow> exec_reachable (exec_do e s)"
  by (cases e) (auto intro: exec_reachable.step exec_step.intros)

lemma exec_fold_reachable: "exec_reachable s \<Longrightarrow> exec_reachable (fold exec_do es s)"
  by (induction es arbitrary: s) (auto intro: exec_do_reachable)

text \<open>Two identifiers, five requests: the first owns the lock, one waits, three have no identifier.\<close>

definition exec_demo :: exec_model where
  "exec_demo = (case new_exec_model 2 True of Inl _ \<Rightarrow> undefined | Inr s \<Rightarrow>
     fold exec_do [Request 1, Request 1, Request 1, Request 2, Request 1] s)"

lemma exec_demo_reachable: "exec_reachable exec_demo"
proof -
  obtain s where s: "new_exec_model 2 True = Inr s" by (simp add: new_exec_model_def)
  then have "exec_demo = fold exec_do [Request 1, Request 1, Request 1, Request 2, Request 1] s"
    by (simp add: exec_demo_def)
  then show ?thesis using exec_fold_reachable [OF exec_reachable.start [OF s]] by metis
qed

text \<open>The same run after everybody has been served, one of them after a time-out.\<close>

definition exec_free :: exec_model where
  "exec_free = fold exec_do
     [Timeout 1, Unlock 1, Unlock 2, Unlock 1, Unlock 2, Unlock 1, Unlock 2] exec_demo"

lemma exec_free_reachable: "exec_reachable exec_free"
  unfolding exec_free_def by (rule exec_fold_reachable [OF exec_demo_reachable])

subsection \<open>Properties\<close>

text \<open>C2. Mutual exclusion: in every reachable state at most one request owns the lock, its
  identifier is the one recorded as the lock's, lies within the configured range, and no waiting
  request holds the same identifier.\<close>

theorem exec_mutual_exclusion:
  assumes "exec_reachable s" and "r < nextRef s"
    and "exState (heap s r) = Granted \<or> exState (heap s r) = Overdue"
  shows "owner s = Some r \<and>
    (\<exists>i. lockId s = Some i \<and> exId (heap s r) = Some i \<and> 1 \<le> i \<and> i \<le> maxExecutionId s) \<and>
    (\<forall>q < nextRef s. exState (heap s q) = Waiting \<longrightarrow> exId (heap s q) \<noteq> lockId s)"
proof (intro conjI allI impI)
  have ok: "ids_ok s" "owner_ok s" "queues_ok {} s"
    using exec_reachable_inv [OF assms(1)] by (simp_all add: exec_inv_def core_inv_def)
  then show own: "owner s = Some r" using assms owner_okD(3) by blast
  then show "\<exists>i. lockId s = Some i \<and> exId (heap s r) = Some i \<and> 1 \<le> i \<and> i \<le> maxExecutionId s"
    using ok owner_okD(1,2) [of s] unfolding ids_ok_def by (metis option.exhaust)
  show "exId (heap s q) \<noteq> lockId s" if "q < nextRef s" "exState (heap s q) = Waiting" for q
    using ok(1) queues_okD(1) [OF ok(3), of q] that unfolding ids_ok_def by blast
qed

lemma exec_mutual_exclusion_witness:
  "owner exec_demo = Some 0 \<and> exId (heap exec_demo 1) \<noteq> lockId exec_demo"
proof -
  have "0 < nextRef exec_demo" "exState (heap exec_demo 0) = Granted"
    "exState (heap exec_demo 1) = Waiting" "1 < nextRef exec_demo"
    by code_simp+
  then show ?thesis
    using exec_mutual_exclusion [OF exec_demo_reachable, of 0] by blast
qed

text \<open>No request is lost and none is settled twice: in every reachable state each request is
  pending, granted or timed out, exactly one of the three; a pending one has its timer armed and
  implies that the lock is held; no promise appears twice among the settled ones.\<close>

theorem exec_settled_once:
  assumes "exec_reachable s"
  shows "(r < nextRef s \<longleftrightarrow> pending s r \<or> r \<in> fst ` set (resolved s) \<or> r \<in> set (rejected s)) \<and>
    \<not> (pending s r \<and> r \<in> fst ` set (resolved s)) \<and>
    \<not> (pending s r \<and> r \<in> set (rejected s)) \<and>
    \<not> (r \<in> fst ` set (resolved s) \<and> r \<in> set (rejected s)) \<and>
    distinct (map fst (resolved s)) \<and> distinct (rejected s) \<and>
    (pending s r \<longrightarrow> timerArmed (heap s r) \<and> lockId s \<noteq> None)"
proof (intro conjI impI)
  have inv: "exec_inv s" by (rule exec_reachable_inv [OF assms])
  then have k: "settled_ok s" by (simp add: exec_inv_def core_inv_def)
  show "r < nextRef s \<longleftrightarrow> pending s r \<or> r \<in> fst ` set (resolved s) \<or> r \<in> set (rejected s)"
    unfolding settled_okD(3,4) [OF k] pending_def by (cases "exState (heap s r)") auto
  show "\<not> (pending s r \<and> r \<in> fst ` set (resolved s))" "\<not> (pending s r \<and> r \<in> set (rejected s))"
    "\<not> (r \<in> fst ` set (resolved s) \<and> r \<in> set (rejected s))"
    unfolding settled_okD(3,4) [OF k] pending_def by auto
  show "distinct (map fst (resolved s))" "distinct (rejected s)" by (rule settled_okD [OF k])+
  assume p: "pending s r"
  then show "lockId s \<noteq> None" using exec.idle_empty [OF inv] by blast
  from p show "timerArmed (heap s r)" using settled_okD(5) [OF k] by (simp add: pending_def)
qed

lemma exec_settled_once_witness:
  "timerArmed (heap exec_demo 4) \<and> lockId exec_demo \<noteq> None"
proof -
  have "pending exec_demo 4" by code_simp
  with exec_settled_once [OF exec_demo_reachable, of 4] show ?thesis by blast
qed

text \<open>C9. Priority hand-over: when the owner releases the lock while requests are pending, the
  lock goes at once to the pending request of the highest priority, the oldest one among equals,
  whether or not that request already had an identifier.\<close>

theorem exec_priority_handover:
  assumes "exec_reachable s" and "lockId s = Some i" and "pending s w"
  shows "\<exists>r. pending s r \<and> owner (unLockExecution i s) = Some r \<and>
    lockId (unLockExecution i s) = exId (heap (unLockExecution i s) r) \<and>
    (\<forall>x. pending s x \<and> x \<noteq> r \<longrightarrow> served_before s r x)"
  using unlock_hands_over [OF exec_reachable_inv [OF assms(1)] assms(2,3)] by metis

lemma exec_priority_handover_witness:
  "\<exists>r. pending exec_demo r \<and> owner (unLockExecution 1 exec_demo) = Some r \<and>
    lockId (unLockExecution 1 exec_demo) = exId (heap (unLockExecution 1 exec_demo) r) \<and>
    (\<forall>x. pending exec_demo x \<and> x \<noteq> r \<longrightarrow> served_before exec_demo r x)"
proof (rule exec_priority_handover [OF exec_demo_reachable])
  show "lockId exec_demo = Some 1" "pending exec_demo 3" by code_simp+
qed

text \<open>Progress of an uncontended request: on an idle lock \<open>getExecution\<close> settles its promise
  at once with the identifier the lock then carries, and releasing that identifier makes the lock
  idle again.\<close>

theorem exec_uncontended:
  assumes "exec_reachable s" and "lockId s = None"
  shows "\<exists>i. (snd (getExecution p s), i) \<in> set (resolved (fst (getExecution p s))) \<and>
    lockId (fst (getExecution p s)) = Some i \<and>
    lockId (unLockExecution i (fst (getExecution p s))) = None"
proof -
  have inv: "exec_inv s" by (rule exec_reachable_inv [OF assms(1)])
  obtain i where "lockId (fst (getExecution p s)) = Some i"
      "(nextRef s, i) \<in> set (resolved (fst (getExecution p s)))"
    using getExecution_idle [OF inv assms(2)] by blast
  moreover have "snd (getExecution p s) = nextRef s"
    by (simp add: getExecution_def createEntry_def Let_def split: prod.split)
  ultimately show ?thesis using exec.bracket_idle(1) [OF inv assms(2)] by metis
qed

lemma exec_uncontended_witness:
  "\<exists>i. (nextRef exec_free, i) \<in> set (resolved (fst (getExecution 7 exec_free))) \<and>
    lockId (fst (getExecution 7 exec_free)) = Some i \<and>
    lockId (unLockExecution i (fst (getExecution 7 exec_free))) = None"
proof -
  have "snd (getExecution 7 exec_free) = nextRef exec_free" "lockId exec_free = None"
    by code_simp+
  then show ?thesis using exec_uncontended [OF exec_free_reachable, of 7] by simp
qed

end
