(* ===== verification/Reserve_Types.thy ===== *)
theory Reserve_Types
  imports Epg_Prelude
begin

text \<open>
  The data of the reservation manager: the reservation row (\<open>src/src/db/entities/Reserve.ts\<close>),
  the programme row it is copied from (\<open>src/src/db/entities/Program.ts\<close>), the request options of
  the API (\<open>src/api.d.ts\<close>) and the change set handed to the database and to the event listeners
  (\<open>src/src/model/event/IReserveEvent.ts\<close>). Columns that are \<open>null\<close> or optional properties
  that are \<open>undefined\<close> are \<open>None\<close>; ids and times are integers of the safe range of the
  language and are modelled as \<open>int\<close>. The columns copied as one block from the programme are
  grouped in the record \<open>prog_details\<close>, the encode columns in \<open>encode_columns\<close>.
\<close>

subsection \<open>Columns\<close>

record prog_details =
  shortName :: "jstr option"
  description :: "jstr option"
  halfWidthDescription :: "jstr option"
  extended :: "jstr option"
  halfWidthExtended :: "jstr option"
  rawExtended :: "jstr option"
  rawHalfWidthExtended :: "jstr option"
  genre1 :: "int option"
  subGenre1 :: "int option"
  genre2 :: "int option"
  subGenre2 :: "int option"
  genre3 :: "int option"
  subGenre3 :: "int option"
  videoType :: "jstr option"
  videoResolution :: "jstr option"
  videoComponentType :: "int option"
  videoStreamContent :: "int option"
  audioSamplingRate :: "int option"
  audioComponentType :: "int option"

record encode_columns =
  encodeMode1 :: "jstr option"
  encodeParentDirectoryName1 :: "jstr option"
  encodeDirectory1 :: "jstr option"
  encodeMode2 :: "jstr option"
  encodeParentDirectoryName2 :: "jstr option"
  encodeDirectory2 :: "jstr option"
  encodeMode3 :: "jstr option"
  encodeParentDirectoryName3 :: "jstr option"
  encodeDirectory3 :: "jstr option"
  isDeleteOriginalAfterEncode :: bool

record reserve =
  reserveId :: "int option"
  updateTime :: int
  ruleId :: "int option"
  ruleUpdateCnt :: "int option"
  isSkip :: bool
  isConflict :: bool
  allowEndLack :: bool
  removeDataBroadcast :: bool
  tags :: "jstr option"
  isOverlap :: bool
  isIgnoreOverlap :: bool
  isTimeSpecified :: bool
  isEventRelay :: bool
  parentDirectoryName :: "jstr option"
  directory :: "jstr option"
  recordedFormat :: "jstr option"
  encodeCols :: encode_columns
  programId :: "int option"
  programUpdateTime :: "int option"
  channelId :: int
  channel :: jstr
  channelType :: jstr
  startAt :: int
  endAt :: int
  name :: jstr
  halfWidthName :: jstr
  details :: prog_details

definition no_details :: prog_details where
  "no_details = \<lparr>shortName = None, description = None, halfWidthDescription = None,
     extended = None, halfWidthExtended = None, rawExtended = None, rawHalfWidthExtended = None,
     genre1 = None, subGenre1 = None, genre2 = None, subGenre2 = None, genre3 = None,
     subGenre3 = None, videoType = None, videoResolution = None, videoComponentType = None,
     videoStreamContent = None, audioSamplingRate = None, audioComponentType = None\<rparr>"

definition no_encode :: encode_columns where
  "no_encode = \<lparr>encodeMode1 = None, encodeParentDirectoryName1 = None, encodeDirectory1 = None,
     encodeMode2 = None, encodeParentDirectoryName2 = None, encodeDirectory2 = None,
     encodeMode3 = None, encodeParentDirectoryName3 = None, encodeDirectory3 = None,
     isDeleteOriginalAfterEncode = False\<rparr>"

text \<open>\<open>new Reserve()\<close>: the initialisers of the entity. The columns declared without one are
  \<open>undefined\<close> until they are assigned; every creator assigns them before the row is used, and
  they start here as zero or the empty string.\<close>

definition new_reserve :: reserve where
  "new_reserve = \<lparr>reserveId = None, updateTime = 0, ruleId = None, ruleUpdateCnt = None,
     isSkip = False, isConflict = False, allowEndLack = False, removeDataBroadcast = False,
     tags = None, isOverlap = False, isIgnoreOverlap = False, isTimeSpecified = False,
     isEventRelay = False, parentDirectoryName = None, directory = None, recordedFormat = None,
     encodeCols = no_encode, programId = None, programUpdateTime = None, channelId = 0,
     channel = [], channelType = [], startAt = 0, endAt = 0, name = [], halfWidthName = [],
     details = no_details\<rparr>"

record program =
  p_id :: int
  p_updateTime :: int
  p_channelId :: int
  p_channel :: jstr
  p_channelType :: jstr
  p_startAt :: int
  p_endAt :: int
  p_name :: jstr
  p_halfWidthName :: jstr
  p_details :: prog_details
  overlap :: bool

subsection \<open>Request options\<close>

record save_option =
  so_parentDirectoryName :: "jstr option"
  so_directory :: "jstr option"
  so_recordedFormat :: "jstr option"

record encode_option =
  mode1 :: "jstr option"
  eo_parentDirectoryName1 :: "jstr option"
  directory1 :: "jstr option"
  mode2 :: "jstr option"
  eo_parentDirectoryName2 :: "jstr option"
  directory2 :: "jstr option"
  mode3 :: "jstr option"
  eo_parentDirectoryName3 :: "jstr option"
  directory3 :: "jstr option"
  eo_isDeleteOriginal :: bool

record time_specified_option =
  ts_name :: "jstr option"
  ts_channelId :: int
  ts_startAt :: int
  ts_endAt :: int

record manual_option =
  mo_allowEndLack :: bool
  mo_removeDataBroadcast :: bool
  mo_tags :: "int list option"
  mo_saveOption :: "save_option option"
  mo_encodeOption :: "encode_option option"
  mo_programId :: "int option"
  mo_timeSpecified :: "time_specified_option option"

subsection \<open>Change sets\<close>

record update_values =
  uv_insert :: "reserve list"
  uv_update :: "reserve list"
  uv_delete :: "reserve list"
  isSuppressLog :: bool
  isStartupRebuild :: bool

definition new_values :: "bool \<Rightarrow> update_values" where
  "new_values log = \<lparr>uv_insert = [], uv_update = [], uv_delete = [], isSuppressLog = log,
     isStartupRebuild = False\<rparr>"

subsection \<open>JSON of a list of numbers, blank strings\<close>

fun join_with :: "jstr \<Rightarrow> jstr list \<Rightarrow> jstr" where
  "join_with sep [] = []"
| "join_with sep [x] = x"
| "join_with sep (x # y # ys) = x @ sep @ join_with sep (y # ys)"

definition json_numbers :: "int list \<Rightarrow> jstr" where
  "json_numbers xs = js ''['' @ join_with (js '','') (map num_str xs) @ js '']''"

text \<open>The white space and line terminators that \<open>trim\<close> removes.\<close>

definition js_space :: "code_unit \<Rightarrow> bool" where
  "js_space c \<longleftrightarrow> c \<in> set [9, 10, 11, 12, 13, 32, 0xA0, 0x1680, 0x2000, 0x2001, 0x2002, 0x2003,
     0x2004, 0x2005, 0x2006, 0x2007, 0x2008, 0x2009, 0x200A, 0x2028, 0x2029, 0x202F, 0x205F,
     0x3000, 0xFEFF]"

definition js_trim :: "jstr \<Rightarrow> jstr" where
  "js_trim s = rev (dropWhile js_space (rev (dropWhile js_space s)))"

lemma js_trim_empty: "js_trim s = [] \<longleftrightarrow> (\<forall>c \<in> set s. js_space c)"
proof -
  have "js_trim s = [] \<longleftrightarrow> (\<forall>c \<in> set (dropWhile js_space s). js_space c)"
    by (simp add: js_trim_def dropWhile_eq_Nil_conv)
  also have "\<dots> \<longleftrightarrow> dropWhile js_space s = []"
    by (metis dropWhile_eq_Cons_conv list.set_intros(1) list.exhaust list.set(1) empty_iff)
  finally show ?thesis by (simp add: dropWhile_eq_Nil_conv)
qed

end
