(* ===== verification/Tuner_Alloc.thy ===== *)
theory Tuner_Alloc
  imports Reserve_Types
begin

text \<open>
  \<open>src/src/model/operator/reservation/Tuner.ts\<close> and the tuner list of the reservation manager
  (\<open>setTuners\<close>, \<open>getBroadcastStatus\<close>): the simulation of which reservations a set of tuners can
  receive at one instant, and the first-fit pass over the reservations in their order.
\<close>

subsection \<open>One tuner\<close>

record tuner =
  types :: "jstr list"
  assigned :: "reserve list"

definition new_tuner :: "jstr list \<Rightarrow> tuner" where
  "new_tuner ts = \<lparr>types = ts, assigned = []\<rparr>"

definition tuner_add :: "reserve \<Rightarrow> tuner \<Rightarrow> tuner option" where
  "tuner_add r t =
     (if channelType r \<in> set (types t) \<and>
         (case assigned t of [] \<Rightarrow> True | q # _ \<Rightarrow> channel q = channel r)
      then Some (t\<lparr>assigned := assigned t @ [r]\<rparr>) else None)"

definition tuner_clear :: "tuner \<Rightarrow> tuner" where
  "tuner_clear t = t\<lparr>assigned := []\<rparr>"

subsection \<open>The tuners of the manager\<close>

definition channel_types :: "jstr list" where
  "channel_types = map js [''GR'', ''GR-ALT'', ''BS'', ''BS4K'', ''CS'', ''SKY''] @
     map (\<lambda>i. js ''NW'' @ num_str (int i)) [1..<41]"

definition createBroadcastStatus :: "(jstr \<times> bool) list" where
  "createBroadcastStatus = map (\<lambda>ty. (ty, False)) channel_types"

record tuner_state =
  tuners :: "tuner list"
  broadcastStatus :: "(jstr \<times> bool) list"

definition new_tuner_state :: tuner_state where
  "new_tuner_state = \<lparr>tuners = [], broadcastStatus = createBroadcastStatus\<rparr>"

definition mark_types :: "jstr list \<Rightarrow> (jstr \<times> bool) list \<Rightarrow> (jstr \<times> bool) list" where
  "mark_types ts st = map (\<lambda>(key, b). (key, if key \<in> set ts then True else b)) st"

definition setTuners :: "jstr list list \<Rightarrow> tuner_state \<Rightarrow> tuner_state" where
  "setTuners infos s =
     s\<lparr>broadcastStatus := fold mark_types infos (broadcastStatus s),
       tuners := map new_tuner infos\<rparr>"

lemma fold_mark_types:
  "fold mark_types infos st = map (\<lambda>(key, b). (key, b \<or> (\<exists>ts \<in> set infos. key \<in> set ts))) st"
  by (induction infos arbitrary: st) (auto simp: mark_types_def)

subsection \<open>First fit\<close>

fun try_add :: "reserve \<Rightarrow> tuner list \<Rightarrow> tuner list option" where
  "try_add r [] = None"
| "try_add r (t # ts) =
     (case tuner_add r t of
        Some t' \<Rightarrow> Some (t' # ts)
      | None \<Rightarrow> map_option (Cons t) (try_add r ts))"

text \<open>The pass of \<open>createReserves\<close> over the active reservations, each with its index: excluded
  and overlapping ones take no tuner; the indexes of those that find none are returned.\<close>

fun assign_pass :: "(reserve \<times> nat) list \<Rightarrow> tuner list \<Rightarrow> nat list" where
  "assign_pass [] ts = []"
| "assign_pass ((r, i) # rs) ts =
     (if isSkip r \<or> isOverlap r then assign_pass rs ts
      else case try_add r ts of
        Some ts' \<Rightarrow> assign_pass rs ts'
      | None \<Rightarrow> i # assign_pass rs ts)"

definition evaluate :: "tuner list \<Rightarrow> (reserve \<times> nat) list \<Rightarrow> nat list" where
  "evaluate ts rs = assign_pass rs (map tuner_clear ts)"

subsection \<open>What the pass promises\<close>

text \<open>
  The specification: a set of reservations can be received at the same time when every one can be
  given a tuner that supports its channel type, with one physical channel per tuner.
\<close>

definition schedulable :: "tuner list \<Rightarrow> reserve set \<Rightarrow> bool" where
  "schedulable ts S \<longleftrightarrow> (\<exists>f. \<forall>r \<in> S. f r < length ts \<and> channelType r \<in> set (types (ts ! f r)) \<and>
     (\<forall>q \<in> S. f q = f r \<longrightarrow> channel q = channel r))"

lemma schedulable_mono: "schedulable ts S \<Longrightarrow> R \<subseteq> S \<Longrightarrow> schedulable ts R"
  unfolding schedulable_def by (meson subsetD)

lemma schedulable_empty [simp]: "schedulable ts {}"
  by (simp add: schedulable_def)

definition tuner_ok :: "tuner \<Rightarrow> bool" where
  "tuner_ok t \<longleftrightarrow>
     (\<exists>c. \<forall>r \<in> set (assigned t). channelType r \<in> set (types t) \<and> channel r = c)"

definition received :: "tuner list \<Rightarrow> reserve set" where
  "received ts = (\<Union>t \<in> set ts. set (assigned t))"

lemma tuner_add_ok: "tuner_add r t = Some t' \<Longrightarrow> tuner_ok t \<Longrightarrow>
    tuner_ok t' \<and> types t' = types t \<and> set (assigned t') = insert r (set (assigned t))"
  by (cases "assigned t") (auto simp: tuner_add_def tuner_ok_def split: if_splits)

lemma try_add_ok:
  "try_add r ts = Some ts' \<Longrightarrow> \<forall>t \<in> set ts. tuner_ok t \<Longrightarrow>
    (\<forall>t \<in> set ts'. tuner_ok t) \<and> map types ts' = map types ts \<and>
    received ts' = insert r (received ts)"
proof (induction ts arbitrary: ts')
  case (Cons t ts)
  then show ?case
    by (fastforce simp: received_def split: option.splits dest: tuner_add_ok)
qed simp

lemma schedulable_received:
  assumes "\<forall>t \<in> set ts. tuner_ok t"
  shows "schedulable ts (received ts)"
proof -
  define f where "f r = (LEAST k. k < length ts \<and> r \<in> set (assigned (ts ! k)))" for r
  have f: "f r < length ts \<and> r \<in> set (assigned (ts ! f r))" if r: "r \<in> received ts" for r
  proof -
    obtain k where "k < length ts" "r \<in> set (assigned (ts ! k))"
      using r by (auto simp: received_def) (metis in_set_conv_nth)
    then show ?thesis unfolding f_def by (metis (mono_tags, lifting) LeastI)
  qed
  have ok: "tuner_ok (ts ! f r)" if "r \<in> received ts" for r
    using assms f [OF that] by (auto dest: nth_mem)
  show ?thesis
    unfolding schedulable_def
  proof (intro exI [of _ f] ballI conjI impI)
    fix r assume r: "r \<in> received ts"
    show "f r < length ts" "channelType r \<in> set (types (ts ! f r))"
      using f [OF r] ok [OF r] unfolding tuner_ok_def by blast+
    fix q assume q: "q \<in> received ts" and eq: "f q = f r"
    then show "channel q = channel r"
      using f [OF r] f [OF q] ok [OF r] unfolding tuner_ok_def by metis
  qed
qed

lemma schedulable_types:
  "map types ts' = map types ts \<Longrightarrow> schedulable ts' S = schedulable ts S"
proof -
  assume eq: "map types ts' = map types ts"
  then have len: "length ts' = length ts" by (metis length_map)
  have "types (ts' ! k) = types (ts ! k)" if "k < length ts" for k
    using eq that len by (metis nth_map)
  then show ?thesis unfolding schedulable_def len by metis
qed

lemma assign_pass_subset: "set (assign_pass rs ts) \<subseteq> snd ` set rs"
  by (induction rs ts rule: assign_pass.induct) (auto split: option.splits)

lemma assign_pass_skipped:
  "i \<in> set (assign_pass rs ts) \<Longrightarrow> \<exists>r. (r, i) \<in> set rs \<and> \<not> isSkip r \<and> \<not> isOverlap r"
  by (induction rs ts rule: assign_pass.induct) (auto split: option.splits if_splits)

lemma assign_pass_received:
  assumes "\<forall>t \<in> set ts. tuner_ok t" and "distinct (map snd rs)"
  shows "\<exists>ts'. (\<forall>t \<in> set ts'. tuner_ok t) \<and> map types ts' = map types ts \<and>
    received ts' = received ts \<union>
      {r. \<exists>i. (r, i) \<in> set rs \<and> i \<notin> set (assign_pass rs ts) \<and> \<not> isSkip r \<and> \<not> isOverlap r}"
  using assms
proof (induction rs ts rule: assign_pass.induct)
  case (1 ts)
  then show ?case by (auto intro: exI [of _ ts])
next
  case (2 r i rs ts)
  have fresh: "i \<notin> snd ` set rs" using "2.prems" by simp
  then have i: "i \<notin> set (assign_pass rs us)" for us using assign_pass_subset by blast
  show ?case
  proof (cases "isSkip r \<or> isOverlap r")
    case True
    from "2.IH"(1) [OF True] "2.prems" obtain ts' where
      ts': "\<forall>t \<in> set ts'. tuner_ok t" "map types ts' = map types ts"
      "received ts' = received ts \<union>
        {r. \<exists>i. (r, i) \<in> set rs \<and> i \<notin> set (assign_pass rs ts) \<and> \<not> isSkip r \<and> \<not> isOverlap r}"
      by auto
    moreover have "{q. \<exists>j. (q, j) \<in> set ((r, i) # rs) \<and> j \<notin> set (assign_pass ((r, i) # rs) ts) \<and>
        \<not> isSkip q \<and> \<not> isOverlap q} =
      {q. \<exists>j. (q, j) \<in> set rs \<and> j \<notin> set (assign_pass rs ts) \<and> \<not> isSkip q \<and> \<not> isOverlap q}"
      using True by auto
    ultimately show ?thesis by blast
  next
    case False
    show ?thesis
    proof (cases "try_add r ts")
      case None
      from "2.IH"(2) [OF False None] "2.prems" obtain ts' where
        ts': "\<forall>t \<in> set ts'. tuner_ok t" "map types ts' = map types ts"
        "received ts' = received ts \<union>
          {r. \<exists>i. (r, i) \<in> set rs \<and> i \<notin> set (assign_pass rs ts) \<and> \<not> isSkip r \<and> \<not> isOverlap r}"
        by auto
      moreover have "{q. \<exists>j. (q, j) \<in> set ((r, i) # rs) \<and> j \<notin> set (assign_pass ((r, i) # rs) ts) \<and>
          \<not> isSkip q \<and> \<not> isOverlap q} =
        {q. \<exists>j. (q, j) \<in> set rs \<and> j \<notin> set (assign_pass rs ts) \<and> \<not> isSkip q \<and> \<not> isOverlap q}"
        using False None fresh by force
      ultimately show ?thesis by blast
    next
      case (Some us)
      note us = try_add_ok [OF Some "2.prems"(1)]
      from "2.IH"(3) [OF False Some] "2.prems" us obtain ts' where
        ts': "\<forall>t \<in> set ts'. tuner_ok t" "map types ts' = map types ts"
        "received ts' = insert r (received ts) \<union>
          {r. \<exists>i. (r, i) \<in> set rs \<and> i \<notin> set (assign_pass rs us) \<and> \<not> isSkip r \<and> \<not> isOverlap r}"
        by auto
      moreover have "insert r {q. \<exists>j. (q, j) \<in> set rs \<and> j \<notin> set (assign_pass rs us) \<and>
          \<not> isSkip q \<and> \<not> isOverlap q} =
        {q. \<exists>j. (q, j) \<in> set ((r, i) # rs) \<and> j \<notin> set (assign_pass ((r, i) # rs) ts) \<and>
          \<not> isSkip q \<and> \<not> isOverlap q}"
        using False Some i [of us] by auto
      ultimately show ?thesis by blast
    qed
  qed
qed

text \<open>The reservations the pass leaves without conflict can be received together.\<close>

lemma evaluate_schedulable:
  assumes "distinct (map snd rs)"
  shows "schedulable ts {r. \<exists>i. (r, i) \<in> set rs \<and> i \<notin> set (evaluate ts rs) \<and>
    \<not> isSkip r \<and> \<not> isOverlap r}"
proof -
  have clear: "\<forall>t \<in> set (map tuner_clear ts). tuner_ok t"
    by (simp add: tuner_clear_def tuner_ok_def)
  have types: "map types (map tuner_clear ts) = map types ts"
    by (simp add: tuner_clear_def comp_def)
  have "received (map tuner_clear ts) = {}" by (simp add: received_def tuner_clear_def)
  with assign_pass_received [OF clear assms] obtain ts' where
    "\<forall>t \<in> set ts'. tuner_ok t" "map types ts' = map types ts"
    "received ts' = {r. \<exists>i. (r, i) \<in> set rs \<and> i \<notin> set (evaluate ts rs) \<and> \<not> isSkip r \<and> \<not> isOverlap r}"
    unfolding evaluate_def types by auto
  with schedulable_received [of ts'] schedulable_types show ?thesis by metis
qed

text \<open>The outcome for a reservation depends on those before it only.\<close>

lemma assign_pass_append:
  "\<exists>ts'. \<forall>ys. assign_pass (xs @ ys) ts = assign_pass xs ts @ assign_pass ys ts'"
proof (induction xs ts rule: assign_pass.induct)
  case (2 r i rs ts)
  then show ?case by (cases "isSkip r \<or> isOverlap r"; cases "try_add r ts") auto
qed auto

lemma evaluate_prefix: "\<exists>zs. evaluate ts (xs @ ys) = evaluate ts xs @ zs \<and> set zs \<subseteq> snd ` set ys"
  using assign_pass_append [of xs "map tuner_clear ts"] assign_pass_subset
  unfolding evaluate_def by metis

end
