(* ===== verification/Reserve_Conflict.thy ===== *)
theory Reserve_Conflict
  imports Tuner_Alloc
begin

text \<open>
  The conflict evaluation of \<open>src/src/model/operator/reservation/ReservationManageModel.ts\<close>:
  \<open>sortReserve\<close>, \<open>getRuleProgramIdKey\<close> and \<open>createReserves\<close>. The reservations are sorted by
  priority, duplicates of one programme are folded, and a sweep over the start and end times
  assigns the active reservations to the tuners, first fit in the order of priority, after every
  event. A reservation that found no tuner after one event is in conflict.
\<close>

subsection \<open>Priority\<close>

definition sortReserve :: "reserve \<Rightarrow> reserve \<Rightarrow> int" where
  "sortReserve a b =
     (let aIsManual = (ruleId a = None); bIsManual = (ruleId b = None)
      in if aIsManual \<and> bIsManual then
           (if isTimeSpecified a = isTimeSpecified b then updateTime a - updateTime b
            else if isTimeSpecified a \<and> \<not> isTimeSpecified b then -1 else 1)
         else if aIsManual \<and> \<not> bIsManual then -1
         else if \<not> aIsManual \<and> bIsManual then 1
         else (case (ruleId a, ruleId b) of (Some x, Some y) \<Rightarrow> x - y | _ \<Rightarrow> 0))"

text \<open>The order the comparator means: time-specified before programme before rule reservations,
  the older (smaller update time, smaller rule id) first.\<close>

definition rank :: "reserve \<Rightarrow> nat \<times> int" where
  "rank r = (case ruleId r of
     None \<Rightarrow> (if isTimeSpecified r then 0 else 1, updateTime r)
   | Some x \<Rightarrow> (2, x))"

lemma sortReserve_rank: "sortReserve a b \<le> 0 \<longleftrightarrow> rank a \<le> rank b"
  by (auto simp: sortReserve_def rank_def Let_def split: option.splits)

lemma sortReserve_less: "sortReserve a b < 0 \<longleftrightarrow> rank a < rank b"
  by (auto simp: sortReserve_def rank_def Let_def split: option.splits)

lemma js_sort_reserves: "js_sort sortReserve = sort_key rank"
  by (rule ext) (simp add: js_sort_key [where f = rank] sortReserve_rank)

lemma js_sort_active:
  "js_sort (\<lambda>a b. sortReserve (fst a) (fst b)) = sort_key (\<lambda>p. rank (fst p))"
  by (rule ext) (simp add: js_sort_key [where f = "\<lambda>p. rank (fst p)"] sortReserve_rank)

subsection \<open>Folding the duplicates of one programme\<close>

definition getRuleProgramIdKey :: "reserve \<Rightarrow> jstr option" where
  "getRuleProgramIdKey re =
     (case programId re of
        None \<Rightarrow> None
      | Some p \<Rightarrow>
          if ruleId re = None then Some (num_str p)
          else if isSkip re \<or> isOverlap re
          then Some (num_str p @ js ''-'' @ (if isSkip re then js ''skip'' else js ''overlap'') @
                 js ''-'' @ opt_num_str (ruleId re))
          else Some (num_str p @ js ''-'' @ bool_str (isConflict re) @ js ''-'' @
                 bool_str (isOverlap re) @ js ''-'' @ bool_str (isSkip re)))"

text \<open>A programme that one rule excludes is excluded for every rule.\<close>

definition skippedProgramIds :: "reserve list \<Rightarrow> int list" where
  "skippedProgramIds allMatches = concat (map (\<lambda>r.
     case programId r of
       None \<Rightarrow> []
     | Some p \<Rightarrow> if ruleId r \<noteq> None \<and> \<not> isEventRelay r \<and> isSkip r then [p] else []) allMatches)"

definition kept_by_exclusion :: "int list \<Rightarrow> reserve \<Rightarrow> bool" where
  "kept_by_exclusion skipped r \<longleftrightarrow>
     ruleId r = None \<or> programId r = None \<or> isEventRelay r \<or> isSkip r \<or>
     (case programId r of None \<Rightarrow> True | Some p \<Rightarrow> p \<notin> set skipped)"

definition matches_of :: "reserve list \<Rightarrow> reserve list" where
  "matches_of allMatches =
     js_sort sortReserve (filter (kept_by_exclusion (skippedProgramIds allMatches)) allMatches)"

subsection \<open>Sweep events\<close>

datatype sweep_event = SweepEvent (evTime: int) (evStart: bool) (evIdx: nat)

definition cmp_event :: "sweep_event \<Rightarrow> sweep_event \<Rightarrow> int" where
  "cmp_event a b =
     (let time = evTime a - evTime b
      in if time \<noteq> 0 then time
         else if evStart a \<and> \<not> evStart b then 1
         else if \<not> evStart a \<and> evStart b then -1
         else int (evIdx a) - int (evIdx b))"

instantiation sweep_event :: linorder
begin

definition less_eq_sweep_event :: "sweep_event \<Rightarrow> sweep_event \<Rightarrow> bool" where
  "less_eq_sweep_event a b \<longleftrightarrow> cmp_event a b \<le> 0"

definition less_sweep_event :: "sweep_event \<Rightarrow> sweep_event \<Rightarrow> bool" where
  "less_sweep_event a b \<longleftrightarrow> cmp_event a b < 0"

instance
proof
  fix a b c :: sweep_event
  show "a < b \<longleftrightarrow> a \<le> b \<and> \<not> b \<le> a"
    by (auto simp: less_eq_sweep_event_def less_sweep_event_def cmp_event_def Let_def)
  show "a \<le> a" by (simp add: less_eq_sweep_event_def cmp_event_def)
  show "a \<le> b \<Longrightarrow> b \<le> c \<Longrightarrow> a \<le> c"
    by (auto simp: less_eq_sweep_event_def cmp_event_def Let_def split: if_splits)
  show "a \<le> b \<Longrightarrow> b \<le> a \<Longrightarrow> a = b"
    by (cases a; cases b) (auto simp: less_eq_sweep_event_def cmp_event_def Let_def split: if_splits)
  show "a \<le> b \<or> b \<le> a"
    by (auto simp: less_eq_sweep_event_def cmp_event_def Let_def)
qed

end

lemma js_sort_events: "js_sort cmp_event = sort"
  by (rule ext) (simp add: js_sort_key [where f = "\<lambda>e. e"] less_eq_sweep_event_def)

lemma event_le_time: "a \<le> b \<Longrightarrow> evTime a \<le> evTime b"
  by (auto simp: less_eq_sweep_event_def cmp_event_def Let_def split: if_splits)

text \<open>The two events of every reservation whose key has not been seen.\<close>

fun build_list :: "reserve list \<Rightarrow> nat \<Rightarrow> jstr list \<Rightarrow> sweep_event list" where
  "build_list [] i seen = []"
| "build_list (m # ms) i seen =
     (case getRuleProgramIdKey m of
        None \<Rightarrow> SweepEvent (startAt m) True i # SweepEvent (endAt m) False i #
                  build_list ms (Suc i) seen
      | Some k \<Rightarrow>
          if k \<in> set seen then build_list ms (Suc i) seen
          else SweepEvent (startAt m) True i # SweepEvent (endAt m) False i #
                 build_list ms (Suc i) (k # seen))"

subsection \<open>The sweep\<close>

definition sweep_step :: "tuner list \<Rightarrow> reserve list \<Rightarrow> sweep_event \<Rightarrow>
    (reserve \<times> nat) list \<times> nat list \<Rightarrow> (reserve \<times> nat) list \<times> nat list" where
  "sweep_step ts matches e st =
     (let (reserves, conflictResults) = st; m = matches ! evIdx e
      in if isSkip m then (reserves, conflictResults)
         else let r1 = (if evStart e then reserves @ [(m, evIdx e)]
                        else splice_remove (find_index (\<lambda>p. snd p = evIdx e) reserves) reserves);
                  r2 = js_sort (\<lambda>a b. sortReserve (fst a) (fst b)) r1
              in (r2, conflictResults @ evaluate ts r2))"

definition createReserves :: "tuner list \<Rightarrow> reserve list \<Rightarrow> reserve list" where
  "createReserves ts allMatches =
     (let matches = matches_of allMatches;
          list = js_sort cmp_event (build_list matches 0 []);
          (_, conflictResults) = fold (sweep_step ts matches) list ([], []);
          newReserves = map (\<lambda>e. (matches ! evIdx e)\<lparr>isConflict := evIdx e \<in> set conflictResults\<rparr>)
            (filter evStart list)
      in js_sort (\<lambda>a b. startAt a - startAt b) newReserves)"

subsection \<open>The events of the sweep\<close>

definition ev :: "reserve list \<Rightarrow> bool \<Rightarrow> nat \<Rightarrow> sweep_event" where
  "ev ms b i = SweepEvent (if b then startAt (ms ! i) else endAt (ms ! i)) b i"

lemma ev_sel [simp]:
  "evStart (ev ms b i) = b" "evIdx (ev ms b i) = i"
  "evTime (ev ms b i) = (if b then startAt (ms ! i) else endAt (ms ! i))"
  by (simp_all add: ev_def)

lemma ev_inject [simp]: "ev ms b i = ev ms c j \<longleftrightarrow> b = c \<and> i = j"
  by (auto simp: ev_def)

definition pair_events :: "reserve list \<Rightarrow> nat \<Rightarrow> nat \<Rightarrow> sweep_event list" where
  "pair_events ms i k =
     [SweepEvent (startAt (ms ! (k - i))) True k, SweepEvent (endAt (ms ! (k - i))) False k]"

lemma pair_events_shift:
  "\<forall>k \<in> set ks. Suc i \<le> k \<Longrightarrow>
   concat (map (pair_events ms (Suc i)) ks) = concat (map (pair_events (m # ms) i) ks)"
proof -
  assume "\<forall>k \<in> set ks. Suc i \<le> k"
  then have "map (pair_events ms (Suc i)) ks = map (pair_events (m # ms) i) ks"
    by (auto simp: pair_events_def nth_Cons')
  then show ?thesis by (rule arg_cong)
qed

definition kept_indices :: "reserve list \<Rightarrow> nat \<Rightarrow> nat list \<Rightarrow> sweep_event list \<Rightarrow> bool" where
  "kept_indices ms i ks es \<longleftrightarrow> es = concat (map (pair_events ms i) ks) \<and> sorted_wrt (<) ks \<and>
     (\<forall>k \<in> set ks. i \<le> k \<and> k < i + length ms)"

lemma kept_indices_skip: "kept_indices ms (Suc i) ks es \<Longrightarrow> kept_indices (m # ms) i ks es"
  using pair_events_shift [of ks i ms m] by (auto simp: kept_indices_def)

lemma kept_indices_add:
  "kept_indices ms (Suc i) ks es \<Longrightarrow>
   kept_indices (m # ms) i (i # ks) (SweepEvent (startAt m) True i # SweepEvent (endAt m) False i # es)"
  using pair_events_shift [of ks i ms m] by (auto simp: kept_indices_def) (auto simp: pair_events_def)

lemma build_list_kept: "\<exists>ks. kept_indices ms i ks (build_list ms i seen)"
proof (induction ms i seen rule: build_list.induct)
  case (1 i seen)
  have "kept_indices [] i [] (build_list [] i seen)" by (simp add: kept_indices_def)
  then show ?case by blast
next
  case (2 m ms i seen)
  show ?case
  proof (cases "getRuleProgramIdKey m")
    case None
    then show ?thesis using 2(1) [OF None] kept_indices_add by fastforce
  next
    case (Some k)
    show ?thesis
    proof (cases "k \<in> set seen")
      case True
      then show ?thesis using 2(2) [OF Some True] Some kept_indices_skip by fastforce
    next
      case False
      then show ?thesis using 2(3) [OF Some False] Some kept_indices_add by fastforce
    qed
  qed
qed

text \<open>A well-formed event list: sorted, without repetition, with both events of every index.\<close>

definition event_list :: "reserve list \<Rightarrow> nat list \<Rightarrow> sweep_event list \<Rightarrow> bool" where
  "event_list ms ks E \<longleftrightarrow> sorted E \<and> distinct E \<and> distinct ks \<and> (\<forall>k \<in> set ks. k < length ms) \<and>
     (\<forall>e. e \<in> set E \<longleftrightarrow> (\<exists>b. \<exists>k \<in> set ks. e = ev ms b k))"

lemma event_list_build:
  "\<exists>ks. event_list ms ks (js_sort cmp_event (build_list ms 0 [])) \<and> sorted_wrt (<) ks \<and>
     mset (map evIdx (filter evStart (js_sort cmp_event (build_list ms 0 [])))) = mset ks"
proof -
  obtain ks where k: "kept_indices ms 0 ks (build_list ms 0 [])" using build_list_kept by blast
  have ks: "build_list ms 0 [] = concat (map (\<lambda>k. [ev ms True k, ev ms False k]) ks)"
    "sorted_wrt (<) ks" "\<forall>k \<in> set ks. k < length ms"
    using k unfolding kept_indices_def pair_events_def by (simp_all add: ev_def)
  have d: "distinct ks" using ks(2) by (simp add: strict_sorted_iff)
  have dist: "distinct (concat (map (\<lambda>k. [ev ms True k, ev ms False k]) ks))"
    using d by (induction ks) auto
  have mem: "e \<in> set (concat (map (\<lambda>k. [ev ms True k, ev ms False k]) ks)) \<longleftrightarrow>
      (\<exists>b. \<exists>k \<in> set ks. e = ev ms b k)" for e
    unfolding ex_bool_eq by auto
  have starts: "map evIdx (filter evStart (concat (map (\<lambda>k. [ev ms True k, ev ms False k]) ks))) = ks"
    by (induction ks) auto
  have "mset (map evIdx (filter evStart (js_sort cmp_event (build_list ms 0 [])))) = mset ks"
    by (metis ks(1) mset_filter mset_js_sort mset_map starts)
  moreover have "event_list ms ks (js_sort cmp_event (build_list ms 0 []))"
    using d ks dist mem unfolding event_list_def by (simp add: js_sort_events)
  ultimately show ?thesis using ks(2) by blast
qed

lemma event_listD:
  assumes "event_list ms ks E"
  shows "sorted E" "distinct E" "distinct ks" "k \<in> set ks \<Longrightarrow> k < length ms"
    "e \<in> set E \<longleftrightarrow> (\<exists>b. \<exists>k \<in> set ks. e = ev ms b k)"
    "ev ms b k \<in> set E \<longleftrightarrow> k \<in> set ks"
  using assms unfolding event_list_def by auto

lemma event_list_split:
  assumes "event_list ms ks (pre @ e # post)"
  shows "e \<notin> set pre" "e \<notin> set post" "\<forall>x \<in> set pre. x \<le> e" "\<forall>x \<in> set post. e \<le> x"
  using event_listD(1,2) [OF assms] by (auto simp: sorted_append)

lemma event_list_elem:
  assumes "event_list ms ks (pre @ e # post)"
  obtains b k where "e = ev ms b k" "k \<in> set ks" "k < length ms"
proof -
  have "e \<in> set (pre @ e # post)" by simp
  then obtain b k where "e = ev ms b k" "k \<in> set ks" using event_listD(5) [OF assms] by blast
  then show ?thesis using that event_listD(4) [OF assms] by blast
qed

lemma ev_less: "startAt (ms ! k) < endAt (ms ! k) \<Longrightarrow> ev ms True k < ev ms False k"
  by (simp add: less_sweep_event_def cmp_event_def Let_def)

text \<open>When an end event is reached its start event has been; when a start event is reached its end
  event has not.\<close>

lemma event_list_end:
  assumes E: "event_list ms ks (pre @ ev ms False k # post)" and "startAt (ms ! k) < endAt (ms ! k)"
  shows "ev ms True k \<in> set pre"
proof -
  have "k \<in> set ks" using event_listD(6) [OF E, of False k] by simp
  then have "ev ms True k \<in> set (pre @ ev ms False k # post)" using event_listD(6) [OF E] by blast
  moreover have "ev ms True k \<notin> set post"
    using event_list_split(4) [OF E] ev_less [OF assms(2)] by (meson leD)
  ultimately show ?thesis by simp
qed

lemma event_list_start:
  assumes E: "event_list ms ks (pre @ ev ms True k # post)" and "startAt (ms ! k) < endAt (ms ! k)"
  shows "ev ms False k \<notin> set pre"
  using event_list_split(3) [OF E] ev_less [OF assms(2)] by (meson leD)

subsection \<open>The invariant of the sweep\<close>

definition active :: "reserve list \<Rightarrow> sweep_event list \<Rightarrow> nat \<Rightarrow> bool" where
  "active ms pre i \<longleftrightarrow> \<not> isSkip (ms ! i) \<and> ev ms True i \<in> set pre \<and> ev ms False i \<notin> set pre"

definition tracks :: "reserve list \<Rightarrow> sweep_event list \<Rightarrow> (reserve \<times> nat) list \<Rightarrow> bool" where
  "tracks ms pre A \<longleftrightarrow> distinct (map snd A) \<and> (\<forall>p \<in> set A. fst p = ms ! snd p) \<and>
     (\<forall>i. i \<in> snd ` set A \<longleftrightarrow> active ms pre i)"

lemma tracksD:
  assumes "tracks ms pre A"
  shows "distinct (map snd A)" "p \<in> set A \<Longrightarrow> fst p = ms ! snd p"
    "i \<in> snd ` set A \<longleftrightarrow> active ms pre i"
  using assms unfolding tracks_def by blast+

lemma tracks_mset: "tracks ms pre A \<Longrightarrow> mset A = mset B \<Longrightarrow> tracks ms pre B"
proof -
  assume A: "tracks ms pre A" and m: "mset A = mset B"
  have s: "set A = set B" using m by (metis set_mset_mset)
  have "mset (map snd A) = mset (map snd B)" using m by (metis mset_map)
  then have "distinct (map snd A) = distinct (map snd B)" by (metis mset_eq_imp_distinct_iff)
  with A s show ?thesis unfolding tracks_def by simp
qed

lemma tracks_mem: "tracks ms pre A \<Longrightarrow> (r, i) \<in> set A \<longleftrightarrow> r = ms ! i \<and> active ms pre i"
proof -
  assume A: "tracks ms pre A"
  have "(r, i) \<in> set A \<Longrightarrow> r = ms ! i \<and> active ms pre i"
    using tracksD(2,3) [OF A] by force
  moreover have "active ms pre i \<Longrightarrow> (ms ! i, i) \<in> set A"
    using tracksD(2,3) [OF A] by force
  ultimately show ?thesis by blast
qed

lemma tracks_add:
  assumes A: "tracks ms pre A" and E: "event_list ms ks (pre @ ev ms True k # post)"
    and k: "startAt (ms ! k) < endAt (ms ! k)" "\<not> isSkip (ms ! k)"
  shows "tracks ms (pre @ [ev ms True k]) (A @ [(ms ! k, k)])"
proof -
  have "ev ms True k \<notin> set pre" using event_list_split(1) [OF E] .
  then have "\<not> active ms pre k" by (simp add: active_def)
  moreover have "active ms (pre @ [ev ms True k]) i \<longleftrightarrow> active ms pre i \<or> i = k" for i
    using event_list_start [OF E k(1)] k(2) by (auto simp: active_def)
  ultimately show ?thesis using A unfolding tracks_def by auto
qed

lemma tracks_remove:
  assumes A: "tracks ms pre A" and E: "event_list ms ks (pre @ ev ms False k # post)"
    and k: "startAt (ms ! k) < endAt (ms ! k)" "\<not> isSkip (ms ! k)"
  shows "tracks ms (pre @ [ev ms False k]) (splice_remove (find_index (\<lambda>p. snd p = k) A) A)"
proof -
  have "active ms pre k"
    using event_list_end [OF E k(1)] event_list_split(1) [OF E] k(2) by (simp add: active_def)
  then have "k \<in> snd ` set A" using tracksD(3) [OF A] by blast
  then have "\<exists>p \<in> set A. snd p = k" by auto
  then obtain ys p zs where A': "A = ys @ p # zs" "snd p = k"
    "splice_remove (find_index (\<lambda>p. snd p = k) A) A = ys @ zs" by (rule splice_remove_find)
  have snds: "snd ` set (ys @ zs) = snd ` set A - {k}" "distinct (map snd (ys @ zs))"
    using tracksD(1) [OF A] A'(2) unfolding A'(1) by (simp_all, blast)
  have sub: "set (ys @ zs) \<subseteq> set A" unfolding A'(1) by auto
  have "\<forall>p \<in> set (ys @ zs). fst p = ms ! snd p" using tracksD(2) [OF A] sub by blast
  moreover have "i \<in> snd ` set (ys @ zs) \<longleftrightarrow> active ms (pre @ [ev ms False k]) i" for i
    unfolding snds(1) using tracksD(3) [OF A] by (auto simp: active_def)
  ultimately show ?thesis using snds(2) unfolding tracks_def A'(3) by blast
qed

lemma tracks_skip:
  assumes "tracks ms pre A" "isSkip (ms ! k)"
  shows "tracks ms (pre @ [ev ms b k]) A"
proof -
  have "active ms (pre @ [ev ms b k]) i \<longleftrightarrow> active ms pre i" for i
    using assms(2) by (auto simp: active_def)
  with assms(1) show ?thesis unfolding tracks_def by simp
qed

text \<open>The reservations that are active and have met no conflict so far.\<close>

definition accepted :: "reserve list \<Rightarrow> sweep_event list \<Rightarrow> nat list \<Rightarrow> reserve set" where
  "accepted ms pre R =
     {r. \<exists>i. r = ms ! i \<and> active ms pre i \<and> i \<notin> set R \<and> \<not> isOverlap r}"

lemma accepted_evaluate:
  assumes "tracks ms pre A"
  shows "schedulable ts (accepted ms pre (R @ evaluate ts A))"
proof -
  have "accepted ms pre (R @ evaluate ts A) \<subseteq>
      {r. \<exists>i. (r, i) \<in> set A \<and> i \<notin> set (evaluate ts A) \<and> \<not> isSkip r \<and> \<not> isOverlap r}"
    by (auto simp: accepted_def tracks_mem [OF assms] active_def)
  with evaluate_schedulable [OF tracksD(1) [OF assms]] schedulable_mono show ?thesis by blast
qed

definition sweep_inv :: "tuner list \<Rightarrow> reserve list \<Rightarrow> sweep_event list \<Rightarrow>
    (reserve \<times> nat) list \<times> nat list \<Rightarrow> bool" where
  "sweep_inv ts ms pre st \<longleftrightarrow> tracks ms pre (fst st) \<and> schedulable ts (accepted ms pre (snd st)) \<and>
     (\<forall>i \<in> set (snd st). \<not> isSkip (ms ! i) \<and> \<not> isOverlap (ms ! i))"

lemma sweep_inv_init: "sweep_inv ts ms [] ([], [])"
  by (simp add: sweep_inv_def tracks_def active_def accepted_def)

definition timed :: "reserve \<Rightarrow> bool" where
  "timed r \<longleftrightarrow> startAt r < endAt r"

lemma sweep_step_tracks:
  assumes E: "event_list ms ks (pre @ e # post)" and timed: "\<forall>k \<in> set ks. timed (ms ! k)"
    and A: "tracks ms pre (fst st)"
  shows "tracks ms (pre @ [e]) (fst (sweep_step ts ms e st))"
proof -
  obtain b k where e: "e = ev ms b k" "k \<in> set ks" using event_list_elem [OF E] .
  have t: "startAt (ms ! k) < endAt (ms ! k)" using timed e by (simp add: timed_def)
  show ?thesis
  proof (cases "isSkip (ms ! k)")
    case True
    then show ?thesis
      using tracks_skip [OF A] by (simp add: sweep_step_def e split: prod.splits)
  next
    case False
    define r1 where "r1 = (if b then fst st @ [(ms ! k, k)]
      else splice_remove (find_index (\<lambda>p. snd p = k) (fst st)) (fst st))"
    have "tracks ms (pre @ [e]) r1"
      using tracks_add [OF A _ t False] tracks_remove [OF A _ t False] E
      by (cases b) (auto simp: r1_def e)
    moreover have "fst (sweep_step ts ms e st) = js_sort (\<lambda>a b. sortReserve (fst a) (fst b)) r1"
      using False by (simp add: sweep_step_def e r1_def Let_def split: prod.splits)
    ultimately show ?thesis using tracks_mset by (metis mset_js_sort)
  qed
qed

lemma sweep_step_results:
  "snd (sweep_step ts ms e st) = snd st @
     (if isSkip (ms ! evIdx e) then [] else evaluate ts (fst (sweep_step ts ms e st)))"
  by (simp add: sweep_step_def Let_def split: prod.splits)

lemma accepted_skip: "isSkip (ms ! k) \<Longrightarrow> accepted ms (pre @ [ev ms b k]) R = accepted ms pre R"
proof -
  assume "isSkip (ms ! k)"
  then have "active ms (pre @ [ev ms b k]) i \<longleftrightarrow> active ms pre i" for i
    by (auto simp: active_def)
  then show ?thesis by (simp add: accepted_def)
qed

lemma sweep_inv_step:
  assumes E: "event_list ms ks (pre @ e # post)" and timed: "\<forall>k \<in> set ks. timed (ms ! k)"
    and inv: "sweep_inv ts ms pre st"
  shows "sweep_inv ts ms (pre @ [e]) (sweep_step ts ms e st)"
proof -
  have tr: "tracks ms (pre @ [e]) (fst (sweep_step ts ms e st))"
    using sweep_step_tracks [OF E timed] inv by (simp add: sweep_inv_def)
  have "\<not> isSkip (ms ! i) \<and> \<not> isOverlap (ms ! i)"
    if "i \<in> set (evaluate ts (fst (sweep_step ts ms e st)))" for i
    using that assign_pass_skipped tracks_mem [OF tr] unfolding evaluate_def by (metis (no_types))
  then have res: "\<forall>i \<in> set (snd (sweep_step ts ms e st)). \<not> isSkip (ms ! i) \<and> \<not> isOverlap (ms ! i)"
    using inv unfolding sweep_step_results sweep_inv_def by auto
  have "schedulable ts (accepted ms (pre @ [e]) (snd (sweep_step ts ms e st)))"
  proof (cases "isSkip (ms ! evIdx e)")
    case True
    moreover obtain b k where "e = ev ms b k" using event_list_elem [OF E] .
    ultimately show ?thesis
      using inv accepted_skip unfolding sweep_step_results sweep_inv_def by simp
  next
    case False
    then show ?thesis using accepted_evaluate [OF tr] unfolding sweep_step_results by simp
  qed
  with tr res show ?thesis by (simp add: sweep_inv_def)
qed

lemma sweep_inv_prefix:
  assumes "event_list ms ks (pre @ post)" and "\<forall>k \<in> set ks. timed (ms ! k)"
  shows "sweep_inv ts ms pre (fold (sweep_step ts ms) pre ([], []))"
  using assms
proof (induction pre arbitrary: post rule: rev_induct)
  case Nil
  then show ?case by (simp add: sweep_inv_init)
next
  case (snoc e pre)
  then show ?case using sweep_inv_step [of ms ks pre e post] by simp
qed

lemma sweep_results_grow:
  "set (snd st) \<subseteq> set (snd (fold (sweep_step ts ms) es st))"
proof (induction es arbitrary: st)
  case (Cons e es)
  have "set (snd st) \<subseteq> set (snd (sweep_step ts ms e st))" by (simp add: sweep_step_results)
  with Cons [of "sweep_step ts ms e st"] show ?case by simp
qed simp

subsection \<open>The outcome\<close>

lemma kept_timed:
  assumes "\<forall>r \<in> set all. startAt r < endAt r" "\<forall>k \<in> set ks. k < length (matches_of all)"
  shows "\<forall>k \<in> set ks. timed (matches_of all ! k)"
proof
  fix k assume "k \<in> set ks"
  then have "matches_of all ! k \<in> set (matches_of all)" using assms(2) by auto
  then have "matches_of all ! k \<in> set all" by (auto simp: matches_of_def)
  then show "timed (matches_of all ! k)" using assms(1) by (auto simp: timed_def)
qed

text \<open>The parts of one evaluation: the sorted reservations, the sorted events, the indexes that
  survive the folding and the indexes in conflict.\<close>

definition sweep_events :: "reserve list \<Rightarrow> sweep_event list" where
  "sweep_events ms = js_sort cmp_event (build_list ms 0 [])"

definition sweep_conflicts :: "tuner list \<Rightarrow> reserve list \<Rightarrow> nat list" where
  "sweep_conflicts ts ms = snd (fold (sweep_step ts ms) (sweep_events ms) ([], []))"

lemma createReserves_eq:
  "createReserves ts all = (let ms = matches_of all in
     js_sort (\<lambda>a b. startAt a - startAt b)
       (map (\<lambda>e. (ms ! evIdx e)\<lparr>isConflict := evIdx e \<in> set (sweep_conflicts ts ms)\<rparr>)
         (filter evStart (sweep_events ms))))"
  by (simp add: createReserves_def sweep_events_def sweep_conflicts_def Let_def split_def)

lemma sweep_events_list:
  obtains ks where "event_list ms ks (sweep_events ms)" "sorted_wrt (<) ks"
    "\<And>k. k \<in> set ks \<Longrightarrow> k < length ms"
  using event_list_build [of ms] event_listD(4) unfolding sweep_events_def by blast

lemma set_createReserves:
  assumes "event_list (matches_of all) ks (sweep_events (matches_of all))"
  shows "set (createReserves ts all) =
    (\<lambda>i. (matches_of all ! i)\<lparr>isConflict := i \<in> set (sweep_conflicts ts (matches_of all))\<rparr>) ` set ks"
proof -
  have "evIdx ` {e \<in> set (sweep_events (matches_of all)). evStart e} = set ks"
    using event_listD(5) [OF assms] by (force simp: image_iff)
  moreover have "set (createReserves ts all) =
      (\<lambda>i. (matches_of all ! i)\<lparr>isConflict := i \<in> set (sweep_conflicts ts (matches_of all))\<rparr>) `
      evIdx ` {e \<in> set (sweep_events (matches_of all)). evStart e}"
    unfolding createReserves_eq Let_def image_image by simp
  ultimately show ?thesis by simp
qed

lemma schedulable_like:
  assumes "schedulable ts S"
    and "\<forall>r \<in> R. \<exists>q \<in> S. channelType q = channelType r \<and> channel q = channel r"
  shows "schedulable ts R"
proof -
  obtain f where f: "\<forall>r \<in> S. f r < length ts \<and> channelType r \<in> set (types (ts ! f r)) \<and>
     (\<forall>q \<in> S. f q = f r \<longrightarrow> channel q = channel r)"
    using assms(1) unfolding schedulable_def by blast
  obtain g where "\<forall>r \<in> R. g r \<in> S \<and> channelType (g r) = channelType r \<and> channel (g r) = channel r"
    using assms(2) by metis
  with f show ?thesis unfolding schedulable_def by (intro exI [of _ "f \<circ> g"]) (metis comp_apply)
qed

lemma takeWhile_time:
  "sorted E \<Longrightarrow> e \<in> set (takeWhile (\<lambda>e. evTime e \<le> t) E) \<longleftrightarrow> e \<in> set E \<and> evTime e \<le> t"
proof (induction E)
  case (Cons x E)
  then show ?case using event_le_time [of x] by (auto dest: order_trans)
qed simp

lemma sweep_conflicts_prefix:
  assumes "sweep_events ms = pre @ post"
  shows "set (snd (fold (sweep_step ts ms) pre ([], []))) \<subseteq> set (sweep_conflicts ts ms)"
  unfolding sweep_conflicts_def assms by (simp add: sweep_results_grow)

lemma accepted_together:
  assumes "\<forall>r \<in> set all. startAt r < endAt r"
  shows "schedulable ts {r \<in> set (createReserves ts all).
    \<not> isConflict r \<and> \<not> isSkip r \<and> \<not> isOverlap r \<and> startAt r \<le> t \<and> t < endAt r}"
proof -
  let ?ms = "matches_of all"
  obtain ks where ks: "event_list ?ms ks (sweep_events ?ms)" "\<And>k. k \<in> set ks \<Longrightarrow> k < length ?ms"
    using sweep_events_list by metis
  have timed: "\<forall>k \<in> set ks. timed (?ms ! k)" using kept_timed [OF assms] ks(2) by blast
  define pre where "pre = takeWhile (\<lambda>e. evTime e \<le> t) (sweep_events ?ms)"
  obtain post where split: "sweep_events ?ms = pre @ post"
    unfolding pre_def by (metis takeWhile_dropWhile_id)
  let ?st = "fold (sweep_step ts ?ms) pre ([], [])"
  have "schedulable ts (accepted ?ms pre (snd ?st))"
    using sweep_inv_prefix [of ?ms ks pre post ts] ks(1) timed split by (simp add: sweep_inv_def)
  moreover have "\<exists>q \<in> accepted ?ms pre (snd ?st). channelType q = channelType r \<and> channel q = channel r"
    if r: "r \<in> set (createReserves ts all)" "\<not> isConflict r" "\<not> isSkip r" "\<not> isOverlap r"
      "startAt r \<le> t" "t < endAt r" for r
  proof -
    obtain i where i: "i \<in> set ks"
      "r = (?ms ! i)\<lparr>isConflict := i \<in> set (sweep_conflicts ts ?ms)\<rparr>"
      using r(1) unfolding set_createReserves [OF ks(1)] by blast
    have "i \<notin> set (snd ?st)" using i r(2) sweep_conflicts_prefix [OF split] by auto
    moreover have "active ?ms pre i"
      using i r event_listD(6) [OF ks(1)] unfolding active_def pre_def
      by (simp add: takeWhile_time [OF event_listD(1) [OF ks(1)]])
    ultimately have "?ms ! i \<in> accepted ?ms pre (snd ?st)"
      using i r(4) by (auto simp: accepted_def)
    then show ?thesis using i by force
  qed
  ultimately show ?thesis by (elim schedulable_like) blast
qed

text \<open>
  C1. What the conflict check is for: at every instant \<open>t\<close> the reservations that the evaluation
  leaves without conflict (and that are neither excluded nor suppressed as overlapping) can be
  received together by the tuners: each has a tuner that supports its channel type, and no tuner has
  to receive two physical channels. No over-booking is accepted, whatever the number of rules,
  tuners, ties between the times or duplicates.
\<close>

theorem createReserves_schedulable:
  assumes "\<forall>r \<in> set all. startAt r < endAt r"
  shows "schedulable ts {r \<in> set (createReserves ts all).
    \<not> isConflict r \<and> \<not> isSkip r \<and> \<not> isOverlap r \<and> startAt r \<le> t \<and> t < endAt r}"
  using accepted_together [OF assms] .

subsection \<open>Lower priorities do not matter\<close>

lemma sorted_key_split:
  fixes f :: "'a \<Rightarrow> 'b::linorder"
  assumes "sorted (map f xs)"
  shows "xs = filter (\<lambda>x. f x \<le> c) xs @ filter (\<lambda>x. \<not> f x \<le> c) xs"
  using assms
proof (induction xs)
  case (Cons a xs)
  show ?case
  proof (cases "f a \<le> c")
    case True
    with Cons show ?thesis by simp
  next
    case False
    then have "\<forall>x \<in> set xs. \<not> f x \<le> c" using Cons.prems by fastforce
    with False show ?thesis by (simp add: filter_empty_conv)
  qed
qed simp

abbreviation below :: "nat \<Rightarrow> (reserve \<times> nat) list \<Rightarrow> (reserve \<times> nat) list" where
  "below n \<equiv> filter (\<lambda>p. snd p < n)"

definition sim :: "tuner list \<Rightarrow> nat \<Rightarrow> (reserve \<times> nat) list \<times> nat list \<Rightarrow>
    (reserve \<times> nat) list \<times> nat list \<Rightarrow> bool" where
  "sim ts n st st' \<longleftrightarrow> fst st' = below n (fst st) \<and> set (snd st') = {i \<in> set (snd st). i < n} \<and>
     set (evaluate ts (fst st')) \<subseteq> set (snd st') \<and>
     sorted (map (\<lambda>p. rank (fst p)) (fst st)) \<and> sorted (map (\<lambda>p. rank (fst p)) (fst st'))"

lemma sim_init: "sim ts n ([], []) ([], [])"
  by (simp add: sim_def evaluate_def)

lemma simD:
  assumes "sim ts n st st'"
  shows "fst st' = below n (fst st)" "set (snd st') = {i \<in> set (snd st). i < n}"
    "set (evaluate ts (fst st')) \<subseteq> set (snd st')"
    "sorted (map (\<lambda>p. rank (fst p)) (fst st))" "sorted (map (\<lambda>p. rank (fst p)) (fst st'))"
  using assms unfolding sim_def by blast+

lemma evaluate_below:
  assumes "sorted (map (\<lambda>p. rank (fst p)) A)"
    and "\<forall>p \<in> set A. snd p < n \<longleftrightarrow> rank (fst p) \<le> c"
  shows "{i \<in> set (evaluate ts A). i < n} = set (evaluate ts (below n A))"
proof -
  let ?H = "filter (\<lambda>p. \<not> rank (fst p) \<le> c) A"
  have low: "filter (\<lambda>p. rank (fst p) \<le> c) A = below n A"
    using assms(2) by (auto intro: filter_cong)
  have A: "A = below n A @ ?H" using sorted_key_split [OF assms(1), of c] unfolding low .
  obtain zs where zs: "evaluate ts (below n A @ ?H) = evaluate ts (below n A) @ zs"
    "set zs \<subseteq> snd ` set ?H" using evaluate_prefix [of ts "below n A" ?H] by blast
  have "\<forall>i \<in> set zs. \<not> i < n" using zs(2) assms(2) by fastforce
  moreover have "\<forall>i \<in> set (evaluate ts (below n A)). i < n"
    using assign_pass_subset unfolding evaluate_def by fastforce
  moreover have "set (evaluate ts A) = set (evaluate ts (below n A)) \<union> set zs"
    using arg_cong [where f = set, OF trans [OF arg_cong [OF A, of "evaluate ts"] zs(1)]]
    unfolding set_append .
  ultimately show ?thesis by blast
qed

lemma splice_remove_filter:
  assumes "\<exists>p \<in> set A. snd p = k"
  shows "below n (splice_remove (find_index (\<lambda>p. snd p = k) A) A) =
    (if k < n then splice_remove (find_index (\<lambda>p. snd p = k) (below n A)) (below n A) else below n A)"
proof -
  obtain ys p zs where A: "A = ys @ p # zs" "snd p = k" "\<forall>y \<in> set ys. snd y \<noteq> k"
    "splice_remove (find_index (\<lambda>p. snd p = k) A) A = ys @ zs"
    using splice_remove_find [OF assms] by metis
  have step: "splice_remove (find_index (\<lambda>p. snd p = k) (us @ q # vs)) (us @ q # vs) = us @ vs"
    if "\<forall>y \<in> set us. snd y \<noteq> k" "snd q = k" for us q and vs :: "('a \<times> nat) list"
    using that
  proof (induction us)
    case Nil
    then show ?case by (simp add: splice_remove_def)
  next
    case (Cons u us)
    have "find_index (\<lambda>p. snd p = k) (us @ q # vs) \<noteq> -1" using Cons.prems by simp
    moreover have "-1 \<le> find_index (\<lambda>p. snd p = k) (us @ q # vs)" by simp
    ultimately have f: "0 \<le> find_index (\<lambda>p. snd p = k) (us @ q # vs)" by linarith
    then have "nat (find_index (\<lambda>p. snd p = k) (us @ q # vs) + 1) =
        Suc (nat (find_index (\<lambda>p. snd p = k) (us @ q # vs)))" by simp
    with f Cons show ?case by (simp add: splice_remove_def Let_def)
  qed
  show ?thesis
  proof (cases "k < n")
    case True
    then show ?thesis using A step [of "below n ys" p "below n zs"] by simp
  next
    case False
    then show ?thesis using A by simp
  qed
qed

abbreviation sort_active :: "(reserve \<times> nat) list \<Rightarrow> (reserve \<times> nat) list" where
  "sort_active \<equiv> sort_key (\<lambda>p. rank (fst p))"

lemma sweep_step_active:
  "\<not> isSkip (ms ! evIdx e) \<Longrightarrow> fst (sweep_step ts ms e st) = sort_active
     (if evStart e then fst st @ [(ms ! evIdx e, evIdx e)]
      else splice_remove (find_index (\<lambda>p. snd p = evIdx e) (fst st)) (fst st))"
  by (simp add: sweep_step_def Let_def js_sort_active split: prod.splits)

lemma sweep_step_skip: "isSkip (ms ! evIdx e) \<Longrightarrow> sweep_step ts ms e st = st"
  by (simp add: sweep_step_def Let_def split: prod.splits)

lemma sim_step_active:
  assumes sim: "sim ts n st st'" and skip: "\<not> isSkip (ms ! evIdx e)"
    and found: "\<not> evStart e \<Longrightarrow> \<exists>p \<in> set (fst st). snd p = evIdx e"
    and cut: "\<forall>p \<in> set (fst (sweep_step ts ms e st)). snd p < n \<longleftrightarrow> rank (fst p) \<le> c"
  shows "sim ts n (sweep_step ts ms e st)
    (if evIdx e < n then sweep_step ts (take n ms) e st' else st')"
proof -
  let ?A = "fst (sweep_step ts ms e st)"
  let ?st' = "if evIdx e < n then sweep_step ts (take n ms) e st' else st'"
  have sorted: "sorted (map (\<lambda>p. rank (fst p)) ?A)" by (simp add: sweep_step_active [of ms e, OF skip])
  have sorted': "sorted (map (\<lambda>p. rank (fst p)) (fst ?st'))"
    using simD(5) [OF sim] skip by (simp add: sweep_step_active)
  have A: "fst ?st' = below n ?A"
  proof (cases "evIdx e < n")
    case True
    then show ?thesis
      using skip found simD(1) [OF sim] by (simp add: sweep_step_active filter_sort splice_remove_filter)
  next
    case False
    have "sort_active (fst st') = fst st'" using simD(5) [OF sim] by (simp add: sort_key_id_if_sorted)
    then show ?thesis
      using skip found simD(1) [OF sim] False
      by (simp add: sweep_step_active filter_sort splice_remove_filter)
  qed
  have low: "{i \<in> set (evaluate ts ?A). i < n} = set (evaluate ts (fst ?st'))"
    using evaluate_below [OF sorted cut] A by simp
  have res: "set (snd (sweep_step ts ms e st)) = set (snd st) \<union> set (evaluate ts ?A)"
    using skip by (simp add: sweep_step_results)
  have "set (snd ?st') = set (snd st') \<union> set (evaluate ts (fst ?st'))"
    using skip simD(3) [OF sim] by (auto simp: sweep_step_results)
  then have "set (snd ?st') = {i \<in> set (snd (sweep_step ts ms e st)). i < n}"
    unfolding res low [symmetric] simD(2) [OF sim] by blast
  moreover have "set (evaluate ts (fst ?st')) \<subseteq> set (snd ?st')"
    using simD(3) [OF sim] skip by (auto simp: sweep_step_results)
  ultimately show ?thesis using A sorted sorted' unfolding sim_def by blast
qed

lemma sim_fold:
  assumes "event_list ms ks (pre @ post)" and "\<forall>k \<in> set ks. timed (ms ! k)"
    and cut: "\<And>i. i < length ms \<Longrightarrow> i < n \<longleftrightarrow> rank (ms ! i) \<le> c"
  shows "sim ts n (fold (sweep_step ts ms) pre ([], []))
    (fold (sweep_step ts (take n ms)) (filter (\<lambda>e. evIdx e < n) pre) ([], []))"
  using assms(1)
proof (induction pre arbitrary: post rule: rev_induct)
  case Nil
  then show ?case by (simp add: sim_init)
next
  case (snoc e pre)
  let ?st = "fold (sweep_step ts ms) pre ([], [])"
  have E: "event_list ms ks (pre @ e # post)" using snoc.prems by simp
  note IH = snoc.IH [OF E]
  obtain b k where e: "e = ev ms b k" "k \<in> set ks" using event_list_elem [OF E] .
  have t: "startAt (ms ! k) < endAt (ms ! k)" using e assms(2) by (simp add: timed_def)
  have tr: "tracks ms pre (fst ?st)"
    using sweep_inv_prefix [of ms ks pre "e # post" ts] E assms(2) by (simp add: sweep_inv_def)
  have tr': "tracks ms (pre @ [e]) (fst (sweep_step ts ms e ?st))"
    using sweep_step_tracks [OF E assms(2) tr] .
  show ?case
  proof (cases "isSkip (ms ! evIdx e)")
    case True
    then show ?thesis using IH by (simp add: sweep_step_skip)
  next
    case False
    have "\<exists>p \<in> set (fst ?st). snd p = evIdx e" if "\<not> evStart e"
    proof -
      have "active ms pre k"
        using that False e event_list_end [of ms ks pre k post] event_list_split(1) [OF E] E t
        by (simp add: active_def)
      then have "(ms ! k, k) \<in> set (fst ?st)" using tracks_mem [OF tr] by blast
      then show ?thesis using e by force
    qed
    moreover have "snd p < n \<longleftrightarrow> rank (fst p) \<le> c"
      if "p \<in> set (fst (sweep_step ts ms e ?st))" for p
    proof -
      have "active ms (pre @ [e]) (snd p)" "fst p = ms ! snd p"
        using that tracks_mem [OF tr', of "fst p" "snd p"] by auto
      then have "ev ms True (snd p) \<in> set (pre @ e # post)" by (auto simp: active_def)
      then have "snd p < length ms" using event_listD(4,6) [OF E] by blast
      then show ?thesis using cut \<open>fst p = ms ! snd p\<close> by simp
    qed
    ultimately have "sim ts n (sweep_step ts ms e ?st) (if evIdx e < n
        then sweep_step ts (take n ms) e (fold (sweep_step ts (take n ms))
          (filter (\<lambda>e. evIdx e < n) pre) ([], []))
        else fold (sweep_step ts (take n ms)) (filter (\<lambda>e. evIdx e < n) pre) ([], []))"
      by (intro sim_step_active [OF IH False, where c = c]) auto
    then show ?thesis by (cases "evIdx e < n") simp_all
  qed
qed

lemma build_list_range:
  assumes "e \<in> set (build_list ms i seen)"
  shows "i \<le> evIdx e \<and> evIdx e < i + length ms"
proof -
  obtain ks where "kept_indices ms i ks (build_list ms i seen)" using build_list_kept by blast
  then show ?thesis using assms by (auto simp: kept_indices_def pair_events_def)
qed

lemma build_list_append:
  "\<exists>sn. build_list (xs @ ys) i seen = build_list xs i seen @ build_list ys (i + length xs) sn"
proof (induction xs i seen rule: build_list.induct)
  case (2 m ms i seen)
  show ?case
  proof (cases "getRuleProgramIdKey m")
    case None
    then show ?thesis using 2(1) [OF None] by auto
  next
    case (Some k)
    then show ?thesis using 2(2) [OF Some] 2(3) [OF Some] by (cases "k \<in> set seen") auto
  qed
qed auto

lemma sweep_events_append:
  "filter (\<lambda>e. evIdx e < length xs) (sweep_events (xs @ ys)) = sweep_events xs"
proof -
  obtain sn where b: "build_list (xs @ ys) 0 [] = build_list xs 0 [] @ build_list ys (length xs) sn"
    using build_list_append [of xs ys 0 "[]"] by auto
  have "filter (\<lambda>e. evIdx e < length xs) (build_list xs 0 []) = build_list xs 0 []"
    using build_list_range [of _ xs 0 "[]"] by (auto intro: filter_True)
  moreover have "filter (\<lambda>e. evIdx e < length xs) (build_list ys (length xs) sn) = []"
    using build_list_range [of _ ys "length xs" sn] by (fastforce simp: filter_empty_conv)
  ultimately show ?thesis
    unfolding sweep_events_def js_sort_events filter_sort b by simp
qed

lemma rank_conflict [simp]: "rank (r\<lparr>isConflict := b\<rparr>) = rank r"
  by (simp add: rank_def split: option.splits)

lemma js_sort_start: "js_sort (\<lambda>a b. startAt a - startAt b) = sort_key startAt"
  by (rule ext) (rule js_sort_key, simp)

lemma matches_of_filter:
  assumes "\<forall>r \<in> set all. \<not> rank r \<le> c \<longrightarrow> \<not> isSkip r"
  shows "matches_of (filter (\<lambda>r. rank r \<le> c) all) = filter (\<lambda>r. rank r \<le> c) (matches_of all)"
proof -
  have "set (skippedProgramIds (filter (\<lambda>r. rank r \<le> c) all)) = set (skippedProgramIds all)"
    using assms unfolding skippedProgramIds_def by (fastforce split: option.splits if_splits)
  then have "kept_by_exclusion (skippedProgramIds (filter (\<lambda>r. rank r \<le> c) all)) =
      kept_by_exclusion (skippedProgramIds all)"
    by (intro ext) (simp add: kept_by_exclusion_def split: option.splits)
  then show ?thesis
    unfolding matches_of_def js_sort_reserves filter_sort by (simp add: conj_commute)
qed

text \<open>
  C5. Priority isolation: as long as no reservation below a given priority carries an exclusion (an
  exclusion is valid for all rules, so it may remove reservations of a higher priority), the outcome for the
  reservations of that priority or higher does not depend on the ones below it: dropping all of those from
  the evaluation leaves the list of the others, with their conflict flags, unchanged. So a new rule without
  exclusions cannot push a manual reservation or an older rule into conflict.
\<close>

theorem createReserves_priority_isolation:
  assumes timed: "\<forall>r \<in> set all. startAt r < endAt r"
    and skip: "\<forall>r \<in> set all. \<not> rank r \<le> c \<longrightarrow> \<not> isSkip r"
  shows "createReserves ts (filter (\<lambda>r. rank r \<le> c) all) =
    filter (\<lambda>r. rank r \<le> c) (createReserves ts all)"
proof -
  define ms where "ms = matches_of all"
  define hi where "hi = filter (\<lambda>r. rank r \<le> c) ms"
  define lo where "lo = filter (\<lambda>r. \<not> rank r \<le> c) ms"
  have sub: "matches_of (filter (\<lambda>r. rank r \<le> c) all) = hi"
    unfolding hi_def ms_def using matches_of_filter [OF skip] .
  have "sorted (map rank ms)" unfolding ms_def matches_of_def js_sort_reserves by simp
  then have ms: "ms = hi @ lo" unfolding hi_def lo_def by (rule sorted_key_split)
  let ?n = "length hi"
  have cut: "i < ?n \<longleftrightarrow> rank (ms ! i) \<le> c" if "i < length ms" for i
  proof (cases "i < ?n")
    case True
    then have "ms ! i \<in> set hi" using ms by (simp add: nth_append)
    with True show ?thesis by (simp add: hi_def)
  next
    case False
    then have "ms ! i \<in> set lo" using that ms by (simp add: nth_append)
    with False show ?thesis by (simp add: lo_def)
  qed
  obtain ks where ks: "event_list ms ks (sweep_events ms)" "\<And>k. k \<in> set ks \<Longrightarrow> k < length ms"
    using sweep_events_list by metis
  have timed: "\<forall>k \<in> set ks. timed (ms ! k)" using kept_timed [OF assms(1)] ks(2) ms_def by blast
  have ev: "sweep_events hi = filter (\<lambda>e. evIdx e < ?n) (sweep_events ms)"
    using sweep_events_append [of hi lo] ms by simp
  have con: "set (sweep_conflicts ts hi) = {i \<in> set (sweep_conflicts ts ms). i < ?n}"
    using simD(2) [OF sim_fold [of ms ks "sweep_events ms" "[]" ?n c ts]] ks(1) timed cut ms
    unfolding sweep_conflicts_def ev by simp
  let ?g = "\<lambda>e. (ms ! evIdx e)\<lparr>isConflict := evIdx e \<in> set (sweep_conflicts ts ms)\<rparr>"
  let ?h = "\<lambda>e. (hi ! evIdx e)\<lparr>isConflict := evIdx e \<in> set (sweep_conflicts ts hi)\<rparr>"
  have low: "rank (?g e) \<le> c \<longleftrightarrow> evIdx e < ?n" if "e \<in> set (sweep_events ms)" for e
  proof -
    have "evIdx e < length ms" using that event_listD(4,5) [OF ks(1)] by auto
    then show ?thesis using cut by simp
  qed
  have "filter (\<lambda>r. rank r \<le> c) (map ?g (filter evStart (sweep_events ms))) =
      map ?g (filter (\<lambda>e. rank (?g e) \<le> c) (filter evStart (sweep_events ms)))"
    by (simp add: filter_map comp_def)
  also have "\<dots> = map ?g (filter evStart (sweep_events hi))"
    unfolding ev using low by (simp add: conj_commute cong: conj_cong) (metis (mono_tags, lifting) filter_cong)
  also have "\<dots> = map ?h (filter evStart (sweep_events hi))"
    using ms con unfolding ev by (auto simp: nth_append)
  finally show ?thesis
    unfolding createReserves_eq sub ms_def [symmetric] Let_def js_sort_start filter_sort by simp
qed

subsection \<open>What is kept\<close>

text \<open>Every reservation is in the list, or an earlier one with its key is.\<close>

definition represents :: "reserve list \<Rightarrow> nat \<Rightarrow> sweep_event list \<Rightarrow> nat \<Rightarrow> nat \<Rightarrow> bool" where
  "represents ms i es j j' \<longleftrightarrow> j' \<le> j \<and>
     getRuleProgramIdKey (ms ! j') = getRuleProgramIdKey (ms ! j) \<and>
     (getRuleProgramIdKey (ms ! j) = None \<longrightarrow> j' = j) \<and>
     SweepEvent (startAt (ms ! j')) True (i + j') \<in> set es"

lemma represents_Suc:
  "represents ms (Suc i) es l l' \<Longrightarrow> set es \<subseteq> set fs \<Longrightarrow> represents (m # ms) i fs (Suc l) (Suc l')"
  by (auto simp: represents_def)

lemma build_list_covers:
  "j < length ms \<Longrightarrow> (\<forall>k. getRuleProgramIdKey (ms ! j) = Some k \<longrightarrow> k \<notin> set seen) \<Longrightarrow>
   \<exists>j'. represents ms i (build_list ms i seen) j j'"
proof (induction ms i seen arbitrary: j rule: build_list.induct)
  case (2 m ms i seen)
  show ?case
  proof (cases j)
    case 0
    then have "represents (m # ms) i (build_list (m # ms) i seen) j 0"
      using "2.prems" by (auto simp: represents_def split: option.splits)
    then show ?thesis ..
  next
    case (Suc l)
    have l: "l < length ms" and new: "\<forall>k. getRuleProgramIdKey (ms ! l) = Some k \<longrightarrow> k \<notin> set seen"
      using "2.prems" Suc by simp_all
    show ?thesis
    proof (cases "getRuleProgramIdKey m")
      case None
      from "2.IH"(1) [OF None l new] show ?thesis
        unfolding Suc using None by (fastforce intro: represents_Suc)
    next
      case (Some k)
      show ?thesis
      proof (cases "k \<in> set seen")
        case True
        from "2.IH"(2) [OF Some True l new] show ?thesis
          unfolding Suc using Some True by (fastforce intro: represents_Suc)
      next
        case False
        show ?thesis
        proof (cases "getRuleProgramIdKey (ms ! l) = Some k")
          case True
          then have "represents (m # ms) i (build_list (m # ms) i seen) j 0"
            using Some False Suc by (simp add: represents_def)
          then show ?thesis ..
        next
          case kl: False
          then have "\<forall>j. getRuleProgramIdKey (ms ! l) = Some j \<longrightarrow> j \<notin> set (k # seen)"
            using new by auto
          from "2.IH"(3) [OF Some False l this] show ?thesis
            unfolding Suc using Some False by (fastforce intro: represents_Suc)
        qed
      qed
    qed
  qed
qed simp

lemma sweep_step_pairs:
  "\<forall>p \<in> set (fst st). fst p = ms ! snd p \<Longrightarrow>
   \<forall>p \<in> set (fst (sweep_step ts ms e st)). fst p = ms ! snd p"
proof -
  assume A: "\<forall>p \<in> set (fst st). fst p = ms ! snd p"
  have "set (splice_remove k xs) \<subseteq> set xs" for k and xs :: "(reserve \<times> nat) list"
    by (auto simp: splice_remove_def Let_def dest: in_set_takeD in_set_dropD)
  then show ?thesis
    using A by (cases "isSkip (ms ! evIdx e)") (auto simp: sweep_step_skip sweep_step_active)
qed

lemma sweep_results_sound:
  assumes "\<forall>p \<in> set (fst st). fst p = ms ! snd p"
    and "\<forall>i \<in> set (snd st). \<not> isSkip (ms ! i) \<and> \<not> isOverlap (ms ! i)"
  shows "\<forall>i \<in> set (snd (fold (sweep_step ts ms) es st)). \<not> isSkip (ms ! i) \<and> \<not> isOverlap (ms ! i)"
  using assms
proof (induction es arbitrary: st)
  case (Cons e es)
  let ?st = "sweep_step ts ms e st"
  have p: "\<forall>p \<in> set (fst ?st). fst p = ms ! snd p" using sweep_step_pairs [OF Cons.prems(1)] .
  have "\<not> isSkip (ms ! i) \<and> \<not> isOverlap (ms ! i)" if "i \<in> set (evaluate ts (fst ?st))" for i
    using assign_pass_skipped [OF that [unfolded evaluate_def]] p by fastforce
  then have "\<forall>i \<in> set (snd ?st). \<not> isSkip (ms ! i) \<and> \<not> isOverlap (ms ! i)"
    using Cons.prems(2) unfolding sweep_step_results set_append ball_Un
    by (cases "isSkip (ms ! evIdx e)") (simp_all only: if_True if_False list.set ball_empty, blast)
  from Cons.IH [OF p this] show ?case by simp
qed simp

lemma sweep_conflicts_sound:
  "i \<in> set (sweep_conflicts ts ms) \<Longrightarrow> \<not> isSkip (ms ! i) \<and> \<not> isOverlap (ms ! i)"
  using sweep_results_sound [of "([], [])" ms ts "sweep_events ms"]
  unfolding sweep_conflicts_def by simp

lemma createReserves_origin:
  assumes "r \<in> set (createReserves ts all)"
  shows "\<exists>q \<in> set all. kept_by_exclusion (skippedProgramIds all) q \<and> r = q\<lparr>isConflict := isConflict r\<rparr>"
    and "isSkip r \<or> isOverlap r \<Longrightarrow> \<not> isConflict r"
proof -
  let ?ms = "matches_of all"
  obtain ks where ks: "event_list ?ms ks (sweep_events ?ms)" "\<And>k. k \<in> set ks \<Longrightarrow> k < length ?ms"
    using sweep_events_list by metis
  obtain i where i: "i \<in> set ks"
    "r = (?ms ! i)\<lparr>isConflict := i \<in> set (sweep_conflicts ts ?ms)\<rparr>"
    using assms unfolding set_createReserves [OF ks(1)] by blast
  have "?ms ! i \<in> set ?ms" using ks(2) [OF i(1)] by simp
  moreover have "r = (?ms ! i)\<lparr>isConflict := isConflict r\<rparr>" by (subst i(2), subst i(2)) simp
  ultimately show "\<exists>q \<in> set all. kept_by_exclusion (skippedProgramIds all) q \<and>
      r = q\<lparr>isConflict := isConflict r\<rparr>" by (auto simp: matches_of_def)
  show "\<not> isConflict r" if "isSkip r \<or> isOverlap r"
    using that i(2) sweep_conflicts_sound [of i ts ?ms] by auto
qed

lemma createReserves_represented:
  assumes "q \<in> set all" "kept_by_exclusion (skippedProgramIds all) q"
  shows "\<exists>r b. r \<in> set all \<and> r\<lparr>isConflict := b\<rparr> \<in> set (createReserves ts all) \<and> rank r \<le> rank q \<and>
        getRuleProgramIdKey r = getRuleProgramIdKey q \<and> (getRuleProgramIdKey q = None \<longrightarrow> r = q)"
proof -
  let ?ms = "matches_of all"
  obtain ks where ks: "event_list ?ms ks (sweep_events ?ms)" "\<And>k. k \<in> set ks \<Longrightarrow> k < length ?ms"
    using sweep_events_list by metis
  have "q \<in> set ?ms" using assms by (simp add: matches_of_def)
  then obtain j where j: "j < length ?ms" "q = ?ms ! j" by (metis in_set_conv_nth)
  obtain j' where "represents ?ms 0 (build_list ?ms 0 []) j j'"
    using build_list_covers [OF j(1), of "[]" 0] by auto
  then have j': "j' \<le> j" "getRuleProgramIdKey (?ms ! j') = getRuleProgramIdKey q"
    "getRuleProgramIdKey q = None \<longrightarrow> j' = j"
    "SweepEvent (startAt (?ms ! j')) True j' \<in> set (build_list ?ms 0 [])"
    unfolding represents_def j(2) by simp_all
  then have "ev ?ms True j' \<in> set (sweep_events ?ms)" by (simp add: ev_def sweep_events_def)
  then have "j' \<in> set ks" using event_listD(6) [OF ks(1)] by blast
  then have out: "(?ms ! j')\<lparr>isConflict := j' \<in> set (sweep_conflicts ts ?ms)\<rparr> \<in> set (createReserves ts all)"
    unfolding set_createReserves [OF ks(1)] by blast
  have "sorted (map rank ?ms)" unfolding matches_of_def js_sort_reserves by simp
  then have "rank (?ms ! j') \<le> rank q"
    using sorted_nth_mono [of "map rank ?ms" j' j] j'(1) j by simp
  moreover have "?ms ! j' \<in> set all"
    using j j'(1) nth_mem [of j' ?ms] by (simp add: matches_of_def)
  ultimately show "\<exists>r b. r \<in> set all \<and> r\<lparr>isConflict := b\<rparr> \<in> set (createReserves ts all) \<and> rank r \<le> rank q \<and>
        getRuleProgramIdKey r = getRuleProgramIdKey q \<and> (getRuleProgramIdKey q = None \<longrightarrow> r = q)"
    using out j'(2,3) j(2) by (intro exI [of _ "?ms ! j'"] exI conjI) (assumption | simp)+
qed


text \<open>
  C6. The evaluation neither invents nor loses a reservation: its output is sorted by start; every
  output is one of the inputs that the programme-wide exclusion keeps, with nothing changed but its
  conflict flag; an excluded or overlapping reservation is never in conflict; and every input that
  the exclusion keeps is in the output itself (when it is time-specified) or is represented there by
  a reservation of the same folding key whose priority is not lower.
\<close>

theorem createReserves_faithful:
  "sorted (map startAt (createReserves ts all)) \<and>
   (\<forall>r \<in> set (createReserves ts all).
      (\<exists>q \<in> set all. kept_by_exclusion (skippedProgramIds all) q \<and> r = q\<lparr>isConflict := isConflict r\<rparr>) \<and>
      (isSkip r \<or> isOverlap r \<longrightarrow> \<not> isConflict r)) \<and>
   (\<forall>q \<in> set all. kept_by_exclusion (skippedProgramIds all) q \<longrightarrow>
      (\<exists>r b. r \<in> set all \<and> r\<lparr>isConflict := b\<rparr> \<in> set (createReserves ts all) \<and> rank r \<le> rank q \<and>
        getRuleProgramIdKey r = getRuleProgramIdKey q \<and> (getRuleProgramIdKey q = None \<longrightarrow> r = q)))"
proof (intro conjI ballI impI)
  show "sorted (map startAt (createReserves ts all))"
    unfolding createReserves_eq Let_def js_sort_start by simp
qed (use createReserves_origin createReserves_represented in blast)+

subsection \<open>Concrete evaluations\<close>

text \<open>One tuner; a manual reservation on channel 27, two rules that reserve programmes of channel 26
  at the same time, one excluded programme.\<close>

definition demo_reserve :: "int option \<Rightarrow> int \<Rightarrow> string \<Rightarrow> int \<Rightarrow> int \<Rightarrow> bool \<Rightarrow> reserve" where
  "demo_reserve rule prog ch s e skip = new_reserve\<lparr>ruleId := rule, programId := Some prog,
     channel := js ch, channelType := js ''GR'', startAt := s, endAt := e, isSkip := skip\<rparr>"

definition demo_reserves :: "reserve list" where
  "demo_reserves = [demo_reserve (Some 7) 101 ''26'' 5 15 False, demo_reserve None 102 ''27'' 0 10 False,
     demo_reserve (Some 3) 101 ''26'' 5 15 False, demo_reserve (Some 3) 103 ''26'' 20 30 True]"

definition demo_tuners :: "tuner list" where
  "demo_tuners = [new_tuner [js ''GR'']]"

lemma demo_timed: "\<forall>r \<in> set demo_reserves. startAt r < endAt r"
  by (simp add: demo_reserves_def demo_reserve_def)

lemma demo_outcome:
  "map (\<lambda>r. (ruleId r, programId r, isConflict r, isSkip r)) (createReserves demo_tuners demo_reserves) =
     [(None, Some 102, False, False), (Some 3, Some 101, True, False), (Some 3, Some 103, False, True)]"
  by code_simp

theorem createReserves_schedulable_witness:
  "schedulable demo_tuners {r \<in> set (createReserves demo_tuners demo_reserves).
     \<not> isConflict r \<and> \<not> isSkip r \<and> \<not> isOverlap r \<and> startAt r \<le> 7 \<and> 7 < endAt r}"
  using createReserves_schedulable [OF demo_timed] .

theorem createReserves_priority_isolation_witness:
  "createReserves demo_tuners (filter (\<lambda>r. rank r \<le> (2, 3)) demo_reserves) =
     filter (\<lambda>r. rank r \<le> (2, 3)) (createReserves demo_tuners demo_reserves) \<and>
   length (filter (\<lambda>r. rank r \<le> (2, 3)) demo_reserves) = 3"
proof -
  have "\<forall>r \<in> set demo_reserves. \<not> rank r \<le> (2, 3) \<longrightarrow> \<not> isSkip r" by code_simp
  from createReserves_priority_isolation [OF demo_timed this] show ?thesis
    by (simp add: demo_reserves_def demo_reserve_def rank_def new_reserve_def)
qed

theorem createReserves_faithful_witness:
  "sorted (map startAt (createReserves demo_tuners demo_reserves)) \<and>
   createReserves demo_tuners demo_reserves \<noteq> []"
  using createReserves_faithful [of demo_tuners demo_reserves] demo_outcome by auto

end
