(* ===== verification/Reserve_Diff.thy ===== *)
theory Reserve_Diff
  imports Reserve_Types "HOL-Library.AList"
begin

text \<open>
  The comparison of the stored with the computed reservations, in
  \<open>src/src/model/operator/reservation/ReservationManageModel.ts\<close>: \<open>createReserveKey\<close>, the two
  checks for a difference and \<open>createReservesDiff\<close>. An object used as an index is an association
  list in the order of its insertions (the keys always hold a dash, so none is an array index);
  assigning to a key that is present keeps its place, as \<open>AList.update\<close> does.
\<close>

subsection \<open>Keys\<close>

definition createReserveKey :: "reserve \<Rightarrow> jstr" where
  "createReserveKey r =
     (case programId r of
        None \<Rightarrow> num_str (startAt r) @ js ''-'' @ num_str (endAt r) @ js ''-'' @ channel r
      | Some p \<Rightarrow> num_str p) @ js ''-'' @ opt_num_str (ruleId r)"

definition checkProgramIdReserveDiff :: "reserve \<Rightarrow> reserve \<Rightarrow> bool" where
  "checkProgramIdReserveDiff old new \<longleftrightarrow>
     programId old = programId new \<and>
     (programUpdateTime old \<noteq> programUpdateTime new \<or> ruleUpdateCnt old \<noteq> ruleUpdateCnt new \<or>
      isSkip old \<noteq> isSkip new \<or> isConflict old \<noteq> isConflict new \<or> isOverlap old \<noteq> isOverlap new)"

definition checkTimeRuleReserveDiff :: "reserve \<Rightarrow> reserve \<Rightarrow> bool" where
  "checkTimeRuleReserveDiff old new \<longleftrightarrow>
     (ruleId old \<noteq> None \<and> ruleId new \<noteq> None \<and> ruleUpdateCnt old \<noteq> ruleUpdateCnt new) \<or>
     isSkip old \<noteq> isSkip new \<or> isConflict old \<noteq> isConflict new \<or> isOverlap old \<noteq> isOverlap new"

subsection \<open>The difference\<close>

type_synonym diff_index = "(jstr \<times> reserve \<times> bool) list"

record diff_state =
  idIndex :: diff_index
  timeIndex :: diff_index
  ds_insert :: "reserve list"
  ds_update :: "reserve list"

definition index_old :: "reserve \<Rightarrow> diff_state \<Rightarrow> diff_state" where
  "index_old r s =
     (if programId r = None
      then s\<lparr>timeIndex := AList.update (createReserveKey r) (r, False) (timeIndex s)\<rparr>
      else s\<lparr>idIndex := AList.update (createReserveKey r) (r, False) (idIndex s)\<rparr>)"

definition mark_checked :: "jstr \<Rightarrow> diff_index \<Rightarrow> diff_index" where
  "mark_checked k idx = AList.map_entry k (\<lambda>(r, _). (r, True)) idx"

definition compare_new :: "reserve \<Rightarrow> diff_state \<Rightarrow> diff_state" where
  "compare_new new s =
     (let key = createReserveKey new
      in case map_of (idIndex s) key of
        Some (old, _) \<Rightarrow>
          (let s' = s\<lparr>idIndex := mark_checked key (idIndex s)\<rparr>
           in if checkProgramIdReserveDiff old new
              then s'\<lparr>ds_update := ds_update s' @ [new\<lparr>reserveId := reserveId old\<rparr>]\<rparr> else s')
      | None \<Rightarrow>
        (case map_of (timeIndex s) key of
           Some (old, _) \<Rightarrow>
             (let s' = s\<lparr>timeIndex := mark_checked key (timeIndex s)\<rparr>
              in if checkTimeRuleReserveDiff old new
                 then s'\<lparr>ds_update := ds_update s' @ [new\<lparr>reserveId := reserveId old\<rparr>]\<rparr> else s')
         | None \<Rightarrow> s\<lparr>ds_insert := ds_insert s @ [new]\<rparr>))"

definition not_checked :: "diff_index \<Rightarrow> reserve list" where
  "not_checked idx = map (\<lambda>(k, r, c). r) (filter (\<lambda>(k, r, c). \<not> c) idx)"

definition createReservesDiff :: "reserve list \<Rightarrow> reserve list \<Rightarrow> bool \<Rightarrow> update_values" where
  "createReservesDiff oldReserves newReserves log =
     (let s0 = fold index_old oldReserves
            \<lparr>idIndex = [], timeIndex = [], ds_insert = [], ds_update = []\<rparr>;
          s1 = fold compare_new newReserves s0
      in (new_values log)\<lparr>uv_insert := ds_insert s1, uv_update := ds_update s1,
           uv_delete := not_checked (idIndex s1) @ not_checked (timeIndex s1)\<rparr>)"

subsection \<open>The reference\<close>

text \<open>What the difference of two lists is, without the indexes.\<close>

definition old_of :: "reserve list \<Rightarrow> reserve \<Rightarrow> reserve option" where
  "old_of olds n = find (\<lambda>q. createReserveKey q = createReserveKey n) olds"

definition differs :: "reserve \<Rightarrow> reserve \<Rightarrow> bool" where
  "differs old new \<longleftrightarrow> (if programId old = None then checkTimeRuleReserveDiff old new
     else checkProgramIdReserveDiff old new)"

definition updates_of :: "reserve list \<Rightarrow> reserve list \<Rightarrow> reserve list" where
  "updates_of olds news = concat (map (\<lambda>n. case old_of olds n of
     None \<Rightarrow> []
   | Some old \<Rightarrow> if differs old n then [n\<lparr>reserveId := reserveId old\<rparr>] else []) news)"

definition diff_reference :: "reserve list \<Rightarrow> reserve list \<Rightarrow> bool \<Rightarrow> update_values" where
  "diff_reference olds news log =
     (let gone = (\<lambda>q. createReserveKey q \<notin> createReserveKey ` set news)
      in (new_values log)\<lparr>uv_insert := filter (\<lambda>n. old_of olds n = None) news,
           uv_update := updates_of olds news,
           uv_delete := filter (\<lambda>q. programId q \<noteq> None \<and> gone q) olds @
             filter (\<lambda>q. programId q = None \<and> gone q) olds\<rparr>)"

definition by_program :: "reserve \<Rightarrow> bool" where
  "by_program r \<longleftrightarrow> programId r \<noteq> None"

definition by_time :: "reserve \<Rightarrow> bool" where
  "by_time r \<longleftrightarrow> programId r = None"

text \<open>The index of a list of old reservations when the keys \<open>K\<close> have been met.\<close>

definition index_of :: "(reserve \<Rightarrow> bool) \<Rightarrow> reserve list \<Rightarrow> jstr set \<Rightarrow> diff_index" where
  "index_of P olds K = map (\<lambda>q. (createReserveKey q, q, createReserveKey q \<in> K)) (filter P olds)"

lemma index_of_snoc:
  "createReserveKey r \<notin> createReserveKey ` set olds \<Longrightarrow>
   AList.update (createReserveKey r) (r, False) (index_of P olds {}) =
     index_of P olds {} @ [(createReserveKey r, r, False)]"
proof -
  have "k \<notin> fst ` set al \<Longrightarrow> AList.update k v al = al @ [(k, v)]"
    for k :: jstr and v :: "reserve \<times> bool" and al by (induction al) auto
  moreover assume "createReserveKey r \<notin> createReserveKey ` set olds"
  then have "createReserveKey r \<notin> fst ` set (index_of P olds {})" by (auto simp: index_of_def)
  ultimately show ?thesis by blast
qed

lemma fold_index_old:
  "distinct (map createReserveKey olds) \<Longrightarrow>
   fold index_old olds \<lparr>idIndex = [], timeIndex = [], ds_insert = [], ds_update = []\<rparr> =
     \<lparr>idIndex = index_of by_program olds {},
      timeIndex = index_of by_time olds {}, ds_insert = [], ds_update = []\<rparr>"
proof (induction olds rule: rev_induct)
  case Nil
  then show ?case by (simp add: index_of_def)
next
  case (snoc r olds)
  then have "createReserveKey r \<notin> createReserveKey ` set olds" by simp
  note upd = index_of_snoc [OF this]
  have app: "index_of P (olds @ [r]) {} =
      index_of P olds {} @ (if P r then [(createReserveKey r, r, False)] else [])" for P
    by (simp add: index_of_def)
  show ?case
  proof (cases "programId r")
    case None
    then show ?thesis using snoc by (simp add: index_old_def upd app by_program_def by_time_def)
  next
    case (Some p)
    then show ?thesis using snoc by (simp add: index_old_def upd app by_program_def by_time_def)
  qed
qed

lemma map_of_index:
  assumes "distinct (map createReserveKey olds)"
  shows "map_of (index_of P olds K) k =
    (case find (\<lambda>q. createReserveKey q = k) olds of
       Some old \<Rightarrow> if P old then Some (old, createReserveKey old \<in> K) else None | None \<Rightarrow> None)"
  using assms
proof (induction olds)
  case (Cons a olds)
  show ?case
  proof (cases "createReserveKey a = k")
    case True
    have "map_of (index_of P olds K) k = None"
      using Cons.prems True by (auto simp: index_of_def map_of_eq_None_iff)
    then show ?thesis using True by (simp add: index_of_def)
  next
    case False
    then show ?thesis using Cons by (simp add: index_of_def)
  qed
qed (simp add: index_of_def)

lemma mark_index:
  assumes "distinct (map createReserveKey olds)"
  shows "mark_checked k (index_of P olds K) = index_of P olds (insert k K)"
  using assms
proof (induction olds)
  case (Cons a olds)
  have skip: "AList.map_entry k f al = al" if "k \<notin> fst ` set al" for f and al :: diff_index
    using that by (induction al) auto
  have same: "index_of P olds (insert k K) = index_of P olds K" if "k \<notin> createReserveKey ` set olds"
    using that by (auto simp: index_of_def)
  show ?case
  proof (cases "P a \<and> createReserveKey a = k")
    case True
    then have "k \<notin> createReserveKey ` set olds" using Cons.prems by auto
    then show ?thesis using True same by (simp add: index_of_def mark_checked_def)
  next
    case False
    then show ?thesis using Cons by (auto simp: index_of_def mark_checked_def)
  qed
qed (simp add: index_of_def mark_checked_def)

lemma mark_index_other:
  assumes "distinct (map createReserveKey olds)" "old_of olds n = Some old" "\<not> P old"
  shows "index_of P olds (insert (createReserveKey n) K) = index_of P olds K"
proof -
  have "createReserveKey q \<noteq> createReserveKey n" if "q \<in> set olds" "P q" for q
  proof
    assume eq: "createReserveKey q = createReserveKey n"
    have "old \<in> set olds" "createReserveKey old = createReserveKey n"
      using assms(2) by (auto simp: old_of_def find_Some_iff)
    then have "q = old" using that(1) eq assms(1) by (metis distinct_map inj_onD)
    with that(2) assms(3) show False by simp
  qed
  then show ?thesis by (auto simp: index_of_def)
qed

lemma index_of_fresh:
  "old_of olds n = None \<Longrightarrow> index_of P olds (insert (createReserveKey n) K) = index_of P olds K"
  by (auto simp: index_of_def old_of_def find_None_iff)

lemma old_of_key: "old_of olds n = Some old \<Longrightarrow> old \<in> set olds \<and> createReserveKey old = createReserveKey n"
  by (auto simp: old_of_def find_Some_iff)

lemma fold_compare_new:
  assumes "distinct (map createReserveKey olds)"
  shows "fold compare_new news
    \<lparr>idIndex = index_of by_program olds K,
      timeIndex = index_of by_time olds K, ds_insert = ins, ds_update = upd\<rparr> =
    \<lparr>idIndex = index_of by_program olds (K \<union> createReserveKey ` set news),
      timeIndex = index_of by_time olds (K \<union> createReserveKey ` set news),
      ds_insert = ins @ filter (\<lambda>n. old_of olds n = None) news,
      ds_update = upd @ updates_of olds news\<rparr>"
proof (induction news arbitrary: K ins upd)
  case Nil
  then show ?case by (simp add: updates_of_def)
next
  case (Cons n news)
  have step: "compare_new n \<lparr>idIndex = index_of by_program olds K,
      timeIndex = index_of by_time olds K, ds_insert = ins, ds_update = upd\<rparr> =
    \<lparr>idIndex = index_of by_program olds (insert (createReserveKey n) K),
      timeIndex = index_of by_time olds (insert (createReserveKey n) K),
      ds_insert = ins @ (if old_of olds n = None then [n] else []),
      ds_update = upd @ updates_of olds [n]\<rparr>"
  proof (cases "old_of olds n")
    case None
    then show ?thesis
      by (simp add: compare_new_def map_of_index [OF assms] Let_def index_of_fresh updates_of_def
          flip: old_of_def)
  next
    case (Some old)
    note look = map_of_index [OF assms, of _ K "createReserveKey n"]
    note f = Some [unfolded old_of_def]
    show ?thesis
    proof (cases "programId old")
      case None
      then show ?thesis
        using Some f by_time_def [of old] by_program_def [of old] mark_index_other [OF assms Some, of by_program K]
        by (simp add: compare_new_def look mark_index [OF assms] updates_of_def differs_def)
    next
      case (Some p)
      then show ?thesis
        using \<open>old_of olds n = Some old\<close> f by_time_def [of old] by_program_def [of old]
          mark_index_other [OF assms \<open>old_of olds n = Some old\<close>, of by_time K]
        by (simp add: compare_new_def look mark_index [OF assms] updates_of_def differs_def)
    qed
  qed
  have "updates_of olds (n # news) = updates_of olds [n] @ updates_of olds news"
    by (simp add: updates_of_def)
  then show ?case by (simp add: step Cons)
qed

lemma diff_is_reference:
  assumes "distinct (map createReserveKey olds)"
  shows "createReservesDiff olds news log = diff_reference olds news log"
proof -
  have un: "not_checked (index_of P olds K) = filter (\<lambda>q. P q \<and> createReserveKey q \<notin> K) olds" for P K
    unfolding not_checked_def index_of_def by (simp add: filter_map comp_def conj_commute)
  show ?thesis
    using fold_compare_new [OF assms, of news "{}" "[]" "[]"] fold_index_old [OF assms]
    by (simp add: createReservesDiff_def diff_reference_def un Let_def by_program_def by_time_def)
qed

subsection \<open>What the key distinguishes\<close>

text \<open>The numbers of a row are not negative.\<close>

definition numbers_ok :: "reserve \<Rightarrow> bool" where
  "numbers_ok r \<longleftrightarrow> 0 \<le> startAt r \<and> 0 \<le> endAt r \<and> nonneg (programId r) \<and> nonneg (ruleId r)"

definition same_slot :: "reserve \<Rightarrow> reserve \<Rightarrow> bool" where
  "same_slot a b \<longleftrightarrow> programId a = programId b \<and> ruleId a = ruleId b \<and>
     (programId a = None \<longrightarrow> startAt a = startAt b \<and> endAt a = endAt b \<and> channel a = channel b)"

lemma key_head:
  assumes "numbers_ok a" "numbers_ok b"
  shows "createReserveKey a = createReserveKey b \<longleftrightarrow> ruleId a = ruleId b \<and>
    (case programId a of
       None \<Rightarrow> num_str (startAt a) @ 45 # num_str (endAt a) @ 45 # channel a
     | Some p \<Rightarrow> num_str p) =
    (case programId b of
       None \<Rightarrow> num_str (startAt b) @ 45 # num_str (endAt b) @ 45 # channel b
     | Some p \<Rightarrow> num_str p)"
proof -
  have "45 \<notin> set (opt_num_str (ruleId a))" "45 \<notin> set (opt_num_str (ruleId b))"
    using assms by (simp_all add: numbers_ok_def opt_num_str_no_dash)
  moreover have "opt_num_str (ruleId a) = opt_num_str (ruleId b) \<longleftrightarrow> ruleId a = ruleId b"
    using assms by (simp add: numbers_ok_def opt_num_str_inj)
  ultimately show ?thesis unfolding createReserveKey_def js_dash append_Cons append_Nil
    by (subst split_last) auto
qed

lemma key_exact:
  assumes "numbers_ok a" "numbers_ok b"
  shows "createReserveKey a = createReserveKey b \<longleftrightarrow> same_slot a b"
proof -
  have time: "num_str p \<noteq> num_str s @ 45 # xs" if "0 \<le> p" for p s xs
    using num_str_no_dash [OF that] by auto
  show ?thesis
  proof (cases "programId a")
    case None
    then show ?thesis
      unfolding key_head [OF assms] same_slot_def using assms time [symmetric]
      by (cases "programId b")
        (auto simp: numbers_ok_def split_first num_str_no_dash num_str_inj nonneg_def)
  next
    case (Some p)
    then show ?thesis
      unfolding key_head [OF assms] same_slot_def using assms time
      by (cases "programId b") (auto simp: numbers_ok_def num_str_inj nonneg_def)
  qed
qed

text \<open>
  The key of the comparison is exact on rows whose numbers are not negative: two rows have the
  same key exactly when they are the same programme of the same rule, or the same time on the same
  physical channel of the same rule. In particular no programme reservation is ever taken for a
  time-specified one, although both kinds share one string format.
\<close>

theorem createReserveKey_exact:
  assumes "numbers_ok a" "numbers_ok b"
  shows "createReserveKey a = createReserveKey b \<longleftrightarrow> same_slot a b"
  using assms by (rule key_exact)

theorem createReserveKey_exact_witness:
  "createReserveKey (new_reserve\<lparr>programId := Some 5, ruleId := Some 1\<rparr>) =
     createReserveKey (new_reserve\<lparr>programId := Some 5, ruleId := Some 1, isSkip := True\<rparr>) \<and>
   createReserveKey (new_reserve\<lparr>programId := Some 51\<rparr>) \<noteq>
     createReserveKey (new_reserve\<lparr>programId := Some 5, ruleId := Some 1\<rparr>)"
  by (simp add: createReserveKey_exact numbers_ok_def nonneg_def same_slot_def new_reserve_def)

lemma numbers_ok_distinct:
  assumes "\<forall>r \<in> set rs. numbers_ok r" and "\<forall>i < length rs. \<forall>j < length rs. i \<noteq> j \<longrightarrow> \<not> same_slot (rs ! i) (rs ! j)"
  shows "distinct (map createReserveKey rs)"
  using assms key_exact by (simp add: distinct_conv_nth)

subsection \<open>The difference of any two lists\<close>

text \<open>Of the old reservations with one key, the last, at the place of the first.\<close>

definition keyed_olds :: "reserve list \<Rightarrow> (jstr \<times> reserve) list" where
  "keyed_olds olds = fold (\<lambda>r. AList.update (createReserveKey r) r) olds []"

definition last_of_keys :: "reserve list \<Rightarrow> reserve list" where
  "last_of_keys olds = map snd (keyed_olds olds)"

lemma keyed_snoc: "keyed_olds (olds @ [r]) = AList.update (createReserveKey r) r (keyed_olds olds)"
  by (simp add: keyed_olds_def)

lemma in_update: "x \<in> set (AList.update k r al) \<Longrightarrow> x \<in> set al \<or> x = (k, r)"
  by (induction al) (auto split: if_splits)

lemma keyed_entry: "x \<in> set (keyed_olds olds) \<Longrightarrow> snd x \<in> set olds \<and> fst x = createReserveKey (snd x)"
proof (induction olds rule: rev_induct)
  case (snoc r olds)
  then show ?case using in_update [of x "createReserveKey r" r "keyed_olds olds"] by (auto simp: keyed_snoc)
qed (simp add: keyed_olds_def)

lemma keyed_keys: "map fst (keyed_olds olds) = map createReserveKey (last_of_keys olds)"
  using keyed_entry by (auto simp: last_of_keys_def)

lemma last_of_keys_distinct: "distinct (map createReserveKey (last_of_keys olds))"
proof -
  have "distinct (map fst (keyed_olds olds))"
    by (induction olds rule: rev_induct) (simp_all add: keyed_snoc distinct_update, simp add: keyed_olds_def)
  then show ?thesis by (simp add: keyed_keys)
qed

lemma update_new: "k \<notin> fst ` set al \<Longrightarrow> AList.update k v al = al @ [(k, v)]"
  by (induction al) auto

lemma last_of_keys_same: "distinct (map createReserveKey olds) \<Longrightarrow> last_of_keys olds = olds"
proof (induction olds rule: rev_induct)
  case (snoc r olds)
  then have "map createReserveKey olds = map fst (keyed_olds olds)" by (simp add: keyed_keys)
  then have "createReserveKey r \<notin> fst ` set (keyed_olds olds)" using snoc(2) by (simp flip: set_map)
  then show ?case using snoc by (simp add: last_of_keys_def keyed_snoc update_new)
qed (simp add: last_of_keys_def keyed_olds_def)

lemma update_map: "AList.update k (r, False) (map (\<lambda>(k, r). (k, r, False)) al) = map (\<lambda>(k, r). (k, r, False)) (AList.update k r al)"
  by (induction al) auto

lemma update_filtered:
  assumes "\<And>x. x \<in> set al \<Longrightarrow> fst x = k \<Longrightarrow> P (snd x) = P r"
  shows "filter (\<lambda>x. P (snd x)) (AList.update k r al) =
    (if P r then AList.update k r (filter (\<lambda>x. P (snd x)) al) else filter (\<lambda>x. P (snd x)) al)"
  using assms by (induction al) force+

definition indexes :: "(reserve \<Rightarrow> bool) \<Rightarrow> reserve list \<Rightarrow> diff_index" where
  "indexes P olds = map (\<lambda>(k, r). (k, r, False)) (filter (\<lambda>x. P (snd x)) (keyed_olds olds))"

lemma indexes_snoc:
  assumes "\<And>q. q \<in> set olds \<Longrightarrow> createReserveKey q = createReserveKey r \<Longrightarrow> P q = P r"
  shows "indexes P (olds @ [r]) = (if P r then AList.update (createReserveKey r) (r, False) (indexes P olds) else indexes P olds)"
proof -
  have "P (snd x) = P r" if "x \<in> set (keyed_olds olds)" "fst x = createReserveKey r" for x
    using keyed_entry [OF that(1)] that(2) assms by auto
  then show ?thesis by (simp add: indexes_def keyed_snoc update_filtered update_map)
qed

lemma indexes_index_of: "indexes P olds = index_of P (last_of_keys olds) {}"
  using keyed_entry [of _ olds] by (auto simp: indexes_def index_of_def last_of_keys_def filter_map comp_def)

lemma index_olds:
  assumes "\<And>a b. a \<in> set olds \<Longrightarrow> b \<in> set olds \<Longrightarrow> createReserveKey a = createReserveKey b \<Longrightarrow> (programId a = None) = (programId b = None)"
  shows "fold index_old olds \<lparr>idIndex = [], timeIndex = [], ds_insert = [], ds_update = []\<rparr> =
     \<lparr>idIndex = indexes by_program olds, timeIndex = indexes by_time olds, ds_insert = [], ds_update = []\<rparr>"
  using assms
proof (induction olds rule: rev_induct)
  case (snoc r olds)
  have same: "by_program q = by_program r" "by_time q = by_time r"
    if "q \<in> set olds" "createReserveKey q = createReserveKey r" for q
    using snoc.prems [of q r] that by (auto simp: by_program_def by_time_def)
  have kinds: "by_program r \<longleftrightarrow> programId r \<noteq> None" "by_time r \<longleftrightarrow> programId r = None" by (simp_all add: by_program_def by_time_def)
  have "fold index_old olds \<lparr>idIndex = [], timeIndex = [], ds_insert = [], ds_update = []\<rparr> =
     \<lparr>idIndex = indexes by_program olds, timeIndex = indexes by_time olds, ds_insert = [], ds_update = []\<rparr>"
    by (rule snoc.IH) (rule snoc.prems, simp_all)
  then show ?case
    by (simp add: indexes_snoc [of olds r by_program, OF same(1)] indexes_snoc [of olds r by_time, OF same(2)] kinds index_old_def [of r])
qed (simp add: indexes_def keyed_olds_def)

text \<open>
  C7. The index based comparison computes the plain difference of the two lists, where of several old reservations with
  one key only the last counts: what has no old reservation of its key is inserted; what has one and differs from it
  in a compared column is updated under the old id; the old reservations whose key is gone are
  deleted; nothing else is touched. When the keys of the old reservations are distinct, all of them count. (The numbers
  of the old reservations are not negative, so that no programme shares its key with a time.)
\<close>

theorem createReservesDiff_reference:
  assumes "\<forall>r \<in> set olds. numbers_ok r"
  shows "createReservesDiff olds news log = diff_reference (last_of_keys olds) news log \<and>
    (distinct (map createReserveKey olds) \<longrightarrow> last_of_keys olds = olds)"
proof -
  have "(programId a = None) = (programId b = None)"
    if "a \<in> set olds" "b \<in> set olds" "createReserveKey a = createReserveKey b" for a b
  proof -
    have "numbers_ok a" "numbers_ok b" using that(1,2) assms by blast+
    then have "same_slot a b" using that(3) key_exact by blast
    then show ?thesis by (simp add: same_slot_def)
  qed
  then have "fold index_old olds \<lparr>idIndex = [], timeIndex = [], ds_insert = [], ds_update = []\<rparr> =
      fold index_old (last_of_keys olds) \<lparr>idIndex = [], timeIndex = [], ds_insert = [], ds_update = []\<rparr>"
    using index_olds [of olds] fold_index_old [OF last_of_keys_distinct [of olds]] indexes_index_of by metis
  then have "createReservesDiff olds news log = createReservesDiff (last_of_keys olds) news log"
    by (simp only: createReservesDiff_def)
  also have "\<dots> = diff_reference (last_of_keys olds) news log" by (rule diff_is_reference [OF last_of_keys_distinct])
  finally show ?thesis using last_of_keys_same by blast
qed

theorem createReservesDiff_reference_witness:
  "createReservesDiff [new_reserve\<lparr>reserveId := Some 9, programId := Some 5\<rparr>]
     [new_reserve\<lparr>programId := Some 5, isConflict := True\<rparr>, new_reserve\<lparr>programId := Some 6\<rparr>] False =
   (new_values False)\<lparr>uv_insert := [new_reserve\<lparr>programId := Some 6\<rparr>],
     uv_update := [new_reserve\<lparr>reserveId := Some 9, programId := Some 5, isConflict := True\<rparr>]\<rparr>"
proof -
  let ?old = "new_reserve\<lparr>reserveId := Some 9, programId := Some 5\<rparr>"
  have k: "createReserveKey (new_reserve\<lparr>programId := Some 6\<rparr>) \<noteq>
      createReserveKey (new_reserve\<lparr>programId := Some 5, reserveId := Some 9\<rparr>)"
    "createReserveKey (new_reserve\<lparr>programId := Some 5, isConflict := True\<rparr>) =
      createReserveKey (new_reserve\<lparr>programId := Some 5, reserveId := Some 9\<rparr>)"
    by (simp_all add: key_exact numbers_ok_def nonneg_def same_slot_def new_reserve_def)
  have "\<forall>r \<in> set [?old]. numbers_ok r" by (simp add: numbers_ok_def nonneg_def new_reserve_def)
  from createReservesDiff_reference [OF this] have "createReservesDiff [?old] news False = diff_reference [?old] news False" for news
    by simp
  then show ?thesis
    using k k(1) [symmetric]
    by (simp add: diff_reference_def old_of_def updates_of_def differs_def
        checkProgramIdReserveDiff_def new_values_def new_reserve_def)
qed

subsection \<open>Two services of one physical channel\<close>

text \<open>
  The key of a time-specified reservation names the physical channel, while the check for an existing
  reservation (\<open>findTimeSpecification\<close>) compares the service. So two manual reservations of the
  same times on two services of one physical channel are both accepted and share a key.
\<close>

definition service_reserve :: "int \<Rightarrow> int \<Rightarrow> reserve" where
  "service_reserve i ch = new_reserve\<lparr>reserveId := Some i, isTimeSpecified := True, isEventRelay := True,
     channelId := ch, channel := js ''26'', channelType := js ''GR'', startAt := 100, endAt := 200\<rparr>"

text \<open>
  A defect of the comparison: when the first of two such reservations is to be removed and the
  second to be kept, the change set is empty. The index keeps the last of the two under the shared
  key, so the removal is lost.
\<close>

theorem same_channel_removal_lost:
  "createReservesDiff [service_reserve 1 1024, service_reserve 2 1025] [service_reserve 2 1025] False =
     new_values False \<and> service_reserve 1 1024 \<noteq> service_reserve 2 1025"
  by code_simp

end
