(* ===== verification/Db_World.thy ===== *)
theory Db_World
  imports Reserve_Types Exec_Lock
begin

text \<open>
  The state the reservation manager works on and the shape of its asynchronous functions. An
  \<open>async\<close> function is an action: a function from the state to its result, a value or a thrown
  error, and the next state; it runs alone because the manager holds its execution lock meanwhile. The
  state holds the rows of the reservation table (in the order of the table), the next automatic id,
  the number of database calls made so far, the change sets emitted to the listeners and the lock.
  Which database calls are rejected is a parameter \<open>F\<close> of the actions, a function of the number of
  the call. \<open>run\<close> is \<open>src/src/model/PromiseRetry.ts\<close>.
\<close>

record world =
  rows :: "reserve list"
  nextId :: int
  dbCalls :: nat
  emitted :: "update_values list"
  exec :: exec_model

type_synonym 'a act = "world \<Rightarrow> 'a result \<times> world"
type_synonym faults = "nat \<Rightarrow> bool"

subsection \<open>Composition\<close>

definition ret :: "'a \<Rightarrow> 'a act" where
  "ret x = (\<lambda>w. (Inr x, w))"

definition throw :: "err \<Rightarrow> 'a act" where
  "throw e = (\<lambda>w. (Inl e, w))"

definition await :: "'a act \<Rightarrow> ('a \<Rightarrow> 'b act) \<Rightarrow> 'b act" where
  "await m k = (\<lambda>w. case m w of (Inl e, w') \<Rightarrow> (Inl e, w') | (Inr x, w') \<Rightarrow> k x w')"

definition on_error :: "'a act \<Rightarrow> (err \<Rightarrow> 'a act) \<Rightarrow> 'a act" where
  "on_error m h = (\<lambda>w. case m w of (Inl e, w') \<Rightarrow> h e w' | (Inr x, w') \<Rightarrow> (Inr x, w'))"

lemma await_simps [simp]:
  "await (ret x) k = k x" "await (throw e) k = throw e" "on_error (ret x) h = ret x"
  "on_error (throw e) h = h e"
  by (simp_all add: await_def on_error_def ret_def throw_def fun_eq_iff)

lemma await_Inr: "await m k w = (Inr y, w'') \<longleftrightarrow> (\<exists>x w'. m w = (Inr x, w') \<and> k x w' = (Inr y, w''))"
  by (auto simp: await_def split: prod.splits sum.splits)

lemma await_Inl: "await m k w = (Inl e, w'') \<longleftrightarrow>
    m w = (Inl e, w'') \<or> (\<exists>x w'. m w = (Inr x, w') \<and> k x w' = (Inl e, w''))"
  by (auto simp: await_def split: prod.splits sum.splits)

lemma ret_iff [simp]: "ret x w = (r, w') \<longleftrightarrow> r = Inr x \<and> w' = w"
  by (auto simp: ret_def)

lemma throw_iff [simp]: "throw e w = (r, w') \<longleftrightarrow> r = Inl e \<and> w' = w"
  by (auto simp: throw_def)

subsection \<open>Database calls\<close>

text \<open>One call: rejected when the parameter says so, with no effect on the table.\<close>

definition attempt :: "faults \<Rightarrow> (world \<Rightarrow> 'a result \<times> world) \<Rightarrow> 'a act" where
  "attempt F f = (\<lambda>w. let w' = w\<lparr>dbCalls := Suc (dbCalls w)\<rparr>
     in if F (dbCalls w) then (Inl DbFailure, w') else f w')"

text \<open>\<open>PromiseRetry.run\<close>: the call is repeated after a rejection, \<open>cnt\<close> times at most; the last
  error is thrown. The pause between the calls changes no state.\<close>

fun retry_loop :: "nat \<Rightarrow> err option \<Rightarrow> 'a act \<Rightarrow> 'a act" where
  "retry_loop 0 error job =
     throw (case error of None \<Rightarrow> Thrown ''ExecutePromiseRetryError'' | Some e \<Rightarrow> e)"
| "retry_loop (Suc n) error job = on_error job (\<lambda>e. retry_loop n (Some e) job)"

definition retry_run :: "nat option \<Rightarrow> 'a act \<Rightarrow> 'a act" where
  "retry_run option job = retry_loop (case option of None \<Rightarrow> 5 | Some cnt \<Rightarrow> cnt) None job"

subsection \<open>Actions that leave listeners and lock alone\<close>

definition quiet :: "'a act \<Rightarrow> bool" where
  "quiet m \<longleftrightarrow> (\<forall>w. emitted (snd (m w)) = emitted w \<and> exec (snd (m w)) = exec w)"

definition reads :: "'a act \<Rightarrow> bool" where
  "reads m \<longleftrightarrow> quiet m \<and> (\<forall>w. rows (snd (m w)) = rows w \<and> nextId (snd (m w)) = nextId w)"

lemma quietD: "quiet m \<Longrightarrow> m w = (r, w') \<Longrightarrow> emitted w' = emitted w \<and> exec w' = exec w"
  unfolding quiet_def by (metis snd_conv)

lemma readsD: "reads m \<Longrightarrow> m w = (r, w') \<Longrightarrow>
    rows w' = rows w \<and> nextId w' = nextId w \<and> emitted w' = emitted w \<and> exec w' = exec w"
  unfolding reads_def quiet_def by (metis snd_conv)

named_theorems quiet_intro \<open>actions that leave listeners and lock alone\<close>
named_theorems reads_intro \<open>actions that leave the table alone as well\<close>

lemma quiet_ret [quiet_intro]: "quiet (ret x)" and quiet_throw [quiet_intro]: "quiet (throw e)"
  by (simp_all add: quiet_def ret_def throw_def)

lemma quiet_await [quiet_intro]: "quiet m \<Longrightarrow> (\<And>x. quiet (k x)) \<Longrightarrow> quiet (await m k)"
  by (simp add: quiet_def await_def split: prod.splits sum.splits) (metis snd_conv)

lemma quiet_on_error [quiet_intro]: "quiet m \<Longrightarrow> (\<And>e. quiet (h e)) \<Longrightarrow> quiet (on_error m h)"
  by (simp add: quiet_def on_error_def split: prod.splits sum.splits) (metis snd_conv)

lemma quiet_if [quiet_intro]: "(b \<Longrightarrow> quiet m) \<Longrightarrow> (\<not> b \<Longrightarrow> quiet k) \<Longrightarrow> quiet (if b then m else k)"
  by simp

lemma quiet_option [quiet_intro]:
  "quiet m \<Longrightarrow> (\<And>x. quiet (k x)) \<Longrightarrow> quiet (case v of None \<Rightarrow> m | Some x \<Rightarrow> k x)"
  by (simp split: option.split)

lemma reads_ret [reads_intro]: "reads (ret x)" and reads_throw [reads_intro]: "reads (throw e)"
  by (simp_all add: reads_def quiet_def ret_def throw_def)

lemma reads_quiet: "reads m \<Longrightarrow> quiet m"
  by (simp add: reads_def)

lemma reads_await [reads_intro]: "reads m \<Longrightarrow> (\<And>x. reads (k x)) \<Longrightarrow> reads (await m k)"
  by (simp add: reads_def quiet_await)
    (simp add: await_def split: prod.splits sum.splits, metis snd_conv)

lemma reads_on_error [reads_intro]: "reads m \<Longrightarrow> (\<And>e. reads (h e)) \<Longrightarrow> reads (on_error m h)"
  by (simp add: reads_def quiet_on_error)
    (simp add: on_error_def split: prod.splits sum.splits, metis snd_conv)

lemma reads_if [reads_intro]: "(b \<Longrightarrow> reads m) \<Longrightarrow> (\<not> b \<Longrightarrow> reads k) \<Longrightarrow> reads (if b then m else k)"
  by simp

lemma reads_option [reads_intro]:
  "reads m \<Longrightarrow> (\<And>x. reads (k x)) \<Longrightarrow> reads (case v of None \<Rightarrow> m | Some x \<Rightarrow> k x)"
  by (simp split: option.split)

lemma quiet_attempt [quiet_intro]: "quiet f \<Longrightarrow> quiet (attempt F f)"
  by (simp add: quiet_def attempt_def Let_def)

lemma reads_attempt [reads_intro]: "reads f \<Longrightarrow> reads (attempt F f)"
  by (simp add: reads_def quiet_attempt) (simp add: attempt_def Let_def)

lemma quiet_retry [quiet_intro]: "quiet job \<Longrightarrow> quiet (retry_run cnt job)"
proof -
  assume "quiet job"
  then have "quiet (retry_loop n e job)" for n e
    by (induction n arbitrary: e) (auto intro: quiet_intro)
  then show ?thesis by (simp add: retry_run_def)
qed

lemma reads_retry [reads_intro]: "reads job \<Longrightarrow> reads (retry_run cnt job)"
proof -
  assume "reads job"
  then have "reads (retry_loop n e job)" for n e
    by (induction n arbitrary: e) (auto intro: reads_intro)
  then show ?thesis by (simp add: retry_run_def)
qed

subsection \<open>What the retry promises\<close>

text \<open>
  C12. A retried query that only reads is answered as soon as one of the allowed calls is not
  rejected, and it is thrown only when all of them are; the number of calls made is one more than the
  number of rejections before the answer, or the limit.
\<close>

theorem retry_reads_answer:
  assumes "0 < n"
  shows "retry_run (Some n) (attempt F (\<lambda>w. (Inr (g (rows w)), w))) w =
    (if \<forall>i < n. F (dbCalls w + i)
     then (Inl DbFailure, w\<lparr>dbCalls := dbCalls w + n\<rparr>)
     else (Inr (g (rows w)), w\<lparr>dbCalls := dbCalls w + Suc (LEAST i. \<not> F (dbCalls w + i))\<rparr>))"
proof -
  have "retry_loop n (Some DbFailure) (attempt F (\<lambda>w. (Inr (g (rows w)), w))) w =
    (if \<forall>i < n. F (dbCalls w + i)
     then (Inl DbFailure, w\<lparr>dbCalls := dbCalls w + n\<rparr>)
     else (Inr (g (rows w)), w\<lparr>dbCalls := dbCalls w + Suc (LEAST i. \<not> F (dbCalls w + i))\<rparr>))" for n w
  proof (induction n arbitrary: w)
    case 0
    then show ?case by (simp add: throw_def)
  next
    case (Suc n)
    show ?case
    proof (cases "F (dbCalls w)")
      case False
      then have "(LEAST i. \<not> F (dbCalls w + i)) = 0" by (intro Least_eq_0) simp
      moreover have "\<not> (\<forall>i < Suc n. F (dbCalls w + i))" using False by auto
      ultimately show ?thesis using False by (simp add: on_error_def attempt_def Let_def)
    next
      case True
      have all: "(\<forall>i < Suc n. F (dbCalls w + i)) \<longleftrightarrow> (\<forall>i < n. F (Suc (dbCalls w) + i))"
        using True by (simp add: All_less_Suc2)
      show ?thesis
      proof (cases "\<forall>i < n. F (Suc (dbCalls w) + i)")
        case True
        then show ?thesis using Suc [of "w\<lparr>dbCalls := Suc (dbCalls w)\<rparr>"] \<open>F (dbCalls w)\<close> all
          by (simp add: on_error_def attempt_def Let_def)
      next
        case False
        then obtain i where i: "\<not> F (dbCalls w + Suc i)" by auto
        have "(LEAST i. \<not> F (dbCalls w + i)) = Suc (LEAST i. \<not> F (dbCalls w + Suc i))"
          using Least_Suc [of "\<lambda>i. \<not> F (dbCalls w + i)" "Suc i"] i \<open>F (dbCalls w)\<close> by simp
        then show ?thesis using Suc [of "w\<lparr>dbCalls := Suc (dbCalls w)\<rparr>"] False \<open>F (dbCalls w)\<close> all
          by (simp add: on_error_def attempt_def Let_def)
      qed
    qed
  qed
  from this [of n w] show ?thesis
    using assms by (cases n) (simp_all add: retry_run_def)
qed

definition empty_world :: world where
  "empty_world = \<lparr>rows = [], nextId = 1, dbCalls = 0, emitted = [], exec = exec_free\<rparr>"

theorem retry_reads_answer_witness:
  "retry_run (Some 5) (attempt (\<lambda>i. i < 2) (\<lambda>w. (Inr (length (rows w)), w))) empty_world =
     (Inr 0, empty_world\<lparr>dbCalls := 3\<rparr>)"
proof -
  have "(LEAST i. \<not> i < (2::nat)) = 2" by (rule Least_equality) auto
  moreover have "\<not> (\<forall>i < 5. i < (2::nat))" by (intro notI, drule spec [of _ 3]) simp
  ultimately show ?thesis
    using retry_reads_answer [of 5 "\<lambda>i. i < 2" length empty_world] by (simp add: empty_world_def)
qed

end
