(* ===== verification/Reserve_DB.thy ===== *)
theory Reserve_DB
  imports Db_World
begin

text \<open>
  \<open>src/src/model/db/ReserveDB.ts\<close>: the queries and statements on the reservation table. A query
  selects the rows that satisfy the conditions the code builds, in the order of the table or sorted by
  the column the code names; a statement is one call that may be rejected. The transaction of
  \<open>updateMany\<close> and \<open>restore\<close> is the code's sequence of statements, with its rollback.
\<close>

subsection \<open>Statements\<close>

definition select :: "(reserve \<Rightarrow> bool) \<Rightarrow> world \<Rightarrow> reserve list result \<times> world" where
  "select P = (\<lambda>w. (Inr (filter P (rows w)), w))"

definition insert_row :: "reserve \<Rightarrow> world \<Rightarrow> int result \<times> world" where
  "insert_row r = (\<lambda>w. case reserveId r of
     None \<Rightarrow> (Inr (nextId w), w\<lparr>rows := rows w @ [r\<lparr>reserveId := Some (nextId w)\<rparr>],
                nextId := nextId w + 1\<rparr>)
   | Some i \<Rightarrow> if Some i \<in> reserveId ` set (rows w) then (Inl DbFailure, w)
        else (Inr i, w\<lparr>rows := rows w @ [r], nextId := max (nextId w) (i + 1)\<rparr>))"

definition update_row :: "reserve \<Rightarrow> world \<Rightarrow> unit result \<times> world" where
  "update_row u = (\<lambda>w. (Inr (), w\<lparr>rows := map (\<lambda>r. if reserveId r = reserveId u then u else r) (rows w)\<rparr>))"

definition delete_rows :: "int option list \<Rightarrow> world \<Rightarrow> unit result \<times> world" where
  "delete_rows ids = (\<lambda>w. (Inr (), w\<lparr>rows := filter (\<lambda>r. reserveId r \<notin> set ids) (rows w)\<rparr>))"

definition no_op :: "world \<Rightarrow> unit result \<times> world" where
  "no_op = (\<lambda>w. (Inr (), w))"

definition query :: "faults \<Rightarrow> (reserve \<Rightarrow> bool) \<Rightarrow> reserve list act" where
  "query F P = retry_run None (attempt F (select P))"

subsection \<open>Single rows\<close>

definition insertOnce :: "faults \<Rightarrow> reserve \<Rightarrow> int act" where
  "insertOnce F r = retry_run None (attempt F (insert_row r))"

definition updateOnce :: "faults \<Rightarrow> reserve \<Rightarrow> unit act" where
  "updateOnce F r = retry_run None (attempt F (update_row r))"

definition findId :: "faults \<Rightarrow> int \<Rightarrow> reserve option act" where
  "findId F i = await (query F (\<lambda>r. reserveId r = Some i))
     (\<lambda>rs. ret (case rs of [] \<Rightarrow> None | r # _ \<Rightarrow> Some r))"

subsection \<open>Transactions\<close>

text \<open>The inserts in order; the new ids are written into the objects.\<close>

fun insert_all :: "faults \<Rightarrow> reserve list \<Rightarrow> reserve list act" where
  "insert_all F [] = ret []"
| "insert_all F (r # rs) = await (attempt F (insert_row r))
     (\<lambda>i. await (insert_all F rs) (\<lambda>qs. ret (r\<lparr>reserveId := Some i\<rparr> # qs)))"

fun update_all :: "faults \<Rightarrow> reserve list \<Rightarrow> unit act" where
  "update_all F [] = ret ()"
| "update_all F (u # us) = await (attempt F (update_row u)) (\<lambda>_. update_all F us)"

text \<open>Start, body, commit. The transaction is active once the start has been answered. When a later call is
  rejected, the commit included, it is rolled back; when the rollback is rejected too, the rows stay as the statements have
  left them, and the rejection is only logged. The connection is released at the end, and a failure to release it is reported like one of the
  transaction.\<close>

definition rollback :: "faults \<Rightarrow> reserve list \<Rightarrow> world \<Rightarrow> world" where
  "rollback F before w = snd (attempt F (\<lambda>v. (Inr (), v\<lparr>rows := before\<rparr>)) w)"

definition transaction :: "faults \<Rightarrow> string \<Rightarrow> 'a act \<Rightarrow> 'a act" where
  "transaction F message body = (\<lambda>w.
     let (started, w0) = attempt F no_op w;
         isTransactionActive = (case started of Inl _ \<Rightarrow> False | Inr _ \<Rightarrow> True);
         (r, w1) = (case started of Inl e \<Rightarrow> (Inl e, w0)
           | Inr _ \<Rightarrow> await body (\<lambda>x. await (attempt F no_op) (\<lambda>_. ret x)) w0);
         w2 = (case r of Inl _ \<Rightarrow> if isTransactionActive then rollback F (rows w) w1 else w1 | Inr _ \<Rightarrow> w1);
         (released, w3) = attempt F no_op w2
     in case (r, released) of
          (Inr x, Inr _) \<Rightarrow> (Inr x, w3)
        | _ \<Rightarrow> (Inl (Thrown message), w3))"

definition updateMany :: "faults \<Rightarrow> update_values \<Rightarrow> update_values act" where
  "updateMany F v = transaction F ''ReserveUpdateManyError''
     (await (if uv_delete v \<noteq> [] then attempt F (delete_rows (map reserveId (uv_delete v))) else ret ())
       (\<lambda>_. await (insert_all F (uv_insert v))
         (\<lambda>inserted. await (update_all F (uv_update v))
           (\<lambda>_. ret (v\<lparr>uv_insert := inserted\<rparr>)))))"

definition restore :: "faults \<Rightarrow> reserve list \<Rightarrow> unit act" where
  "restore F items = transaction F ''restore error''
     (await (attempt F (\<lambda>w. (Inr (), w\<lparr>rows := []\<rparr>)))
       (\<lambda>_. await (insert_all F items) (\<lambda>_. ret ())))"

subsection \<open>Queries\<close>

datatype reserve_type = TypeAll | TypeNormal | TypeConflict | TypeSkip | TypeOverlap

definition setReserveTypeOption :: "reserve_type option \<Rightarrow> reserve \<Rightarrow> bool" where
  "setReserveTypeOption ty r = (case ty of
     Some TypeNormal \<Rightarrow> \<not> isConflict r \<and> \<not> isSkip r \<and> \<not> isOverlap r
   | Some TypeConflict \<Rightarrow> isConflict r \<and> \<not> isSkip r \<and> \<not> isOverlap r
   | Some TypeSkip \<Rightarrow> \<not> isConflict r \<and> isSkip r \<and> \<not> isOverlap r
   | Some TypeOverlap \<Rightarrow> \<not> isConflict r \<and> \<not> isSkip r \<and> isOverlap r
   | _ \<Rightarrow> True)"

text \<open>\<open>DBUtil.resolvePagination\<close>: the offset and limit that are applied.\<close>

definition resolvePagination :: "nat option \<Rightarrow> nat option \<Rightarrow> nat option \<times> nat option" where
  "resolvePagination offset limit =
     (if limit \<noteq> Some 0 \<and> limit \<noteq> None then (offset, limit)
      else if offset = None \<or> limit = Some 0 \<and> offset = Some 0 then (None, None)
      else (offset, Some 2147483647))"

definition paginate :: "nat option \<times> nat option \<Rightarrow> 'a list \<Rightarrow> 'a list" where
  "paginate p xs =
     (let ys = (case fst p of None \<Rightarrow> xs | Some k \<Rightarrow> drop k xs)
      in case snd p of None \<Rightarrow> ys | Some n \<Rightarrow> take n ys)"

record get_option =
  go_type :: "reserve_type option"
  go_ruleId :: "int option"
  go_offset :: "nat option"
  go_limit :: "nat option"

definition findAll :: "faults \<Rightarrow> get_option \<Rightarrow> (reserve list \<times> nat) act" where
  "findAll F opt = await (query F (\<lambda>r. setReserveTypeOption (go_type opt) r \<and>
       (case go_ruleId opt of None \<Rightarrow> True | Some i \<Rightarrow> ruleId r = Some i)))
     (\<lambda>rs. ret (paginate (resolvePagination (go_offset opt) (go_limit opt)) (sort_key startAt rs),
        length rs))"

text \<open>All rows, or those that touch a range given by its start and end.\<close>

definition findLists :: "faults \<Rightarrow> (int \<times> int) option \<Rightarrow> reserve list act" where
  "findLists F opt = query F (\<lambda>r. case opt of None \<Rightarrow> True
     | Some (s, e) \<Rightarrow> startAt r \<le> e \<and> s \<le> endAt r)"

definition findProgramId :: "faults \<Rightarrow> int \<Rightarrow> reserve list act" where
  "findProgramId F p = query F (\<lambda>r. programId r = Some p)"

type_synonym time_range = "int \<times> int"

record find_option =
  fo_times :: "time_range list"
  hasSkip :: bool
  hasConflict :: bool
  hasOverlap :: bool
  excludeRuleId :: "int option"
  excludeReserveId :: "int option"

definition time_key :: "time_range \<Rightarrow> jstr" where
  "time_key t = num_str (fst t) @ num_str (snd t)"

fun dedupe_times :: "jstr list \<Rightarrow> time_range list \<Rightarrow> time_range list" where
  "dedupe_times seen [] = []"
| "dedupe_times seen (t # ts) =
     (if time_key t \<in> set seen then dedupe_times seen ts else t # dedupe_times (time_key t # seen) ts)"

text \<open>The \<open>reduce\<close> over the times: the accumulator is the list so far, a range that starts where the
  last one ends is joined to it.\<close>

definition join_time :: "time_range \<Rightarrow> time_range list \<Rightarrow> time_range list" where
  "join_time cur acc =
     (if snd (last acc) = fst cur then butlast acc @ [(fst (last acc), snd cur)] else acc @ [cur])"

definition join_times :: "time_range list \<Rightarrow> time_range list" where
  "join_times ts = (case ts of [] \<Rightarrow> [] | t # us \<Rightarrow> fold join_time us [t])"

definition touches :: "reserve \<Rightarrow> time_range \<Rightarrow> bool" where
  "touches r t \<longleftrightarrow> fst t \<le> endAt r \<and> startAt r < snd t"

definition range_where :: "find_option \<Rightarrow> reserve \<Rightarrow> bool" where
  "range_where opt r \<longleftrightarrow>
     (\<exists>t \<in> set (join_times (dedupe_times [] (fo_times opt))). touches r t) \<and>
     (\<not> hasSkip opt \<longrightarrow> \<not> isSkip r) \<and> (\<not> hasConflict opt \<longrightarrow> \<not> isConflict r) \<and>
     (\<not> hasOverlap opt \<longrightarrow> \<not> isOverlap r) \<and>
     (case excludeRuleId opt of None \<Rightarrow> True | Some i \<Rightarrow> ruleId r \<noteq> Some i) \<and>
     (case excludeReserveId opt of None \<Rightarrow> True | Some i \<Rightarrow> reserveId r \<noteq> Some i)"

definition findTimeRanges :: "faults \<Rightarrow> find_option \<Rightarrow> reserve list act" where
  "findTimeRanges F opt =
     (if fo_times opt = [] then ret []
      else await (query F (range_where opt)) (\<lambda>rs. ret (sort_key startAt rs)))"

record find_rule_option =
  fr_ruleId :: int
  fr_hasSkip :: bool
  fr_hasConflict :: bool
  fr_hasOverlap :: bool
  fr_hasEventRelay :: bool

definition findRuleId :: "faults \<Rightarrow> find_rule_option \<Rightarrow> reserve list act" where
  "findRuleId F opt = await (query F (\<lambda>r. ruleId r = Some (fr_ruleId opt) \<and>
       (\<not> fr_hasSkip opt \<longrightarrow> \<not> isSkip r) \<and> (\<not> fr_hasConflict opt \<longrightarrow> \<not> isConflict r) \<and>
       (\<not> fr_hasOverlap opt \<longrightarrow> \<not> isOverlap r) \<and> (\<not> fr_hasEventRelay opt \<longrightarrow> \<not> isEventRelay r)))
     (\<lambda>rs. ret (sort_key startAt rs))"

definition findOldTime :: "faults \<Rightarrow> int \<Rightarrow> reserve list act" where
  "findOldTime F t = query F (\<lambda>r. endAt r < t)"

definition findTimeSpecification :: "faults \<Rightarrow> int \<Rightarrow> int \<Rightarrow> int \<Rightarrow> reserve option act" where
  "findTimeSpecification F ch s e =
     await (query F (\<lambda>r. channelId r = ch \<and> startAt r = s \<and> endAt r = e \<and> ruleId r = None))
       (\<lambda>rs. ret (case rs of [] \<Rightarrow> None | r # _ \<Rightarrow> Some r))"

definition id_of :: "reserve \<Rightarrow> int" where
  "id_of r = (case reserveId r of None \<Rightarrow> 0 | Some i \<Rightarrow> i)"

definition getManualIds :: "faults \<Rightarrow> bool \<Rightarrow> int list act" where
  "getManualIds F hasTimeReserve =
     await (query F (\<lambda>r. ruleId r = None \<and> (\<not> hasTimeReserve \<longrightarrow> programId r \<noteq> None)))
       (\<lambda>rs. ret (map id_of (sort_key id_of rs)))"

definition getRuleEventRelayIds :: "faults \<Rightarrow> int list act" where
  "getRuleEventRelayIds F =
     await (query F (\<lambda>r. ruleId r \<noteq> None \<and> isEventRelay r))
       (\<lambda>rs. ret (map id_of (sort_key id_of rs)))"

definition countRuleIds :: "faults \<Rightarrow> int list \<Rightarrow> reserve_type \<Rightarrow> (int \<times> nat) list act" where
  "countRuleIds F ids ty =
     await (query F (\<lambda>r. (\<exists>i \<in> set ids. ruleId r = Some i) \<and> setReserveTypeOption (Some ty) r))
       (\<lambda>rs. let keys = remdups (map ruleId rs)
             in ret (map (\<lambda>k. (the k, length (filter (\<lambda>r. ruleId r = k) rs))) keys))"

definition countByRuleIds :: "faults \<Rightarrow> int list \<Rightarrow> reserve_type \<Rightarrow> (int \<times> nat) list act" where
  "countByRuleIds F ids state = (if ids = [] then ret [] else countRuleIds F ids state)"

subsection \<open>Effects\<close>

lemma attempt_Inr: "attempt F f w = (Inr x, w') \<longleftrightarrow>
    \<not> F (dbCalls w) \<and> f (w\<lparr>dbCalls := Suc (dbCalls w)\<rparr>) = (Inr x, w')"
  by (simp add: attempt_def Let_def)

lemma attempt_Inl: "attempt F f w = (Inl e, w') \<longleftrightarrow>
    (if F (dbCalls w) then e = DbFailure \<and> w' = w\<lparr>dbCalls := Suc (dbCalls w)\<rparr>
     else f (w\<lparr>dbCalls := Suc (dbCalls w)\<rparr>) = (Inl e, w'))"
  by (auto simp: attempt_def Let_def)

text \<open>A call that fails leaves the state alone.\<close>

definition inert :: "(world \<Rightarrow> 'a result \<times> world) \<Rightarrow> bool" where
  "inert f \<longleftrightarrow> (\<forall>w e w'. f w = (Inl e, w') \<longrightarrow> w' = w)"

lemma retry_attempt_cases:
  assumes "inert f" and "retry_run c (attempt F f) w = (r, w')"
  shows "\<exists>k. (\<exists>e. r = Inl e \<and> w' = w\<lparr>dbCalls := k\<rparr>) \<or>
    (\<exists>x. r = Inr x \<and> f (w\<lparr>dbCalls := k\<rparr>) = (Inr x, w'))"
proof -
  have "\<exists>k. (\<exists>e. r = Inl e \<and> w' = w\<lparr>dbCalls := k\<rparr>) \<or>
      (\<exists>x. r = Inr x \<and> f (w\<lparr>dbCalls := k\<rparr>) = (Inr x, w'))"
    if "retry_loop n e (attempt F f) w = (r, w')" for n e w
    using that
  proof (induction n arbitrary: e w)
    case 0
    then have "(\<exists>e. r = Inl e) \<and> w' = w" by auto
    then show ?case by (intro exI [of _ "dbCalls w"]) auto
  next
    case (Suc n)
    obtain r1 w1 where a: "attempt F f w = (r1, w1)" by fastforce
    show ?case
    proof (cases r1)
      case (Inr x)
      then have "f (w\<lparr>dbCalls := Suc (dbCalls w)\<rparr>) = (Inr x, w1)" using a by (simp add: attempt_Inr)
      then show ?thesis using Suc.prems a Inr by (auto simp: on_error_def)
    next
      case (Inl e1)
      then have w1: "w1 = w\<lparr>dbCalls := Suc (dbCalls w)\<rparr>"
        using a assms(1) by (auto simp: attempt_Inl inert_def split: if_splits)
      have "retry_loop n (Some e1) (attempt F f) w1 = (r, w')"
        using Suc.prems a Inl by (simp add: on_error_def)
      from Suc.IH [OF this] show ?thesis by (simp add: w1)
    qed
  qed
  with assms(2) show ?thesis unfolding retry_run_def by blast
qed

lemma inert_ops: "inert (select P)" "inert (insert_row r)" "inert (update_row r)"
  by (auto simp: inert_def select_def insert_row_def update_row_def split: option.splits)

lemma query_Inr:
  "query F P w = (Inr rs, w') \<Longrightarrow> rs = filter P (rows w) \<and> (\<exists>k. w' = w\<lparr>dbCalls := k\<rparr>)"
  using retry_attempt_cases [OF inert_ops(1), of None F P w "Inr rs" w']
  by (auto simp: query_def select_def)

lemma reads_select [reads_intro]: "reads (select P)"
  by (simp add: reads_def quiet_def select_def)

lemma reads_query [reads_intro]: "reads (query F P)"
  unfolding query_def by (intro reads_intro)

lemma reads_queries [reads_intro]:
  "reads (findId F i)" "reads (findAll F opt)" "reads (findLists F r)" "reads (findProgramId F p)"
  "reads (findTimeRanges F fo)" "reads (findRuleId F fr)" "reads (findOldTime F t)"
  "reads (findTimeSpecification F c s e)" "reads (getManualIds F b)" "reads (getRuleEventRelayIds F)"
  "reads (countByRuleIds F ids ty)"
  unfolding findId_def findAll_def findLists_def findProgramId_def findTimeRanges_def findRuleId_def
    findOldTime_def findTimeSpecification_def getManualIds_def getRuleEventRelayIds_def
    countByRuleIds_def countRuleIds_def Let_def
  by (auto intro!: reads_intro)

lemmas quiet_queries [quiet_intro] = reads_queries [THEN reads_quiet]

lemma quiet_statements [quiet_intro]:
  "quiet (insert_row r)" "quiet (update_row r)" "quiet (delete_rows ids)" "quiet no_op"
  by (simp_all add: quiet_def insert_row_def update_row_def delete_rows_def no_op_def
      split: option.split)

lemma quiet_once [quiet_intro]: "quiet (insertOnce F r)" "quiet (updateOnce F r)"
  unfolding insertOnce_def updateOnce_def by (intro quiet_intro)+

lemma quiet_insert_all [quiet_intro]: "quiet (insert_all F rs)"
  by (induction rs) (auto intro!: quiet_intro)

lemma quiet_update_all [quiet_intro]: "quiet (update_all F us)"
  by (induction us) (auto intro!: quiet_intro)

lemma rollback_rest:
  "emitted (rollback F rs w) = emitted w" "exec (rollback F rs w) = exec w" "nextId (rollback F rs w) = nextId w"
  "dbCalls (rollback F rs w) = Suc (dbCalls w)" "rows (rollback F rs w) = (if F (dbCalls w) then rows w else rs)"
  by (simp_all add: rollback_def attempt_def Let_def)

lemma transaction_alt:
  "transaction F message body w = (
     let (r, w1) = await (attempt F no_op) (\<lambda>_. await body (\<lambda>x. await (attempt F no_op) (\<lambda>_. ret x))) w;
         w2 = (case r of Inl _ \<Rightarrow> if F (dbCalls w) then w1 else rollback F (rows w) w1 | Inr _ \<Rightarrow> w1);
         (released, w3) = attempt F no_op w2
     in case (r, released) of
          (Inr x, Inr _) \<Rightarrow> (Inr x, w3)
        | _ \<Rightarrow> (Inl (Thrown message), w3))"
proof -
  have a: "attempt F no_op w = (if F (dbCalls w) then Inl DbFailure else Inr (), w\<lparr>dbCalls := Suc (dbCalls w)\<rparr>)"
    by (simp add: attempt_def no_op_def Let_def)
  show ?thesis
    by (cases "F (dbCalls w)") (simp_all add: transaction_def await_def [of "attempt F no_op"] a Let_def split: prod.split)
qed

lemma quiet_transaction [quiet_intro]:
  assumes "quiet body"
  shows "quiet (transaction F m body)"
proof -
  have q: "quiet (await (attempt F no_op) (\<lambda>_. await body (\<lambda>x. await (attempt F no_op) (\<lambda>_. ret x))))"
    using assms by (intro quiet_intro)
  have r: "quiet (attempt F no_op)" by (intro quiet_intro)
  show ?thesis
    unfolding quiet_def
  proof
    fix w
    obtain r1 w1 where 1: "await (attempt F no_op) (\<lambda>_. await body (\<lambda>x. await (attempt F no_op) (\<lambda>_. ret x))) w = (r1, w1)"
      by fastforce
    define w2 where "w2 = (case r1 of Inl _ \<Rightarrow> if F (dbCalls w) then w1 else rollback F (rows w) w1 | Inr _ \<Rightarrow> w1)"
    have 2: "emitted w2 = emitted w1 \<and> exec w2 = exec w1" by (simp add: w2_def rollback_rest split: sum.split)
    obtain r3 w3 where 3: "attempt F no_op w2 = (r3, w3)" by fastforce
    have "snd (transaction F m body w) = w3"
      using 3 by (simp add: transaction_alt 1 w2_def [symmetric] split: sum.split)
    then show "emitted (snd (transaction F m body w)) = emitted w \<and> exec (snd (transaction F m body w)) = exec w"
      using quietD [OF q 1] 2 quietD [OF r 3] by simp
  qed
qed

lemma quiet_updateMany [quiet_intro]: "quiet (updateMany F v)"
  unfolding updateMany_def by (intro quiet_intro)

lemma quiet_restore [quiet_intro]: "quiet (restore F items)"
proof -
  have "quiet (\<lambda>w. (Inr (), w\<lparr>rows := []\<rparr>))" by (simp add: quiet_def)
  then show ?thesis unfolding restore_def by (intro quiet_intro)
qed

subsection \<open>What the change of the table is\<close>

fun number_rows :: "int \<Rightarrow> reserve list \<Rightarrow> reserve list" where
  "number_rows n [] = []"
| "number_rows n (r # rs) = r\<lparr>reserveId := Some n\<rparr> # number_rows (n + 1) rs"

definition replace_all :: "reserve list \<Rightarrow> reserve list \<Rightarrow> reserve list" where
  "replace_all us rs = fold (\<lambda>u. map (\<lambda>r. if reserveId r = reserveId u then u else r)) us rs"

definition applied :: "update_values \<Rightarrow> world \<Rightarrow> reserve list" where
  "applied v w = replace_all (uv_update v)
     (filter (\<lambda>r. reserveId r \<notin> reserveId ` set (uv_delete v)) (rows w) @
      number_rows (nextId w) (uv_insert v))"

definition fresh_rows :: "update_values \<Rightarrow> bool" where
  "fresh_rows v \<longleftrightarrow> (\<forall>r \<in> set (uv_insert v). reserveId r = None)"

lemma insert_all_Inr:
  "insert_all F rs w = (Inr qs, w') \<Longrightarrow> \<forall>r \<in> set rs. reserveId r = None \<Longrightarrow>
   qs = number_rows (nextId w) rs \<and> rows w' = rows w @ qs \<and> nextId w' = nextId w + int (length rs)"
proof (induction rs arbitrary: w qs)
  case (Cons r rs)
  then obtain i w1 qs' where 1: "attempt F (insert_row r) w = (Inr i, w1)"
    "insert_all F rs w1 = (Inr qs', w')" "qs = r\<lparr>reserveId := Some i\<rparr> # qs'"
    by (auto simp: await_Inr)
  then have "i = nextId w" "nextId w1 = nextId w + 1" "rows w1 = rows w @ [r\<lparr>reserveId := Some i\<rparr>]"
    using Cons.prems(2) by (auto simp: attempt_Inr insert_row_def)
  then show ?case using Cons.IH [OF 1(2)] Cons.prems(2) 1(3) by simp
qed simp

lemma update_all_Inr:
  "update_all F us w = (Inr x, w') \<Longrightarrow> rows w' = replace_all us (rows w) \<and> nextId w' = nextId w"
proof (induction us arbitrary: w)
  case (Cons u us)
  then obtain w1 where "attempt F (update_row u) w = (Inr (), w1)" "update_all F us w1 = (Inr x, w')"
    by (auto simp: await_Inr)
  then show ?case using Cons.IH by (fastforce simp: attempt_Inr update_row_def replace_all_def)
qed (simp add: replace_all_def)

text \<open>Actions that succeed in every state.\<close>

definition succeeds :: "'a act \<Rightarrow> bool" where
  "succeeds m \<longleftrightarrow> (\<forall>w. \<exists>x w'. m w = (Inr x, w'))"

lemma succeeds_basic: "succeeds (ret x)" "succeeds no_op" "succeeds (update_row u)"
  "succeeds (delete_rows ids)" "reserveId r = None \<Longrightarrow> succeeds (insert_row r)"
  by (simp_all add: succeeds_def ret_def no_op_def update_row_def delete_rows_def insert_row_def)

text \<open>An action that throws only because its last call was rejected.\<close>

definition thrown_by_call :: "faults \<Rightarrow> 'a act \<Rightarrow> bool" where
  "thrown_by_call F m \<longleftrightarrow> (\<forall>w e w'. m w = (Inl e, w') \<longrightarrow> (\<exists>k. dbCalls w' = Suc k \<and> F k))"

lemma thrown_basic: "thrown_by_call F (ret x)" "succeeds f \<Longrightarrow> (\<And>w. dbCalls (snd (f w)) = dbCalls w) \<Longrightarrow> thrown_by_call F (attempt F f)"
  unfolding thrown_by_call_def succeeds_def by (simp add: ret_def) (auto simp: attempt_def Let_def split: if_splits, metis prod.inject sum.distinct(1))

lemma thrown_await: "thrown_by_call F m \<Longrightarrow> (\<And>x. thrown_by_call F (k x)) \<Longrightarrow> thrown_by_call F (await m k)"
  unfolding thrown_by_call_def await_Inl by blast

lemma thrown_if: "thrown_by_call F m \<Longrightarrow> thrown_by_call F k \<Longrightarrow> thrown_by_call F (if b then m else k)"
  by simp

lemma thrown_statements:
  "thrown_by_call F (attempt F no_op)" "thrown_by_call F (attempt F (update_row u))" "thrown_by_call F (attempt F (delete_rows ids))"
  "reserveId r = None \<Longrightarrow> thrown_by_call F (attempt F (insert_row r))"
  by (rule thrown_basic(2), simp add: succeeds_basic, simp add: no_op_def update_row_def delete_rows_def insert_row_def)+

lemma thrown_insert_all: "\<forall>r \<in> set rs. reserveId r = None \<Longrightarrow> thrown_by_call F (insert_all F rs)"
  by (induction rs) (auto intro!: thrown_basic(1) thrown_await thrown_statements)

lemma thrown_update_all: "thrown_by_call F (update_all F us)"
  by (induction us) (auto intro!: thrown_basic(1) thrown_await thrown_statements)

lemma transaction_cases:
  assumes "transaction F m body w = (r, w')"
  obtains (committed) x w1 w2 where "attempt F no_op w = (Inr (), w1)" "body w1 = (Inr x, w2)"
      "r = Inr x \<or> r = Inl (Thrown m)" "rows w' = rows w2" "nextId w' = nextId w2"
  | (rolled_back) "r = Inl (Thrown m)" "rows w' = rows w"
  | (left) e w1 where "r = Inl (Thrown m)"
      "await (attempt F no_op) (\<lambda>_. await body (\<lambda>x. await (attempt F no_op) (\<lambda>_. ret x))) w = (Inl e, w1)"
      "F (dbCalls w1)" "rows w' = rows w1" "dbCalls w' = dbCalls w1 + 2"
proof -
  obtain r1 w1 where 1: "await (attempt F no_op) (\<lambda>_. await body (\<lambda>x. await (attempt F no_op) (\<lambda>_. ret x))) w = (r1, w1)"
    by fastforce
  have no: "rows (snd (attempt F no_op v)) = rows v \<and> nextId (snd (attempt F no_op v)) = nextId v \<and>
      dbCalls (snd (attempt F no_op v)) = Suc (dbCalls v)" for v
    by (simp add: attempt_def no_op_def Let_def)
  show ?thesis
  proof (cases r1)
    case Inl: (Inl e)
    show ?thesis
    proof (cases "F (dbCalls w)")
      case True
      then have "rows w1 = rows w" using 1 by (auto simp: await_def attempt_def Let_def)
      then show ?thesis using assms 1 Inl no [of w1] True rolled_back by (auto simp: transaction_alt split: prod.splits)
    next
      case active: False
      let ?v = "rollback F (rows w) w1"
      have r: "r = Inl (Thrown m)" "rows w' = rows ?v" "dbCalls w' = Suc (dbCalls ?v)"
        using assms 1 Inl no [of ?v] active by (auto simp: transaction_alt split: prod.splits)
      show ?thesis
      proof (cases "F (dbCalls w1)")
        case True
        then show ?thesis using r 1 Inl left by (simp add: rollback_rest)
      next
        case False
        then show ?thesis using r rolled_back by (simp add: rollback_rest)
      qed
    qed
  next
    case (Inr x)
    then obtain v1 v2 where v: "attempt F no_op w = (Inr (), v1)" "body v1 = (Inr x, v2)"
      "attempt F no_op v2 = (Inr (), w1)"
      using 1 by (auto simp: await_Inr)
    have "rows w1 = rows v2" "nextId w1 = nextId v2" using no [of v2] v(3) by simp_all
    moreover have "rows w' = rows w1" "nextId w' = nextId w1" "r = Inr x \<or> r = Inl (Thrown m)"
      using assms 1 Inr no [of w1] by (auto simp: transaction_alt split: prod.splits sum.splits)
    ultimately show ?thesis using committed v by simp
  qed
qed

lemma updateMany_body:
  assumes "(await (if uv_delete v \<noteq> [] then attempt F (delete_rows (map reserveId (uv_delete v))) else ret ())
       (\<lambda>_. await (insert_all F (uv_insert v))
         (\<lambda>inserted. await (update_all F (uv_update v))
           (\<lambda>_. ret (v\<lparr>uv_insert := inserted\<rparr>))))) w = (Inr x, w')" and "fresh_rows v"
  shows "rows w' = applied v w \<and> x = v\<lparr>uv_insert := number_rows (nextId w) (uv_insert v)\<rparr> \<and>
    nextId w' = nextId w + int (length (uv_insert v))"
proof -
  obtain u w1 qs w2 where 1:
    "(if uv_delete v \<noteq> [] then attempt F (delete_rows (map reserveId (uv_delete v))) else ret ()) w = (Inr u, w1)"
    "insert_all F (uv_insert v) w1 = (Inr qs, w2)" "update_all F (uv_update v) w2 = (Inr (), w')"
    "x = v\<lparr>uv_insert := qs\<rparr>"
    using assms(1) unfolding await_Inr by auto
  have del: "rows w1 = filter (\<lambda>r. reserveId r \<notin> reserveId ` set (uv_delete v)) (rows w)" "nextId w1 = nextId w"
    using 1(1) by (auto simp: attempt_Inr delete_rows_def split: if_splits)
  have ins: "qs = number_rows (nextId w1) (uv_insert v)" "rows w2 = rows w1 @ qs"
    "nextId w2 = nextId w1 + int (length (uv_insert v))"
    using insert_all_Inr [OF 1(2)] assms(2) by (auto simp: fresh_rows_def)
  show ?thesis using update_all_Inr [OF 1(3)] 1(4) by (simp add: applied_def del ins)
qed

subsection \<open>The transaction\<close>

lemma succeeds_attempt: "succeeds f \<Longrightarrow> succeeds (attempt (\<lambda>i. False) f)"
  by (simp add: succeeds_def attempt_def)

lemma succeeds_await: "succeeds m \<Longrightarrow> (\<And>x. succeeds (k x)) \<Longrightarrow> succeeds (await m k)"
  unfolding succeeds_def by (metis await_Inr)

lemma succeeds_if: "succeeds m \<Longrightarrow> succeeds k \<Longrightarrow> succeeds (if b then m else k)"
  by simp

lemmas succeeds_intro = succeeds_await succeeds_attempt succeeds_if succeeds_basic

lemma succeeds_insert_all:
  "\<forall>r \<in> set rs. reserveId r = None \<Longrightarrow> succeeds (insert_all (\<lambda>i. False) rs)"
  by (induction rs) (auto intro!: succeeds_intro)

lemma succeeds_update_all: "succeeds (update_all (\<lambda>i. False) us)"
  by (induction us) (auto intro!: succeeds_intro)

lemma succeeds_transaction:
  assumes "succeeds body"
  shows "succeeds (transaction (\<lambda>i. False) m body)"
proof -
  let ?run = "await (attempt (\<lambda>i. False) no_op) (\<lambda>_. await body
      (\<lambda>x. await (attempt (\<lambda>i. False) no_op) (\<lambda>_. ret x)))"
  have ok: "succeeds ?run" using assms by (intro succeeds_intro)
  show ?thesis
    unfolding succeeds_def
  proof
    fix w
    obtain x w1 where "?run w = (Inr x, w1)" using ok unfolding succeeds_def by blast
    then have "transaction (\<lambda>i. False) m body w = (Inr x, w1\<lparr>dbCalls := Suc (dbCalls w1)\<rparr>)"
      by (simp add: transaction_alt attempt_def no_op_def Let_def)
    then show "\<exists>x w'. transaction (\<lambda>i. False) m body w = (Inr x, w')" by blast
  qed
qed

lemma updateMany_no_fault: "fresh_rows v \<Longrightarrow> succeeds (updateMany (\<lambda>i. False) v)"
  unfolding updateMany_def fresh_rows_def
  by (intro succeeds_transaction succeeds_intro succeeds_insert_all succeeds_update_all)

lemma updateMany_outcome:
  assumes "fresh_rows v" "updateMany F v w = (r, w')"
  shows "(case (r, w') of
       (Inr v', w') \<Rightarrow> rows w' = applied v w \<and>
         v' = v\<lparr>uv_insert := number_rows (nextId w) (uv_insert v)\<rparr>
     | (Inl e, w') \<Rightarrow> e = Thrown ''ReserveUpdateManyError'' \<and> (rows w' = rows w \<or> rows w' = applied v w \<or>
         F (dbCalls w' - 3) \<and> F (dbCalls w' - 2)))"
  using assms(2) unfolding updateMany_def
proof (cases rule: transaction_cases)
  case (committed x w1 w2)
  have "rows w1 = rows w" "nextId w1 = nextId w"
    using committed(1) by (auto simp: attempt_Inr no_op_def)
  then have "applied v w1 = applied v w" by (simp add: applied_def)
  with updateMany_body [OF committed(2) assms(1)] committed(3,4) \<open>nextId w1 = nextId w\<close>
  show ?thesis by auto
next
  case (left e w1)
  have "thrown_by_call F (await (attempt F no_op) (\<lambda>_. await (await (if uv_delete v \<noteq> [] then attempt F (delete_rows (map reserveId (uv_delete v))) else ret ())
       (\<lambda>_. await (insert_all F (uv_insert v)) (\<lambda>inserted. await (update_all F (uv_update v))
           (\<lambda>_. ret (v\<lparr>uv_insert := inserted\<rparr>))))) (\<lambda>x. await (attempt F no_op) (\<lambda>_. ret x))))"
    using assms(1) unfolding fresh_rows_def
    by (intro thrown_await thrown_if thrown_statements thrown_insert_all thrown_update_all thrown_basic(1))
  then obtain k where "dbCalls w1 = Suc k" "F k" using left(2) unfolding thrown_by_call_def by blast
  then show ?thesis using left(1,3,5) by simp
qed simp

text \<open>
  C4. The change of the table is all or nothing: when \<open>updateMany\<close> succeeds the rows named for
  deletion are gone, the inserted ones have got the next ids in order, and every named row has its new
  columns; when it throws, whatever call was rejected, the table is as before or, if only the release of
  the connection failed, completely changed. The one exception is that a call was rejected and then, right after it, the
  rollback as well (the last three calls are that call, the rollback and the release); its rejection is only
  logged. Without rejected calls \<open>updateMany\<close> succeeds.
\<close>

theorem updateMany_atomic:
  assumes "fresh_rows v"
  shows "(case updateMany F v w of
       (Inr v', w') \<Rightarrow> rows w' = applied v w \<and>
         v' = v\<lparr>uv_insert := number_rows (nextId w) (uv_insert v)\<rparr>
     | (Inl e, w') \<Rightarrow> e = Thrown ''ReserveUpdateManyError'' \<and> (rows w' = rows w \<or> rows w' = applied v w \<or>
         F (dbCalls w' - 3) \<and> F (dbCalls w' - 2))) \<and>
    ((\<forall>i. \<not> F i) \<longrightarrow> (\<exists>x. fst (updateMany F v w) = Inr x))"
proof -
  obtain r w' where u: "updateMany F v w = (r, w')" by fastforce
  note updateMany_outcome [OF assms u]
  moreover have "\<exists>x. fst (updateMany F v w) = Inr x" if "\<forall>i. \<not> F i"
  proof -
    have "F = (\<lambda>i. False)" using that by auto
    then show ?thesis using updateMany_no_fault [OF assms] unfolding succeeds_def by (metis fst_conv)
  qed
  ultimately show ?thesis using u by simp
qed

theorem updateMany_atomic_witness:
  "rows (snd (updateMany (\<lambda>i. i = 2) ((new_values False)\<lparr>uv_insert := [new_reserve, new_reserve]\<rparr>) empty_world)) = [] \<and>
   length (rows (snd (updateMany (\<lambda>i. False) ((new_values False)\<lparr>uv_insert := [new_reserve, new_reserve]\<rparr>) empty_world))) = 2"
proof -
  let ?v = "(new_values False)\<lparr>uv_insert := [new_reserve, new_reserve]\<rparr>"
  have v: "fresh_rows ?v" by (simp add: fresh_rows_def new_values_def new_reserve_def)
  have a: "applied ?v empty_world = number_rows 1 [new_reserve, new_reserve]"
    by (simp add: applied_def new_values_def empty_world_def replace_all_def)
  have "length (rows (snd (updateMany (\<lambda>i. False) ?v empty_world))) = 2"
    using updateMany_atomic [OF v, where F = "\<lambda>i. False" and w = empty_world] a by (auto split: prod.splits sum.splits)
  moreover have "rows (snd (updateMany (\<lambda>i. i = 2) ?v empty_world)) = []"
    by (simp add: updateMany_def transaction_def rollback_def await_def attempt_def no_op_def ret_def insert_row_def
        empty_world_def new_values_def new_reserve_def Let_def)
  ultimately show ?thesis by blast
qed

subsection \<open>The identifiers of the table\<close>

definition table_ok :: "world \<Rightarrow> bool" where
  "table_ok w \<longleftrightarrow> distinct (map reserveId (rows w)) \<and>
     (\<forall>r \<in> set (rows w). \<exists>i. reserveId r = Some i \<and> i < nextId w)"

lemma replace_all_ids: "map reserveId (replace_all us rs) = map reserveId rs"
proof (induction us arbitrary: rs)
  case (Cons u us)
  have "map reserveId (map (\<lambda>r. if reserveId r = reserveId u then u else r) rs) = map reserveId rs"
    by (induction rs) auto
  with Cons [of "map (\<lambda>r. if reserveId r = reserveId u then u else r) rs"] show ?case
    by (simp add: replace_all_def)
qed (simp add: replace_all_def)

subsection \<open>The ranges of a query\<close>

lemma nat_str_length: "10 ^ k \<le> n \<Longrightarrow> n < 10 ^ Suc k \<Longrightarrow> length (nat_str n) = Suc k"
proof (induction k arbitrary: n)
  case 0
  then show ?case by (simp add: nat_str.simps [of n])
next
  case (Suc k)
  have "(1::nat) \<le> 10 ^ k" by simp
  then have "\<not> n < 10" using Suc.prems(1) unfolding power_Suc by linarith
  moreover have "10 ^ k \<le> n div 10" "n div 10 < 10 ^ Suc k"
    using Suc.prems by (simp_all add: less_eq_div_iff_mult_less_eq div_less_iff_less_mult mult.commute)
  ultimately show ?case using Suc.IH [of "n div 10"] by (simp add: nat_str.simps [of n])
qed

text \<open>A time in milliseconds that has thirteen digits: from September 2001 to the year 2286.\<close>

definition epoch_ms :: "int \<Rightarrow> bool" where
  "epoch_ms t \<longleftrightarrow> 10 ^ 12 \<le> t \<and> t < 10 ^ 13"

lemma epoch_length: "epoch_ms t \<Longrightarrow> length (num_str t) = 13"
proof -
  assume "epoch_ms t"
  then have "10 ^ 12 \<le> nat t" "nat t < 10 ^ Suc 12" "0 \<le> t"
    by (simp_all add: epoch_ms_def le_nat_iff nat_less_iff)
  then show ?thesis using nat_str_length [of 12 "nat t"] by (simp add: num_str_nonneg)
qed

lemma time_key_inj:
  assumes "epoch_ms (fst a)" "epoch_ms (fst b)" "epoch_ms (snd a)" "epoch_ms (snd b)"
  shows "time_key a = time_key b \<longleftrightarrow> a = b"
proof -
  have "time_key a = time_key b \<longleftrightarrow> num_str (fst a) = num_str (fst b) \<and> num_str (snd a) = num_str (snd b)"
    unfolding time_key_def using assms(1,2) by (simp add: epoch_length)
  moreover have "0 \<le> fst a" "0 \<le> fst b" "0 \<le> snd a" "0 \<le> snd b"
    using assms by (auto simp: epoch_ms_def)
  ultimately show ?thesis by (simp add: num_str_inj prod_eq_iff)
qed

definition range_ok :: "time_range \<Rightarrow> bool" where
  "range_ok t \<longleftrightarrow> epoch_ms (fst t) \<and> epoch_ms (snd t) \<and> fst t \<le> snd t"

lemma dedupe_times_set:
  "\<forall>t \<in> set ts \<union> S. range_ok t \<Longrightarrow> set seen = time_key ` S \<Longrightarrow>
   set (dedupe_times seen ts) \<union> S = set ts \<union> S"
proof (induction seen ts arbitrary: S rule: dedupe_times.induct)
  case (2 seen t ts)
  show ?case
  proof (cases "time_key t \<in> set seen")
    case True
    then obtain u where "u \<in> S" "time_key t = time_key u" using "2.prems"(2) by auto
    then have "t = u" using "2.prems"(1) by (simp add: range_ok_def time_key_inj)
    then have "t \<in> S" using \<open>u \<in> S\<close> by simp
    have "set (dedupe_times seen ts) \<union> S = set ts \<union> S"
      using "2.prems" by (intro "2.IH"(1) [OF True]) auto
    then show ?thesis using True \<open>t \<in> S\<close> by auto
  next
    case False
    have "set (dedupe_times (time_key t # seen) ts) \<union> insert t S = set ts \<union> insert t S"
      using "2.prems" by (intro "2.IH"(2) [OF False]) auto
    then show ?thesis using False by auto
  qed
qed simp

lemma touches_join:
  "fst a \<le> snd a \<Longrightarrow> snd a = fst b \<Longrightarrow> fst b \<le> snd b \<Longrightarrow> startAt r \<le> endAt r \<Longrightarrow>
   touches r (fst a, snd b) \<longleftrightarrow> touches r a \<or> touches r b"
  by (auto simp: touches_def)

lemma fold_join_time:
  assumes "startAt r \<le> endAt r" "acc \<noteq> []" "\<forall>t \<in> set acc \<union> set us. fst t \<le> snd t"
  shows "(\<exists>t \<in> set (fold join_time us acc). touches r t) \<longleftrightarrow> (\<exists>t \<in> set acc \<union> set us. touches r t)"
  using assms(2,3)
proof (induction us arbitrary: acc)
  case (Cons u us)
  have acc: "acc = butlast acc @ [last acc]" using Cons.prems(1) by simp
  have l: "last acc \<in> set acc" using Cons.prems(1) by simp
  have set_acc: "set acc = insert (last acc) (set (butlast acc))"
    by (subst acc) simp
  show ?case
  proof (cases "snd (last acc) = fst u")
    case True
    have "fst (last acc) \<le> snd (last acc)" "fst u \<le> snd u" using Cons.prems(2) l by auto
    note j = touches_join [OF this(1) True this(2) assms(1)]
    have ok: "\<forall>t \<in> set (butlast acc @ [(fst (last acc), snd u)]) \<union> set us. fst t \<le> snd t"
    proof -
      have "fst (last acc) \<le> snd (last acc)" "fst u \<le> snd u" using Cons.prems(2) l by auto
      then have "fst (last acc) \<le> snd u" using True by simp
      then show ?thesis using Cons.prems(2) by (auto dest: in_set_butlastD)
    qed
    have "(\<exists>t \<in> set (fold join_time us (join_time u acc)). touches r t) \<longleftrightarrow>
        (\<exists>t \<in> set (butlast acc @ [(fst (last acc), snd u)]) \<union> set us. touches r t)"
    proof -
      have "join_time u acc = butlast acc @ [(fst (last acc), snd u)]"
        using True by (simp add: join_time_def)
      then show ?thesis using Cons.IH [OF _ ok] by simp
    qed
    also have "\<dots> \<longleftrightarrow> (\<exists>t \<in> set acc \<union> set (u # us). touches r t)"
      unfolding set_acc using j by auto
    finally show ?thesis by simp
  next
    case False
    then show ?thesis using Cons.IH [of "acc @ [u]"] Cons.prems by (auto simp: join_time_def)
  qed
qed simp

lemma join_times_touches:
  assumes "startAt r \<le> endAt r" "\<forall>t \<in> set ts. fst t \<le> snd t"
  shows "(\<exists>t \<in> set (join_times ts). touches r t) \<longleftrightarrow> (\<exists>t \<in> set ts. touches r t)"
  using fold_join_time [OF assms(1), of "[hd ts]" "tl ts"] assms(2)
  by (cases ts) (auto simp: join_times_def)

text \<open>
  C10. The preparation of the ranges of \<open>findTimeRanges\<close> - dropping repeated ranges by a string key,
  joining a range that starts where the previous one ends - changes nothing: the query returns, by
  start, exactly the rows that touch one of the ranges asked for and pass the flags, whatever the order
  and the repetition of the ranges.
\<close>

theorem findTimeRanges_exact:
  assumes "\<forall>t \<in> set (fo_times opt). range_ok t" and "\<forall>r \<in> set (rows w). startAt r \<le> endAt r"
    and "findTimeRanges F opt w = (Inr rs, w')"
  shows "rs = sort_key startAt (filter (\<lambda>r. (\<exists>t \<in> set (fo_times opt). touches r t) \<and>
      (isSkip r \<longrightarrow> hasSkip opt) \<and> (isConflict r \<longrightarrow> hasConflict opt) \<and> (isOverlap r \<longrightarrow> hasOverlap opt) \<and>
      (excludeRuleId opt \<noteq> None \<longrightarrow> ruleId r \<noteq> excludeRuleId opt) \<and>
      (excludeReserveId opt \<noteq> None \<longrightarrow> reserveId r \<noteq> excludeReserveId opt)) (rows w)) \<and> rows w' = rows w"
proof (cases "fo_times opt = []")
  case True
  then show ?thesis using assms(3) by (simp add: findTimeRanges_def)
next
  case False
  then obtain qs where q: "query F (range_where opt) w = (Inr qs, w')" "rs = sort_key startAt qs"
    using assms(3) by (auto simp: findTimeRanges_def await_Inr)
  have eq: "set (dedupe_times [] (fo_times opt)) = set (fo_times opt)"
    using dedupe_times_set [of "fo_times opt" "{}" "[]"] assms(1) by simp
  have "range_where opt r \<longleftrightarrow> (\<exists>t \<in> set (fo_times opt). touches r t) \<and>
      (isSkip r \<longrightarrow> hasSkip opt) \<and> (isConflict r \<longrightarrow> hasConflict opt) \<and> (isOverlap r \<longrightarrow> hasOverlap opt) \<and>
      (excludeRuleId opt \<noteq> None \<longrightarrow> ruleId r \<noteq> excludeRuleId opt) \<and>
      (excludeReserveId opt \<noteq> None \<longrightarrow> reserveId r \<noteq> excludeReserveId opt)" if "r \<in> set (rows w)" for r
    using join_times_touches [of r "dedupe_times [] (fo_times opt)"] that assms(1,2) eq
    unfolding range_where_def range_ok_def by (auto split: option.splits)
  then show ?thesis using query_Inr [OF q(1)] q(2) by (auto intro!: arg_cong [of _ _ "sort_key startAt"] filter_cong)
qed

definition range_world :: world where
  "range_world = empty_world\<lparr>rows :=
     [new_reserve\<lparr>reserveId := Some 1, startAt := 1600000000000, endAt := 1600000000100\<rparr>,
      new_reserve\<lparr>reserveId := Some 2, startAt := 1600000000300, endAt := 1600000000400\<rparr>]\<rparr>"

definition range_option :: find_option where
  "range_option = \<lparr>fo_times = [(1600000000050, 1600000000100), (1600000000100, 1600000000200),
      (1600000000050, 1600000000100)],
    hasSkip = True, hasConflict = True, hasOverlap = True, excludeRuleId = None, excludeReserveId = None\<rparr>"

theorem findTimeRanges_exact_witness:
  "\<exists>rs w'. findTimeRanges (\<lambda>i. False) range_option range_world = (Inr rs, w') \<and> map reserveId rs = [Some 1]"
proof -
  have ok: "\<forall>t \<in> set (fo_times range_option). range_ok t"
    "\<forall>r \<in> set (rows range_world). startAt r \<le> endAt r"
    by (simp_all add: range_option_def range_world_def range_ok_def epoch_ms_def)
  have "succeeds (findTimeRanges (\<lambda>i. False) range_option)"
    by (simp add: succeeds_def findTimeRanges_def query_def retry_run_def numeral_eq_Suc on_error_def
        attempt_def select_def await_def ret_def range_option_def)
  then obtain rs w' where q: "findTimeRanges (\<lambda>i. False) range_option range_world = (Inr rs, w')"
    unfolding succeeds_def by blast
  from findTimeRanges_exact [OF ok q] have "map reserveId rs = [Some 1]"
    by (simp add: range_option_def range_world_def touches_def new_reserve_def)
  with q show ?thesis by (intro exI conjI)
qed

end
