(* ===== verification/Rule_Options.thy ===== *)
theory Rule_Options
  imports Reserve_Types
begin

text \<open>
  The rule of the API (\<open>src/api.d.ts\<close>) and the checks of its options in
  \<open>src/src/model/operator/ReserveOptionChecker.ts\<close>. An optional boolean is a \<open>bool option\<close>;
  \<open>!!x\<close> is \<open>truthy\<close>. The configured encode modes are the names of \<open>config.encode\<close>, \<open>None\<close> when
  the section is absent.
\<close>

subsection \<open>Data\<close>

record search_time =
  st_start :: "int option"
  st_range :: "int option"
  week :: int

record genre =
  genre_lv1 :: int
  subGenre :: "int option"

record rule_search_option =
  keyword :: "jstr option"
  ignoreKeyword :: "jstr option"
  keyCS :: "bool option"
  keyRegExp :: "bool option"
  s_name :: "bool option"
  s_description :: "bool option"
  s_extended :: "bool option"
  ignoreKeyCS :: "bool option"
  ignoreKeyRegExp :: "bool option"
  ignoreName :: "bool option"
  ignoreDescription :: "bool option"
  ignoreExtended :: "bool option"
  GR :: "bool option"
  GR_ALT :: "bool option"
  BS :: "bool option"
  CS :: "bool option"
  SKY :: "bool option"
  BS4K :: "bool option"
  channelIds :: "int list option"
  genres :: "genre list option"
  times :: "search_time list option"
  isFree :: "bool option"
  durationMin :: "int option"
  durationMax :: "int option"
  searchPeriods :: "(int \<times> int) list option"

record rule_reserve_option =
  enable :: bool
  ro_allowEndLack :: bool
  ro_removeDataBroadcast :: "bool option"
  avoidDuplicate :: bool
  periodToAvoidDuplicate :: "int option"
  ro_tags :: "int list option"

record add_rule_option =
  isTimeSpecification :: bool
  searchOption :: rule_search_option
  reserveOption :: rule_reserve_option
  saveOption :: "save_option option"
  encodeOption :: "encode_option option"

text \<open>A stored rule with the number of its updates (\<open>RuleWithCnt\<close>).\<close>

record rule = add_rule_option +
  rule_id :: int
  updateCnt :: int

definition truthy :: "bool option \<Rightarrow> bool" where
  "truthy x \<longleftrightarrow> x = Some True"

subsection \<open>Checks\<close>

record keyword_option =
  ko_cs :: bool
  ko_regExp :: bool
  ko_name :: bool
  ko_description :: bool
  ko_extended :: bool

definition checkKeywordOption :: "jstr option \<Rightarrow> keyword_option \<Rightarrow> bool" where
  "checkKeywordOption kw opt =
     (if kw \<noteq> None then
        (if \<not> ko_cs opt \<and> \<not> ko_regExp opt \<and> \<not> ko_name opt \<and> \<not> ko_description opt \<and> \<not> ko_extended opt
         then False
         else if \<not> ko_name opt \<and> \<not> ko_description opt \<and> \<not> ko_extended opt then False
         else True)
      else if ko_cs opt \<or> ko_regExp opt \<or> ko_name opt \<or> ko_description opt \<or> ko_extended opt then False
      else True)"

definition check_time_specified :: "search_time \<Rightarrow> bool" where
  "check_time_specified t = (case (st_start t, st_range t) of
     (Some s, Some r) \<Rightarrow> \<not> (0 > s \<or> 0 \<ge> r) | _ \<Rightarrow> False)"

definition check_genre :: "genre \<Rightarrow> bool" where
  "check_genre g \<longleftrightarrow> 0 \<le> genre_lv1 g \<and> genre_lv1 g \<le> 0xF \<and>
     (case subGenre g of None \<Rightarrow> True | Some s \<Rightarrow> 0 \<le> s \<and> s \<le> 0xF)"

definition check_program_time :: "search_time \<Rightarrow> bool" where
  "check_program_time t =
     (if week t = 0 then False
      else case (st_start t, st_range t) of
        (Some s, Some r) \<Rightarrow>
          if \<not> (0 \<le> s \<and> s \<le> 23) then False
          else if \<not> (1 \<le> r \<and> r \<le> 23) then False else True
      | _ \<Rightarrow> True)"

definition checkSearchOption :: "bool \<Rightarrow> rule_search_option \<Rightarrow> bool" where
  "checkSearchOption timeSpec opt =
     (if timeSpec then
        (if keyword opt = None \<or> channelIds opt = None \<or> times opt = None then False
         else list_all check_time_specified (the (times opt)))
      else if \<not> checkKeywordOption (keyword opt)
            \<lparr>ko_cs = truthy (keyCS opt), ko_regExp = truthy (keyRegExp opt), ko_name = truthy (s_name opt),
             ko_description = truthy (s_description opt), ko_extended = truthy (s_extended opt)\<rparr> \<or>
          \<not> checkKeywordOption (ignoreKeyword opt)
            \<lparr>ko_cs = truthy (ignoreKeyCS opt), ko_regExp = truthy (ignoreKeyRegExp opt),
             ko_name = truthy (ignoreName opt), ko_description = truthy (ignoreDescription opt),
             ko_extended = truthy (ignoreExtended opt)\<rparr> then False
      else if channelIds opt \<noteq> None \<and> (truthy (GR opt) \<or> truthy (BS opt) \<or> truthy (CS opt) \<or>
          truthy (SKY opt) \<or> truthy (BS4K opt)) then False
      else if \<not> (case genres opt of None \<Rightarrow> True | Some gs \<Rightarrow> list_all check_genre gs) then False
      else if \<not> (case times opt of None \<Rightarrow> True | Some ts \<Rightarrow> list_all check_program_time ts) then False
      else if (case durationMin opt of None \<Rightarrow> False | Some d \<Rightarrow> d < 0) then False
      else if (case durationMax opt of None \<Rightarrow> False | Some d \<Rightarrow> d < 0) then False
      else if (case (durationMin opt, durationMax opt) of (Some a, Some b) \<Rightarrow> a > b | _ \<Rightarrow> False) then False
      else True)"

definition checkReserveOption :: "rule_reserve_option \<Rightarrow> bool" where
  "checkReserveOption opt = (if periodToAvoidDuplicate opt \<noteq> None \<and> \<not> avoidDuplicate opt then False else True)"

definition hasEncodeMode :: "jstr list \<Rightarrow> jstr \<Rightarrow> bool" where
  "hasEncodeMode config mode = list_ex (\<lambda>e. e = mode) config"

definition checkEncodeOption :: "jstr list option \<Rightarrow> encode_option option \<Rightarrow> bool" where
  "checkEncodeOption config eopt =
     (case eopt of
        None \<Rightarrow> True
      | Some opt \<Rightarrow>
        (case config of
           None \<Rightarrow> False
         | Some modes \<Rightarrow>
             if (case mode1 opt of None \<Rightarrow> False | Some m \<Rightarrow> \<not> hasEncodeMode modes m) then False
             else if (case mode2 opt of None \<Rightarrow> False | Some m \<Rightarrow> \<not> hasEncodeMode modes m) then False
             else if (case mode3 opt of None \<Rightarrow> False | Some m \<Rightarrow> \<not> hasEncodeMode modes m) then False
             else if mode1 opt = None \<and> directory1 opt \<noteq> None then False
             else if mode2 opt = None \<and> directory2 opt \<noteq> None then False
             else if mode3 opt = None \<and> directory3 opt \<noteq> None then False
             else True))"

definition checkRuleOption :: "jstr list option \<Rightarrow> 'a add_rule_option_scheme \<Rightarrow> bool" where
  "checkRuleOption config r \<longleftrightarrow>
     checkSearchOption (isTimeSpecification r) (searchOption r) \<and>
     checkReserveOption (reserveOption r) \<and> checkEncodeOption config (encodeOption r)"

subsection \<open>What an accepted option guarantees\<close>

text \<open>
  An accepted encode option names only configured modes, gives a directory only together with its
  mode, and is refused altogether when no encoding is configured.
\<close>

theorem checkEncodeOption_accepts:
  "checkEncodeOption config (Some opt) \<longleftrightarrow>
     (\<exists>modes. config = Some modes \<and> set_option (mode1 opt) \<union> set_option (mode2 opt) \<union> set_option (mode3 opt) \<subseteq> set modes \<and>
       (directory1 opt = None \<or> mode1 opt \<noteq> None) \<and> (directory2 opt = None \<or> mode2 opt \<noteq> None) \<and>
       (directory3 opt = None \<or> mode3 opt \<noteq> None))"
  by (cases config; cases "mode1 opt"; cases "mode2 opt"; cases "mode3 opt")
    (auto simp: checkEncodeOption_def hasEncodeMode_def list_ex_iff)

theorem checkEncodeOption_accepts_witness:
  "checkEncodeOption (Some [js ''H.264'', js ''H.265''])
     (Some \<lparr>mode1 = Some (js ''H.265''), eo_parentDirectoryName1 = None, directory1 = Some (js ''enc''), mode2 = None,
        eo_parentDirectoryName2 = None, directory2 = None, mode3 = None, eo_parentDirectoryName3 = None,
        directory3 = None, eo_isDeleteOriginal = True\<rparr>)"
  by (subst checkEncodeOption_accepts) (simp add: js_def)

lemma accepted_times:
  assumes "checkRuleOption config r" "isTimeSpecification r"
  shows "keyword (searchOption r) \<noteq> None" "channelIds (searchOption r) \<noteq> None"
    "\<exists>ts. times (searchOption r) = Some ts \<and>
       (\<forall>t \<in> set ts. \<exists>s g. st_start t = Some s \<and> st_range t = Some g \<and> 0 \<le> s \<and> 0 < g)"
proof -
  show "keyword (searchOption r) \<noteq> None" "channelIds (searchOption r) \<noteq> None"
    using assms by (auto simp: checkRuleOption_def checkSearchOption_def split: if_splits)
  obtain ts where ts: "times (searchOption r) = Some ts" "list_all check_time_specified ts"
    using assms by (auto simp: checkRuleOption_def checkSearchOption_def split: if_splits)
  then show "\<exists>ts. times (searchOption r) = Some ts \<and>
       (\<forall>t \<in> set ts. \<exists>s g. st_start t = Some s \<and> st_range t = Some g \<and> 0 \<le> s \<and> 0 < g)"
    by (fastforce simp: list_all_iff check_time_specified_def split: option.splits)
qed

lemma check_program_time_hours:
  "check_program_time t \<Longrightarrow> week t \<noteq> 0 \<and>
     (\<forall>s g. st_start t = Some s \<and> st_range t = Some g \<longrightarrow> s \<in> {0..23} \<and> g \<in> {1..23})"
  by (cases "st_start t"; cases "st_range t") (simp_all add: check_program_time_def split: if_splits)

text \<open>
  The duration and time conditions of an accepted programme rule can be met: the shortest duration
  is not above the longest, neither is negative, every time has a week day and, where it gives a start
  and a range, both are hours of a day; and a keyword is searched in at least one text.
\<close>

theorem checkSearchOption_satisfiable:
  assumes "checkRuleOption config r" "\<not> isTimeSpecification r"
  shows "(\<forall>a b. durationMin (searchOption r) = Some a \<and> durationMax (searchOption r) = Some b \<longrightarrow> 0 \<le> a \<and> a \<le> b) \<and>
    (\<forall>ts. times (searchOption r) = Some ts \<longrightarrow> (\<forall>t \<in> set ts. week t \<noteq> 0 \<and>
       (\<forall>s g. st_start t = Some s \<and> st_range t = Some g \<longrightarrow> s \<in> {0..23} \<and> g \<in> {1..23}))) \<and>
    (keyword (searchOption r) \<noteq> None \<longleftrightarrow> truthy (s_name (searchOption r)) \<or>
       truthy (s_description (searchOption r)) \<or> truthy (s_extended (searchOption r)))"
proof -
  have c: "checkSearchOption False (searchOption r)" using assms by (simp add: checkRuleOption_def)
  then have k: "checkKeywordOption (keyword (searchOption r))
      \<lparr>ko_cs = truthy (keyCS (searchOption r)), ko_regExp = truthy (keyRegExp (searchOption r)),
       ko_name = truthy (s_name (searchOption r)), ko_description = truthy (s_description (searchOption r)),
       ko_extended = truthy (s_extended (searchOption r))\<rparr>"
    and t: "case times (searchOption r) of None \<Rightarrow> True | Some ts \<Rightarrow> list_all check_program_time ts"
    and d: "\<not> (case durationMin (searchOption r) of None \<Rightarrow> False | Some d \<Rightarrow> d < 0)"
      "\<not> (case (durationMin (searchOption r), durationMax (searchOption r)) of (Some a, Some b) \<Rightarrow> a > b | _ \<Rightarrow> False)"
    unfolding checkSearchOption_def by (simp_all split: if_splits)
  show ?thesis
  proof (intro conjI)
    show "\<forall>a b. durationMin (searchOption r) = Some a \<and> durationMax (searchOption r) = Some b \<longrightarrow> 0 \<le> a \<and> a \<le> b"
      using d by auto
    show "\<forall>ts. times (searchOption r) = Some ts \<longrightarrow> (\<forall>t \<in> set ts. week t \<noteq> 0 \<and>
       (\<forall>s g. st_start t = Some s \<and> st_range t = Some g \<longrightarrow> s \<in> {0..23} \<and> g \<in> {1..23}))"
      using t check_program_time_hours by (fastforce simp: list_all_iff)
    show "keyword (searchOption r) \<noteq> None \<longleftrightarrow> truthy (s_name (searchOption r)) \<or>
       truthy (s_description (searchOption r)) \<or> truthy (s_extended (searchOption r))"
      using k by (auto simp: checkKeywordOption_def split: if_splits)
  qed
qed

definition blank_search :: rule_search_option where
  "blank_search = \<lparr>keyword = None, ignoreKeyword = None, keyCS = None, keyRegExp = None, s_name = None,
     s_description = None, s_extended = None, ignoreKeyCS = None, ignoreKeyRegExp = None, ignoreName = None,
     ignoreDescription = None, ignoreExtended = None, GR = None, GR_ALT = None, BS = None, CS = None,
     SKY = None, BS4K = None, channelIds = None, genres = None, times = None, isFree = None,
     durationMin = None, durationMax = None, searchPeriods = None\<rparr>"

definition demo_rule :: rule where
  "demo_rule = \<lparr>isTimeSpecification = False,
     searchOption = blank_search\<lparr>keyword := Some (js ''news''), s_name := Some True,
       durationMin := Some 60, durationMax := Some 600,
       times := Some [\<lparr>st_start = Some 20, st_range = Some 2, week = 3\<rparr>]\<rparr>,
     reserveOption = \<lparr>enable = True, ro_allowEndLack = True, ro_removeDataBroadcast = None,
       avoidDuplicate = False, periodToAvoidDuplicate = None, ro_tags = None\<rparr>,
     saveOption = None, encodeOption = None, rule_id = 1, updateCnt = 0\<rparr>"

theorem checkSearchOption_satisfiable_witness:
  "checkRuleOption None demo_rule \<and> (keyword (searchOption demo_rule) \<noteq> None \<longleftrightarrow>
     truthy (s_name (searchOption demo_rule)) \<or> truthy (s_description (searchOption demo_rule)) \<or>
     truthy (s_extended (searchOption demo_rule)))"
proof -
  have "checkRuleOption None demo_rule" by code_simp
  moreover have "\<not> isTimeSpecification demo_rule" by code_simp
  ultimately show ?thesis using checkSearchOption_satisfiable [of None demo_rule] by blast
qed

end
