(* ===== verification/Str_Util.thy ===== *)
theory Str_Util
  imports Reserve_Types
begin

text \<open>
  \<open>src/src/util/StrUtil.ts\<close> on strings of UTF-16 code units: the conversions between full width
  and half width, the removal of the marks of the programme guide and the replacement of characters
  that a file name must not hold. \<open>replace\<close> with a global pattern of one character is a map over
  the code units, \<open>replaceAll\<close> a left to right scan.
\<close>

subsection \<open>Definitions\<close>

definition enclosedCharactersConvertTable :: "(jstr \<times> jstr) list" where
  "enclosedCharactersConvertTable =
    [([0xD83C, 0xDD4A], [0x5B, 0x48, 0x56, 0x5D]),
    ([0xD83C, 0xDD3F], [0x5B, 0x50, 0x5D]),
    ([0xD83C, 0xDD4C], [0x5B, 0x53, 0x44, 0x5D]),
    ([0xD83C, 0xDD46], [0x5B, 0x57, 0x5D]),
    ([0xD83C, 0xDD4B], [0x5B, 0x4D, 0x56, 0x5D]),
    ([0xD83C, 0xDE10], [0x5B, 0x624B, 0x5D]),
    ([0xD83C, 0xDE11], [0x5B, 0x5B57, 0x5D]),
    ([0xD83C, 0xDE12], [0x5B, 0x53CC, 0x5D]),
    ([0xD83C, 0xDE13], [0x5B, 0x30C7, 0x5D]),
    ([0xD83C, 0xDD42], [0x5B, 0x53, 0x5D]),
    ([0xD83C, 0xDE14], [0x5B, 0x4E8C, 0x5D]),
    ([0xD83C, 0xDE15], [0x5B, 0x591A, 0x5D]),
    ([0xD83C, 0xDE16], [0x5B, 0x89E3, 0x5D]),
    ([0xD83C, 0xDD4D], [0x5B, 0x53, 0x53, 0x5D]),
    ([0xD83C, 0xDD31], [0x5B, 0x42, 0x5D]),
    ([0xD83C, 0xDD3D], [0x5B, 0x4E, 0x5D]),
    ([0xD83C, 0xDE17], [0x5B, 0x5929, 0x5D]),
    ([0xD83C, 0xDE18], [0x5B, 0x4EA4, 0x5D]),
    ([0xD83C, 0xDE19], [0x5B, 0x6620, 0x5D]),
    ([0xD83C, 0xDE1A], [0x5B, 0x7121, 0x5D]),
    ([0xD83C, 0xDE1B], [0x5B, 0x6599, 0x5D]),
    ([0x26BF], [0x5B, 0x9375, 0x5D]),
    ([0xD83C, 0xDE1C], [0x5B, 0x524D, 0x5D]),
    ([0xD83C, 0xDE1D], [0x5B, 0x5F8C, 0x5D]),
    ([0xD83C, 0xDE1E], [0x5B, 0x518D, 0x5D]),
    ([0xD83C, 0xDE1F], [0x5B, 0x65B0, 0x5D]),
    ([0xD83C, 0xDE20], [0x5B, 0x521D, 0x5D]),
    ([0xD83C, 0xDE21], [0x5B, 0x7D42, 0x5D]),
    ([0xD83C, 0xDE22], [0x5B, 0x751F, 0x5D]),
    ([0xD83C, 0xDE23], [0x5B, 0x8CA9, 0x5D]),
    ([0xD83C, 0xDE24], [0x5B, 0x58F0, 0x5D]),
    ([0xD83C, 0xDE25], [0x5B, 0x5439, 0x5D]),
    ([0xD83C, 0xDD4E], [0x5B, 0x50, 0x50, 0x56, 0x5D]),
    ([0x3299], [0x5B, 0x79D8, 0x5D]),
    ([0xD83C, 0xDE00], [0x5B, 0x307B, 0x304B, 0x5D])]"

definition toDBStr :: "jstr \<Rightarrow> jstr" where
  "toDBStr str = filter (\<lambda>c. c \<noteq> 0) str"

definition replace_char :: "code_unit \<Rightarrow> code_unit \<Rightarrow> jstr \<Rightarrow> jstr" where
  "replace_char a b str = map (\<lambda>c. if c = a then b else c) str"

definition toHalf :: "jstr \<Rightarrow> jstr" where
  "toHalf str =
     (let tmp = map (\<lambda>c. if 0xFF01 \<le> c \<and> c \<le> 0xFF5E then c - 0xFEE0 else c) str
      in replace_char 0x301C 0x7E (replace_char 0x3000 0x20 (replace_char 0xFFE5 0x5C
           (replace_char 0x2018 0x60 (replace_char 0x2019 0x27 (replace_char 0x201D 0x22 tmp))))))"

text \<open>The characters with a meaning in a regular expression: the class
  \<open>[\\^$.|?*+()[\]{}]\<close>.\<close>

definition regexp_char :: "code_unit \<Rightarrow> bool" where
  "regexp_char c \<longleftrightarrow> c \<in> set [0x5C, 0x5E, 0x24, 0x2E, 0x7C, 0x3F, 0x2A, 0x2B, 0x28, 0x29, 0x5B, 0x5D, 0x7B, 0x7D]"

definition full_width :: "code_unit \<Rightarrow> bool" where
  "full_width c \<longleftrightarrow> 0xFF01 \<le> c \<and> c \<le> 0xFF5E \<or>
     c \<in> set [0x201D, 0x2019, 0x2018, 0xFFE5, 0x3000, 0x301C]"

definition toHalfRegExp :: "jstr \<Rightarrow> jstr" where
  "toHalfRegExp str = concat (map (\<lambda>c.
     if full_width c
     then (let half = toHalf [c] in if \<exists>h \<in> set half. regexp_char h then 0x5C # half else half)
     else [c]) str)"

definition toDouble :: "jstr \<Rightarrow> jstr" where
  "toDouble str =
     (let tmp = map (\<lambda>c. if 0x21 \<le> c \<and> c \<le> 0x7E then c + 0xFEE0 else c) (replace_char 0x5C 0xFFE5 str)
      in replace_char 0xFF3D 0x5D (replace_char 0xFF3B 0x5B (replace_char 0x7E 0x301C
           (replace_char 0x20 0x3000 (replace_char 0x60 0x2018 (replace_char 0x27 0x2019
             (replace_char 0x22 0x201D tmp)))))))"

function replaceAll :: "jstr \<Rightarrow> jstr \<Rightarrow> jstr \<Rightarrow> jstr" where
  "replaceAll key val str =
     (if key = [] \<or> str = [] then str
      else if take (length key) str = key then val @ replaceAll key val (drop (length key) str)
      else hd str # replaceAll key val (tl str))"
  by auto
termination
  by (relation "measure (\<lambda>(k, v, s). length s)") auto

declare replaceAll.simps [simp del]

fun includes_str :: "jstr \<Rightarrow> jstr \<Rightarrow> bool" where
  "includes_str [] key = (key = [])"
| "includes_str (c # cs) key = (take (length key) (c # cs) = key \<or> includes_str cs key)"

definition line_terminator :: "code_unit \<Rightarrow> bool" where
  "line_terminator c \<longleftrightarrow> c \<in> set [0x0A, 0x0D, 0x2028, 0x2029]"

text \<open>The rest after the shortest match of \<open>.*?]\<close>, and the removal of every \<open>[.+?]\<close>.\<close>

fun after_bracket :: "jstr \<Rightarrow> jstr option" where
  "after_bracket [] = None"
| "after_bracket (c # cs) =
     (if c = 0x5D then Some cs else if line_terminator c then None else after_bracket cs)"

definition bracket_rest :: "jstr \<Rightarrow> jstr option" where
  "bracket_rest s = (case s of [] \<Rightarrow> None | c # cs \<Rightarrow> if line_terminator c then None else after_bracket cs)"

lemma after_bracket_length: "after_bracket s = Some r \<Longrightarrow> length r < length s"
  by (induction s) (auto split: if_splits)

lemma bracket_rest_length: "bracket_rest s = Some r \<Longrightarrow> length r < length s"
  using after_bracket_length by (fastforce simp: bracket_rest_def split: list.splits if_splits)

function remove_brackets :: "jstr \<Rightarrow> jstr" where
  "remove_brackets [] = []"
| "remove_brackets (c # cs) =
     (if c = 0x5B then (case bracket_rest cs of Some rest \<Rightarrow> remove_brackets rest
        | None \<Rightarrow> c # remove_brackets cs)
      else c # remove_brackets cs)"
  by pat_completeness auto
termination
  by (relation "measure length") (auto dest: bracket_rest_length)

definition deleteBrackets :: "jstr \<Rightarrow> jstr" where
  "deleteBrackets str =
     (let former = (if includes_str str [0xD83C, 0xDE1C] \<or> includes_str str [0x5B, 0x524D, 0x5D]
                    then [0x5B, 0x524D, 0x5D] else []);
          latter = (if includes_str str [0xD83C, 0xDE1D] \<or> includes_str str [0x5B, 0x5F8C, 0x5D]
                    then [0x5B, 0x5F8C, 0x5D] else []);
          str = fold (\<lambda>(key, _). replaceAll key []) enclosedCharactersConvertTable str
      in js_trim (remove_brackets str) @ former @ latter)"

definition replaceDirName :: "jstr \<Rightarrow> jstr" where
  "replaceDirName str =
     replace_char 0x2E 0xFF0E (replace_char 0x7C 0xFF5C (replace_char 0x3E 0xFF1E
       (replace_char 0x3C 0xFF1C (replace_char 0x22 0x201D (replace_char 0x3F 0xFF1F
         (replace_char 0x2A 0xFF0A (replace_char 0x3A 0xFF1A str)))))))"

definition replaceFileName :: "jstr \<Rightarrow> jstr" where
  "replaceFileName str =
     replace_char 0xA5 0xFFE5 (replace_char 0x5C 0xFFE5 (replace_char 0x2F 0xFF0F (replaceDirName str)))"

definition replaceEnclosedCharacters :: "jstr \<Rightarrow> jstr" where
  "replaceEnclosedCharacters str =
     fold (\<lambda>(key, val). replaceAll key val) enclosedCharactersConvertTable str"

text \<open>\<open>split(/\s+/)\<close> without its empty strings.\<close>

fun words_from :: "jstr \<Rightarrow> jstr \<Rightarrow> jstr list" where
  "words_from acc [] = (if acc = [] then [] else [rev acc])"
| "words_from acc (c # cs) =
     (if js_space c then (if acc = [] then [] else [rev acc]) @ words_from [] cs
      else words_from (c # acc) cs)"

subsection \<open>Properties\<close>

text \<open>The conversions of one code unit.\<close>

definition half_unit :: "code_unit \<Rightarrow> code_unit" where
  "half_unit c = (if 0xFF01 \<le> c \<and> c \<le> 0xFF5E then c - 0xFEE0 else if c = 0x201D then 0x22
     else if c = 0x2019 then 0x27 else if c = 0x2018 then 0x60 else if c = 0xFFE5 then 0x5C
     else if c = 0x3000 then 0x20 else if c = 0x301C then 0x7E else c)"

definition printable :: "code_unit \<Rightarrow> bool" where
  "printable c \<longleftrightarrow> 0x20 \<le> c \<and> c \<le> 0x7E"

lemma half_range: "0xFF01 \<le> c \<Longrightarrow> c \<le> 0xFF5E \<Longrightarrow> 0x21 \<le> c - 0xFEE0 \<and> c - 0xFEE0 \<le> 0x7E" for c :: code_unit
  by unat_arith

lemma ascii_small: "c \<le> 0x7E \<Longrightarrow> c < 0x2018" for c :: code_unit
  by unat_arith

lemma replace_char_hit: "replace_char a b [a] = [b]"
  and replace_char_miss: "c \<noteq> a \<Longrightarrow> replace_char a b [c] = [c]"
  by (simp_all add: replace_char_def)

lemma replace_char_small: "x < 0x2018 \<Longrightarrow> 0x2018 \<le> a \<Longrightarrow> replace_char a b [x] = [x]"
  by (auto simp: replace_char_def)

lemma toHalf_unit: "toHalf [c] = [half_unit c]"
proof (cases "0xFF01 \<le> c \<and> c \<le> 0xFF5E")
  case True
  then have "c - 0xFEE0 < 0x2018" using half_range ascii_small by blast
  then show ?thesis using True by (simp add: toHalf_def half_unit_def replace_char_small Let_def)
next
  case False
  then have tmp: "toHalf [c] = replace_char 0x301C 0x7E (replace_char 0x3000 0x20 (replace_char 0xFFE5 0x5C
      (replace_char 0x2018 0x60 (replace_char 0x2019 0x27 (replace_char 0x201D 0x22 [c])))))"
    by (auto simp: toHalf_def)
  consider "c = 0x201D" | "c = 0x2019" | "c = 0x2018" | "c = 0xFFE5" | "c = 0x3000" | "c = 0x301C" |
    (none) "c \<noteq> 0x201D" "c \<noteq> 0x2019" "c \<noteq> 0x2018" "c \<noteq> 0xFFE5" "c \<noteq> 0x3000" "c \<noteq> 0x301C" by blast
  then show ?thesis
  proof cases
    case none
    then have "half_unit c = c" unfolding half_unit_def using False by simp
    then show ?thesis
      unfolding tmp using none by (simp add: replace_char_miss [of c])
  qed (simp_all add: toHalf_def half_unit_def replace_char_hit replace_char_miss)
qed

lemma toHalf_map: "toHalf str = map half_unit str"
proof (induction str)
  case (Cons c cs)
  have "toHalf (c # cs) = toHalf [c] @ toHalf cs"
    by (simp add: toHalf_def replace_char_def)
  then show ?case by (simp add: toHalf_unit Cons)
qed (simp add: toHalf_def replace_char_def)

lemma half_unit_ascii: "c \<le> 0x7E \<Longrightarrow> half_unit c = c"
proof -
  assume "c \<le> 0x7E"
  then have "c < 0x2018" "c < 0xFF01" by unat_arith+
  then show ?thesis by (auto simp: half_unit_def)
qed

lemma half_unit_twice: "half_unit (half_unit c) = half_unit c"
proof (cases "full_width c")
  case True
  then have "half_unit c \<le> 0x7E" using half_range by (auto simp: half_unit_def full_width_def)
  then show ?thesis by (rule half_unit_ascii)
next
  case False
  then have "half_unit c = c" by (auto simp: half_unit_def full_width_def)
  then show ?thesis by simp
qed

lemma toDouble_Cons: "toDouble (c # cs) = toDouble [c] @ toDouble cs"
  by (simp add: toDouble_def replace_char_def)

lemma toDouble_unit: "printable c \<Longrightarrow> toHalf (toDouble [c]) = [c]"
proof -
  assume p: "printable c"
  have eq: "toDouble [c] = replace_char 0xFF3D 0x5D (replace_char 0xFF3B 0x5B (replace_char 0x7E 0x301C
      (replace_char 0x20 0x3000 (replace_char 0x60 0x2018 (replace_char 0x27 0x2019 (replace_char 0x22 0x201D
        (map (\<lambda>c. if 0x21 \<le> c \<and> c \<le> 0x7E then c + 0xFEE0 else c) (replace_char 0x5C 0xFFE5 [c]))))))))"
    by (simp add: toDouble_def Let_def)
  consider "c = 0x5C" | "c = 0x20" | "c = 0x5B" | "c = 0x5D" |
    (other) "c \<noteq> 0x5C" "c \<noteq> 0x20" "c \<noteq> 0x5B" "c \<noteq> 0x5D" by blast
  then show ?thesis
  proof cases
    case other
    have p': "0x20 \<le> c" "c \<le> 0x7E" using p by (simp_all add: printable_def)
    have "0x21 \<le> c" using p'(1) other(2) by unat_arith
    note r = this p'(2)
    have n: "33 \<le> unat c" "unat c \<le> 126" using r by (simp_all add: word_le_nat_alt)
    have u: "unat (c + 0xFEE0) = unat c + 65248"
      using n by (subst unat_add_lem [THEN iffD1]) simp_all
    have big: "0xFF01 \<le> c + 0xFEE0" "c + 0xFEE0 \<le> 0xFF5E" using n u by (simp_all add: word_le_nat_alt)
    have "unat c \<noteq> 91" "unat c \<noteq> 93" using other(3,4) by (auto simp: word_unat_eq_iff)
    then have ne: "c + 0xFEE0 \<noteq> 0xFF3B" "c + 0xFEE0 \<noteq> 0xFF3D" "c + 0xFEE0 \<noteq> 0x7E" "c + 0xFEE0 \<noteq> 0x20"
      "c + 0xFEE0 \<noteq> 0x60" "c + 0xFEE0 \<noteq> 0x27" "c + 0xFEE0 \<noteq> 0x22"
      using n u by (auto simp: word_unat_eq_iff)
    have "toDouble [c] = [c + 0xFEE0]"
      unfolding eq using r other(1) by (simp add: replace_char_miss ne)
    then show ?thesis using big by (simp add: toHalf_unit half_unit_def)
  qed (simp_all add: toDouble_def Let_def replace_char_hit replace_char_miss toHalf_unit half_unit_def)
qed

text \<open>
  C13. The half width conversion undoes the full width conversion on every string of printable ASCII
  characters (although the square brackets stay half width in it and the backslash becomes the full
  width yen sign), and applying it twice is the same as once, on every string.
\<close>

theorem toHalf_toDouble:
  "((\<forall>c \<in> set s. printable c) \<longrightarrow> toHalf (toDouble s) = s) \<and> toHalf (toHalf t) = toHalf t"
proof (intro conjI impI)
  assume "\<forall>c \<in> set s. printable c"
  then show "toHalf (toDouble s) = s"
  proof (induction s)
    case Nil
    then show ?case by (simp add: toHalf_def toDouble_def replace_char_def)
  next
    case (Cons c cs)
    have "toHalf (toDouble (c # cs)) = toHalf (toDouble [c]) @ toHalf (toDouble cs)"
      unfolding toDouble_Cons [of c cs] by (simp add: toHalf_map)
    then show ?case using Cons toDouble_unit [of c] by simp
  qed
next
  show "toHalf (toHalf t) = toHalf t" by (simp add: toHalf_map half_unit_twice)
qed

theorem toHalf_toDouble_witness:
  "toHalf (toDouble (js ''A-b [1]'')) = js ''A-b [1]'' \<and> toDouble (js ''A-b [1]'') \<noteq> js ''A-b [1]''"
proof (rule conjI)
  have "\<forall>c \<in> set (js ''A-b [1]''). printable c" by code_simp
  then show "toHalf (toDouble (js ''A-b [1]'')) = js ''A-b [1]''"
    using toHalf_toDouble [of "js ''A-b [1]''" "[]"] by blast
  show "toDouble (js ''A-b [1]'') \<noteq> js ''A-b [1]''" by code_simp
qed

text \<open>The characters that a file name must not hold.\<close>

definition forbidden_in_name :: "jstr" where
  "forbidden_in_name = [0x3A, 0x2A, 0x3F, 0x22, 0x3C, 0x3E, 0x7C, 0x2E, 0x2F, 0x5C]"

lemma replace_char_gone: "a \<noteq> b \<Longrightarrow> a \<notin> set (replace_char a b s)"
  and replace_char_keeps_away: "c \<notin> set s \<Longrightarrow> c \<noteq> b \<Longrightarrow> c \<notin> set (replace_char a b s)"
  by (auto simp: replace_char_def)

text \<open>
  A name that went through \<open>replaceFileName\<close> keeps its length and holds no separator, no dot and
  none of the other characters reserved in file names; so whatever the programme is called, it names
  one file in the directory and never a path, the directory itself or its parent.
\<close>

theorem replaceFileName_safe:
  "set (replaceFileName s) \<inter> set forbidden_in_name = {} \<and> length (replaceFileName s) = length s"
proof
  have "c \<notin> set (replaceFileName s)" if "c \<in> set forbidden_in_name" for c
  proof -
    have c: "c = 0x3A \<or> c = 0x2A \<or> c = 0x3F \<or> c = 0x22 \<or> c = 0x3C \<or> c = 0x3E \<or> c = 0x7C \<or> c = 0x2E \<or>
        c = 0x2F \<or> c = 0x5C" using that by (simp add: forbidden_in_name_def)
    then show ?thesis
      unfolding replaceFileName_def replaceDirName_def
      by (elim disjE) (simp_all add: replace_char_gone replace_char_keeps_away)
  qed
  then show "set (replaceFileName s) \<inter> set forbidden_in_name = {}" by blast
  show "length (replaceFileName s) = length s"
    by (simp add: replaceFileName_def replaceDirName_def replace_char_def)
qed

end
