(* ===== verification/Sub_Directory.thy ===== *)
theory Sub_Directory
  imports Reserve_Types
begin

text \<open>
  \<open>src/src/util/SubDirectoryUtil.ts\<close> on a POSIX platform: whether the sub directory of a save or
  encode option stays inside the recording root. \<open>normalize\<close> and \<open>parse(..).root\<close> are those of
  \<open>path.posix\<close> of the language's standard library.
\<close>

subsection \<open>Paths\<close>

abbreviation slash :: code_unit where
  "slash \<equiv> 0x2F"

abbreviation dot :: code_unit where
  "dot \<equiv> 0x2E"

text \<open>The segments between the separators.\<close>

fun split_from :: "jstr \<Rightarrow> jstr \<Rightarrow> jstr list" where
  "split_from acc [] = [rev acc]"
| "split_from acc (c # cs) =
     (if c = slash then rev acc # split_from [] cs else split_from (c # acc) cs)"

definition segments :: "jstr \<Rightarrow> jstr list" where
  "segments s = split_from [] s"

text \<open>\<open>normalizeString\<close>: empty segments and \<open>.\<close> vanish, \<open>..\<close> takes back the last segment, or is
  kept at the front when the path is relative. The list is in reverse.\<close>

definition norm_step :: "bool \<Rightarrow> jstr \<Rightarrow> jstr list \<Rightarrow> jstr list" where
  "norm_step allowAboveRoot seg acc =
     (if seg = [] \<or> seg = [dot] then acc
      else if seg = [dot, dot] then
        (case acc of
           [] \<Rightarrow> if allowAboveRoot then [[dot, dot]] else []
         | s # acc' \<Rightarrow> if s = [dot, dot] then (if allowAboveRoot then [dot, dot] # acc else acc) else acc')
      else seg # acc)"

definition normalizeString :: "jstr \<Rightarrow> bool \<Rightarrow> jstr" where
  "normalizeString s allowAboveRoot =
     join_with [slash] (rev (fold (norm_step allowAboveRoot) (segments s) []))"

definition path_normalize :: "jstr \<Rightarrow> jstr" where
  "path_normalize s =
     (if s = [] then [dot]
      else let isAbsolute = (hd s = slash);
               trailing = (last s = slash);
               p = normalizeString s (\<not> isAbsolute);
               q = (if p = [] then (if isAbsolute then [] else [dot]) else p);
               r = (if p = [] \<and> isAbsolute then [] else if trailing then q @ [slash] else q)
           in if isAbsolute then slash # r else r)"

definition path_root :: "jstr \<Rightarrow> jstr" where
  "path_root s = (if s \<noteq> [] \<and> hd s = slash then [slash] else [])"

definition stripLeadingSeparators :: "jstr \<Rightarrow> jstr" where
  "stripLeadingSeparators s = dropWhile (\<lambda>c. c = slash) s"

definition isSubDirectoryInsideRoot :: "jstr \<Rightarrow> bool" where
  "isSubDirectoryInsideRoot subDirectory =
     (if 0 \<in> set subDirectory then False
      else let stripped = stripLeadingSeparators subDirectory
           in if path_root stripped \<noteq> [] then False
              else let normalized = path_normalize stripped
                   in normalized \<noteq> [dot, dot] \<and> take 3 normalized \<noteq> [dot, dot, slash])"

definition hasSubDirectoryOutsideRoot :: "save_option option \<Rightarrow> encode_option option \<Rightarrow> bool" where
  "hasSubDirectoryOutsideRoot saveOption encodeOption =
     list_ex (\<lambda>d. case d of None \<Rightarrow> False | Some s \<Rightarrow> isSubDirectoryInsideRoot s = False)
       [Option.bind saveOption so_directory, Option.bind encodeOption directory1,
        Option.bind encodeOption directory2, Option.bind encodeOption directory3]"

subsection \<open>The walk\<close>

text \<open>The specification: follow the segments from the root of the recordings and never leave it. The
  number is the depth below the root.\<close>

fun stays_inside :: "nat \<Rightarrow> jstr list \<Rightarrow> bool" where
  "stays_inside d [] = True"
| "stays_inside d (s # ss) =
     (if s = [] \<or> s = [dot] then stays_inside d ss
      else if s = [dot, dot] then (case d of 0 \<Rightarrow> False | Suc e \<Rightarrow> stays_inside e ss)
      else stays_inside (Suc d) ss)"

text \<open>A stack of real names keeps being one exactly while the walk stays inside; once \<open>..\<close> is at
  the bottom it stays there.\<close>

definition proper :: "jstr \<Rightarrow> bool" where
  "proper s \<longleftrightarrow> s \<noteq> [] \<and> s \<noteq> [dot] \<and> s \<noteq> [dot, dot] \<and> slash \<notin> set s"

lemma norm_empty: "s = [] \<or> s = [dot] \<Longrightarrow> norm_step b s acc = acc"
  and norm_up_Nil: "norm_step True [dot, dot] [] = [[dot, dot]]"
  and norm_up_back: "s \<noteq> [dot, dot] \<Longrightarrow> norm_step b [dot, dot] (s # acc) = acc"
  and norm_up_front: "norm_step True [dot, dot] ([dot, dot] # acc) = [dot, dot] # [dot, dot] # acc"
  and norm_name: "proper s \<Longrightarrow> norm_step b s acc = s # acc"
  by (auto simp: norm_step_def proper_def)

lemma bottom_stays:
  "acc \<noteq> [] \<Longrightarrow> last acc = [dot, dot] \<Longrightarrow>
   fold (norm_step True) ss acc \<noteq> [] \<and> last (fold (norm_step True) ss acc) = [dot, dot]"
proof (induction ss arbitrary: acc)
  case (Cons s ss)
  have "norm_step True s acc \<noteq> [] \<and> last (norm_step True s acc) = [dot, dot]"
    using Cons.prems by (cases acc) (auto simp: norm_step_def)
  then show ?case using Cons.IH by simp
qed simp

lemma fold_norm:
  assumes "\<forall>s \<in> set ss. slash \<notin> set s" "\<forall>s \<in> set acc. proper s"
  shows "(stays_inside (length acc) ss \<longrightarrow> (\<forall>s \<in> set (fold (norm_step True) ss acc). proper s)) \<and>
    (\<not> stays_inside (length acc) ss \<longrightarrow> fold (norm_step True) ss acc \<noteq> [] \<and>
       last (fold (norm_step True) ss acc) = [dot, dot])"
  using assms
proof (induction ss arbitrary: acc)
  case (Cons s ss)
  consider (empty) "s = [] \<or> s = [dot]" | (up) "s = [dot, dot]" | (name) "proper s"
    using Cons.prems(1) by (auto simp: proper_def)
  then show ?case
  proof cases
    case empty
    then show ?thesis using Cons.IH [of acc] Cons.prems norm_empty [OF empty] by auto
  next
    case up
    show ?thesis
    proof (cases acc)
      case Nil
      then show ?thesis using up bottom_stays [of "[[dot, dot]]" ss] by (simp add: norm_up_Nil)
    next
      case (Cons a acc')
      then have "a \<noteq> [dot, dot]" using Cons.prems(2) by (simp add: proper_def)
      then show ?thesis using up Cons Cons.IH [of acc'] Cons.prems by (simp add: norm_up_back)
    qed
  next
    case name
    have "stays_inside (length acc) (s # ss) = stays_inside (length (s # acc)) ss"
      using name by (auto simp: proper_def)
    then show ?thesis using Cons.IH [of "s # acc"] Cons.prems name norm_name [OF name] by simp
  qed
qed simp

lemma segments_no_slash: "s \<in> set (segments p) \<Longrightarrow> slash \<notin> set s"
proof -
  have "slash \<notin> set acc \<Longrightarrow> s \<in> set (split_from acc p) \<Longrightarrow> slash \<notin> set s" for acc
    by (induction acc p rule: split_from.induct) (auto split: if_splits)
  from this [of "[]"] show "s \<in> set (segments p) \<Longrightarrow> slash \<notin> set s" by (simp add: segments_def)
qed

lemma join_first: "\<exists>t. join_with [slash] (a # xs) = a @ t \<and> (t = [] \<or> hd t = slash)"
  by (cases xs) auto

text \<open>What the test at the end of the check sees of a path whose first segment is \<open>a\<close>.\<close>

lemma first_segment:
  assumes "slash \<notin> set a" "t = [] \<or> hd t = slash"
  shows "(a @ t \<noteq> [dot, dot] \<and> take 3 (a @ t) \<noteq> [dot, dot, slash]) \<longleftrightarrow> a \<noteq> [dot, dot]"
proof -
  have "a = [dot, dot]" if "a @ t = [dot, dot] \<or> take 3 (a @ t) = [dot, dot, slash]"
  proof -
    have "\<exists>u. a @ t = [dot, dot] @ u \<and> (u = [] \<or> hd u = slash)"
      using that
    proof
      assume e: "take 3 (a @ t) = [dot, dot, slash]"
      have "a @ t = take 3 (a @ t) @ drop 3 (a @ t)" by (rule append_take_drop_id [symmetric])
      then have "a @ t = [dot, dot] @ (slash # drop 3 (a @ t))" unfolding e by simp
      then show ?thesis by fastforce
    qed auto
    then obtain u where u: "a @ t = [dot, dot] @ u" "u = [] \<or> hd u = slash" by blast
    show ?thesis
    proof (cases t)
      case Nil
      then show ?thesis using u assms(1) by (cases u) auto
    next
      case (Cons x t')
      then have t: "a @ slash # t' = [dot, dot] @ u" using u assms(2) by simp
      have "slash \<in> set u" using arg_cong [OF t, of "\<lambda>x. slash \<in> set x"] by simp
      then have "u = slash # tl u" using u(2) by (cases u) auto
      with t have "a @ slash # t' = [dot, dot] @ slash # tl u" by simp
      then show ?thesis using split_first [of slash a "[dot, dot]" t' "tl u"] assms(1) by simp
    qed
  qed
  moreover have "\<not> (a @ t \<noteq> [dot, dot] \<and> take 3 (a @ t) \<noteq> [dot, dot, slash])" if "a = [dot, dot]"
    using that assms(2) by (cases t) auto
  ultimately show ?thesis by blast
qed

lemma isSubDirectory_walk:
  "isSubDirectoryInsideRoot s \<longleftrightarrow> 0 \<notin> set s \<and> stays_inside 0 (segments (stripLeadingSeparators s))"
proof -
  let ?p = "stripLeadingSeparators s"
  have rel: "?p = [] \<or> hd ?p \<noteq> slash"
    unfolding stripLeadingSeparators_def using hd_dropWhile [of "\<lambda>c. c = slash" s] by blast
  then have root: "path_root ?p = []" by (auto simp: path_root_def)
  have "(path_normalize ?p \<noteq> [dot, dot] \<and> take 3 (path_normalize ?p) \<noteq> [dot, dot, slash]) \<longleftrightarrow>
      stays_inside 0 (segments ?p)"
  proof (cases "?p = []")
    case True
    then show ?thesis by (simp add: path_normalize_def segments_def)
  next
    case False
    let ?acc = "fold (norm_step True) (segments ?p) []"
    let ?tr = "if last ?p = slash then [slash] else []"
    have n: "path_normalize ?p = (if normalizeString ?p True = [] then [dot] else normalizeString ?p True) @ ?tr"
      using False rel by (simp add: path_normalize_def Let_def)
    have fold: "stays_inside 0 (segments ?p) \<longrightarrow> (\<forall>s \<in> set ?acc. proper s)"
      "\<not> stays_inside 0 (segments ?p) \<longrightarrow> ?acc \<noteq> [] \<and> last ?acc = [dot, dot]"
      using fold_norm [of "segments ?p" "[]"] segments_no_slash by auto
    show ?thesis
    proof (cases "?acc = []")
      case True
      then have "path_normalize ?p = [dot] @ ?tr" unfolding n by (simp add: normalizeString_def)
      then show ?thesis using fold True by (auto simp: numeral_3_eq_3)
    next
      case acc: False
      then obtain a xs where ax: "rev ?acc = a # xs" by (cases "rev ?acc") auto
      then have a: "a = last ?acc" "a \<in> set ?acc"
        by (metis hd_rev list.sel(1)) (metis ax list.set_intros(1) set_rev)
      obtain t where t: "join_with [slash] (a # xs) = a @ t" "t = [] \<or> hd t = slash"
        using join_first by blast
      have "a \<noteq> [] \<and> slash \<notin> set a \<and> (a = [dot, dot] \<longleftrightarrow> \<not> stays_inside 0 (segments ?p))"
        using fold a by (cases "stays_inside 0 (segments ?p)") (auto simp: proper_def)
      moreover from this have "path_normalize ?p = a @ (t @ ?tr)"
        unfolding n normalizeString_def ax t(1) by simp
      moreover have "t @ ?tr = [] \<or> hd (t @ ?tr) = slash" using t(2) by (cases t) auto
      ultimately show ?thesis using first_segment [of a "t @ ?tr"] by metis
    qed
  qed
  then show ?thesis using root by (simp add: isSubDirectoryInsideRoot_def Let_def)
qed

text \<open>
  C8. The check accepts exactly the sub directories whose path, followed segment by segment from the
  recording root, never leaves it, not even on the way, and that hold no NUL: an accepted option can
  not make a recording or an encoded file be written outside the root.
\<close>

theorem isSubDirectoryInsideRoot_walk:
  "isSubDirectoryInsideRoot s \<longleftrightarrow> 0 \<notin> set s \<and> stays_inside 0 (segments (stripLeadingSeparators s))"
  by (rule isSubDirectory_walk)

lemma path_examples:
  "isSubDirectoryInsideRoot (js ''/anime/../a'')" "\<not> isSubDirectoryInsideRoot (js ''a/../../b'')"
  "isSubDirectoryInsideRoot (js ''..a'')"
  by code_simp+

end
