(* ===== verification/Reservation_Manage.thy ===== *)
theory Reservation_Manage
  imports Reserve_Conflict Reserve_Diff Reserve_DB Rule_Options Str_Util Sub_Directory
begin

text \<open>
  The operations of \<open>src/src/model/operator/reservation/ReservationManageModel.ts\<close> as actions on
  the state of \<open>Db_World\<close>. The environment holds what the manager asks other parts for: which calls
  are rejected, the clock, the programmes, channels and rules of the other tables, the tuners, the
  configured encode modes, and the lower case mapping of the language's Unicode tables. An operation
  starts on an idle lock; what several requests do to each other is the subject of \<open>Exec_Lock\<close>.
\<close>

subsection \<open>Environment\<close>

record env =
  fails :: faults
  now :: int
  findProgram :: "int \<Rightarrow> program option"
  findChannel :: "int \<Rightarrow> (jstr \<times> jstr) option"
  findRule :: "int \<Rightarrow> rule option"
  findRulePrograms :: "rule \<Rightarrow> program list"
  findChannelIdAndTime :: "int \<Rightarrow> int \<Rightarrow> program option"
  getRuleIds :: "int list"
  env_tuners :: "tuner list"
  encodeModes :: "jstr list option"
  toLowerCase :: "jstr \<Rightarrow> jstr"
  isSuppressReservesUpdateAllLog :: bool

text \<open>A question to one of the other tables; it may be rejected.\<close>

definition port :: "env \<Rightarrow> 'a \<Rightarrow> 'a act" where
  "port E x = attempt (fails E) (\<lambda>w. (Inr x, w))"

definition emitUpdated :: "update_values \<Rightarrow> unit act" where
  "emitUpdated v = (\<lambda>w. (Inr (), w\<lparr>emitted := emitted w @ [v]\<rparr>))"

text \<open>\<open>getExecution\<close>, the body in \<open>try\<close>, \<open>unLockExecution\<close> in \<open>finally\<close>. A request that is not
  granted at once is modelled up to its time out.\<close>

definition withExecution :: "int \<Rightarrow> 'a act \<Rightarrow> 'a act" where
  "withExecution priority body = (\<lambda>w.
     let (s, ref) = getExecution priority (exec w)
     in case map_of (resolved s) ref of
          None \<Rightarrow> (Inl (Thrown ''GetExecutionTimeoutError''), w\<lparr>exec := expire ref s\<rparr>)
        | Some exeId \<Rightarrow>
            (let (r, w') = body (w\<lparr>exec := s\<rparr>)
             in (r, w'\<lparr>exec := unLockExecution exeId (exec w')\<rparr>)))"

subsection \<open>Columns\<close>

definition normalizeSaveOptionText :: "jstr option \<Rightarrow> jstr option" where
  "normalizeSaveOptionText v = (case v of None \<Rightarrow> None | Some s \<Rightarrow> if js_trim s = [] then None else Some s)"

definition setSaveOptionToReserve :: "save_option option \<Rightarrow> reserve \<Rightarrow> reserve" where
  "setSaveOptionToReserve opt r = (case opt of
     None \<Rightarrow> r\<lparr>parentDirectoryName := None, directory := None, recordedFormat := None\<rparr>
   | Some so \<Rightarrow> r\<lparr>parentDirectoryName := normalizeSaveOptionText (so_parentDirectoryName so),
       directory := normalizeSaveOptionText (so_directory so),
       recordedFormat := normalizeSaveOptionText (so_recordedFormat so)\<rparr>)"

definition setEncodeOptionToReserve :: "encode_option option \<Rightarrow> reserve \<Rightarrow> reserve" where
  "setEncodeOptionToReserve opt r = (case opt of
     None \<Rightarrow> r\<lparr>encodeCols := no_encode\<rparr>
   | Some e \<Rightarrow> r\<lparr>encodeCols := \<lparr>encodeMode1 = mode1 e, encodeParentDirectoryName1 = eo_parentDirectoryName1 e,
       encodeDirectory1 = directory1 e, encodeMode2 = mode2 e,
       encodeParentDirectoryName2 = eo_parentDirectoryName2 e, encodeDirectory2 = directory2 e,
       encodeMode3 = mode3 e, encodeParentDirectoryName3 = eo_parentDirectoryName3 e,
       encodeDirectory3 = directory3 e, isDeleteOriginalAfterEncode = eo_isDeleteOriginal e\<rparr>\<rparr>)"

definition setProgramToReserve :: "program \<Rightarrow> reserve \<Rightarrow> reserve" where
  "setProgramToReserve p r = r\<lparr>programId := Some (p_id p), programUpdateTime := Some (p_updateTime p),
     channelId := p_channelId p, channel := p_channel p, channelType := p_channelType p,
     startAt := p_startAt p, endAt := p_endAt p, name := p_name p, halfWidthName := p_halfWidthName p,
     details := p_details p\<rparr>"

definition setManualReserveOption :: "manual_option \<Rightarrow> reserve \<Rightarrow> reserve" where
  "setManualReserveOption opt r =
     (let r1 = r\<lparr>allowEndLack := mo_allowEndLack opt, removeDataBroadcast := mo_removeDataBroadcast opt\<rparr>;
          r2 = (case mo_tags opt of None \<Rightarrow> r1 | Some ts \<Rightarrow> r1\<lparr>tags := Some (json_numbers ts)\<rparr>);
          r3 = (if mo_saveOption opt \<noteq> None then setSaveOptionToReserve (mo_saveOption opt) r2 else r2)
      in if mo_encodeOption opt \<noteq> None then setEncodeOptionToReserve (mo_encodeOption opt) r3 else r3)"

definition checkManualReserveOption :: "env \<Rightarrow> manual_option \<Rightarrow> bool \<Rightarrow> bool" where
  "checkManualReserveOption E opt isEdit =
     (let isFail = mo_encodeOption opt \<noteq> None \<and> \<not> checkEncodeOption (encodeModes E) (mo_encodeOption opt);
          isFail = (if \<not> isEdit then isFail \<or> (mo_programId opt = None \<and> mo_timeSpecified opt = None)
                    else isFail)
      in \<not> isFail)"

definition isEditableManualReserve :: "reserve \<Rightarrow> bool" where
  "isEditableManualReserve r =
     (let isProgramManual = (ruleId r = None \<and> \<not> isTimeSpecified r \<and> \<not> isEventRelay r \<and> programId r \<noteq> None);
          isTimeManual = (ruleId r = None \<and> isTimeSpecified r \<and> isEventRelay r \<and> programId r = None);
          isManualRelay = (ruleId r = None \<and> \<not> isTimeSpecified r \<and> isEventRelay r \<and> programId r \<noteq> None)
      in isProgramManual \<or> isTimeManual \<or> isManualRelay)"

subsection \<open>New manual reservations\<close>

definition createManualReserveWithProgramId :: "env \<Rightarrow> manual_option \<Rightarrow> reserve act" where
  "createManualReserveWithProgramId E opt = (case mo_programId opt of
     None \<Rightarrow> throw (Thrown ''FailedToCreateManualReserve'')
   | Some p \<Rightarrow>
       await (on_error
           (await (findProgramId (fails E) p) (\<lambda>rs. if rs \<noteq> []
              then throw (Thrown ''ReservationManageModelReservedError'') else ret ()))
           (\<lambda>e. throw (Thrown ''ReservationManageModelCheckReservedProgramError'')))
         (\<lambda>_. await (port E (findProgram E p)) (\<lambda>program. case program of
            None \<Rightarrow> throw (Thrown ''ProgramIsNotFound'')
          | Some pr \<Rightarrow> ret (setManualReserveOption opt
              (setProgramToReserve pr (new_reserve\<lparr>updateTime := now E\<rparr>))))))"

definition createManualReserveWithSpecifiedTime :: "env \<Rightarrow> manual_option \<Rightarrow> reserve act" where
  "createManualReserveWithSpecifiedTime E opt =
     (if mo_programId opt \<noteq> None then throw (Thrown ''TimeSpecifiedOptionIsUndefined'')
      else case mo_timeSpecified opt of
        None \<Rightarrow> throw (Thrown ''TimeSpecifiedOptionIsUndefined'')
      | Some t \<Rightarrow>
        (case ts_name t of
           None \<Rightarrow> throw (Thrown ''NameIsUndefinedError'')
         | Some nm \<Rightarrow>
             if ts_startAt t \<ge> ts_endAt t \<or> ts_endAt t \<le> now E
             then throw (Thrown ''TimeSpecifiedOptionError'')
             else await (findTimeSpecification (fails E) (ts_channelId t) (ts_startAt t) (ts_endAt t))
               (\<lambda>old. case old of
                  Some _ \<Rightarrow> throw (Thrown ''AddReservationConflictError'')
                | None \<Rightarrow>
                    await (on_error (port E (findChannel E (ts_channelId t)))
                       (\<lambda>e. throw (Thrown ''ReservationManageModelFindChannelError'')))
                     (\<lambda>ch. case ch of
                        None \<Rightarrow> throw (Thrown ''eservationManageModelFindChannelIsNotFound'')
                      | Some (physical, ty) \<Rightarrow>
                          ret (setManualReserveOption opt
                            (new_reserve\<lparr>isEventRelay := True, updateTime := now E, isTimeSpecified := True,
                               name := toDBStr nm, halfWidthName := toHalf (toDBStr nm),
                               startAt := ts_startAt t, endAt := ts_endAt t, channelId := ts_channelId t,
                               channel := physical, channelType := ty\<rparr>))))))"

definition createEventRelayReserve :: "env \<Rightarrow> int \<Rightarrow> reserve \<Rightarrow> reserve act" where
  "createEventRelayReserve E p parent =
     await (port E (findProgram E p)) (\<lambda>program. case program of
       None \<Rightarrow> throw (Thrown ''ProgramIsNotFound'')
     | Some pr \<Rightarrow>
         ret ((setProgramToReserve pr (new_reserve\<lparr>isEventRelay := True, updateTime := now E\<rparr>))
           \<lparr>ruleId := ruleId parent, allowEndLack := allowEndLack parent,
            removeDataBroadcast := removeDataBroadcast parent, tags := tags parent,
            parentDirectoryName := parentDirectoryName parent, directory := directory parent,
            recordedFormat := recordedFormat parent, encodeCols := encodeCols parent\<rparr>))"

text \<open>The new reservation is refused when a reservation that is not a stored conflict is in conflict
  in the evaluation together with it; the new one has no id yet.\<close>

definition checkSingleReserveConflict :: "env \<Rightarrow> reserve \<Rightarrow> unit act" where
  "checkSingleReserveConflict E newReserve =
     await (findTimeRanges (fails E)
         \<lparr>fo_times = [(startAt newReserve, endAt newReserve)], hasSkip = False, hasConflict = True,
          hasOverlap = False, excludeRuleId = None, excludeReserveId = None\<rparr>)
       (\<lambda>reserves.
          let storedConflictIds = map reserveId (filter isConflict reserves);
              newReserves = createReserves (env_tuners E) (reserves @ [newReserve])
          in if list_ex (\<lambda>r. isConflict r \<and> reserveId r \<notin> set storedConflictIds) newReserves
             then throw (Thrown ''ReservationManageModelAddReserveConflict'') else ret ())"

definition insert_new :: "env \<Rightarrow> reserve act \<Rightarrow> reserve act" where
  "insert_new E create =
     await create (\<lambda>newReserve. await (checkSingleReserveConflict E newReserve)
       (\<lambda>_. await (on_error (insertOnce (fails E) newReserve)
              (\<lambda>e. throw (Thrown ''ReservationManageModelAddReserveError'')))
         (\<lambda>insertedId. ret (newReserve\<lparr>reserveId := Some insertedId\<rparr>))))"

definition add :: "env \<Rightarrow> manual_option \<Rightarrow> int act" where
  "add E opt =
     (if hasSubDirectoryOutsideRoot (mo_saveOption opt) (mo_encodeOption opt)
      then throw (Thrown ''InvalidSubDirectory'')
      else if \<not> checkManualReserveOption E opt False then throw (Thrown ''AddReservationOptionError'')
      else await (withExecution 1 (insert_new E
             (if mo_programId opt = None then createManualReserveWithSpecifiedTime E opt
              else createManualReserveWithProgramId E opt)))
           (\<lambda>r. await (emitUpdated ((new_values False)\<lparr>uv_insert := [r]\<rparr>)) (\<lambda>_. ret (id_of r))))"

definition addEventRelay :: "env \<Rightarrow> int \<Rightarrow> reserve \<Rightarrow> int option act" where
  "addEventRelay E p parent =
     await (findProgramId (fails E) p) (\<lambda>reserved.
       if reserved \<noteq> [] then ret None
       else await (withExecution 1 (insert_new E (createEventRelayReserve E p parent)))
         (\<lambda>r. await (emitUpdated ((new_values False)\<lparr>uv_insert := [r]\<rparr>)) (\<lambda>_. ret (Some (id_of r)))))"

subsection \<open>Recomputing a range\<close>

definition createDiff :: "env \<Rightarrow> find_option \<Rightarrow> reserve list \<Rightarrow> reserve list \<Rightarrow> bool \<Rightarrow> update_values act" where
  "createDiff E findOption addNewReserves addOldReserves log =
     await (findTimeRanges (fails E) findOption) (\<lambda>baseReserves.
       let newReserves = createReserves (env_tuners E) (addNewReserves @ baseReserves);
           oldReserves = addOldReserves @ baseReserves
       in updateMany (fails E) (createReservesDiff oldReserves newReserves log))"

definition createConflictSweepDiff ::
    "env \<Rightarrow> reserve list \<Rightarrow> reserve list \<Rightarrow> reserve list \<Rightarrow> bool \<Rightarrow> update_values act" where
  "createConflictSweepDiff E oldReserves candidates preserved log =
     (let recalculated = createReserves (env_tuners E) candidates @ preserved
      in updateMany (fails E) (createReservesDiff oldReserves recalculated log))"

definition find_existing :: "env \<Rightarrow> int \<Rightarrow> reserve act" where
  "find_existing E i = await (findId (fails E) i) (\<lambda>r. case r of
     None \<Rightarrow> throw (Thrown ''ReservationIsNotFound'') | Some r \<Rightarrow> ret r)"

text \<open>The end of the operations that may return before they have a change set.\<close>

definition emit_if :: "update_values option \<Rightarrow> unit act" where
  "emit_if d = (case d of None \<Rightarrow> ret () | Some diff \<Rightarrow> emitUpdated diff)"

definition updateReserve_body :: "env \<Rightarrow> int \<Rightarrow> bool \<Rightarrow> update_values option act" where
  "updateReserve_body E i log =
     await (find_existing E i) (\<lambda>oldReserve.
       case programId oldReserve of
         None \<Rightarrow> ret None
       | Some p \<Rightarrow> await (port E (findProgram E p)) (\<lambda>newProgram. case newProgram of
           None \<Rightarrow> ret None
         | Some pr \<Rightarrow>
             if programUpdateTime oldReserve = Some (p_updateTime pr) then ret None
             else let newReserve = (setProgramToReserve pr oldReserve)
                        \<lparr>updateTime := updateTime oldReserve, isConflict := False,
                         isEventRelay := isEventRelay oldReserve\<rparr>
                  in await (createDiff E
                       \<lparr>fo_times = [(startAt oldReserve, endAt oldReserve), (startAt newReserve, endAt newReserve)],
                        hasSkip = False, hasConflict = True, hasOverlap = False,
                        excludeRuleId = None, excludeReserveId = Some i\<rparr>
                       [newReserve] [oldReserve] log) (\<lambda>d. ret (Some d))))"

definition updateReserve :: "env \<Rightarrow> int \<Rightarrow> bool \<Rightarrow> unit act" where
  "updateReserve E i log = await (withExecution 1 (updateReserve_body E i log)) emit_if"

definition cancel_body :: "env \<Rightarrow> int \<Rightarrow> update_values act" where
  "cancel_body E i =
     await (find_existing E i) (\<lambda>cancelReserve.
       let changed = (if isOverlap cancelReserve then cancelReserve\<lparr>isIgnoreOverlap := False, isOverlap := True\<rparr>
                      else cancelReserve\<lparr>isSkip := True\<rparr>)\<lparr>isConflict := False\<rparr>;
           newReserves = (if ruleId cancelReserve \<noteq> None \<and> \<not> isEventRelay cancelReserve then [changed] else [])
       in createDiff E
            \<lparr>fo_times = [(startAt cancelReserve, endAt cancelReserve)], hasSkip = False, hasConflict = True,
             hasOverlap = True, excludeRuleId = None, excludeReserveId = Some i\<rparr>
            newReserves [cancelReserve] False)"

definition cancel :: "env \<Rightarrow> int \<Rightarrow> unit act" where
  "cancel E i = await (withExecution 2 (cancel_body E i)) emitUpdated"

definition removeSkip_body :: "env \<Rightarrow> int \<Rightarrow> update_values option act" where
  "removeSkip_body E i =
     await (find_existing E i) (\<lambda>oldReserve.
       if ruleId oldReserve = None \<or> isEventRelay oldReserve then ret None
       else if \<not> isSkip oldReserve then ret None
       else await (case programId oldReserve of
                None \<Rightarrow> ret []
              | Some p \<Rightarrow> await (findProgramId (fails E) p) (\<lambda>same.
                  ret (filter (\<lambda>r. reserveId r \<noteq> Some i \<and> ruleId r \<noteq> None \<and> \<not> isEventRelay r \<and> isSkip r) same)))
            (\<lambda>others. await (createDiff E
               \<lparr>fo_times = [(startAt oldReserve, endAt oldReserve)], hasSkip = False, hasConflict = True,
                hasOverlap = False, excludeRuleId = None, excludeReserveId = Some i\<rparr>
               (map (\<lambda>r. r\<lparr>isSkip := False\<rparr>) (oldReserve # others)) (oldReserve # others) False)
              (\<lambda>d. ret (Some d))))"

definition removeSkip :: "env \<Rightarrow> int \<Rightarrow> unit act" where
  "removeSkip E i = await (withExecution 2 (removeSkip_body E i)) emit_if"

definition removeOverlap_body :: "env \<Rightarrow> int \<Rightarrow> update_values option act" where
  "removeOverlap_body E i =
     await (find_existing E i) (\<lambda>oldReserve.
       if ruleId oldReserve = None \<or> isEventRelay oldReserve then ret None
       else if isIgnoreOverlap oldReserve \<and> \<not> isOverlap oldReserve then ret None
       else await (createDiff E
               \<lparr>fo_times = [(startAt oldReserve, endAt oldReserve)], hasSkip = False, hasConflict = True,
                hasOverlap = False, excludeRuleId = None, excludeReserveId = Some i\<rparr>
               [oldReserve\<lparr>isIgnoreOverlap := True, isOverlap := False\<rparr>] [oldReserve] False)
              (\<lambda>d. ret (Some d)))"

definition removeOverlap :: "env \<Rightarrow> int \<Rightarrow> unit act" where
  "removeOverlap E i = await (withExecution 2 (removeOverlap_body E i)) emit_if"

definition edit_body :: "env \<Rightarrow> int \<Rightarrow> manual_option \<Rightarrow> reserve act" where
  "edit_body E i opt =
     await (find_existing E i) (\<lambda>r.
             if \<not> isEditableManualReserve r then throw (Thrown ''ReservationIsNotEditable'')
             else let r1 = r\<lparr>updateTime := now E, allowEndLack := mo_allowEndLack opt,
                             removeDataBroadcast := mo_removeDataBroadcast opt\<rparr>;
                      r2 = (case mo_tags opt of None \<Rightarrow> r1 | Some ts \<Rightarrow> r1\<lparr>tags := Some (json_numbers ts)\<rparr>);
                      r3 = setEncodeOptionToReserve (mo_encodeOption opt)
                             (setSaveOptionToReserve (mo_saveOption opt) r2)
                  in await (updateOnce (fails E) r3) (\<lambda>_. ret r3))"

definition edit :: "env \<Rightarrow> int \<Rightarrow> manual_option \<Rightarrow> unit act" where
  "edit E i opt =
     (if hasSubDirectoryOutsideRoot (mo_saveOption opt) (mo_encodeOption opt)
      then throw (Thrown ''InvalidSubDirectory'')
      else if \<not> checkManualReserveOption E opt True then throw (Thrown ''ReservationEditError'')
      else await (withExecution 2 (edit_body E i opt))
        (\<lambda>r. emitUpdated ((new_values False)\<lparr>uv_update := [r]\<rparr>)))"

subsection \<open>Rules\<close>

definition setProgramToRuleReserve :: "program option \<Rightarrow> rule \<Rightarrow> int \<Rightarrow> reserve \<Rightarrow> reserve" where
  "setProgramToRuleReserve prog ru t r =
     (let r1 = r\<lparr>ruleId := Some (rule_id ru), ruleUpdateCnt := Some (updateCnt ru), updateTime := t,
            allowEndLack := ro_allowEndLack (reserveOption ru),
            removeDataBroadcast := truthy (ro_removeDataBroadcast (reserveOption ru))\<rparr>;
          r2 = (case ro_tags (reserveOption ru) of None \<Rightarrow> r1 | Some ts \<Rightarrow> r1\<lparr>tags := Some (json_numbers ts)\<rparr>);
          r3 = (case prog of None \<Rightarrow> r2 | Some p \<Rightarrow> setProgramToReserve p (r2\<lparr>isOverlap := overlap p\<rparr>));
          r4 = (if saveOption ru \<noteq> None then setSaveOptionToReserve (saveOption ru) r3 else r3)
      in if encodeOption ru \<noteq> None then setEncodeOptionToReserve (encodeOption ru) r4 else r4)"

text \<open>Days of the Japanese calendar in milliseconds; day 0 was a Thursday.\<close>

definition day_ms :: int where "day_ms = 86400000"
definition ja_offset :: int where "ja_offset = 32400000"

definition ja_midnight :: "int \<Rightarrow> int" where
  "ja_midnight t = (t + ja_offset) div day_ms * day_ms - ja_offset"

definition ja_weekday :: "int \<Rightarrow> nat" where
  "ja_weekday t = nat (((t + ja_offset) div day_ms + 4) mod 7)"

text \<open>The ranges of one search time in the next eight days.\<close>

definition day_range :: "int \<Rightarrow> int \<Rightarrow> int \<Rightarrow> nat \<Rightarrow> time_range" where
  "day_range baseTime start rng i =
     (baseTime + day_ms * int i + start * 1000, baseTime + day_ms * int i + (start + rng) * 1000)"

fun rule_times :: "int \<Rightarrow> search_time list \<Rightarrow> time_range list act" where
  "rule_times t [] = ret []"
| "rule_times t (st # sts) =
     (case (st_start st, st_range st) of
        (Some start, Some rng) \<Rightarrow>
          await (rule_times t sts) (\<lambda>rest.
            ret (filter (\<lambda>(s, e). \<not> (e < t \<or> \<not> bit (week st) (ja_weekday s)))
                   (map (day_range (ja_midnight t) start rng) [0..<8]) @ rest))
      | _ \<Rightarrow> throw (Thrown ''RuleSearchTimesOptionError''))"

definition normalize_name :: "env \<Rightarrow> jstr \<Rightarrow> jstr" where
  "normalize_name E s = toLowerCase E (deleteBrackets (toHalf s))"

definition isTimeSpecificationRuleMatched :: "env \<Rightarrow> rule \<Rightarrow> int \<Rightarrow> int \<Rightarrow> bool act" where
  "isTimeSpecificationRuleMatched E ru ch s =
     (case keyword (searchOption ru) of
        None \<Rightarrow> ret True
      | Some kw \<Rightarrow>
          if kw = [] then ret True
          else await (on_error (port E (findChannelIdAndTime E ch s)) (\<lambda>e. ret None))
            (\<lambda>program. case program of
               None \<Rightarrow> ret True
             | Some p \<Rightarrow> ret (list_all (includes_str (normalize_name E (p_name p)))
                 (words_from [] (normalize_name E kw)))))"

text \<open>The old reservations of the rule by key; a later one takes the place of an earlier one.\<close>

definition old_rule_index :: "reserve list \<Rightarrow> reserve \<Rightarrow> reserve option" where
  "old_rule_index olds r = map_of (rev (map (\<lambda>q. (createReserveKey q, q)) olds)) (createReserveKey r)"

definition time_rule_reserve :: "rule \<Rightarrow> int \<Rightarrow> int \<Rightarrow> jstr \<times> jstr \<Rightarrow> reserve list \<Rightarrow> time_range \<Rightarrow> reserve" where
  "time_rule_reserve ru t ch info olds time =
     (let nm = toDBStr (case keyword (searchOption ru) of None \<Rightarrow> [] | Some k \<Rightarrow> k);
          r = setProgramToRuleReserve None ru t
                (new_reserve\<lparr>isTimeSpecified := True, name := nm, halfWidthName := toHalf nm,
                   updateTime := t, startAt := fst time, endAt := snd time, channelId := ch,
                   channel := fst info, channelType := snd info\<rparr>)
      in case old_rule_index olds r of
           None \<Rightarrow> r
         | Some q \<Rightarrow> r\<lparr>isSkip := isSkip q, isIgnoreOverlap := isIgnoreOverlap q, isOverlap := isOverlap q\<rparr>)"

fun times_of_channel :: "env \<Rightarrow> rule \<Rightarrow> int \<Rightarrow> int \<Rightarrow> jstr \<times> jstr \<Rightarrow> reserve list \<Rightarrow> time_range list \<Rightarrow>
    reserve list act" where
  "times_of_channel E ru t ch info olds [] = ret []"
| "times_of_channel E ru t ch info olds (time # ts) =
     await (isTimeSpecificationRuleMatched E ru ch (fst time)) (\<lambda>matched.
       await (times_of_channel E ru t ch info olds ts) (\<lambda>rest.
         ret (if matched then time_rule_reserve ru t ch info olds time # rest else rest)))"

fun time_rule_reserves :: "env \<Rightarrow> rule \<Rightarrow> int \<Rightarrow> reserve list \<Rightarrow> time_range list \<Rightarrow> int list \<Rightarrow>
    reserve list act" where
  "time_rule_reserves E ru t olds ts [] = ret []"
| "time_rule_reserves E ru t olds ts (ch # chs) =
     await (on_error (port E (findChannel E ch)) (\<lambda>e. ret None)) (\<lambda>info.
       await (case info of None \<Rightarrow> ret [] | Some i \<Rightarrow> times_of_channel E ru t ch i olds ts) (\<lambda>rs.
         await (time_rule_reserves E ru t olds ts chs) (\<lambda>rest. ret (rs @ rest))))"

definition program_rule_reserve :: "rule \<Rightarrow> int \<Rightarrow> reserve list \<Rightarrow> program \<Rightarrow> reserve" where
  "program_rule_reserve ru t olds p =
     (let r = setProgramToRuleReserve (Some p) ru t new_reserve
      in case old_rule_index olds r of
           None \<Rightarrow> r
         | Some q \<Rightarrow> r\<lparr>isSkip := isSkip q, isIgnoreOverlap := isIgnoreOverlap q,
             isOverlap := (if isIgnoreOverlap q then isOverlap q else overlap p)\<rparr>)"

text \<open>The new reservations of the rule and their ranges.\<close>

definition new_rule_reserves :: "env \<Rightarrow> rule option \<Rightarrow> program list \<Rightarrow> reserve list \<Rightarrow>
    (reserve list \<times> time_range list) act" where
  "new_rule_reserves E rule newRulePrograms olds =
     (case rule of
        None \<Rightarrow> ret ([], [])
      | Some ru \<Rightarrow>
        if \<not> enable (reserveOption ru) then ret ([], [])
        else if isTimeSpecification ru then
          (case (keyword (searchOption ru), channelIds (searchOption ru), times (searchOption ru)) of
             (Some _, Some chs, Some sts) \<Rightarrow>
               await (rule_times (now E) sts) (\<lambda>ts.
                 await (time_rule_reserves E ru (now E) olds ts chs) (\<lambda>rs. ret (rs, ts)))
           | _ \<Rightarrow> throw (Thrown ''RuleSearchOptionError''))
        else ret (map (program_rule_reserve ru (now E) olds) newRulePrograms,
               map (\<lambda>p. (p_startAt p, p_endAt p)) newRulePrograms))"

definition updateRule_body :: "env \<Rightarrow> int \<Rightarrow> bool \<Rightarrow> bool \<Rightarrow> update_values act" where
  "updateRule_body E i log isFirstUpdate =
       await (port E (findRule E i)) (\<lambda>rule.
        await (findRuleId (fails E) \<lparr>fr_ruleId = i, fr_hasSkip = True, fr_hasConflict = True,
                 fr_hasOverlap = True, fr_hasEventRelay = False\<rparr>) (\<lambda>oldRuleReserves.
        await (case rule of
                 None \<Rightarrow> ret []
               | Some ru \<Rightarrow> if enable (reserveOption ru) \<and> \<not> isTimeSpecification ru
                   then port E (findRulePrograms E ru) else ret []) (\<lambda>newRulePrograms.
        await (new_rule_reserves E rule newRulePrograms oldRuleReserves) (\<lambda>(newRuleReserves, ts).
        let allTimes = ts @ map (\<lambda>r. (startAt r, endAt r)) oldRuleReserves;
            olds = (if isFirstUpdate \<and> (case rule of None \<Rightarrow> False | Some ru \<Rightarrow> isTimeSpecification ru)
                    then map (\<lambda>r. r\<lparr>ruleUpdateCnt := Some (-1)\<rparr>) oldRuleReserves else oldRuleReserves)
        in createDiff E
             \<lparr>fo_times = allTimes, hasSkip = True, hasConflict = True, hasOverlap = True,
              excludeRuleId = Some i, excludeReserveId = None\<rparr>
             newRuleReserves olds log))))"

definition updateRule :: "env \<Rightarrow> int \<Rightarrow> bool \<Rightarrow> bool \<Rightarrow> unit act" where
  "updateRule E i log isFirstUpdate = await (withExecution 1 (updateRule_body E i log isFirstUpdate)) emitUpdated"

subsection \<open>All reservations\<close>

text \<open>The loops over the ids: an error of one is logged and the next is taken.\<close>

fun for_each :: "('a \<Rightarrow> unit act) \<Rightarrow> 'a list \<Rightarrow> unit act" where
  "for_each f [] = ret ()"
| "for_each f (x # xs) = await (on_error (f x) (\<lambda>e. ret ())) (\<lambda>_. for_each f xs)"

definition sweep_all :: "env \<Rightarrow> bool \<Rightarrow> bool \<Rightarrow> update_values act" where
  "sweep_all E log isFirstUpdate =
     await (findLists (fails E) None) (\<lambda>reserves.
       let candidates = filter (\<lambda>r. \<not> isSkip r \<and> \<not> isOverlap r) reserves;
           preserved = filter (\<lambda>r. isSkip r \<or> isOverlap r) reserves
       in await (createConflictSweepDiff E reserves candidates preserved log) (\<lambda>diff.
            if isFirstUpdate
            then await (findLists (fails E) None) (\<lambda>candidateSnapshot.
                   ret (diff\<lparr>uv_update := candidateSnapshot, isStartupRebuild := True\<rparr>))
            else ret diff))"

definition updateAll :: "env \<Rightarrow> bool \<Rightarrow> unit act" where
  "updateAll E isFirstUpdate =
     (let log = isSuppressReservesUpdateAllLog E
      in await (getManualIds (fails E) False) (\<lambda>manualIds.
         await (getRuleEventRelayIds (fails E)) (\<lambda>ruleEventRelayIds.
         await (port E (getRuleIds E)) (\<lambda>ruleIds.
         await (for_each (\<lambda>i. updateReserve E i log) manualIds) (\<lambda>_.
         await (for_each (\<lambda>i. updateReserve E i log) ruleEventRelayIds) (\<lambda>_.
         await (for_each (\<lambda>i. updateRule E i log isFirstUpdate) ruleIds) (\<lambda>_.
         await (withExecution 1 (sweep_all E log isFirstUpdate)) emitUpdated)))))))"

subsection \<open>Old reservations\<close>

text \<open>The iteration over the map of pending ranges, which grows while it runs: the entries still to
  be visited, the ids of all entries so far and the survivors found. The first argument is fuel.\<close>

fun cleanup_loop :: "nat \<Rightarrow> env \<Rightarrow> time_range list \<Rightarrow> int option list \<Rightarrow> reserve list \<Rightarrow> reserve list act" where
  "cleanup_loop n E [] ids survivors = ret survivors"
| "cleanup_loop 0 E (rng # todo) ids survivors = throw (Thrown ''out of fuel'')"
| "cleanup_loop (Suc n) E (rng # todo) ids survivors =
     await (findTimeRanges (fails E)
         \<lparr>fo_times = [rng], hasSkip = False, hasConflict = True, hasOverlap = False,
          excludeRuleId = None, excludeReserveId = None\<rparr>)
       (\<lambda>candidates.
          let fresh = filter (\<lambda>c. reserveId c \<notin> set ids) candidates
          in cleanup_loop n E (todo @ map (\<lambda>c. (startAt c, endAt c)) fresh)
               (ids @ map reserveId fresh) (survivors @ fresh))"

definition cleanup_body :: "env \<Rightarrow> update_values act" where
  "cleanup_body E =
     await (findOldTime (fails E) (now E)) (\<lambda>deleteReserves. (\<lambda>w.
       await (cleanup_loop (length (rows w)) E (map (\<lambda>r. (startAt r, endAt r)) deleteReserves)
                (map reserveId deleteReserves) [])
         (\<lambda>survivorValues. createConflictSweepDiff E (deleteReserves @ survivorValues) survivorValues [] False)
         w))"

definition cleanup :: "env \<Rightarrow> unit act" where
  "cleanup E = await (withExecution 2 (cleanup_body E)) emitUpdated"

end
