(* ===== verification/Reservation_Laws.thy ===== *)
theory Reservation_Laws
  imports Reservation_Manage
begin

text \<open>
  What the operations of the reservation manager promise: the execution lock is free again whatever
  happens, a failed operation announces nothing, and what a successful one has done to the table.
\<close>

subsection \<open>The bodies touch neither the listeners nor the lock\<close>

lemma reads_port [reads_intro]: "reads (port E x)"
proof -
  have "reads (\<lambda>w. (Inr x, w))" by (simp add: reads_def quiet_def)
  then show ?thesis unfolding port_def by (rule reads_attempt)
qed

lemmas quiet_port [quiet_intro] = reads_port [THEN reads_quiet]

lemma quiet_let [quiet_intro]: "quiet (f x) \<Longrightarrow> quiet (let y = x in f y)"
  and reads_let [reads_intro]: "reads (f x) \<Longrightarrow> reads (let y = x in f y)"
  by simp_all

lemma quiet_prod [quiet_intro]: "(\<And>a b. quiet (f a b)) \<Longrightarrow> quiet (case p of (a, b) \<Rightarrow> f a b)"
  and reads_prod [reads_intro]: "(\<And>a b. reads (f a b)) \<Longrightarrow> reads (case p of (a, b) \<Rightarrow> f a b)"
  by (cases p; simp)+

lemma reads_find_existing [reads_intro]: "reads (find_existing E i)"
  unfolding find_existing_def by (intro reads_intro)

lemmas quiet_find_existing [quiet_intro] = reads_find_existing [THEN reads_quiet]

lemma reads_checkSingle [reads_intro]: "reads (checkSingleReserveConflict E r)"
  unfolding checkSingleReserveConflict_def by (intro reads_intro)

lemma reads_create [reads_intro]:
  "reads (createManualReserveWithProgramId E opt)" "reads (createManualReserveWithSpecifiedTime E opt)"
  "reads (createEventRelayReserve E p parent)"
  unfolding createManualReserveWithProgramId_def createManualReserveWithSpecifiedTime_def
    createEventRelayReserve_def
  by (intro reads_intro)+

lemma quiet_insert_new [quiet_intro]: "reads create \<Longrightarrow> quiet (insert_new E create)"
  unfolding insert_new_def by (intro quiet_intro reads_checkSingle [THEN reads_quiet] | erule reads_quiet)+

lemma quiet_createDiff [quiet_intro]: "quiet (createDiff E fo an ao log)"
  unfolding createDiff_def by (intro quiet_intro)

lemma quiet_sweep [quiet_intro]: "quiet (createConflictSweepDiff E old cand pres log)"
  unfolding createConflictSweepDiff_def by (intro quiet_intro)

lemma reads_rule_times [reads_intro]: "reads (rule_times t sts)"
  by (induction sts) (auto intro!: reads_intro split: option.splits)

lemma reads_matched [reads_intro]: "reads (isTimeSpecificationRuleMatched E ru ch s)"
  unfolding isTimeSpecificationRuleMatched_def by (intro reads_intro)

lemma reads_times_of_channel [reads_intro]: "reads (times_of_channel E ru t ch info olds ts)"
  by (induction ts) (auto intro!: reads_intro)

lemma reads_time_rule_reserves [reads_intro]: "reads (time_rule_reserves E ru t olds ts chs)"
  by (induction chs) (auto intro!: reads_intro split: option.splits)

lemma reads_new_rule_reserves [reads_intro]: "reads (new_rule_reserves E ru ps olds)"
  unfolding new_rule_reserves_def by (intro reads_intro)

lemmas quiet_new_rule_reserves [quiet_intro] = reads_new_rule_reserves [THEN reads_quiet]

lemma reads_cleanup_loop [reads_intro]: "reads (cleanup_loop n E todo ids survivors)"
proof (induction n E todo ids survivors rule: cleanup_loop.induct)
  case (3 n E r todo ids survivors)
  then show ?case by (simp add: Let_def) (intro reads_intro, blast)
qed (auto intro: reads_intro)

lemma quiet_bodies [quiet_intro]:
  "quiet (updateReserve_body E i log)" "quiet (cancel_body E i)" "quiet (removeSkip_body E i)"
  "quiet (removeOverlap_body E i)" "quiet (edit_body E i opt)" "quiet (updateRule_body E i log first)"
  "quiet (sweep_all E log first)"
  unfolding updateReserve_body_def cancel_body_def removeSkip_body_def removeOverlap_body_def
    edit_body_def updateRule_body_def sweep_all_def
  by (intro quiet_intro)+

lemma quiet_cleanup_body [quiet_intro]: "quiet (cleanup_body E)"
proof -
  have run: "quiet (\<lambda>w. await (cleanup_loop (length (rows w)) E todo ids []) (k :: reserve list \<Rightarrow> update_values act) w)"
    if "\<And>x. quiet (k x)" for todo ids k
  proof -
    have "quiet (await (cleanup_loop n E todo ids []) k)" for n
      using that by (intro quiet_intro reads_cleanup_loop [THEN reads_quiet])
    then show ?thesis by (simp add: quiet_def)
  qed
  show ?thesis unfolding cleanup_body_def by (intro quiet_intro run)
qed

subsection \<open>Operations under the lock\<close>

definition idle :: "world \<Rightarrow> bool" where
  "idle w \<longleftrightarrow> exec_inv (exec w) \<and> lockId (exec w) = None"

lemma granted_at_once:
  assumes "idle w"
  obtains s i where "getExecution p (exec w) = (s, nextRef (exec w))" "map_of (resolved s) (nextRef (exec w)) = Some i"
    "exec_inv (unLockExecution i s)" "lockId (unLockExecution i s) = None"
proof -
  let ?s = "fst (getExecution p (exec w))"
  have inv: "exec_inv (exec w)" "lockId (exec w) = None" using assms by (simp_all add: idle_def)
  obtain i where i: "lockId ?s = Some i" "(nextRef (exec w), i) \<in> set (resolved ?s)"
    using getExecution_idle [OF inv] by blast
  have "distinct (map fst (resolved ?s))"
    using getExecution_inv [OF inv(1), of p] by (simp add: exec_inv_def core_inv_def settled_ok_def)
  then have "map_of (resolved ?s) (nextRef (exec w)) = Some i" using i(2) by simp
  moreover have "snd (getExecution p (exec w)) = nextRef (exec w)"
    by (simp add: getExecution_def createEntry_def Let_def split: prod.split)
  ultimately show ?thesis
    using that exec.bracket_idle [OF inv i(1)] by (metis prod.collapse)
qed

definition keeps_idle :: "'a act \<Rightarrow> bool" where
  "keeps_idle m \<longleftrightarrow> (\<forall>w. idle w \<longrightarrow> idle (snd (m w)))"

definition silent_failure :: "'a act \<Rightarrow> world \<Rightarrow> bool" where
  "silent_failure m w \<longleftrightarrow> (case fst (m w) of Inl e \<Rightarrow> emitted (snd (m w)) = emitted w | Inr x \<Rightarrow> True)"

lemma silent_failureI: "(\<And>e w'. m w = (Inl e, w') \<Longrightarrow> emitted w' = emitted w) \<Longrightarrow> silent_failure m w"
  by (cases "m w") (auto simp: silent_failure_def split: sum.split)

text \<open>The contract of an operation: a body that leaves the listeners and the lock alone, run under the
  lock, and a last step outside it that announces the outcome and can not fail.\<close>

locale locked_operation =
  fixes priority :: int
    and body :: "'a act"
    and finish :: "'a \<Rightarrow> 'b act"
  assumes quiet_body: "quiet body"
    and finish_ok: "\<exists>y. fst (finish x w) = Inr y"
    and finish_lock: "exec (snd (finish x w)) = exec w"
    and finish_rows: "rows (snd (finish x w)) = rows w"
begin

lemma under_lock:
  assumes "idle w"
  shows "\<exists>s i r w'. body (w\<lparr>exec := s\<rparr>) = (r, w') \<and> exec w' = s \<and>
    withExecution priority body w = (r, w'\<lparr>exec := unLockExecution i s\<rparr>) \<and>
    idle (w'\<lparr>exec := unLockExecution i s\<rparr>)"
proof -
  obtain s i where g: "getExecution priority (exec w) = (s, nextRef (exec w))"
    "map_of (resolved s) (nextRef (exec w)) = Some i"
    "exec_inv (unLockExecution i s)" "lockId (unLockExecution i s) = None"
    using granted_at_once [OF assms] .
  obtain r w' where b: "body (w\<lparr>exec := s\<rparr>) = (r, w')" by fastforce
  have "exec w' = s" using quietD [OF quiet_body b] by simp
  then show ?thesis using g b by (intro exI [of _ s] exI [of _ i] exI [of _ r] exI [of _ w'])
      (simp add: withExecution_def idle_def)
qed

lemma lock_free:
  assumes "idle w"
  shows "idle (snd (await (withExecution priority body) finish w))"
proof -
  obtain s i r w' where u: "withExecution priority body w = (r, w'\<lparr>exec := unLockExecution i s\<rparr>)"
    "idle (w'\<lparr>exec := unLockExecution i s\<rparr>)" using under_lock [OF assms] by blast
  show ?thesis
  proof (cases r)
    case (Inl e)
    then show ?thesis using u by (simp add: await_def)
  next
    case (Inr x)
    then show ?thesis using u finish_lock [of x "w'\<lparr>exec := unLockExecution i s\<rparr>"]
      by (simp add: await_def idle_def)
  qed
qed

lemma error_silent:
  assumes "idle w" "await (withExecution priority body) finish w = (Inl e, w')"
  shows "emitted w' = emitted w"
proof -
  obtain s i r v where u: "body (w\<lparr>exec := s\<rparr>) = (r, v)"
    "withExecution priority body w = (r, v\<lparr>exec := unLockExecution i s\<rparr>)"
    using under_lock [OF assms(1)] by blast
  have "emitted v = emitted w" using quietD [OF quiet_body u(1)] by simp
  moreover have "r = Inl e \<and> w' = v\<lparr>exec := unLockExecution i s\<rparr>"
    using assms(2) u(2) finish_ok by (cases r) (auto simp: await_def, metis Inl_Inr_False fst_conv)
  ultimately show ?thesis by simp
qed

lemma keeps_idle_run: "keeps_idle (await (withExecution priority body) finish)"
  using lock_free unfolding keeps_idle_def by blast

lemma silent_run: "idle w \<Longrightarrow> silent_failure (await (withExecution priority body) finish) w"
  using error_silent by (intro silent_failureI)

text \<open>A successful run is a successful run of the body, followed by the announcement.\<close>

lemma success:
  assumes "idle w" "await (withExecution priority body) finish w = (Inr y, w')"
  shows "\<exists>s x v u. body (w\<lparr>exec := s\<rparr>) = (Inr x, v) \<and> finish x u = (Inr y, w') \<and>
    rows u = rows v \<and> emitted u = emitted w \<and> rows w' = rows v"
proof -
  obtain s i r v where u: "body (w\<lparr>exec := s\<rparr>) = (r, v)"
    "withExecution priority body w = (r, v\<lparr>exec := unLockExecution i s\<rparr>)"
    using under_lock [OF assms(1)] by blast
  obtain x where x: "r = Inr x" "finish x (v\<lparr>exec := unLockExecution i s\<rparr>) = (Inr y, w')"
    using assms(2) u(2) by (cases r) (auto simp: await_def)
  have "emitted v = emitted w" using quietD [OF quiet_body u(1)] by simp
  moreover have "rows w' = rows v" using finish_rows [of x "v\<lparr>exec := unLockExecution i s\<rparr>"] x(2) by simp
  ultimately show ?thesis using u x
    by (intro exI [of _ s] exI [of _ x] exI [of _ v] exI [of _ "v\<lparr>exec := unLockExecution i s\<rparr>"]) simp
qed

end

lemma emit_facts: "fst (emitUpdated d w) = Inr ()" "exec (snd (emitUpdated d w)) = exec w"
  "rows (snd (emitUpdated d w)) = rows w" "emitted (snd (emitUpdated d w)) = emitted w @ [d]"
  by (simp_all add: emitUpdated_def)

lemma emit_if_facts: "fst (emit_if d w) = Inr ()" "exec (snd (emit_if d w)) = exec w"
  "rows (snd (emit_if d w)) = rows w"
  by (simp_all add: emit_if_def emit_facts ret_def split: option.split)

lemma announce_facts:
  "fst (await (emitUpdated d) (\<lambda>_. ret y) w) = Inr y" "exec (snd (await (emitUpdated d) (\<lambda>_. ret y) w)) = exec w"
  "rows (snd (await (emitUpdated d) (\<lambda>_. ret y) w)) = rows w"
  by (simp_all add: emitUpdated_def await_def ret_def)

interpretation update_op: locked_operation 1 "updateReserve_body E i log" emit_if for E i log
  by unfold_locales (simp_all add: emit_if_facts quiet_bodies)

interpretation cancel_op: locked_operation 2 "cancel_body E i" emitUpdated for E i
  by unfold_locales (simp_all add: emit_facts quiet_bodies)

interpretation removeSkip_op: locked_operation 2 "removeSkip_body E i" emit_if for E i
  by unfold_locales (simp_all add: emit_if_facts quiet_bodies)

interpretation removeOverlap_op: locked_operation 2 "removeOverlap_body E i" emit_if for E i
  by unfold_locales (simp_all add: emit_if_facts quiet_bodies)

interpretation edit_op: locked_operation 2 "edit_body E i opt"
    "\<lambda>r. emitUpdated ((new_values False)\<lparr>uv_update := [r]\<rparr>)" for E i opt
  by unfold_locales (simp_all add: emit_facts quiet_bodies)

interpretation updateRule_op: locked_operation 1 "updateRule_body E i log first" emitUpdated for E i log first
  by unfold_locales (simp_all add: emit_facts quiet_bodies)

interpretation sweep_op: locked_operation 1 "sweep_all E log first" emitUpdated for E log first
  by unfold_locales (simp_all add: emit_facts quiet_bodies)

interpretation cleanup_op: locked_operation 2 "cleanup_body E" emitUpdated for E
  by unfold_locales (simp_all add: emit_facts quiet_cleanup_body)

definition creator :: "env \<Rightarrow> manual_option \<Rightarrow> reserve act" where
  "creator E opt = (if mo_programId opt = None then createManualReserveWithSpecifiedTime E opt
     else createManualReserveWithProgramId E opt)"

interpretation add_op: locked_operation 1 "insert_new E (creator E opt)"
    "\<lambda>r. await (emitUpdated ((new_values False)\<lparr>uv_insert := [r]\<rparr>)) (\<lambda>_. ret (id_of r))" for E opt
  by unfold_locales (simp_all add: announce_facts creator_def quiet_insert_new reads_create)

interpretation relay_op: locked_operation 1 "insert_new E (createEventRelayReserve E p parent)"
    "\<lambda>r. await (emitUpdated ((new_values False)\<lparr>uv_insert := [r]\<rparr>)) (\<lambda>_. ret (Some (id_of r)))" for E p parent
  by unfold_locales (simp_all add: announce_facts quiet_insert_new reads_create)

subsection \<open>The lock is always released, a failure is silent\<close>

lemma keeps_idle_reads: "reads m \<Longrightarrow> keeps_idle m"
  by (simp add: keeps_idle_def idle_def reads_def quiet_def)

lemma keeps_idle_ret: "keeps_idle (ret x)" and keeps_idle_throw: "keeps_idle (throw e)"
  by (simp_all add: keeps_idle_def ret_def throw_def)

lemma keeps_idle_await: "keeps_idle m \<Longrightarrow> (\<And>x. keeps_idle (k x)) \<Longrightarrow> keeps_idle (await m k)"
  by (simp add: keeps_idle_def await_def split: prod.splits sum.splits) (metis snd_conv)

lemma keeps_idle_on_error: "keeps_idle m \<Longrightarrow> (\<And>e. keeps_idle (h e)) \<Longrightarrow> keeps_idle (on_error m h)"
  by (simp add: keeps_idle_def on_error_def split: prod.splits sum.splits) (metis snd_conv)

lemma keeps_idle_for_each: "(\<And>x. keeps_idle (f x)) \<Longrightarrow> keeps_idle (for_each f xs)"
  by (induction xs) (auto intro!: keeps_idle_await keeps_idle_on_error keeps_idle_ret)

lemma add_eq: "add E opt =
    (if hasSubDirectoryOutsideRoot (mo_saveOption opt) (mo_encodeOption opt)
      then throw (Thrown ''InvalidSubDirectory'')
      else if \<not> checkManualReserveOption E opt False then throw (Thrown ''AddReservationOptionError'')
      else await (withExecution 1 (insert_new E (creator E opt)))
           (\<lambda>r. await (emitUpdated ((new_values False)\<lparr>uv_insert := [r]\<rparr>)) (\<lambda>_. ret (id_of r))))"
  by (simp add: add_def creator_def)

lemma operations_keep_idle:
  "keeps_idle (updateReserve E i log)" "keeps_idle (updateRule E i log first)" "keeps_idle (cancel E i)"
  "keeps_idle (removeSkip E i)" "keeps_idle (removeOverlap E i)" "keeps_idle (cleanup E)"
  unfolding updateReserve_def updateRule_def cancel_def removeSkip_def removeOverlap_def cleanup_def
  by (rule update_op.keeps_idle_run updateRule_op.keeps_idle_run cancel_op.keeps_idle_run
      removeSkip_op.keeps_idle_run removeOverlap_op.keeps_idle_run cleanup_op.keeps_idle_run)+

lemma keeps_idle_if: "keeps_idle m \<Longrightarrow> keeps_idle k \<Longrightarrow> keeps_idle (if b then m else k)"
  by simp

lemma add_keeps_idle: "keeps_idle (add E opt)"
  unfolding add_eq by (intro keeps_idle_if keeps_idle_throw add_op.keeps_idle_run)

lemma edit_keeps_idle: "keeps_idle (edit E i opt)"
  unfolding edit_def by (intro keeps_idle_if keeps_idle_throw edit_op.keeps_idle_run)

lemma addEventRelay_keeps_idle: "keeps_idle (addEventRelay E p parent)"
  unfolding addEventRelay_def
  by (rule keeps_idle_await [OF keeps_idle_reads [OF reads_queries(4)]])
    (intro keeps_idle_if keeps_idle_ret relay_op.keeps_idle_run)

lemma updateAll_keeps_idle: "keeps_idle (updateAll E first)"
  unfolding updateAll_def Let_def
  by (rule keeps_idle_await [OF keeps_idle_reads [OF reads_queries(9)]],
      rule keeps_idle_await [OF keeps_idle_reads [OF reads_queries(10)]],
      rule keeps_idle_await [OF keeps_idle_reads [OF reads_port]],
      rule keeps_idle_await [OF keeps_idle_for_each [OF operations_keep_idle(1)]],
      rule keeps_idle_await [OF keeps_idle_for_each [OF operations_keep_idle(1)]],
      rule keeps_idle_await [OF keeps_idle_for_each [OF operations_keep_idle(2)]],
      rule sweep_op.keeps_idle_run)

lemma keeps_idleD: "keeps_idle m \<Longrightarrow> idle w \<Longrightarrow> idle (snd (m w))"
  by (simp add: keeps_idle_def)

text \<open>
  C3. No operation of the manager keeps the execution lock: started while it is idle, every one of them
  ends with it idle, whether it returned early, succeeded or threw, and whichever database calls were
  rejected. So a failed reservation change never blocks the next one.
\<close>

theorem operations_release_lock:
  assumes "idle w"
  shows "idle (snd (add E opt w)) \<and> idle (snd (addEventRelay E p parent w)) \<and>
    idle (snd (updateReserve E i log w)) \<and> idle (snd (updateRule E i log first w)) \<and>
    idle (snd (updateAll E first w)) \<and> idle (snd (cancel E i w)) \<and> idle (snd (removeSkip E i w)) \<and>
    idle (snd (removeOverlap E i w)) \<and> idle (snd (edit E i opt w)) \<and> idle (snd (cleanup E w))"
  by (intro conjI keeps_idleD [OF _ assms] operations_keep_idle add_keeps_idle edit_keeps_idle
      addEventRelay_keeps_idle updateAll_keeps_idle)

definition empty_env :: env where
  "empty_env = \<lparr>fails = (\<lambda>i. False), now = 1600000000000, findProgram = (\<lambda>i. None),
     findChannel = (\<lambda>i. Some (js ''26'', js ''GR'')), findRule = (\<lambda>i. None), findRulePrograms = (\<lambda>r. []),
     findChannelIdAndTime = (\<lambda>c t. None), getRuleIds = [], env_tuners = [new_tuner [js ''GR'']],
     encodeModes = None, toLowerCase = (\<lambda>s. s), isSuppressReservesUpdateAllLog = False\<rparr>"

lemma exec_free_idle: "idle (w\<lparr>exec := exec_free\<rparr>)"
proof -
  have "lockId exec_free = None" by code_simp
  then show ?thesis using exec_reachable_inv [OF exec_free_reachable] by (simp add: idle_def)
qed

lemma empty_world_idle: "idle empty_world"
  using exec_free_idle [of empty_world] by (simp add: empty_world_def)

theorem operations_release_lock_witness:
  "idle (snd (cancel empty_env 5 empty_world)) \<and> idle (snd (updateAll empty_env True empty_world))"
  using operations_release_lock [OF empty_world_idle] by blast

lemma silent_failure_if:
  "silent_failure m w \<Longrightarrow> silent_failure k w \<Longrightarrow> silent_failure (if b then m else k) w"
  by simp

lemma silent_failure_throw: "silent_failure (throw e) w" and silent_failure_ret: "silent_failure (ret x) w"
  by (simp_all add: silent_failure_def throw_def ret_def)

lemma silent_failure_after:
  "m w = k v \<Longrightarrow> emitted v = emitted w \<Longrightarrow> silent_failure k v \<Longrightarrow> silent_failure m w"
  by (simp add: silent_failure_def split: sum.splits)

lemma silent_addEventRelay:
  assumes "idle w"
  shows "silent_failure (addEventRelay E p parent) w"
proof -
  let ?rest = "\<lambda>rs. if rs \<noteq> [] then ret None
    else await (withExecution 1 (insert_new E (createEventRelayReserve E p parent)))
      (\<lambda>r. await (emitUpdated ((new_values False)\<lparr>uv_insert := [r]\<rparr>)) (\<lambda>_. ret (Some (id_of r))))"
  obtain r v where q: "findProgramId (fails E) p w = (r, v)" by fastforce
  have v: "emitted v = emitted w" "idle v"
    using readsD [OF reads_queries(4) q] assms by (simp_all add: idle_def)
  have rest: "silent_failure (?rest rs) v" for rs
    by (intro silent_failure_if silent_failure_ret relay_op.silent_run [OF v(2)])
  show ?thesis
  proof (cases r)
    case (Inl e)
    then show ?thesis using q v by (simp add: addEventRelay_def silent_failure_def await_def)
  next
    case (Inr rs)
    then have "addEventRelay E p parent w = ?rest rs v" using q by (simp add: addEventRelay_def await_def)
    then show ?thesis using v(1) rest
      by (rule silent_failure_after [where k = "?rest rs" and v = v])
  qed
qed

text \<open>
  C11. A failed operation announces nothing: when an operation other than \<open>updateAll\<close> (which goes on
  with the next reservation after an error) throws, no change set has reached the listeners.
\<close>

theorem failed_operation_silent:
  assumes "idle w"
  shows "silent_failure (add E opt) w \<and> silent_failure (addEventRelay E p parent) w \<and>
    silent_failure (updateReserve E i log) w \<and> silent_failure (updateRule E i log first) w \<and>
    silent_failure (cancel E i) w \<and> silent_failure (removeSkip E i) w \<and>
    silent_failure (removeOverlap E i) w \<and> silent_failure (edit E i opt) w \<and> silent_failure (cleanup E) w"
  unfolding updateReserve_def updateRule_def cancel_def removeSkip_def removeOverlap_def cleanup_def
    add_eq edit_def
  by (intro conjI silent_failure_if silent_failure_throw silent_addEventRelay [OF assms]
      update_op.silent_run [OF assms] updateRule_op.silent_run [OF assms] cancel_op.silent_run [OF assms]
      removeSkip_op.silent_run [OF assms] removeOverlap_op.silent_run [OF assms]
      cleanup_op.silent_run [OF assms] add_op.silent_run [OF assms] edit_op.silent_run [OF assms])

theorem failed_operation_silent_witness:
  "silent_failure (cancel empty_env 5) empty_world \<and> silent_failure (cleanup empty_env) empty_world"
  using failed_operation_silent [OF empty_world_idle] by blast

end
