(* ===== verification/Reservation_Facts.thy ===== *)
theory Reservation_Facts
  imports Reservation_Laws
begin

text \<open>
  What the operations of the reservation manager do to the table: the loop of \<open>cleanup\<close> ends within
  the fuel it is given, and a successful operation leaves exactly the rows it should.
\<close>

subsection \<open>Queries\<close>

lemma query_Inl:
  assumes "query F P w = (Inl e, w')"
  shows "e = DbFailure \<and> (\<exists>i. F i)"
proof -
  have "retry_loop n (Some DbFailure) (attempt F (select P)) w = (Inl e, w') \<Longrightarrow> e = DbFailure" for n w
  proof (induction n arbitrary: w)
    case (Suc n)
    then show ?case by (auto simp: on_error_def attempt_def select_def Let_def split: if_splits)
  qed simp
  then show ?thesis using assms
    by (fastforce simp: query_def retry_run_def numeral_eq_Suc on_error_def attempt_def select_def Let_def
        split: if_splits)
qed

lemma query_rows:
  assumes "query F P w = (r, w')"
  shows "rows w' = rows w" "nextId w' = nextId w"
  using readsD [OF reads_query assms] by simp_all

lemma find_one_range:
  assumes "findTimeRanges F \<lparr>fo_times = [t], hasSkip = a, hasConflict = b, hasOverlap = c,
      excludeRuleId = x, excludeReserveId = y\<rparr> w = (Inr rs, w')"
  shows "set rs \<subseteq> set (rows w)" "mset rs \<subseteq># mset (rows w)"
    "\<forall>r \<in> set rs. touches r t \<and> (isSkip r \<longrightarrow> a) \<and> (isOverlap r \<longrightarrow> c)"
proof -
  obtain qs where q: "query F (range_where \<lparr>fo_times = [t], hasSkip = a, hasConflict = b, hasOverlap = c,
      excludeRuleId = x, excludeReserveId = y\<rparr>) w = (Inr qs, w')" "rs = sort_key startAt qs"
    using assms by (auto simp: findTimeRanges_def await_Inr)
  then show "set rs \<subseteq> set (rows w)" "mset rs \<subseteq># mset (rows w)"
    "\<forall>r \<in> set rs. touches r t \<and> (isSkip r \<longrightarrow> a) \<and> (isOverlap r \<longrightarrow> c)"
    using query_Inr [OF q(1)] by (auto simp: range_where_def join_times_def mset_filter)
qed

lemma findTimeRanges_Inl: "findTimeRanges F opt w = (Inl e, w') \<Longrightarrow> e = DbFailure \<and> (\<exists>i. F i)"
  by (auto simp: findTimeRanges_def await_Inl dest: query_Inl split: if_splits)

lemma distinct_ids_sub:
  assumes "distinct (map reserveId rs)" "mset qs \<subseteq># mset rs"
  shows "distinct (map reserveId qs)"
proof -
  obtain cs where "mset rs = mset (qs @ cs)"
    using assms(2) by (metis ex_mset mset_append mset_subset_eq_exists_conv)
  then have "mset (map reserveId rs) = mset (map reserveId (qs @ cs))" by simp
  then have "distinct (map reserveId (qs @ cs))" using assms(1) mset_eq_imp_distinct_iff by blast
  then show ?thesis by simp
qed

subsection \<open>The loop of \<open>cleanup\<close>\<close>

definition loop_answer :: "faults \<Rightarrow> reserve list \<Rightarrow> int option list \<Rightarrow> reserve list \<Rightarrow> reserve list result \<Rightarrow> bool" where
  "loop_answer F table ids survivors r \<longleftrightarrow> (r = Inl DbFailure \<and> (\<exists>i. F i)) \<or>
     (\<exists>fresh. r = Inr (survivors @ fresh) \<and> set fresh \<subseteq> set table \<and> distinct (ids @ map reserveId fresh) \<and>
        (\<forall>q \<in> set fresh. \<not> isSkip q \<and> \<not> isOverlap q))"

text \<open>A round takes one range off the list of pending ones and adds one for every row that was not
  met before, so the number of rows not met bounds the rounds to come.\<close>

lemma cleanup_loop_answer:
  assumes "distinct (map reserveId (rows w))" "distinct ids" "set ids \<subseteq> reserveId ` set (rows w)"
    and "length (rows w) + length todo \<le> n + length ids"
    and "cleanup_loop n E todo ids survivors w = (r, w')"
  shows "loop_answer (fails E) (rows w) ids survivors r"
  using assms
proof (induction n E todo ids survivors arbitrary: w rule: cleanup_loop.induct)
  case (1 n E ids survivors)
  then show ?case by (auto simp: loop_answer_def)
next
  case (2 E rng todo ids survivors)
  have "length ids \<le> length (rows w)"
    using card_mono [OF _ "2.prems"(3)] distinct_card [OF "2.prems"(2)]
      card_length [of "map reserveId (rows w)"] by simp
  with "2.prems"(4) show ?case by simp
next
  case (3 n E rng todo ids survivors)
  obtain c v where q: "findTimeRanges (fails E) \<lparr>fo_times = [rng], hasSkip = False, hasConflict = True,
      hasOverlap = False, excludeRuleId = None, excludeReserveId = None\<rparr> w = (c, v)" by fastforce
  have v: "rows v = rows w" using readsD [OF reads_queries(5) q] by simp
  show ?case
  proof (cases c)
    case (Inl e)
    then show ?thesis using "3.prems"(5) q findTimeRanges_Inl [of "fails E"] by (auto simp: await_def loop_answer_def)
  next
    case (Inr candidates)
    define fresh where "fresh = filter (\<lambda>c. reserveId c \<notin> set ids) candidates"
    note range = find_one_range [OF q [unfolded Inr]]
    have fresh: "set fresh \<subseteq> set (rows w)" "distinct (ids @ map reserveId fresh)"
      "\<forall>q \<in> set fresh. \<not> isSkip q \<and> \<not> isOverlap q"
      using range distinct_ids_sub [OF "3.prems"(1) range(2)] "3.prems"(2)
      by (auto simp: fresh_def distinct_map_filter)
    have "loop_answer (fails E) (rows v) (ids @ map reserveId fresh) (survivors @ fresh) r"
    proof (rule "3.IH" [OF fresh_def])
      show "set (ids @ map reserveId fresh) \<subseteq> reserveId ` set (rows v)" using fresh(1) "3.prems"(3) v by auto
      show "cleanup_loop n E (todo @ map (\<lambda>c. (startAt c, endAt c)) fresh) (ids @ map reserveId fresh)
          (survivors @ fresh) v = (r, w')"
        using "3.prems"(5) q Inr by (simp add: await_def fresh_def Let_def)
    qed (use "3.prems"(1,4) fresh(2) v in simp_all)
    then show ?thesis using v fresh by (fastforce simp: loop_answer_def)
  qed
qed

subsection \<open>Recomputed rows\<close>

lemma replace_all_from:
  "x \<in> set (replace_all us rs) \<Longrightarrow> (x \<in> set rs \<and> reserveId x \<notin> reserveId ` set us) \<or> x \<in> set us"
proof (induction us arbitrary: x rule: rev_induct)
  case Nil
  then show ?case by (simp add: replace_all_def)
next
  case (snoc u us)
  then obtain y where y: "y \<in> set (replace_all us rs)" "x = (if reserveId y = reserveId u then u else y)"
    by (auto simp: replace_all_def)
  show ?case using snoc.IH [OF y(1)] y(2) by (cases "reserveId y = reserveId u") auto
qed

lemma replace_all_covers: "r \<in> set rs \<Longrightarrow> \<exists>x \<in> set (replace_all us rs). reserveId x = reserveId r"
  using arg_cong [OF replace_all_ids [of us rs], of set] by (metis (no_types, lifting) image_iff list.set_map)

lemma same_id: "table_ok w \<Longrightarrow> a \<in> set (rows w) \<Longrightarrow> b \<in> set (rows w) \<Longrightarrow> reserveId a = reserveId b \<Longrightarrow> a = b"
  by (simp add: table_ok_def distinct_map inj_on_def)

text \<open>The new rows are old ones in which at most the conflict has been evaluated anew.\<close>

definition re_evaluated :: "reserve list \<Rightarrow> reserve list \<Rightarrow> bool" where
  "re_evaluated olds news \<longleftrightarrow> (\<forall>n \<in> set news. \<exists>q \<in> set olds. n = q\<lparr>isConflict := isConflict n\<rparr>)"

lemma key_conflict [simp]: "createReserveKey (q\<lparr>isConflict := b\<rparr>) = createReserveKey q"
  by (simp add: createReserveKey_def split: option.split)

lemma re_evaluatedE:
  assumes "re_evaluated olds news" "n \<in> set news"
  obtains q where "q \<in> set olds" "n = q\<lparr>isConflict := isConflict n\<rparr>" "createReserveKey n = createReserveKey q"
    "reserveId n = reserveId q" "endAt n = endAt q"
proof -
  obtain q where q: "q \<in> set olds" "n = q\<lparr>isConflict := isConflict n\<rparr>"
    using assms unfolding re_evaluated_def by blast
  have "createReserveKey n = createReserveKey q" "reserveId n = reserveId q" "endAt n = endAt q"
    by (subst q(2), simp)+
  then show ?thesis using q that by blast
qed

lemma old_of_re_evaluated:
  assumes "distinct (map createReserveKey olds)" "q \<in> set olds" "createReserveKey n = createReserveKey q"
  shows "old_of olds n = Some q"
proof (cases "old_of olds n")
  case None
  then show ?thesis using assms(2,3) by (auto simp: old_of_def find_None_iff)
next
  case (Some old)
  then have "old \<in> set olds" "createReserveKey old = createReserveKey q" using old_of_key assms(3) by auto
  then have "old = q" using assms(1,2) by (metis distinct_map inj_onD)
  then show ?thesis using Some by simp
qed

lemma same_unless_differs:
  assumes "\<not> differs q n" "n = q\<lparr>isConflict := isConflict n\<rparr>"
  shows "n = q"
proof -
  have "programId n = programId q" by (subst assms(2)) simp
  then have "isConflict n = isConflict q"
    using assms(1) by (auto simp: differs_def checkTimeRuleReserveDiff_def checkProgramIdReserveDiff_def split: if_splits)
  then show ?thesis using assms(2) by simp
qed

lemma re_evaluated_diff:
  assumes keys: "distinct (map createReserveKey olds)" and re: "re_evaluated olds news"
  shows "uv_insert (diff_reference olds news log) = []" "set (uv_update (diff_reference olds news log)) \<subseteq> set news"
    "set (uv_delete (diff_reference olds news log)) =
      {q \<in> set olds. createReserveKey q \<notin> createReserveKey ` set news}"
    "n \<in> set news \<Longrightarrow> q \<in> set olds \<Longrightarrow> createReserveKey n = createReserveKey q \<Longrightarrow>
      n = q \<or> n \<in> set (uv_update (diff_reference olds news log))"
proof -
  have found: "old_of olds n = Some q \<and> n\<lparr>reserveId := reserveId q\<rparr> = n \<and> n = q\<lparr>isConflict := isConflict n\<rparr>"
    if n: "n \<in> set news" and q: "q \<in> set olds" "createReserveKey n = createReserveKey q" for n q
  proof -
    note o = old_of_re_evaluated [OF keys q]
    obtain p where p: "p \<in> set olds" "n = p\<lparr>isConflict := isConflict n\<rparr>" "createReserveKey n = createReserveKey p"
      "reserveId n = reserveId p" "endAt n = endAt p" by (rule re_evaluatedE [OF re n])
    have "p = q" using old_of_re_evaluated [OF keys p(1,3)] o by simp
    then show ?thesis using o p by (metis reserve.surjective reserve.update_convs(1))
  qed
  have one: "\<exists>q. q \<in> set olds \<and> createReserveKey n = createReserveKey q" if "n \<in> set news" for n
    using re_evaluatedE [OF re that] by metis
  show "uv_insert (diff_reference olds news log) = []"
    using found one by (fastforce simp: diff_reference_def Let_def filter_empty_conv)
  have "u \<in> set news" if u: "u \<in> set (updates_of olds news)" for u
  proof -
    obtain n old where n: "n \<in> set news" "old_of olds n = Some old" "u = n\<lparr>reserveId := reserveId old\<rparr>"
      using u by (force simp: updates_of_def simp del: reserve.simps split: option.splits if_splits)
    then show ?thesis using found [OF n(1), of old] old_of_key [OF n(2)] by simp
  qed
  then show "set (uv_update (diff_reference olds news log)) \<subseteq> set news"
    by (auto simp: diff_reference_def Let_def)
  show "set (uv_delete (diff_reference olds news log)) =
      {q \<in> set olds. createReserveKey q \<notin> createReserveKey ` set news}"
    by (auto simp: diff_reference_def Let_def)
  show "n = q \<or> n \<in> set (uv_update (diff_reference olds news log))"
    if "n \<in> set news" "q \<in> set olds" "createReserveKey n = createReserveKey q"
  proof (cases "differs q n")
    case False
    then show ?thesis using same_unless_differs found [OF that] by blast
  next
    case True
    then have "n \<in> set (updates_of olds news)"
      using found [OF that] that(1) by (auto simp: updates_of_def intro!: bexI [of _ n])
    then show ?thesis by (simp add: diff_reference_def Let_def)
  qed
qed

text \<open>What a change set computed from re-evaluated rows leaves in the table.\<close>

lemma re_evaluated_stored:
  assumes ok: "table_ok w" and keys: "distinct (map createReserveKey olds)"
    and sub: "set olds \<subseteq> set (rows w)" and re: "re_evaluated olds news"
    and run: "updateMany F (createReservesDiff olds news log) w = (Inr d, w')"
  shows "set (rows w') \<subseteq> (set (rows w) - set olds) \<union> set news" "set (rows w) - set olds \<subseteq> set (rows w')"
    "n \<in> set news \<Longrightarrow> \<exists>x \<in> set (rows w') \<inter> set news. createReserveKey x = createReserveKey n"
    "uv_insert d = []" "uv_delete d = uv_delete (diff_reference olds news log)"
proof -
  define v where "v = diff_reference olds news log"
  note diff = re_evaluated_diff [OF keys re, where log = log, folded v_def]
  have "fresh_rows v" using diff(1) by (simp add: fresh_rows_def)
  moreover have "updateMany F v w = (Inr d, w')" using run by (simp add: v_def diff_is_reference [OF keys])
  ultimately have out: "rows w' = applied v w" "d = v\<lparr>uv_insert := number_rows (nextId w) (uv_insert v)\<rparr>"
    using updateMany_outcome by fastforce+
  define kept where "kept = filter (\<lambda>r. reserveId r \<notin> reserveId ` set (uv_delete v)) (rows w)"
  have rows': "rows w' = replace_all (uv_update v) kept" using out diff(1) by (simp add: applied_def kept_def)
  note id = same_id [OF ok]
  have kept: "x \<in> set kept \<longleftrightarrow> x \<in> set (rows w) \<and> x \<notin> set (uv_delete v)" for x
    using id sub diff(3) unfolding kept_def by auto
  have owner: "\<exists>q \<in> set olds. reserveId x = reserveId q \<and> createReserveKey x = createReserveKey q"
    if "x \<in> set news" for x by (rule re_evaluatedE [OF re that]) blast
  show origin: "set (rows w') \<subseteq> (set (rows w) - set olds) \<union> set news"
  proof
    fix x assume "x \<in> set (rows w')"
    then consider "x \<in> set kept" "reserveId x \<notin> reserveId ` set (uv_update v)" | "x \<in> set (uv_update v)"
      using replace_all_from unfolding rows' by blast
    then show "x \<in> (set (rows w) - set olds) \<union> set news"
    proof cases
      case 1
      show ?thesis
      proof (cases "x \<in> set olds")
        case True
        then obtain n where n: "n \<in> set news" "createReserveKey n = createReserveKey x"
          using 1(1) diff(3) by (force simp: kept)
        obtain q where q: "q \<in> set olds" "reserveId n = reserveId q" "createReserveKey n = createReserveKey q"
          using owner [OF n(1)] by blast
        have "q = x" using old_of_re_evaluated [OF keys q(1,3)] old_of_re_evaluated [OF keys True n(2)] by simp
        then have "n \<notin> set (uv_update v)" using 1(2) q(2) by (metis image_eqI)
        then have "n = x" using diff(4) [OF n(1) True n(2)] by blast
        then show ?thesis using n by simp
      qed (use 1 in \<open>simp add: kept\<close>)
    qed (use diff(2) in blast)
  qed
  show stay: "set (rows w) - set olds \<subseteq> set (rows w')"
  proof
    fix x assume x: "x \<in> set (rows w) - set olds"
    then have "x \<in> set kept" using diff(3) by (simp add: kept)
    then obtain y where y: "y \<in> set (rows w')" "reserveId y = reserveId x"
      using replace_all_covers unfolding rows' by blast
    have "y \<notin> set news"
    proof
      assume "y \<in> set news"
      then obtain q where "q \<in> set olds" "reserveId y = reserveId q" using owner by blast
      then have "q = x" using id [of q x] x y(2) sub by auto
      with \<open>q \<in> set olds\<close> x show False by simp
    qed
    then have "y = x" using origin y id [of y x] x by blast
    with y(1) show "x \<in> set (rows w')" by simp
  qed
  show "\<exists>x \<in> set (rows w') \<inter> set news. createReserveKey x = createReserveKey n" if n: "n \<in> set news" for n
  proof -
    obtain q where q: "q \<in> set olds" "reserveId n = reserveId q" "createReserveKey n = createReserveKey q"
      using owner [OF n] by blast
    have "createReserveKey q \<in> createReserveKey ` set news" using n q(3) [symmetric] by (rule rev_image_eqI)
    then have "q \<notin> set (uv_delete v)" unfolding diff(3) by simp
    then have "q \<in> set kept" using kept q(1) sub by blast
    then obtain y where y: "y \<in> set (rows w')" "reserveId y = reserveId q"
      using replace_all_covers unfolding rows' by blast
    then have "y \<in> set news" using origin id [of y q] q(1) sub by blast
    then obtain p where p: "p \<in> set olds" "reserveId y = reserveId p" "createReserveKey y = createReserveKey p"
      using owner by blast
    have "p = q" using id [of p q] y(2) p q(1) sub by auto
    then have "createReserveKey y = createReserveKey n" using p q by simp
    then show ?thesis using y(1) \<open>y \<in> set news\<close> by blast
  qed
  show "uv_insert d = []" "uv_delete d = uv_delete v" using out(2) diff(1) by simp_all
qed

subsection \<open>Cleanup\<close>

lemma keys_distinct_sub:
  assumes "distinct (map createReserveKey (rows w))" "set xs \<subseteq> set (rows w)" "distinct (map reserveId xs)"
  shows "distinct (map createReserveKey xs)"
proof -
  have "inj_on createReserveKey (set xs)" using assms(1,2) by (auto simp: distinct_map intro: inj_on_subset)
  then show ?thesis using assms(3) by (simp add: distinct_map)
qed

lemma createReserves_re_evaluated:
  assumes "set cands \<union> set kept \<subseteq> set olds"
  shows "re_evaluated olds (createReserves ts cands @ kept)"
  unfolding re_evaluated_def
proof
  fix n assume "n \<in> set (createReserves ts cands @ kept)"
  then consider "n \<in> set (createReserves ts cands)" | "n \<in> set kept" by auto
  then show "\<exists>q \<in> set olds. n = q\<lparr>isConflict := isConflict n\<rparr>"
  proof cases
    case 1
    then show ?thesis using createReserves_origin(1) [OF 1] assms by blast
  next
    case 2
    then show ?thesis using assms by (intro bexI [of _ n]) auto
  qed
qed

definition ended :: "int \<Rightarrow> world \<Rightarrow> reserve list" where
  "ended t w = filter (\<lambda>r. endAt r < t) (rows w)"

text \<open>What the body of \<open>cleanup\<close> does, up to a rejected query.\<close>

lemma cleanup_bodyE:
  assumes ok: "table_ok w" and run: "cleanup_body E w = (r, w')"
  obtains (query) "r = Inl DbFailure" "\<exists>i. fails E i"
  | (update) survivors v where "rows v = rows w" "table_ok v" "set survivors \<subseteq> set (rows w)"
      "distinct (map reserveId (ended (now E) w @ survivors))" "\<forall>q \<in> set survivors. \<not> isSkip q \<and> \<not> isOverlap q"
      "updateMany (fails E) (createReservesDiff (ended (now E) w @ survivors)
         (createReserves (env_tuners E) survivors @ []) False) v = (r, w')"
proof -
  obtain a u where q: "findOldTime (fails E) (now E) w = (a, u)" by fastforce
  note u = query_rows [OF q [unfolded findOldTime_def]]
  show ?thesis
  proof (cases a)
    case (Inl e)
    then show ?thesis using q run query query_Inl [of "fails E"] by (auto simp: cleanup_body_def await_def findOldTime_def)
  next
    case (Inr dels)
    have dels: "dels = ended (now E) w" using query_Inr q Inr unfolding findOldTime_def ended_def by blast
    let ?ts = "map (\<lambda>r. (startAt r, endAt r)) dels"
    obtain b v where l: "cleanup_loop (length (rows u)) E ?ts (map reserveId dels) [] u = (b, v)" by fastforce
    have v: "rows v = rows w" "nextId v = nextId w" using readsD [OF reads_cleanup_loop l] u by simp_all
    have ids: "distinct (map reserveId (rows u))" using ok u by (simp add: table_ok_def)
    have "distinct (map reserveId dels)" "set (map reserveId dels) \<subseteq> reserveId ` set (rows u)"
      using ids u by (auto simp: dels ended_def distinct_map_filter)
    then have "loop_answer (fails E) (rows u) (map reserveId dels) [] b"
      by (rule cleanup_loop_answer [OF ids _ _ _ l]) simp
    then consider "b = Inl DbFailure" "\<exists>i. fails E i" | survivors where "b = Inr survivors" "set survivors \<subseteq> set (rows w)"
      "distinct (map reserveId (dels @ survivors))" "\<forall>q \<in> set survivors. \<not> isSkip q \<and> \<not> isOverlap q"
      using u unfolding loop_answer_def by auto
    then show ?thesis
    proof cases
      case 1
      then show ?thesis using q run Inr l query by (simp add: cleanup_body_def await_def)
    next
      case 2
      then show ?thesis using q run Inr l v ok
        by (intro update [of v survivors]) (simp_all add: cleanup_body_def await_def createConflictSweepDiff_def dels table_ok_def)
    qed
  qed
qed

lemma updateMany_Inl: "fresh_rows v \<Longrightarrow> updateMany F v w = (Inl e, w') \<Longrightarrow>
    e = Thrown ''ReserveUpdateManyError'' \<and> (\<exists>i. F i)"
proof -
  assume v: "fresh_rows v" "updateMany F v w = (Inl e, w')"
  have "F \<noteq> (\<lambda>i. False)"
    using updateMany_no_fault [OF v(1)] v(2) unfolding succeeds_def by (metis Inl_Inr_False prod.inject)
  then have "\<exists>i. F i" by auto
  with updateMany_outcome [OF v] show ?thesis by simp
qed

lemma cleanup_ends:
  assumes "table_ok w" "distinct (map createReserveKey (rows w))" "cleanup_body E w = (Inl e, w')"
  shows "e \<in> {DbFailure, Thrown ''ReserveUpdateManyError''} \<and> (\<exists>i. fails E i)"
  using assms(1,3)
proof (cases rule: cleanup_bodyE)
  case query
  then show ?thesis by simp
next
  case (update survivors v)
  define olds where "olds = ended (now E) w @ survivors"
  define news where "news = createReserves (env_tuners E) survivors @ []"
  have sub: "set olds \<subseteq> set (rows w)" using update(3) by (auto simp: ended_def olds_def)
  note keys = keys_distinct_sub [OF assms(2) sub update(4) [folded olds_def]]
  have re: "re_evaluated olds news"
    unfolding news_def by (rule createReserves_re_evaluated) (auto simp: olds_def)
  have "fresh_rows (diff_reference olds news False)"
    using re_evaluated_diff(1) [OF keys re] by (simp add: fresh_rows_def)
  moreover have "updateMany (fails E) (diff_reference olds news False) v = (Inl e, w')"
    using update(6) diff_is_reference [OF keys] by (simp add: olds_def news_def)
  ultimately show ?thesis using updateMany_Inl by blast
qed

text \<open>
  \<open>cleanup\<close> ends: its loop over the ranges that cleaning frees, which grows while it runs, never
  exhausts the fuel it is given, one round per row of the table. The only errors are a rejected query
  and a failed change of the table, and without rejected calls there is a result.
\<close>

theorem cleanup_terminates:
  assumes "table_ok w" "distinct (map createReserveKey (rows w))"
  shows "fst (cleanup_body E w) \<in> {Inl DbFailure, Inl (Thrown ''ReserveUpdateManyError'')} \<union> range Inr \<and>
    ((\<exists>i. fails E i) \<or> (\<exists>d. fst (cleanup_body E w) = Inr d))"
  using cleanup_ends [OF assms] by (cases "cleanup_body E w"; cases "fst (cleanup_body E w)") fastforce+

text \<open>No two rows of the table are for the same slot.\<close>

definition slots_ok :: "world \<Rightarrow> bool" where
  "slots_ok w \<longleftrightarrow> table_ok w \<and> distinct (map createReserveKey (rows w)) \<and> (\<forall>r \<in> set (rows w). numbers_ok r)"

lemma slots_okD:
  assumes "slots_ok w"
  shows "table_ok w" "distinct (map createReserveKey (rows w))" "\<And>r. r \<in> set (rows w) \<Longrightarrow> numbers_ok r"
    "\<And>q r. q \<in> set (rows w) \<Longrightarrow> r \<in> set (rows w) \<Longrightarrow> createReserveKey q = createReserveKey r \<Longrightarrow> q = r"
  using assms unfolding slots_ok_def by (auto simp: distinct_map inj_on_def)

text \<open>A reservation of no rule is folded only with one of its own key.\<close>

lemma manual_key:
  assumes "getRuleProgramIdKey p = getRuleProgramIdKey q" "ruleId q = None" "programId q = Some x"
    and "numbers_ok p" "numbers_ok q"
  shows "createReserveKey p = createReserveKey q"
proof -
  have q: "getRuleProgramIdKey q = Some (num_str x)" "45 \<notin> set (num_str x)" "0 \<le> x"
    using assms(2,3,5) num_str_no_dash by (auto simp: getRuleProgramIdKey_def numbers_ok_def nonneg_def)
  then obtain y where y: "programId p = Some y" "0 \<le> y"
    using assms(1,4) by (auto simp: getRuleProgramIdKey_def numbers_ok_def nonneg_def split: option.splits)
  have "ruleId p = None"
  proof (rule ccontr)
    assume "ruleId p \<noteq> None"
    then obtain zs where "getRuleProgramIdKey p = Some (num_str y @ 45 # zs)"
      using y(1) by (cases "isSkip p \<or> isOverlap p") (auto simp: getRuleProgramIdKey_def)
    then have "num_str x = num_str y @ 45 # zs" using assms(1) q(1) by simp
    then have "45 \<in> set (num_str x)" by simp
    with q(2) show False by simp
  qed
  then have "num_str y = num_str x" using q y assms(1) by (simp add: getRuleProgramIdKey_def)
  then have "y = x" using num_str_inj q(3) y(2) by blast
  then show ?thesis using assms(2,3) y \<open>ruleId p = None\<close> by (simp add: createReserveKey_def)
qed

lemma cleanup_body_success:
  assumes "table_ok w" "cleanup_body E w = (Inr d, w')"
  obtains survivors v where "rows v = rows w" "table_ok v" "set survivors \<subseteq> set (rows w)"
    "distinct (map reserveId (ended (now E) w @ survivors))"
    "updateMany (fails E) (createReservesDiff (ended (now E) w @ survivors)
         (createReserves (env_tuners E) survivors @ []) False) v = (Inr d, w')"
  by (rule cleanup_bodyE [OF assms]) (simp, rule that)

lemma cleanup_rows:
  assumes ok: "slots_ok w" and run: "cleanup_body E w = (Inr d, w')"
  shows "r \<in> set (rows w') \<Longrightarrow> now E \<le> endAt r \<and> (\<exists>q \<in> set (rows w). r = q\<lparr>isConflict := isConflict r\<rparr>)"
    and "q \<in> set (rows w) \<Longrightarrow> now E \<le> endAt q \<Longrightarrow> ruleId q = None \<or> programId q = None \<Longrightarrow>
      \<exists>b. q\<lparr>isConflict := b\<rparr> \<in> set (rows w')"
proof -
  obtain survivors v where s: "rows v = rows w" "table_ok v" "set survivors \<subseteq> set (rows w)"
    "distinct (map reserveId (ended (now E) w @ survivors))"
    "updateMany (fails E) (createReservesDiff (ended (now E) w @ survivors)
         (createReserves (env_tuners E) survivors @ []) False) v = (Inr d, w')"
    by (rule cleanup_body_success [OF slots_okD(1) [OF ok] run])
  define olds where "olds = ended (now E) w @ survivors"
  define news where "news = createReserves (env_tuners E) survivors"
  have sub: "set olds \<subseteq> set (rows v)" using s(1,3) by (auto simp: ended_def olds_def)
  have keys: "distinct (map createReserveKey olds)"
    using keys_distinct_sub [OF slots_okD(2) [OF ok], of olds] sub s(1,4) unfolding olds_def by argo
  have re: "re_evaluated survivors (news @ [])" "re_evaluated olds (news @ [])"
    unfolding news_def olds_def by (rule createReserves_re_evaluated; simp)+
  note stored = re_evaluated_stored [OF s(2) keys sub re(2) s(5) [folded olds_def news_def]]
  have late: "now E \<le> endAt q" if "q \<in> set survivors" for q
    using that s(3,4) by (force simp: ended_def)
  show "now E \<le> endAt r \<and> (\<exists>q \<in> set (rows w). r = q\<lparr>isConflict := isConflict r\<rparr>)" if row: "r \<in> set (rows w')"
  proof -
    consider "r \<in> set (rows w)" "r \<notin> set olds" | "r \<in> set (news @ [])"
      using subsetD [OF stored(1) row] s(1) by auto
    then show ?thesis
    proof cases
      case 1
      then show ?thesis by (auto simp: olds_def ended_def intro!: bexI [of _ r])
    next
      case 2
      obtain q where q: "q \<in> set survivors" "r = q\<lparr>isConflict := isConflict r\<rparr>" "endAt r = endAt q"
        by (rule re_evaluatedE [OF re(1) 2])
      then show ?thesis using s(3) late [OF q(1)] by (auto intro!: bexI [of _ q])
    qed
  qed
  show "\<exists>b. q\<lparr>isConflict := b\<rparr> \<in> set (rows w')"
    if q: "q \<in> set (rows w)" "now E \<le> endAt q" "ruleId q = None \<or> programId q = None"
  proof (cases "q \<in> set olds")
    case False
    then show ?thesis using stored(2) q(1) s(1) by (intro exI [of _ "isConflict q"]) auto
  next
    case True
    then have surv: "q \<in> set survivors" using q(2) by (auto simp: olds_def ended_def)
    have "kept_by_exclusion (skippedProgramIds survivors) q" using q(3) by (auto simp: kept_by_exclusion_def)
    from createReserves_represented [OF surv this, of "env_tuners E", folded news_def] obtain p b where p: "p \<in> set survivors"
      "p\<lparr>isConflict := b\<rparr> \<in> set news" "getRuleProgramIdKey p = getRuleProgramIdKey q"
      "getRuleProgramIdKey q = None \<longrightarrow> p = q" by (elim exE conjE) (rule that)
    have rows: "p \<in> set (rows w)" "q \<in> set (rows w)" using p(1) s(3) q(1) by auto
    have key: "createReserveKey p = createReserveKey q"
    proof (cases "programId q")
      case None
      then show ?thesis using p(4) by (simp add: getRuleProgramIdKey_def)
    next
      case (Some x)
      then show ?thesis using manual_key [OF p(3) _ Some] q(3) slots_okD(3) [OF ok] rows by simp
    qed
    obtain x where x: "x \<in> set (rows w')" "x \<in> set (news @ [])" "createReserveKey x = createReserveKey q"
      using stored(3) [of "p\<lparr>isConflict := b\<rparr>"] p(2) key by auto
    obtain y where y: "y \<in> set survivors" "x = y\<lparr>isConflict := isConflict x\<rparr>" "createReserveKey x = createReserveKey y"
      by (rule re_evaluatedE [OF re(1) x(2)])
    have "y = q" using slots_okD(4) [OF ok, of y q] y(1,3) x(3) s(3) q(1) by auto
    then show ?thesis using x(1) y(2) by metis
  qed
qed

text \<open>
  After a successful \<open>cleanup\<close> no reservation that has ended is left in the table; every row that is
  left is a row of before in which at most the conflict was evaluated anew; and no reservation of the
  user, and no time-specified one, that has not ended is lost.
\<close>

theorem cleanup_removes_ended:
  assumes "idle w" "slots_ok w" "cleanup E w = (Inr (), w')"
  shows "(\<forall>r \<in> set (rows w'). now E \<le> endAt r \<and> (\<exists>q \<in> set (rows w). r = q\<lparr>isConflict := isConflict r\<rparr>)) \<and>
    (\<forall>q \<in> set (rows w). now E \<le> endAt q \<longrightarrow> ruleId q = None \<or> programId q = None \<longrightarrow>
       (\<exists>b. q\<lparr>isConflict := b\<rparr> \<in> set (rows w')))"
proof -
  obtain s d v where v: "cleanup_body E (w\<lparr>exec := s\<rparr>) = (Inr d, v)" "rows w' = rows v"
    using cleanup_op.success [OF assms(1) assms(3) [unfolded cleanup_def]] by blast
  have "slots_ok (w\<lparr>exec := s\<rparr>)" using assms(2) by (simp add: slots_ok_def table_ok_def)
  from cleanup_rows [OF this v(1)] show ?thesis unfolding v(2) by simp
qed

subsection \<open>The conflict sweep\<close>

lemma sweep_allE:
  assumes "sweep_all E log first w = (Inr d, w')"
  obtains v d' w1 where "rows v = rows w" "nextId v = nextId w" "rows w' = rows w1"
    "updateMany (fails E) (createReservesDiff (rows w)
       (createReserves (env_tuners E) (filter (\<lambda>r. \<not> isSkip r \<and> \<not> isOverlap r) (rows w)) @
        filter (\<lambda>r. isSkip r \<or> isOverlap r) (rows w)) log) v = (Inr d', w1)"
proof -
  obtain rs v where q: "findLists (fails E) None w = (Inr rs, v)"
    using assms unfolding sweep_all_def await_Inr by blast
  have rs: "rs = rows w" "rows v = rows w" "nextId v = nextId w"
    using query_Inr query_rows q unfolding findLists_def by fastforce+
  obtain d' w1 where u: "createConflictSweepDiff E rs (filter (\<lambda>r. \<not> isSkip r \<and> \<not> isOverlap r) rs)
      (filter (\<lambda>r. isSkip r \<or> isOverlap r) rs) log v = (Inr d', w1)"
    and rest: "(if first then await (findLists (fails E) None) (\<lambda>candidateSnapshot.
        ret (d'\<lparr>uv_update := candidateSnapshot, isStartupRebuild := True\<rparr>)) else ret d') w1 = (Inr d, w')"
    using assms q unfolding sweep_all_def Let_def await_Inr by auto
  have "rows w' = rows w1" using rest readsD [OF reads_queries(3)]
    by (cases first) (auto simp: await_Inr)
  then show ?thesis using that rs u by (simp add: createConflictSweepDiff_def Let_def)
qed

lemma sweep_rows:
  assumes "slots_ok w" "sweep_all E log first w = (Inr d, w')"
  shows "set (rows w') \<subseteq> set (createReserves (env_tuners E) (filter (\<lambda>r. \<not> isSkip r \<and> \<not> isOverlap r) (rows w))) \<union>
    {r \<in> set (rows w). isSkip r \<or> isOverlap r}"
proof -
  let ?news = "createReserves (env_tuners E) (filter (\<lambda>r. \<not> isSkip r \<and> \<not> isOverlap r) (rows w)) @
      filter (\<lambda>r. isSkip r \<or> isOverlap r) (rows w)"
  obtain v d' w1 where v: "rows v = rows w" "nextId v = nextId w" "rows w' = rows w1"
    and u: "updateMany (fails E) (createReservesDiff (rows w) ?news log) v = (Inr d', w1)"
    by (rule sweep_allE [OF assms(2)])
  have ok: "table_ok v" using slots_okD(1) [OF assms(1)] v by (simp add: table_ok_def)
  have re: "re_evaluated (rows w) ?news" by (rule createReserves_re_evaluated) auto
  have "set (rows w) \<subseteq> set (rows v)" using v(1) by simp
  from re_evaluated_stored(1) [OF ok slots_okD(2) [OF assms(1)] this re u]
  show ?thesis using v by auto
qed

text \<open>
  C20. The conflict sweep that ends \<open>updateAll\<close> makes the table consistent when no two of its rows have one
  key of the comparison (\<open>slots_ok\<close>: identifiers and keys are distinct, numbers not negative): at every
  instant, the rows it leaves that are neither skipped, nor an overlap, nor in conflict can be received together
  by the tuners. Two manual reservations of one time on two services of one physical channel do have one
  key; then only the last of them is compared (\<open>createReservesDiff_reference\<close>), and the result of
  the sweep is not stored for the other.
\<close>

theorem sweep_makes_schedulable:
  assumes "slots_ok w" "\<forall>r \<in> set (rows w). startAt r < endAt r" "sweep_all E log first w = (Inr d, w')"
  shows "schedulable (env_tuners E) {r \<in> set (rows w').
    \<not> isConflict r \<and> \<not> isSkip r \<and> \<not> isOverlap r \<and> startAt r \<le> t \<and> t < endAt r}"
proof -
  have "\<forall>r \<in> set (filter (\<lambda>r. \<not> isSkip r \<and> \<not> isOverlap r) (rows w)). startAt r < endAt r"
    using assms(2) by simp
  from accepted_together [OF this, of "env_tuners E" t] show ?thesis
    by (rule schedulable_mono) (use sweep_rows [OF assms(1,3)] in auto)
qed

subsection \<open>Without rejected calls\<close>

lemma query_answers:
  assumes "\<forall>i. \<not> F i"
  obtains w' where "query F P w = (Inr (filter P (rows w)), w')" "rows w' = rows w" "nextId w' = nextId w"
proof -
  obtain r v where q: "query F P w = (r, v)" by fastforce
  then obtain rs where "r = Inr rs" using query_Inl assms by (cases r) blast+
  then show ?thesis using that q query_Inr query_rows by metis
qed

lemma cleanup_succeeds:
  assumes "idle w" "slots_ok w" "\<forall>i. \<not> fails E i"
  obtains w' where "cleanup E w = (Inr (), w')"
proof -
  obtain s i r v where u: "cleanup_body E (w\<lparr>exec := s\<rparr>) = (r, v)"
    "withExecution 2 (cleanup_body E) w = (r, v\<lparr>exec := unLockExecution i s\<rparr>)"
    using cleanup_op.under_lock [OF assms(1)] by blast
  have ok: "table_ok (w\<lparr>exec := s\<rparr>)" "distinct (map createReserveKey (rows (w\<lparr>exec := s\<rparr>)))"
    using slots_okD(1,2) [OF assms(2)] by (simp_all add: table_ok_def)
  obtain d where "r = Inr d" using cleanup_ends [OF ok, of E _ v] u(1) assms(3) by (cases r) auto
  with u(2) show ?thesis using that by (simp add: cleanup_def await_def emitUpdated_def)
qed

lemma sweep_succeeds:
  assumes "slots_ok w" "\<forall>i. \<not> fails E i"
  obtains d w' where "sweep_all E log False w = (Inr d, w')"
proof -
  let ?news = "createReserves (env_tuners E) (filter (\<lambda>r. \<not> isSkip r \<and> \<not> isOverlap r) (rows w)) @
      filter (\<lambda>r. isSkip r \<or> isOverlap r) (rows w)"
  obtain v where v: "findLists (fails E) None w = (Inr (rows w), v)"
    using query_answers [OF assms(2), of "\<lambda>r. True" w] by (auto simp: findLists_def)
  have "re_evaluated (rows w) ?news" by (rule createReserves_re_evaluated) auto
  from re_evaluated_diff(1) [OF slots_okD(2) [OF assms(1)] this, of log]
  have fresh: "fresh_rows (createReservesDiff (rows w) ?news log)"
    unfolding diff_is_reference [OF slots_okD(2) [OF assms(1)]] by (simp add: fresh_rows_def)
  obtain r w' where u: "updateMany (fails E) (createReservesDiff (rows w) ?news log) v = (r, w')" by fastforce
  then obtain d where "r = Inr d" using updateMany_Inl [OF fresh] assms(2) by (cases r) blast+
  with v u show ?thesis using that [of d w'] by (simp add: sweep_all_def await_def createConflictSweepDiff_def ret_def)
qed

subsection \<open>A concrete table\<close>

text \<open>Two overlapping reservations of the only tuner; the first has ended, the second waited for it.\<close>

definition two_rows :: world where
  "two_rows = empty_world\<lparr>rows :=
     [new_reserve\<lparr>reserveId := Some 1, programId := Some 5, startAt := 100, endAt := 200,
        channel := js ''26'', channelType := js ''GR''\<rparr>,
      new_reserve\<lparr>reserveId := Some 2, programId := Some 6, startAt := 150, endAt := 400,
        channel := js ''27'', channelType := js ''GR'', isConflict := True\<rparr>], nextId := 3\<rparr>"

definition later_env :: env where
  "later_env = empty_env\<lparr>now := 300\<rparr>"

lemma two_rows_ok: "slots_ok two_rows" "idle two_rows" "\<forall>r \<in> set (rows two_rows). startAt r < endAt r"
proof -
  have "distinct (map createReserveKey (rows two_rows))"
    by (simp add: two_rows_def key_exact numbers_ok_def nonneg_def new_reserve_def same_slot_def)
  then show "slots_ok two_rows"
    by (simp add: slots_ok_def table_ok_def two_rows_def numbers_ok_def nonneg_def new_reserve_def)
  show "\<forall>r \<in> set (rows two_rows). startAt r < endAt r" by (simp add: two_rows_def)
  show "idle two_rows" using exec_free_idle [of two_rows] by (simp add: two_rows_def empty_world_def)
qed

lemma no_faults: "\<forall>i. \<not> fails later_env i" "\<forall>i. \<not> fails empty_env i"
  by (simp_all add: later_env_def empty_env_def)

theorem cleanup_terminates_witness:
  "\<exists>d. fst (cleanup_body later_env two_rows) = Inr d"
  using cleanup_terminates [OF slots_okD(1,2) [OF two_rows_ok(1)], of later_env]
  by (simp add: later_env_def empty_env_def)

theorem cleanup_removes_ended_witness:
  "\<exists>w' b. cleanup later_env two_rows = (Inr (), w') \<and> (rows two_rows ! 1)\<lparr>isConflict := b\<rparr> \<in> set (rows w') \<and>
     Some 1 \<notin> reserveId ` set (rows w')"
proof -
  obtain w' where run: "cleanup later_env two_rows = (Inr (), w')"
    by (rule cleanup_succeeds [OF two_rows_ok(2,1) no_faults(1)])
  note facts = cleanup_removes_ended [OF two_rows_ok(2,1) run]
  have "reserveId r \<noteq> Some 1" if r: "r \<in> set (rows w')" for r
  proof -
    have late: "now later_env \<le> endAt r" using facts r by blast
    obtain q where q: "q \<in> set (rows two_rows)" "r = q\<lparr>isConflict := isConflict r\<rparr>" using facts r by blast
    have "endAt r = endAt q" "reserveId r = reserveId q" by (subst q(2), simp)+
    then show ?thesis using q(1) late by (auto simp: two_rows_def later_env_def)
  qed
  moreover have "\<exists>b. (rows two_rows ! 1)\<lparr>isConflict := b\<rparr> \<in> set (rows w')"
    using facts by (auto simp: two_rows_def later_env_def new_reserve_def)
  ultimately show ?thesis using run by (metis image_iff)
qed

theorem sweep_makes_schedulable_witness:
  "\<exists>d w'. sweep_all empty_env False False two_rows = (Inr d, w') \<and>
     schedulable (env_tuners empty_env) {r \<in> set (rows w').
       \<not> isConflict r \<and> \<not> isSkip r \<and> \<not> isOverlap r \<and> startAt r \<le> 180 \<and> 180 < endAt r}"
proof -
  obtain d w' where run: "sweep_all empty_env False False two_rows = (Inr d, w')"
    by (rule sweep_succeeds [OF two_rows_ok(1) no_faults(2)])
  with sweep_makes_schedulable [OF two_rows_ok(1,3) run, of 180] show ?thesis by blast
qed

end
