(* ===== verification/Js_Map.thy ===== *)
theory Js_Map
  imports Epg_Prelude "HOL-Library.AList"
begin

text \<open>
  The \<open>Map\<close> of the language: an association list in the order of insertion. \<open>set\<close> on a
  key that is present keeps its place and on a new one appends it, which is \<open>AList.update\<close>;
  \<open>delete\<close> is \<open>AList.delete\<close>, \<open>get\<close> is \<open>map_of\<close>. The lemmas rest on the
  keys being distinct, which every operation keeps. The theory also holds the
  \<open>Set\<close> of the language, the largest safe integer and the locale of the
  handles that are issued afresh and never become current again once they are replaced, which the
  recording components use for generations, session tokens and deletion tokens.
\<close>

type_synonym ('k, 'v) jsmap = "('k \<times> 'v) list"

abbreviation map_set :: "'k \<Rightarrow> 'v \<Rightarrow> ('k, 'v) jsmap \<Rightarrow> ('k, 'v) jsmap" where
  "map_set \<equiv> AList.update"

abbreviation map_delete :: "'k \<Rightarrow> ('k, 'v) jsmap \<Rightarrow> ('k, 'v) jsmap" where
  "map_delete \<equiv> AList.delete"

definition keys_ok :: "('k, 'v) jsmap \<Rightarrow> bool" where
  "keys_ok m \<longleftrightarrow> distinct (map fst m)"

named_theorems map_simps \<open>equations about maps\<close>

lemma keys_ok_Nil [simp, map_simps]: "keys_ok []"
  by (simp add: keys_ok_def)

lemma keys_ok_set [simp, map_simps]: "keys_ok m \<Longrightarrow> keys_ok (map_set k v m)"
  by (simp add: keys_ok_def distinct_update)

lemma keys_ok_delete [simp, map_simps]: "keys_ok m \<Longrightarrow> keys_ok (map_delete k m)"
  by (simp add: keys_ok_def distinct_delete)

lemma get_set [simp, map_simps]: "map_of (map_set k v m) i = (if i = k then Some v else map_of m i)"
  by (simp add: update_conv')

lemma get_delete [simp, map_simps]: "map_of (map_delete k m) i = (if i = k then None else map_of m i)"
  by (simp add: delete_conv')

lemma in_map: "keys_ok m \<Longrightarrow> (k, v) \<in> set m \<longleftrightarrow> map_of m k = Some v"
  by (auto simp: keys_ok_def)

lemma in_values: "keys_ok m \<Longrightarrow> v \<in> set (map snd m) \<longleftrightarrow> (\<exists>k. map_of m k = Some v)"
  by (force simp: in_map [symmetric])

lemma in_valuesE:
  assumes "keys_ok m" "v \<in> set (map snd m)"
  obtains k where "map_of m k = Some v"
  using assms(2) unfolding in_values [OF assms(1)] by (elim exE) (rule that)

lemma map_of_NoneD: "map_of m k = None \<Longrightarrow> (k, v) \<notin> set m"
  by (auto simp: map_of_eq_None_iff rev_image_eqI)

subsection \<open>Sets and safe integers\<close>

definition MAX_SAFE_INTEGER :: int where
  "MAX_SAFE_INTEGER = 9007199254740991"

text \<open>A \<open>Set\<close> keeps the order in which its elements were added first.\<close>

definition set_add :: "'a list \<Rightarrow> 'a \<Rightarrow> 'a list" where
  "set_add xs x = (if x \<in> set xs then xs else xs @ [x])"

definition set_of :: "'a list \<Rightarrow> 'a list" where
  "set_of xs = foldl set_add [] xs"

lemma set_set_add [simp]: "set (set_add xs x) = insert x (set xs)"
  by (auto simp: set_add_def)

lemma distinct_set_add [simp]: "distinct xs \<Longrightarrow> distinct (set_add xs x)"
  by (simp add: set_add_def)

lemma set_of_facts [simp]: "set (set_of xs) = set xs" "distinct (set_of xs)"
proof -
  have "set (foldl set_add acc xs) = set acc \<union> set xs \<and> (distinct acc \<longrightarrow> distinct (foldl set_add acc xs))" for acc
    by (induction xs arbitrary: acc) auto
  then show "set (set_of xs) = set xs" "distinct (set_of xs)" by (auto simp: set_of_def)
qed

subsection \<open>Handles\<close>

text \<open>
  A store gives every key at most one current handle and issues handles from a counter. When every
  step either keeps the current handle of a key or replaces it by one above the counter, a handle
  that has been replaced never becomes current again, so a holder that compares handles cannot
  mistake a later registration for its own.
\<close>

locale fresh_handles =
  fixes ok :: "'s \<Rightarrow> bool"
    and step :: "'s \<Rightarrow> 's \<Rightarrow> bool"
    and current :: "'s \<Rightarrow> 'k \<Rightarrow> int option"
    and issued :: "'s \<Rightarrow> int"
  assumes ok_step: "ok s \<Longrightarrow> step s s' \<Longrightarrow> ok s'"
    and issued_step: "ok s \<Longrightarrow> step s s' \<Longrightarrow> issued s \<le> issued s'"
    and below: "ok s \<Longrightarrow> current s k = Some h \<Longrightarrow> h \<le> issued s"
    and fresh: "ok s \<Longrightarrow> step s s' \<Longrightarrow> current s' k = Some h \<Longrightarrow> current s k = Some h \<or> issued s < h"
begin

lemma ok_steps: "step\<^sup>*\<^sup>* s s' \<Longrightarrow> ok s \<Longrightarrow> ok s'"
  by (induction rule: rtranclp_induct) (auto intro: ok_step)

lemma issued_steps: "step\<^sup>*\<^sup>* s s' \<Longrightarrow> ok s \<Longrightarrow> issued s \<le> issued s'"
proof (induction rule: rtranclp_induct)
  case (step y z)
  then show ?case using issued_step [of y z] ok_steps [of s y] by (meson order_trans)
qed simp

lemma fresh_steps:
  "step\<^sup>*\<^sup>* s s' \<Longrightarrow> ok s \<Longrightarrow> current s' k = Some h \<Longrightarrow> current s k = Some h \<or> issued s < h"
proof (induction arbitrary: h rule: rtranclp_induct)
  case base
  then show ?case by blast
next
  case (step y z)
  have y: "ok y" "issued s \<le> issued y" using step ok_steps issued_steps by blast+
  then show ?case using fresh [of y z k h] step by fastforce
qed

text \<open>A handle that is not current but was issued never becomes current.\<close>

lemma replaced_stays_replaced:
  assumes "ok s" "step\<^sup>*\<^sup>* s s'" "current s k \<noteq> Some h" "h \<le> issued s"
  shows "current s' k \<noteq> Some h"
  using fresh_steps [OF assms(2,1)] assms(3,4) by fastforce

end

end
