(* ===== verification/Hls_Ids.thy ===== *)
theory Hls_Ids
  imports Js_Map
begin

text \<open>
  \<open>HlsStreamIdAllocator\<close> (\<open>src/src/model/service/stream/manager/HlsStreamIdAllocator.ts\<close>): the
  numbers of live streams, chosen so that they do not collide with segment files that are left on disk.
  An asynchronous function is the synchronous stretches between its awaits: a snapshot is begun, and
  applied when the scan of the directory has returned. The artifact index is outside; its answers are
  arguments. The lemmas show that the number found is the free one nearest to the cursor and that an
  older scan never replaces a newer one.
\<close>

subsection \<open>State\<close>

datatype initialization = NotStarted | Deleting | Settled

record hls_allocator =
  allocationCursor :: int
  hls_available :: bool
  currentArtifactIds :: "int list"
  initialization :: initialization
  snapshotAppliedSequence :: nat
  snapshotSequence :: nat
  startupArtifactIds :: "int list"

subsection \<open>Operations\<close>

definition beginInitialization :: "hls_allocator \<Rightarrow> hls_allocator" where
  "beginInitialization a = (if initialization a \<noteq> NotStarted then a else a\<lparr>initialization := Deleting\<rparr>)"

definition new_allocator :: "bool \<Rightarrow> hls_allocator" where
  "new_allocator available =
     (let a = \<lparr>allocationCursor = 0, hls_available = available, currentArtifactIds = [],
            initialization = NotStarted, snapshotAppliedSequence = 0, snapshotSequence = 0,
            startupArtifactIds = []\<rparr>
      in if available then beginInitialization a else a)"

text \<open>The settlement of \<open>deleteAllArtifacts\<close>: the numbers that are left, or an error that is logged.\<close>

definition deletion_settled :: "int list option \<Rightarrow> hls_allocator \<Rightarrow> hls_allocator" where
  "deletion_settled r a = (case r of
     Some remainingIds \<Rightarrow> a\<lparr>startupArtifactIds := set_of remainingIds, initialization := Settled\<rparr>
   | None \<Rightarrow> a\<lparr>initialization := Settled\<rparr>)"

text \<open>\<open>captureSnapshot\<close> up to its first await, from there to the scan, and after the scan.\<close>

definition captureSnapshot_enter :: "hls_allocator \<Rightarrow> hls_allocator option" where
  "captureSnapshot_enter a = (if \<not> hls_available a then None else Some (beginInitialization a))"

definition captureSnapshot_scan :: "hls_allocator \<Rightarrow> nat \<times> hls_allocator" where
  "captureSnapshot_scan a =
     (let n = snapshotSequence a + 1 in (n, a\<lparr>snapshotSequence := n\<rparr>))"

definition captureSnapshot_apply :: "nat \<Rightarrow> int list \<Rightarrow> hls_allocator \<Rightarrow> int list \<times> hls_allocator" where
  "captureSnapshot_apply n snapshot a =
     (snapshot, if n > snapshotAppliedSequence a
        then a\<lparr>snapshotAppliedSequence := n, currentArtifactIds := set_of snapshot\<rparr> else a)"

definition nextStreamId :: "int \<Rightarrow> int" where
  "nextStreamId i = (if i = MAX_SAFE_INTEGER then 0 else i + 1)"

definition streamIdDistance :: "int \<Rightarrow> int \<Rightarrow> int" where
  "streamIdDistance f t = (if t \<ge> f then t - f else MAX_SAFE_INTEGER - f + t + 1)"

fun probe :: "int \<Rightarrow> int list \<Rightarrow> int" where
  "probe candidate [] = candidate"
| "probe candidate (occupiedId # ids) =
     (if occupiedId \<noteq> candidate then candidate else probe (nextStreamId candidate) ids)"

definition findAvailable :: "int list \<Rightarrow> int \<Rightarrow> int result" where
  "findAvailable unavailable cursor =
     (let orderedIds = js_sort (\<lambda>a b. streamIdDistance cursor a - streamIdDistance cursor b) unavailable;
          candidate = probe cursor orderedIds
      in if candidate \<in> set unavailable then Inl (Thrown ''HLSStreamIdUnavailable'') else Inr candidate)"

definition reserve_id :: "int list \<Rightarrow> int list \<Rightarrow> hls_allocator \<Rightarrow> int result \<times> hls_allocator" where
  "reserve_id activeStreamIds snapshot a =
     (let unavailable = set_of (activeStreamIds @ startupArtifactIds a @ currentArtifactIds a @ snapshot)
      in case findAvailable unavailable (allocationCursor a) of
           Inl e \<Rightarrow> (Inl e, a)
         | Inr candidate \<Rightarrow> (Inr candidate, a\<lparr>allocationCursor := nextStreamId candidate\<rparr>))"

definition hasArtifactCollision :: "(int \<Rightarrow> 'f list) \<Rightarrow> int \<Rightarrow> bool" where
  "hasArtifactCollision listExact i = (length (listExact i) > 0)"

definition markKnownCollision :: "int \<Rightarrow> hls_allocator \<Rightarrow> hls_allocator" where
  "markKnownCollision i a = a\<lparr>currentArtifactIds := set_add (currentArtifactIds a) i\<rparr>"

definition knownCollisions :: "hls_allocator \<Rightarrow> int list" where
  "knownCollisions a = currentArtifactIds a"

definition release_id :: "int \<Rightarrow> hls_allocator \<Rightarrow> hls_allocator" where
  "release_id i a = a\<lparr>allocationCursor := nextStreamId i\<rparr>"

subsection \<open>The circle of numbers\<close>

definition ids :: "int set" where
  "ids = {0..MAX_SAFE_INTEGER}"

text \<open>The number at a distance from the cursor.\<close>

definition at_distance :: "int \<Rightarrow> int \<Rightarrow> int" where
  "at_distance c k = (if c + k \<le> MAX_SAFE_INTEGER then c + k else c + k - MAX_SAFE_INTEGER - 1)"

lemma distance_range: "c \<in> ids \<Longrightarrow> x \<in> ids \<Longrightarrow> streamIdDistance c x \<in> ids"
  by (auto simp: ids_def streamIdDistance_def)

lemma at_distance_range: "c \<in> ids \<Longrightarrow> k \<in> ids \<Longrightarrow> at_distance c k \<in> ids"
  by (auto simp: ids_def at_distance_def)

lemma distance_at: "c \<in> ids \<Longrightarrow> k \<in> ids \<Longrightarrow> streamIdDistance c (at_distance c k) = k"
  by (auto simp: ids_def streamIdDistance_def at_distance_def)

lemma at_distance_of: "c \<in> ids \<Longrightarrow> x \<in> ids \<Longrightarrow> at_distance c (streamIdDistance c x) = x"
  by (auto simp: ids_def streamIdDistance_def at_distance_def)

lemma next_at_distance: "c \<in> ids \<Longrightarrow> k \<in> ids \<Longrightarrow> nextStreamId (at_distance c k) = at_distance c (k + 1)"
  by (auto simp: ids_def nextStreamId_def at_distance_def)

lemma next_in_ids: "i \<in> ids \<Longrightarrow> nextStreamId i \<in> ids"
  by (auto simp: ids_def nextStreamId_def MAX_SAFE_INTEGER_def)

text \<open>The probe stops at the first distance that is not taken.\<close>

lemma probe_at:
  assumes "c \<in> ids" "set os \<subseteq> ids" "sorted_wrt (<) (map (streamIdDistance c) os)"
    and "\<forall>x \<in> set os. j \<le> streamIdDistance c x" "j \<in> ids"
  shows "\<exists>k \<ge> j. probe (at_distance c j) os = at_distance c k \<and> k \<le> MAX_SAFE_INTEGER + 1 \<and>
    (\<forall>i. j \<le> i \<longrightarrow> i < k \<longrightarrow> at_distance c i \<in> set os) \<and>
    (k \<le> MAX_SAFE_INTEGER \<longrightarrow> at_distance c k \<notin> set os)"
  using assms(2-)
proof (induction os arbitrary: j)
  case Nil
  then show ?case by (intro exI [of _ j]) (auto simp: ids_def)
next
  case (Cons x os)
  show ?case
  proof (cases "x = at_distance c j")
    case False
    have "streamIdDistance c y \<noteq> j" if "y \<in> set (x # os)" for y
    proof
      assume y: "streamIdDistance c y = j"
      then have "y = x" using that Cons.prems(2,3) by auto
      then show False using False y at_distance_of [OF assms(1), of x] Cons.prems(1) by simp
    qed
    then have "at_distance c j \<notin> set (x # os)"
      using distance_at [OF assms(1) Cons.prems(4)] by metis
    then show ?thesis using False Cons.prems(4) by (intro exI [of _ j]) (auto simp: ids_def)
  next
    case True
    have x: "streamIdDistance c x = j" using True distance_at [OF assms(1) Cons.prems(4)] by simp
    have later: "\<forall>y \<in> set os. j + 1 \<le> streamIdDistance c y" using Cons.prems(2) x by auto
    have step: "probe (at_distance c j) (x # os) = probe (at_distance c (j + 1)) os"
      using True next_at_distance [OF assms(1) Cons.prems(4)] by simp
    show ?thesis
    proof (cases "j = MAX_SAFE_INTEGER")
      case True
      have "os = []"
      proof (cases os)
        case (Cons y ys)
        then have "j + 1 \<le> streamIdDistance c y" "streamIdDistance c y \<in> ids"
          using later Cons.prems(1) distance_range [OF assms(1)] by auto
        then show ?thesis using True by (simp add: ids_def)
      qed
      then show ?thesis using step True \<open>x = at_distance c j\<close>
        by (intro exI [of _ "j + 1"]) (auto simp: order_le_less)
    next
      case False
      then have "j + 1 \<in> ids" using Cons.prems(4) by (auto simp: ids_def)
      from Cons.IH [OF _ _ later this] Cons.prems obtain k where k: "j + 1 \<le> k"
        "probe (at_distance c (j + 1)) os = at_distance c k" "k \<le> MAX_SAFE_INTEGER + 1"
        "\<forall>i. j + 1 \<le> i \<longrightarrow> i < k \<longrightarrow> at_distance c i \<in> set os" "k \<le> MAX_SAFE_INTEGER \<longrightarrow> at_distance c k \<notin> set os"
        by auto
      have "at_distance c k \<noteq> x" if "k \<le> MAX_SAFE_INTEGER"
      proof -
        have "k \<in> ids" using that k(1) Cons.prems(4) by (auto simp: ids_def)
        then show ?thesis using distance_at [OF assms(1)] x k(1) by force
      qed
      moreover have "at_distance c i \<in> set (x # os)" if "j \<le> i" "i < k" for i
        using that k(4) True by (cases "i = j") auto
      ultimately show ?thesis using k step by (intro exI [of _ k]) auto
    qed
  qed
qed

lemma distance_inj: "c \<in> ids \<Longrightarrow> x \<in> ids \<Longrightarrow> y \<in> ids \<Longrightarrow> streamIdDistance c x = streamIdDistance c y \<longleftrightarrow> x = y"
  using at_distance_of by metis

lemma ordered_ids:
  assumes "c \<in> ids" "set us \<subseteq> ids" "distinct us"
  shows "sorted_wrt (<) (map (streamIdDistance c) (js_sort (\<lambda>a b. streamIdDistance c a - streamIdDistance c b) us))"
proof -
  have "js_sort (\<lambda>a b. streamIdDistance c a - streamIdDistance c b) us = sort_key (streamIdDistance c) us"
    by (rule js_sort_key) simp
  moreover have "inj_on (streamIdDistance c) (set us)"
    using distance_inj [OF assms(1)] assms(2) by (auto simp: inj_on_def)
  ultimately show ?thesis using assms(3) by (simp add: strict_sorted_iff distinct_map)
qed

lemma findAvailable_spec:
  assumes "c \<in> ids" "set us \<subseteq> ids" "distinct us"
  shows "case findAvailable us c of
      Inl e \<Rightarrow> ids \<subseteq> set us
    | Inr x \<Rightarrow> x \<in> ids - set us \<and> (\<forall>y \<in> ids - set us. streamIdDistance c x \<le> streamIdDistance c y)"
proof -
  define os where "os = js_sort (\<lambda>a b. streamIdDistance c a - streamIdDistance c b) us"
  have os: "set os = set us" by (simp add: os_def)
  have zero: "0 \<in> ids" "at_distance c 0 = c" using assms(1) by (auto simp: ids_def MAX_SAFE_INTEGER_def at_distance_def)
  have "\<forall>x \<in> set os. 0 \<le> streamIdDistance c x"
    using assms(2) distance_range [OF assms(1)] by (fastforce simp: os ids_def)
  from probe_at [OF assms(1) _ ordered_ids [OF assms, folded os_def] this zero(1)] assms(2) zero(2)
  obtain k where k: "0 \<le> k" "probe c os = at_distance c k" "k \<le> MAX_SAFE_INTEGER + 1"
    "\<forall>i. 0 \<le> i \<longrightarrow> i < k \<longrightarrow> at_distance c i \<in> set us" "k \<le> MAX_SAFE_INTEGER \<longrightarrow> at_distance c k \<notin> set us"
    by (auto simp: os)
  have taken: "y \<in> set us" if "y \<in> ids" "streamIdDistance c y < k" for y
    using k(4) distance_range [OF assms(1) that(1)] at_distance_of [OF assms(1) that(1)] that(2)
    by (metis atLeastAtMost_iff ids_def)
  have find: "findAvailable us c = (if at_distance c k \<in> set us then Inl (Thrown ''HLSStreamIdUnavailable'')
      else Inr (at_distance c k))"
    by (simp add: findAvailable_def Let_def k(2) flip: os_def)
  show ?thesis
  proof (cases "k \<le> MAX_SAFE_INTEGER")
    case True
    then have "k \<in> ids" using k(1) by (simp add: ids_def)
    then show ?thesis
      using find k(5) True taken distance_at [OF assms(1)] at_distance_range [OF assms(1)] by (auto simp: not_less [symmetric])
  next
    case False
    then have all: "ids \<subseteq> set us"
      using taken distance_range [OF assms(1)] k(3) by (fastforce simp: ids_def)
    have "at_distance c k = c"
      using False k(3) assms(1) by (auto simp: at_distance_def ids_def)
    then show ?thesis using find all assms(1) by auto
  qed
qed

text \<open>The numbers known to the allocator are numbers of the circle.\<close>

definition allocator_ok :: "hls_allocator \<Rightarrow> bool" where
  "allocator_ok a \<longleftrightarrow> allocationCursor a \<in> ids \<and> set (startupArtifactIds a) \<subseteq> ids \<and> set (currentArtifactIds a) \<subseteq> ids"

definition taken :: "int list \<Rightarrow> int list \<Rightarrow> hls_allocator \<Rightarrow> int set" where
  "taken active snapshot a = set active \<union> set (startupArtifactIds a) \<union> set (currentArtifactIds a) \<union> set snapshot"

lemma allocator_kept:
  assumes "allocator_ok a"
  shows "set_option r \<subseteq> {xs. set xs \<subseteq> ids} \<Longrightarrow> allocator_ok (deletion_settled r a)"
    "set snapshot \<subseteq> ids \<Longrightarrow> allocator_ok (snd (captureSnapshot_apply n snapshot a))"
    "allocator_ok (snd (captureSnapshot_scan a))" "i \<in> ids \<Longrightarrow> allocator_ok (markKnownCollision i a)"
    "i \<in> ids \<Longrightarrow> allocator_ok (release_id i a)" "allocator_ok (beginInitialization a)"
  using assms next_in_ids
  by (auto simp: allocator_ok_def deletion_settled_def captureSnapshot_apply_def captureSnapshot_scan_def
      markKnownCollision_def release_id_def beginInitialization_def Let_def split: option.split)

text \<open>
  A number is reserved only if it is free: not of an active stream, not left over from the start,
  not known to collide and not in the snapshot; it is the free number nearest to the cursor, going up and
  around the largest safe integer, and the cursor moves behind it. The reservation throws only when every
  number is taken, and then changes nothing.
\<close>

theorem reserve_id_nearest:
  assumes "allocator_ok a" "set active \<subseteq> ids" "set snapshot \<subseteq> ids"
  shows "case reserve_id active snapshot a of
      (Inl e, a') \<Rightarrow> a' = a \<and> ids \<subseteq> taken active snapshot a
    | (Inr i, a') \<Rightarrow> i \<in> ids - taken active snapshot a \<and>
        (\<forall>j \<in> ids - taken active snapshot a.
           streamIdDistance (allocationCursor a) i \<le> streamIdDistance (allocationCursor a) j) \<and>
        allocator_ok a' \<and> allocationCursor a' = nextStreamId i"
proof -
  let ?us = "set_of (active @ startupArtifactIds a @ currentArtifactIds a @ snapshot)"
  have us: "set ?us = taken active snapshot a" by (auto simp: taken_def)
  have ok: "allocationCursor a \<in> ids" "set ?us \<subseteq> ids" "distinct ?us"
    using assms by (auto simp: allocator_ok_def)
  note spec = findAvailable_spec [OF ok, unfolded us]
  show ?thesis
  proof (cases "findAvailable ?us (allocationCursor a)")
    case (Inl e)
    with spec show ?thesis by (simp add: reserve_id_def)
  next
    case (Inr i)
    then have "allocator_ok (a\<lparr>allocationCursor := nextStreamId i\<rparr>)"
      using spec assms(1) next_in_ids by (simp add: allocator_ok_def)
    with Inr spec show ?thesis by (simp add: reserve_id_def)
  qed
qed

theorem reserve_id_nearest_witness:
  "fst (reserve_id [0, 2] [1] (new_allocator True)) = Inr 3 \<and>
   streamIdDistance 0 3 \<le> streamIdDistance 0 4"
proof -
  have run: "reserve_id [0, 2] [1] (new_allocator True) = (Inr 3, snd (reserve_id [0, 2] [1] (new_allocator True)))"
    "taken [0, 2] [1] (new_allocator True) = {0, 1, 2}" "allocationCursor (new_allocator True) = 0"
    by code_simp+
  have ok: "allocator_ok (new_allocator True)"
    by (simp add: allocator_ok_def new_allocator_def beginInitialization_def ids_def MAX_SAFE_INTEGER_def)
  have "4 \<in> ids" "set [0, 2] \<subseteq> ids" "set [1] \<subseteq> ids" by (simp_all add: ids_def MAX_SAFE_INTEGER_def)
  with reserve_id_nearest [OF ok this(2,3)] run show ?thesis by (subst (asm) run(1)) auto
qed

subsection \<open>Scans that overlap\<close>

lemma applied_sequence:
  "snapshotAppliedSequence (snd (captureSnapshot_apply n s a)) = max n (snapshotAppliedSequence a)"
  by (simp add: captureSnapshot_apply_def)

text \<open>Scans may return in any order: the numbers kept are those of the scan that was begun last.\<close>

lemma newest_scan_wins:
  assumes "distinct (map fst scans)" "(n, s) \<in> set scans" "\<forall>m \<in> fst ` set scans. m \<le> n"
    and "snapshotAppliedSequence a < n"
  shows "currentArtifactIds (fold (\<lambda>(m, t) a. snd (captureSnapshot_apply m t a)) scans a) = set_of s"
proof -
  have stays: "currentArtifactIds (fold (\<lambda>(m, t) a. snd (captureSnapshot_apply m t a)) scans a) = currentArtifactIds a"
    if "\<forall>m \<in> fst ` set scans. m \<le> snapshotAppliedSequence a" for scans and a :: hls_allocator
    using that
  proof (induction scans arbitrary: a)
    case (Cons x scans)
    have "snd (captureSnapshot_apply (fst x) (snd x) a) = a"
      using Cons.prems by (simp add: captureSnapshot_apply_def)
    with Cons show ?case by (simp add: split_def)
  qed simp
  show ?thesis
    using assms
  proof (induction scans arbitrary: a)
    case (Cons x scans)
    let ?a = "snd (captureSnapshot_apply (fst x) (snd x) a)"
    show ?case
    proof (cases "x = (n, s)")
      case True
      then have "snapshotAppliedSequence ?a = n" "currentArtifactIds ?a = set_of s"
        using Cons.prems(4) by (simp_all add: captureSnapshot_apply_def)
      then show ?thesis using stays [of scans ?a] Cons.prems(3) by (simp add: split_def)
    next
      case False
      then have "(n, s) \<in> set scans" using Cons.prems(2) by auto
      then have "fst x \<noteq> n" using Cons.prems(1) by (auto simp: image_iff)
      then have "fst x < n" using Cons.prems(3) by (simp add: order_less_le)
      then have "snapshotAppliedSequence ?a < n" using Cons.prems(4) by (simp add: applied_sequence)
      then show ?thesis using Cons.IH [of ?a] Cons.prems(1,3) \<open>(n, s) \<in> set scans\<close> by (simp add: split_def)
    qed
  qed simp
qed

end
