(* ===== verification/Deletion_Tokens.thy ===== *)
theory Deletion_Tokens
  imports Js_Map
begin

text \<open>
  \<open>PreparedDeletionTokenRegistry\<close>
  (\<open>src/src/model/operator/recorded/PreparedDeletionTokenRegistry.ts\<close>): the tokens between the
  preparation of a deletion and its commit. A token is a frozen empty object, so all there is to it is
  its identity: the objects are numbered in the order of their creation. The two weak collections of a
  kind hold their entries as long as somebody has the token, which is all that can be observed.
\<close>

subsection \<open>State and operations\<close>

record 'v kind_registry =
  active_tokens :: "(nat, 'v) jsmap"
  consumed_tokens :: "nat list"

record ('k, 'v) token_registry =
  registries :: "('k, 'v kind_registry) jsmap"
  created :: nat

datatype 'v consumption = Consumed 'v | TokenReplayed | TokenStale

definition new_tokens :: "('k, 'v) token_registry" where
  "new_tokens = \<lparr>registries = [], created = 0\<rparr>"

definition getOrCreateRegistry :: "'k \<Rightarrow> ('k, 'v) token_registry \<Rightarrow> 'v kind_registry \<times> ('k, 'v) token_registry" where
  "getOrCreateRegistry kind g = (case map_of (registries g) kind of
     Some existing \<Rightarrow> (existing, g)
   | None \<Rightarrow> (let r = \<lparr>active_tokens = [], consumed_tokens = []\<rparr>
              in (r, g\<lparr>registries := map_set kind r (registries g)\<rparr>)))"

definition prepare :: "'k \<Rightarrow> 'v \<Rightarrow> ('k, 'v) token_registry \<Rightarrow> nat \<times> ('k, 'v) token_registry" where
  "prepare kind v g =
     (let token = created g;
          (r, g1) = getOrCreateRegistry kind (g\<lparr>created := token + 1\<rparr>);
          r' = r\<lparr>active_tokens := map_set token v (active_tokens r)\<rparr>
      in (token, g1\<lparr>registries := map_set kind r' (registries g1)\<rparr>))"

definition consume :: "'k \<Rightarrow> nat \<Rightarrow> ('k, 'v) token_registry \<Rightarrow> 'v consumption \<times> ('k, 'v) token_registry" where
  "consume kind token g = (case map_of (registries g) kind of
     None \<Rightarrow> (TokenStale, g)
   | Some r \<Rightarrow>
       (case map_of (active_tokens r) token of
          Some v \<Rightarrow> (let r' = r\<lparr>active_tokens := map_delete token (active_tokens r),
                           consumed_tokens := consumed_tokens r @ [token]\<rparr>
                    in (Consumed v, g\<lparr>registries := map_set kind r' (registries g)\<rparr>))
        | None \<Rightarrow> if token \<in> set (consumed_tokens r) then (TokenReplayed, g) else (TokenStale, g)))"

text \<open>What can happen to a registry.\<close>

datatype ('k, 'v) token_op = Prepare 'k 'v | Consume 'k nat

fun apply_op :: "('k, 'v) token_op \<Rightarrow> ('k, 'v) token_registry \<Rightarrow> ('k, 'v) token_registry" where
  "apply_op (Prepare k v) g = snd (prepare k v g)"
| "apply_op (Consume k t) g = snd (consume k t g)"

subsection \<open>The state of a token\<close>

datatype 'v token_state = Unknown | Active 'v | Used

definition token_state :: "('k, 'v) token_registry \<Rightarrow> 'k \<Rightarrow> nat \<Rightarrow> 'v token_state" where
  "token_state g k t = (case map_of (registries g) k of
     None \<Rightarrow> Unknown
   | Some r \<Rightarrow> (case map_of (active_tokens r) t of
       Some v \<Rightarrow> Active v | None \<Rightarrow> if t \<in> set (consumed_tokens r) then Used else Unknown))"

text \<open>A token that was never created is unknown, and a token is known to one kind only.\<close>

definition tokens_ok :: "('k, 'v) token_registry \<Rightarrow> bool" where
  "tokens_ok g \<longleftrightarrow> (\<forall>k t. token_state g k t \<noteq> Unknown \<longrightarrow> t < created g) \<and>
     (\<forall>k j t. token_state g k t \<noteq> Unknown \<longrightarrow> token_state g j t \<noteq> Unknown \<longrightarrow> k = j)"

lemma consume_answer:
  "fst (consume k t g) = (case token_state g k t of
     Unknown \<Rightarrow> TokenStale | Active v \<Rightarrow> Consumed v | Used \<Rightarrow> TokenReplayed)"
  by (simp add: consume_def token_state_def Let_def split: option.split)

lemma consume_state:
  "token_state (snd (consume k t g)) j s =
     (if j = k \<and> s = t \<and> token_state g k t \<noteq> Unknown then Used else token_state g j s)"
proof (cases "map_of (registries g) k")
  case None
  then show ?thesis by (simp add: consume_def token_state_def)
next
  case (Some r)
  then show ?thesis
    by (cases "map_of (active_tokens r) t"; cases "j = k"; cases "s = t")
      (simp_all add: consume_def token_state_def)
qed

lemma prepare_state:
  "token_state (snd (prepare k v g)) j s = (if j = k \<and> s = created g then Active v else token_state g j s)"
  by (auto simp: prepare_def token_state_def getOrCreateRegistry_def Let_def split: option.splits if_splits)

lemma created_after: "created (snd (prepare k v g)) = created g + 1" "created (snd (consume k t g)) = created g"
  "fst (prepare k v g) = created g"
  by (simp_all add: prepare_def consume_def getOrCreateRegistry_def Let_def split: option.split)

lemma tokens_ok_new: "tokens_ok new_tokens"
  by (simp add: tokens_ok_def new_tokens_def token_state_def)

lemma tokens_ok_op:
  assumes "tokens_ok g"
  shows "tokens_ok (apply_op p g)"
proof (cases p)
  case (Prepare k v)
  have "token_state g j (created g) = Unknown" for j using assms by (auto simp: tokens_ok_def)
  then show ?thesis using assms Prepare
    by (auto simp: tokens_ok_def prepare_state created_after less_Suc_eq split: if_splits)
next
  case (Consume k t)
  have "token_state (apply_op p g) j s \<noteq> Unknown \<longleftrightarrow> token_state g j s \<noteq> Unknown" for j s
    using Consume by (auto simp: consume_state)
  then show ?thesis using assms Consume unfolding tokens_ok_def by (simp add: created_after)
qed

lemma tokens_ok_ops: "tokens_ok g \<Longrightarrow> tokens_ok (fold apply_op ps g)"
  by (induction ps arbitrary: g) (auto intro: tokens_ok_op)

lemma active_kept:
  "token_state g k t = Active v \<Longrightarrow> Consume k t \<notin> set ps \<Longrightarrow> tokens_ok g \<Longrightarrow>
     token_state (fold apply_op ps g) k t = Active v"
proof (induction ps arbitrary: g)
  case (Cons p ps)
  have "token_state (apply_op p g) k t = Active v"
  proof (cases p)
    case (Prepare j w)
    have "t < created g" using Cons.prems(1,3) unfolding tokens_ok_def by (metis token_state.distinct(1))
    then show ?thesis using Prepare Cons.prems(1) by (simp add: prepare_state)
  next
    case (Consume j s)
    then show ?thesis using Cons.prems(1,2) by (auto simp: consume_state)
  qed
  then show ?case using Cons.IH [of "apply_op p g"] Cons.prems tokens_ok_op by auto
qed simp

lemma used_kept: "token_state g k t = Used \<Longrightarrow> tokens_ok g \<Longrightarrow> token_state (fold apply_op ps g) k t = Used"
proof (induction ps arbitrary: g)
  case (Cons p ps)
  have "t < created g" using Cons.prems unfolding tokens_ok_def by (metis token_state.distinct(3))
  then have "token_state (apply_op p g) k t = Used"
    using Cons.prems(1) by (cases p) (simp_all add: prepare_state consume_state)
  then show ?case using Cons.IH tokens_ok_op [OF Cons.prems(2)] by simp
qed simp

lemma other_kind:
  "tokens_ok g \<Longrightarrow> token_state g k t \<noteq> Unknown \<Longrightarrow> j \<noteq> k \<Longrightarrow> token_state g j t = Unknown"
  unfolding tokens_ok_def by blast

text \<open>
  C21. A prepared deletion is committed at most once, and only as what it was prepared for. The token of a
  preparation yields its value at the first consumption, whatever else has happened to the registry
  in between; every later consumption is reported as a replay; and with another kind the token is
  stale before and after.
\<close>

theorem token_consumed_once:
  assumes "tokens_ok g" "prepare k v g = (t, g1)" "Consume k t \<notin> set ps"
    and "consume k t (fold apply_op ps g1) = (answer, g2)"
  shows "answer = Consumed v \<and> fst (consume k t (fold apply_op qs g2)) = TokenReplayed \<and>
    (j \<noteq> k \<longrightarrow> fst (consume j t (fold apply_op ps g1)) = TokenStale \<and>
       fst (consume j t (fold apply_op qs g2)) = TokenStale)"
proof -
  have g1: "g1 = snd (prepare k v g)" "t = created g" using assms(2) created_after(3) [of k v g] by simp_all
  have ok1: "tokens_ok (fold apply_op ps g1)"
    using tokens_ok_ops [OF tokens_ok_op [OF assms(1), of "Prepare k v"]] g1 by simp
  have "token_state g1 k t = Active v" by (simp add: g1 prepare_state)
  then have act: "token_state (fold apply_op ps g1) k t = Active v"
    using active_kept [OF _ assms(3)] tokens_ok_op [OF assms(1), of "Prepare k v"] g1 by simp
  have g2: "g2 = apply_op (Consume k t) (fold apply_op ps g1)" "answer = Consumed v"
    using assms(4) consume_answer [of k t "fold apply_op ps g1"] act by auto
  have u2: "token_state g2 k t = Used" "tokens_ok g2"
    using act tokens_ok_op [OF ok1, of "Consume k t"] by (simp_all add: g2(1) consume_state)
  note used = used_kept [OF u2, of qs] tokens_ok_ops [OF u2(2), of qs]
  show ?thesis
    using g2(2) used act other_kind [OF ok1, of k t j] other_kind [OF used(2), of k t j]
    by (simp add: consume_answer)
qed

theorem token_consumed_once_witness:
  "fst (consume ''recorded'' 0 (snd (consume ''recorded'' 0 (snd (prepare ''recorded'' (5::int) new_tokens))))) = TokenReplayed"
  using token_consumed_once [OF tokens_ok_new, of "''recorded''" "5::int" 0 "snd (prepare ''recorded'' 5 new_tokens)" "[]"
      "Consumed 5" "snd (consume ''recorded'' 0 (snd (prepare ''recorded'' 5 new_tokens)))" "[]"]
  by (simp add: prepare_def consume_def new_tokens_def getOrCreateRegistry_def Let_def)

end
