(* ===== verification/Upload_Admission.thy ===== *)
theory Upload_Admission
  imports Js_Map
begin

text \<open>
  \<open>src/src/model/service/upload/UploadAdmissionController.ts\<close>: the places for concurrent uploads,
  the end of an upload request, which several events race for, and the removal of what an upload leaves
  behind. The leases and finalizers of the process are numbered in the order of their creation; what a
  callback of the client does (return, throw, or return a promise) is an argument. The theorem says that
  no more than the configured number of places is ever taken, and that every request ends once and gives
  its place back.
\<close>

subsection \<open>Places\<close>

record admission =
  active :: int
  released :: "bool list"

definition new_admission :: admission where
  "new_admission = \<lparr>active = 0, released = []\<rparr>"

definition tryAcquire :: "int \<Rightarrow> admission \<Rightarrow> nat option \<times> admission" where
  "tryAcquire maximum a =
     (if active a \<ge> maximum then (None, a)
      else (Some (length (released a)), a\<lparr>active := active a + 1, released := released a @ [False]\<rparr>))"

definition releaseOnce :: "nat \<Rightarrow> admission \<Rightarrow> admission" where
  "releaseOnce l a =
     (if released a ! l then a else a\<lparr>released := (released a)[l := True], active := active a - 1\<rparr>)"

definition places_taken :: "admission \<Rightarrow> nat" where
  "places_taken a = length (filter (\<lambda>b. \<not> b) (released a))"

definition admission_ok :: "int \<Rightarrow> admission \<Rightarrow> bool" where
  "admission_ok maximum a \<longleftrightarrow> active a = int (places_taken a) \<and> active a \<le> max 0 maximum"

lemma places_taken_set: "l < length bs \<Longrightarrow> \<not> bs ! l \<Longrightarrow>
    Suc (length (filter (\<lambda>b. \<not> b) (bs[l := True]))) = length (filter (\<lambda>b. \<not> b) bs)"
  by (induction bs arbitrary: l) (auto split: nat.splits simp: nth_Cons')

lemma tryAcquire_ok: "admission_ok m a \<Longrightarrow> admission_ok m (snd (tryAcquire m a))"
  by (auto simp: admission_ok_def tryAcquire_def places_taken_def)

lemma releaseOnce_ok:
  assumes "admission_ok m a" "l < length (released a)"
  shows "admission_ok m (releaseOnce l a)"
proof (cases "released a ! l")
  case True
  then show ?thesis using assms(1) by (simp add: releaseOnce_def)
next
  case False
  from places_taken_set [OF assms(2) False] False assms(1) show ?thesis
    by (simp add: releaseOnce_def admission_ok_def places_taken_def)
qed

lemma releaseOnce_released:
  "l < length (released a) \<Longrightarrow> released (releaseOnce l a) = (released a)[l := True]"
  by (simp add: releaseOnce_def) (metis (full_types) list_update_id)

subsection \<open>What an upload leaves behind\<close>

text \<open>The outcome of one removal, as the file system reports it.\<close>

datatype removal = Removed | Missing | RemovalFailed string

record incoming_upload =
  tokenDirectory :: string
  payloadPath :: string
  cleanup_started :: bool
  removed_paths :: "string list"
  cleanup_log :: "string list"

definition removeExact :: "string \<Rightarrow> string \<Rightarrow> removal \<Rightarrow> incoming_upload \<Rightarrow> incoming_upload" where
  "removeExact label target r f =
     (let f1 = f\<lparr>removed_paths := removed_paths f @ [target]\<rparr>
      in case r of
           Removed \<Rightarrow> f1
         | Missing \<Rightarrow> f1
         | RemovalFailed message \<Rightarrow> f1\<lparr>cleanup_log := cleanup_log f1 @ [''upload '' @ label @ '' cleanup error: '' @ target @ '': '' @ message]\<rparr>)"

definition cleanupOwnedPaths :: "removal \<Rightarrow> removal \<Rightarrow> incoming_upload \<Rightarrow> incoming_upload" where
  "cleanupOwnedPaths payload directory f =
     removeExact ''token directory'' (tokenDirectory f) directory (removeExact ''payload'' (payloadPath f) payload f)"

definition cleanupOnce :: "removal \<Rightarrow> removal \<Rightarrow> incoming_upload \<Rightarrow> incoming_upload" where
  "cleanupOnce payload directory f =
     (if cleanup_started f then f else cleanupOwnedPaths payload directory (f\<lparr>cleanup_started := True\<rparr>))"

lemma removeExact_frame [simp]:
  "removed_paths (removeExact l t r f) = removed_paths f @ [t]" "cleanup_started (removeExact l t r f) = cleanup_started f"
  "tokenDirectory (removeExact l t r f) = tokenDirectory f" "payloadPath (removeExact l t r f) = payloadPath f"
  by (cases r; simp add: removeExact_def)+

lemma cleanupOnce_once:
  "\<not> cleanup_started f \<Longrightarrow> removed_paths (cleanupOnce p d f) = removed_paths f @ [payloadPath f, tokenDirectory f]"
  "cleanupOnce q e (cleanupOnce p d f) = cleanupOnce p d f"
  by (simp_all add: cleanupOnce_def cleanupOwnedPaths_def)

subsection \<open>The end of a request\<close>

datatype terminal_reason = Success | Failure | Abort | ReceiveTimeout | RegistrationTimeout

text \<open>What the callback \<open>onFinish\<close> does.\<close>

datatype finish_result = Returned | Promised | Threw

record finalizer =
  finished :: bool
  pending_completion :: bool
  cleanupIncomingAfterSuccess :: bool
  fin_lease :: nat
  onFinish_calls :: "terminal_reason list"

record upload_state =
  adm :: admission
  finalizers :: "finalizer list"
  requestFinalizers :: "(nat, nat) jsmap"

definition new_finalizer :: "nat \<Rightarrow> upload_state \<Rightarrow> nat \<times> upload_state" where
  "new_finalizer l u = (length (finalizers u), u\<lparr>finalizers := finalizers u @
     [\<lparr>finished = False, pending_completion = False, cleanupIncomingAfterSuccess = False,
       fin_lease = l, onFinish_calls = []\<rparr>]\<rparr>)"

definition isFinished :: "nat \<Rightarrow> upload_state \<Rightarrow> bool" where
  "isFinished f u = finished (finalizers u ! f)"

definition requestIncomingCleanupAfterSuccess :: "nat \<Rightarrow> upload_state \<Rightarrow> upload_state" where
  "requestIncomingCleanupAfterSuccess f u =
     (if \<not> finished (finalizers u ! f)
      then u\<lparr>finalizers := (finalizers u)[f := (finalizers u ! f)\<lparr>cleanupIncomingAfterSuccess := True\<rparr>]\<rparr> else u)"

definition shouldCleanupIncomingAfterSuccess :: "nat \<Rightarrow> upload_state \<Rightarrow> bool" where
  "shouldCleanupIncomingAfterSuccess f u = cleanupIncomingAfterSuccess (finalizers u ! f)"

definition finishOnce :: "nat \<Rightarrow> terminal_reason \<Rightarrow> finish_result \<Rightarrow> upload_state \<Rightarrow> bool \<times> upload_state" where
  "finishOnce f reason onFinish u =
     (let z = finalizers u ! f
      in if finished z then (False, u)
         else let z1 = z\<lparr>finished := True, onFinish_calls := onFinish_calls z @ [reason]\<rparr>;
                  u1 = u\<lparr>finalizers := (finalizers u)[f := z1]\<rparr>
              in (True, case onFinish of
                    Promised \<Rightarrow> u1\<lparr>finalizers := (finalizers u1)[f := z1\<lparr>pending_completion := True\<rparr>]\<rparr>
                  | Returned \<Rightarrow> u1\<lparr>adm := releaseOnce (fin_lease z1) (adm u1)\<rparr>
                  | Threw \<Rightarrow> u1\<lparr>adm := releaseOnce (fin_lease z1) (adm u1)\<rparr>))"

text \<open>The promise of \<open>onFinish\<close> settles, either way.\<close>

definition completion_settled :: "nat \<Rightarrow> upload_state \<Rightarrow> upload_state" where
  "completion_settled f u =
     (let z = finalizers u ! f
      in if pending_completion z
         then u\<lparr>finalizers := (finalizers u)[f := z\<lparr>pending_completion := False\<rparr>],
                adm := releaseOnce (fin_lease z) (adm u)\<rparr>
         else u)"

definition bindUploadRequestFinalizer :: "nat \<Rightarrow> nat \<Rightarrow> upload_state \<Rightarrow> upload_state" where
  "bindUploadRequestFinalizer r f u = u\<lparr>requestFinalizers := map_set r f (requestFinalizers u)\<rparr>"

definition unbindUploadRequestFinalizer :: "nat \<Rightarrow> nat \<Rightarrow> upload_state \<Rightarrow> upload_state" where
  "unbindUploadRequestFinalizer r f u =
     (if map_of (requestFinalizers u) r = Some f
      then u\<lparr>requestFinalizers := map_delete r (requestFinalizers u)\<rparr> else u)"

definition getUploadRequestFinalizer :: "nat \<Rightarrow> upload_state \<Rightarrow> nat option" where
  "getUploadRequestFinalizer r u = map_of (requestFinalizers u) r"

definition finishUploadRequest :: "nat \<Rightarrow> terminal_reason \<Rightarrow> finish_result \<Rightarrow> upload_state \<Rightarrow> bool \<times> upload_state" where
  "finishUploadRequest r reason onFinish u = (case map_of (requestFinalizers u) r of
     None \<Rightarrow> (False, u) | Some f \<Rightarrow> finishOnce f reason onFinish u)"

text \<open>What can happen: the objects that are used have been created before.\<close>

inductive upload_step :: "int \<Rightarrow> upload_state \<Rightarrow> upload_state \<Rightarrow> bool" for maximum where
  acquire: "upload_step maximum u (u\<lparr>adm := snd (tryAcquire maximum (adm u))\<rparr>)"
| release: "l < length (released (adm u)) \<Longrightarrow> upload_step maximum u (u\<lparr>adm := releaseOnce l (adm u)\<rparr>)"
| create: "l < length (released (adm u)) \<Longrightarrow> upload_step maximum u (snd (new_finalizer l u))"
| keep_incoming: "f < length (finalizers u) \<Longrightarrow> upload_step maximum u (requestIncomingCleanupAfterSuccess f u)"
| finish: "f < length (finalizers u) \<Longrightarrow> upload_step maximum u (snd (finishOnce f reason result u))"
| settle: "f < length (finalizers u) \<Longrightarrow> upload_step maximum u (completion_settled f u)"
| bind: "f < length (finalizers u) \<Longrightarrow> upload_step maximum u (bindUploadRequestFinalizer r f u)"
| unbind: "upload_step maximum u (unbindUploadRequestFinalizer r f u)"
| finish_request: "upload_step maximum u (snd (finishUploadRequest r reason result u))"

definition new_upload :: upload_state where
  "new_upload = \<lparr>adm = new_admission, finalizers = [], requestFinalizers = []\<rparr>"

subsection \<open>The invariant\<close>

text \<open>A finalizer has called its callback once when it is finished and not before, and has given its
  place back unless the promise of the callback is still pending.\<close>

definition finalizer_ok :: "admission \<Rightarrow> finalizer \<Rightarrow> bool" where
  "finalizer_ok a z \<longleftrightarrow> fin_lease z < length (released a) \<and>
     length (onFinish_calls z) = (if finished z then 1 else 0) \<and>
     (pending_completion z \<longrightarrow> finished z) \<and>
     (finished z \<longrightarrow> \<not> pending_completion z \<longrightarrow> released a ! fin_lease z)"

definition upload_ok :: "int \<Rightarrow> upload_state \<Rightarrow> bool" where
  "upload_ok maximum u \<longleftrightarrow> admission_ok maximum (adm u) \<and> (\<forall>z \<in> set (finalizers u). finalizer_ok (adm u) z) \<and>
     (\<forall>r f. map_of (requestFinalizers u) r = Some f \<longrightarrow> f < length (finalizers u))"

lemma upload_okD:
  assumes "upload_ok m u"
  shows "admission_ok m (adm u)" "z \<in> set (finalizers u) \<Longrightarrow> finalizer_ok (adm u) z"
    "map_of (requestFinalizers u) r = Some f \<Longrightarrow> f < length (finalizers u)"
    "f < length (finalizers u) \<Longrightarrow> finalizer_ok (adm u) (finalizers u ! f)"
  using assms unfolding upload_ok_def by auto

lemma finalizer_ok_acquire: "finalizer_ok a z \<Longrightarrow> finalizer_ok (snd (tryAcquire m a)) z"
  by (auto simp: finalizer_ok_def tryAcquire_def nth_append)

lemma finalizer_ok_release: "l < length (released a) \<Longrightarrow> finalizer_ok a z \<Longrightarrow> finalizer_ok (releaseOnce l a) z"
  by (auto simp: finalizer_ok_def releaseOnce_released nth_list_update)

lemma upload_ok_update:
  assumes "upload_ok m u" "f < length (finalizers u)" "finalizer_ok a z" "admission_ok m a"
    and "\<And>y. finalizer_ok (adm u) y \<Longrightarrow> finalizer_ok a y"
  shows "upload_ok m (u\<lparr>finalizers := (finalizers u)[f := z], adm := a\<rparr>)"
  using assms set_update_subset_insert [of "finalizers u" f z] unfolding upload_ok_def by auto

lemma upload_ok_finalizer:
  assumes "upload_ok m u" "f < length (finalizers u)" "finalizer_ok (adm u) z"
  shows "upload_ok m (u\<lparr>finalizers := (finalizers u)[f := z]\<rparr>)"
  using upload_ok_update [OF assms upload_okD(1) [OF assms(1)]] by simp

lemma finishOnce_ok:
  assumes ok: "upload_ok m u" and f: "f < length (finalizers u)"
  shows "upload_ok m (snd (finishOnce f reason result u))"
proof (cases "finished (finalizers u ! f)")
  case True
  then show ?thesis using ok by (simp add: finishOnce_def)
next
  case False
  define z where "z = (finalizers u ! f)\<lparr>finished := True, onFinish_calls := onFinish_calls (finalizers u ! f) @ [reason]\<rparr>"
  note zok = upload_okD(4) [OF ok f]
  have lease: "fin_lease z < length (released (adm u))" using zok by (simp add: z_def finalizer_ok_def)
  note rel = releaseOnce_ok [OF upload_okD(1) [OF ok] lease] finalizer_ok_release [OF lease]
  show ?thesis
  proof (cases "result = Promised")
    case True
    have "finalizer_ok (adm u) (z\<lparr>pending_completion := True\<rparr>)" using zok False by (simp add: z_def finalizer_ok_def)
    from upload_ok_finalizer [OF ok f this] True False show ?thesis
      by (simp add: finishOnce_def Let_def z_def)
  next
    case other: False
    have "finalizer_ok (releaseOnce (fin_lease z) (adm u)) z"
      using zok False lease by (simp add: z_def finalizer_ok_def releaseOnce_released)
    from upload_ok_update [OF ok f this rel] other False show ?thesis
      by (cases result) (simp_all add: finishOnce_def Let_def z_def)
  qed
qed

lemma completion_settled_ok:
  assumes ok: "upload_ok m u" and f: "f < length (finalizers u)"
  shows "upload_ok m (completion_settled f u)"
proof (cases "pending_completion (finalizers u ! f)")
  case True
  define z where "z = (finalizers u ! f)\<lparr>pending_completion := False\<rparr>"
  note zok = upload_okD(4) [OF ok f]
  have lease: "fin_lease z < length (released (adm u))" using zok by (simp add: z_def finalizer_ok_def)
  have "finalizer_ok (releaseOnce (fin_lease z) (adm u)) z"
    using zok True lease by (simp add: z_def finalizer_ok_def releaseOnce_released)
  from upload_ok_update [OF ok f this releaseOnce_ok [OF upload_okD(1) [OF ok] lease] finalizer_ok_release [OF lease]] True
  show ?thesis by (simp add: completion_settled_def Let_def z_def)
qed (use ok in \<open>simp add: completion_settled_def\<close>)

lemma upload_step_ok: "upload_step m u v \<Longrightarrow> upload_ok m u \<Longrightarrow> upload_ok m v"
proof (induction rule: upload_step.induct)
  case (acquire u)
  then show ?case using tryAcquire_ok finalizer_ok_acquire unfolding upload_ok_def by auto
next
  case (release l u)
  then show ?case using releaseOnce_ok finalizer_ok_release unfolding upload_ok_def by auto
next
  case (create l u)
  then show ?case by (auto simp: upload_ok_def new_finalizer_def finalizer_ok_def less_Suc_eq)
next
  case (keep_incoming f u)
  have "finalizer_ok (adm u) ((finalizers u ! f)\<lparr>cleanupIncomingAfterSuccess := True\<rparr>)"
    using upload_okD(4) [OF keep_incoming.prems keep_incoming.hyps] by (simp add: finalizer_ok_def)
  from upload_ok_finalizer [OF keep_incoming.prems keep_incoming.hyps this] keep_incoming.prems
  show ?case by (simp add: requestIncomingCleanupAfterSuccess_def)
next
  case (finish f u reason result)
  then show ?case by (intro finishOnce_ok)
next
  case (settle f u)
  then show ?case by (intro completion_settled_ok)
next
  case (bind f u r)
  then show ?case by (auto simp: upload_ok_def bindUploadRequestFinalizer_def)
next
  case (unbind u r f)
  then show ?case by (auto simp: upload_ok_def unbindUploadRequestFinalizer_def)
next
  case (finish_request u r reason result)
  then show ?case using finishOnce_ok upload_okD(3) [OF finish_request.prems]
    by (simp add: finishUploadRequest_def split: option.split)
qed

lemma upload_reachable_ok: "(upload_step m)\<^sup>*\<^sup>* new_upload u \<Longrightarrow> upload_ok m u"
proof (induction rule: rtranclp_induct)
  case base
  then show ?case by (simp add: upload_ok_def new_upload_def new_admission_def admission_ok_def places_taken_def)
next
  case (step u v)
  then show ?case using upload_step_ok by blast
qed

text \<open>
  C22. However acquisitions, ends, time-outs and aborts of uploads interleave, the number of places taken is
  the number of leases not released and never exceeds the configured maximum. A request ends at most once,
  with one call of its callback; once it has ended and a promise of the callback has settled, its lease is
  released; and every further attempt to end it is refused and changes nothing.
\<close>

theorem upload_places_bounded:
  assumes "(upload_step maximum)\<^sup>*\<^sup>* new_upload u"
  shows "active (adm u) = int (places_taken (adm u)) \<and> active (adm u) \<le> max 0 maximum \<and>
    (\<forall>f < length (finalizers u).
       length (onFinish_calls (finalizers u ! f)) \<le> 1 \<and>
       (isFinished f u \<longrightarrow> finishOnce f reason result u = (False, u) \<and>
          released (adm (completion_settled f u)) ! fin_lease (finalizers u ! f)))"
proof -
  have ok: "upload_ok maximum u" using upload_reachable_ok [OF assms] .
  have "released (adm (completion_settled f u)) ! fin_lease (finalizers u ! f)"
    if "f < length (finalizers u)" "isFinished f u" for f
    using upload_okD(4) [OF ok that(1)] that(2)
    by (auto simp: completion_settled_def Let_def isFinished_def finalizer_ok_def releaseOnce_released)
  then show ?thesis using upload_okD(1,4) [OF ok]
    by (auto simp: admission_ok_def finalizer_ok_def isFinished_def finishOnce_def)
qed

theorem upload_places_bounded_witness:
  "active (adm (snd (finishOnce 0 Abort Promised (snd (new_finalizer 0 (new_upload\<lparr>adm := snd (tryAcquire 1 new_admission)\<rparr>)))))) = 1 \<and>
   tryAcquire 1 (snd (tryAcquire 1 new_admission)) = (None, snd (tryAcquire 1 new_admission))"
proof -
  let ?u1 = "new_upload\<lparr>adm := snd (tryAcquire 1 new_admission)\<rparr>"
  let ?u2 = "snd (new_finalizer 0 ?u1)"
  let ?u3 = "snd (finishOnce 0 Abort Promised ?u2)"
  have "upload_step 1 new_upload ?u1"
    using upload_step.acquire [of 1 new_upload] by (simp add: new_upload_def)
  moreover have "upload_step 1 ?u1 ?u2"
    by (rule upload_step.create) (simp add: tryAcquire_def new_admission_def)
  moreover have "upload_step 1 ?u2 ?u3"
    by (rule upload_step.finish) (simp add: new_finalizer_def)
  ultimately have "(upload_step 1)\<^sup>*\<^sup>* new_upload ?u3" by (meson r_into_rtranclp rtranclp.rtrancl_into_rtrancl)
  from upload_places_bounded [OF this] have "active (adm ?u3) = int (places_taken (adm ?u3))" by blast
  moreover have "places_taken (adm ?u3) = 1" by code_simp
  moreover have "tryAcquire 1 (snd (tryAcquire 1 new_admission)) = (None, snd (tryAcquire 1 new_admission))"
    by code_simp
  ultimately show ?thesis by simp
qed

end
