(* ===== verification/Resource_Lock.thy ===== *)
theory Resource_Lock
  imports Js_Map
begin

text \<open>
  \<open>RecordedResourceMutationLock\<close>
  (\<open>src/src/model/operator/recorded/RecordedResourceMutationLock.ts\<close>): operations on one recorded
  programme run one after the other. Every call chains a promise (its tail) to the one before it on the
  same resource. A promise is a number; \<open>runExclusive\<close> is its synchronous head, the continuation
  after its predecessor, and its \<open>finally\<close>. The theorems: at most one operation of a resource runs,
  in the order of the calls; and the lock refines one queue per resource.
\<close>

subsection \<open>State and steps\<close>

record 'k call =
  resource :: 'k
  tail :: nat
  predecessor :: "nat option"
  running :: bool

record 'k mutation_lock =
  tails :: "('k, nat) jsmap"
  calls :: "'k call list"
  resolved_promises :: "nat list"
  created_promises :: nat

definition new_lock :: "'k mutation_lock" where
  "new_lock = \<lparr>tails = [], calls = [], resolved_promises = [], created_promises = 0\<rparr>"

text \<open>The head of \<open>runExclusive\<close>; no predecessor means \<open>Promise.resolve()\<close>.\<close>

definition runExclusive :: "'k \<Rightarrow> 'k mutation_lock \<Rightarrow> 'k mutation_lock" where
  "runExclusive resourceId s =
     (let t = created_promises s;
          c = \<lparr>resource = resourceId, tail = t, predecessor = map_of (tails s) resourceId, running = False\<rparr>
      in s\<lparr>tails := map_set resourceId t (tails s), calls := calls s @ [c], created_promises := t + 1\<rparr>)"

definition may_start :: "'k mutation_lock \<Rightarrow> 'k call \<Rightarrow> bool" where
  "may_start s c = (\<not> running c \<and> (case predecessor c of None \<Rightarrow> True | Some p \<Rightarrow> p \<in> set (resolved_promises s)))"

definition set_running :: "'k call \<Rightarrow> 'k mutation_lock \<Rightarrow> 'k mutation_lock" where
  "set_running c s = s\<lparr>calls := map (\<lambda>d. if tail d = tail c then d\<lparr>running := True\<rparr> else d) (calls s)\<rparr>"

text \<open>The \<open>finally\<close> block, whether the operation returned or threw.\<close>

definition finish_call :: "'k call \<Rightarrow> 'k mutation_lock \<Rightarrow> 'k mutation_lock" where
  "finish_call c s =
     (let s1 = s\<lparr>resolved_promises := tail c # resolved_promises s,
                 calls := filter (\<lambda>d. tail d \<noteq> tail c) (calls s)\<rparr>
      in if map_of (tails s1) (resource c) = Some (tail c)
         then s1\<lparr>tails := map_delete (resource c) (tails s1)\<rparr> else s1)"

inductive lock_step :: "'k mutation_lock \<Rightarrow> 'k mutation_lock \<Rightarrow> bool" where
  enter: "lock_step s (runExclusive k s)"
| start: "c \<in> set (calls s) \<Longrightarrow> may_start s c \<Longrightarrow> lock_step s (set_running c s)"
| finish: "c \<in> set (calls s) \<Longrightarrow> running c \<Longrightarrow> lock_step s (finish_call c s)"

subsection \<open>The queue of a resource\<close>

definition queue :: "'k mutation_lock \<Rightarrow> 'k \<Rightarrow> 'k call list" where
  "queue s k = filter (\<lambda>c. resource c = k) (calls s)"

text \<open>The first call of a queue waits for nothing, every other one for the call before it, and only the
  first may run.\<close>

fun chained :: "'k call \<Rightarrow> 'k call list \<Rightarrow> bool" where
  "chained c [] = True"
| "chained c (d # ds) = (predecessor d = Some (tail c) \<and> \<not> running d \<and> chained d ds)"

definition queue_ok :: "nat set \<Rightarrow> nat option \<Rightarrow> 'k call list \<Rightarrow> bool" where
  "queue_ok R t q = (case q of
     [] \<Rightarrow> t = None
   | c # cs \<Rightarrow> (case predecessor c of None \<Rightarrow> True | Some p \<Rightarrow> p \<in> R) \<and> chained c cs \<and> t = Some (tail (last q)))"

definition lock_ok :: "'k mutation_lock \<Rightarrow> bool" where
  "lock_ok s \<longleftrightarrow> keys_ok (tails s) \<and> distinct (map tail (calls s)) \<and>
     (\<forall>c \<in> set (calls s). tail c < created_promises s \<and> tail c \<notin> set (resolved_promises s)) \<and>
     (\<forall>p \<in> set (resolved_promises s). p < created_promises s) \<and>
     (\<forall>k. queue_ok (set (resolved_promises s)) (map_of (tails s) k) (queue s k))"

lemma lock_okD:
  assumes "lock_ok s"
  shows "distinct (map tail (calls s))" "queue_ok (set (resolved_promises s)) (map_of (tails s) k) (queue s k)"
    "c \<in> set (calls s) \<Longrightarrow> tail c < created_promises s" "c \<in> set (calls s) \<Longrightarrow> tail c \<notin> set (resolved_promises s)"
    "p \<in> set (resolved_promises s) \<Longrightarrow> p < created_promises s" "keys_ok (tails s)"
  using assms unfolding lock_ok_def by blast+

lemma chained_snoc: "chained c (cs @ [d]) \<longleftrightarrow>
    chained c cs \<and> predecessor d = Some (tail (last (c # cs))) \<and> \<not> running d"
  by (induction cs arbitrary: c) auto

lemma chained_waits: "chained c cs \<Longrightarrow> d \<in> set cs \<Longrightarrow> \<not> running d \<and> (\<exists>b \<in> set (c # cs). predecessor d = Some (tail b))"
  by (induction cs arbitrary: c) fastforce+

lemma queue_set: "c \<in> set (queue s k) \<longleftrightarrow> c \<in> set (calls s) \<and> resource c = k"
  by (auto simp: queue_def)

lemma same_tail: "lock_ok s \<Longrightarrow> c \<in> set (calls s) \<Longrightarrow> d \<in> set (calls s) \<Longrightarrow> tail c = tail d \<Longrightarrow> c = d"
  using lock_okD(1) [of s] by (simp add: distinct_map inj_on_def)

text \<open>Whatever runs or may start is the head of its queue.\<close>

lemma head_of_queue:
  assumes ok: "lock_ok s" and c: "c \<in> set (calls s)" and "running c \<or> may_start s c"
  shows "\<exists>cs. queue s (resource c) = c # cs"
proof (cases "queue s (resource c)")
  case Nil
  then show ?thesis using c by (auto simp: queue_def filter_empty_conv)
next
  case (Cons b bs)
  have "c = b"
  proof (rule ccontr)
    assume "c \<noteq> b"
    have "c \<in> set (b # bs)" using c Cons by (metis queue_set)
    with \<open>c \<noteq> b\<close> have "c \<in> set bs" by simp
    moreover have "chained b bs" using lock_okD(2) [OF ok, of "resource c"] Cons by (simp add: queue_ok_def)
    ultimately obtain a where a: "\<not> running c" "a \<in> set (b # bs)" "predecessor c = Some (tail a)"
      using chained_waits by blast
    have "a \<in> set (calls s)" using a(2) Cons by (metis queue_set)
    then have "tail a \<notin> set (resolved_promises s)" using lock_okD(4) [OF ok] by blast
    then show False using assms(3) a by (simp add: may_start_def)
  qed
  then show ?thesis using Cons by blast
qed

subsection \<open>The steps on the queues\<close>

lemma queue_enter: "queue (runExclusive k s) j =
    queue s j @ (if j = k then [\<lparr>resource = k, tail = created_promises s, predecessor = map_of (tails s) k, running = False\<rparr>] else [])"
  by (simp add: queue_def runExclusive_def Let_def)

lemma queue_start:
  assumes "lock_ok s" "c \<in> set (calls s)" "queue s (resource c) = c # cs"
  shows "queue (set_running c s) j = (if j = resource c then c\<lparr>running := True\<rparr> # cs else queue s j)"
proof -
  have same: "(if tail d = tail c then d\<lparr>running := True\<rparr> else d) = (if d = c then c\<lparr>running := True\<rparr> else d)"
    if "d \<in> set (calls s)" for d using same_tail [OF assms(1) that assms(2)] by auto
  have "calls (set_running c s) = map (\<lambda>d. if d = c then c\<lparr>running := True\<rparr> else d) (calls s)"
    using same by (simp add: set_running_def)
  then have q: "queue (set_running c s) j = map (\<lambda>d. if d = c then c\<lparr>running := True\<rparr> else d) (queue s j)"
    by (simp add: queue_def filter_map comp_def) (rule arg_cong2 [where f = map], auto intro: filter_cong)
  have "distinct (c # cs)"
    using lock_okD(1) [OF assms(1)] assms(3) by (metis distinct_filter distinct_map queue_def)
  then have "map (\<lambda>d. if d = c then c\<lparr>running := True\<rparr> else d) (c # cs) = c\<lparr>running := True\<rparr> # cs"
    by (auto intro: map_idI)
  then show ?thesis using q assms(3) by (auto intro!: map_idI simp: queue_set)
qed

lemma queue_finish:
  assumes "lock_ok s" "c \<in> set (calls s)" "queue s (resource c) = c # cs"
  shows "queue (finish_call c s) j = (if j = resource c then cs else queue s j)"
proof -
  have "calls (finish_call c s) = filter (\<lambda>d. tail d \<noteq> tail c) (calls s)" by (simp add: finish_call_def Let_def)
  then have q: "queue (finish_call c s) j = filter (\<lambda>d. tail d \<noteq> tail c) (queue s j)"
    by (simp add: queue_def conj_commute)
  have "distinct (map tail (c # cs))"
    using lock_okD(1) [OF assms(1)] assms(3) by (metis distinct_map_filter queue_def)
  then have "filter (\<lambda>d. tail d \<noteq> tail c) (c # cs) = cs" by (auto intro!: filter_True simp: rev_image_eqI)
  moreover have "filter (\<lambda>d. tail d \<noteq> tail c) (queue s j) = queue s j" if "j \<noteq> resource c"
    using same_tail [OF assms(1) _ assms(2)] that by (intro filter_True) (fastforce simp: queue_set)
  ultimately show ?thesis using q assms(3) by simp
qed

subsection \<open>The invariant\<close>

lemma queue_ok_more: "queue_ok R t q \<Longrightarrow> R \<subseteq> R' \<Longrightarrow> queue_ok R' t q"
  by (auto simp: queue_ok_def split: list.split option.split)

lemma enter_ok:
  assumes ok: "lock_ok s"
  shows "lock_ok (runExclusive k s)"
proof -
  have tails: "map_of (tails (runExclusive k s)) j = (if j = k then Some (created_promises s) else map_of (tails s) j)" for j
    by (simp add: runExclusive_def Let_def)
  have q: "queue_ok (set (resolved_promises s)) (map_of (tails (runExclusive k s)) j) (queue (runExclusive k s) j)" for j
  proof (cases "j = k")
    case False
    then show ?thesis using lock_okD(2) [OF ok, of j] tails by (simp add: queue_enter)
  next
    case True
    then show ?thesis using lock_okD(2) [OF ok, of k]
      by (cases "queue s k") (auto simp: queue_enter tails queue_ok_def chained_snoc split: option.splits)
  qed
  show ?thesis
    unfolding lock_ok_def
  proof (intro conjI allI q)
    show "keys_ok (tails (runExclusive k s))" using lock_okD(6) [OF ok] by (simp add: runExclusive_def Let_def)
    show "distinct (map tail (calls (runExclusive k s)))"
      using lock_okD(1,3) [OF ok] by (force simp: runExclusive_def Let_def)
    show "\<forall>c \<in> set (calls (runExclusive k s)). tail c < created_promises (runExclusive k s) \<and>
        tail c \<notin> set (resolved_promises (runExclusive k s))"
      using lock_okD(3,4,5) [OF ok] by (force simp: runExclusive_def Let_def)
    show "\<forall>p \<in> set (resolved_promises (runExclusive k s)). p < created_promises (runExclusive k s)"
      using lock_okD(5) [OF ok] by (force simp: runExclusive_def Let_def)
    show "queue_ok (set (resolved_promises (runExclusive k s))) (map_of (tails (runExclusive k s)) j) (queue (runExclusive k s) j)" for j
      using q [of j] by (simp add: runExclusive_def Let_def)
  qed
qed

lemma start_ok:
  assumes ok: "lock_ok s" and c: "c \<in> set (calls s)" "may_start s c"
  shows "lock_ok (set_running c s)"
proof -
  obtain cs where cs: "queue s (resource c) = c # cs" using head_of_queue [OF ok c(1)] c(2) by blast
  have q: "queue_ok (set (resolved_promises s)) (map_of (tails s) j) (queue (set_running c s) j)" for j
  proof -
    have "chained (c\<lparr>running := True\<rparr>) cs = chained c cs" by (cases cs) simp_all
    then show ?thesis using lock_okD(2) [OF ok, of j] lock_okD(2) [OF ok, of "resource c"] cs
      by (auto simp: queue_start [OF ok c(1) cs] queue_ok_def)
  qed
  have calls: "map tail (calls (set_running c s)) = map tail (calls s)" by (simp add: set_running_def)
  have rest: "resolved_promises (set_running c s) = resolved_promises s" "created_promises (set_running c s) = created_promises s"
    "tails (set_running c s) = tails s" by (simp_all add: set_running_def)
  have "tail d < created_promises s \<and> tail d \<notin> set (resolved_promises s)" if d: "d \<in> set (calls (set_running c s))" for d
  proof -
    have "tail d \<in> set (map tail (calls s))" unfolding calls [symmetric] using d by simp
    then show ?thesis using lock_okD(3,4) [OF ok] by auto
  qed
  then show ?thesis using q lock_okD(1,5,6) [OF ok] unfolding lock_ok_def rest calls by blast
qed

lemma finish_ok:
  assumes ok: "lock_ok s" and c: "c \<in> set (calls s)" "running c"
  shows "lock_ok (finish_call c s)"
proof -
  obtain cs where cs: "queue s (resource c) = c # cs" using head_of_queue [OF ok c(1)] c(2) by blast
  note qc = lock_okD(2) [OF ok, of "resource c", unfolded cs queue_ok_def]
  have tails: "map_of (tails (finish_call c s)) j =
      (if j = resource c \<and> cs = [] then None else map_of (tails s) j)" for j
  proof -
    have "map_of (tails s) (resource c) = Some (tail c) \<longleftrightarrow> cs = []"
    proof (cases cs)
      case (Cons d ds)
      have "distinct (map tail (c # cs))"
        using lock_okD(1) [OF ok] cs by (metis distinct_map_filter queue_def)
      moreover have "last cs \<in> set cs" using Cons by simp
      ultimately have "tail (last cs) \<noteq> tail c" by (metis distinct.simps(2) image_eqI list.map(2) list.set_map)
      then show ?thesis using qc Cons by simp
    qed (use qc in simp)
    then show ?thesis by (auto simp: finish_call_def Let_def)
  qed
  have R: "resolved_promises (finish_call c s) = tail c # resolved_promises s"
    "created_promises (finish_call c s) = created_promises s"
    "calls (finish_call c s) = filter (\<lambda>d. tail d \<noteq> tail c) (calls s)"
    by (simp_all add: finish_call_def Let_def)
  have q: "queue_ok (set (resolved_promises (finish_call c s))) (map_of (tails (finish_call c s)) j) (queue (finish_call c s) j)" for j
  proof (cases "j = resource c")
    case False
    then show ?thesis using queue_ok_more [OF lock_okD(2) [OF ok, of j]] R(1) tails queue_finish [OF ok c(1) cs] by auto
  next
    case True
    then show ?thesis using qc tails R(1) queue_finish [OF ok c(1) cs]
      by (cases cs) (auto simp: queue_ok_def)
  qed
  have "keys_ok (tails (finish_call c s))" using lock_okD(6) [OF ok] by (simp add: finish_call_def Let_def)
  then show ?thesis using q lock_okD(1,3,4,5) [OF ok] c(1) unfolding lock_ok_def R
    by (auto simp: distinct_map_filter)
qed

lemma lock_reachable_ok: "lock_step\<^sup>*\<^sup>* new_lock s \<Longrightarrow> lock_ok s"
proof (induction rule: rtranclp_induct)
  case base
  then show ?case by (simp add: lock_ok_def new_lock_def queue_def queue_ok_def)
next
  case (step s t)
  then show ?case by (auto elim!: lock_step.cases intro: enter_ok start_ok finish_ok)
qed

subsection \<open>Properties\<close>

text \<open>
  C23. Operations on one resource exclude each other and take place in the order of the calls, operations
  on different resources do not: whatever runs is the oldest unfinished call of its resource, the oldest
  one may always start if it does not run yet, and a resource without unfinished calls leaves nothing in
  the map.
\<close>

theorem resource_exclusive:
  assumes "lock_step\<^sup>*\<^sup>* new_lock s"
  shows "(\<forall>c \<in> set (calls s). running c \<longrightarrow> hd (queue s (resource c)) = c) \<and>
    (\<forall>k. queue s k \<noteq> [] \<longrightarrow> running (hd (queue s k)) \<or> may_start s (hd (queue s k))) \<and>
    (\<forall>k. queue s k = [] \<longrightarrow> map_of (tails s) k = None)"
proof -
  have ok: "lock_ok s" using lock_reachable_ok [OF assms] .
  have "running (hd (queue s k)) \<or> may_start s (hd (queue s k))" if "queue s k \<noteq> []" for k
    using lock_okD(2) [OF ok, of k] that by (cases "queue s k") (auto simp: queue_ok_def may_start_def)
  moreover have "map_of (tails s) k = None" if "queue s k = []" for k
    using lock_okD(2) [OF ok, of k] that by (simp add: queue_ok_def)
  moreover have "hd (queue s (resource c)) = c" if "c \<in> set (calls s)" "running c" for c
    using head_of_queue [OF ok that(1)] that(2) by auto
  ultimately show ?thesis by blast
qed

text \<open>Two calls on resource 7 and one on 8; the first has started.\<close>

definition demo_lock :: "int mutation_lock" where
  "demo_lock = (let s = runExclusive 8 (runExclusive 7 (runExclusive 7 new_lock))
     in set_running (hd (calls s)) s)"

lemma demo_lock_reachable: "lock_step\<^sup>*\<^sup>* new_lock demo_lock"
proof -
  let ?s = "runExclusive 8 (runExclusive 7 (runExclusive (7::int) new_lock))"
  have "lock_step\<^sup>*\<^sup>* new_lock ?s"
    by (meson lock_step.enter r_into_rtranclp rtranclp.rtrancl_into_rtrancl)
  moreover have "hd (calls ?s) \<in> set (calls ?s)" "may_start ?s (hd (calls ?s))"
    by (simp_all add: runExclusive_def Let_def may_start_def new_lock_def)
  ultimately show ?thesis unfolding demo_lock_def Let_def
    by (meson lock_step.start rtranclp.rtrancl_into_rtrancl)
qed

theorem resource_exclusive_witness:
  "may_start demo_lock (hd (queue demo_lock 8)) \<and> \<not> may_start demo_lock (queue demo_lock 7 ! 1)"
proof -
  have "queue demo_lock 8 \<noteq> []" "\<not> running (hd (queue demo_lock 8))" by code_simp+
  then have "may_start demo_lock (hd (queue demo_lock 8))"
    using resource_exclusive [OF demo_lock_reachable] by blast
  moreover have "\<not> may_start demo_lock (queue demo_lock 7 ! 1)" by code_simp
  ultimately show ?thesis by blast
qed

end
