(* ===== verification/Recorded_Use.thy ===== *)
theory Recorded_Use
  imports Js_Map
begin

text \<open>
  The exclusion between the use of a recorded programme and its deletion. The locale
  \<open>deletion_gate\<close> is the interface \<open>RecordingRecordedUseGate\<close> with the laws its clients rely
  on; \<open>RecordingRecordedUseProvider\<close>
  (\<open>src/src/model/operator/recording/RecordingRecordedUseProvider.ts\<close>), which tracks the recordings
  in progress, is its first model. Recorders, use objects and deletion tokens are objects that are only
  compared, so they are numbers.
\<close>

subsection \<open>The interface\<close>

datatype gate_answer = Token nat | Busy | UnknownUse

text \<open>\<open>used s\<close> are the programmes in use, \<open>held s i\<close> is the token of the deletion that holds
  \<open>i\<close>. A step \<open>step t\<close> is any operation but the release of the token \<open>t\<close>.\<close>

locale deletion_gate =
  fixes ok :: "'s \<Rightarrow> bool"
    and used :: "'s \<Rightarrow> int set"
    and held :: "'s \<Rightarrow> int \<Rightarrow> nat option"
    and step :: "nat \<Rightarrow> 's \<Rightarrow> 's \<Rightarrow> bool"
    and acquire :: "int \<Rightarrow> 's \<Rightarrow> gate_answer \<times> 's"
    and release :: "nat \<Rightarrow> 's \<Rightarrow> 's"
  assumes excluded: "ok s \<Longrightarrow> held s i = Some t \<Longrightarrow> i \<notin> used s"
    and acquire_held: "ok s \<Longrightarrow> acquire i s = (Token t, s') \<Longrightarrow> held s' = (held s)(i := Some t) \<and> held s i = None"
    and acquire_refused: "ok s \<Longrightarrow> acquire i s = (a, s') \<Longrightarrow> (\<forall>t. a \<noteq> Token t) \<Longrightarrow> s' = s"
    and acquire_ok: "ok s \<Longrightarrow> ok (snd (acquire i s))"
    and acquire_fresh: "ok s \<Longrightarrow> acquire i s = (Token t, s') \<Longrightarrow> held s j \<noteq> Some t"
    and acquire_used: "ok s \<Longrightarrow> used (snd (acquire i s)) = used s"
    and step_ok: "ok s \<Longrightarrow> step t s s' \<Longrightarrow> ok s'"
    and step_held: "ok s \<Longrightarrow> step t s s' \<Longrightarrow> held s i = Some t \<Longrightarrow> held s' i = Some t"
    and release_ok: "ok s \<Longrightarrow> ok (release t s)"
    and release_held: "ok s \<Longrightarrow> held (release t s) i = (if held s i = Some t then None else held s i)"
    and release_used: "ok s \<Longrightarrow> used (release t s) = used s"
begin

lemma steps_ok: "(step t)\<^sup>*\<^sup>* s s' \<Longrightarrow> ok s \<Longrightarrow> ok s'"
  by (induction rule: rtranclp_induct) (auto intro: step_ok)

lemma steps_held: "(step t)\<^sup>*\<^sup>* s s' \<Longrightarrow> ok s \<Longrightarrow> held s i = Some t \<Longrightarrow> held s' i = Some t"
proof (induction rule: rtranclp_induct)
  case (step y z)
  then show ?case using step_held [of y t z i] steps_ok [of t s y] by blast
qed

text \<open>While a deletion holds a programme nobody starts to use it.\<close>

lemma unused_while_held:
  assumes "ok s" "acquire i s = (Token t, s1)" "(step t)\<^sup>*\<^sup>* s1 s2"
  shows "ok s2 \<and> held s2 i = Some t \<and> i \<notin> used s2"
proof -
  have "ok s1" using acquire_ok [OF assms(1), of i] assms(2) by simp
  moreover have "held s1 i = Some t" using acquire_held [OF assms(1,2)] by simp
  ultimately show ?thesis using steps_ok [OF assms(3)] steps_held [OF assms(3)] excluded by blast
qed

text \<open>To acquire and release again leaves no trace in the deletions.\<close>

lemma acquire_release:
  assumes "ok s" "acquire i s = (Token t, s1)"
  shows "held (release t s1) = held s"
proof
  fix j
  have "ok s1" using acquire_ok [OF assms(1), of i] assms(2) by simp
  then show "held (release t s1) j = held s j"
    using acquire_held [OF assms] acquire_fresh [OF assms, of j] by (simp add: release_held)
qed

end

subsection \<open>Recordings in progress\<close>

datatype session_use = Preparing_use | Active_use nat int | Unknown_use

datatype tracked_use = Tracked_active nat int | Tracked_unknown

datatype registration = Registered | Blocked

record use_provider =
  sessionUses :: "(nat, tracked_use) jsmap"
  up_deletionTokens :: "(int, nat) jsmap"
  up_deletionRecordedIds :: "(nat, int) jsmap"
  up_created :: nat

definition new_use_provider :: use_provider where
  "new_use_provider = \<lparr>sessionUses = [], up_deletionTokens = [], up_deletionRecordedIds = [], up_created = 0\<rparr>"

definition tryRegisterSessionUse :: "nat \<Rightarrow> session_use \<Rightarrow> use_provider \<Rightarrow> registration \<times> use_provider" where
  "tryRegisterSessionUse sessionIdentity u p = (case u of
     Active_use obj recordedId \<Rightarrow>
       if map_of (up_deletionTokens p) recordedId \<noteq> None then (Blocked, p)
       else (Registered, p\<lparr>sessionUses := map_set sessionIdentity (Tracked_active obj recordedId) (sessionUses p)\<rparr>)
   | Unknown_use \<Rightarrow>
       if length (up_deletionTokens p) \<noteq> 0 then (Blocked, p)
       else (Registered, p\<lparr>sessionUses := map_set sessionIdentity Tracked_unknown (sessionUses p)\<rparr>)
   | Preparing_use \<Rightarrow> (Registered, p\<lparr>sessionUses := map_delete sessionIdentity (sessionUses p)\<rparr>))"

definition releaseSessionUse :: "nat \<Rightarrow> tracked_use option \<Rightarrow> use_provider \<Rightarrow> use_provider" where
  "releaseSessionUse sessionIdentity expectedUse p =
     (if expectedUse \<noteq> None \<and> map_of (sessionUses p) sessionIdentity \<noteq> expectedUse then p
      else p\<lparr>sessionUses := map_delete sessionIdentity (sessionUses p)\<rparr>)"

text \<open>The snapshot: the ids in use, or \<open>None\<close> when some session is unknown.\<close>

fun collect_ids :: "tracked_use list \<Rightarrow> int list \<Rightarrow> int list option" where
  "collect_ids [] acc = Some acc"
| "collect_ids (Tracked_unknown # us) acc = None"
| "collect_ids (Tracked_active obj i # us) acc = collect_ids us (if i \<in> set acc then acc else acc @ [i])"

definition getActiveRecordedIds :: "use_provider \<Rightarrow> int list option" where
  "getActiveRecordedIds p = collect_ids (map snd (sessionUses p)) []"

definition recording_tryAcquireDeletion :: "int \<Rightarrow> use_provider \<Rightarrow> gate_answer \<times> use_provider" where
  "recording_tryAcquireDeletion recordedId p = (case getActiveRecordedIds p of
     None \<Rightarrow> (UnknownUse, p)
   | Some recordedIds \<Rightarrow>
       if recordedId \<in> set recordedIds then (Busy, p)
       else if map_of (up_deletionTokens p) recordedId \<noteq> None then (Busy, p)
       else let token = up_created p
            in (Token token, p\<lparr>up_created := token + 1,
                  up_deletionTokens := map_set recordedId token (up_deletionTokens p),
                  up_deletionRecordedIds := map_set token recordedId (up_deletionRecordedIds p)\<rparr>))"

definition recording_releaseDeletion :: "nat \<Rightarrow> use_provider \<Rightarrow> use_provider" where
  "recording_releaseDeletion token p = (case map_of (up_deletionRecordedIds p) token of
     None \<Rightarrow> p
   | Some recordedId \<Rightarrow>
       if map_of (up_deletionTokens p) recordedId \<noteq> Some token then p
       else p\<lparr>up_deletionTokens := map_delete recordedId (up_deletionTokens p)\<rparr>)"

text \<open>Every operation but the release of \<open>t\<close>.\<close>

inductive use_step :: "nat \<Rightarrow> use_provider \<Rightarrow> use_provider \<Rightarrow> bool" for t where
  register: "use_step t p (snd (tryRegisterSessionUse x u p))"
| release_use: "use_step t p (releaseSessionUse x e p)"
| acquire: "use_step t p (snd (recording_tryAcquireDeletion i p))"
| release: "r \<noteq> t \<Longrightarrow> use_step t p (recording_releaseDeletion r p)"

subsection \<open>The laws\<close>

definition recording_used :: "use_provider \<Rightarrow> int set" where
  "recording_used p = {i. \<exists>obj. Tracked_active obj i \<in> set (map snd (sessionUses p))}"

definition recording_held :: "use_provider \<Rightarrow> int \<Rightarrow> nat option" where
  "recording_held p i = map_of (up_deletionTokens p) i"

definition use_ok :: "use_provider \<Rightarrow> bool" where
  "use_ok p \<longleftrightarrow> keys_ok (sessionUses p) \<and> keys_ok (up_deletionTokens p) \<and>
     (\<forall>i t. map_of (up_deletionTokens p) i = Some t \<longrightarrow>
        i \<notin> recording_used p \<and> t < up_created p \<and> map_of (up_deletionRecordedIds p) t = Some i) \<and>
     (Tracked_unknown \<in> set (map snd (sessionUses p)) \<longrightarrow> up_deletionTokens p = [])"

lemma use_okD:
  assumes "use_ok p"
  shows "keys_ok (sessionUses p)" "keys_ok (up_deletionTokens p)"
    "map_of (up_deletionTokens p) i = Some t \<Longrightarrow> i \<notin> recording_used p"
    "map_of (up_deletionTokens p) i = Some t \<Longrightarrow> t < up_created p"
    "map_of (up_deletionTokens p) i = Some t \<Longrightarrow> map_of (up_deletionRecordedIds p) t = Some i"
    "Tracked_unknown \<in> set (map snd (sessionUses p)) \<Longrightarrow> up_deletionTokens p = []"
  using assms unfolding use_ok_def by blast+

lemma collect_ids_spec:
  "(case collect_ids us acc of None \<Rightarrow> Tracked_unknown \<in> set us
    | Some ids \<Rightarrow> Tracked_unknown \<notin> set us \<and> set ids = set acc \<union> {i. \<exists>obj. Tracked_active obj i \<in> set us})"
proof (induction us acc rule: collect_ids.induct)
  case (3 obj i us acc)
  then show ?case by (auto split: option.splits if_splits)
qed auto

lemma active_ids_None: "getActiveRecordedIds p = None \<Longrightarrow> Tracked_unknown \<in> set (map snd (sessionUses p))"
  and active_ids_Some: "getActiveRecordedIds p = Some ids \<Longrightarrow>
      Tracked_unknown \<notin> set (map snd (sessionUses p)) \<and> set ids = recording_used p"
  using collect_ids_spec [of "map snd (sessionUses p)" "[]"]
  unfolding getActiveRecordedIds_def recording_used_def by (simp_all split: option.splits)

lemma values_set: "keys_ok m \<Longrightarrow> v \<in> set (map snd (map_set k w m)) \<Longrightarrow> v = w \<or> v \<in> set (map snd m)"
proof -
  assume k: "keys_ok m" and v: "v \<in> set (map snd (map_set k w m))"
  obtain j where "map_of (map_set k w m) j = Some v" by (rule in_valuesE [OF keys_ok_set [OF k] v])
  then show "v = w \<or> v \<in> set (map snd m)"
    by (cases "j = k") (auto simp: in_values [OF k] simp del: set_map)
qed

lemma values_delete: "v \<in> set (map snd (map_delete k m)) \<Longrightarrow> v \<in> set (map snd m)"
  by (auto simp: AList.delete_eq)

lemma used_register: "keys_ok (sessionUses p) \<Longrightarrow> i \<in> recording_used (p\<lparr>sessionUses := map_set x v (sessionUses p)\<rparr>) \<Longrightarrow>
    (\<exists>obj. v = Tracked_active obj i) \<or> i \<in> recording_used p"
  by (auto simp: recording_used_def simp del: set_map dest!: values_set)

lemma used_unregister: "i \<in> recording_used (p\<lparr>sessionUses := map_delete x (sessionUses p)\<rparr>) \<Longrightarrow> i \<in> recording_used p"
  by (auto simp: recording_used_def simp del: set_map dest!: values_delete)

lemma use_ok_sessions:
  assumes "use_ok p" "keys_ok ss" "\<And>i. i \<in> recording_used (p\<lparr>sessionUses := ss\<rparr>) \<Longrightarrow>
      i \<in> recording_used p \<or> map_of (up_deletionTokens p) i = None"
    and "Tracked_unknown \<in> set (map snd ss) \<Longrightarrow> up_deletionTokens p = []"
  shows "use_ok (p\<lparr>sessionUses := ss\<rparr>)"
  unfolding use_ok_def
proof (intro conjI allI impI)
  fix i t assume "map_of (up_deletionTokens (p\<lparr>sessionUses := ss\<rparr>)) i = Some t"
  then have t: "map_of (up_deletionTokens p) i = Some t" by simp
  show "i \<notin> recording_used (p\<lparr>sessionUses := ss\<rparr>)" using assms(3) [of i] use_okD(3) [OF assms(1) t] t by auto
  show "t < up_created (p\<lparr>sessionUses := ss\<rparr>)"
    "map_of (up_deletionRecordedIds (p\<lparr>sessionUses := ss\<rparr>)) t = Some i"
    using use_okD(4,5) [OF assms(1) t] by simp_all
qed (use assms(2,4) use_okD(2) [OF assms(1)] in simp_all)

lemma register_ok:
  assumes "use_ok p"
  shows "use_ok (snd (tryRegisterSessionUse x u p))"
proof (cases u)
  case Preparing_use
  have "use_ok (p\<lparr>sessionUses := map_delete x (sessionUses p)\<rparr>)"
    using use_okD(1,6) [OF assms] by (intro use_ok_sessions [OF assms]) (auto dest: used_unregister values_delete simp del: set_map)
  then show ?thesis using Preparing_use by (simp add: tryRegisterSessionUse_def)
next
  case (Active_use obj i)
  have "use_ok (p\<lparr>sessionUses := map_set x (Tracked_active obj i) (sessionUses p)\<rparr>)" if "map_of (up_deletionTokens p) i = None"
    using use_okD(1,6) [OF assms] that
    by (intro use_ok_sessions [OF assms]) (auto dest: used_register values_set simp del: set_map)
  then show ?thesis using Active_use assms by (simp add: tryRegisterSessionUse_def)
next
  case Unknown_use
  have "use_ok (p\<lparr>sessionUses := map_set x Tracked_unknown (sessionUses p)\<rparr>)" if "up_deletionTokens p = []"
    using use_okD(1) [OF assms] that
    by (intro use_ok_sessions [OF assms]) (auto dest: used_register simp del: set_map)
  then show ?thesis using Unknown_use assms by (simp add: tryRegisterSessionUse_def)
qed

lemma release_use_ok:
  assumes "use_ok p"
  shows "use_ok (releaseSessionUse x e p)"
proof -
  have "use_ok (p\<lparr>sessionUses := map_delete x (sessionUses p)\<rparr>)"
    using use_okD(1,6) [OF assms] by (intro use_ok_sessions [OF assms]) (auto dest: used_unregister values_delete simp del: set_map)
  then show ?thesis using assms by (simp add: releaseSessionUse_def)
qed

lemma acquire_granted:
  assumes "recording_tryAcquireDeletion i p = (Token t, p')"
  shows "t = up_created p" "i \<notin> recording_used p" "map_of (up_deletionTokens p) i = None"
    "Tracked_unknown \<notin> set (map snd (sessionUses p))"
    "p' = p\<lparr>up_created := t + 1, up_deletionTokens := map_set i t (up_deletionTokens p),
       up_deletionRecordedIds := map_set t i (up_deletionRecordedIds p)\<rparr>"
proof -
  obtain ids where ids: "getActiveRecordedIds p = Some ids" "i \<notin> set ids" "map_of (up_deletionTokens p) i = None"
    "t = up_created p" "p' = p\<lparr>up_created := t + 1, up_deletionTokens := map_set i t (up_deletionTokens p),
       up_deletionRecordedIds := map_set t i (up_deletionRecordedIds p)\<rparr>"
    using assms by (auto simp: recording_tryAcquireDeletion_def Let_def split: option.splits if_splits)
  then show "t = up_created p" "i \<notin> recording_used p" "map_of (up_deletionTokens p) i = None"
    "Tracked_unknown \<notin> set (map snd (sessionUses p))"
    "p' = p\<lparr>up_created := t + 1, up_deletionTokens := map_set i t (up_deletionTokens p),
       up_deletionRecordedIds := map_set t i (up_deletionRecordedIds p)\<rparr>"
    using active_ids_Some [OF ids(1)] by simp_all
qed

lemma acquire_not_granted: "recording_tryAcquireDeletion i p = (a, p') \<Longrightarrow> (\<forall>t. a \<noteq> Token t) \<Longrightarrow> p' = p"
  by (auto simp: recording_tryAcquireDeletion_def Let_def split: option.splits if_splits)

lemma recording_acquire_ok:
  assumes "use_ok p"
  shows "use_ok (snd (recording_tryAcquireDeletion i p))"
proof (cases "fst (recording_tryAcquireDeletion i p)")
  case (Token t)
  then have run: "recording_tryAcquireDeletion i p = (Token t, snd (recording_tryAcquireDeletion i p))"
    by (metis prod.collapse)
  note g = acquire_granted [OF run]
  have "recording_used (snd (recording_tryAcquireDeletion i p)) = recording_used p"
    unfolding g(5) by (simp add: recording_used_def)
  then show ?thesis
    using assms g(1-4) unfolding use_ok_def g(5) by (auto simp: less_Suc_eq)
qed (use assms acquire_not_granted [of i p "fst (recording_tryAcquireDeletion i p)"] in \<open>auto simp: prod_eq_iff\<close>)

lemma recording_release_cases:
  assumes "use_ok p"
  shows "recording_held (recording_releaseDeletion t p) i =
      (if recording_held p i = Some t then None else recording_held p i)"
    and "use_ok (recording_releaseDeletion t p)"
    and "recording_used (recording_releaseDeletion t p) = recording_used p"
proof -
  show "recording_held (recording_releaseDeletion t p) i =
      (if recording_held p i = Some t then None else recording_held p i)"
    using use_okD(5) [OF assms, of i t]
    by (auto simp: recording_held_def recording_releaseDeletion_def split: option.splits)
  have "use_ok (p\<lparr>up_deletionTokens := map_delete i (up_deletionTokens p)\<rparr>)" for i
  proof -
    have "recording_used (p\<lparr>up_deletionTokens := map_delete i (up_deletionTokens p)\<rparr>) = recording_used p"
      by (simp add: recording_used_def)
    then show ?thesis using assms unfolding use_ok_def by (auto simp del: set_map)
  qed
  then show "use_ok (recording_releaseDeletion t p)"
    using assms by (simp add: recording_releaseDeletion_def split: option.split)
  show "recording_used (recording_releaseDeletion t p) = recording_used p"
    by (simp add: recording_releaseDeletion_def recording_used_def split: option.splits)
qed

lemma register_held: "recording_held (snd (tryRegisterSessionUse x u p)) = recording_held p"
  by (rule ext) (simp add: tryRegisterSessionUse_def recording_held_def split: session_use.split)

interpretation recording_gate: deletion_gate use_ok recording_used recording_held use_step
    recording_tryAcquireDeletion recording_releaseDeletion
proof
  fix s s' :: use_provider and i j :: int and t :: nat and a
  assume ok: "use_ok s"
  show "recording_held s i = Some t \<Longrightarrow> i \<notin> recording_used s"
    using use_okD(3) [OF ok] by (simp add: recording_held_def)
  show "recording_tryAcquireDeletion i s = (Token t, s') \<Longrightarrow>
      recording_held s' = (recording_held s)(i := Some t) \<and> recording_held s i = None"
    by (auto simp: recording_held_def fun_eq_iff dest: acquire_granted)
  show "recording_tryAcquireDeletion i s = (a, s') \<Longrightarrow> \<forall>t. a \<noteq> Token t \<Longrightarrow> s' = s"
    by (rule acquire_not_granted)
  show "use_ok (snd (recording_tryAcquireDeletion i s))" using recording_acquire_ok [OF ok] .
  show "recording_tryAcquireDeletion i s = (Token t, s') \<Longrightarrow> recording_held s j \<noteq> Some t"
    using use_okD(4) [OF ok, of j t] by (auto simp: recording_held_def dest: acquire_granted(1))
  show "recording_used (snd (recording_tryAcquireDeletion i s)) = recording_used s"
    by (simp add: recording_tryAcquireDeletion_def Let_def recording_used_def split: option.split)
  show "use_step t s s' \<Longrightarrow> use_ok s'"
    using ok by (auto elim!: use_step.cases intro: register_ok release_use_ok recording_acquire_ok recording_release_cases(2))
  show "use_ok (recording_releaseDeletion t s)"
    "recording_held (recording_releaseDeletion t s) i = (if recording_held s i = Some t then None else recording_held s i)"
    "recording_used (recording_releaseDeletion t s) = recording_used s"
    using recording_release_cases [OF ok] by blast+
  assume step: "use_step t s s'" and h: "recording_held s i = Some t"
  then show "recording_held s' i = Some t"
  proof cases
    case (register x u)
    then show ?thesis using h by (simp add: register_held)
  next
    case (release_use x e)
    then show ?thesis using h by (simp add: recording_held_def releaseSessionUse_def)
  next
    case (acquire j)
    show ?thesis
    proof (cases "fst (recording_tryAcquireDeletion j s)")
      case (Token r)
      then have run: "recording_tryAcquireDeletion j s = (Token r, s')" using acquire by (metis prod.collapse)
      show ?thesis using h acquire_granted(3,5) [OF run] by (auto simp: recording_held_def)
    qed (use h acquire acquire_not_granted [of j s "fst (recording_tryAcquireDeletion j s)" s'] in \<open>auto simp: prod_eq_iff\<close>)
  next
    case (release r)
    then show ?thesis using h recording_release_cases(1) [OF ok] by simp
  qed
qed

end
