(* ===== verification/Child_Use.thy ===== *)
theory Child_Use
  imports Recorded_Use
begin

text \<open>
  \<open>ServiceChildRecordedUseRegistry\<close> (\<open>src/src/model/ServiceChildRecordedUseRegistry.ts\<close>): the
  leases the service process holds on recorded programmes while it encodes or delivers them. A lease is
  in two indexes, by programme and by peer (a generation of the service process); the invariant says
  that the two agree, which is also why the assertion in \<open>releasePeer\<close> never fails. The registry
  is the second model of the interface \<open>deletion_gate\<close>.
\<close>

subsection \<open>State\<close>

datatype use_kind = Encoding | Delivery

record lease =
  le_identity :: nat
  le_kind :: use_kind
  le_recordedId :: int
  le_requestId :: int
  le_senderPeer :: nat

record child_registry =
  currentPeer :: "nat option"
  leasesByRecordedId :: "(int, lease list) jsmap"
  leasesByPeer :: "(nat, (int, lease) jsmap) jsmap"
  lastReleasedRequestIds :: "(nat, int) jsmap"
  deletionTokens :: "(int, nat) jsmap"
  deletionRecordedIds :: "(nat, int) jsmap"
  observedPeers :: "nat list"
  terminalListeners :: "nat list"
  unknownLeases :: "lease list"
  token_count :: nat
  lease_count :: nat

definition new_child_registry :: child_registry where
  "new_child_registry = \<lparr>currentPeer = None, leasesByRecordedId = [], leasesByPeer = [],
     lastReleasedRequestIds = [], deletionTokens = [], deletionRecordedIds = [], observedPeers = [],
     terminalListeners = [], unknownLeases = [], token_count = 0, lease_count = 0\<rparr>"

text \<open>A safe integer above zero; the peers of the model are objects.\<close>

definition safe_positive :: "int \<Rightarrow> bool" where
  "safe_positive n \<longleftrightarrow> 0 < n \<and> n \<le> 9007199254740991"

subsection \<open>Operations\<close>

definition registerPeer :: "(nat \<Rightarrow> bool) \<Rightarrow> nat \<Rightarrow> child_registry \<Rightarrow> child_registry" where
  "registerPeer hasLifecycle peer s =
     (let s1 = s\<lparr>currentPeer := Some peer\<rparr>
      in if peer \<in> set (observedPeers s1) \<or> \<not> hasLifecycle peer then s1
         else s1\<lparr>observedPeers := peer # observedPeers s1, terminalListeners := peer # terminalListeners s1\<rparr>)"

definition peer_lease :: "child_registry \<Rightarrow> nat \<Rightarrow> int \<Rightarrow> lease option" where
  "peer_lease s peer r = (case map_of (leasesByPeer s) peer of None \<Rightarrow> None | Some m \<Rightarrow> map_of m r)"

datatype acquire_status = Granted | BlockedByDeletion | UnknownRequest

definition acquire_lease :: "nat \<Rightarrow> int \<Rightarrow> int \<Rightarrow> use_kind \<Rightarrow> child_registry \<Rightarrow> acquire_status \<times> child_registry" where
  "acquire_lease senderPeer requestId recordedId kind s =
     (if \<not> (safe_positive requestId \<and> safe_positive recordedId) \<or> Some senderPeer \<noteq> currentPeer s
      then (UnknownRequest, s)
      else if peer_lease s senderPeer requestId \<noteq> None then (UnknownRequest, s)
      else if map_of (deletionTokens s) recordedId \<noteq> None then (BlockedByDeletion, s)
      else let l = \<lparr>le_identity = lease_count s, le_kind = kind, le_recordedId = recordedId,
                    le_requestId = requestId, le_senderPeer = senderPeer\<rparr>;
               peerLeases = (case map_of (leasesByPeer s) senderPeer of None \<Rightarrow> [] | Some m \<Rightarrow> m);
               recordedLeases = (case map_of (leasesByRecordedId s) recordedId of None \<Rightarrow> [] | Some ls \<Rightarrow> ls)
           in (Granted, s\<lparr>lease_count := lease_count s + 1,
                leasesByPeer := map_set senderPeer (map_set requestId l peerLeases) (leasesByPeer s),
                leasesByRecordedId := map_set recordedId (recordedLeases @ [l]) (leasesByRecordedId s),
                lastReleasedRequestIds := map_delete senderPeer (lastReleasedRequestIds s)\<rparr>))"

text \<open>A lease leaves the index by programme; nothing when the programme has no entry.\<close>

definition drop_recorded :: "lease \<Rightarrow> child_registry \<Rightarrow> child_registry option" where
  "drop_recorded l s = (case map_of (leasesByRecordedId s) (le_recordedId l) of
     None \<Rightarrow> None
   | Some ls \<Rightarrow>
       let s1 = s\<lparr>unknownLeases := removeAll l (unknownLeases s)\<rparr>;
           ls' = removeAll l ls
       in Some (s1\<lparr>leasesByRecordedId := (if ls' = [] then map_delete (le_recordedId l) (leasesByRecordedId s1)
            else map_set (le_recordedId l) ls' (leasesByRecordedId s1))\<rparr>))"

datatype release_status = Released | AlreadyReleased | UnknownRelease

definition release_lease :: "nat \<Rightarrow> int \<Rightarrow> child_registry \<Rightarrow> release_status \<times> child_registry" where
  "release_lease senderPeer r s =
     (if \<not> safe_positive r then (UnknownRelease, s)
      else case peer_lease s senderPeer r of
        None \<Rightarrow> (if map_of (lastReleasedRequestIds s) senderPeer = Some r then AlreadyReleased else UnknownRelease, s)
      | Some l \<Rightarrow>
          (case map_of (leasesByRecordedId s) (le_recordedId l) of
             None \<Rightarrow> (UnknownRelease, s)
           | Some ls \<Rightarrow>
               if l \<notin> set ls then (UnknownRelease, s)
               else let m = map_delete r (the (map_of (leasesByPeer s) senderPeer));
                        s1 = s\<lparr>leasesByPeer := map_set senderPeer m (leasesByPeer s)\<rparr>;
                        s2 = the (drop_recorded l s1)
                    in (Released, s2\<lparr>lastReleasedRequestIds := map_set senderPeer r (lastReleasedRequestIds s2)\<rparr>)))"

text \<open>The loop of \<open>releasePeer\<close>; \<open>None\<close> is the failure of the non-null assertion.\<close>

fun drop_all :: "lease list \<Rightarrow> child_registry \<Rightarrow> child_registry option" where
  "drop_all [] s = Some s"
| "drop_all (l # ls) s = (case drop_recorded l s of None \<Rightarrow> None | Some s1 \<Rightarrow> drop_all ls s1)"

definition releasePeer :: "nat \<Rightarrow> child_registry \<Rightarrow> child_registry option" where
  "releasePeer peer s = (case map_of (leasesByPeer s) peer of
     None \<Rightarrow> Some s
   | Some m \<Rightarrow> drop_all (map snd m) (s\<lparr>leasesByPeer := map_delete peer (leasesByPeer s)\<rparr>))"

definition child_tryAcquireDeletion :: "int \<Rightarrow> child_registry \<Rightarrow> gate_answer \<times> child_registry" where
  "child_tryAcquireDeletion recordedId s =
     (if \<not> safe_positive recordedId then (UnknownUse, s)
      else if currentPeer s = None then (UnknownUse, s)
      else let leases = map_of (leasesByRecordedId s) recordedId
           in if list_ex (\<lambda>l. l \<in> set (unknownLeases s)) (case leases of None \<Rightarrow> [] | Some ls \<Rightarrow> ls) then (UnknownUse, s)
              else if leases \<noteq> None \<or> map_of (deletionTokens s) recordedId \<noteq> None then (Busy, s)
              else let token = token_count s
                   in (Token token, s\<lparr>token_count := token + 1,
                         deletionTokens := map_set recordedId token (deletionTokens s),
                         deletionRecordedIds := map_set token recordedId (deletionRecordedIds s)\<rparr>))"

definition child_releaseDeletion :: "nat \<Rightarrow> child_registry \<Rightarrow> child_registry" where
  "child_releaseDeletion token s = (case map_of (deletionRecordedIds s) token of
     None \<Rightarrow> s
   | Some recordedId \<Rightarrow>
       if map_of (deletionTokens s) recordedId \<noteq> Some token then s
       else s\<lparr>deletionTokens := map_delete recordedId (deletionTokens s)\<rparr>)"

definition handlePeerTerminal :: "nat \<Rightarrow> child_registry \<Rightarrow> child_registry" where
  "handlePeerTerminal peer s =
     (let s1 = s\<lparr>terminalListeners := removeAll peer (terminalListeners s)\<rparr>;
          s2 = (case map_of (leasesByPeer s1) peer of
                  None \<Rightarrow> s1
                | Some m \<Rightarrow> s1\<lparr>unknownLeases := map snd m @ unknownLeases s1\<rparr>)
      in if currentPeer s2 = Some peer then s2\<lparr>currentPeer := None\<rparr> else s2)"

text \<open>Every operation but the release of the token \<open>t\<close>.\<close>

inductive child_step :: "nat \<Rightarrow> child_registry \<Rightarrow> child_registry \<Rightarrow> bool" for t where
  peer: "child_step t s (registerPeer hasLifecycle p s)"
| acquire_lease: "child_step t s (snd (acquire_lease p r i k s))"
| release_lease: "child_step t s (snd (release_lease p r s))"
| release_peer: "releasePeer p s = Some s' \<Longrightarrow> child_step t s s'"
| acquire_deletion: "child_step t s (snd (child_tryAcquireDeletion i s))"
| release_deletion: "r \<noteq> t \<Longrightarrow> child_step t s (child_releaseDeletion r s)"
| terminal: "p \<in> set (terminalListeners s) \<Longrightarrow> child_step t s (handlePeerTerminal p s)"

subsection \<open>The two indexes agree\<close>

definition recorded_leases :: "child_registry \<Rightarrow> int \<Rightarrow> lease list" where
  "recorded_leases s i = (case map_of (leasesByRecordedId s) i of None \<Rightarrow> [] | Some ls \<Rightarrow> ls)"

text \<open>The leases a registry holds: those its index by peer lists.\<close>

definition holds_lease :: "child_registry \<Rightarrow> lease \<Rightarrow> bool" where
  "holds_lease s l \<longleftrightarrow> peer_lease s (le_senderPeer l) (le_requestId l) = Some l"

definition indexes_ok :: "child_registry \<Rightarrow> bool" where
  "indexes_ok s \<longleftrightarrow> keys_ok (leasesByRecordedId s) \<and> keys_ok (leasesByPeer s) \<and>
     (\<forall>p m. map_of (leasesByPeer s) p = Some m \<longrightarrow> keys_ok m) \<and>
     (\<forall>p r l. peer_lease s p r = Some l \<longrightarrow> le_senderPeer l = p \<and> le_requestId l = r) \<and>
     (\<forall>i. map_of (leasesByRecordedId s) i \<noteq> Some []) \<and>
     (\<forall>i l. l \<in> set (recorded_leases s i) \<longleftrightarrow> le_recordedId l = i \<and> holds_lease s l)"

lemma indexes_okD:
  assumes "indexes_ok s"
  shows "keys_ok (leasesByRecordedId s)" "keys_ok (leasesByPeer s)"
    "map_of (leasesByPeer s) p = Some m \<Longrightarrow> keys_ok m"
    "peer_lease s p r = Some l \<Longrightarrow> le_senderPeer l = p" "peer_lease s p r = Some l \<Longrightarrow> le_requestId l = r"
    "map_of (leasesByRecordedId s) i \<noteq> Some []"
    "l \<in> set (recorded_leases s i) \<longleftrightarrow> le_recordedId l = i \<and> holds_lease s l"
  using assms unfolding indexes_ok_def by blast+

lemma drop_recorded_indexes:
  assumes "drop_recorded l s = Some s'"
  shows "recorded_leases s' i = (if i = le_recordedId l then removeAll l (recorded_leases s i) else recorded_leases s i)"
    and "leasesByPeer s' = leasesByPeer s" "deletionTokens s' = deletionTokens s"
    "deletionRecordedIds s' = deletionRecordedIds s" "token_count s' = token_count s"
    and "keys_ok (leasesByRecordedId s) \<Longrightarrow> keys_ok (leasesByRecordedId s')"
    and "(\<And>j. map_of (leasesByRecordedId s) j \<noteq> Some []) \<Longrightarrow> map_of (leasesByRecordedId s') j \<noteq> Some []"
  using assms by (auto simp: drop_recorded_def Let_def recorded_leases_def split: option.splits if_splits)

lemma drop_recorded_some:
  assumes "l \<in> set (recorded_leases s (le_recordedId l))"
  obtains s' where "drop_recorded l s = Some s'"
  using assms that
  by (cases "map_of (leasesByRecordedId s) (le_recordedId l)") (auto simp: recorded_leases_def drop_recorded_def Let_def)

lemma drop_all_indexes:
  assumes "distinct ls" "\<forall>l \<in> set ls. l \<in> set (recorded_leases s (le_recordedId l))"
    and "\<And>i x. x \<in> set (recorded_leases s i) \<Longrightarrow> le_recordedId x = i"
  shows "\<exists>s'. drop_all ls s = Some s' \<and> (\<forall>i. recorded_leases s' i = filter (\<lambda>x. x \<notin> set ls) (recorded_leases s i)) \<and>
    leasesByPeer s' = leasesByPeer s \<and> deletionTokens s' = deletionTokens s \<and>
    deletionRecordedIds s' = deletionRecordedIds s \<and> token_count s' = token_count s \<and>
    (keys_ok (leasesByRecordedId s) \<longrightarrow> keys_ok (leasesByRecordedId s')) \<and>
    ((\<forall>j. map_of (leasesByRecordedId s) j \<noteq> Some []) \<longrightarrow> (\<forall>j. map_of (leasesByRecordedId s') j \<noteq> Some []))"
  using assms
proof (induction ls arbitrary: s)
  case Nil
  then show ?case by simp
next
  case (Cons l ls)
  have "l \<in> set (recorded_leases s (le_recordedId l))" using Cons.prems(2) by simp
  then obtain s1 where s1: "drop_recorded l s = Some s1" by (rule drop_recorded_some)
  note d = drop_recorded_indexes [OF s1]
  have rec: "recorded_leases s1 i = filter (\<lambda>x. x \<noteq> l) (recorded_leases s i)" for i
  proof (cases "i = le_recordedId l")
    case True
    then show ?thesis using d(1) [of i] by (simp add: removeAll_filter_not_eq eq_commute)
  next
    case False
    then have "l \<notin> set (recorded_leases s i)" using Cons.prems(3) [of l i] by auto
    then have "filter (\<lambda>x. x \<noteq> l) (recorded_leases s i) = recorded_leases s i"
      by (intro filter_True) auto
    then show ?thesis using d(1) [of i] False by simp
  qed
  have "\<forall>x \<in> set ls. x \<in> set (recorded_leases s1 (le_recordedId x))"
    using Cons.prems(1,2) rec by auto
  moreover have "le_recordedId x = i" if "x \<in> set (recorded_leases s1 i)" for i x
    using Cons.prems(3) rec that by auto
  ultimately obtain s' where s': "drop_all ls s1 = Some s'"
    "\<forall>i. recorded_leases s' i = filter (\<lambda>x. x \<notin> set ls) (recorded_leases s1 i)"
    "leasesByPeer s' = leasesByPeer s1" "deletionTokens s' = deletionTokens s1"
    "deletionRecordedIds s' = deletionRecordedIds s1" "token_count s' = token_count s1"
    "keys_ok (leasesByRecordedId s1) \<longrightarrow> keys_ok (leasesByRecordedId s')"
    "(\<forall>j. map_of (leasesByRecordedId s1) j \<noteq> Some []) \<longrightarrow> (\<forall>j. map_of (leasesByRecordedId s') j \<noteq> Some [])"
    using Cons.IH [of s1] Cons.prems(1) by auto
  have "\<forall>i. recorded_leases s' i = filter (\<lambda>x. x \<notin> set (l # ls)) (recorded_leases s i)"
    using s'(2) by (simp add: rec conj_commute cong: filter_cong)
  then show ?case using s1 s' d(2-7) by auto
qed

subsection \<open>The invariant\<close>

definition child_used :: "child_registry \<Rightarrow> int set" where
  "child_used s = {i. recorded_leases s i \<noteq> []}"

definition child_held :: "child_registry \<Rightarrow> int \<Rightarrow> nat option" where
  "child_held s i = map_of (deletionTokens s) i"

definition deletions_ok :: "child_registry \<Rightarrow> bool" where
  "deletions_ok s \<longleftrightarrow> (\<forall>i t. map_of (deletionTokens s) i = Some t \<longrightarrow>
     recorded_leases s i = [] \<and> t < token_count s \<and> map_of (deletionRecordedIds s) t = Some i)"

definition child_ok :: "child_registry \<Rightarrow> bool" where
  "child_ok s \<longleftrightarrow> indexes_ok s \<and> deletions_ok s"

lemma child_okD:
  assumes "child_ok s"
  shows "indexes_ok s" "map_of (deletionTokens s) i = Some t \<Longrightarrow> recorded_leases s i = []"
    "map_of (deletionTokens s) i = Some t \<Longrightarrow> t < token_count s"
    "map_of (deletionTokens s) i = Some t \<Longrightarrow> map_of (deletionRecordedIds s) t = Some i"
  using assms unfolding child_ok_def deletions_ok_def by blast+

lemma new_child_ok: "child_ok new_child_registry"
  by (simp add: child_ok_def deletions_ok_def indexes_ok_def new_child_registry_def peer_lease_def
      recorded_leases_def holds_lease_def)

text \<open>The fields that matter for the invariant.\<close>

definition same_indexes :: "child_registry \<Rightarrow> child_registry \<Rightarrow> bool" where
  "same_indexes s s' \<longleftrightarrow> leasesByRecordedId s' = leasesByRecordedId s \<and> leasesByPeer s' = leasesByPeer s \<and>
     deletionTokens s' = deletionTokens s \<and> deletionRecordedIds s' = deletionRecordedIds s \<and> token_count s' = token_count s"

lemma same_indexes_ok: "same_indexes s s' \<Longrightarrow> child_ok s \<Longrightarrow> child_ok s'"
  by (simp add: same_indexes_def child_ok_def deletions_ok_def indexes_ok_def recorded_leases_def
      holds_lease_def peer_lease_def)

lemma same_indexes_peer: "same_indexes s (registerPeer h p s)" "same_indexes s (handlePeerTerminal p s)"
  by (simp_all add: same_indexes_def registerPeer_def handlePeerTerminal_def Let_def split: option.split)

lemma acquire_granted_child:
  assumes "acquire_lease p r i k s = (Granted, s')"
  obtains l where "l = \<lparr>le_identity = lease_count s, le_kind = k, le_recordedId = i, le_requestId = r, le_senderPeer = p\<rparr>"
    "peer_lease s p r = None" "map_of (deletionTokens s) i = None"
    "\<And>q x. peer_lease s' q x = (if q = p \<and> x = r then Some l else peer_lease s q x)"
    "\<And>j. recorded_leases s' j = (if j = i then recorded_leases s i @ [l] else recorded_leases s j)"
    "\<And>j. map_of (leasesByRecordedId s') j = (if j = i then Some (recorded_leases s i @ [l]) else map_of (leasesByRecordedId s) j)"
    "\<And>q. map_of (leasesByPeer s') q = (if q = p then Some (map_set r l (case map_of (leasesByPeer s) p of None \<Rightarrow> [] | Some m \<Rightarrow> m))
        else map_of (leasesByPeer s) q)"
    "keys_ok (leasesByRecordedId s) \<Longrightarrow> keys_ok (leasesByRecordedId s')"
    "keys_ok (leasesByPeer s) \<Longrightarrow> keys_ok (leasesByPeer s')"
    "deletionTokens s' = deletionTokens s" "deletionRecordedIds s' = deletionRecordedIds s" "token_count s' = token_count s"
proof -
  let ?l = "\<lparr>le_identity = lease_count s, le_kind = k, le_recordedId = i, le_requestId = r, le_senderPeer = p\<rparr>"
  let ?m = "map_set r ?l (case map_of (leasesByPeer s) p of None \<Rightarrow> [] | Some m \<Rightarrow> m)"
  have guards: "peer_lease s p r = None" "map_of (deletionTokens s) i = None"
    using assms by (simp_all add: acquire_lease_def Let_def split: if_splits)
  have s': "s' = s\<lparr>lease_count := lease_count s + 1, leasesByPeer := map_set p ?m (leasesByPeer s),
      leasesByRecordedId := map_set i (recorded_leases s i @ [?l]) (leasesByRecordedId s),
      lastReleasedRequestIds := map_delete p (lastReleasedRequestIds s)\<rparr>"
    using assms by (simp add: acquire_lease_def Let_def recorded_leases_def split: if_splits)
  have "peer_lease s' q x = (if q = p \<and> x = r then Some ?l else peer_lease s q x)" for q x
    by (simp add: s' peer_lease_def split: option.split)
  moreover have "recorded_leases s' j = (if j = i then recorded_leases s i @ [?l] else recorded_leases s j)" for j
    by (simp add: s' recorded_leases_def)
  ultimately show ?thesis using that [OF refl guards] by (simp add: s')
qed

lemma acquire_other: "acquire_lease p r i k s = (a, s') \<Longrightarrow> a \<noteq> Granted \<Longrightarrow> s' = s"
  by (auto simp: acquire_lease_def Let_def split: if_splits)

lemma acquire_lease_ok:
  assumes ok: "child_ok s"
  shows "child_ok (snd (acquire_lease p r i k s))"
proof (cases "acquire_lease p r i k s")
  case (Pair a s')
  show ?thesis
  proof (cases "a = Granted")
    case False
    then show ?thesis using acquire_other [OF Pair] Pair ok by simp
  next
    case True
    from acquire_granted_child [OF Pair [unfolded True]] obtain l where
      l: "l = \<lparr>le_identity = lease_count s, le_kind = k, le_recordedId = i, le_requestId = r, le_senderPeer = p\<rparr>"
      and free: "peer_lease s p r = None" "map_of (deletionTokens s) i = None"
      and peer: "\<And>q x. peer_lease s' q x = (if q = p \<and> x = r then Some l else peer_lease s q x)"
      and rec: "\<And>j. recorded_leases s' j = (if j = i then recorded_leases s i @ [l] else recorded_leases s j)"
      and maps: "\<And>j. map_of (leasesByRecordedId s') j = (if j = i then Some (recorded_leases s i @ [l]) else map_of (leasesByRecordedId s) j)"
        "\<And>q. map_of (leasesByPeer s') q = (if q = p then Some (map_set r l (case map_of (leasesByPeer s) p of None \<Rightarrow> [] | Some m \<Rightarrow> m))
          else map_of (leasesByPeer s) q)"
      and keys: "keys_ok (leasesByRecordedId s) \<Longrightarrow> keys_ok (leasesByRecordedId s')" "keys_ok (leasesByPeer s) \<Longrightarrow> keys_ok (leasesByPeer s')"
      and rest: "deletionTokens s' = deletionTokens s" "deletionRecordedIds s' = deletionRecordedIds s" "token_count s' = token_count s" by blast
    note idx = indexes_okD [OF child_okD(1) [OF ok]]
    have lf: "le_recordedId l = i" "le_requestId l = r" "le_senderPeer l = p" by (simp_all add: l)
    have holds: "holds_lease s' x \<longleftrightarrow> x = l \<or> holds_lease s x" for x
      using free(1) lf by (auto simp: holds_lease_def peer)
    have "indexes_ok s'"
      unfolding indexes_ok_def
    proof (intro conjI allI impI)
      show "keys_ok (leasesByRecordedId s')" "keys_ok (leasesByPeer s')" using keys idx(1,2) by blast+
      show "keys_ok m" if "map_of (leasesByPeer s') q = Some m" for q m
        using that idx(3) by (auto simp: maps(2) keys_ok_def split: if_splits option.splits intro: distinct_update)
      show "le_senderPeer x = q" "le_requestId x = y" if "peer_lease s' q y = Some x" for q y x
        using that lf idx(4,5) by (auto simp: peer split: if_splits)
      show "map_of (leasesByRecordedId s') j \<noteq> Some []" for j using idx(6) by (simp add: maps(1))
      show "(x \<in> set (recorded_leases s' j)) = (le_recordedId x = j \<and> holds_lease s' x)" for j x
        using lf idx(7) by (auto simp: rec holds)
    qed
    moreover have "deletions_ok s'"
      using child_okD(2-4) [OF ok] free(2) unfolding deletions_ok_def rest by (auto simp: rec)
    ultimately show ?thesis using Pair by (simp add: child_ok_def)
  qed
qed

text \<open>A set of leases \<open>X\<close> goes from both indexes.\<close>

lemma indexes_without:
  assumes ok: "indexes_ok s"
    and keys: "keys_ok (leasesByRecordedId s')" "keys_ok (leasesByPeer s')"
      "\<And>p m. map_of (leasesByPeer s') p = Some m \<Longrightarrow> keys_ok m" "\<And>j. map_of (leasesByRecordedId s') j \<noteq> Some []"
    and peer: "\<And>p r. peer_lease s' p r = (case peer_lease s p r of None \<Rightarrow> None | Some l \<Rightarrow> if l \<in> X then None else Some l)"
    and rec: "\<And>i. recorded_leases s' i = filter (\<lambda>x. x \<notin> X) (recorded_leases s i)"
  shows "indexes_ok s'"
proof -
  have holds: "holds_lease s' l \<longleftrightarrow> holds_lease s l \<and> l \<notin> X" for l
    by (auto simp: holds_lease_def peer split: option.splits if_splits)
  show ?thesis
    unfolding indexes_ok_def
  proof (intro conjI allI impI)
    show "le_senderPeer l = p" "le_requestId l = r" if "peer_lease s' p r = Some l" for p r l
      using that indexes_okD(4,5) [OF ok] by (auto simp: peer split: option.splits if_splits)
    show "(l \<in> set (recorded_leases s' i)) = (le_recordedId l = i \<and> holds_lease s' l)" for i l
      using indexes_okD(7) [OF ok] by (auto simp: rec holds)
  qed (use keys in blast)+
qed

lemma deletions_without:
  assumes "deletions_ok s" "\<And>i. recorded_leases s' i = filter (\<lambda>x. x \<notin> X) (recorded_leases s i)"
    and "deletionTokens s' = deletionTokens s" "deletionRecordedIds s' = deletionRecordedIds s" "token_count s' = token_count s"
  shows "deletions_ok s'"
  using assms by (simp add: deletions_ok_def)

lemma release_lease_ok:
  assumes ok: "child_ok s"
  shows "child_ok (snd (release_lease p r s))" "deletionTokens (snd (release_lease p r s)) = deletionTokens s"
proof -
  note idx = indexes_okD [OF child_okD(1) [OF ok]]
  consider "snd (release_lease p r s) = s"
    | l m s2 where "peer_lease s p r = Some l" "map_of (leasesByPeer s) p = Some m"
      "drop_recorded l (s\<lparr>leasesByPeer := map_set p (map_delete r m) (leasesByPeer s)\<rparr>) = Some s2"
      "snd (release_lease p r s) = s2\<lparr>lastReleasedRequestIds := map_set p r (lastReleasedRequestIds s2)\<rparr>"
  proof (cases "peer_lease s p r")
    case None
    then show thesis using that(1) by (simp add: release_lease_def)
  next
    case (Some l)
    then obtain m where m: "map_of (leasesByPeer s) p = Some m" by (auto simp: peer_lease_def split: option.splits)
    show thesis
    proof (cases "snd (release_lease p r s) = s")
      case False
      then obtain ls where ls: "map_of (leasesByRecordedId s) (le_recordedId l) = Some ls" "l \<in> set ls"
        using Some by (auto simp: release_lease_def split: if_splits option.splits)
      let ?s1 = "s\<lparr>leasesByPeer := map_set p (map_delete r m) (leasesByPeer s)\<rparr>"
      have "l \<in> set (recorded_leases ?s1 (le_recordedId l))" using ls by (simp add: recorded_leases_def)
      then obtain s2 where "drop_recorded l ?s1 = Some s2" by (rule drop_recorded_some)
      then show thesis using that(2) [OF Some m] False Some m ls by (simp add: release_lease_def Let_def split: if_splits)
    qed (use that(1) in blast)
  qed
  then have "child_ok (snd (release_lease p r s)) \<and> deletionTokens (snd (release_lease p r s)) = deletionTokens s"
  proof cases
    case 1
    then show ?thesis using ok by simp
  next
    case (2 l m s2)
    let ?s1 = "s\<lparr>leasesByPeer := map_set p (map_delete r m) (leasesByPeer s)\<rparr>"
    note d = drop_recorded_indexes [OF 2(3)]
    have lf: "le_senderPeer l = p" "le_requestId l = r" using idx(4,5) [OF 2(1)] by simp_all
    have rec: "recorded_leases s2 i = filter (\<lambda>x. x \<notin> {l}) (recorded_leases s i)" for i
    proof -
      have "recorded_leases ?s1 i = recorded_leases s i" by (simp add: recorded_leases_def)
      moreover have "filter (\<lambda>x. x \<notin> {l}) (recorded_leases s i) = recorded_leases s i" if "i \<noteq> le_recordedId l"
        using idx(7) [of _ i] that by (intro filter_True) auto
      ultimately show ?thesis using d(1) [of i] by (simp add: removeAll_filter_not_eq eq_commute)
    qed
    have peer: "peer_lease s2 q x = (case peer_lease s q x of None \<Rightarrow> None | Some y \<Rightarrow> if y \<in> {l} then None else Some y)" for q x
    proof -
      have at: "peer_lease s2 q x = (if q = p \<and> x = r then None else peer_lease s q x)"
        using 2(2) by (simp add: peer_lease_def d(2))
      have "y \<noteq> l" if "peer_lease s q x = Some y" "\<not> (q = p \<and> x = r)" for y
        using idx(4,5) [OF that(1)] that(2) lf by auto
      then show ?thesis using at 2(1) by (cases "q = p \<and> x = r") (auto split: option.split)
    qed
    have "keys_ok y" if "map_of (leasesByPeer s2) q = Some y" for q y
      using that idx(3) 2(2) by (auto simp: d(2) split: if_splits)
    then have "indexes_ok s2"
      using d(2,6,7) idx(1,2,6) by (intro indexes_without [OF child_okD(1) [OF ok] _ _ _ _ peer rec]) simp_all
    moreover have "deletions_ok s2"
      using ok d(3-5) by (intro deletions_without [OF _ rec]) (simp_all add: child_ok_def)
    ultimately show ?thesis using same_indexes_ok [of s2 "snd (release_lease p r s)"] 2(4) d(3)
      by (simp add: child_ok_def same_indexes_def)
  qed
  then show "child_ok (snd (release_lease p r s))" "deletionTokens (snd (release_lease p r s)) = deletionTokens s" by simp_all
qed

text \<open>The assertion in \<open>releasePeer\<close> holds: every lease of the peer is in the other index.\<close>

lemma releasePeer_defined:
  assumes ok: "child_ok s"
  shows "\<exists>s'. releasePeer p s = Some s' \<and> child_ok s' \<and> deletionTokens s' = deletionTokens s \<and>
    (\<forall>i. recorded_leases s' i = filter (\<lambda>l. le_senderPeer l \<noteq> p) (recorded_leases s i))"
proof (cases "map_of (leasesByPeer s) p")
  case None
  note idx = indexes_okD [OF child_okD(1) [OF ok]]
  have "filter (\<lambda>l. le_senderPeer l \<noteq> p) (recorded_leases s i) = recorded_leases s i" for i
    using idx(7) [of _ i] None by (intro filter_True) (auto simp: holds_lease_def peer_lease_def)
  then show ?thesis using None ok by (simp add: releasePeer_def)
next
  case (Some m)
  note idx = indexes_okD [OF child_okD(1) [OF ok]]
  let ?s1 = "s\<lparr>leasesByPeer := map_delete p (leasesByPeer s)\<rparr>"
  have m: "keys_ok m" using idx(3) [OF Some] .
  have pl: "peer_lease s p r = map_of m r" for r by (simp add: peer_lease_def Some)
  have entry: "le_senderPeer l = p \<and> le_requestId l = r \<and> peer_lease s p r = Some l" if "(r, l) \<in> set m" for r l
    using that idx(4,5) [of p r l] in_map [OF m] by (simp add: pl)
  have "map le_requestId (map snd m) = map fst m" using entry by auto
  then have "distinct (map snd m)" using m by (metis distinct_map keys_ok_def)
  moreover have "l \<in> set (recorded_leases ?s1 (le_recordedId l))" if l: "l \<in> set (map snd m)" for l
  proof -
    obtain r where "(r, l) \<in> set m" using l by auto
    then have "holds_lease s l" using entry by (simp add: holds_lease_def)
    then show ?thesis using idx(7) [of l "le_recordedId l"] by (simp add: recorded_leases_def)
  qed
  moreover have "le_recordedId x = i" if "x \<in> set (recorded_leases ?s1 i)" for i x
    using that idx(7) [of x i] by (simp add: recorded_leases_def)
  ultimately obtain s' where s': "drop_all (map snd m) ?s1 = Some s'"
    "\<forall>i. recorded_leases s' i = filter (\<lambda>x. x \<notin> set (map snd m)) (recorded_leases ?s1 i)"
    "leasesByPeer s' = leasesByPeer ?s1" "deletionTokens s' = deletionTokens ?s1"
    "deletionRecordedIds s' = deletionRecordedIds ?s1" "token_count s' = token_count ?s1"
    "keys_ok (leasesByRecordedId ?s1) \<longrightarrow> keys_ok (leasesByRecordedId s')"
    "(\<forall>j. map_of (leasesByRecordedId ?s1) j \<noteq> Some []) \<longrightarrow> (\<forall>j. map_of (leasesByRecordedId s') j \<noteq> Some [])"
    using drop_all_indexes [of "map snd m" ?s1] by blast
  have mem: "l \<in> set (map snd m) \<longleftrightarrow> le_senderPeer l = p \<and> holds_lease s l" for l
  proof
    assume "l \<in> set (map snd m)"
    then obtain r where "(r, l) \<in> set m" by auto
    then show "le_senderPeer l = p \<and> holds_lease s l" using entry by (simp add: holds_lease_def)
  next
    assume "le_senderPeer l = p \<and> holds_lease s l"
    then have "map_of m (le_requestId l) = Some l" by (metis holds_lease_def pl)
    then show "l \<in> set (map snd m)" unfolding in_values [OF m] by blast
  qed
  have rec: "recorded_leases s' i = filter (\<lambda>l. le_senderPeer l \<noteq> p) (recorded_leases s i)" for i
  proof -
    have "recorded_leases ?s1 i = recorded_leases s i" by (simp add: recorded_leases_def)
    then show ?thesis using s'(2) mem idx(7) [of _ i] by (auto intro: filter_cong)
  qed
  have peer: "peer_lease s' q r = (case peer_lease s q r of None \<Rightarrow> None | Some l \<Rightarrow> if l \<in> {l. le_senderPeer l = p} then None else Some l)" for q r
    using idx(4) [of q r] by (auto simp: peer_lease_def s'(3) split: option.splits)
  have rec': "recorded_leases s' i = filter (\<lambda>x. x \<notin> {l. le_senderPeer l = p}) (recorded_leases s i)" for i
    by (simp add: rec)
  have "keys_ok y" if "map_of (leasesByPeer s') q = Some y" for q y
    using that idx(3) by (auto simp: s'(3) split: if_splits)
  then have "indexes_ok s'"
    using s'(3,7,8) idx(1,2,6) by (intro indexes_without [OF child_okD(1) [OF ok] _ _ _ _ peer rec']) simp_all
  moreover have "deletions_ok s'"
    using ok s'(4-6) by (intro deletions_without [OF _ rec']) (simp_all add: child_ok_def)
  ultimately show ?thesis using s'(1,4) rec Some by (simp add: releasePeer_def child_ok_def)
qed

lemma child_acquire_cases:
  assumes "child_tryAcquireDeletion i s = (a, s')"
  obtains (refused) "s' = s" "\<forall>t. a \<noteq> Token t"
  | (granted) t where "a = Token t" "t = token_count s" "map_of (leasesByRecordedId s) i = None"
      "map_of (deletionTokens s) i = None"
      "s' = s\<lparr>token_count := t + 1, deletionTokens := map_set i t (deletionTokens s),
         deletionRecordedIds := map_set t i (deletionRecordedIds s)\<rparr>"
proof -
  have "(s' = s \<and> (\<forall>t. a \<noteq> Token t)) \<or> (a = Token (token_count s) \<and> map_of (leasesByRecordedId s) i = None \<and>
      map_of (deletionTokens s) i = None \<and>
      s' = s\<lparr>token_count := token_count s + 1, deletionTokens := map_set i (token_count s) (deletionTokens s),
         deletionRecordedIds := map_set (token_count s) i (deletionRecordedIds s)\<rparr>)"
    using assms unfolding child_tryAcquireDeletion_def Let_def by (simp split: if_splits)
  then show ?thesis using refused granted by blast
qed

lemma recorded_leases_update [simp]:
  "recorded_leases (s\<lparr>token_count := n\<rparr>) = recorded_leases s"
  "recorded_leases (s\<lparr>deletionTokens := m\<rparr>) = recorded_leases s"
  "recorded_leases (s\<lparr>deletionRecordedIds := d\<rparr>) = recorded_leases s"
  by (rule ext, simp add: recorded_leases_def)+

lemma indexes_ok_update [simp]:
  "indexes_ok (s\<lparr>token_count := n\<rparr>) = indexes_ok s"
  "indexes_ok (s\<lparr>deletionTokens := m\<rparr>) = indexes_ok s"
  "indexes_ok (s\<lparr>deletionRecordedIds := d\<rparr>) = indexes_ok s"
  by (simp_all add: indexes_ok_def holds_lease_def peer_lease_def)

lemma child_acquire_ok:
  assumes "child_ok s"
  shows "child_ok (snd (child_tryAcquireDeletion i s))"
proof (cases "child_tryAcquireDeletion i s")
  case (Pair a s')
  then show ?thesis
  proof (cases rule: child_acquire_cases)
    case (granted t)
    have "recorded_leases s i = []" using granted(3) by (simp add: recorded_leases_def)
    then show ?thesis using assms Pair granted
      by (auto simp: child_ok_def deletions_ok_def less_Suc_eq)
  qed (use assms Pair in simp)
qed

lemma child_release_cases:
  assumes "child_ok s"
  shows "child_held (child_releaseDeletion t s) i = (if child_held s i = Some t then None else child_held s i)"
    and "child_ok (child_releaseDeletion t s)" and "child_used (child_releaseDeletion t s) = child_used s"
proof -
  show "child_held (child_releaseDeletion t s) i = (if child_held s i = Some t then None else child_held s i)"
    using child_okD(4) [OF assms, of i t]
    by (auto simp: child_held_def child_releaseDeletion_def split: option.splits)
  have "child_ok (s\<lparr>deletionTokens := map_delete j (deletionTokens s)\<rparr>)" for j
    using assms by (auto simp: child_ok_def deletions_ok_def)
  then show "child_ok (child_releaseDeletion t s)"
    using assms by (simp add: child_releaseDeletion_def split: option.split)
  show "child_used (child_releaseDeletion t s) = child_used s"
    by (simp add: child_releaseDeletion_def child_used_def split: option.split)
qed

lemma child_step_ok: "child_step t s s' \<Longrightarrow> child_ok s \<Longrightarrow> child_ok s'"
proof (induction rule: child_step.induct)
  case (release_peer p s s')
  then show ?case using releasePeer_defined [of s p] by auto
qed (auto intro: acquire_lease_ok release_lease_ok(1) child_acquire_ok child_release_cases(2)
      same_indexes_ok [OF same_indexes_peer(1)] same_indexes_ok [OF same_indexes_peer(2)])

lemma child_step_held: "child_step t s s' \<Longrightarrow> child_ok s \<Longrightarrow> child_held s i = Some t \<Longrightarrow> child_held s' i = Some t"
proof (induction rule: child_step.induct)
  case (acquire_lease s p r j k)
  have "deletionTokens (snd (acquire_lease p r j k s)) = deletionTokens s"
    by (simp add: acquire_lease_def Let_def)
  then show ?case using acquire_lease by (simp add: child_held_def)
next
  case (release_lease s p r)
  then show ?case using release_lease_ok(2) [of s p r] by (simp add: child_held_def)
next
  case (release_peer p s s')
  then show ?case using releasePeer_defined [of s p] by (auto simp: child_held_def)
next
  case (acquire_deletion s j)
  obtain a s' where run: "child_tryAcquireDeletion j s = (a, s')" by fastforce
  from run show ?case using acquire_deletion by (cases rule: child_acquire_cases) (auto simp: child_held_def run)
next
  case (release_deletion r s)
  then show ?case using child_release_cases(1) [of s r i] by simp
qed (simp_all add: child_held_def registerPeer_def handlePeerTerminal_def Let_def split: option.splits)

interpretation child_gate: deletion_gate child_ok child_used child_held child_step
    child_tryAcquireDeletion child_releaseDeletion
proof
  fix s s' :: child_registry and i j :: int and t :: nat and a
  assume ok: "child_ok s"
  show "child_held s i = Some t \<Longrightarrow> i \<notin> child_used s"
    using child_okD(2) [OF ok] by (simp add: child_held_def child_used_def)
  show "child_tryAcquireDeletion i s = (Token t, s') \<Longrightarrow> child_held s' = (child_held s)(i := Some t) \<and> child_held s i = None"
    by (erule child_acquire_cases) (auto simp: child_held_def fun_eq_iff)
  show "child_tryAcquireDeletion i s = (a, s') \<Longrightarrow> \<forall>t. a \<noteq> Token t \<Longrightarrow> s' = s"
    by (erule child_acquire_cases) auto
  show "child_ok (snd (child_tryAcquireDeletion i s))" using child_acquire_ok [OF ok] .
  show "child_tryAcquireDeletion i s = (Token t, s') \<Longrightarrow> child_held s j \<noteq> Some t"
    using child_okD(3) [OF ok, of j t] by (auto simp: child_held_def elim!: child_acquire_cases)
  show "child_used (snd (child_tryAcquireDeletion i s)) = child_used s"
    by (simp add: child_tryAcquireDeletion_def Let_def child_used_def)
  show "child_step t s s' \<Longrightarrow> child_ok s'" using child_step_ok ok by blast
  show "child_step t s s' \<Longrightarrow> child_held s i = Some t \<Longrightarrow> child_held s' i = Some t"
    using child_step_held ok by blast
  show "child_ok (child_releaseDeletion t s)"
    "child_held (child_releaseDeletion t s) i = (if child_held s i = Some t then None else child_held s i)"
    "child_used (child_releaseDeletion t s) = child_used s"
    using child_release_cases [OF ok] by blast+
qed

text \<open>
  C24. The two indexes of the leases always agree, so the end of a peer releases exactly its leases: the
  assertion that every lease of the peer is in the index by programme never fails, what it leaves of every
  programme are the leases of the other peers, and no deletion in progress is touched.
\<close>

theorem releasePeer_exact:
  assumes "(child_step t)\<^sup>*\<^sup>* new_child_registry s"
  shows "\<exists>s'. releasePeer p s = Some s' \<and> deletionTokens s' = deletionTokens s \<and>
    (\<forall>i. recorded_leases s' i = filter (\<lambda>l. le_senderPeer l \<noteq> p) (recorded_leases s i))"
  using releasePeer_defined [OF child_gate.steps_ok [OF assms new_child_ok]] by blast

definition demo_child :: child_registry where
  "demo_child = snd (acquire_lease 4 1 70 Encoding (registerPeer (\<lambda>p. True) 4 new_child_registry))"

lemma demo_child_reachable: "(child_step 0)\<^sup>*\<^sup>* new_child_registry demo_child"
  unfolding demo_child_def
  by (meson child_step.acquire_lease child_step.peer r_into_rtranclp rtranclp.rtrancl_into_rtrancl)

theorem releasePeer_exact_witness:
  "\<exists>s'. releasePeer 4 demo_child = Some s' \<and> recorded_leases s' 70 = [] \<and> length (recorded_leases demo_child 70) = 1"
proof -
  obtain s' where "releasePeer 4 demo_child = Some s'"
    "\<forall>i. recorded_leases s' i = filter (\<lambda>l. le_senderPeer l \<noteq> 4) (recorded_leases demo_child i)"
    using releasePeer_exact [OF demo_child_reachable] by blast
  moreover have "filter (\<lambda>l. le_senderPeer l \<noteq> 4) (recorded_leases demo_child 70) = []"
    "length (recorded_leases demo_child 70) = 1" by code_simp+
  ultimately show ?thesis by simp
qed

end
