(* ===== verification/Managed_Files.thy ===== *)
theory Managed_Files
  imports Sub_Directory
begin

text \<open>
  The removal of recorded files: \<open>removeManagedFile\<close> and \<open>openPinnedDeletionParent\<close> of
  \<open>RecordedManageModel\<close> (\<open>src/src/model/operator/recorded/RecordedManageModel.ts\<close>) on a POSIX
  platform, on Linux, where directories are held open and reached by their file descriptors, and elsewhere, where
  real paths are checked again before the removal. The file system answers every call as it likes, and the
  answer may depend on the number of the call, so that directories may be exchanged between two calls. The theorem says
  which path is handed to \<open>unlink\<close> and what has been checked of every directory on the way to it.
\<close>

subsection \<open>Paths of the standard library\<close>

definition abs_string :: "jstr list \<Rightarrow> jstr" where
  "abs_string ns = slash # join_with [slash] ns"

definition path_isAbsolute :: "jstr \<Rightarrow> bool" where
  "path_isAbsolute p = (path_root p \<noteq> [])"

text \<open>The names of an absolute path, resolved.\<close>

definition abs_names :: "jstr \<Rightarrow> jstr list" where
  "abs_names p = rev (fold (norm_step False) (segments p) [])"

text \<open>\<open>path.resolve\<close> and \<open>path.relative\<close> below an absolute path.\<close>

definition path_resolve :: "jstr \<Rightarrow> jstr \<Rightarrow> jstr" where
  "path_resolve base p = slash # normalizeString (if path_isAbsolute p then p else base @ slash # p) False"

fun rel_segments :: "jstr list \<Rightarrow> jstr list \<Rightarrow> jstr list" where
  "rel_segments (f # fs) (t # ts) =
     (if f = t then rel_segments fs ts else replicate (length (f # fs)) [dot, dot] @ t # ts)"
| "rel_segments fs ts = replicate (length fs) [dot, dot] @ ts"

definition path_relative :: "jstr \<Rightarrow> jstr \<Rightarrow> jstr" where
  "path_relative base p = join_with [slash] (rel_segments (abs_names base) (abs_names p))"

definition path_join :: "jstr \<Rightarrow> jstr \<Rightarrow> jstr" where
  "path_join a b =
     (if a = [] \<and> b = [] then [dot] else if a = [] then path_normalize b
      else if b = [] then path_normalize a else path_normalize (a @ slash # b))"

text \<open>\<open>dirname\<close> and \<open>basename\<close> of a path that does not end with a separator.\<close>

definition path_dirname :: "jstr \<Rightarrow> jstr" where
  "path_dirname p = (let ss = segments p in if length ss \<le> 1 then [dot] else join_with [slash] (butlast ss))"

definition path_basename :: "jstr \<Rightarrow> jstr" where
  "path_basename p = last (segments p)"

subsection \<open>Calls of the file system\<close>

record file_stats =
  fs_dev :: int
  fs_ino :: int
  fs_isDirectory :: bool

text \<open>The answers; the first argument is the number of the call, and \<open>None\<close> is a rejection. \<open>opens\<close> is
  \<open>open\<close> with the flags \<open>O_DIRECTORY\<close> and \<open>O_NOFOLLOW\<close>, \<open>fstat_of\<close> and
  \<open>closes\<close> are \<open>stat\<close> and \<open>close\<close> of the handle with a descriptor.\<close>

record file_answers =
  usesDescriptorPaths :: bool
  realpath_of :: "nat \<Rightarrow> jstr \<Rightarrow> jstr option"
  opens :: "nat \<Rightarrow> jstr \<Rightarrow> nat option"
  fstat_of :: "nat \<Rightarrow> nat \<Rightarrow> file_stats option"
  stat_of :: "nat \<Rightarrow> jstr \<Rightarrow> file_stats option"
  lstat_of :: "nat \<Rightarrow> jstr \<Rightarrow> file_stats option"
  closes :: "nat \<Rightarrow> nat \<Rightarrow> bool"
  unlinks :: "nat \<Rightarrow> jstr \<Rightarrow> bool"

text \<open>An asynchronous function: from the number of calls so far to its result, \<open>None\<close> if it throws.\<close>

type_synonym 'a file_act = "nat \<Rightarrow> 'a option \<times> nat"

definition file_ret :: "'a \<Rightarrow> 'a file_act" where
  "file_ret x = (\<lambda>n. (Some x, n))"

definition file_throw :: "'a file_act" where
  "file_throw = (\<lambda>n. (None, n))"

definition file_call :: "(nat \<Rightarrow> 'a option) \<Rightarrow> 'a file_act" where
  "file_call f = (\<lambda>n. (f n, n + 1))"

definition file_then :: "'a file_act \<Rightarrow> ('a \<Rightarrow> 'b file_act) \<Rightarrow> 'b file_act" where
  "file_then m k = (\<lambda>n. case m n of (None, n1) \<Rightarrow> (None, n1) | (Some x, n1) \<Rightarrow> k x n1)"

definition file_catch :: "'a file_act \<Rightarrow> 'a file_act \<Rightarrow> 'a file_act" where
  "file_catch m h = (\<lambda>n. case m n of (None, n1) \<Rightarrow> h n1 | (Some x, n1) \<Rightarrow> (Some x, n1))"

text \<open>Clean up, with its rejection ignored, and throw.\<close>

definition file_rethrow :: "'b file_act \<Rightarrow> 'a file_act" where
  "file_rethrow cleanup = (\<lambda>n. (None, snd (cleanup n)))"

subsection \<open>Pinned directories\<close>

text \<open>The handle is \<open>None\<close> for \<open>pathOnlyHandle\<close>, which nothing closes.\<close>

record pinned_directory =
  logicalPath :: jstr
  descriptorPath :: jstr
  pd_identity :: file_stats
  pd_handle :: "nat option"
  boundary :: jstr

definition getUploadDescriptorPath :: "nat \<Rightarrow> jstr" where
  "getUploadDescriptorPath descriptor = js ''/proc/self/fd'' @ slash # nat_str descriptor"

definition close_directory :: "file_answers \<Rightarrow> pinned_directory \<Rightarrow> unit file_act" where
  "close_directory fs d = (case pd_handle d of
     None \<Rightarrow> file_ret ()
   | Some fd \<Rightarrow> file_call (\<lambda>n. if closes fs n fd then Some () else None))"

definition leaves_base :: "jstr \<Rightarrow> bool" where
  "leaves_base relative \<longleftrightarrow> relative = [dot, dot] \<or> take 3 relative = [dot, dot, slash] \<or> path_isAbsolute relative"

fun path_chain :: "jstr \<Rightarrow> jstr list \<Rightarrow> jstr list" where
  "path_chain p [] = [p]"
| "path_chain p (s # ss) = p # path_chain (path_join p s) ss"

definition getPathChain :: "jstr \<Rightarrow> jstr \<Rightarrow> jstr list option" where
  "getPathChain base p =
     (let relative = path_relative base p
      in if leaves_base relative then None
         else Some (path_chain base (filter (\<lambda>s. s \<noteq> []) (segments relative))))"

fun lstat_chain :: "file_answers \<Rightarrow> jstr list \<Rightarrow> unit file_act" where
  "lstat_chain fs [] = file_ret ()"
| "lstat_chain fs (p # ps) = file_then (file_call (\<lambda>n. lstat_of fs n p))
     (\<lambda>st. if \<not> fs_isDirectory st then file_throw else lstat_chain fs ps)"

definition assertPathChain :: "file_answers \<Rightarrow> pinned_directory \<Rightarrow> unit file_act" where
  "assertPathChain fs d = (case getPathChain (boundary d) (logicalPath d) of
     None \<Rightarrow> file_throw
   | Some chain \<Rightarrow> file_then (lstat_chain fs chain)
       (\<lambda>_. file_then (file_call (\<lambda>n. realpath_of fs n (boundary d)))
         (\<lambda>boundaryRealPath. file_then (file_call (\<lambda>n. realpath_of fs n (logicalPath d)))
           (\<lambda>directoryRealPath. if getPathChain boundaryRealPath directoryRealPath = None then file_throw else file_ret ()))))"

definition same_file :: "file_stats \<Rightarrow> file_stats \<Rightarrow> bool" where
  "same_file a b \<longleftrightarrow> fs_dev a = fs_dev b \<and> fs_ino a = fs_ino b"

definition assertPinnedUploadDirectory :: "file_answers \<Rightarrow> pinned_directory \<Rightarrow> unit file_act" where
  "assertPinnedUploadDirectory fs d = file_then (file_call (\<lambda>n. stat_of fs n (descriptorPath d)))
     (\<lambda>descriptorStats. file_then (file_call (\<lambda>n. lstat_of fs n (logicalPath d)))
       (\<lambda>logicalStats.
          if \<not> fs_isDirectory descriptorStats \<or> \<not> fs_isDirectory logicalStats \<or>
             \<not> same_file descriptorStats (pd_identity d) \<or> \<not> same_file logicalStats (pd_identity d) then file_throw
          else if \<not> usesDescriptorPaths fs then assertPathChain fs d else file_ret ()))"

definition openPathPinnedDirectory :: "file_answers \<Rightarrow> jstr \<Rightarrow> jstr \<Rightarrow> pinned_directory file_act" where
  "openPathPinnedDirectory fs logical bound = file_then (file_call (\<lambda>n. lstat_of fs n logical))
     (\<lambda>stats. if \<not> fs_isDirectory stats then file_throw
        else let pinned = \<lparr>logicalPath = logical, descriptorPath = logical, pd_identity = stats, pd_handle = None, boundary = bound\<rparr>
             in file_then (assertPinnedUploadDirectory fs pinned) (\<lambda>_. file_ret pinned))"

definition openPinnedUploadDirectory :: "file_answers \<Rightarrow> jstr \<Rightarrow> jstr \<Rightarrow> jstr \<Rightarrow> pinned_directory file_act" where
  "openPinnedUploadDirectory fs logical access bound =
     (if \<not> usesDescriptorPaths fs then openPathPinnedDirectory fs logical bound
      else file_then (file_call (\<lambda>n. opens fs n access))
        (\<lambda>fd. file_catch
           (file_then (file_call (\<lambda>n. fstat_of fs n fd))
             (\<lambda>stats. if \<not> fs_isDirectory stats then file_throw
                else let pinned = \<lparr>logicalPath = logical, descriptorPath = getUploadDescriptorPath fd, pd_identity = stats,
                           pd_handle = Some fd, boundary = bound\<rparr>
                     in file_then (assertPinnedUploadDirectory fs pinned) (\<lambda>_. file_ret pinned)))
           (file_rethrow (file_call (\<lambda>n. if closes fs n fd then Some () else None)))))"

definition confirmDirectoryBeforeMutation :: "file_answers \<Rightarrow> pinned_directory \<Rightarrow> unit file_act" where
  "confirmDirectoryBeforeMutation fs d =
     (if \<not> usesDescriptorPaths fs then assertPinnedUploadDirectory fs d else file_ret ())"

subsection \<open>Removal\<close>

datatype removal = Removed | UnsafePath | UnlinkAttemptFailed

text \<open>The loop of \<open>openPinnedDeletionParent\<close>.\<close>

fun open_segments :: "file_answers \<Rightarrow> pinned_directory \<Rightarrow> jstr list \<Rightarrow> pinned_directory file_act" where
  "open_segments fs current [] = file_ret current"
| "open_segments fs current (segment # ss) =
     file_then (file_catch
         (openPinnedUploadDirectory fs (path_join (logicalPath current) segment) (path_join (descriptorPath current) segment)
           (boundary current))
         (file_rethrow (close_directory fs current)))
       (\<lambda>child. file_then (file_catch (close_directory fs current) (file_rethrow (close_directory fs child)))
         (\<lambda>_. open_segments fs child ss))"

definition openPinnedDeletionParent :: "file_answers \<Rightarrow> jstr \<Rightarrow> jstr \<Rightarrow> pinned_directory file_act" where
  "openPinnedDeletionParent fs root relativeParent =
     (let ss = (if relativeParent = [dot] then [] else segments relativeParent)
      in file_then (openPinnedUploadDirectory fs root root root) (\<lambda>current. open_segments fs current ss))"

text \<open>The result, and the path that was handed to \<open>unlink\<close> with the number of that call. What closing the
  parent answers in the end is only logged.\<close>

definition removeManagedFile :: "file_answers \<Rightarrow> jstr option \<Rightarrow> jstr \<Rightarrow> removal \<times> (nat \<times> jstr) option" where
  "removeManagedFile fs root relativePath = (case root of
     None \<Rightarrow> (UnsafePath, None)
   | Some r \<Rightarrow> (case realpath_of fs 0 r of
       None \<Rightarrow> (UnsafePath, None)
     | Some resolvedRoot \<Rightarrow>
         (let registeredPath = stripLeadingSeparators relativePath;
              target = path_resolve resolvedRoot registeredPath;
              relativeTarget = path_relative resolvedRoot target
          in if path_isAbsolute registeredPath \<or> relativeTarget = [] \<or> leaves_base relativeTarget then (UnsafePath, None)
             else (case openPinnedDeletionParent fs resolvedRoot (path_dirname relativeTarget) 1 of
               (None, n) \<Rightarrow> (UnsafePath, None)
             | (Some parent, n) \<Rightarrow> (case confirmDirectoryBeforeMutation fs parent n of
                 (None, m) \<Rightarrow> (UnsafePath, None)
               | (Some u, m) \<Rightarrow>
                   (let file = path_join (descriptorPath parent) (path_basename target)
                    in (if unlinks fs m file then Removed else UnlinkAttemptFailed, Some (m, file))))))))"

subsection \<open>Lemmas on paths\<close>

lemma split_from_append: "split_from acc (a @ slash # b) = split_from acc a @ split_from [] b"
  by (induction acc a rule: split_from.induct) auto

lemma segments_append: "segments (a @ slash # b) = segments a @ segments b"
  by (simp add: segments_def split_from_append)

lemma segments_slash: "segments (slash # b) = [] # segments b"
  using segments_append [of "[]" b] by (simp add: segments_def)

lemma split_from_name: "slash \<notin> set n \<Longrightarrow> split_from acc n = [rev acc @ n]"
  by (induction n arbitrary: acc) auto

lemma segments_name: "slash \<notin> set n \<Longrightarrow> segments n = [n]"
  by (simp add: segments_def split_from_name)

lemma segments_join: "\<forall>n \<in> set ns. slash \<notin> set n \<Longrightarrow> ns \<noteq> [] \<Longrightarrow> segments (join_with [slash] ns) = ns"
proof (induction ns rule: induct_list012)
  case (3 x y ys)
  then show ?case using segments_append [of x "join_with [slash] (y # ys)"] by (simp add: segments_name)
qed (simp_all add: segments_name)

lemma proper_no_slash: "\<forall>n \<in> set ns. proper n \<Longrightarrow> \<forall>n \<in> set ns. slash \<notin> set n"
  by (simp add: proper_def)

lemma norm_proper: "\<forall>s \<in> set ss. slash \<notin> set s \<Longrightarrow> \<forall>s \<in> set acc. proper s \<Longrightarrow>
    \<forall>s \<in> set (fold (norm_step False) ss acc). proper s"
proof (induction ss arbitrary: acc)
  case (Cons s ss)
  have "\<forall>x \<in> set (norm_step False s acc). proper x"
    using Cons.prems by (cases acc) (simp_all add: norm_step_def proper_def)
  then show ?case using Cons by simp
qed simp

lemma norm_names: "\<forall>n \<in> set ns. proper n \<Longrightarrow> fold (norm_step b) ns acc = rev ns @ acc"
  by (induction ns arbitrary: acc) (auto simp: norm_name)

lemma fold_segments_join: "\<forall>n \<in> set ns. proper n \<Longrightarrow> fold (norm_step b) (segments (join_with [slash] ns)) acc = rev ns @ acc"
  by (cases "ns = []") (simp_all add: segments_join [OF proper_no_slash] norm_names segments_name norm_empty)

lemma fold_segments_abs: "\<forall>n \<in> set ns. proper n \<Longrightarrow> fold (norm_step b) (segments (abs_string ns)) acc = rev ns @ acc"
  by (simp add: abs_string_def segments_slash fold_segments_join norm_empty)

lemma abs_names_abs [simp]: "\<forall>n \<in> set ns. proper n \<Longrightarrow> abs_names (abs_string ns) = ns"
  by (simp add: abs_names_def fold_segments_abs)

lemma join_last: "join_with [slash] (ns @ [n]) = (if ns = [] then n else join_with [slash] ns @ slash # n)"
  by (induction ns rule: induct_list012) auto

lemma join_proper:
  assumes "\<forall>n \<in> set ns. proper n" "ns \<noteq> []"
  shows "join_with [slash] ns \<noteq> []" "last (join_with [slash] ns) \<noteq> slash"
proof -
  obtain ms m where ms: "ns = ms @ [m]" using assms(2) by (cases ns rule: rev_cases) auto
  then have "m \<noteq> []" "slash \<notin> set m" using assms(1) by (auto simp: proper_def)
  then show "join_with [slash] ns \<noteq> []" "last (join_with [slash] ns) \<noteq> slash"
    using last_in_set [of m] by (auto simp: ms join_last simp del: last_in_set)
qed

lemma path_join_abs:
  assumes "\<forall>n \<in> set ns. proper n" "proper n"
  shows "path_join (abs_string ns) n = abs_string (ns @ [n])"
proof -
  have n: "n \<noteq> []" "last n \<noteq> slash" "slash \<notin> set n" using assms(2) by (auto simp: proper_def dest: last_in_set)
  have "fold (norm_step False) (segments (abs_string ns @ slash # n)) [] = rev (ns @ [n])"
    using assms n(3) by (simp add: segments_append fold_segments_abs segments_name norm_name)
  then have "normalizeString (abs_string ns @ slash # n) False = join_with [slash] (ns @ [n])"
    by (simp add: normalizeString_def)
  moreover have "join_with [slash] (ns @ [n]) \<noteq> []" using join_proper(1) [of "ns @ [n]"] assms by simp
  ultimately show ?thesis using n(1,2) by (simp add: path_join_def path_normalize_def abs_string_def)
qed

text \<open>What an act that has returned went through.\<close>

lemma file_act_Some [simp]:
  "file_ret x n = (Some y, m) \<longleftrightarrow> y = x \<and> m = n" "file_throw n \<noteq> (Some y, m)" "file_rethrow c n \<noteq> (Some y, m)"
  "file_call f n = (Some y, m) \<longleftrightarrow> f n = Some y \<and> m = n + 1"
  "file_catch a (file_rethrow c) n = (Some y, m) \<longleftrightarrow> a n = (Some y, m)"
  by (auto simp: file_ret_def file_throw_def file_rethrow_def file_call_def file_catch_def split: prod.splits option.splits)

lemma file_then_Some: "file_then a k n = (Some y, m) \<longleftrightarrow> (\<exists>x i. a n = (Some x, i) \<and> k x i = (Some y, m))"
  by (auto simp: file_then_def split: prod.splits option.splits)

lemma path_join_fd:
  assumes "proper s"
  shows "path_join (getUploadDescriptorPath fd) s = getUploadDescriptorPath fd @ slash # s"
proof -
  let ?names = "[js ''proc'', js ''self'', js ''fd'', nat_str fd]"
  have d: "digit k \<noteq> slash \<and> digit k \<noteq> dot" if "k < 10" for k
    using digit_val [OF that] by auto
  have n: "set (nat_str fd) \<inter> {slash, dot} = {}" using d nat_str_digits [of _ fd] by (metis (no_types, lifting) disjoint_iff insertE singletonD)
  then have "proper (nat_str fd)" using nat_str_nonempty [of fd] by (auto simp: proper_def)
  moreover have "list_all proper [js ''proc'', js ''self'', js ''fd'']" by code_simp
  ultimately have p: "\<forall>n \<in> set ?names. proper n" by (simp add: list_all_iff)
  have "js ''/proc/self/fd'' = slash # js ''proc'' @ slash # js ''self'' @ slash # js ''fd''" by code_simp
  then have "getUploadDescriptorPath fd = abs_string ?names" by (simp add: getUploadDescriptorPath_def abs_string_def)
  then show ?thesis using path_join_abs [OF p assms] by (simp add: abs_string_def)
qed

subsection \<open>The way down\<close>

text \<open>A path is a directory, no symbolic link, and the file with the identity \<open>st\<close>.\<close>

definition is_real_directory :: "file_answers \<Rightarrow> jstr \<Rightarrow> file_stats \<Rightarrow> bool" where
  "is_real_directory fs p st \<longleftrightarrow> (\<exists>n ls. lstat_of fs n p = Some ls \<and> fs_isDirectory ls \<and> same_file ls st)"

lemma asserted:
  assumes "assertPinnedUploadDirectory fs d n = (Some u, m)"
  shows "is_real_directory fs (logicalPath d) (pd_identity d)"
  using assms by (auto simp: assertPinnedUploadDirectory_def file_then_Some is_real_directory_def split: if_splits)

lemma opened:
  assumes "openPinnedUploadDirectory fs l a b n = (Some d, m)"
  shows "logicalPath d = l" "is_real_directory fs l (pd_identity d)"
    "\<not> usesDescriptorPaths fs \<Longrightarrow> descriptorPath d = l"
    "usesDescriptorPaths fs \<Longrightarrow> \<exists>fd i j. opens fs i a = Some fd \<and> descriptorPath d = getUploadDescriptorPath fd \<and>
       fstat_of fs j fd = Some (pd_identity d)"
proof -
  have "logicalPath d = l \<and> is_real_directory fs l (pd_identity d) \<and> (\<not> usesDescriptorPaths fs \<longrightarrow> descriptorPath d = l) \<and>
      (usesDescriptorPaths fs \<longrightarrow> (\<exists>fd i j. opens fs i a = Some fd \<and> descriptorPath d = getUploadDescriptorPath fd \<and>
       fstat_of fs j fd = Some (pd_identity d)))"
    using assms by (fastforce simp: openPinnedUploadDirectory_def openPathPinnedDirectory_def file_then_Some Let_def
        dest: asserted split: if_splits)
  then show "logicalPath d = l" "is_real_directory fs l (pd_identity d)"
    "\<not> usesDescriptorPaths fs \<Longrightarrow> descriptorPath d = l"
    "usesDescriptorPaths fs \<Longrightarrow> \<exists>fd i j. opens fs i a = Some fd \<and> descriptorPath d = getUploadDescriptorPath fd \<and>
       fstat_of fs j fd = Some (pd_identity d)" by blast+
qed

text \<open>The descriptors of the directories from \<open>base\<close> down the names \<open>ns\<close>: the first was opened by its path,
  each other one by its name below the descriptor before it.\<close>

definition descriptors :: "file_answers \<Rightarrow> jstr list \<Rightarrow> jstr list \<Rightarrow> nat list \<Rightarrow> bool" where
  "descriptors fs base ns fds \<longleftrightarrow> length fds = Suc (length ns) \<and> (\<exists>i. opens fs i (abs_string base) = Some (fds ! 0)) \<and>
     (\<forall>k < length ns. \<exists>i. opens fs i (getUploadDescriptorPath (fds ! k) @ slash # ns ! k) = Some (fds ! Suc k))"

text \<open>Every directory from \<open>base\<close> down the names \<open>ns\<close> was seen to be one; with descriptors, the open one.\<close>

definition directories :: "file_answers \<Rightarrow> jstr list \<Rightarrow> jstr list \<Rightarrow> nat list \<Rightarrow> bool" where
  "directories fs base ns fds \<longleftrightarrow> (\<forall>k \<le> length ns. \<exists>st. is_real_directory fs (abs_string (base @ take k ns)) st \<and>
     (\<not> usesDescriptorPaths fs \<or> (\<exists>j. fstat_of fs j (fds ! k) = Some st)))"

definition reached :: "file_answers \<Rightarrow> jstr list \<Rightarrow> jstr list \<Rightarrow> nat list \<Rightarrow> pinned_directory \<Rightarrow> bool" where
  "reached fs base ns fds d \<longleftrightarrow> logicalPath d = abs_string (base @ ns) \<and> directories fs base ns fds \<and>
     (if usesDescriptorPaths fs then descriptors fs base ns fds \<and> descriptorPath d = getUploadDescriptorPath (last fds)
      else descriptorPath d = logicalPath d)"

lemma reached_root:
  assumes "openPinnedUploadDirectory fs (abs_string base) (abs_string base) b n = (Some d, m)"
  shows "\<exists>fds. reached fs base [] fds d"
proof (cases "usesDescriptorPaths fs")
  case True
  then obtain fd i j where "opens fs i (abs_string base) = Some fd" "descriptorPath d = getUploadDescriptorPath fd"
    "fstat_of fs j fd = Some (pd_identity d)" using opened(4) [OF assms] by blast
  then have "reached fs base [] [fd] d" using True opened(1,2) [OF assms] by (auto simp: reached_def descriptors_def directories_def)
  then show ?thesis by blast
next
  case False
  then have "reached fs base [] [] d" using opened(1-3) [OF assms] by (auto simp: reached_def directories_def)
  then show ?thesis by blast
qed

lemma reached_child:
  assumes "reached fs base ns fds d" "proper s" "\<forall>n \<in> set (base @ ns). proper n"
    and "openPinnedUploadDirectory fs (path_join (logicalPath d) s) (path_join (descriptorPath d) s) b n = (Some c, m)"
  shows "\<exists>fds. reached fs base (ns @ [s]) fds c"
proof -
  have l: "path_join (logicalPath d) s = abs_string (base @ ns @ [s])"
    using assms(1) path_join_abs [OF assms(3,2)] by (simp add: reached_def)
  note op = opened [OF assms(4)]
  have dirs: "directories fs base (ns @ [s]) (fds @ fs')"
    if "usesDescriptorPaths fs \<Longrightarrow> length fds = Suc (length ns)"
      "\<not> usesDescriptorPaths fs \<or> (\<exists>j. fstat_of fs j ((fds @ fs') ! Suc (length ns)) = Some (pd_identity c))" for fs'
    unfolding directories_def
  proof (intro allI impI)
    fix k assume k: "k \<le> length (ns @ [s])"
    show "\<exists>st. is_real_directory fs (abs_string (base @ take k (ns @ [s]))) st \<and>
        (\<not> usesDescriptorPaths fs \<or> (\<exists>j. fstat_of fs j ((fds @ fs') ! k) = Some st))"
    proof (cases "k = Suc (length ns)")
      case True
      then show ?thesis using op(2) l that(2) by auto
    next
      case False
      then have k': "k \<le> length ns" using k by simp
      then obtain st where "is_real_directory fs (abs_string (base @ take k ns)) st"
        "\<not> usesDescriptorPaths fs \<or> (\<exists>j. fstat_of fs j (fds ! k) = Some st)"
        using assms(1) unfolding reached_def directories_def by blast
      moreover have "usesDescriptorPaths fs \<Longrightarrow> (fds @ fs') ! k = fds ! k" using that(1) k' by (simp add: nth_append)
      ultimately show ?thesis using k' by auto
    qed
  qed
  show ?thesis
  proof (cases "usesDescriptorPaths fs")
    case True
    then have d: "descriptors fs base ns fds" "descriptorPath d = getUploadDescriptorPath (last fds)"
      using assms(1) by (simp_all add: reached_def)
    then have l0: "length fds = Suc (length ns)" by (simp add: descriptors_def)
    then have "fds \<noteq> []" by auto
    then have len: "length fds = Suc (length ns)" "last fds = fds ! length ns" using l0 by (simp_all add: last_conv_nth)
    have acc: "path_join (descriptorPath d) s = getUploadDescriptorPath (fds ! length ns) @ slash # s"
      using d(2) len(2) path_join_fd [OF assms(2)] by simp
    obtain fd i j where c: "opens fs i (getUploadDescriptorPath (fds ! length ns) @ slash # s) = Some fd"
      "descriptorPath c = getUploadDescriptorPath fd" "fstat_of fs j fd = Some (pd_identity c)"
      using op(4) True acc by auto
    have "descriptors fs base (ns @ [s]) (fds @ [fd])"
      using d(1) c(1) len(1) unfolding descriptors_def by (auto simp: nth_append less_Suc_eq)
    moreover have "directories fs base (ns @ [s]) (fds @ [fd])" using len(1) c(3) by (intro dirs) (auto simp: nth_append)
    ultimately have "reached fs base (ns @ [s]) (fds @ [fd]) c" using True c(2) op(1) l by (simp add: reached_def)
    then show ?thesis by blast
  next
    case False
    then have "directories fs base (ns @ [s]) (fds @ [])" by (intro dirs) simp_all
    then have "reached fs base (ns @ [s]) fds c" using False op(1,3) l by (simp add: reached_def)
    then show ?thesis by blast
  qed
qed

lemma open_segments_reached:
  assumes "open_segments fs d ss n = (Some parent, m)" "reached fs base ns fds d"
    "\<forall>n \<in> set (base @ ns). proper n" "\<forall>n \<in> set ss. proper n"
  shows "\<exists>fds. reached fs base (ns @ ss) fds parent"
  using assms
proof (induction ss arbitrary: ns fds d n)
  case (Cons s ss)
  obtain c i j where c: "openPinnedUploadDirectory fs (path_join (logicalPath d) s) (path_join (descriptorPath d) s) (boundary d) n = (Some c, i)"
    "open_segments fs c ss j = (Some parent, m)"
    using Cons.prems(1) by (auto simp: file_then_Some)
  obtain fds' where r: "reached fs base (ns @ [s]) fds' c"
    using reached_child [OF Cons.prems(2) _ Cons.prems(3) c(1)] Cons.prems(4) by auto
  show ?case using Cons.IH [OF c(2) r] Cons.prems(3,4) by auto
qed auto

text \<open>The way from \<open>base\<close> to a path goes down, or it starts with \<open>..\<close>.\<close>

lemma replicate_head: "(\<forall>rest. replicate (length fs) x \<noteq> x # rest) \<longleftrightarrow> fs = []"
  by (cases fs) auto

lemma rel_segments_cases:
  obtains (down) ns where "ts = base @ ns" "rel_segments base ts = ns"
  | (up) rest where "rel_segments base ts = [dot, dot] # rest"
proof -
  have "(\<exists>ns. ts = base @ ns \<and> rel_segments base ts = ns) \<or> (\<exists>rest. rel_segments base ts = [dot, dot] # rest)"
    by (induction base ts rule: rel_segments.induct) (auto simp: replicate_head)
  then show thesis using down up by blast
qed

subsection \<open>Removal stays below the root\<close>

text \<open>The last name of a path and the path before it.\<close>

lemma relative_parts:
  assumes "\<forall>n \<in> set (base @ ns). proper n" "ns \<noteq> []"
  shows "path_basename (abs_string (base @ ns)) = last ns"
    "path_dirname (join_with [slash] ns) = (if length ns = 1 then [dot] else join_with [slash] (butlast ns))"
proof -
  have "segments (abs_string (base @ ns)) = [] # base @ ns"
    using assms segments_join [OF proper_no_slash [OF assms(1)]] by (simp add: abs_string_def segments_slash)
  then show "path_basename (abs_string (base @ ns)) = last ns" using assms(2) by (simp add: path_basename_def)
  have "segments (join_with [slash] ns) = ns" using assms by (intro segments_join) (auto simp: proper_def)
  then show "path_dirname (join_with [slash] ns) = (if length ns = 1 then [dot] else join_with [slash] (butlast ns))"
    using assms(2) by (cases ns) (auto simp: path_dirname_def Let_def)
qed

lemma join_not_dot: "\<forall>n \<in> set ns. proper n \<Longrightarrow> join_with [slash] ns \<noteq> [dot]"
proof (cases ns)
  case (Cons n ms)
  obtain t where t: "join_with [slash] (n # ms) = n @ t" "t = [] \<or> hd t = slash" using join_first by blast
  assume "\<forall>n \<in> set ns. proper n"
  then have "n \<noteq> []" "n \<noteq> [dot]" using Cons by (auto simp: proper_def)
  then show ?thesis using t Cons by (cases n) auto
qed simp

lemma opened_parent:
  assumes "\<forall>n \<in> set (base @ ns). proper n" "ns \<noteq> []"
    and "openPinnedDeletionParent fs (abs_string base) (path_dirname (join_with [slash] ns)) n = (Some parent, m)"
  shows "\<exists>fds. reached fs base (butlast ns) fds parent"
proof -
  let ?ds = "butlast ns"
  have ds: "\<forall>n \<in> set ?ds. proper n" using assms(1) by (auto dest: in_set_butlastD)
  have ss: "(if path_dirname (join_with [slash] ns) = [dot] then []
      else segments (path_dirname (join_with [slash] ns))) = ?ds"
  proof (cases "length ns = 1")
    case True
    then have "?ds = []" by (cases ns) auto
    then show ?thesis using True relative_parts(2) [OF assms(1,2)] by simp
  next
    case False
    then have "?ds \<noteq> []" using assms(2) by (cases ns rule: rev_cases) auto
    then show ?thesis
      using False relative_parts(2) [OF assms(1,2)] join_not_dot [OF ds] segments_join [OF proper_no_slash [OF ds]]
      by simp
  qed
  obtain d i where d: "openPinnedUploadDirectory fs (abs_string base) (abs_string base) (abs_string base) n = (Some d, i)"
    "open_segments fs d ?ds i = (Some parent, m)"
    using assms(3) ss by (auto simp: openPinnedDeletionParent_def Let_def file_then_Some)
  obtain fds where "reached fs base [] fds d" using reached_root [OF d(1)] by blast
  moreover have "\<forall>n \<in> set (base @ []). proper n" using assms(1) by auto
  ultimately show ?thesis using open_segments_reached [OF d(2), of base "[]" fds] ds by auto
qed

lemma resolved_below:
  assumes "\<forall>n \<in> set base. proper n"
  obtains ts where "path_resolve (abs_string base) p = abs_string ts" "\<forall>n \<in> set ts. proper n"
    "path_relative (abs_string base) (path_resolve (abs_string base) p) = join_with [slash] (rel_segments base ts)"
proof -
  let ?q = "if path_isAbsolute p then p else abs_string base @ slash # p"
  let ?ts = "rev (fold (norm_step False) (segments ?q) [])"
  have ts: "\<forall>n \<in> set ?ts. proper n" using norm_proper [of "segments ?q" "[]"] segments_no_slash by auto
  have r: "path_resolve (abs_string base) p = abs_string ?ts"
    by (simp add: path_resolve_def normalizeString_def abs_string_def)
  then show thesis using that [of ?ts] ts abs_names_abs [OF ts] abs_names_abs [OF assms]
    unfolding path_relative_def by metis
qed

text \<open>\<open>realpath\<close> answers an absolute path without \<open>.\<close> and \<open>..\<close>.\<close>

definition canonical_paths :: "file_answers \<Rightarrow> bool" where
  "canonical_paths fs \<longleftrightarrow> (\<forall>n r p. realpath_of fs n r = Some p \<longrightarrow> (\<exists>base. (\<forall>n \<in> set base. proper n) \<and> p = abs_string base))"

lemma removal_inside:
  assumes canonical: "canonical_paths fs"
    and run: "removeManagedFile fs root rel = (res, Some (m, file))"
  shows "\<exists>r base ns fds. root = Some r \<and> realpath_of fs 0 r = Some (abs_string base) \<and> ns \<noteq> [] \<and>
    (\<forall>n \<in> set (base @ ns). proper n) \<and> directories fs base (butlast ns) fds \<and>
    (if usesDescriptorPaths fs
     then descriptors fs base (butlast ns) fds \<and> file = getUploadDescriptorPath (last fds) @ slash # last ns
     else file = abs_string (base @ ns)) \<and>
    (res = Removed \<longleftrightarrow> unlinks fs m file)"
proof -
  obtain r p where r: "root = Some r" "realpath_of fs 0 r = Some p"
    using run by (auto simp: removeManagedFile_def split: option.splits)
  obtain base where base: "\<forall>n \<in> set base. proper n" "p = abs_string base" using canonical r(2) unfolding canonical_paths_def by blast
  let ?reg = "stripLeadingSeparators rel"
  obtain ts where ts: "path_resolve p ?reg = abs_string ts" "\<forall>n \<in> set ts. proper n"
    "path_relative p (path_resolve p ?reg) = join_with [slash] (rel_segments base ts)"
    using resolved_below [OF base(1), of ?reg] base(2) by metis
  let ?rel = "join_with [slash] (rel_segments base ts)"
  have rel: "path_relative p (abs_string ts) = ?rel" using ts(1,3) by simp
  have "?rel \<noteq> [] \<and> \<not> leaves_base ?rel \<and>
      (\<exists>parent n. openPinnedDeletionParent fs p (path_dirname ?rel) 1 = (Some parent, n) \<and>
        file = path_join (descriptorPath parent) (path_basename (abs_string ts)) \<and> (res = Removed \<longleftrightarrow> unlinks fs m file))"
    using run r by (auto simp: removeManagedFile_def Let_def ts(1) rel split: if_splits option.splits prod.splits)
  then obtain parent n where step: "?rel \<noteq> []" "\<not> leaves_base ?rel"
    "openPinnedDeletionParent fs p (path_dirname ?rel) 1 = (Some parent, n)"
    "file = path_join (descriptorPath parent) (path_basename (abs_string ts))" "res = Removed \<longleftrightarrow> unlinks fs m file"
    by blast
  from rel_segments_cases [of ts base] obtain ns where ns: "ts = base @ ns" "rel_segments base ts = ns"
  proof cases
    case (up rest)
    obtain t where t: "?rel = [dot, dot] @ t" "t = [] \<or> hd t = slash" using join_first [of "[dot, dot]" rest] up by auto
    then show thesis using first_segment [of "[dot, dot]" t] step(2) by (simp add: leaves_base_def)
  qed (use that in blast)
  have all: "\<forall>n \<in> set (base @ ns). proper n" "ns \<noteq> []" using ts(2) ns step(1) by auto
  then have last: "proper (last ns)" "\<forall>n \<in> set (base @ butlast ns). proper n" by (auto dest: in_set_butlastD)
  obtain fds where fds: "reached fs base (butlast ns) fds parent"
    using opened_parent [OF all step(3) [unfolded ns(2) base(2)]] by blast
  have "file = path_join (descriptorPath parent) (last ns)" using step(4) relative_parts(1) [OF all] ns(1) by simp
  moreover have "path_join (abs_string (base @ butlast ns)) (last ns) = abs_string ((base @ butlast ns) @ [last ns])"
    by (rule path_join_abs [OF last(2,1)])
  moreover have "(base @ butlast ns) @ [last ns] = base @ ns" using all(2) by simp
  ultimately have "if usesDescriptorPaths fs
     then descriptors fs base (butlast ns) fds \<and> file = getUploadDescriptorPath (last fds) @ slash # last ns
     else file = abs_string (base @ ns)"
    using fds path_join_fd [OF last(1)] by (simp add: reached_def)
  then show ?thesis using r base(2) all step(5) fds unfolding reached_def by blast
qed

text \<open>
  C25. Whatever path is registered for a file, \<open>unlink\<close> gets at most one path, and that is the one of the file the
  registered path names below the resolved root of the recordings, with real names (no \<open>..\<close>). Elsewhere than on
  Linux it is that path itself. On Linux it is the last name below the descriptor of its directory: the root was opened
  by its path and every other directory by its name below the descriptor of the one above, never following a symbolic link,
  so no exchange of a directory leads out. Every directory on the way was seen by \<open>lstat\<close> of its path to be a
  directory and, on Linux, the very one that the descriptor holds. \<open>removed\<close> is reported exactly when \<open>unlink\<close>
  succeeded. (\<open>realpath\<close> answers an absolute path without \<open>.\<close> and \<open>..\<close>.)
\<close>

theorem removeManagedFile_inside:
  assumes "canonical_paths fs" and "removeManagedFile fs root rel = (res, Some (m, file))"
  shows "\<exists>r base ns fds. root = Some r \<and> realpath_of fs 0 r = Some (abs_string base) \<and> ns \<noteq> [] \<and>
    (\<forall>n \<in> set (base @ ns). proper n) \<and> directories fs base (butlast ns) fds \<and>
    (if usesDescriptorPaths fs
     then descriptors fs base (butlast ns) fds \<and> file = getUploadDescriptorPath (last fds) @ slash # last ns
     else file = abs_string (base @ ns)) \<and>
    (res = Removed \<longleftrightarrow> unlinks fs m file)"
  by (rule removal_inside [OF assms])

subsection \<open>Witnesses\<close>

text \<open>On Linux, the descriptors are numbered by the calls.\<close>

definition demo_stats :: file_stats where
  "demo_stats = \<lparr>fs_dev = 1, fs_ino = 2, fs_isDirectory = True\<rparr>"

definition demo_files :: file_answers where
  "demo_files = \<lparr>usesDescriptorPaths = True,
     realpath_of = (\<lambda>n r. Some (abs_string ([js ''mnt'', js ''rec''] @ (if r = js ''/mnt/rec/a'' then [js ''a''] else [])))),
     opens = (\<lambda>n p. Some n), fstat_of = (\<lambda>n fd. Some demo_stats), stat_of = (\<lambda>n p. Some demo_stats),
     lstat_of = (\<lambda>n p. Some demo_stats), closes = (\<lambda>n fd. True), unlinks = (\<lambda>n p. True)\<rparr>"

lemma demo_canonical: "canonical_paths demo_files"
  unfolding canonical_paths_def
proof (intro allI impI)
  fix n r p assume "realpath_of demo_files n r = Some p"
  then have "p = abs_string ([js ''mnt'', js ''rec''] @ (if r = js ''/mnt/rec/a'' then [js ''a''] else []))" by (simp add: demo_files_def)
  moreover have "list_all proper [js ''mnt'', js ''rec'', js ''a'']" by code_simp
  ultimately show "\<exists>base. (\<forall>n \<in> set base. proper n) \<and> p = abs_string base"
    unfolding list_all_iff by (intro exI [of _ "[js ''mnt'', js ''rec''] @ (if r = js ''/mnt/rec/a'' then [js ''a''] else [])"]) simp
qed

lemma demo_removal:
  "removeManagedFile demo_files (Some (js ''/rec'')) (js ''/a/x/../b'') = (Removed, Some (10, js ''/proc/self/fd/5/b''))"
  "removeManagedFile (demo_files\<lparr>usesDescriptorPaths := False\<rparr>) (Some (js ''/rec'')) (js ''/a/x/../b'') =
     (Removed, Some (20, js ''/mnt/rec/a/b''))"
  by code_simp+

theorem removeManagedFile_inside_witness:
  "\<exists>base ns fds. ns \<noteq> [] \<and> descriptors demo_files base (butlast ns) fds \<and>
     js ''/proc/self/fd/5/b'' = getUploadDescriptorPath (last fds) @ slash # last ns"
proof -
  have d: "usesDescriptorPaths demo_files" by (simp add: demo_files_def)
  from removeManagedFile_inside [OF demo_canonical demo_removal(1), unfolded if_P [OF d]] show ?thesis
    by (elim exE conjE) (intro exI conjI; assumption)
qed

lemma refused_examples:
  "removeManagedFile demo_files (Some (js ''/rec'')) (js ''../b'') = (UnsafePath, None)"
  "removeManagedFile demo_files (Some (js ''/rec'')) (js ''a/..'') = (UnsafePath, None)"
  "removeManagedFile (demo_files\<lparr>lstat_of := \<lambda>n p. if p = js ''/mnt/rec/a'' then None else Some demo_stats\<rparr>)
     (Some (js ''/rec'')) (js ''a/b'') = (UnsafePath, None)"
  by code_simp+

end
