(* ===== verification/Recorded_Deletion.thy ===== *)
theory Recorded_Deletion
  imports Managed_Files Deletion_Tokens
begin

text \<open>
  The deletions of \<open>RecordedManageModel\<close> (\<open>src/src/model/operator/recorded/RecordedManageModel.ts\<close>):
  each is prepared, which gives a token, and committed with the token, which reads the rows again. The
  tables are lists of rows, and \<open>findId\<close> and \<open>findOldestUnused\<close> of
  \<open>src/src/model/db/RecordedDB.ts\<close> are queries on them. A commit runs while it holds the lock of the
  programme (theory \<open>Resource_Lock\<close>), so it is one step; what happens between the preparation and the
  commit is arbitrary. The database may reject any call: \<open>fails\<close> says which.
\<close>

subsection \<open>Rows\<close>

record video_file =
  vf_id :: int
  vf_recordedId :: int
  vf_parentDirectoryName :: jstr
  vf_filePath :: jstr

record thumbnail =
  th_id :: int
  th_recordedId :: int
  th_filePath :: jstr

record drop_log_file =
  dl_id :: int
  dl_filePath :: jstr

record recorded_row =
  rc_id :: int
  rc_reserveId :: "int option"
  rc_startAt :: int
  rc_isRecording :: bool
  rc_isProtected :: bool
  rc_dropLogFileId :: "int option"

text \<open>The entity with its relations.\<close>

record recorded = recorded_row +
  videoFiles :: "video_file list"
  thumbnails :: "thumbnail list"
  dropLogFile :: "drop_log_file option"

record recorded_tables =
  recorded_rows :: "recorded_row list"
  video_rows :: "video_file list"
  thumbnail_rows :: "thumbnail list"
  drop_log_rows :: "drop_log_file list"

definition recorded_entity :: "recorded_tables \<Rightarrow> recorded_row \<Rightarrow> recorded" where
  "recorded_entity tb r = recorded_row.extend r
     \<lparr>videoFiles = filter (\<lambda>v. vf_recordedId v = rc_id r) (video_rows tb),
      thumbnails = filter (\<lambda>t. th_recordedId t = rc_id r) (thumbnail_rows tb),
      dropLogFile = Option.bind (rc_dropLogFileId r) (\<lambda>i. find (\<lambda>d. dl_id d = i) (drop_log_rows tb))\<rparr>"

definition find_recorded :: "int \<Rightarrow> recorded_tables \<Rightarrow> recorded option" where
  "find_recorded i tb = map_option (recorded_entity tb) (find (\<lambda>r. rc_id r = i) (recorded_rows tb))"

definition find_video :: "int \<Rightarrow> recorded_tables \<Rightarrow> video_file option" where
  "find_video i tb = find (\<lambda>v. vf_id v = i) (video_rows tb)"

text \<open>The order is by start and then by id; the sort is stable.\<close>

definition findOldestUnused :: "int list \<Rightarrow> jstr \<Rightarrow> recorded_tables \<Rightarrow> int option" where
  "findOldestUnused excludedRecordedIds storageName tb =
     (let unused = filter (\<lambda>r. \<not> rc_isProtected r \<and>
            list_ex (\<lambda>v. vf_recordedId v = rc_id r \<and> vf_parentDirectoryName v = storageName) (video_rows tb) \<and>
            \<not> list_ex (\<lambda>v. vf_recordedId v = rc_id r \<and> vf_parentDirectoryName v \<noteq> storageName) (video_rows tb) \<and>
            rc_id r \<notin> set excludedRecordedIds) (recorded_rows tb)
      in case sort_key rc_startAt (sort_key rc_id unused) of [] \<Rightarrow> None | r # _ \<Rightarrow> Some (rc_id r))"

subsection \<open>State\<close>

datatype deletion_kind = Kind_recorded | Kind_video_file | Kind_storage

text \<open>What a token stands for; a field its kind does not have is undefined.\<close>

record deletion_value =
  dv_kind :: deletion_kind
  dv_recordedId :: int
  dv_isRecording :: "bool option"
  dv_reserveId :: "int option option"
  dv_videoFileId :: "int option"
  dv_storageName :: "jstr option"

datatype recorded_event = DeleteRecorded recorded | DeleteVideoFile int

datatype db_call = Find_recorded int | Find_video int | Delete_video int | Delete_thumbnail int
  | Delete_recorded int | Delete_drop_log int

datatype recorded_error = RecordedIdIsNotFound | RecordedIsProtected | RecordedDeletionStateChanged
  | VideoFileDeletionFailed | Token_error "deletion_value consumption" | Db_error db_call

record deletion_env =
  answers :: file_answers
  recordedTmp :: "jstr option"
  recorded_dirs :: "(jstr \<times> jstr) list"
  thumbnail_dir :: jstr
  dropLog_dir :: jstr
  fails :: "db_call \<Rightarrow> bool"

record recorded_world =
  tables :: recorded_tables
  tokens :: "(deletion_kind, deletion_value) token_registry"
  unlinked :: "jstr list"
  emitted :: "recorded_event list"

subsection \<open>Files\<close>

definition getParentDirPath :: "deletion_env \<Rightarrow> jstr \<Rightarrow> jstr option" where
  "getParentDirPath env dir_name =
     (if dir_name = js ''tmp'' \<and> recordedTmp env \<noteq> None then recordedTmp env
      else map_option snd (find (\<lambda>r. fst r = dir_name) (recorded_dirs env)))"

definition getVideoFileRoot :: "deletion_env \<Rightarrow> jstr \<Rightarrow> jstr option" where
  "getVideoFileRoot env parent_name = getParentDirPath env parent_name"

definition unlink_managed :: "deletion_env \<Rightarrow> jstr option \<times> jstr \<Rightarrow> recorded_world \<Rightarrow> recorded_world" where
  "unlink_managed env f w = (case removeManagedFile (answers env) (fst f) (snd f) of
     (res, None) \<Rightarrow> w | (res, Some (n, p)) \<Rightarrow> w\<lparr>unlinked := unlinked w @ [p]\<rparr>)"

definition managed_files :: "deletion_env \<Rightarrow> recorded \<Rightarrow> (jstr option \<times> jstr) list" where
  "managed_files env r =
     map (\<lambda>v. (getVideoFileRoot env (vf_parentDirectoryName v), vf_filePath v)) (videoFiles r) @
     map (\<lambda>t. (Some (thumbnail_dir env), th_filePath t)) (thumbnails r) @
     (case dropLogFile r of None \<Rightarrow> [] | Some d \<Rightarrow> [(Some (dropLog_dir env), dl_filePath d)])"

definition removeRecordedFiles :: "deletion_env \<Rightarrow> recorded \<Rightarrow> recorded_world \<Rightarrow> recorded_world" where
  "removeRecordedFiles env r w = fold (unlink_managed env) (managed_files env r) w"

subsection \<open>Rows go\<close>

fun db_delete :: "db_call \<Rightarrow> recorded_tables \<Rightarrow> recorded_tables" where
  "db_delete (Delete_video i) tb = tb\<lparr>video_rows := filter (\<lambda>v. vf_id v \<noteq> i) (video_rows tb)\<rparr>"
| "db_delete (Delete_thumbnail i) tb = tb\<lparr>thumbnail_rows := filter (\<lambda>t. th_id t \<noteq> i) (thumbnail_rows tb)\<rparr>"
| "db_delete (Delete_recorded i) tb = tb\<lparr>recorded_rows := filter (\<lambda>r. rc_id r \<noteq> i) (recorded_rows tb)\<rparr>"
| "db_delete (Delete_drop_log i) tb = tb\<lparr>drop_log_rows := filter (\<lambda>d. dl_id d \<noteq> i) (drop_log_rows tb)\<rparr>"
| "db_delete _ tb = tb"

text \<open>One call: a rejected call changes nothing.\<close>

definition db_try :: "deletion_env \<Rightarrow> db_call \<Rightarrow> recorded_world \<Rightarrow> recorded_world" where
  "db_try env c w = (if fails env c then w else w\<lparr>tables := db_delete c (tables w)\<rparr>)"

definition relation_calls :: "recorded \<Rightarrow> db_call list" where
  "relation_calls r = map (\<lambda>v. Delete_video (vf_id v)) (videoFiles r) @ map (\<lambda>t. Delete_thumbnail (th_id t)) (thumbnails r)"

definition deleteExactRecordedResources :: "deletion_env \<Rightarrow> recorded \<Rightarrow> recorded_world \<Rightarrow> (recorded_error + unit) \<times> recorded_world" where
  "deleteExactRecordedResources env r w =
     (let w1 = removeRecordedFiles env r w;
          w2 = fold (db_try env) (relation_calls r) w1;
          relationFailure = find (fails env) (relation_calls r);
          canonical = Delete_recorded (rc_id r);
          canonicalFailed = fails env canonical;
          w3 = db_try env canonical w2
      in if canonicalFailed then (Inl (Db_error canonical), w3)
         else let (dropLogFailure, w4) = (case dropLogFile r of
                    None \<Rightarrow> (None, w3)
                  | Some d \<Rightarrow> (if fails env (Delete_drop_log (dl_id d)) then Some (Delete_drop_log (dl_id d)) else None,
                               db_try env (Delete_drop_log (dl_id d)) w3))
              in case relationFailure of
                   Some c \<Rightarrow> (Inl (Db_error c), w4)
                 | None \<Rightarrow> (case dropLogFailure of
                       Some c \<Rightarrow> (Inl (Db_error c), w4)
                     | None \<Rightarrow> (Inr (), w4\<lparr>emitted := emitted w4 @ [DeleteRecorded r]\<rparr>)))"

subsection \<open>Preparation\<close>

datatype deletion_preparation = Not_found | Is_protected | Whole_recorded_required int | Prepared_token nat
  | Refused_storage

definition prepareUserDeletion :: "deletion_env \<Rightarrow> int \<Rightarrow> recorded_world \<Rightarrow> (recorded_error + deletion_preparation) \<times> recorded_world" where
  "prepareUserDeletion env recordedId w =
     (if fails env (Find_recorded recordedId) then (Inl (Db_error (Find_recorded recordedId)), w)
      else case find_recorded recordedId (tables w) of
        None \<Rightarrow> (Inr Not_found, w)
      | Some r \<Rightarrow>
          if rc_isProtected r then (Inr Is_protected, w)
          else let v = \<lparr>dv_kind = Kind_recorded, dv_recordedId = recordedId, dv_isRecording = Some (rc_isRecording r),
                        dv_reserveId = Some (rc_reserveId r), dv_videoFileId = None, dv_storageName = None\<rparr>;
                   (t, g) = prepare Kind_recorded v (tokens w)
               in (Inr (Prepared_token t), w\<lparr>tokens := g\<rparr>))"

definition prepareVideoFileDeletion :: "deletion_env \<Rightarrow> int \<Rightarrow> recorded_world \<Rightarrow> (recorded_error + deletion_preparation) \<times> recorded_world" where
  "prepareVideoFileDeletion env videoFileId w =
     (if fails env (Find_video videoFileId) then (Inl (Db_error (Find_video videoFileId)), w)
      else case find_video videoFileId (tables w) of
        None \<Rightarrow> (Inr Not_found, w)
      | Some video \<Rightarrow>
          if fails env (Find_recorded (vf_recordedId video)) then (Inl (Db_error (Find_recorded (vf_recordedId video))), w)
          else case find_recorded (vf_recordedId video) (tables w) of
            None \<Rightarrow> (Inr Not_found, w)
          | Some r \<Rightarrow>
              if rc_isProtected r then (Inr Is_protected, w)
              else if \<not> list_ex (\<lambda>v. vf_id v = videoFileId) (videoFiles r) then (Inr Not_found, w)
              else if rc_isRecording r \<or> length (videoFiles r) \<le> 1 then (Inr (Whole_recorded_required (rc_id r)), w)
              else let v = \<lparr>dv_kind = Kind_video_file, dv_recordedId = rc_id r, dv_isRecording = None,
                            dv_reserveId = None, dv_videoFileId = Some videoFileId, dv_storageName = None\<rparr>;
                       (t, g) = prepare Kind_video_file v (tokens w)
                   in (Inr (Prepared_token t), w\<lparr>tokens := g\<rparr>))"

datatype refusal = Recorded_not_found | Protected | Recording_active | No_video_relations | Storage_mismatch

definition getStorageDeletionRefusal :: "recorded option \<Rightarrow> jstr option \<Rightarrow> refusal option" where
  "getStorageDeletionRefusal recorded storageName = (case recorded of
     None \<Rightarrow> Some Recorded_not_found
   | Some r \<Rightarrow>
       if rc_isProtected r then Some Protected
       else if rc_isRecording r then Some Recording_active
       else if videoFiles r = [] then Some No_video_relations
       else if list_ex (\<lambda>v. Some (vf_parentDirectoryName v) \<noteq> storageName) (videoFiles r) then Some Storage_mismatch
       else None)"

definition prepareStorageDeletion :: "deletion_env \<Rightarrow> int \<Rightarrow> jstr \<Rightarrow> recorded_world \<Rightarrow> (recorded_error + deletion_preparation) \<times> recorded_world" where
  "prepareStorageDeletion env recordedId storageName w =
     (if fails env (Find_recorded recordedId) then (Inl (Db_error (Find_recorded recordedId)), w)
      else case getStorageDeletionRefusal (find_recorded recordedId (tables w)) (Some storageName) of
        Some reason \<Rightarrow> (Inr Refused_storage, w)
      | None \<Rightarrow>
          let v = \<lparr>dv_kind = Kind_storage, dv_recordedId = recordedId, dv_isRecording = None,
                   dv_reserveId = None, dv_videoFileId = None, dv_storageName = Some storageName\<rparr>;
              (t, g) = prepare Kind_storage v (tokens w)
          in (Inr (Prepared_token t), w\<lparr>tokens := g\<rparr>))"

subsection \<open>Commit\<close>

definition consumeDeletionToken :: "deletion_kind \<Rightarrow> nat \<Rightarrow> recorded_world \<Rightarrow> (recorded_error + deletion_value) \<times> recorded_world" where
  "consumeDeletionToken kind token w = (case consume kind token (tokens w) of
     (Consumed v, g) \<Rightarrow> (Inr v, w\<lparr>tokens := g\<rparr>)
   | (c, g) \<Rightarrow> (Inl (Token_error c), w\<lparr>tokens := g\<rparr>))"

definition deletePrepared :: "deletion_env \<Rightarrow> nat \<Rightarrow> recorded_world \<Rightarrow> (recorded_error + unit) \<times> recorded_world" where
  "deletePrepared env token w = (case consumeDeletionToken Kind_recorded token w of
     (Inl e, w1) \<Rightarrow> (Inl e, w1)
   | (Inr v, w1) \<Rightarrow>
       if fails env (Find_recorded (dv_recordedId v)) then (Inl (Db_error (Find_recorded (dv_recordedId v))), w1)
       else case find_recorded (dv_recordedId v) (tables w1) of
         None \<Rightarrow> (Inl RecordedIdIsNotFound, w1)
       | Some r \<Rightarrow>
           if rc_isProtected r then (Inl RecordedIsProtected, w1)
           else if Some (rc_isRecording r) \<noteq> dv_isRecording v \<or> Some (rc_reserveId r) \<noteq> dv_reserveId v
                then (Inl RecordedDeletionStateChanged, w1)
           else deleteExactRecordedResources env r w1)"

datatype deletion_outcome = Video_file_deleted | Deleted | Not_deleted | Outcome deletion_preparation

definition deletePreparedVideoFile :: "deletion_env \<Rightarrow> nat \<Rightarrow> recorded_world \<Rightarrow> (recorded_error + deletion_outcome) \<times> recorded_world" where
  "deletePreparedVideoFile env token w = (case consumeDeletionToken Kind_video_file token w of
     (Inl e, w1) \<Rightarrow> (Inl e, w1)
   | (Inr v, w1) \<Rightarrow>
       if fails env (Find_recorded (dv_recordedId v)) then (Inl (Db_error (Find_recorded (dv_recordedId v))), w1)
       else case find_recorded (dv_recordedId v) (tables w1) of
         None \<Rightarrow> (Inr (Outcome Not_found), w1)
       | Some r \<Rightarrow>
           if rc_isProtected r then (Inr (Outcome Is_protected), w1)
           else (case find (\<lambda>x. Some (vf_id x) = dv_videoFileId v) (videoFiles r) of
             None \<Rightarrow> (Inr (Outcome Not_found), w1)
           | Some video \<Rightarrow>
               if rc_isRecording r \<or> length (videoFiles r) \<le> 1
               then (Inr (Outcome (Whole_recorded_required (dv_recordedId v))), w1)
               else let file = (getVideoFileRoot env (vf_parentDirectoryName video), vf_filePath video);
                        w2 = unlink_managed env file w1
                    in if fst (removeManagedFile (answers env) (fst file) (snd file)) = UnsafePath
                       then (Inl VideoFileDeletionFailed, w2)
                       else if fails env (Delete_video (vf_id video)) then (Inl (Db_error (Delete_video (vf_id video))), w2)
                       else let w3 = db_try env (Delete_video (vf_id video)) w2
                            in (Inr Video_file_deleted, w3\<lparr>emitted := emitted w3 @ [DeleteVideoFile (vf_id video)]\<rparr>)))"

definition deletePreparedForStorage :: "deletion_env \<Rightarrow> nat \<Rightarrow> recorded_world \<Rightarrow> (recorded_error + deletion_outcome) \<times> recorded_world" where
  "deletePreparedForStorage env token w = (case consumeDeletionToken Kind_storage token w of
     (Inl e, w1) \<Rightarrow> (Inl e, w1)
   | (Inr v, w1) \<Rightarrow>
       if fails env (Find_recorded (dv_recordedId v)) then (Inl (Db_error (Find_recorded (dv_recordedId v))), w1)
       else let recorded = find_recorded (dv_recordedId v) (tables w1)
            in if getStorageDeletionRefusal recorded (dv_storageName v) \<noteq> None then (Inr Not_deleted, w1)
               else (case deleteExactRecordedResources env (the recorded) w1 of
                 (Inl e, w2) \<Rightarrow> (Inl e, w2)
               | (Inr (), w2) \<Rightarrow> (Inr Deleted, w2)))"

subsection \<open>What a deletion changes\<close>

definition tables_ok :: "recorded_tables \<Rightarrow> bool" where
  "tables_ok tb \<longleftrightarrow> distinct (map rc_id (recorded_rows tb)) \<and> distinct (map vf_id (video_rows tb)) \<and>
     distinct (map th_id (thumbnail_rows tb)) \<and> distinct (map dl_id (drop_log_rows tb))"

lemma unlink_managed_rest [simp]:
  "tables (unlink_managed env f w) = tables w" "tokens (unlink_managed env f w) = tokens w"
  "emitted (unlink_managed env f w) = emitted w"
  by (simp_all add: unlink_managed_def split: prod.split option.split)

lemma removeRecordedFiles_rest [simp]:
  "tables (removeRecordedFiles env r w) = tables w" "tokens (removeRecordedFiles env r w) = tokens w"
  "emitted (removeRecordedFiles env r w) = emitted w"
proof -
  have "tables (fold (unlink_managed env) fs w) = tables w \<and> tokens (fold (unlink_managed env) fs w) = tokens w \<and>
      emitted (fold (unlink_managed env) fs w) = emitted w" for fs
    by (induction fs arbitrary: w) simp_all
  then show "tables (removeRecordedFiles env r w) = tables w" "tokens (removeRecordedFiles env r w) = tokens w"
    "emitted (removeRecordedFiles env r w) = emitted w" by (simp_all add: removeRecordedFiles_def)
qed

lemma db_try_rest [simp]:
  "tokens (db_try env c w) = tokens w" "emitted (db_try env c w) = emitted w" "unlinked (db_try env c w) = unlinked w"
  by (simp_all add: db_try_def)

lemma db_try_tables [simp]: "tables (db_try env c w) = (if fails env c then tables w else db_delete c (tables w))"
  by (simp add: db_try_def)

lemma db_tries_rest [simp]:
  "tokens (fold (db_try env) cs w) = tokens w" "emitted (fold (db_try env) cs w) = emitted w"
  by (induction cs arbitrary: w) simp_all

text \<open>The rows a list of calls leaves.\<close>

lemma db_tries_tables:
  "recorded_rows (tables (fold (db_try env) cs w)) =
     filter (\<lambda>r. \<not> (Delete_recorded (rc_id r) \<in> set cs \<and> \<not> fails env (Delete_recorded (rc_id r)))) (recorded_rows (tables w))"
  "video_rows (tables (fold (db_try env) cs w)) =
     filter (\<lambda>v. \<not> (Delete_video (vf_id v) \<in> set cs \<and> \<not> fails env (Delete_video (vf_id v)))) (video_rows (tables w))"
  "thumbnail_rows (tables (fold (db_try env) cs w)) =
     filter (\<lambda>t. \<not> (Delete_thumbnail (th_id t) \<in> set cs \<and> \<not> fails env (Delete_thumbnail (th_id t)))) (thumbnail_rows (tables w))"
  "drop_log_rows (tables (fold (db_try env) cs w)) =
     filter (\<lambda>d. \<not> (Delete_drop_log (dl_id d) \<in> set cs \<and> \<not> fails env (Delete_drop_log (dl_id d)))) (drop_log_rows (tables w))"
proof (induction cs arbitrary: w)
  case (Cons c cs)
  note [simp] = Cons.IH
  {
    case 1
    show ?case by (cases c) (auto intro: filter_cong)
  next
    case 2
    show ?case by (cases c) (auto intro: filter_cong)
  next
    case 3
    show ?case by (cases c) (auto intro: filter_cong)
  next
    case 4
    show ?case by (cases c) (auto intro: filter_cong)
  }
qed simp_all

text \<open>The calls of a deletion, in order.\<close>

definition deletion_calls :: "recorded \<Rightarrow> db_call list" where
  "deletion_calls r = relation_calls r @ Delete_recorded (rc_id r) #
     (case dropLogFile r of None \<Rightarrow> [] | Some d \<Rightarrow> [Delete_drop_log (dl_id d)])"

lemma deleteExact_cases:
  assumes "deleteExactRecordedResources env r w = (res, w')"
  shows "tables w' = tables (fold (db_try env)
           (if fails env (Delete_recorded (rc_id r)) then relation_calls r else deletion_calls r) (removeRecordedFiles env r w))"
    "res = Inr () \<longleftrightarrow> find (fails env) (deletion_calls r) = None"
    "emitted w' = emitted w @ (if res = Inr () then [DeleteRecorded r] else [])"
    "tokens w' = tokens w"
proof -
  have fnd: "find P (xs @ ys) = (case find P xs of None \<Rightarrow> find P ys | Some x \<Rightarrow> Some x)" for P and xs ys :: "db_call list"
    by (induction xs) auto
  show "tables w' = tables (fold (db_try env)
           (if fails env (Delete_recorded (rc_id r)) then relation_calls r else deletion_calls r) (removeRecordedFiles env r w))"
    "res = Inr () \<longleftrightarrow> find (fails env) (deletion_calls r) = None"
    "emitted w' = emitted w @ (if res = Inr () then [DeleteRecorded r] else [])"
    "tokens w' = tokens w"
    using assms
    by (auto simp: deleteExactRecordedResources_def deletion_calls_def Let_def fnd db_try_def [of env "Delete_recorded i" for i]
        split: option.splits if_splits)
qed

lemma entity_simps [simp]:
  "rc_id (recorded_entity tb r) = rc_id r" "rc_isProtected (recorded_entity tb r) = rc_isProtected r"
  "rc_isRecording (recorded_entity tb r) = rc_isRecording r" "rc_reserveId (recorded_entity tb r) = rc_reserveId r"
  "videoFiles (recorded_entity tb r) = filter (\<lambda>v. vf_recordedId v = rc_id r) (video_rows tb)"
  "thumbnails (recorded_entity tb r) = filter (\<lambda>t. th_recordedId t = rc_id r) (thumbnail_rows tb)"
  by (simp_all add: recorded_entity_def recorded_row.defs)

lemma find_recorded_Some:
  assumes "find_recorded i tb = Some r"
  shows "rc_id r = i" "videoFiles r = filter (\<lambda>v. vf_recordedId v = i) (video_rows tb)"
    "thumbnails r = filter (\<lambda>t. th_recordedId t = i) (thumbnail_rows tb)"
    "\<exists>row \<in> set (recorded_rows tb). r = recorded_entity tb row"
  using assms by (auto simp: find_recorded_def find_Some_iff)

lemma distinct_inj: "distinct (map f xs) \<Longrightarrow> x \<in> set xs \<Longrightarrow> y \<in> set xs \<Longrightarrow> f x = f y \<Longrightarrow> x = y"
  by (auto simp: distinct_map dest: inj_onD)

lemma found_ex: "find P xs = Some x \<Longrightarrow> list_ex P xs"
  by (induction xs) (auto split: if_splits)

lemma filter_related:
  assumes "distinct (map f xs)"
  shows "filter (\<lambda>x. \<not> ((\<exists>y \<in> set xs. P y \<and> f y = f x) \<and> \<not> F (f x))) xs = filter (\<lambda>x. \<not> (P x \<and> \<not> F (f x))) xs"
  using distinct_inj [OF assms] by (intro filter_cong) auto

lemma deleteExact_exact:
  assumes ok: "tables_ok (tables w)" and r: "find_recorded i (tables w) = Some r"
    and run: "deleteExactRecordedResources env r w = (res, w')"
  shows "recorded_rows (tables w') = filter (\<lambda>x. rc_id x \<noteq> i \<or> fails env (Delete_recorded i)) (recorded_rows (tables w)) \<and>
    video_rows (tables w') =
      filter (\<lambda>v. vf_recordedId v \<noteq> i \<or> fails env (Delete_video (vf_id v))) (video_rows (tables w)) \<and>
    thumbnail_rows (tables w') =
      filter (\<lambda>t. th_recordedId t \<noteq> i \<or> fails env (Delete_thumbnail (th_id t))) (thumbnail_rows (tables w)) \<and>
    drop_log_rows (tables w') =
      filter (\<lambda>d. (case dropLogFile r of None \<Rightarrow> True | Some x \<Rightarrow> dl_id d \<noteq> dl_id x) \<or>
        fails env (Delete_drop_log (dl_id d)) \<or> fails env (Delete_recorded i)) (drop_log_rows (tables w)) \<and>
    (res = Inr () \<longleftrightarrow> find (fails env) (deletion_calls r) = None) \<and>
    emitted w' = emitted w @ (if res = Inr () then [DeleteRecorded r] else [])"
proof -
  note row = find_recorded_Some [OF r] and c = deleteExact_cases [OF run]
  let ?w1 = "removeRecordedFiles env r w"
  have ids: "distinct (map vf_id (video_rows (tables w)))" "distinct (map th_id (thumbnail_rows (tables w)))"
    using ok by (simp_all add: tables_ok_def)
  let ?cs = "if fails env (Delete_recorded (rc_id r)) then relation_calls r else deletion_calls r"
  have mem: "Delete_video v \<in> set ?cs \<longleftrightarrow> (\<exists>y \<in> set (video_rows (tables w)). vf_recordedId y = i \<and> vf_id y = v)"
    "Delete_thumbnail v \<in> set ?cs \<longleftrightarrow> (\<exists>y \<in> set (thumbnail_rows (tables w)). th_recordedId y = i \<and> th_id y = v)"
    "Delete_recorded v \<in> set ?cs \<longleftrightarrow> v = i \<and> \<not> fails env (Delete_recorded i)"
    "Delete_drop_log v \<in> set ?cs \<longleftrightarrow> (\<exists>x. dropLogFile r = Some x \<and> v = dl_id x) \<and> \<not> fails env (Delete_recorded i)" for v
    using row(1-3) by (cases "dropLogFile r"; auto simp: deletion_calls_def relation_calls_def)+
  have "video_rows (tables w') = filter (\<lambda>v. vf_recordedId v \<noteq> i \<or> fails env (Delete_video (vf_id v))) (video_rows (tables w))"
    unfolding c(1) db_tries_tables mem removeRecordedFiles_rest
    using filter_related [OF ids(1), of "\<lambda>v. vf_recordedId v = i" "\<lambda>v. fails env (Delete_video v)"] by simp
  moreover have "thumbnail_rows (tables w') =
      filter (\<lambda>t. th_recordedId t \<noteq> i \<or> fails env (Delete_thumbnail (th_id t))) (thumbnail_rows (tables w))"
    unfolding c(1) db_tries_tables mem removeRecordedFiles_rest
    using filter_related [OF ids(2), of "\<lambda>v. th_recordedId v = i" "\<lambda>v. fails env (Delete_thumbnail v)"] by simp
  moreover have "recorded_rows (tables w') = filter (\<lambda>x. rc_id x \<noteq> i \<or> fails env (Delete_recorded i)) (recorded_rows (tables w))"
    unfolding c(1) db_tries_tables mem removeRecordedFiles_rest by (intro filter_cong) auto
  moreover have "drop_log_rows (tables w') =
      filter (\<lambda>d. (case dropLogFile r of None \<Rightarrow> True | Some x \<Rightarrow> dl_id d \<noteq> dl_id x) \<or>
        fails env (Delete_drop_log (dl_id d)) \<or> fails env (Delete_recorded i)) (drop_log_rows (tables w))"
    unfolding c(1) db_tries_tables mem removeRecordedFiles_rest by (intro filter_cong) (auto split: option.splits)
  ultimately show ?thesis using c(2,3) by blast
qed

text \<open>
  C27. Deleting a programme takes exactly its rows out of every table and leaves the rows of all others, each row
  staying only if its own call was rejected; the row of the drop log also stays when the row of the programme does.
  It reports success, and tells the listeners, exactly when no call was rejected.
\<close>

theorem deletion_exact:
  assumes "tables_ok (tables w)" "find_recorded i (tables w) = Some r"
    and "deleteExactRecordedResources env r w = (res, w')"
  shows "recorded_rows (tables w') = filter (\<lambda>x. rc_id x \<noteq> i \<or> fails env (Delete_recorded i)) (recorded_rows (tables w)) \<and>
    video_rows (tables w') =
      filter (\<lambda>v. vf_recordedId v \<noteq> i \<or> fails env (Delete_video (vf_id v))) (video_rows (tables w)) \<and>
    thumbnail_rows (tables w') =
      filter (\<lambda>t. th_recordedId t \<noteq> i \<or> fails env (Delete_thumbnail (th_id t))) (thumbnail_rows (tables w)) \<and>
    drop_log_rows (tables w') =
      filter (\<lambda>d. (case dropLogFile r of None \<Rightarrow> True | Some x \<Rightarrow> dl_id d \<noteq> dl_id x) \<or>
        fails env (Delete_drop_log (dl_id d)) \<or> fails env (Delete_recorded i)) (drop_log_rows (tables w)) \<and>
    (res = Inr () \<longleftrightarrow> find (fails env) (deletion_calls r) = None) \<and>
    emitted w' = emitted w @ (if res = Inr () then [DeleteRecorded r] else [])"
  by (rule deleteExact_exact [OF assms])

subsection \<open>A commit is permitted\<close>

definition visible :: "recorded_world \<Rightarrow> recorded_tables \<times> jstr list \<times> recorded_event list" where
  "visible w = (tables w, unlinked w, emitted w)"

lemma consumeDeletionToken_visible:
  assumes "consumeDeletionToken k t w = (res, w1)"
  shows "visible w1 = visible w" "tables w1 = tables w" "res = Inr v \<Longrightarrow> token_state (tokens w) k t = Active v"
  using assms consume_answer [of k t "tokens w"]
  by (auto simp: consumeDeletionToken_def visible_def split: prod.splits consumption.splits token_state.splits)

text \<open>The condition under which a token of a kind may change anything.\<close>

definition permitted :: "deletion_kind \<Rightarrow> deletion_value \<Rightarrow> recorded \<Rightarrow> bool" where
  "permitted k v r = (\<not> rc_isProtected r \<and> (case k of
     Kind_recorded \<Rightarrow> dv_isRecording v = Some (rc_isRecording r) \<and> dv_reserveId v = Some (rc_reserveId r)
   | Kind_video_file \<Rightarrow> \<not> rc_isRecording r \<and> 1 < length (videoFiles r) \<and>
       list_ex (\<lambda>x. dv_videoFileId v = Some (vf_id x)) (videoFiles r)
   | Kind_storage \<Rightarrow> \<not> rc_isRecording r \<and> videoFiles r \<noteq> [] \<and>
       list_all (\<lambda>x. dv_storageName v = Some (vf_parentDirectoryName x)) (videoFiles r)))"

lemma permitted_recorded:
  assumes "deletePrepared env t w = (res, w')"
  shows "visible w' = visible w \<or> (\<exists>v r. token_state (tokens w) Kind_recorded t = Active v \<and>
    find_recorded (dv_recordedId v) (tables w) = Some r \<and> permitted Kind_recorded v r)"
proof (cases "consumeDeletionToken Kind_recorded t w")
  case (Pair a w1)
  note c = consumeDeletionToken_visible [OF Pair]
  show ?thesis
  proof (cases a)
    case (Inl e)
    then show ?thesis using assms Pair c(1) by (simp add: deletePrepared_def)
  next
    case (Inr v)
    have v: "token_state (tokens w) Kind_recorded t = Active v" using c(3) Inr by simp
    show ?thesis
    proof (cases "find_recorded (dv_recordedId v) (tables w)")
      case None
      then show ?thesis using assms Pair c(1,2) Inr by (auto simp: deletePrepared_def split: if_splits)
    next
      case (Some r)
      then have "visible w' = visible w \<or> permitted Kind_recorded v r"
        using assms Pair c(1,2) Inr by (auto simp: deletePrepared_def permitted_def split: if_splits)
      then show ?thesis using v Some by blast
    qed
  qed
qed

lemma permitted_video:
  assumes "deletePreparedVideoFile env t w = (res, w')"
  shows "visible w' = visible w \<or> (\<exists>v r. token_state (tokens w) Kind_video_file t = Active v \<and>
    find_recorded (dv_recordedId v) (tables w) = Some r \<and> permitted Kind_video_file v r)"
proof (cases "consumeDeletionToken Kind_video_file t w")
  case (Pair a w1)
  note c = consumeDeletionToken_visible [OF Pair]
  show ?thesis
  proof (cases a)
    case (Inl e)
    then show ?thesis using assms Pair c(1) by (simp add: deletePreparedVideoFile_def)
  next
    case (Inr v)
    have v: "token_state (tokens w) Kind_video_file t = Active v" using c(3) Inr by simp
    show ?thesis
    proof (cases "find_recorded (dv_recordedId v) (tables w)")
      case None
      then show ?thesis using assms Pair c(1,2) Inr by (auto simp: deletePreparedVideoFile_def split: if_splits)
    next
      case (Some r)
      have "visible w' = visible w \<or> permitted Kind_video_file v r"
      proof (cases "find (\<lambda>x. Some (vf_id x) = dv_videoFileId v) (videoFiles r)")
        case None
        then show ?thesis using assms Pair c(1,2) Inr Some by (auto simp: deletePreparedVideoFile_def split: if_splits)
      next
        case video: (Some x)
        have "list_ex (\<lambda>x. dv_videoFileId v = Some (vf_id x)) (videoFiles r)"
          using found_ex [OF video] by (simp add: eq_commute)
        then show ?thesis using assms Pair c(1,2) Inr Some video
          by (auto simp: deletePreparedVideoFile_def permitted_def split: if_splits)
      qed
      then show ?thesis using v Some by blast
    qed
  qed
qed

lemma permitted_storage:
  assumes "deletePreparedForStorage env t w = (res, w')"
  shows "visible w' = visible w \<or> (\<exists>v r. token_state (tokens w) Kind_storage t = Active v \<and>
    find_recorded (dv_recordedId v) (tables w) = Some r \<and> permitted Kind_storage v r)"
proof (cases "consumeDeletionToken Kind_storage t w")
  case (Pair a w1)
  note c = consumeDeletionToken_visible [OF Pair]
  show ?thesis
  proof (cases a)
    case (Inl e)
    then show ?thesis using assms Pair c(1) by (simp add: deletePreparedForStorage_def)
  next
    case (Inr v)
    have v: "token_state (tokens w) Kind_storage t = Active v" using c(3) Inr by simp
    show ?thesis
    proof (cases "visible w' = visible w")
      case False
      then have "getStorageDeletionRefusal (find_recorded (dv_recordedId v) (tables w)) (dv_storageName v) = None"
        using assms Pair c(1,2) Inr by (auto simp: deletePreparedForStorage_def Let_def split: if_splits)
      then obtain r where "find_recorded (dv_recordedId v) (tables w) = Some r" "permitted Kind_storage v r"
        by (auto simp: getStorageDeletionRefusal_def permitted_def list_all_iff list_ex_iff
            split: option.splits if_splits)
      then show ?thesis using v by blast
    qed simp
  qed
qed

text \<open>
  C26. However the rows have changed since the preparation: the commit of a deletion changes the tables, the files or
  the events only if its token is active for its kind, the programme still exists and is not protected, and as the
  rows are now: it is in the same recording state with the same reservation as when the user confirmed; it keeps
  another video file and is not being recorded (a single video file); it is not being recorded and all its video
  files, at least one, lie in the storage that is full (a deletion for space).
\<close>

theorem deletion_permitted:
  "(visible (snd (deletePrepared env t w)) = visible w \<or> (\<exists>v r. token_state (tokens w) Kind_recorded t = Active v \<and>
     find_recorded (dv_recordedId v) (tables w) = Some r \<and> permitted Kind_recorded v r)) \<and>
   (visible (snd (deletePreparedVideoFile env t w)) = visible w \<or> (\<exists>v r. token_state (tokens w) Kind_video_file t = Active v \<and>
     find_recorded (dv_recordedId v) (tables w) = Some r \<and> permitted Kind_video_file v r)) \<and>
   (visible (snd (deletePreparedForStorage env t w)) = visible w \<or> (\<exists>v r. token_state (tokens w) Kind_storage t = Active v \<and>
     find_recorded (dv_recordedId v) (tables w) = Some r \<and> permitted Kind_storage v r))"
  using permitted_recorded [of env t w, OF prod.collapse [symmetric]] permitted_video [of env t w, OF prod.collapse [symmetric]]
    permitted_storage [of env t w, OF prod.collapse [symmetric]]
  by (intro conjI)

subsection \<open>The candidate of a deletion for space\<close>

lemma sort_key_two:
  fixes f g :: "'a \<Rightarrow> 'b :: linorder"
  assumes "sort_key f (sort_key g xs) = r # rest"
  shows "r \<in> set xs" "q \<in> set xs \<Longrightarrow> f r < f q \<or> (f r = f q \<and> g r \<le> g q)"
proof -
  have set: "set (r # rest) = set xs" using assms by (metis set_sort)
  then show "r \<in> set xs" by auto
  have "sorted (map f (r # rest))" using assms by (metis sorted_sort_key)
  then have le: "f r \<le> f q" if "q \<in> set xs" for q using that set by auto
  have "filter (\<lambda>y. f y = f r) (sort_key g xs) = r # filter (\<lambda>y. f y = f r) rest"
    using sort_key_stable [of f "f r" "sort_key g xs"] assms by simp
  moreover have "sorted (map g (filter (\<lambda>y. f y = f r) (sort_key g xs)))"
    by (rule sorted_filter [OF sorted_sort_key])
  ultimately have "g r \<le> g q" if "q \<in> set (filter (\<lambda>y. f y = f r) (sort_key g xs))" for q
    using that by auto
  then show "f r < f q \<or> (f r = f q \<and> g r \<le> g q)" if "q \<in> set xs"
    using le [OF that] that by (cases "f r = f q") auto
qed

lemma find_recorded_row:
  assumes "tables_ok tb" "row \<in> set (recorded_rows tb)"
  shows "find_recorded (rc_id row) tb = Some (recorded_entity tb row)"
proof -
  obtain x where x: "find (\<lambda>r. rc_id r = rc_id row) (recorded_rows tb) = Some x"
    using assms(2) by (cases "find (\<lambda>r. rc_id r = rc_id row) (recorded_rows tb)") (auto simp: find_None_iff)
  then have "x \<in> set (recorded_rows tb)" "rc_id x = rc_id row" by (auto simp: find_Some_iff)
  then have "x = row" using assms distinct_inj [of rc_id "recorded_rows tb"] by (simp add: tables_ok_def)
  then show ?thesis using x by (simp add: find_recorded_def)
qed

lemma candidate_exact:
  assumes "tables_ok tb"
  shows "case findOldestUnused ex s tb of
    None \<Rightarrow> list_all (\<lambda>q. rc_id q \<in> set ex \<or> getStorageDeletionRefusal (find_recorded (rc_id q) tb) (Some s) \<noteq> None) (recorded_rows tb)
  | Some i \<Rightarrow> i \<notin> set ex \<and> (\<exists>row \<in> set (recorded_rows tb). rc_id row = i \<and>
      getStorageDeletionRefusal (find_recorded i tb) (Some s) = (if rc_isRecording row then Some Recording_active else None) \<and>
      list_all (\<lambda>q. rc_id q \<in> set ex \<or> getStorageDeletionRefusal (find_recorded (rc_id q) tb) (Some s) \<noteq> None \<or>
        rc_startAt row < rc_startAt q \<or> (rc_startAt row = rc_startAt q \<and> i \<le> rc_id q)) (recorded_rows tb))"
proof -
  define P :: "recorded_row \<Rightarrow> bool" where "P = (\<lambda>r. \<not> rc_isProtected r \<and>
            list_ex (\<lambda>v. vf_recordedId v = rc_id r \<and> vf_parentDirectoryName v = s) (video_rows tb) \<and>
            \<not> list_ex (\<lambda>v. vf_recordedId v = rc_id r \<and> vf_parentDirectoryName v \<noteq> s) (video_rows tb) \<and>
            rc_id r \<notin> set ex)"
  let ?refusal = "\<lambda>q. getStorageDeletionRefusal (find_recorded (rc_id q) tb) (Some s)"
  let ?u = "sort_key rc_startAt (sort_key rc_id (filter P (recorded_rows tb)))"
  have find: "findOldestUnused ex s tb = (case ?u of [] \<Rightarrow> None | r # _ \<Rightarrow> Some (rc_id r))"
    unfolding findOldestUnused_def P_def Let_def ..
  have chosen: "rc_id q \<notin> set ex \<and> ?refusal q = (if rc_isRecording q then Some Recording_active else None)"
    if "q \<in> set (recorded_rows tb)" "P q" for q
    using that(2) unfolding find_recorded_row [OF assms that(1)] P_def
    by (auto simp: getStorageDeletionRefusal_def list_ex_iff filter_empty_conv)
  have refused: "?refusal q \<noteq> None"
    if "q \<in> set (recorded_rows tb)" "\<not> P q" "rc_id q \<notin> set ex" for q
    using that(2,3) unfolding find_recorded_row [OF assms that(1)] P_def
    by (auto simp: getStorageDeletionRefusal_def list_ex_iff filter_empty_conv)
  show ?thesis
  proof (cases ?u)
    case Nil
    then have "set (filter P (recorded_rows tb)) = {}" by (metis set_sort set_empty)
    then have "\<not> P q" if "q \<in> set (recorded_rows tb)" for q using that by auto
    then have "list_all (\<lambda>q. rc_id q \<in> set ex \<or> ?refusal q \<noteq> None) (recorded_rows tb)"
      unfolding list_all_iff using refused by blast
    then show ?thesis using Nil find by simp
  next
    case (Cons r rest)
    note first = sort_key_two [OF Cons]
    have r: "r \<in> set (recorded_rows tb)" "P r" using first(1) by simp_all
    have f: "findOldestUnused ex s tb = Some (rc_id r)" using Cons find by simp
    have least: "rc_startAt r < rc_startAt q \<or> (rc_startAt r = rc_startAt q \<and> rc_id r \<le> rc_id q)"
      if "q \<in> set (recorded_rows tb)" "P q" for q using first(2) [of q] that by simp
    have "rc_id q \<in> set ex \<or> ?refusal q \<noteq> None \<or>
        rc_startAt r < rc_startAt q \<or> (rc_startAt r = rc_startAt q \<and> rc_id r \<le> rc_id q)" if "q \<in> set (recorded_rows tb)" for q
      using refused [OF that] least [OF that] by blast
    then have "list_all (\<lambda>q. rc_id q \<in> set ex \<or> ?refusal q \<noteq> None \<or>
        rc_startAt r < rc_startAt q \<or> (rc_startAt r = rc_startAt q \<and> rc_id r \<le> rc_id q)) (recorded_rows tb)"
      unfolding list_all_iff by blast
    then show ?thesis unfolding f option.case using r chosen [OF r] by blast
  qed
qed

text \<open>
  The query for the programme to delete for space agrees with the check of the deletion: it returns a programme
  that is not excluded and that the check refuses only while it is being recorded, and no deletable programme that
  is not excluded starts earlier (or at the same time with a smaller id); if it returns none, the check refuses every
  programme that is not excluded.
\<close>

theorem findOldestUnused_candidate:
  assumes "tables_ok tb"
  shows "case findOldestUnused ex s tb of
    None \<Rightarrow> list_all (\<lambda>q. rc_id q \<in> set ex \<or> getStorageDeletionRefusal (find_recorded (rc_id q) tb) (Some s) \<noteq> None) (recorded_rows tb)
  | Some i \<Rightarrow> i \<notin> set ex \<and> (\<exists>row \<in> set (recorded_rows tb). rc_id row = i \<and>
      getStorageDeletionRefusal (find_recorded i tb) (Some s) = (if rc_isRecording row then Some Recording_active else None) \<and>
      list_all (\<lambda>q. rc_id q \<in> set ex \<or> getStorageDeletionRefusal (find_recorded (rc_id q) tb) (Some s) \<noteq> None \<or>
        rc_startAt row < rc_startAt q \<or> (rc_startAt row = rc_startAt q \<and> i \<le> rc_id q)) (recorded_rows tb))"
  by (rule candidate_exact [OF assms])

subsection \<open>Witnesses\<close>

definition demo_video :: "int \<Rightarrow> int \<Rightarrow> video_file" where
  "demo_video i r = \<lparr>vf_id = i, vf_recordedId = r, vf_parentDirectoryName = js ''rec'', vf_filePath = js ''a.ts''\<rparr>"

definition demo_row :: "int \<Rightarrow> int \<Rightarrow> recorded_row" where
  "demo_row i start = \<lparr>rc_id = i, rc_reserveId = None, rc_startAt = start, rc_isRecording = False, rc_isProtected = False,
     rc_dropLogFileId = None\<rparr>"

definition demo_tables :: recorded_tables where
  "demo_tables = \<lparr>recorded_rows = [demo_row 1 50, demo_row 2 40], video_rows = [demo_video 10 1, demo_video 11 2, demo_video 12 2],
     thumbnail_rows = [], drop_log_rows = []\<rparr>"

definition demo_env :: "(db_call \<Rightarrow> bool) \<Rightarrow> deletion_env" where
  "demo_env f = \<lparr>answers = demo_files, recordedTmp = None, recorded_dirs = [(js ''rec'', js ''/rec'')],
     thumbnail_dir = js ''/th'', dropLog_dir = js ''/drop'', fails = f\<rparr>"

definition demo_world :: recorded_world where
  "demo_world = \<lparr>tables = demo_tables, tokens = new_tokens, unlinked = [], emitted = []\<rparr>"

lemma demo_tables_ok: "tables_ok demo_tables"
  by code_simp

theorem findOldestUnused_candidate_witness:
  "findOldestUnused [] (js ''rec'') demo_tables = Some 2 \<and>
   (\<exists>row \<in> set (recorded_rows demo_tables). rc_id row = 2 \<and>
     getStorageDeletionRefusal (find_recorded 2 demo_tables) (Some (js ''rec'')) =
       (if rc_isRecording row then Some Recording_active else None))"
proof -
  have f: "findOldestUnused [] (js ''rec'') demo_tables = Some 2" by code_simp
  show ?thesis using findOldestUnused_candidate [OF demo_tables_ok, of "[]" "js ''rec''"] unfolding f by auto
qed

theorem deletion_exact_witness:
  "\<exists>r res w'. deleteExactRecordedResources (demo_env (\<lambda>c. c = Delete_video 12)) r demo_world = (res, w') \<and> rc_id r = 2 \<and>
     video_rows (tables w') = [demo_video 10 1, demo_video 12 2] \<and> recorded_rows (tables w') = [demo_row 1 50] \<and> emitted w' = []"
proof -
  obtain r where r: "find_recorded 2 demo_tables = Some r" by (simp add: find_recorded_def demo_tables_def demo_row_def)
  let ?env = "demo_env (\<lambda>c. c = Delete_video 12)"
  obtain res w' where run: "deleteExactRecordedResources ?env r demo_world = (res, w')" by fastforce
  have t: "tables demo_world = demo_tables" by (simp add: demo_world_def)
  have f: "find (fails ?env) (deletion_calls r) = Some (Delete_video 12)"
    using r by (auto simp: find_recorded_def demo_tables_def demo_row_def demo_env_def deletion_calls_def relation_calls_def
        recorded_entity_def recorded_row.defs demo_video_def)
  show ?thesis using deletion_exact [of demo_world 2 r ?env res w'] run r f find_recorded_Some(1) [OF r] demo_tables_ok
    unfolding t
    by (intro exI [of _ r] exI [of _ res] exI [of _ w'])
      (auto simp: demo_tables_def demo_row_def demo_video_def demo_env_def demo_world_def)
qed

end
