(* ===== verification/Storage_Deletion.thy ===== *)
theory Storage_Deletion
  imports Child_Use Recorded_Deletion
begin

text \<open>
  \<open>StoragePressureDeletionAdapter\<close>
  (\<open>src/src/model/operator/storage/StoragePressureDeletionAdapter.ts\<close>): the deletion of a programme
  for space is prepared, acquires both gates, commits and releases the gates. The synchronous stretches of
  \<open>deleteForStoragePressure\<close> are the steps of a machine; between them the recordings and the service
  process go on, and the rows change in any way.
\<close>

subsection \<open>The machine\<close>

record storage_world =
  sw_recorded :: recorded_world
  sw_recording :: use_provider
  sw_children :: child_registry

text \<open>The two acquisitions; the gate of the recordings is released again when the other one refuses.\<close>

definition acquire_gates :: "int \<Rightarrow> storage_world \<Rightarrow> (nat \<times> nat) option \<times> storage_world" where
  "acquire_gates recordedId w = (case recording_tryAcquireDeletion recordedId (sw_recording w) of
     (Token recording, p) \<Rightarrow>
       (let w1 = w\<lparr>sw_recording := p\<rparr>
        in case child_tryAcquireDeletion recordedId (sw_children w1) of
             (Token serviceChild, c) \<Rightarrow> (Some (recording, serviceChild), w1\<lparr>sw_children := c\<rparr>)
           | (_, c) \<Rightarrow> (None, w1\<lparr>sw_children := c, sw_recording := recording_releaseDeletion recording (sw_recording w1)\<rparr>))
   | (_, p) \<Rightarrow> (None, w\<lparr>sw_recording := p\<rparr>))"

definition release_gates :: "nat \<times> nat \<Rightarrow> storage_world \<Rightarrow> storage_world" where
  "release_gates ts w =
     (let w1 = w\<lparr>sw_children := child_releaseDeletion (snd ts) (sw_children w)\<rparr>
      in w1\<lparr>sw_recording := recording_releaseDeletion (fst ts) (sw_recording w1)\<rparr>)"

text \<open>Where a call of \<open>deleteForStoragePressure\<close> stands.\<close>

datatype phase = Preparing | Prepared nat | Holding nat "nat \<times> nat"
  | Committed "recorded_error + deletion_outcome" "nat \<times> nat" | Finished "recorded_error + deletion_outcome"

fun held_gates :: "phase \<Rightarrow> (nat \<times> nat) option" where
  "held_gates (Holding t ts) = Some ts"
| "held_gates (Committed res ts) = Some ts"
| "held_gates _ = None"

inductive adapter_step :: "deletion_env \<Rightarrow> int \<Rightarrow> jstr \<Rightarrow> phase \<times> storage_world \<Rightarrow> phase \<times> storage_world \<Rightarrow> bool"
  for env recordedId storageName where
  prepare_failed: "prepareStorageDeletion env recordedId storageName (sw_recorded w) = (Inl e, r) \<Longrightarrow>
    adapter_step env recordedId storageName (Preparing, w) (Finished (Inl e), w\<lparr>sw_recorded := r\<rparr>)"
| not_prepared: "prepareStorageDeletion env recordedId storageName (sw_recorded w) = (Inr p, r) \<Longrightarrow>
    \<forall>t. p \<noteq> Prepared_token t \<Longrightarrow>
    adapter_step env recordedId storageName (Preparing, w) (Finished (Inr Not_deleted), w\<lparr>sw_recorded := r\<rparr>)"
| prepared: "prepareStorageDeletion env recordedId storageName (sw_recorded w) = (Inr (Prepared_token t), r) \<Longrightarrow>
    adapter_step env recordedId storageName (Preparing, w) (Prepared t, w\<lparr>sw_recorded := r\<rparr>)"
| busy: "acquire_gates recordedId w = (None, w') \<Longrightarrow>
    adapter_step env recordedId storageName (Prepared t, w) (Finished (Inr Not_deleted), w')"
| acquired: "acquire_gates recordedId w = (Some ts, w') \<Longrightarrow>
    adapter_step env recordedId storageName (Prepared t, w) (Holding t ts, w')"
| commit: "deletePreparedForStorage env t (sw_recorded w) = (res, r) \<Longrightarrow>
    adapter_step env recordedId storageName (Holding t ts, w) (Committed res ts, w\<lparr>sw_recorded := r\<rparr>)"
| leave: "adapter_step env recordedId storageName (Committed res ts, w) (Finished res, release_gates ts w)"
| rows: "adapter_step env recordedId storageName (ph, w) (ph, w\<lparr>sw_recorded := r\<rparr>)"
| recording: "use_step x (sw_recording w) p \<Longrightarrow> (\<forall>ts. held_gates ph = Some ts \<longrightarrow> x = fst ts) \<Longrightarrow>
    adapter_step env recordedId storageName (ph, w) (ph, w\<lparr>sw_recording := p\<rparr>)"
| service: "child_step x (sw_children w) c \<Longrightarrow> (\<forall>ts. held_gates ph = Some ts \<longrightarrow> x = snd ts) \<Longrightarrow>
    adapter_step env recordedId storageName (ph, w) (ph, w\<lparr>sw_children := c\<rparr>)"

subsection \<open>Nobody uses a programme while it is deleted\<close>

definition gates_ok :: "storage_world \<Rightarrow> bool" where
  "gates_ok w \<longleftrightarrow> use_ok (sw_recording w) \<and> child_ok (sw_children w)"

definition holds :: "int \<Rightarrow> nat \<times> nat \<Rightarrow> storage_world \<Rightarrow> bool" where
  "holds i ts w \<longleftrightarrow> recording_held (sw_recording w) i = Some (fst ts) \<and> child_held (sw_children w) i = Some (snd ts)"

lemma acquire_gates_cases:
  assumes ok: "gates_ok w" and run: "acquire_gates i w = (res, w')"
  shows "gates_ok w' \<and> sw_recorded w' = sw_recorded w \<and> (case res of
     None \<Rightarrow> recording_held (sw_recording w') = recording_held (sw_recording w) \<and>
       child_held (sw_children w') = child_held (sw_children w)
   | Some ts \<Rightarrow> holds i ts w' \<and> recording_held (sw_recording (release_gates ts w')) = recording_held (sw_recording w) \<and>
       child_held (sw_children (release_gates ts w')) = child_held (sw_children w))"
proof -
  obtain a p where rec: "recording_tryAcquireDeletion i (sw_recording w) = (a, p)" by fastforce
  obtain b c where ch: "child_tryAcquireDeletion i (sw_children w) = (b, c)" by fastforce
  have g: "use_ok (sw_recording w)" "child_ok (sw_children w)" using ok by (simp_all add: gates_ok_def)
  have p: "use_ok p" using recording_gate.acquire_ok [OF g(1), of i] rec by simp
  have c: "child_ok c" using child_gate.acquire_ok [OF g(2), of i] ch by simp
  show ?thesis
  proof (cases a)
    case (Token tr)
    note held = recording_gate.acquire_held [OF g(1) rec [unfolded Token]]
    note restored = recording_gate.acquire_release [OF g(1) rec [unfolded Token]]
    show ?thesis
    proof (cases b)
      case b: (Token tc)
      have "res = Some (tr, tc)" "w' = w\<lparr>sw_recording := p, sw_children := c\<rparr>"
        using run rec ch Token b by (simp_all add: acquire_gates_def Let_def)
      then show ?thesis
        using held restored p c child_gate.acquire_held [OF g(2) ch [unfolded b]] child_gate.acquire_release [OF g(2) ch [unfolded b]]
        by (simp add: holds_def release_gates_def gates_ok_def Let_def)
    next
      case Busy
      have "res = None" "w' = w\<lparr>sw_children := c, sw_recording := recording_releaseDeletion tr p\<rparr>"
        using run rec ch Token Busy by (simp_all add: acquire_gates_def Let_def)
      then show ?thesis using p c restored child_gate.acquire_refused [OF g(2) ch] Busy
        by (simp add: gates_ok_def recording_gate.release_ok)
    next
      case UnknownUse
      have "res = None" "w' = w\<lparr>sw_children := c, sw_recording := recording_releaseDeletion tr p\<rparr>"
        using run rec ch Token UnknownUse by (simp_all add: acquire_gates_def Let_def)
      then show ?thesis using p c restored child_gate.acquire_refused [OF g(2) ch] UnknownUse
        by (simp add: gates_ok_def recording_gate.release_ok)
    qed
  qed (use run rec ok p g recording_gate.acquire_refused [OF g(1) rec] in
      \<open>auto simp: acquire_gates_def gates_ok_def\<close>)
qed

lemma release_gates_ok: "gates_ok w \<Longrightarrow> gates_ok (release_gates ts w)"
  by (simp add: gates_ok_def release_gates_def Let_def recording_gate.release_ok child_gate.release_ok)

definition adapter_ok :: "int \<Rightarrow> phase \<times> storage_world \<Rightarrow> bool" where
  "adapter_ok i s \<longleftrightarrow> gates_ok (snd s) \<and> (case held_gates (fst s) of None \<Rightarrow> True | Some ts \<Rightarrow> holds i ts (snd s))"

lemma adapter_step_ok: "adapter_step env i st s s' \<Longrightarrow> adapter_ok i s \<Longrightarrow> adapter_ok i s'"
proof (induction rule: adapter_step.induct)
  case (acquired w ts w' t)
  then show ?case using acquire_gates_cases [of w i "Some ts" w'] by (simp add: adapter_ok_def)
next
  case (busy w w' t)
  then show ?case using acquire_gates_cases [of w i None w'] by (simp add: adapter_ok_def)
next
  case (leave res ts w)
  then show ?case by (simp add: adapter_ok_def release_gates_ok)
next
  case (recording x w p ph)
  then show ?case using recording_gate.step_ok [of "sw_recording w" x p] recording_gate.step_held [of "sw_recording w" x p i]
    by (auto simp: adapter_ok_def gates_ok_def holds_def split: option.splits)
next
  case (service x w c ph)
  then show ?case using child_gate.step_ok [of "sw_children w" x c] child_gate.step_held [of "sw_children w" x c i]
    by (auto simp: adapter_ok_def gates_ok_def holds_def split: option.splits)
qed (auto simp: adapter_ok_def gates_ok_def holds_def split: option.splits)

lemma adapter_steps_ok: "(adapter_step env i st)\<^sup>*\<^sup>* s s' \<Longrightarrow> adapter_ok i s \<Longrightarrow> adapter_ok i s'"
  by (induction rule: rtranclp_induct) (auto intro: adapter_step_ok)

text \<open>
  C28. From the moment a deletion for space holds the two gates until it releases them, whatever the recordings, the
  service process and the rows do meanwhile: no recording and no encoding or delivery uses the programme. A
  deletion that is refused, and one that acquires and releases, leave the deletions of both gates as they were.
\<close>

theorem storage_deletion_exclusive:
  assumes "use_ok (sw_recording w0)" "child_ok (sw_children w0)"
    and "(adapter_step env i st)\<^sup>*\<^sup>* (Preparing, w0) (ph, w)"
  shows "(held_gates ph = Some ts \<longrightarrow> i \<notin> recording_used (sw_recording w) \<and> i \<notin> child_used (sw_children w)) \<and>
    (acquire_gates i w = (None, w') \<longrightarrow> recording_held (sw_recording w') = recording_held (sw_recording w) \<and>
       child_held (sw_children w') = child_held (sw_children w)) \<and>
    (acquire_gates i w = (Some ts, w') \<longrightarrow>
       recording_held (sw_recording (release_gates ts w')) = recording_held (sw_recording w) \<and>
       child_held (sw_children (release_gates ts w')) = child_held (sw_children w))"
proof -
  have "adapter_ok i (Preparing, w0)" using assms(1,2) by (simp add: adapter_ok_def gates_ok_def)
  then have ok: "adapter_ok i (ph, w)" using adapter_steps_ok [OF assms(3)] by blast
  then have g: "gates_ok w" by (simp add: adapter_ok_def)
  have "i \<notin> recording_used (sw_recording w) \<and> i \<notin> child_used (sw_children w)" if "held_gates ph = Some ts"
    using ok that recording_gate.excluded [of "sw_recording w" i "fst ts"] child_gate.excluded [of "sw_children w" i "snd ts"]
    by (simp add: adapter_ok_def gates_ok_def holds_def)
  then show ?thesis using acquire_gates_cases [OF g, of i] by fastforce
qed

subsection \<open>Witness\<close>

definition demo_storage :: storage_world where
  "demo_storage = \<lparr>sw_recorded = demo_world, sw_recording = new_use_provider,
     sw_children = registerPeer (\<lambda>p. True) 4 new_child_registry\<rparr>"

lemma demo_gates: "use_ok (sw_recording demo_storage)" "child_ok (sw_children demo_storage)"
proof -
  show "use_ok (sw_recording demo_storage)"
    by (simp add: demo_storage_def new_use_provider_def use_ok_def)
  have "child_step 0 new_child_registry (registerPeer (\<lambda>p. True) 4 new_child_registry)" by (rule child_step.peer)
  then show "child_ok (sw_children demo_storage)"
    using child_step_ok new_child_ok by (simp add: demo_storage_def)
qed

lemma demo_prepared: "\<exists>r. prepareStorageDeletion (demo_env (\<lambda>c. False)) 2 (js ''rec'') demo_world = (Inr (Prepared_token 0), r)"
proof -
  have "getStorageDeletionRefusal (find_recorded 2 demo_tables) (Some (js ''rec'')) = None" by code_simp
  then show ?thesis
    by (simp add: prepareStorageDeletion_def demo_world_def demo_env_def Let_def prepare_def new_tokens_def getOrCreateRegistry_def)
qed

lemma demo_acquired: "fst (acquire_gates 2 (demo_storage\<lparr>sw_recorded := r\<rparr>)) = Some (0, 0)"
  by (simp add: acquire_gates_def demo_storage_def recording_tryAcquireDeletion_def getActiveRecordedIds_def
      new_use_provider_def child_tryAcquireDeletion_def registerPeer_def new_child_registry_def Let_def safe_positive_def)

theorem storage_deletion_exclusive_witness:
  "\<exists>w. (adapter_step (demo_env (\<lambda>c. False)) 2 (js ''rec''))\<^sup>*\<^sup>* (Preparing, demo_storage) (Holding 0 (0, 0), w) \<and>
     2 \<notin> recording_used (sw_recording w) \<and> 2 \<notin> child_used (sw_children w)"
proof -
  let ?step = "adapter_step (demo_env (\<lambda>c. False)) 2 (js ''rec'')"
  obtain r where r: "prepareStorageDeletion (demo_env (\<lambda>c. False)) 2 (js ''rec'') demo_world = (Inr (Prepared_token 0), r)"
    using demo_prepared by blast
  let ?w1 = "demo_storage\<lparr>sw_recorded := r\<rparr>"
  obtain w where w: "acquire_gates 2 ?w1 = (Some (0, 0), w)" using demo_acquired [of r] by (metis prod.collapse)
  have "?step (Preparing, demo_storage) (Prepared 0, ?w1)"
    by (rule adapter_step.prepared) (use r in \<open>simp add: demo_storage_def\<close>)
  moreover have "?step (Prepared 0, ?w1) (Holding 0 (0, 0), w)" by (rule adapter_step.acquired [OF w])
  ultimately have run: "?step\<^sup>*\<^sup>* (Preparing, demo_storage) (Holding 0 (0, 0), w)" by auto
  then show ?thesis using storage_deletion_exclusive [OF demo_gates run, of "(0, 0)"] by auto
qed

end
