(* ===== verification/Storage_Manage.thy ===== *)
theory Storage_Manage
  imports Complex_Main Storage_Deletion
begin

text \<open>
  \<open>StorageManageModel\<close> (\<open>src/src/model/operator/storage/StorageManageModel.ts\<close>): the check of one
  storage, whose loop deletes recorded programmes until there is space, and the watch on the external
  command. The ports of the class are a record of functions on a state of the environment; a rejected
  promise is \<open>None\<close>. The loop needs no fuel: every further round needs more free bytes than the one
  before and no more than the limit, which is its measure.
\<close>

subsection \<open>The check of a storage\<close>

record storage_entry =
  se_name :: jstr
  se_path :: jstr
  se_limitThreshold :: "rat option"
  se_removes :: bool
  se_limitCmd :: "jstr option"

record 'w ports =
  getFreeSize :: "jstr \<Rightarrow> 'w \<Rightarrow> int option \<times> 'w"
  getSnapshot :: "'w \<Rightarrow> int list option option \<times> 'w"
  findCandidate :: "int list \<Rightarrow> jstr \<Rightarrow> 'w \<Rightarrow> int option option \<times> 'w"
  deleteForStoragePressure :: "int \<Rightarrow> jstr \<Rightarrow> 'w \<Rightarrow> bool option \<times> 'w"

text \<open>Bytes are integers below \<open>2 ^ 53\<close>, so the division by \<open>2 ^ 20\<close> is exact.\<close>

definition freeMb :: "int \<Rightarrow> rat" where
  "freeMb bytes = of_int bytes / 1024 / 1024"

datatype stop_reason = Enough_space | Snapshot_failed | Snapshot_unknown | Candidate_failed | No_candidate
  | Repeated | Delete_failed | Delete_refused | Reread_failed | No_increase

text \<open>What the loop tried to delete, each with the programmes in use it knew of, and why it stopped.\<close>

lemma freeMb_le: "freeMb b \<le> limit \<longleftrightarrow> b \<le> \<lfloor>limit * 1048576\<rfloor>"
proof -
  have "freeMb b = of_int b / 1048576" by (simp add: freeMb_def)
  also have "\<dots> \<le> limit \<longleftrightarrow> of_int b \<le> limit * 1048576" by (simp add: field_simps)
  also have "\<dots> \<longleftrightarrow> b \<le> \<lfloor>limit * 1048576\<rfloor>" by (simp add: le_floor_iff)
  finally show ?thesis .
qed

function removal_loop :: "'w ports \<Rightarrow> storage_entry \<Rightarrow> rat \<Rightarrow> int \<Rightarrow> int list \<Rightarrow> 'w \<Rightarrow>
    (int \<times> int list) list \<times> stop_reason \<times> 'w" where
  "removal_loop p l limitThreshold availableBytes attempted w =
     (if \<not> freeMb availableBytes \<le> limitThreshold then ([], Enough_space, w)
      else case getSnapshot p w of
        (None, w1) \<Rightarrow> ([], Snapshot_failed, w1)
      | (Some None, w1) \<Rightarrow> ([], Snapshot_unknown, w1)
      | (Some (Some used), w1) \<Rightarrow> (case findCandidate p (used @ attempted) (se_name l) w1 of
          (None, w2) \<Rightarrow> ([], Candidate_failed, w2)
        | (Some None, w2) \<Rightarrow> ([], No_candidate, w2)
        | (Some (Some recordedId), w2) \<Rightarrow>
            if recordedId \<in> set attempted then ([], Repeated, w2)
            else (case deleteForStoragePressure p recordedId (se_name l) w2 of
              (None, w3) \<Rightarrow> ([(recordedId, used)], Delete_failed, w3)
            | (Some False, w3) \<Rightarrow> ([(recordedId, used)], Delete_refused, w3)
            | (Some True, w3) \<Rightarrow> (case getFreeSize p (se_path l) w3 of
                (None, w4) \<Rightarrow> ([(recordedId, used)], Reread_failed, w4)
              | (Some nextAvailableBytes, w4) \<Rightarrow>
                  if nextAvailableBytes \<le> availableBytes then ([(recordedId, used)], No_increase, w4)
                  else if freeMb nextAvailableBytes > limitThreshold then ([(recordedId, used)], Enough_space, w4)
                  else let (tried, reason, w5) = removal_loop p l limitThreshold nextAvailableBytes (attempted @ [recordedId]) w4
                       in ((recordedId, used) # tried, reason, w5)))))"
  by auto
termination
proof (relation "measure (\<lambda>(p, l, limit, a, att, w). nat (\<lfloor>limit * 1048576\<rfloor> - a))", goal_cases)
  case (2 p l limit a att w)
  then show ?case by (simp add: freeMb_le not_less)
qed simp

declare removal_loop.simps [simp del]

datatype check_outcome = Capacity_failed | No_limit | Above_limit | No_removal | Removal "(int \<times> int list) list" stop_reason

text \<open>\<open>checkEntry\<close>: the outcome and the command it started.\<close>

definition checkEntry :: "'w ports \<Rightarrow> storage_entry \<Rightarrow> 'w \<Rightarrow> check_outcome \<times> jstr option \<times> 'w" where
  "checkEntry p l w = (case getFreeSize p (se_path l) w of
     (None, w1) \<Rightarrow> (Capacity_failed, None, w1)
   | (Some availableBytes, w1) \<Rightarrow> (case se_limitThreshold l of
       None \<Rightarrow> (No_limit, None, w1)
     | Some limitThreshold \<Rightarrow>
         if freeMb availableBytes > limitThreshold then (Above_limit, None, w1)
         else if se_removes l
           then let (tried, reason, w2) = removal_loop p l limitThreshold availableBytes [] w1
                in (Removal tried reason, se_limitCmd l, w2)
           else (No_removal, se_limitCmd l, w1)))"

subsection \<open>The loop is bounded and spares what is in use\<close>

text \<open>The port of the candidates is the query on the tables.\<close>

definition with_candidates :: "('w \<Rightarrow> recorded_tables) \<Rightarrow> 'w ports \<Rightarrow> 'w ports" where
  "with_candidates tables_of p = p\<lparr>findCandidate := \<lambda>ex s w. (Some (findOldestUnused ex s (tables_of w)), w)\<rparr>"

lemma candidate_not_excluded:
  assumes "findOldestUnused ex s tb = Some i"
  shows "i \<notin> set ex"
proof -
  obtain P :: "recorded_row \<Rightarrow> bool" where P: "findOldestUnused ex s tb =
      (case sort_key rc_startAt (sort_key rc_id (filter P (recorded_rows tb))) of [] \<Rightarrow> None | r # _ \<Rightarrow> Some (rc_id r))"
    "\<And>r. P r \<Longrightarrow> rc_id r \<notin> set ex"
    unfolding findOldestUnused_def Let_def by blast
  then obtain r rest where r: "sort_key rc_startAt (sort_key rc_id (filter P (recorded_rows tb))) = r # rest" "i = rc_id r"
    using assms by (auto split: list.splits)
  then show ?thesis using sort_key_two(1) [OF r(1)] P(2) by simp
qed

text \<open>One round: nothing is tried, one programme and no more, or one and then the rest.\<close>

lemma removal_loop_cases:
  assumes "removal_loop p l limit a att w = (tried, reason, w')"
  obtains "tried = []"
  | i used w1 w2 where "tried = [(i, used)]" "findCandidate p (used @ att) (se_name l) w1 = (Some (Some i), w2)" "i \<notin> set att"
      "freeMb a \<le> limit"
  | i used w1 w2 b w4 rest where "tried = (i, used) # rest" "findCandidate p (used @ att) (se_name l) w1 = (Some (Some i), w2)"
      "i \<notin> set att" "a < b" "freeMb b \<le> limit" "removal_loop p l limit b (att @ [i]) w4 = (rest, reason, w')"
proof -
  have "tried = [] \<or> (\<exists>i used w1 w2. tried = [(i, used)] \<and> findCandidate p (used @ att) (se_name l) w1 = (Some (Some i), w2) \<and>
      i \<notin> set att \<and> freeMb a \<le> limit) \<or>
    (\<exists>i used w1 w2 b w4 rest. tried = (i, used) # rest \<and> findCandidate p (used @ att) (se_name l) w1 = (Some (Some i), w2) \<and>
      i \<notin> set att \<and> a < b \<and> freeMb b \<le> limit \<and> removal_loop p l limit b (att @ [i]) w4 = (rest, reason, w'))"
    using assms
    by (subst (asm) removal_loop.simps)
      (simp split: if_splits prod.splits option.splits bool.splits; fastforce simp: not_le)
  then show thesis using that by blast
qed

lemma removal_loop_bounded_from:
  assumes "removal_loop (with_candidates tables_of p) l limit a att w = (tried, reason, w')"
  shows "distinct (map fst tried) \<and> (\<forall>(i, used) \<in> set tried. i \<notin> set used \<and> i \<notin> set att) \<and>
    int (length tried) \<le> max 0 (\<lfloor>limit * 1048576\<rfloor> - a + 1)"
  using assms
proof (induction "nat (\<lfloor>limit * 1048576\<rfloor> - a)" arbitrary: a att w tried rule: less_induct)
  case less
  have free: "i \<notin> set used" if "findCandidate (with_candidates tables_of p) (used @ att) (se_name l) w1 = (Some (Some i), w2)"
    for i used w1 w2 using that candidate_not_excluded [of "used @ att"] by (auto simp: with_candidates_def)
  from less.prems show ?case
  proof (cases rule: removal_loop_cases)
    case (2 i used w1 w2)
    then show ?thesis using free by (auto simp: freeMb_le)
  next
    case (3 i used w1 w2 b w4 rest)
    have "nat (\<lfloor>limit * 1048576\<rfloor> - b) < nat (\<lfloor>limit * 1048576\<rfloor> - a)" using 3(4,5) by (simp add: freeMb_le)
    from less.hyps [OF this 3(6)] have "distinct (map fst rest)"
      "\<forall>(j, used) \<in> set rest. j \<notin> set used \<and> j \<notin> set (att @ [i])" "int (length rest) \<le> max 0 (\<lfloor>limit * 1048576\<rfloor> - b + 1)"
      by blast+
    then show ?thesis using 3 free [OF 3(2)] by (auto simp: freeMb_le)
  qed simp
qed

text \<open>
  C29. The loop that makes space ends: it tries no more programmes than there are bytes between the free space at the start
  and the limit, no programme twice, and none that the snapshot of its round says is in use.
\<close>

theorem removal_loop_bounded:
  assumes "removal_loop (with_candidates tables_of p) l limit a [] w = (tried, reason, w')"
  shows "distinct (map fst tried) \<and> list_all (\<lambda>(i, used). i \<notin> set used) tried \<and>
    int (length tried) \<le> max 0 (\<lfloor>limit * 1048576\<rfloor> - a + 1)"
  using removal_loop_bounded_from [OF assms] by (auto simp: list_all_iff)

text \<open>A storage of one megabyte steps: every deletion frees one, the second one is refused.\<close>

definition demo_entry :: storage_entry where
  "demo_entry = \<lparr>se_name = js ''rec'', se_path = js ''/rec'', se_limitThreshold = Some 3, se_removes = True, se_limitCmd = None\<rparr>"

definition demo_ports :: "int ports" where
  "demo_ports = \<lparr>getFreeSize = (\<lambda>path n. (Some n, n)), getSnapshot = (\<lambda>n. (Some (Some [7]), n)),
     findCandidate = (\<lambda>ex s n. (Some None, n)), deleteForStoragePressure = (\<lambda>i s n. (Some (i = 2), n + 1048576))\<rparr>"

theorem removal_loop_bounded_witness:
  "\<exists>reason w'. removal_loop (with_candidates (\<lambda>n. demo_tables) demo_ports) demo_entry 3 1048576 [] 1048576 =
     ([(2, [7]), (1, [7])], reason, w') \<and> distinct (map fst [(2::int, [7::int]), (1, [7])])"
proof -
  have c: "findOldestUnused [7] (js ''rec'') demo_tables = Some 2" "findOldestUnused [7, 2] (js ''rec'') demo_tables = Some 1"
    by code_simp+
  have l: "removal_loop (with_candidates (\<lambda>n. demo_tables) demo_ports) demo_entry 3 2097152 [2] 2097152 =
      ([(1, [7])], Delete_refused, 3145728)"
    by (subst removal_loop.simps) (simp add: with_candidates_def demo_ports_def demo_entry_def freeMb_def c)
  have run: "removal_loop (with_candidates (\<lambda>n. demo_tables) demo_ports) demo_entry 3 1048576 [] 1048576 =
     ([(2, [7]), (1, [7])], Delete_refused, 3145728)"
    using l by (subst removal_loop.simps) (simp add: with_candidates_def demo_ports_def demo_entry_def freeMb_def c)
  then show ?thesis using removal_loop_bounded [OF run] by blast
qed

subsection \<open>The watch on the command\<close>

text \<open>\<open>normalizeCommandTimeout\<close>; \<open>None\<close> is an option that is not set, the outer \<open>None\<close> the exception.\<close>

definition normalizeCommandTimeout :: "int option \<Rightarrow> int option" where
  "normalizeCommandTimeout rawTimeout = (case rawTimeout of
     None \<Rightarrow> Some 300000
   | Some timeout \<Rightarrow> if timeout < 1 \<or> timeout > 2147483647 then None else Some timeout)"

datatype command_state = Running | Timing_out | Unreaped

datatype observation = Terminal | Spawn_failure

record storage_command =
  sc_spawned :: bool
  sc_state :: command_state
  sc_deadline :: bool
  sc_stopGrace :: bool
  sc_listening :: bool
  sc_active :: bool
  sc_observed :: "observation list"
  sc_kills :: nat

definition launchCommand :: storage_command where
  "launchCommand = \<lparr>sc_spawned = False, sc_state = Running, sc_deadline = True, sc_stopGrace = False,
     sc_listening = True, sc_active = True, sc_observed = [], sc_kills = 0\<rparr>"

definition finish_command :: "observation \<Rightarrow> storage_command \<Rightarrow> storage_command" where
  "finish_command result c =
     (if \<not> sc_active c then c
      else c\<lparr>sc_deadline := False, sc_stopGrace := False, sc_listening := False, sc_active := False,
             sc_observed := sc_observed c @ [result]\<rparr>)"

text \<open>Events of the process reach the listeners while they are registered, timers fire while they are armed.\<close>

datatype command_event = On_spawn | On_error | On_close | Deadline_fires | Grace_fires

fun command_step :: "command_event \<Rightarrow> storage_command \<Rightarrow> storage_command" where
  "command_step On_spawn c = (if sc_listening c \<and> sc_active c then c\<lparr>sc_spawned := True\<rparr> else c)"
| "command_step On_error c = (if sc_listening c \<and> sc_active c \<and> \<not> sc_spawned c then finish_command Spawn_failure c else c)"
| "command_step On_close c = (if sc_listening c then finish_command Terminal c else c)"
| "command_step Deadline_fires c =
     (if \<not> sc_deadline c \<or> \<not> sc_active c \<or> sc_state c \<noteq> Running then c
      else c\<lparr>sc_state := Timing_out, sc_deadline := False, sc_kills := sc_kills c + 1, sc_stopGrace := True\<rparr>)"
| "command_step Grace_fires c =
     (if \<not> sc_stopGrace c \<or> \<not> sc_active c \<or> sc_state c \<noteq> Timing_out then c
      else c\<lparr>sc_state := Unreaped, sc_stopGrace := False\<rparr>)"

definition command_ok :: "storage_command \<Rightarrow> bool" where
  "command_ok c \<longleftrightarrow> sc_listening c = sc_active c \<and> length (sc_observed c) = (if sc_active c then 0 else 1) \<and>
     sc_deadline c = (sc_active c \<and> sc_state c = Running) \<and> sc_stopGrace c = (sc_active c \<and> sc_state c = Timing_out) \<and>
     sc_kills c = (if sc_state c = Running then 0 else 1)"

lemma command_step_ok: "command_ok c \<Longrightarrow> command_ok (command_step e c)"
  by (cases e) (auto simp: command_ok_def finish_command_def split: if_splits)

lemma command_step_observed: "command_ok c \<Longrightarrow> sc_observed c \<noteq> [] \<Longrightarrow> sc_observed (command_step e c) = sc_observed c"
  by (cases e) (auto simp: command_ok_def finish_command_def split: if_splits)

lemma commands_ok: "command_ok c \<Longrightarrow> command_ok (fold command_step es c)"
  by (induction es arbitrary: c) (simp_all add: command_step_ok)

lemma commands_observed: "command_ok c \<Longrightarrow> sc_observed c \<noteq> [] \<Longrightarrow> sc_observed (fold command_step es c) = sc_observed c"
  by (induction es arbitrary: c) (simp_all add: command_step_ok command_step_observed)

text \<open>
  Whatever events the process and the timers send: the limit command is killed at most once, its end is observed at most
  once and never changes, exactly one timer is armed while it runs or is being stopped, and after its end none is and
  no listener is left.
\<close>

theorem command_observed_once:
  assumes "c = fold command_step es launchCommand"
  shows "sc_kills c \<le> 1 \<and> length (sc_observed c) = (if sc_active c then 0 else 1) \<and>
    (sc_deadline c = (sc_active c \<and> sc_state c = Running)) \<and> (sc_stopGrace c = (sc_active c \<and> sc_state c = Timing_out)) \<and>
    sc_listening c = sc_active c \<and>
    (sc_observed c = [] \<or> sc_observed (fold command_step es' c) = sc_observed c)"
proof -
  have "command_ok launchCommand" by (simp add: command_ok_def launchCommand_def)
  then have ok: "command_ok c" unfolding assms by (rule commands_ok)
  then show ?thesis using commands_observed [OF ok, of es'] by (auto simp: command_ok_def)
qed

theorem command_observed_once_witness:
  "sc_observed (fold command_step [On_spawn, Deadline_fires, On_close] launchCommand) = [Terminal] \<and>
   sc_kills (fold command_step [On_spawn, Deadline_fires, On_close] launchCommand) \<le> 1"
  using command_observed_once [OF refl, of "[On_spawn, Deadline_fires, On_close]" "[]"]
  by (simp add: launchCommand_def finish_command_def)

end
