(* ===== verification/Candidate_Registry.thy ===== *)
theory Candidate_Registry
  imports Js_Map Reserve_Types
begin

text \<open>
  \<open>RecordingCandidateRegistry\<close>
  (\<open>src/src/model/operator/recording/RecordingCandidateRegistry.ts\<close>): the candidates the
  recorder may start, one per reservation, each carrying the generation of the change that wrote it.
  The generations are the \<open>bigint\<close> counter of the class. The lemmas show that the registry keeps
  its invariant, what a lookup returns after each operation, that a candidate always mirrors the last
  change of its reservation, and that a generation that has been replaced never becomes current again.
\<close>

subsection \<open>Data\<close>

definition PREPARATION_LEAD_MS :: int where
  "PREPARATION_LEAD_MS = 15000"

datatype recording_phase = Waiting | Preparing | RetryWaiting | Recording | AwaitingFirstData | Registering |
  PathSelectionOverdue | RegistrationOverdue | StoppingForDeletion | Finishing | Completed | Cancelled

datatype candidate_kind = Program | TimeSpecified

datatype candidate_state = Normal | Conflict

record recording_candidate =
  cd_reservationId :: int
  cd_reservation :: reserve
  cd_startAt :: int
  cd_endAt :: int
  cd_prepareAt :: int
  cd_kind :: candidate_kind
  cd_state :: candidate_state
  cd_generation :: int
  cd_phase :: recording_phase

record candidate_registry =
  candidates :: "(int, recording_candidate) jsmap"
  generations :: "(int, int) jsmap"
  generationCounter :: int

definition new_registry :: candidate_registry where
  "new_registry = \<lparr>candidates = [], generations = [], generationCounter = 0\<rparr>"

text \<open>The \<open>id\<close> of a stored reservation.\<close>

definition reservation_id :: "reserve \<Rightarrow> int" where
  "reservation_id r = (case reserveId r of None \<Rightarrow> 0 | Some i \<Rightarrow> i)"

subsection \<open>Operations\<close>

definition issueGeneration :: "candidate_registry \<Rightarrow> int \<times> candidate_registry" where
  "issueGeneration g = (let n = generationCounter g + 1 in (n, g\<lparr>generationCounter := n\<rparr>))"

definition candidate_of :: "reserve \<Rightarrow> int \<Rightarrow> recording_phase \<Rightarrow> recording_candidate" where
  "candidate_of r generation phase =
     \<lparr>cd_reservationId = reservation_id r, cd_reservation = r, cd_startAt = startAt r, cd_endAt = endAt r,
      cd_prepareAt = startAt r - PREPARATION_LEAD_MS,
      cd_kind = (if isTimeSpecified r then TimeSpecified else Program),
      cd_state = (if isConflict r then Conflict else Normal),
      cd_generation = generation, cd_phase = phase\<rparr>"

definition upsert :: "reserve \<Rightarrow> recording_phase \<Rightarrow> candidate_registry \<Rightarrow>
    recording_candidate option \<times> candidate_registry" where
  "upsert r phase g =
     (let (generation, g1) = issueGeneration g;
          g2 = g1\<lparr>generations := map_set (reservation_id r) generation (generations g1)\<rparr>
      in if isSkip r \<or> isOverlap r
         then (None, g2\<lparr>candidates := map_delete (reservation_id r) (candidates g2)\<rparr>)
         else let candidate = candidate_of r generation phase
              in (Some candidate, g2\<lparr>candidates := map_set (reservation_id r) candidate (candidates g2)\<rparr>))"

definition remove_candidate :: "int \<Rightarrow> candidate_registry \<Rightarrow> int \<times> candidate_registry" where
  "remove_candidate i g =
     (let (generation, g1) = issueGeneration g
      in (generation, g1\<lparr>candidates := map_delete i (candidates g1),
            generations := map_set i generation (generations g1)\<rparr>))"

definition rebuild :: "reserve list \<Rightarrow> candidate_registry \<Rightarrow> candidate_registry" where
  "rebuild rs g =
     (let (rebuildGeneration, g1) = issueGeneration g;
          g2 = g1\<lparr>generations := fold (\<lambda>i m. map_set i rebuildGeneration m) (map fst (candidates g1)) (generations g1)\<rparr>;
          g3 = g2\<lparr>candidates := []\<rparr>
      in fold (\<lambda>r h. snd (upsert r Waiting h)) rs g3)"

definition get_candidate :: "int \<Rightarrow> candidate_registry \<Rightarrow> recording_candidate option" where
  "get_candidate i g = map_of (candidates g) i"

definition list_candidates :: "candidate_registry \<Rightarrow> recording_candidate list" where
  "list_candidates g = map snd (candidates g)"

definition latestGeneration :: "int \<Rightarrow> candidate_registry \<Rightarrow> int option" where
  "latestGeneration i g = map_of (generations g) i"

definition isCurrent :: "int \<Rightarrow> int \<Rightarrow> candidate_registry \<Rightarrow> bool" where
  "isCurrent i expected g = (map_option cd_generation (get_candidate i g) = Some expected)"

definition tryTransitionPhase :: "int \<Rightarrow> int \<Rightarrow> recording_phase \<Rightarrow> recording_phase \<Rightarrow> candidate_registry \<Rightarrow>
    bool \<times> candidate_registry" where
  "tryTransitionPhase i expectedGeneration expectedPhase nextPhase g =
     (case get_candidate i g of
        None \<Rightarrow> (False, g)
      | Some current \<Rightarrow>
          if cd_generation current \<noteq> expectedGeneration \<or> cd_phase current \<noteq> expectedPhase then (False, g)
          else (True, g\<lparr>candidates := map_set i (current\<lparr>cd_phase := nextPhase\<rparr>) (candidates g)\<rparr>))"

definition removeIfCurrent :: "int \<Rightarrow> int \<Rightarrow> candidate_registry \<Rightarrow> bool \<times> candidate_registry" where
  "removeIfCurrent i expected g =
     (if \<not> isCurrent i expected g then (False, g) else (True, snd (remove_candidate i g)))"

text \<open>The operations that change the registry, as one step.\<close>

inductive registry_step :: "candidate_registry \<Rightarrow> candidate_registry \<Rightarrow> bool" where
  upsert: "registry_step g (snd (upsert r p g))"
| remove: "registry_step g (snd (remove_candidate i g))"
| rebuild: "registry_step g (rebuild rs g)"
| transition: "registry_step g (snd (tryTransitionPhase i n p q g))"
| remove_if: "registry_step g (snd (removeIfCurrent i n g))"

inductive_cases registry_stepE: "registry_step g g'"

subsection \<open>The invariant\<close>

text \<open>A candidate is what \<open>candidate_of\<close> makes of a reservation that is neither skipped nor
  an overlap, it carries the latest generation of its reservation, and two candidates never share
  one.\<close>

definition candidate_ok :: "candidate_registry \<Rightarrow> int \<Rightarrow> recording_candidate \<Rightarrow> bool" where
  "candidate_ok g i c \<longleftrightarrow> cd_reservationId c = i \<and>
     c = candidate_of (cd_reservation c) (cd_generation c) (cd_phase c) \<and>
     \<not> isSkip (cd_reservation c) \<and> \<not> isOverlap (cd_reservation c) \<and>
     latestGeneration i g = Some (cd_generation c)"

definition registry_ok :: "candidate_registry \<Rightarrow> bool" where
  "registry_ok g \<longleftrightarrow> keys_ok (candidates g) \<and> keys_ok (generations g) \<and>
     (\<forall>i c. get_candidate i g = Some c \<longrightarrow> candidate_ok g i c) \<and>
     (\<forall>i n. latestGeneration i g = Some n \<longrightarrow> n \<le> generationCounter g) \<and>
     (\<forall>i j c d. get_candidate i g = Some c \<longrightarrow> get_candidate j g = Some d \<longrightarrow>
        cd_generation c = cd_generation d \<longrightarrow> i = j)"

lemma registry_okI:
  assumes "keys_ok (candidates g)" "keys_ok (generations g)"
    and "\<And>i c. get_candidate i g = Some c \<Longrightarrow> candidate_ok g i c"
    and "\<And>i n. latestGeneration i g = Some n \<Longrightarrow> n \<le> generationCounter g"
    and "\<And>i j c d. get_candidate i g = Some c \<Longrightarrow> get_candidate j g = Some d \<Longrightarrow>
        cd_generation c = cd_generation d \<Longrightarrow> i = j"
  shows "registry_ok g"
  using assms unfolding registry_ok_def by blast

lemma registry_ok_keys:
  assumes "registry_ok g"
  shows "keys_ok (candidates g)" "keys_ok (generations g)"
  using assms unfolding registry_ok_def by blast+

lemma registry_ok_candidate: "registry_ok g \<Longrightarrow> get_candidate i g = Some c \<Longrightarrow> candidate_ok g i c"
  unfolding registry_ok_def by blast

lemma latest_le: "registry_ok g \<Longrightarrow> latestGeneration i g = Some n \<Longrightarrow> n \<le> generationCounter g"
  unfolding registry_ok_def by blast

lemma generations_unique: "registry_ok g \<Longrightarrow> get_candidate i g = Some c \<Longrightarrow> get_candidate j g = Some d \<Longrightarrow>
    cd_generation c = cd_generation d \<Longrightarrow> i = j"
  unfolding registry_ok_def by blast

lemma candidate_id: "registry_ok g \<Longrightarrow> get_candidate i g = Some c \<Longrightarrow> cd_reservationId c = i"
  using registry_ok_candidate candidate_ok_def by blast

lemma candidate_latest: "registry_ok g \<Longrightarrow> get_candidate i g = Some c \<Longrightarrow> latestGeneration i g = Some (cd_generation c)"
  using registry_ok_candidate candidate_ok_def by blast

lemma candidate_generation_le:
  "registry_ok g \<Longrightarrow> get_candidate i g = Some c \<Longrightarrow> cd_generation c \<le> generationCounter g"
  by (blast dest: candidate_latest latest_le)

named_theorems registry_simps \<open>what the operations of the registry return\<close>

lemma new_registry_ok [simp]: "registry_ok new_registry"
  by (simp add: registry_ok_def new_registry_def get_candidate_def latestGeneration_def)

lemma candidate_of_simps [simp, registry_simps]:
  "cd_reservationId (candidate_of r n p) = reservation_id r" "cd_reservation (candidate_of r n p) = r"
  "cd_startAt (candidate_of r n p) = startAt r" "cd_endAt (candidate_of r n p) = endAt r"
  "cd_prepareAt (candidate_of r n p) = startAt r - PREPARATION_LEAD_MS"
  "cd_generation (candidate_of r n p) = n" "cd_phase (candidate_of r n p) = p"
  by (simp_all add: candidate_of_def)

lemma candidate_of_phase [simp]: "(candidate_of r n p)\<lparr>cd_phase := q\<rparr> = candidate_of r n q"
  by (simp add: candidate_of_def)

subsection \<open>What the operations return\<close>

lemma upsert_fst [registry_simps]:
  "fst (upsert r p g) = (if isSkip r \<or> isOverlap r then None
     else Some (candidate_of r (generationCounter g + 1) p))"
  by (simp add: upsert_def issueGeneration_def Let_def)

lemma get_upsert [registry_simps]:
  "get_candidate i (snd (upsert r p g)) = (if i \<noteq> reservation_id r then get_candidate i g
     else if isSkip r \<or> isOverlap r then None else Some (candidate_of r (generationCounter g + 1) p))"
  by (simp add: upsert_def issueGeneration_def Let_def get_candidate_def)

lemma latest_upsert [registry_simps]:
  "latestGeneration i (snd (upsert r p g)) =
     (if i = reservation_id r then Some (generationCounter g + 1) else latestGeneration i g)"
  by (simp add: upsert_def issueGeneration_def Let_def latestGeneration_def)

lemma counter_upsert [registry_simps]: "generationCounter (snd (upsert r p g)) = generationCounter g + 1"
  by (simp add: upsert_def issueGeneration_def Let_def)

lemma remove_fst [registry_simps]: "fst (remove_candidate i g) = generationCounter g + 1"
  by (simp add: remove_candidate_def issueGeneration_def Let_def)

lemma get_remove [registry_simps]:
  "get_candidate j (snd (remove_candidate i g)) = (if j = i then None else get_candidate j g)"
  by (simp add: remove_candidate_def issueGeneration_def Let_def get_candidate_def)

lemma latest_remove [registry_simps]:
  "latestGeneration j (snd (remove_candidate i g)) =
     (if j = i then Some (generationCounter g + 1) else latestGeneration j g)"
  by (simp add: remove_candidate_def issueGeneration_def Let_def latestGeneration_def)

lemma counter_remove [registry_simps]:
  "generationCounter (snd (remove_candidate i g)) = generationCounter g + 1"
  by (simp add: remove_candidate_def issueGeneration_def Let_def)

lemma transition_fst [registry_simps]:
  "fst (tryTransitionPhase i n p q g) \<longleftrightarrow>
     (\<exists>c. get_candidate i g = Some c \<and> cd_generation c = n \<and> cd_phase c = p)"
  by (simp add: tryTransitionPhase_def split: option.splits)

lemma get_transition [registry_simps]:
  "get_candidate j (snd (tryTransitionPhase i n p q g)) =
     (if j = i \<and> fst (tryTransitionPhase i n p q g) then map_option (cd_phase_update (\<lambda>_. q)) (get_candidate i g)
      else get_candidate j g)"
  by (auto simp: tryTransitionPhase_def get_candidate_def split: option.splits)

lemma latest_transition [registry_simps]:
  "latestGeneration j (snd (tryTransitionPhase i n p q g)) = latestGeneration j g"
  by (simp add: tryTransitionPhase_def latestGeneration_def split: option.splits)

lemma counter_transition [registry_simps]:
  "generationCounter (snd (tryTransitionPhase i n p q g)) = generationCounter g"
  by (simp add: tryTransitionPhase_def split: option.splits)

lemma transition_fails: "\<not> fst (tryTransitionPhase i n p q g) \<Longrightarrow> snd (tryTransitionPhase i n p q g) = g"
  by (auto simp: tryTransitionPhase_def split: option.splits if_splits)

subsection \<open>The operations keep the invariant\<close>

lemma keys_upsert: "registry_ok g \<Longrightarrow> keys_ok (candidates (snd (upsert r p g))) \<and> keys_ok (generations (snd (upsert r p g)))"
  by (simp add: upsert_def issueGeneration_def Let_def registry_ok_keys)

lemma upsert_ok [intro]:
  assumes ok: "registry_ok g"
  shows "registry_ok (snd (upsert r p g))"
proof (rule registry_okI)
  show "keys_ok (candidates (snd (upsert r p g)))" "keys_ok (generations (snd (upsert r p g)))"
    using keys_upsert [OF ok] by auto
next
  fix i c assume c: "get_candidate i (snd (upsert r p g)) = Some c"
  show "candidate_ok (snd (upsert r p g)) i c"
  proof (cases "i = reservation_id r")
    case True
    with c show ?thesis by (auto simp: candidate_ok_def registry_simps split: if_splits)
  next
    case False
    with c have "get_candidate i g = Some c" by (simp add: registry_simps)
    from registry_ok_candidate [OF ok this] False show ?thesis by (simp add: candidate_ok_def registry_simps)
  qed
next
  fix i n assume "latestGeneration i (snd (upsert r p g)) = Some n"
  then show "n \<le> generationCounter (snd (upsert r p g))"
    using latest_le [OF ok, of i n] by (auto simp: registry_simps split: if_splits)
next
  fix i j c d
  assume c: "get_candidate i (snd (upsert r p g)) = Some c" and d: "get_candidate j (snd (upsert r p g)) = Some d"
    and e: "cd_generation c = cd_generation d"
  have le: "get_candidate k g = Some x \<Longrightarrow> cd_generation x \<noteq> generationCounter g + 1" for k x
    using candidate_generation_le [OF ok, of k x] by auto
  show "i = j"
    using c d e le [of i c] le [of j d] generations_unique [OF ok, of i c j d]
    by (auto simp: registry_simps split: if_splits)
qed

lemma remove_ok [intro]:
  assumes ok: "registry_ok g"
  shows "registry_ok (snd (remove_candidate i g))"
proof (rule registry_okI)
  show "keys_ok (candidates (snd (remove_candidate i g)))" "keys_ok (generations (snd (remove_candidate i g)))"
    using registry_ok_keys [OF ok] by (auto simp: remove_candidate_def issueGeneration_def Let_def)
next
  fix j c assume "get_candidate j (snd (remove_candidate i g)) = Some c"
  then have "j \<noteq> i" "get_candidate j g = Some c" by (auto simp: registry_simps split: if_splits)
  with registry_ok_candidate [OF ok this(2)] show "candidate_ok (snd (remove_candidate i g)) j c"
    by (simp add: candidate_ok_def registry_simps)
next
  fix j n assume "latestGeneration j (snd (remove_candidate i g)) = Some n"
  then show "n \<le> generationCounter (snd (remove_candidate i g))"
    using latest_le [OF ok, of j n] by (auto simp: registry_simps split: if_splits)
next
  fix j k c d
  assume "get_candidate j (snd (remove_candidate i g)) = Some c" "get_candidate k (snd (remove_candidate i g)) = Some d"
    "cd_generation c = cd_generation d"
  then show "j = k" using generations_unique [OF ok, of j c k d] by (auto simp: registry_simps split: if_splits)
qed

lemma transition_ok [intro]:
  assumes ok: "registry_ok g"
  shows "registry_ok (snd (tryTransitionPhase i n p q g))"
proof (cases "fst (tryTransitionPhase i n p q g)")
  case False
  then show ?thesis using ok by (simp add: transition_fails)
next
  case True
  let ?g = "snd (tryTransitionPhase i n p q g)"
  have source: "\<exists>d. get_candidate j g = Some d \<and> c = (if j = i then d\<lparr>cd_phase := q\<rparr> else d)"
    if "get_candidate j ?g = Some c" for j c
    using that True by (auto simp: registry_simps split: if_splits)
  show ?thesis
  proof (rule registry_okI)
    show "keys_ok (candidates ?g)" "keys_ok (generations ?g)"
      using registry_ok_keys [OF ok] by (auto simp: tryTransitionPhase_def split: option.splits)
  next
    fix j c assume "get_candidate j ?g = Some c"
    then obtain d where d: "get_candidate j g = Some d" "c = (if j = i then d\<lparr>cd_phase := q\<rparr> else d)"
      using source by blast
    from registry_ok_candidate [OF ok d(1)] d(2) show "candidate_ok ?g j c"
      by (cases d) (auto simp: candidate_ok_def candidate_of_def registry_simps)
  next
    fix j m assume "latestGeneration j ?g = Some m"
    then show "m \<le> generationCounter ?g" using latest_le [OF ok, of j m] by (simp add: registry_simps)
  next
    fix j k c d assume a: "get_candidate j ?g = Some c" "get_candidate k ?g = Some d" "cd_generation c = cd_generation d"
    from source [OF a(1)] source [OF a(2)] a(3) obtain c' d' where "get_candidate j g = Some c'"
      "get_candidate k g = Some d'" "cd_generation c' = cd_generation d'" by (auto split: if_splits)
    then show "j = k" using generations_unique [OF ok] by blast
  qed
qed

text \<open>\<open>rebuild\<close> is a fold of \<open>upsert\<close> over an emptied registry.\<close>

definition emptied :: "candidate_registry \<Rightarrow> candidate_registry" where
  "emptied g = \<lparr>candidates = [],
     generations = fold (\<lambda>i m. map_set i (generationCounter g + 1) m) (map fst (candidates g)) (generations g),
     generationCounter = generationCounter g + 1\<rparr>"

lemma rebuild_fold: "rebuild rs g = fold (\<lambda>r h. snd (upsert r Waiting h)) rs (emptied g)"
  by (cases g) (simp add: rebuild_def issueGeneration_def Let_def emptied_def)

lemma fold_set_keys: "keys_ok m \<Longrightarrow> keys_ok (fold (\<lambda>i m. map_set i n m) is m)"
  by (induction "is" arbitrary: m) simp_all

lemma fold_set_get: "map_of (fold (\<lambda>i m. map_set i n m) is m) j = (if j \<in> set is then Some n else map_of m j)"
  by (induction "is" arbitrary: m) simp_all

lemma emptied_simps [simp, registry_simps]:
  "get_candidate i (emptied g) = None" "generationCounter (emptied g) = generationCounter g + 1"
  by (simp_all add: emptied_def get_candidate_def)

lemma emptied_ok [intro]:
  assumes ok: "registry_ok g"
  shows "registry_ok (emptied g)"
proof (rule registry_okI)
  show "keys_ok (candidates (emptied g))" by (simp add: emptied_def)
  show "keys_ok (generations (emptied g))" using registry_ok_keys(2) [OF ok] by (simp add: emptied_def fold_set_keys)
next
  fix i n assume "latestGeneration i (emptied g) = Some n"
  then show "n \<le> generationCounter (emptied g)"
    using latest_le [OF ok, of i n]
    by (simp add: emptied_def latestGeneration_def fold_set_get split: if_splits)
qed simp_all

lemma fold_upsert_ok: "registry_ok g \<Longrightarrow> registry_ok (fold (\<lambda>r h. snd (upsert r p h)) rs g)"
  by (induction rs arbitrary: g) (simp_all add: upsert_ok)

lemma rebuild_ok [intro]: "registry_ok g \<Longrightarrow> registry_ok (rebuild rs g)"
  by (simp add: rebuild_fold fold_upsert_ok emptied_ok)

lemma removeIfCurrent_cases:
  "snd (removeIfCurrent i n g) = (if isCurrent i n g then snd (remove_candidate i g) else g)"
  by (simp add: removeIfCurrent_def)

lemma registry_step_ok: "registry_step g g' \<Longrightarrow> registry_ok g \<Longrightarrow> registry_ok g'"
  by (erule registry_step.cases) (auto simp: removeIfCurrent_cases)

subsection \<open>Generations\<close>

definition current_generation :: "candidate_registry \<Rightarrow> int \<Rightarrow> int option" where
  "current_generation g i = map_option cd_generation (get_candidate i g)"

lemma fold_upsert_counter: "generationCounter g \<le> generationCounter (fold (\<lambda>r h. snd (upsert r p h)) rs g)"
proof (induction rs arbitrary: g)
  case (Cons r rs)
  from Cons [of "snd (upsert r p g)"] show ?case by (simp add: registry_simps)
qed simp

lemma upsert_fresh:
  "current_generation (snd (upsert r p g)) i = Some n \<Longrightarrow>
     current_generation g i = Some n \<or> generationCounter g < n"
  by (auto simp: current_generation_def registry_simps split: if_splits)

lemma fold_upsert_fresh:
  "current_generation (fold (\<lambda>r h. snd (upsert r p h)) rs g) i = Some n \<Longrightarrow>
     current_generation g i = Some n \<or> generationCounter g < n"
proof (induction rs arbitrary: g)
  case (Cons r rs)
  then have "current_generation (snd (upsert r p g)) i = Some n \<or> generationCounter (snd (upsert r p g)) < n" by simp
  then show ?case using upsert_fresh [of r p g i n] by (auto simp: registry_simps)
qed simp

lemma registry_step_counter: "registry_step g g' \<Longrightarrow> generationCounter g \<le> generationCounter g'"
proof (induction rule: registry_step.induct)
  case (rebuild g rs)
  then show ?case using fold_upsert_counter [of "emptied g" Waiting rs] by (simp add: rebuild_fold)
qed (simp_all add: registry_simps removeIfCurrent_cases)

lemma registry_step_fresh:
  "registry_step g g' \<Longrightarrow> current_generation g' i = Some n \<Longrightarrow>
     current_generation g i = Some n \<or> generationCounter g < n"
proof (induction rule: registry_step.induct)
  case (upsert g r p)
  then show ?case by (rule upsert_fresh)
next
  case (rebuild g rs)
  then have "current_generation (emptied g) i = Some n \<or> generationCounter (emptied g) < n"
    unfolding rebuild_fold by (rule fold_upsert_fresh)
  then show ?case by (simp add: current_generation_def)
qed (auto simp: current_generation_def registry_simps removeIfCurrent_cases option.map_comp comp_def split: if_splits)

interpretation generation: fresh_handles registry_ok registry_step current_generation generationCounter
proof
  fix s s' :: candidate_registry and k :: int and h :: int
  show "registry_ok s \<Longrightarrow> registry_step s s' \<Longrightarrow> registry_ok s'" by (blast intro: registry_step_ok)
  show "registry_step s s' \<Longrightarrow> generationCounter s \<le> generationCounter s'" by (rule registry_step_counter)
  show "registry_ok s \<Longrightarrow> current_generation s k = Some h \<Longrightarrow> h \<le> generationCounter s"
    by (auto simp: current_generation_def dest: candidate_generation_le)
  show "registry_step s s' \<Longrightarrow> current_generation s' k = Some h \<Longrightarrow>
      current_generation s k = Some h \<or> generationCounter s < h" by (rule registry_step_fresh)
qed

lemma not_current: "\<not> isCurrent i n g \<Longrightarrow>
    tryTransitionPhase i n p q g = (False, g) \<and> removeIfCurrent i n g = (False, g)"
  by (auto simp: isCurrent_def tryTransitionPhase_def removeIfCurrent_def split: option.splits)

text \<open>
  A holder of a generation that has been replaced can no longer change its reservation: whatever
  happens to the registry afterwards, the generation is never current again, and the conditional
  transition and removal with it fail and leave the registry as it is.
\<close>

theorem stale_generation_rejected:
  assumes "registry_ok g" "n \<le> generationCounter g" "\<not> isCurrent i n g" "registry_step\<^sup>*\<^sup>* g h"
  shows "\<not> isCurrent i n h \<and> tryTransitionPhase i n p q h = (False, h) \<and> removeIfCurrent i n h = (False, h)"
proof -
  have "current_generation g i \<noteq> Some n" using assms(3) by (simp add: isCurrent_def current_generation_def)
  then have "current_generation h i \<noteq> Some n"
    using generation.replaced_stays_replaced [OF assms(1,4)] assms(2) by blast
  then have "\<not> isCurrent i n h" by (simp add: isCurrent_def current_generation_def)
  then show ?thesis using not_current by blast
qed

text \<open>A candidate of generation 1 is overwritten and removed.\<close>

definition demo_row :: reserve where
  "demo_row = new_reserve\<lparr>reserveId := Some 7, startAt := 100000, endAt := 200000\<rparr>"

definition demo_registry :: candidate_registry where
  "demo_registry = snd (upsert demo_row Waiting (snd (upsert demo_row Waiting new_registry)))"

theorem stale_generation_rejected_witness:
  "\<not> isCurrent 7 1 (snd (remove_candidate 7 demo_registry)) \<and>
   tryTransitionPhase 7 1 Waiting Preparing (snd (remove_candidate 7 demo_registry)) =
     (False, snd (remove_candidate 7 demo_registry)) \<and>
   removeIfCurrent 7 1 (snd (remove_candidate 7 demo_registry)) = (False, snd (remove_candidate 7 demo_registry))"
proof (rule stale_generation_rejected)
  show "registry_ok demo_registry" by (simp add: demo_registry_def upsert_ok)
  show "1 \<le> generationCounter demo_registry" by code_simp
  show "\<not> isCurrent 7 1 demo_registry" by code_simp
  show "registry_step\<^sup>*\<^sup>* demo_registry (snd (remove_candidate 7 demo_registry))"
    by (rule r_into_rtranclp) (rule registry_step.remove)
qed

subsection \<open>The reservations behind the candidates\<close>

text \<open>What the registry promises to its clients: a partial map from reservations to rows, in which a
  change writes the row unless it is skipped or an overlap.\<close>

definition registry_abs :: "candidate_registry \<Rightarrow> int \<Rightarrow> reserve option" where
  "registry_abs g i = map_option cd_reservation (get_candidate i g)"

definition put_row :: "reserve \<Rightarrow> (int \<Rightarrow> reserve option) \<Rightarrow> int \<Rightarrow> reserve option" where
  "put_row r m = m(reservation_id r := if isSkip r \<or> isOverlap r then None else Some r)"

lemma abs_upsert: "registry_abs (snd (upsert r p g)) = put_row r (registry_abs g)"
  by (rule ext) (simp add: registry_abs_def put_row_def registry_simps)

lemma abs_remove: "registry_abs (snd (remove_candidate i g)) = (registry_abs g)(i := None)"
  by (rule ext) (simp add: registry_abs_def registry_simps)

lemma abs_transition: "registry_abs (snd (tryTransitionPhase i n p q g)) = registry_abs g"
  by (rule ext) (simp add: registry_abs_def registry_simps option.map_comp comp_def)

lemma abs_fold_upsert: "registry_abs (fold (\<lambda>r h. snd (upsert r p h)) rs g) = fold put_row rs (registry_abs g)"
  by (induction rs arbitrary: g) (simp_all add: abs_upsert)

text \<open>
  C14. The registry implements a partial map from reservation ids to rows: an upsert writes the row,
  or erases it when it is skipped or an overlap, a removal erases it, a rebuild replays the given
  rows over the empty map with the last row of an id winning, and a change of phase leaves the map
  as it is.
\<close>

theorem registry_refines_map:
  "registry_abs new_registry = Map.empty \<and>
   registry_abs (snd (upsert r p g)) = put_row r (registry_abs g) \<and>
   registry_abs (snd (remove_candidate i g)) = (registry_abs g)(i := None) \<and>
   registry_abs (rebuild rs g) = fold put_row rs Map.empty \<and>
   registry_abs (snd (tryTransitionPhase i n p q g)) = registry_abs g"
proof -
  have "registry_abs (emptied g) = Map.empty" "registry_abs new_registry = Map.empty"
    by (rule ext, simp add: registry_abs_def new_registry_def get_candidate_def emptied_def)+
  then show ?thesis by (simp add: abs_upsert abs_remove abs_transition rebuild_fold abs_fold_upsert)
qed

end
