(* ===== verification/Schedule_Control.thy ===== *)
theory Schedule_Control
  imports Candidate_Registry
begin

text \<open>
  \<open>RecordingScheduleController\<close>
  (\<open>src/src/model/operator/recording/RecordingScheduleController.ts\<close>): the scheduler with one
  timer that turns changes of the reservations into candidates, starts their preparation at
  \<open>prepareAt\<close> and ends time-specified recordings. Every public method is a definition; the
  callbacks it is constructed with by \<open>RecordingManageModel\<close> only append to that model's chain
  of promises, so \<open>launch\<close> records the dispatch and none of them re-enters the controller.
  The scheduler of the platform is the list of pending timeouts and the queue of microtasks, and
  \<open>clk n\<close> is what the n-th reading of the clock returns. The companion theory
  \<open>Schedule_Laws\<close> holds the invariants and the properties.
\<close>

subsection \<open>Data\<close>

definition SCAN_INTERVAL_MS :: int where
  "SCAN_INTERVAL_MS = 3000"

record recording_session =
  se_reservationId :: int
  se_generation :: int
  se_sessionToken :: int
  se_phase :: recording_phase

record time_end =
  te_reservationId :: int
  te_generation :: int
  te_sessionToken :: int
  te_dueAt :: int

datatype mutation_action = InsertAction | UpdateAction | RemoveAction

record mutation_dispatch =
  md_action :: mutation_action
  md_reservationId :: int
  md_reservation :: reserve
  md_candidate :: "recording_candidate option"
  md_generation :: int
  md_sessionToken :: "int option"
  md_phase :: "recording_phase option"
  md_previousGeneration :: "int option"
  md_previousSessionToken :: "int option"
  md_previousPhase :: "recording_phase option"
  md_isSuppressLog :: bool

datatype dispatch = Mutation mutation_dispatch | Preparation recording_candidate int int | Reset | TimeEnd time_end

definition active_end_phases :: "recording_phase list" where
  "active_end_phases = [Recording, PathSelectionOverdue, AwaitingFirstData, Registering, RegistrationOverdue]"

record schedule =
  registry :: candidate_registry
  timeSpecifiedEnds :: "(int, time_end) jsmap"
  sessions :: "(int, recording_session) jsmap"
  queuedMutations :: "update_values list"
  idleWaiters :: "nat list"
  armedWake :: "int option"
  controllerTokenCounter :: int
  sessionTokenCounter :: int
  currentControllerToken :: int
  evaluationRunning :: bool
  microtaskScheduled :: bool
  rerunRequested :: bool
  resetRequested :: bool
  started :: bool
  timers :: "(int \<times> int) list"
  microtasks :: "int list"
  launched :: "dispatch list"
  resolvedWaiters :: "nat list"
  reported :: nat
  reads :: nat

definition new_schedule :: schedule where
  "new_schedule = \<lparr>registry = new_registry, timeSpecifiedEnds = [], sessions = [], queuedMutations = [],
     idleWaiters = [], armedWake = None, controllerTokenCounter = 0, sessionTokenCounter = 0,
     currentControllerToken = 0, evaluationRunning = False, microtaskScheduled = False,
     rerunRequested = False, resetRequested = False, started = False, timers = [], microtasks = [],
     launched = [], resolvedWaiters = [], reported = 0, reads = 0\<rparr>"

type_synonym clock = "nat \<Rightarrow> int"

subsection \<open>Deadlines\<close>

definition computeNextDelay :: "int \<Rightarrow> int list \<Rightarrow> int" where
  "computeNextDelay now deadlines =
     (let earliest = fold (\<lambda>d e. case e of None \<Rightarrow> Some d | Some x \<Rightarrow> Some (min x d)) deadlines None;
          untilEarliest = (case earliest of None \<Rightarrow> SCAN_INTERVAL_MS | Some x \<Rightarrow> max 0 (x - now))
      in min SCAN_INTERVAL_MS untilEarliest)"

definition now_of :: "clock \<Rightarrow> schedule \<Rightarrow> int \<times> schedule" where
  "now_of clk s = (clk (reads s), s\<lparr>reads := Suc (reads s)\<rparr>)"

definition isActiveTimeSpecifiedMilestone :: "recording_candidate \<Rightarrow> time_end \<Rightarrow> bool" where
  "isActiveTimeSpecifiedMilestone c m \<longleftrightarrow> cd_generation c = te_generation m \<and> cd_kind c = TimeSpecified \<and>
     cd_phase c \<in> set active_end_phases"

subsection \<open>Sessions\<close>

definition issueControllerToken :: "schedule \<Rightarrow> int \<times> schedule" where
  "issueControllerToken s = (let n = controllerTokenCounter s + 1 in (n, s\<lparr>controllerTokenCounter := n\<rparr>))"

definition issueSessionToken :: "schedule \<Rightarrow> int \<times> schedule" where
  "issueSessionToken s = (let n = sessionTokenCounter s + 1 in (n, s\<lparr>sessionTokenCounter := n\<rparr>))"

definition create_session :: "recording_candidate \<Rightarrow> schedule \<Rightarrow> recording_session \<times> schedule" where
  "create_session c s =
     (let (token, s1) = issueSessionToken s;
          created = \<lparr>se_reservationId = cd_reservationId c, se_generation = cd_generation c,
                     se_sessionToken = token, se_phase = cd_phase c\<rparr>
      in (created, s1\<lparr>sessions := map_set (cd_reservationId c) created (sessions s1)\<rparr>))"

definition ensureSession :: "recording_candidate \<Rightarrow> schedule \<Rightarrow> recording_session \<times> schedule" where
  "ensureSession c s =
     (case map_of (sessions s) (cd_reservationId c) of
        Some current \<Rightarrow> if se_generation current = cd_generation c then (current, s) else create_session c s
      | None \<Rightarrow> create_session c s)"

definition getSessionSnapshot :: "int \<Rightarrow> schedule \<Rightarrow> recording_session option \<times> schedule" where
  "getSessionSnapshot i s =
     (case get_candidate i (registry s) of
        None \<Rightarrow> (None, s)
      | Some c \<Rightarrow> let (session, s1) = ensureSession c s in (Some session, s1))"

definition tryTransitionSession :: "int \<Rightarrow> int \<Rightarrow> int \<Rightarrow> recording_phase \<Rightarrow> recording_phase \<Rightarrow> schedule \<Rightarrow>
    bool \<times> schedule" where
  "tryTransitionSession i expectedGeneration expectedSessionToken expectedPhase nextPhase s =
     (case get_candidate i (registry s) of
        None \<Rightarrow> (False, s)
      | Some c \<Rightarrow>
          let (session, s1) = ensureSession c s
          in if se_sessionToken session \<noteq> expectedSessionToken then (False, s1)
             else let (moved, g) = tryTransitionPhase i expectedGeneration expectedPhase nextPhase (registry s1)
                  in if \<not> moved then (False, s1)
                     else let s2 = s1\<lparr>registry := g, sessions := map_set i (session\<lparr>se_phase := nextPhase\<rparr>) (sessions s1)\<rparr>
                          in (True, if nextPhase = Completed \<or> nextPhase = Cancelled
                                    then s2\<lparr>timeSpecifiedEnds := map_delete i (timeSpecifiedEnds s2)\<rparr> else s2))"

subsection \<open>Waking up\<close>

definition hasQueuedWork :: "schedule \<Rightarrow> bool" where
  "hasQueuedWork s \<longleftrightarrow> queuedMutations s \<noteq> [] \<or> resetRequested s"

definition isIdle :: "schedule \<Rightarrow> bool" where
  "isIdle s \<longleftrightarrow> \<not> evaluationRunning s \<and> \<not> microtaskScheduled s \<and> \<not> hasQueuedWork s"

definition resolveIdleWaiters :: "schedule \<Rightarrow> schedule" where
  "resolveIdleWaiters s =
     (if \<not> isIdle s then s
      else s\<lparr>idleWaiters := [], resolvedWaiters := resolvedWaiters s @ idleWaiters s\<rparr>)"

text \<open>\<open>armedWake.cancel()\<close> takes the timeout off the platform's list.\<close>

definition cancel_timer :: "schedule \<Rightarrow> schedule" where
  "cancel_timer s =
     (case armedWake s of
        None \<Rightarrow> s
      | Some t \<Rightarrow> s\<lparr>timers := filter (\<lambda>p. fst p \<noteq> t) (timers s), armedWake := None\<rparr>)"

definition invalidateScheduledWake :: "schedule \<Rightarrow> schedule" where
  "invalidateScheduledWake s =
     (let (token, s1) = issueControllerToken s
      in (cancel_timer (s1\<lparr>currentControllerToken := token\<rparr>))\<lparr>microtaskScheduled := False\<rparr>)"

definition cancelArmedWake :: "schedule \<Rightarrow> schedule" where
  "cancelArmedWake s =
     (if armedWake s = None then s
      else let (token, s1) = issueControllerToken s in cancel_timer (s1\<lparr>currentControllerToken := token\<rparr>))"

definition scheduleMicrotaskWake :: "schedule \<Rightarrow> schedule" where
  "scheduleMicrotaskWake s =
     (if microtaskScheduled s then s
      else let (token, s1) = issueControllerToken s
           in s1\<lparr>currentControllerToken := token, microtaskScheduled := True, microtasks := microtasks s1 @ [token]\<rparr>)"

definition requestCoalescedEvaluation :: "schedule \<Rightarrow> schedule" where
  "requestCoalescedEvaluation s =
     (if \<not> started s then s
      else if evaluationRunning s then s\<lparr>rerunRequested := True\<rparr>
      else if microtaskScheduled s then s
      else scheduleMicrotaskWake (cancelArmedWake s))"

text \<open>The milestones that are no longer active are dropped on the way.\<close>

fun milestone_deadlines :: "(int \<times> time_end) list \<Rightarrow> schedule \<Rightarrow> int list \<times> schedule" where
  "milestone_deadlines [] s = ([], s)"
| "milestone_deadlines ((i, m) # ms) s =
     (case get_candidate (te_reservationId m) (registry s) of
        Some c \<Rightarrow>
          if isActiveTimeSpecifiedMilestone c m
          then let (ds, s1) = milestone_deadlines ms s in (te_dueAt m # ds, s1)
          else milestone_deadlines ms (s\<lparr>timeSpecifiedEnds := map_delete (te_reservationId m) (timeSpecifiedEnds s)\<rparr>)
      | None \<Rightarrow>
          milestone_deadlines ms (s\<lparr>timeSpecifiedEnds := map_delete (te_reservationId m) (timeSpecifiedEnds s)\<rparr>))"

definition schedulerOwnedDeadlines :: "schedule \<Rightarrow> int list \<times> schedule" where
  "schedulerOwnedDeadlines s =
     (let waiting = map cd_prepareAt (filter (\<lambda>c. cd_phase c = Waiting) (list_candidates (registry s)));
          (ends, s1) = milestone_deadlines (timeSpecifiedEnds s) s
      in (waiting @ ends, s1))"

definition armSingleWake :: "clock \<Rightarrow> schedule \<Rightarrow> schedule" where
  "armSingleWake clk s =
     (let (now, s1) = now_of clk s;
          (deadlines, s2) = schedulerOwnedDeadlines s1;
          delay = computeNextDelay now deadlines
      in if delay = 0 then scheduleMicrotaskWake s2
         else let (token, s3) = issueControllerToken s2
              in s3\<lparr>currentControllerToken := token, timers := timers s3 @ [(token, delay)], armedWake := Some token\<rparr>)"

subsection \<open>The queue\<close>

definition launch :: "dispatch \<Rightarrow> schedule \<Rightarrow> schedule" where
  "launch d s = s\<lparr>launched := launched s @ [d]\<rparr>"

text \<open>\<open>previousSession\<close> of the next two operations is what \<open>getSessionSnapshot\<close> returns.\<close>

definition applyUpsert :: "bool \<Rightarrow> bool \<Rightarrow> reserve \<Rightarrow> schedule \<Rightarrow> schedule" where
  "applyUpsert isUpdate suppress r s =
     (let (previous, s1) = getSessionSnapshot (reservation_id r) s;
          preserve = (isUpdate \<and> previous \<noteq> None);
          phase = (case previous of Some x \<Rightarrow> if isUpdate then se_phase x else Waiting | None \<Rightarrow> Waiting);
          (candidate, g) = upsert r phase (registry s1);
          s2 = s1\<lparr>registry := g, timeSpecifiedEnds := map_delete (reservation_id r) (timeSpecifiedEnds s1)\<rparr>
      in case candidate of
           None \<Rightarrow>
             (let s3 = s2\<lparr>sessions := map_delete (reservation_id r) (sessions s2)\<rparr>
              in if previous = None then s3
                 else launch (Mutation \<lparr>md_action = RemoveAction, md_reservationId = reservation_id r, md_reservation = r,
                        md_candidate = None, md_generation = the (latestGeneration (reservation_id r) g),
                        md_sessionToken = None, md_phase = None,
                        md_previousGeneration = map_option se_generation previous,
                        md_previousSessionToken = map_option se_sessionToken previous,
                        md_previousPhase = map_option se_phase previous, md_isSuppressLog = suppress\<rparr>) s3)
         | Some c \<Rightarrow>
             (let (token, s3) = (case previous of
                     Some x \<Rightarrow> if isUpdate then (se_sessionToken x, s2) else issueSessionToken s2
                   | None \<Rightarrow> issueSessionToken s2);
                  session = \<lparr>se_reservationId = cd_reservationId c, se_generation = cd_generation c,
                             se_sessionToken = token, se_phase = cd_phase c\<rparr>
              in launch (Mutation \<lparr>md_action = (if preserve then UpdateAction else InsertAction),
                     md_reservationId = cd_reservationId c, md_reservation = cd_reservation c,
                     md_candidate = Some c, md_generation = cd_generation c,
                     md_sessionToken = Some token, md_phase = Some (cd_phase c),
                     md_previousGeneration = map_option se_generation previous,
                     md_previousSessionToken = map_option se_sessionToken previous,
                     md_previousPhase = map_option se_phase previous, md_isSuppressLog = suppress\<rparr>)
                   (s3\<lparr>sessions := map_set (cd_reservationId c) session (sessions s3)\<rparr>)))"

definition applyRemove :: "bool \<Rightarrow> reserve \<Rightarrow> schedule \<Rightarrow> schedule" where
  "applyRemove suppress r s =
     (let (previous, s1) = getSessionSnapshot (reservation_id r) s;
          (generation, g) = remove_candidate (reservation_id r) (registry s1);
          s2 = s1\<lparr>registry := g, sessions := map_delete (reservation_id r) (sessions s1),
                  timeSpecifiedEnds := map_delete (reservation_id r) (timeSpecifiedEnds s1)\<rparr>
      in launch (Mutation \<lparr>md_action = RemoveAction, md_reservationId = reservation_id r, md_reservation = r,
             md_candidate = None, md_generation = generation, md_sessionToken = None, md_phase = None,
             md_previousGeneration = map_option se_generation previous,
             md_previousSessionToken = map_option se_sessionToken previous,
             md_previousPhase = map_option se_phase previous, md_isSuppressLog = suppress\<rparr>) s2)"

definition apply_mutation :: "update_values \<Rightarrow> schedule \<Rightarrow> schedule" where
  "apply_mutation m s =
     fold (applyRemove (isSuppressLog m)) (uv_delete m)
       (fold (applyUpsert True (isSuppressLog m)) (uv_update m)
         (fold (applyUpsert False (isSuppressLog m)) (uv_insert m) s))"

definition applyQueuedWork :: "schedule \<Rightarrow> schedule" where
  "applyQueuedWork s =
     (let s1 = fold apply_mutation (queuedMutations s) (s\<lparr>queuedMutations := [], resetRequested := False\<rparr>)
      in if resetRequested s then launch Reset s1 else s1)"

subsection \<open>The evaluation\<close>

definition prepare_one :: "clock \<Rightarrow> recording_candidate \<Rightarrow> schedule \<Rightarrow> schedule" where
  "prepare_one clk current s =
     (let (now, s1) = now_of clk s
      in if cd_phase current \<noteq> Waiting then s1
         else let (session, s2) = ensureSession current s1
              in if cd_endAt current \<le> now
                 then snd (tryTransitionSession (cd_reservationId current) (cd_generation current)
                             (se_sessionToken session) Waiting Completed s2)
                 else if now < cd_prepareAt current then s2
                 else let (moved, s3) = tryTransitionSession (cd_reservationId current) (cd_generation current)
                             (se_sessionToken session) Waiting Preparing s2
                      in if \<not> moved then s3
                         else launch (Preparation (the (get_candidate (cd_reservationId current) (registry s3)))
                                (cd_generation current) (se_sessionToken session)) s3)"

fun prepare_all :: "clock \<Rightarrow> recording_candidate list \<Rightarrow> schedule \<Rightarrow> schedule" where
  "prepare_all clk [] s = s"
| "prepare_all clk (c # cs) s =
     (if \<not> started s \<or> hasQueuedWork s then s else prepare_all clk cs (prepare_one clk c s))"

definition dispatchDuePreparations :: "clock \<Rightarrow> schedule \<Rightarrow> schedule" where
  "dispatchDuePreparations clk s = prepare_all clk (list_candidates (registry s)) s"

definition end_one :: "clock \<Rightarrow> time_end \<Rightarrow> schedule \<Rightarrow> schedule" where
  "end_one clk observed s =
     (case get_candidate (te_reservationId observed) (registry s) of
        None \<Rightarrow> s
      | Some c \<Rightarrow>
          let (session, s1) = ensureSession c s
          in if \<not> isActiveTimeSpecifiedMilestone c observed
             then s1\<lparr>timeSpecifiedEnds := map_delete (te_reservationId observed) (timeSpecifiedEnds s1)\<rparr>
             else let (now, s2) = now_of clk s1
                  in if now < te_dueAt observed then s2
                     else let (moved, s3) = tryTransitionSession (te_reservationId observed) (te_generation observed)
                                (te_sessionToken observed) (se_phase session) Finishing s2
                          in if \<not> moved then s3
                             else launch (TimeEnd observed)
                               (s3\<lparr>timeSpecifiedEnds := map_delete (te_reservationId observed) (timeSpecifiedEnds s3)\<rparr>))"

fun end_all :: "clock \<Rightarrow> time_end list \<Rightarrow> schedule \<Rightarrow> schedule" where
  "end_all clk [] s = s"
| "end_all clk (m # ms) s =
     (if \<not> started s \<or> hasQueuedWork s then s else end_all clk ms (end_one clk m s))"

text \<open>The code iterates over the live map. A pass deletes only the entry it looks at and adds none, so
  the entries it meets are those of the map at the start.\<close>

definition dispatchDueTimeSpecifiedEnds :: "clock \<Rightarrow> schedule \<Rightarrow> schedule" where
  "dispatchDueTimeSpecifiedEnds clk s = end_all clk (map snd (timeSpecifiedEnds s)) s"

text \<open>One round of the loop.\<close>

definition evaluate_round :: "clock \<Rightarrow> schedule \<Rightarrow> schedule" where
  "evaluate_round clk s =
     (let s1 = applyQueuedWork (s\<lparr>rerunRequested := False\<rparr>)
      in if hasQueuedWork s1 then s1\<lparr>rerunRequested := True\<rparr>
         else let s2 = dispatchDuePreparations clk s1
              in if hasQueuedWork s2 then s2\<lparr>rerunRequested := True\<rparr>
                 else dispatchDueTimeSpecifiedEnds clk s2)"

subsection \<open>What a round leaves alone\<close>

text \<open>The fields that only the scheduling operations write.\<close>

definition control :: "schedule \<Rightarrow> _" where
  "control s = ((queuedMutations s, resetRequested s, rerunRequested s, started s, evaluationRunning s),
     (microtaskScheduled s, armedWake s, currentControllerToken s, controllerTokenCounter s),
     (timers s, microtasks s, idleWaiters s, resolvedWaiters s))"

named_theorems control_simps \<open>operations that leave the control fields alone\<close>

lemma control_eqD:
  assumes "control s = control t"
  shows "queuedMutations s = queuedMutations t" "resetRequested s = resetRequested t"
    "rerunRequested s = rerunRequested t" "started s = started t" "evaluationRunning s = evaluationRunning t"
    "microtaskScheduled s = microtaskScheduled t" "armedWake s = armedWake t"
    "currentControllerToken s = currentControllerToken t" "controllerTokenCounter s = controllerTokenCounter t"
    "timers s = timers t" "microtasks s = microtasks t" "idleWaiters s = idleWaiters t"
    "resolvedWaiters s = resolvedWaiters t"
  using assms by (simp_all add: control_def)

lemma control_update [control_simps]:
  "control (s\<lparr>registry := g\<rparr>) = control s" "control (s\<lparr>timeSpecifiedEnds := e\<rparr>) = control s"
  "control (s\<lparr>sessions := ss\<rparr>) = control s" "control (s\<lparr>sessionTokenCounter := n\<rparr>) = control s"
  "control (s\<lparr>launched := l\<rparr>) = control s" "control (s\<lparr>reads := k\<rparr>) = control s"
  "control (s\<lparr>reported := k\<rparr>) = control s"
  by (simp_all add: control_def)

lemma control_launch [control_simps]: "control (launch d s) = control s"
  by (simp add: launch_def control_simps)

lemma control_now [control_simps]: "control (snd (now_of clk s)) = control s"
  by (simp add: now_of_def control_simps)

lemma control_create [control_simps]: "control (snd (create_session c s)) = control s"
  by (simp add: create_session_def issueSessionToken_def Let_def control_simps)

lemma control_ensure [control_simps]: "control (snd (ensureSession c s)) = control s"
  by (simp add: ensureSession_def control_simps split: option.splits)

lemma control_snapshot [control_simps]: "control (snd (getSessionSnapshot i s)) = control s"
  by (simp add: getSessionSnapshot_def control_simps split: option.splits prod.splits)
     (metis control_ensure snd_conv)

lemma control_transition [control_simps]: "control (snd (tryTransitionSession i g t p q s)) = control s"
proof (cases "get_candidate i (registry s)")
  case (Some c)
  obtain x s1 where e: "ensureSession c s = (x, s1)" by (cases "ensureSession c s")
  have "control s1 = control s" using control_ensure [of c s] e by simp
  then show ?thesis using Some e by (simp add: tryTransitionSession_def Let_def control_simps split: prod.splits)
qed (simp add: tryTransitionSession_def)

lemma control_upsert [control_simps]: "control (applyUpsert u b r s) = control s"
proof -
  obtain x s1 where e: "getSessionSnapshot (reservation_id r) s = (x, s1)"
    by (cases "getSessionSnapshot (reservation_id r) s")
  have "control s1 = control s" using control_snapshot [of "reservation_id r" s] e by simp
  then show ?thesis
    by (auto simp: applyUpsert_def e issueSessionToken_def Let_def control_simps split: prod.splits option.splits)
qed

lemma control_remove [control_simps]: "control (applyRemove b r s) = control s"
proof -
  obtain x s1 where e: "getSessionSnapshot (reservation_id r) s = (x, s1)"
    by (cases "getSessionSnapshot (reservation_id r) s")
  have "control s1 = control s" using control_snapshot [of "reservation_id r" s] e by simp
  then show ?thesis by (simp add: applyRemove_def e control_simps split: prod.splits)
qed

lemma fold_control: "(\<And>x s. control (f x s) = control s) \<Longrightarrow> control (fold f xs s) = control s"
  by (induction xs arbitrary: s) simp_all

lemma control_mutation [control_simps]: "control (apply_mutation m s) = control s"
  by (simp add: apply_mutation_def fold_control control_simps)

lemma control_queue: "control (applyQueuedWork s) = control (s\<lparr>queuedMutations := [], resetRequested := False\<rparr>)"
  by (simp add: applyQueuedWork_def Let_def fold_control control_simps)

lemma control_prepare_one [control_simps]: "control (prepare_one clk c s) = control s"
proof -
  obtain n s1 where n: "now_of clk s = (n, s1)" by (cases "now_of clk s")
  obtain x s2 where x: "ensureSession c s1 = (x, s2)" by (cases "ensureSession c s1")
  have c: "control s1 = control s" "control s2 = control s"
    using control_now [of clk s] control_ensure [of c s1] n x by auto
  obtain b s3 where t: "tryTransitionSession (cd_reservationId c) (cd_generation c) (se_sessionToken x) Waiting Preparing s2 = (b, s3)"
    by (cases "tryTransitionSession (cd_reservationId c) (cd_generation c) (se_sessionToken x) Waiting Preparing s2")
  have "control s3 = control s"
    using control_transition [of "cd_reservationId c" "cd_generation c" "se_sessionToken x" Waiting Preparing s2] t c by simp
  with c show ?thesis by (simp add: prepare_one_def n x t control_simps)
qed

lemma control_prepare_all [control_simps]: "control (prepare_all clk cs s) = control s"
  by (induction clk cs s rule: prepare_all.induct) (simp_all add: control_simps)

lemma control_end_one [control_simps]: "control (end_one clk m s) = control s"
proof (cases "get_candidate (te_reservationId m) (registry s)")
  case (Some c)
  obtain x s1 where x: "ensureSession c s = (x, s1)" by (cases "ensureSession c s")
  obtain n s2 where n: "now_of clk s1 = (n, s2)" by (cases "now_of clk s1")
  have c: "control s1 = control s" "control s2 = control s"
    using control_now [of clk s1] control_ensure [of c s] n x by auto
  obtain b s3 where t: "tryTransitionSession (te_reservationId m) (te_generation m) (te_sessionToken m) (se_phase x) Finishing s2 = (b, s3)"
    by (cases "tryTransitionSession (te_reservationId m) (te_generation m) (te_sessionToken m) (se_phase x) Finishing s2")
  have "control s3 = control s"
    using control_transition [of "te_reservationId m" "te_generation m" "te_sessionToken m" "se_phase x" Finishing s2] t c by simp
  with c Some show ?thesis by (simp add: end_one_def n x t control_simps)
qed (simp add: end_one_def)

lemma control_end_all [control_simps]: "control (end_all clk ms s) = control s"
  by (induction clk ms s rule: end_all.induct) (simp_all add: control_simps)

lemma control_round:
  "control (evaluate_round clk s) = control (s\<lparr>queuedMutations := [], resetRequested := False, rerunRequested := False\<rparr>)"
proof -
  let ?t = "s\<lparr>queuedMutations := [], resetRequested := False, rerunRequested := False\<rparr>"
  have 1: "control (applyQueuedWork (s\<lparr>rerunRequested := False\<rparr>)) = control ?t"
    by (subst control_queue) (simp add: control_def)
  then have "\<not> hasQueuedWork (applyQueuedWork (s\<lparr>rerunRequested := False\<rparr>))"
    by (simp add: control_def hasQueuedWork_def)
  moreover have "\<not> hasQueuedWork (dispatchDuePreparations clk (applyQueuedWork (s\<lparr>rerunRequested := False\<rparr>)))"
    using 1 control_prepare_all by (simp add: control_def hasQueuedWork_def dispatchDuePreparations_def)
  ultimately show ?thesis
    using 1 by (simp add: evaluate_round_def Let_def dispatchDueTimeSpecifiedEnds_def dispatchDuePreparations_def control_simps)
qed

text \<open>The loop ends after its first round, because a round empties the queue and nothing a round calls
  fills it again.\<close>

function evaluate_loop :: "clock \<Rightarrow> schedule \<Rightarrow> schedule" where
  "evaluate_loop clk s =
     (let s1 = evaluate_round clk s
      in if started s1 \<and> (rerunRequested s1 \<or> hasQueuedWork s1) then evaluate_loop clk s1 else s1)"
  by pat_completeness auto
termination
proof (relation "measure (\<lambda>(clk, s). 0)", goal_cases)
  case (2 clk s s1)
  then show ?case using control_eqD(1-3) [OF control_round [of clk s]] by (simp add: hasQueuedWork_def)
qed simp

definition evaluate :: "clock \<Rightarrow> schedule \<Rightarrow> schedule" where
  "evaluate clk s =
     (let s1 = (evaluate_loop clk (s\<lparr>evaluationRunning := True\<rparr>))\<lparr>evaluationRunning := False\<rparr>
      in resolveIdleWaiters (if started s1 then armSingleWake clk s1 else s1))"

subsection \<open>The public methods\<close>

definition wake :: "clock \<Rightarrow> schedule \<Rightarrow> schedule" where
  "wake clk s =
     (if \<not> started s then s
      else if evaluationRunning s then s\<lparr>rerunRequested := True\<rparr>
      else evaluate clk (invalidateScheduledWake s))"

definition start :: "clock \<Rightarrow> schedule \<Rightarrow> schedule" where
  "start clk s = (if started s then s else wake clk (s\<lparr>started := True\<rparr>))"

definition stop :: "schedule \<Rightarrow> schedule" where
  "stop s = resolveIdleWaiters (invalidateScheduledWake (s\<lparr>started := False, rerunRequested := False,
     resetRequested := False, queuedMutations := [], timeSpecifiedEnds := [], sessions := []\<rparr>))"

text \<open>A row without an id is refused; the copy carries the three lists and the log flag.\<close>

definition copyMutationRows :: "reserve list \<Rightarrow> reserve list result" where
  "copyMutationRows rs = (if list_all (\<lambda>r. reserveId r \<noteq> None) rs then Inr rs
     else Inl (Thrown ''InvalidRecordingMutationReservation''))"

definition copyMutation :: "update_values \<Rightarrow> update_values result" where
  "copyMutation m =
     (case copyMutationRows (uv_insert m) of Inl e \<Rightarrow> Inl e | Inr ins \<Rightarrow>
       (case copyMutationRows (uv_update m) of Inl e \<Rightarrow> Inl e | Inr upd \<Rightarrow>
         (case copyMutationRows (uv_delete m) of Inl e \<Rightarrow> Inl e | Inr del \<Rightarrow>
           Inr \<lparr>uv_insert = ins, uv_update = upd, uv_delete = del, isSuppressLog = isSuppressLog m,
                isStartupRebuild = False\<rparr>)))"

definition acceptMutation :: "update_values \<Rightarrow> schedule \<Rightarrow> schedule" where
  "acceptMutation m s =
     (case copyMutation m of
        Inl e \<Rightarrow> s\<lparr>reported := Suc (reported s)\<rparr>
      | Inr copy \<Rightarrow> requestCoalescedEvaluation (s\<lparr>queuedMutations := queuedMutations s @ [copy]\<rparr>))"

definition requestReset :: "schedule \<Rightarrow> schedule" where
  "requestReset s = requestCoalescedEvaluation (s\<lparr>resetRequested := True\<rparr>)"

text \<open>A caller is named by a number; it is resolved at once or waits.\<close>

definition whenIdle :: "nat \<Rightarrow> schedule \<Rightarrow> schedule" where
  "whenIdle w s = (if isIdle s then s\<lparr>resolvedWaiters := resolvedWaiters s @ [w]\<rparr>
     else s\<lparr>idleWaiters := idleWaiters s @ [w]\<rparr>)"

definition registerTimeSpecifiedEnd :: "clock \<Rightarrow> int \<Rightarrow> int \<Rightarrow> int option \<Rightarrow> int \<Rightarrow> schedule \<Rightarrow> schedule" where
  "registerTimeSpecifiedEnd clk i generation token dueAt s =
     (case get_candidate i (registry s) of
        None \<Rightarrow> s
      | Some c \<Rightarrow>
          let (session, s1) = ensureSession c s
          in if token \<noteq> None \<and> token \<noteq> Some (se_sessionToken session) then s1
             else let registered = \<lparr>te_reservationId = i, te_generation = generation,
                        te_sessionToken = se_sessionToken session, te_dueAt = dueAt\<rparr>
                  in if \<not> isActiveTimeSpecifiedMilestone c registered then s1
                     else wake clk (s1\<lparr>timeSpecifiedEnds := map_set i registered (timeSpecifiedEnds s1)\<rparr>))"

definition removeTimeSpecifiedEnd :: "clock \<Rightarrow> int \<Rightarrow> int option \<Rightarrow> int option \<Rightarrow> schedule \<Rightarrow> schedule" where
  "removeTimeSpecifiedEnd clk i expectedGeneration expectedSessionToken s =
     (case map_of (timeSpecifiedEnds s) i of
        None \<Rightarrow> s
      | Some m \<Rightarrow>
          if expectedGeneration \<noteq> None \<and> expectedGeneration \<noteq> Some (te_generation m) then s
          else if expectedSessionToken \<noteq> None \<and> expectedSessionToken \<noteq> Some (te_sessionToken m) then s
          else wake clk (s\<lparr>timeSpecifiedEnds := map_delete i (timeSpecifiedEnds s)\<rparr>))"

subsection \<open>The callbacks of the platform\<close>

definition timer_fires :: "clock \<Rightarrow> int \<Rightarrow> schedule \<Rightarrow> schedule" where
  "timer_fires clk token s =
     (let s1 = s\<lparr>timers := filter (\<lambda>p. fst p \<noteq> token) (timers s)\<rparr>
      in if \<not> started s1 \<or> token \<noteq> currentControllerToken s1 then s1
         else evaluate clk (s1\<lparr>armedWake := None\<rparr>))"

definition microtask_runs :: "clock \<Rightarrow> schedule \<Rightarrow> schedule" where
  "microtask_runs clk s =
     (case microtasks s of
        [] \<Rightarrow> s
      | token # rest \<Rightarrow>
          let s1 = s\<lparr>microtasks := rest\<rparr>
          in if \<not> started s1 \<or> token \<noteq> currentControllerToken s1 then s1
             else evaluate clk (s1\<lparr>microtaskScheduled := False\<rparr>))"

text \<open>The steps of the controller: its public methods, the callbacks of the platform, and the two
  operations \<open>RecordingManageModel\<close> performs on the registry directly. \<open>requeue\<close> says
  whether a client may put a session back to \<open>Waiting\<close>, as \<open>requeueAfterReschedule\<close> does.\<close>

inductive schedule_step :: "clock \<Rightarrow> bool \<Rightarrow> schedule \<Rightarrow> schedule \<Rightarrow> bool" for clk requeue where
  start: "schedule_step clk requeue s (start clk s)"
| stop: "schedule_step clk requeue s (stop s)"
| accept: "schedule_step clk requeue s (acceptMutation m s)"
| reset: "schedule_step clk requeue s (requestReset s)"
| idle: "schedule_step clk requeue s (whenIdle w s)"
| wake: "schedule_step clk requeue s (wake clk s)"
| snapshot: "schedule_step clk requeue s (snd (getSessionSnapshot i s))"
| transition: "q \<noteq> Waiting \<or> requeue \<Longrightarrow> schedule_step clk requeue s (snd (tryTransitionSession i g t p q s))"
| register: "schedule_step clk requeue s (registerTimeSpecifiedEnd clk i g t d s)"
| unregister: "schedule_step clk requeue s (removeTimeSpecifiedEnd clk i eg et s)"
| timer: "(token, d) \<in> set (timers s) \<Longrightarrow> schedule_step clk requeue s (timer_fires clk token s)"
| microtask: "microtasks s \<noteq> [] \<Longrightarrow> schedule_step clk requeue s (microtask_runs clk s)"
| rebuild: "schedule_step clk requeue s (s\<lparr>registry := rebuild rs (registry s)\<rparr>)"
| remove: "schedule_step clk requeue s (s\<lparr>registry := snd (remove_candidate i (registry s))\<rparr>)"

end
