(* ===== verification/Schedule_Laws.thy ===== *)
theory Schedule_Laws
  imports Schedule_Control
begin

text \<open>
  The properties of the recording scheduler of \<open>Schedule_Control\<close>. The first part is the
  invariant of the candidates, sessions and milestones; the second the invariant of the wake-ups,
  which says that a running controller always has exactly one wake-up pending; the last part holds
  the properties.
\<close>

subsection \<open>The invariant of the data\<close>

definition session_ok :: "candidate_registry \<Rightarrow> int \<Rightarrow> int \<Rightarrow> recording_session \<Rightarrow> bool" where
  "session_ok g n i x \<longleftrightarrow> se_reservationId x = i \<and> se_sessionToken x \<le> n \<and>
     se_generation x \<le> generationCounter g \<and>
     (\<forall>c. get_candidate i g = Some c \<longrightarrow> cd_generation c = se_generation x \<longrightarrow> cd_phase c = se_phase x)"

definition end_ok :: "candidate_registry \<Rightarrow> (int, recording_session) jsmap \<Rightarrow> int \<Rightarrow> time_end \<Rightarrow> bool" where
  "end_ok g ss i m \<longleftrightarrow> te_reservationId m = i \<and> te_generation m \<le> generationCounter g \<and>
     (\<forall>c. get_candidate i g = Some c \<longrightarrow> cd_generation c = te_generation m \<longrightarrow>
        (\<exists>x. map_of ss i = Some x \<and> se_generation x = te_generation m \<and> se_sessionToken x = te_sessionToken m))"

definition data_ok :: "candidate_registry \<Rightarrow> (int, recording_session) jsmap \<Rightarrow> (int, time_end) jsmap \<Rightarrow> int \<Rightarrow> bool" where
  "data_ok g ss es n \<longleftrightarrow> registry_ok g \<and> keys_ok ss \<and> keys_ok es \<and>
     (\<forall>i x. map_of ss i = Some x \<longrightarrow> session_ok g n i x) \<and>
     (\<forall>i m. map_of es i = Some m \<longrightarrow> end_ok g ss i m) \<and>
     (\<forall>i j x y. map_of ss i = Some x \<longrightarrow> map_of ss j = Some y \<longrightarrow>
        se_sessionToken x = se_sessionToken y \<longrightarrow> i = j)"

lemma data_okI:
  assumes "registry_ok g" "keys_ok ss" "keys_ok es"
    "\<And>i x. map_of ss i = Some x \<Longrightarrow> session_ok g n i x"
    "\<And>i m. map_of es i = Some m \<Longrightarrow> end_ok g ss i m"
    "\<And>i j x y. map_of ss i = Some x \<Longrightarrow> map_of ss j = Some y \<Longrightarrow>
        se_sessionToken x = se_sessionToken y \<Longrightarrow> i = j"
  shows "data_ok g ss es n"
  using assms unfolding data_ok_def by blast

lemma data_okD:
  assumes "data_ok g ss es n"
  shows "registry_ok g" "keys_ok ss" "keys_ok es"
  using assms unfolding data_ok_def by blast+

lemma data_session: "data_ok g ss es n \<Longrightarrow> map_of ss i = Some x \<Longrightarrow> session_ok g n i x"
  unfolding data_ok_def by blast

lemma data_end: "data_ok g ss es n \<Longrightarrow> map_of es i = Some m \<Longrightarrow> end_ok g ss i m"
  unfolding data_ok_def by blast

lemma data_token_unique: "data_ok g ss es n \<Longrightarrow> map_of ss i = Some x \<Longrightarrow> map_of ss j = Some y \<Longrightarrow>
    se_sessionToken x = se_sessionToken y \<Longrightarrow> i = j"
  unfolding data_ok_def by blast

text \<open>Changes of the registry that keep the candidates or give them fresh generations.\<close>

definition registry_later :: "candidate_registry \<Rightarrow> candidate_registry \<Rightarrow> bool" where
  "registry_later g g' \<longleftrightarrow> registry_ok g' \<and> generationCounter g \<le> generationCounter g' \<and>
     (\<forall>i c. get_candidate i g' = Some c \<longrightarrow> get_candidate i g = Some c \<or> generationCounter g < cd_generation c)"

lemma later_upsert: "registry_ok g \<Longrightarrow> registry_later g (snd (upsert r p g))"
  by (auto simp: registry_later_def registry_simps split: if_splits)

lemma later_remove: "registry_ok g \<Longrightarrow> registry_later g (snd (remove_candidate i g))"
  by (auto simp: registry_later_def registry_simps split: if_splits)

lemma later_rebuild:
  assumes "registry_ok g"
  shows "registry_later g (rebuild rs g)"
proof -
  have "generationCounter g < cd_generation c" if "get_candidate i (rebuild rs g) = Some c" for i c
    using fold_upsert_fresh [of Waiting rs "emptied g" i "cd_generation c"] that
    by (simp add: current_generation_def rebuild_fold)
  moreover have "generationCounter g \<le> generationCounter (rebuild rs g)"
    using registry_step_counter [OF registry_step.rebuild] .
  ultimately show ?thesis using assms by (auto simp: registry_later_def)
qed

lemma data_later:
  assumes d: "data_ok g ss es n" and l: "registry_later g g'"
  shows "data_ok g' ss es n"
proof (rule data_okI)
  show "registry_ok g'" "keys_ok ss" "keys_ok es" using d l data_okD by (auto simp: registry_later_def)
next
  fix i x assume x: "map_of ss i = Some x"
  from data_session [OF d x] l show "session_ok g' n i x"
    unfolding session_ok_def registry_later_def by fastforce
next
  fix i m assume m: "map_of es i = Some m"
  from data_end [OF d m] l show "end_ok g' ss i m" unfolding end_ok_def registry_later_def by fastforce
next
  fix i j x y
  assume "map_of ss i = Some x" "map_of ss j = Some y" "se_sessionToken x = se_sessionToken y"
  then show "i = j" by (rule data_token_unique [OF d])
qed

lemma data_set_session:
  assumes d: "data_ok g ss es n" and c: "get_candidate i g = Some c"
    and e: "\<And>m. map_of es i = Some m \<Longrightarrow> te_generation m \<noteq> cd_generation c"
    and t: "n \<le> n'" "tok \<le> n'" "n < tok \<or> (\<exists>x. map_of ss i = Some x \<and> se_sessionToken x = tok)"
  shows "data_ok g (map_set i \<lparr>se_reservationId = i, se_generation = cd_generation c, se_sessionToken = tok,
           se_phase = cd_phase c\<rparr> ss) es n'" (is "data_ok g (map_set i ?s ss) es n'")
proof (rule data_okI)
  show "registry_ok g" "keys_ok (map_set i ?s ss)" "keys_ok es" using data_okD [OF d] by auto
next
  fix j x assume x: "map_of (map_set i ?s ss) j = Some x"
  show "session_ok g n' j x"
  proof (cases "j = i")
    case True
    with x have "x = ?s" by simp
    with True c t(2) candidate_generation_le [OF data_okD(1) [OF d] c] show ?thesis by (simp add: session_ok_def)
  next
    case False
    with x have "map_of ss j = Some x" by simp
    from data_session [OF d this] t(1) show ?thesis unfolding session_ok_def by auto
  qed
next
  fix j m assume m: "map_of es j = Some m"
  from data_end [OF d m] e [of m] m c show "end_ok g (map_set i ?s ss) j m" unfolding end_ok_def by fastforce
next
  fix j k x y
  assume x: "map_of (map_set i ?s ss) j = Some x" and y: "map_of (map_set i ?s ss) k = Some y"
    and xy: "se_sessionToken x = se_sessionToken y"
  have other: "k' = i" if "map_of ss k' = Some z" "se_sessionToken z = tok" for k' z
    using t(3)
  proof
    assume "n < tok"
    then show ?thesis using data_session [OF d that(1)] that(2) by (simp add: session_ok_def)
  next
    assume "\<exists>x. map_of ss i = Some x \<and> se_sessionToken x = tok"
    then show ?thesis using data_token_unique [OF d that(1)] that(2) by blast
  qed
  show "j = k"
    using x y xy other [of j x] other [of k y] data_token_unique [OF d, of j x k y]
    by (auto split: if_splits)
qed

lemma data_delete_session:
  assumes d: "data_ok g ss es n" and c: "get_candidate i g = None"
  shows "data_ok g (map_delete i ss) es n"
proof (rule data_okI)
  show "registry_ok g" "keys_ok (map_delete i ss)" "keys_ok es" using data_okD [OF d] by auto
next
  fix j x assume "map_of (map_delete i ss) j = Some x"
  then show "session_ok g n j x" using data_session [OF d, of j x] by (auto split: if_splits)
next
  fix j m assume m: "map_of es j = Some m"
  from data_end [OF d m] c show "end_ok g (map_delete i ss) j m" by (auto simp: end_ok_def)
next
  fix j k x y
  assume "map_of (map_delete i ss) j = Some x" "map_of (map_delete i ss) k = Some y" "se_sessionToken x = se_sessionToken y"
  then show "j = k" using data_token_unique [OF d, of j x k y] by (auto split: if_splits)
qed

lemma data_delete_end:
  assumes d: "data_ok g ss es n"
  shows "data_ok g ss (map_delete i es) n"
proof (rule data_okI)
  show "registry_ok g" "keys_ok ss" "keys_ok (map_delete i es)" using data_okD [OF d] by auto
  show "map_of ss j = Some x \<Longrightarrow> session_ok g n j x" for j x by (rule data_session [OF d])
  show "map_of (map_delete i es) j = Some m \<Longrightarrow> end_ok g ss j m" for j m
    using data_end [OF d, of j m] by (auto split: if_splits)
  show "map_of ss j = Some x \<Longrightarrow> map_of ss k = Some y \<Longrightarrow> se_sessionToken x = se_sessionToken y \<Longrightarrow> j = k" for j k x y
    by (rule data_token_unique [OF d])
qed

lemma data_set_end:
  assumes d: "data_ok g ss es n" and x: "map_of ss i = Some x" "se_generation x = te_generation m"
    "se_sessionToken x = te_sessionToken m" "te_reservationId m = i"
  shows "data_ok g ss (map_set i m es) n"
proof (rule data_okI)
  show "registry_ok g" "keys_ok ss" "keys_ok (map_set i m es)" using data_okD [OF d] by auto
  show "map_of ss j = Some y \<Longrightarrow> session_ok g n j y" for j y by (rule data_session [OF d])
  have "end_ok g ss i m" using data_session [OF d x(1)] x by (simp add: session_ok_def end_ok_def)
  then show "map_of (map_set i m es) j = Some m' \<Longrightarrow> end_ok g ss j m'" for j m'
    using data_end [OF d, of j m'] by (auto split: if_splits)
  show "map_of ss j = Some y \<Longrightarrow> map_of ss k = Some z \<Longrightarrow> se_sessionToken y = se_sessionToken z \<Longrightarrow> j = k" for j k y z
    by (rule data_token_unique [OF d])
qed

lemma data_set_phase:
  assumes d: "data_ok g ss es n" and c: "get_candidate i g = Some c" and x: "map_of ss i = Some x"
    "se_generation x = cd_generation c"
  shows "data_ok (snd (tryTransitionPhase i (cd_generation c) (cd_phase c) q g)) (map_set i (x\<lparr>se_phase := q\<rparr>) ss) es n"
    (is "data_ok ?g ?ss es n")
proof (rule data_okI)
  show "registry_ok ?g" "keys_ok ?ss" "keys_ok es" using data_okD [OF d] by auto
next
  have get: "get_candidate j ?g = (if j = i then Some (c\<lparr>cd_phase := q\<rparr>) else get_candidate j g)" for j
    using c by (simp add: registry_simps)
  {
    fix j y assume y: "map_of ?ss j = Some y"
    show "session_ok ?g n j y"
    proof (cases "j = i")
      case True
      with y have "y = x\<lparr>se_phase := q\<rparr>" by simp
      with True data_session [OF d x(1)] show ?thesis by (simp add: session_ok_def get counter_transition)
    next
      case False
      with y have "map_of ss j = Some y" by simp
      from data_session [OF d this] False show ?thesis by (simp add: session_ok_def get counter_transition)
    qed
  next
    fix j m assume m: "map_of es j = Some m"
    from data_end [OF d m] c x show "end_ok ?g ?ss j m" by (auto simp: end_ok_def get counter_transition)
  }
next
  fix j k y z
  assume y: "map_of ?ss j = Some y" and z: "map_of ?ss k = Some z" and "se_sessionToken y = se_sessionToken z"
  have "\<exists>v. map_of ss l = Some v \<and> se_sessionToken v = se_sessionToken w" if "map_of ?ss l = Some w" for l w
    using that x(1) by (auto split: if_splits)
  from this [OF y] this [OF z] \<open>se_sessionToken y = se_sessionToken z\<close> show "j = k"
    using data_token_unique [OF d] by metis
qed

subsection \<open>The operations keep the invariant of the data\<close>

definition data_inv :: "schedule \<Rightarrow> bool" where
  "data_inv s \<longleftrightarrow> data_ok (registry s) (sessions s) (timeSpecifiedEnds s) (sessionTokenCounter s)"

lemma data_inv_new: "data_inv new_schedule"
  by (simp add: data_inv_def new_schedule_def data_ok_def)

text \<open>What \<open>ensureSession\<close> gives for the candidate of a reservation.\<close>

definition ensured :: "int \<Rightarrow> recording_candidate \<Rightarrow> schedule \<Rightarrow> recording_session \<Rightarrow> schedule \<Rightarrow> bool" where
  "ensured i c s x s' \<longleftrightarrow> data_inv s' \<and> registry s' = registry s \<and> timeSpecifiedEnds s' = timeSpecifiedEnds s \<and>
     map_of (sessions s') i = Some x \<and> se_generation x = cd_generation c \<and> se_phase x = cd_phase c \<and>
     (\<forall>j. j \<noteq> i \<longrightarrow> map_of (sessions s') j = map_of (sessions s) j) \<and>
     (map_of (sessions s) i = Some x \<and> sessionTokenCounter s' = sessionTokenCounter s \<or>
      sessionTokenCounter s < se_sessionToken x \<and> sessionTokenCounter s' = se_sessionToken x) \<and>
     launched s' = launched s \<and> reads s' = reads s"

lemma ensuredD:
  assumes "ensured i c s x s'"
  shows "registry s' = registry s" "timeSpecifiedEnds s' = timeSpecifiedEnds s" "launched s' = launched s"
    "reads s' = reads s" "map_of (sessions s') i = Some x" "se_generation x = cd_generation c" "se_phase x = cd_phase c"
    "j \<noteq> i \<Longrightarrow> map_of (sessions s') j = map_of (sessions s) j"
  using assms unfolding ensured_def by blast+

lemma ensured_inv: "ensured i c s x s' \<Longrightarrow> data_inv s'"
  by (simp add: ensured_def)

lemma ensureSession_ensured:
  assumes d: "data_inv s" and c: "get_candidate i (registry s) = Some c" and e: "ensureSession c s = (x, s')"
  shows "ensured i c s x s'"
proof -
  have i: "cd_reservationId c = i" using candidate_id c d data_okD(1) unfolding data_inv_def by blast
  show ?thesis
  proof (cases "\<exists>y. map_of (sessions s) i = Some y \<and> se_generation y = cd_generation c")
    case True
    then have m: "map_of (sessions s) i = Some x" "s' = s" "se_generation x = cd_generation c"
      using e i by (auto simp: ensureSession_def)
    moreover have "se_phase x = cd_phase c"
      using data_session [OF _ m(1)] d c m(3) unfolding data_inv_def session_ok_def by (metis data_inv_def d)
    ultimately show ?thesis using d by (simp add: ensured_def)
  next
    case False
    then have "create_session c s = (x, s')" using e i by (auto simp: ensureSession_def split: option.splits if_splits)
    then have x: "x = \<lparr>se_reservationId = i, se_generation = cd_generation c,
        se_sessionToken = sessionTokenCounter s + 1, se_phase = cd_phase c\<rparr>"
      and s': "s' = s\<lparr>sessionTokenCounter := sessionTokenCounter s + 1, sessions := map_set i x (sessions s)\<rparr>"
      using i by (auto simp: create_session_def issueSessionToken_def Let_def)
    have "te_generation m \<noteq> cd_generation c" if m: "map_of (timeSpecifiedEnds s) i = Some m" for m
    proof
      assume "te_generation m = cd_generation c"
      with data_end [OF d [unfolded data_inv_def] m] c False show False by (auto simp: end_ok_def)
    qed
    from data_set_session [OF d [unfolded data_inv_def] c this, of "sessionTokenCounter s + 1" "sessionTokenCounter s + 1"]
    have "data_inv s'" by (simp add: data_inv_def s' x)
    then show ?thesis by (simp add: ensured_def s' x)
  qed
qed

lemma snapshot_cases:
  assumes d: "data_inv s" and e: "getSessionSnapshot i s = (x, s')"
  shows "(get_candidate i (registry s) = None \<and> x = None \<and> s' = s) \<or>
    (\<exists>c y. get_candidate i (registry s) = Some c \<and> x = Some y \<and> ensured i c s y s')"
proof (cases "get_candidate i (registry s)")
  case None
  with e show ?thesis by (simp add: getSessionSnapshot_def)
next
  case (Some c)
  obtain y t where t: "ensureSession c s = (y, t)" by (cases "ensureSession c s")
  with e Some have "x = Some y" "s' = t" by (auto simp: getSessionSnapshot_def)
  with ensureSession_ensured [OF d Some t] Some show ?thesis by blast
qed

text \<open>What a successful conditional transition does.\<close>

definition moved_to :: "int \<Rightarrow> recording_candidate \<Rightarrow> recording_session \<Rightarrow> recording_phase \<Rightarrow> schedule \<Rightarrow> schedule" where
  "moved_to i c x q s =
     (let g = snd (tryTransitionPhase i (cd_generation c) (cd_phase c) q (registry s));
          s2 = s\<lparr>registry := g, sessions := map_set i (x\<lparr>se_phase := q\<rparr>) (sessions s)\<rparr>
      in if q = Completed \<or> q = Cancelled
         then s2\<lparr>timeSpecifiedEnds := map_delete i (timeSpecifiedEnds s2)\<rparr> else s2)"

lemma transition_cases:
  assumes d: "data_inv s" and e: "tryTransitionSession i n tok p q s = (b, s')"
  shows "(\<not> b \<and> (s' = s \<or> (\<exists>c x. get_candidate i (registry s) = Some c \<and> ensured i c s x s'))) \<or>
    (b \<and> (\<exists>c x s1. get_candidate i (registry s) = Some c \<and> ensured i c s x s1 \<and> se_sessionToken x = tok \<and>
       cd_generation c = n \<and> cd_phase c = p \<and> s' = moved_to i c x q s1))"
proof (cases "get_candidate i (registry s)")
  case None
  with e show ?thesis by (simp add: tryTransitionSession_def)
next
  case (Some c)
  obtain x s1 where x: "ensureSession c s = (x, s1)" by (cases "ensureSession c s")
  have en: "ensured i c s x s1" by (rule ensureSession_ensured [OF d Some x])
  then have r: "registry s1 = registry s" by (simp add: ensured_def)
  show ?thesis
  proof (cases "se_sessionToken x = tok \<and> cd_generation c = n \<and> cd_phase c = p")
    case True
    then have "fst (tryTransitionPhase i n p q (registry s1))" using Some r by (simp add: registry_simps)
    then obtain g where "tryTransitionPhase i n p q (registry s1) = (True, g)"
      by (cases "tryTransitionPhase i n p q (registry s1)") auto
    then have "b" "s' = moved_to i c x q s1"
      using e Some x True by (auto simp: tryTransitionSession_def moved_to_def Let_def)
    with Some en True show ?thesis by blast
  next
    case False
    then have "\<not> fst (tryTransitionPhase i n p q (registry s1)) \<or> se_sessionToken x \<noteq> tok"
      using Some r by (auto simp: registry_simps)
    then have "\<not> b" "s' = s1"
      using e Some x by (auto simp: tryTransitionSession_def Let_def split: prod.splits if_splits)
    with Some en show ?thesis by blast
  qed
qed

lemma moved_to_inv:
  assumes "ensured i c s x s1" "get_candidate i (registry s) = Some c"
  shows "data_inv (moved_to i c x q s1)"
proof -
  have d: "data_ok (registry s1) (sessions s1) (timeSpecifiedEnds s1) (sessionTokenCounter s1)"
    and g: "get_candidate i (registry s1) = Some c" and x: "map_of (sessions s1) i = Some x" "se_generation x = cd_generation c"
    using assms by (auto simp: ensured_def data_inv_def)
  from data_set_phase [OF d g x, of q] show ?thesis
    by (auto simp: data_inv_def moved_to_def Let_def intro: data_delete_end)
qed

lemma transition_inv:
  assumes d: "data_inv s"
  shows "data_inv (snd (tryTransitionSession i n tok p q s))"
proof -
  obtain b s' where "tryTransitionSession i n tok p q s = (b, s')" by (cases "tryTransitionSession i n tok p q s")
  from transition_cases [OF d this] this d show ?thesis by (auto dest: ensured_inv moved_to_inv)
qed

lemma snapshot_inv: "data_inv s \<Longrightarrow> data_inv (snd (getSessionSnapshot i s))"
  using snapshot_cases [of s i] by (metis ensured_inv prod.collapse)

lemma ensure_inv: "data_inv s \<Longrightarrow> get_candidate i (registry s) = Some c \<Longrightarrow> data_inv (snd (ensureSession c s))"
  using ensureSession_ensured [of s i c] by (metis ensured_inv prod.collapse)

text \<open>The invariant reads neither the control fields nor the log.\<close>

lemma data_inv_frame [simp]:
  "data_inv (s\<lparr>launched := l\<rparr>) = data_inv s" "data_inv (s\<lparr>reads := k\<rparr>) = data_inv s"
  "data_inv (s\<lparr>queuedMutations := qs\<rparr>) = data_inv s" "data_inv (s\<lparr>resetRequested := b\<rparr>) = data_inv s"
  "data_inv (s\<lparr>rerunRequested := b\<rparr>) = data_inv s" "data_inv (s\<lparr>evaluationRunning := b\<rparr>) = data_inv s"
  "data_inv (s\<lparr>started := b\<rparr>) = data_inv s" "data_inv (s\<lparr>idleWaiters := ws\<rparr>) = data_inv s"
  "data_inv (s\<lparr>resolvedWaiters := ws\<rparr>) = data_inv s" "data_inv (s\<lparr>reported := k\<rparr>) = data_inv s"
  "data_inv (s\<lparr>timers := ts\<rparr>) = data_inv s" "data_inv (s\<lparr>microtasks := ms\<rparr>) = data_inv s"
  "data_inv (s\<lparr>armedWake := a\<rparr>) = data_inv s" "data_inv (s\<lparr>microtaskScheduled := b\<rparr>) = data_inv s"
  "data_inv (s\<lparr>currentControllerToken := n\<rparr>) = data_inv s"
  "data_inv (s\<lparr>controllerTokenCounter := n\<rparr>) = data_inv s"
  by (simp_all add: data_inv_def)

lemma data_inv_launch [simp]: "data_inv (launch d s) = data_inv s"
  by (simp add: launch_def)

lemma data_inv_now [simp]: "data_inv (snd (now_of clk s)) = data_inv s"
  by (simp add: now_of_def)

subsection \<open>Session tokens\<close>

text \<open>\<open>follows w s s'\<close>: every session of \<open>s'\<close> continues one of \<open>s\<close> under its
  token or has a token issued since; unless \<open>w\<close>, none went back to \<open>Waiting\<close>.\<close>

definition continues :: "bool \<Rightarrow> schedule \<Rightarrow> int \<Rightarrow> recording_session \<Rightarrow> bool" where
  "continues w s i x' \<longleftrightarrow> (\<exists>x. map_of (sessions s) i = Some x \<and> se_sessionToken x = se_sessionToken x' \<and>
      (w \<or> se_phase x = Waiting \<or> se_phase x' \<noteq> Waiting)) \<or> sessionTokenCounter s < se_sessionToken x'"

definition follows :: "bool \<Rightarrow> schedule \<Rightarrow> schedule \<Rightarrow> bool" where
  "follows w s s' \<longleftrightarrow> sessionTokenCounter s \<le> sessionTokenCounter s' \<and>
     (\<forall>i x'. map_of (sessions s') i = Some x' \<longrightarrow> continues w s i x')"

lemma followsI:
  "sessionTokenCounter s \<le> sessionTokenCounter s' \<Longrightarrow>
   (\<And>i x'. map_of (sessions s') i = Some x' \<Longrightarrow> continues w s i x') \<Longrightarrow> follows w s s'"
  by (simp add: follows_def)

lemma continues_same: "map_of (sessions s) i = Some x \<Longrightarrow> continues w s i x"
  by (auto simp: continues_def)

lemma follows_refl [simp]: "follows w s s"
  by (rule followsI) (auto intro: continues_same)

lemma follows_trans: "follows w s t \<Longrightarrow> follows w t u \<Longrightarrow> follows w s u"
proof (rule followsI)
  assume a: "follows w s t" "follows w t u"
  then show "sessionTokenCounter s \<le> sessionTokenCounter u" by (auto simp: follows_def)
  fix i x assume "map_of (sessions u) i = Some x"
  with a(2) consider y where "map_of (sessions t) i = Some y" "se_sessionToken y = se_sessionToken x"
      "w \<or> se_phase y = Waiting \<or> se_phase x \<noteq> Waiting" | "sessionTokenCounter t < se_sessionToken x"
    unfolding follows_def continues_def by blast
  then show "continues w s i x"
  proof cases
    case 1
    with a(1) have "continues w s i y" by (simp add: follows_def)
    with 1 show ?thesis unfolding continues_def by fastforce
  next
    case 2
    with a(1) show ?thesis by (simp add: follows_def continues_def)
  qed
qed

lemma follows_frame:
  "sessions s' = sessions s \<Longrightarrow> sessionTokenCounter s' = sessionTokenCounter s \<Longrightarrow> follows w s s'"
  by (rule followsI) (auto intro: continues_same)

lemma follows_congR:
  "follows w s t \<Longrightarrow> sessions t' = sessions t \<Longrightarrow> sessionTokenCounter t' = sessionTokenCounter t \<Longrightarrow> follows w s t'"
  by (simp add: follows_def)

definition prep_tokens :: "schedule \<Rightarrow> int list" where
  "prep_tokens s = concat (map (\<lambda>d. case d of Preparation c g t \<Rightarrow> [t] | _ \<Rightarrow> []) (launched s))"

definition prep_inv :: "schedule \<Rightarrow> bool" where
  "prep_inv s \<longleftrightarrow> distinct (prep_tokens s) \<and> (\<forall>t \<in> set (prep_tokens s). t \<le> sessionTokenCounter s \<and>
     (\<forall>i x. map_of (sessions s) i = Some x \<longrightarrow> se_sessionToken x = t \<longrightarrow> se_phase x \<noteq> Waiting))"

lemma prep_tokens_launch [simp]:
  "prep_tokens (launch (Mutation m) s) = prep_tokens s" "prep_tokens (launch Reset s) = prep_tokens s"
  "prep_tokens (launch (TimeEnd e) s) = prep_tokens s"
  "prep_tokens (launch (Preparation c g t) s) = prep_tokens s @ [t]"
  by (simp_all add: prep_tokens_def launch_def)

lemma prep_tokens_cong: "launched s' = launched s \<Longrightarrow> prep_tokens s' = prep_tokens s"
  by (simp add: prep_tokens_def)

lemma follows_waiting:
  assumes f: "follows False s s'" and t: "t \<le> sessionTokenCounter s"
    and p: "\<And>i x. map_of (sessions s) i = Some x \<Longrightarrow> se_sessionToken x = t \<Longrightarrow> se_phase x \<noteq> Waiting"
    and x: "map_of (sessions s') i = Some x" "se_sessionToken x = t"
  shows "se_phase x \<noteq> Waiting"
proof -
  have "continues False s i x" using f x(1) by (simp add: follows_def)
  then show ?thesis using t p x(2) unfolding continues_def by fastforce
qed

lemma prep_inv_follows:
  assumes p: "prep_inv s" and f: "follows False s s'" and l: "prep_tokens s' = prep_tokens s"
  shows "prep_inv s'"
proof -
  have c: "sessionTokenCounter s \<le> sessionTokenCounter s'" using f by (simp add: follows_def)
  have "t \<le> sessionTokenCounter s' \<and> (\<forall>i x. map_of (sessions s') i = Some x \<longrightarrow> se_sessionToken x = t \<longrightarrow> se_phase x \<noteq> Waiting)"
    if t: "t \<in> set (prep_tokens s)" for t
  proof -
    have 1: "t \<le> sessionTokenCounter s" and
      2: "\<And>i x. map_of (sessions s) i = Some x \<Longrightarrow> se_sessionToken x = t \<Longrightarrow> se_phase x \<noteq> Waiting"
      using p t unfolding prep_inv_def by blast+
    show ?thesis using 1 c follows_waiting [OF f 1 2] by fastforce
  qed
  then show ?thesis using p l by (simp add: prep_inv_def)
qed

subsection \<open>Every operation keeps the invariant and continues the sessions\<close>

text \<open>\<open>good\<close> collects what is carried through the operations; \<open>w\<close> as above. The preparations are
  tracked only while no session goes back to \<open>Waiting\<close>.\<close>

definition good :: "bool \<Rightarrow> schedule \<Rightarrow> schedule \<Rightarrow> bool" where
  "good w s s' \<longleftrightarrow> (data_inv s \<longrightarrow> data_inv s' \<and> follows w s s' \<and> (\<not> w \<longrightarrow> prep_inv s \<longrightarrow> prep_inv s'))"

lemma good_refl [simp]: "good w s s"
  by (simp add: good_def)

lemma good_trans: "good w s t \<Longrightarrow> good w t u \<Longrightarrow> good w s u"
  unfolding good_def using follows_trans by blast

lemma good_data: "good w s s' \<Longrightarrow> data_inv s \<Longrightarrow> data_inv s'"
  by (simp add: good_def)

lemma goodI:
  assumes "data_inv s \<Longrightarrow> data_inv s'" "data_inv s \<Longrightarrow> follows w s s'" "prep_tokens s' = prep_tokens s"
  shows "good w s s'"
  unfolding good_def using assms prep_inv_follows [of s s'] by (cases w) auto

text \<open>Changes of the fields that the invariant does not read.\<close>

lemma good_frame:
  "registry s' = registry s \<Longrightarrow> sessions s' = sessions s \<Longrightarrow> timeSpecifiedEnds s' = timeSpecifiedEnds s \<Longrightarrow>
   sessionTokenCounter s' = sessionTokenCounter s \<Longrightarrow> prep_tokens s' = prep_tokens s \<Longrightarrow> good w s s'"
  by (rule goodI) (simp_all add: data_inv_def follows_frame)

lemma good_congL:
  assumes "good w s s'"
    "registry t = registry s" "sessions t = sessions s" "timeSpecifiedEnds t = timeSpecifiedEnds s"
    "sessionTokenCounter t = sessionTokenCounter s" "prep_tokens t = prep_tokens s"
  shows "good w t s'"
  by (rule good_trans [OF good_frame assms(1)]) (simp_all add: assms(2-6))

lemma ensured_follows: "ensured i c s x s' \<Longrightarrow> follows w s s'"
proof (rule followsI)
  assume e: "ensured i c s x s'"
  then show "sessionTokenCounter s \<le> sessionTokenCounter s'" by (auto simp: ensured_def)
  fix j y assume y: "map_of (sessions s') j = Some y"
  show "continues w s j y"
  proof (cases "j = i")
    case True
    with e y have "y = x" by (simp add: ensured_def)
    with True e show ?thesis by (auto simp: ensured_def continues_def)
  next
    case False
    with e y show ?thesis by (auto simp: ensured_def intro: continues_same)
  qed
qed

lemma ensured_good: "ensured i c s x s' \<Longrightarrow> good w s s'"
  by (rule goodI) (erule ensured_inv, erule ensured_follows, rule prep_tokens_cong, erule ensuredD(3))

lemma good_ensure: "data_inv s \<Longrightarrow> get_candidate i (registry s) = Some c \<Longrightarrow> good w s (snd (ensureSession c s))"
  using ensureSession_ensured [of s i c] ensured_good by (metis prod.collapse)

lemma good_snapshot: "good w s (snd (getSessionSnapshot i s))"
proof (cases "data_inv s")
  case True
  obtain x s' where e: "getSessionSnapshot i s = (x, s')" by (cases "getSessionSnapshot i s")
  from snapshot_cases [OF True e] e show ?thesis by (auto intro: ensured_good)
qed (simp add: good_def)

lemma moved_to_follows:
  assumes e: "ensured i c s x s1" and q: "w \<or> se_phase x = Waiting \<or> q \<noteq> Waiting"
  shows "follows w s1 (moved_to i c x q s1)"
proof (rule followsI)
  show "sessionTokenCounter s1 \<le> sessionTokenCounter (moved_to i c x q s1)"
    by (simp add: moved_to_def Let_def)
  fix j y assume y: "map_of (sessions (moved_to i c x q s1)) j = Some y"
  then have "map_of (map_set i (x\<lparr>se_phase := q\<rparr>) (sessions s1)) j = Some y"
    by (simp add: moved_to_def Let_def split: if_splits)
  then show "continues w s1 j y"
    using e q by (auto simp: ensured_def continues_def split: if_splits)
qed

lemma moved_to_good:
  assumes e: "ensured i c s x s1" and g: "get_candidate i (registry s) = Some c"
    and q: "w \<or> se_phase x = Waiting \<or> q \<noteq> Waiting"
  shows "good w s1 (moved_to i c x q s1)"
proof (rule goodI)
  show "prep_tokens (moved_to i c x q s1) = prep_tokens s1"
    by (rule prep_tokens_cong) (simp add: moved_to_def Let_def)
qed (auto intro: moved_to_inv [OF e g] moved_to_follows [OF e q])

lemma good_transition:
  assumes q: "w \<or> q \<noteq> Waiting"
  shows "good w s (snd (tryTransitionSession i n t p q s))"
proof (cases "data_inv s")
  case True
  obtain b s' where e: "tryTransitionSession i n t p q s = (b, s')" by (cases "tryTransitionSession i n t p q s")
  from transition_cases [OF True e] consider "s' = s" | c x where "ensured i c s x s'"
    | c x s1 where "get_candidate i (registry s) = Some c" "ensured i c s x s1" "s' = moved_to i c x q s1" by blast
  then have "good w s s'"
  proof cases
    case 3
    then show ?thesis using good_trans [OF ensured_good moved_to_good] q by blast
  qed (auto intro: ensured_good)
  with e show ?thesis by simp
qed (simp add: good_def)

lemma launch_fields [simp]:
  "registry (launch d s) = registry s" "sessions (launch d s) = sessions s"
  "timeSpecifiedEnds (launch d s) = timeSpecifiedEnds s" "sessionTokenCounter (launch d s) = sessionTokenCounter s"
  "launched (launch d s) = launched s @ [d]" "reads (launch d s) = reads s"
  by (simp_all add: launch_def)

lemma good_launch [simp]:
  "good w s (launch (Mutation m) s)" "good w s (launch Reset s)" "good w s (launch (TimeEnd e) s)"
  by (rule good_frame, simp_all)+

subsection \<open>The queue keeps the invariant\<close>

text \<open>The session that is written when a change keeps the reservation as a candidate.\<close>

lemma upsert_session:
  assumes d: "data_inv s" and r: "\<not> (isSkip r \<or> isOverlap r)" and i: "i = reservation_id r"
    and t: "sessionTokenCounter s \<le> n" "t \<le> n"
      "sessionTokenCounter s < t \<or> (\<exists>x. map_of (sessions s) i = Some x \<and> se_sessionToken x = t)"
  shows "data_ok (snd (upsert r p (registry s)))
    (map_set i \<lparr>se_reservationId = i, se_generation = generationCounter (registry s) + 1, se_sessionToken = t, se_phase = p\<rparr> (sessions s))
    (map_delete i (timeSpecifiedEnds s)) n"
proof -
  let ?g = "snd (upsert r p (registry s))" and ?c = "candidate_of r (generationCounter (registry s) + 1) p"
  have d': "data_ok (registry s) (sessions s) (timeSpecifiedEnds s) (sessionTokenCounter s)"
    using d by (simp add: data_inv_def)
  have "data_ok ?g (sessions s) (map_delete i (timeSpecifiedEnds s)) (sessionTokenCounter s)"
    by (rule data_delete_end, rule data_later [OF d' later_upsert [OF data_okD(1) [OF d']]])
  moreover have "get_candidate i ?g = Some ?c" using r i by (simp add: registry_simps)
  ultimately have "data_ok ?g (map_set i \<lparr>se_reservationId = i, se_generation = cd_generation ?c, se_sessionToken = t,
      se_phase = cd_phase ?c\<rparr> (sessions s)) (map_delete i (timeSpecifiedEnds s)) n"
    using t by (intro data_set_session) auto
  then show ?thesis by simp
qed

lemma upsert_gone:
  assumes d: "data_inv s" and r: "isSkip r \<or> isOverlap r" and i: "i = reservation_id r"
  shows "data_ok (snd (upsert r p (registry s))) (map_delete i (sessions s)) (map_delete i (timeSpecifiedEnds s))
    (sessionTokenCounter s)"
proof -
  have d': "data_ok (registry s) (sessions s) (timeSpecifiedEnds s) (sessionTokenCounter s)"
    using d by (simp add: data_inv_def)
  have "get_candidate i (snd (upsert r p (registry s))) = None" using r i by (simp add: registry_simps)
  then show ?thesis
    by (intro data_delete_session data_delete_end data_later [OF d' later_upsert [OF data_okD(1) [OF d']]])
qed

lemma remove_gone:
  assumes d: "data_inv s"
  shows "data_ok (snd (remove_candidate i (registry s))) (map_delete i (sessions s)) (map_delete i (timeSpecifiedEnds s))
    (sessionTokenCounter s)"
proof -
  have d': "data_ok (registry s) (sessions s) (timeSpecifiedEnds s) (sessionTokenCounter s)"
    using d by (simp add: data_inv_def)
  have "get_candidate i (snd (remove_candidate i (registry s))) = None" by (simp add: registry_simps)
  then show ?thesis
    by (intro data_delete_session data_delete_end data_later [OF d' later_remove [OF data_okD(1) [OF d']]])
qed

text \<open>The state after a change, up to the log.\<close>

definition upserted :: "bool \<Rightarrow> reserve \<Rightarrow> recording_session option \<Rightarrow> schedule \<Rightarrow> schedule" where
  "upserted isUpdate r previous s =
     (let i = reservation_id r;
          phase = (case previous of Some x \<Rightarrow> if isUpdate then se_phase x else Waiting | None \<Rightarrow> Waiting);
          token = (case previous of Some x \<Rightarrow> if isUpdate then se_sessionToken x else sessionTokenCounter s + 1
                     | None \<Rightarrow> sessionTokenCounter s + 1);
          s1 = s\<lparr>registry := snd (upsert r phase (registry s)), timeSpecifiedEnds := map_delete i (timeSpecifiedEnds s)\<rparr>
      in if isSkip r \<or> isOverlap r then s1\<lparr>sessions := map_delete i (sessions s)\<rparr>
         else s1\<lparr>sessionTokenCounter := (if isUpdate \<and> previous \<noteq> None then sessionTokenCounter s else token),
                sessions := map_set i \<lparr>se_reservationId = i, se_generation = generationCounter (registry s) + 1,
                   se_sessionToken = token, se_phase = phase\<rparr> (sessions s)\<rparr>)"

lemma applyUpsert_cases:
  assumes e: "getSessionSnapshot (reservation_id r) s = (x, s1)" and s': "s' = applyUpsert u b r s"
  shows "s' = upserted u r x s1 \<or> (\<exists>m. s' = launch (Mutation m) (upserted u r x s1))"
proof -
  let ?p = "case x of Some y \<Rightarrow> if u then se_phase y else Waiting | None \<Rightarrow> Waiting"
  obtain o1 g where up: "upsert r ?p (registry s1) = (o1, g)" by (cases "upsert r ?p (registry s1)")
  have o1: "o1 = (if isSkip r \<or> isOverlap r then None
      else Some (candidate_of r (generationCounter (registry s1) + 1) ?p))"
    using upsert_fst [of r ?p "registry s1"] up by simp
  show ?thesis
  proof (cases "isSkip r \<or> isOverlap r")
    case True
    then show ?thesis using o1 up by (auto simp: s' applyUpsert_def e upserted_def Let_def)
  next
    case False
    then show ?thesis using o1 up
      by (cases x) (auto simp: s' applyUpsert_def e upserted_def issueSessionToken_def Let_def)
  qed
qed

text \<open>The session a change starts from.\<close>

definition previous_ok :: "reserve \<Rightarrow> recording_session option \<Rightarrow> schedule \<Rightarrow> bool" where
  "previous_ok r previous s \<longleftrightarrow>
     (case previous of None \<Rightarrow> True | Some x \<Rightarrow> map_of (sessions s) (reservation_id r) = Some x)"

lemma snapshot_previous:
  assumes "data_inv s" "getSessionSnapshot (reservation_id r) s = (x, s1)"
  shows "previous_ok r x s1 \<and> registry s1 = registry s"
  using snapshot_cases [OF assms] by (auto simp: previous_ok_def dest: ensuredD)

lemma upserted_inv:
  assumes d: "data_inv s" and x: "previous_ok r x s"
  shows "data_inv (upserted u r x s)"
proof (cases "isSkip r \<or> isOverlap r")
  case True
  with upsert_gone [OF d True refl] show ?thesis by (simp add: data_inv_def upserted_def Let_def)
next
  case False
  have t: "se_sessionToken y \<le> sessionTokenCounter s" if "x = Some y" for y
    using x that data_session [OF d [unfolded data_inv_def]] by (fastforce simp: previous_ok_def session_ok_def)
  show ?thesis
    using upsert_session [OF d False refl, of "sessionTokenCounter s + 1" "sessionTokenCounter s + 1" Waiting]
      upsert_session [OF d False refl, of "sessionTokenCounter s" "se_sessionToken (the x)" "se_phase (the x)"]
      False x t
    by (cases x; cases u) (simp_all add: data_inv_def upserted_def Let_def previous_ok_def)
qed

lemma upserted_follows:
  assumes x: "previous_ok r x s"
  shows "follows w s (upserted u r x s)"
proof (rule followsI)
  show "sessionTokenCounter s \<le> sessionTokenCounter (upserted u r x s)"
    by (cases x) (simp_all add: upserted_def Let_def)
  fix i y assume "map_of (sessions (upserted u r x s)) i = Some y"
  then show "continues w s i y"
    using x by (cases x; cases u)
      (auto simp: upserted_def Let_def previous_ok_def continues_def split: if_splits)
qed

lemma upserted_good: "previous_ok r x s \<Longrightarrow> good w s (upserted u r x s)"
  by (rule goodI, erule (1) upserted_inv, erule upserted_follows, rule prep_tokens_cong)
    (simp add: upserted_def Let_def)

lemma good_upsert: "good w s (applyUpsert u b r s)"
proof (cases "data_inv s")
  case True
  obtain x s1 where e: "getSessionSnapshot (reservation_id r) s = (x, s1)"
    by (cases "getSessionSnapshot (reservation_id r) s")
  have 1: "good w s s1" using good_snapshot [of w s "reservation_id r"] e by simp
  have 2: "good w s1 (upserted u r x s1)" using snapshot_previous [OF True e] upserted_good by blast
  from good_trans [OF 1 2] applyUpsert_cases [OF e refl, of u b]
  show ?thesis by (metis good_trans good_launch(1))
qed (simp add: good_def)

lemma good_remove: "good w s (applyRemove b r s)"
proof (cases "data_inv s")
  case True
  let ?i = "reservation_id r"
  obtain x s1 where e: "getSessionSnapshot ?i s = (x, s1)" by (cases "getSessionSnapshot ?i s")
  have 1: "good w s s1" using good_snapshot [of w s ?i] e by simp
  let ?t = "s1\<lparr>registry := snd (remove_candidate ?i (registry s1)), sessions := map_delete ?i (sessions s1),
      timeSpecifiedEnds := map_delete ?i (timeSpecifiedEnds s1)\<rparr>"
  have 2: "good w s1 ?t"
  proof (rule goodI)
    show "data_inv s1 \<Longrightarrow> data_inv ?t" using remove_gone [of s1 ?i] by (simp add: data_inv_def)
    show "follows w s1 ?t" by (rule followsI) (auto intro: continues_same split: if_splits)
  qed (simp add: prep_tokens_def)
  obtain g n where "remove_candidate ?i (registry s1) = (n, g)" by (cases "remove_candidate ?i (registry s1)")
  then obtain m where "applyRemove b r s = launch (Mutation m) ?t"
    by (simp add: applyRemove_def e)
  then show ?thesis using good_trans [OF good_trans [OF 1 2] good_launch(1)] by simp
qed (simp add: good_def)

lemma good_fold: "(\<And>x s. good w s (f x s)) \<Longrightarrow> good w s (fold f xs s)"
proof (induction xs arbitrary: s)
  case (Cons a xs)
  then have "good w s (f a s)" "good w (f a s) (fold f xs (f a s))" by auto
  then have "good w s (fold f xs (f a s))" by (rule good_trans)
  then show ?case by simp
qed simp

lemma good_mutation: "good w s (apply_mutation m s)"
proof -
  let ?b = "isSuppressLog m"
  let ?t = "fold (applyUpsert False ?b) (uv_insert m) s"
  let ?u = "fold (applyUpsert True ?b) (uv_update m) ?t"
  have "good w s ?t" "good w ?t ?u" "good w ?u (fold (applyRemove ?b) (uv_delete m) ?u)"
    by (rule good_fold, rule good_upsert, rule good_fold, rule good_upsert, rule good_fold, rule good_remove)
  then show ?thesis unfolding apply_mutation_def by (blast intro: good_trans)
qed

lemma good_queue: "good w s (applyQueuedWork s)"
proof -
  let ?t = "s\<lparr>queuedMutations := [], resetRequested := False\<rparr>"
  have "good w s ?t" by (rule good_frame) (simp_all add: prep_tokens_def)
  moreover have "good w ?t (fold apply_mutation (queuedMutations s) ?t)" by (rule good_fold) (rule good_mutation)
  ultimately have "good w s (fold apply_mutation (queuedMutations s) ?t)" by (rule good_trans)
  then show ?thesis unfolding applyQueuedWork_def Let_def by (auto intro: good_trans)
qed

subsection \<open>The dispatches\<close>

lemma transition_succeeds:
  assumes e: "ensured i c s x s1" and c: "get_candidate i (registry s) = Some c"
  shows "tryTransitionSession i (cd_generation c) (se_sessionToken x) (cd_phase c) q s1 = (True, moved_to i c x q s1)"
proof -
  have d: "data_inv s1" and g: "get_candidate i (registry s1) = Some c" using e c by (auto simp: ensuredD ensured_inv)
  have "cd_reservationId c = i" using candidate_id [OF data_okD(1) g] d unfolding data_inv_def by blast
  then have en: "ensureSession c s1 = (x, s1)" using ensuredD(5,6) [OF e] by (simp add: ensureSession_def)
  have "fst (tryTransitionPhase i (cd_generation c) (cd_phase c) q (registry s1))" using g by (simp add: registry_simps)
  then obtain h where h: "tryTransitionPhase i (cd_generation c) (cd_phase c) q (registry s1) = (True, h)"
    by (cases "tryTransitionPhase i (cd_generation c) (cd_phase c) q (registry s1)") auto
  then show ?thesis using g en by (simp add: tryTransitionSession_def moved_to_def Let_def)
qed

lemma moved_to_fields:
  assumes "get_candidate i (registry s) = Some c"
  shows "get_candidate j (registry (moved_to i c x q s)) =
      (if j = i then Some (c\<lparr>cd_phase := q\<rparr>) else get_candidate j (registry s))"
    "generationCounter (registry (moved_to i c x q s)) = generationCounter (registry s)"
    "launched (moved_to i c x q s) = launched s" "reads (moved_to i c x q s) = reads s"
    "sessions (moved_to i c x q s) = map_set i (x\<lparr>se_phase := q\<rparr>) (sessions s)"
    "sessionTokenCounter (moved_to i c x q s) = sessionTokenCounter s"
    "timeSpecifiedEnds (moved_to i c x q s) = (if q = Completed \<or> q = Cancelled
       then map_delete i (timeSpecifiedEnds s) else timeSpecifiedEnds s)"
  using assms by (auto simp: moved_to_def Let_def registry_simps)

definition next_phase :: "int \<Rightarrow> recording_candidate \<Rightarrow> recording_phase" where
  "next_phase n c = (if cd_phase c \<noteq> Waiting then cd_phase c else if cd_endAt c \<le> n then Completed
     else if n < cd_prepareAt c then Waiting else Preparing)"

definition due :: "int \<Rightarrow> recording_candidate \<Rightarrow> bool" where
  "due n c \<longleftrightarrow> cd_phase c = Waiting \<and> cd_prepareAt c \<le> n \<and> n < cd_endAt c"

text \<open>The state after looking at one candidate.\<close>

lemma prepare_one_cases:
  assumes d: "data_inv s" and c: "get_candidate i (registry s) = Some c" and n: "n = clk (reads s)"
  obtains (skip) "cd_phase c \<noteq> Waiting" "prepare_one clk c s = s\<lparr>reads := Suc (reads s)\<rparr>"
  | (early) x s2 where "cd_phase c = Waiting" "n < cd_endAt c" "n < cd_prepareAt c"
      "ensured i c (s\<lparr>reads := Suc (reads s)\<rparr>) x s2" "prepare_one clk c s = s2"
  | (over) x s2 where "cd_phase c = Waiting" "cd_endAt c \<le> n"
      "ensured i c (s\<lparr>reads := Suc (reads s)\<rparr>) x s2" "prepare_one clk c s = moved_to i c x Completed s2"
  | (due) x s2 where "due n c" "ensured i c (s\<lparr>reads := Suc (reads s)\<rparr>) x s2"
      "prepare_one clk c s = launch (Preparation (c\<lparr>cd_phase := Preparing\<rparr>) (cd_generation c) (se_sessionToken x))
         (moved_to i c x Preparing s2)"
proof -
  let ?s1 = "s\<lparr>reads := Suc (reads s)\<rparr>"
  have i: "cd_reservationId c = i" using candidate_id [OF data_okD(1) c] d unfolding data_inv_def by blast
  obtain x s2 where x: "ensureSession c ?s1 = (x, s2)" by (cases "ensureSession c ?s1")
  have c1: "get_candidate i (registry ?s1) = Some c" "data_inv ?s1" using c d by simp_all
  have e: "ensured i c ?s1 x s2" by (rule ensureSession_ensured [OF c1(2,1) x])
  have c2: "get_candidate i (registry s2) = Some c" using ensuredD(1) [OF e] c1 by simp
  note t = transition_succeeds [OF e c1(1)]
  show ?thesis
  proof (cases "cd_phase c = Waiting")
    case False
    then show ?thesis by (intro skip) (simp_all add: prepare_one_def now_of_def)
  next
    case True
    consider "cd_endAt c \<le> n" | "n < cd_endAt c" "n < cd_prepareAt c" | "n < cd_endAt c" "cd_prepareAt c \<le> n" by linarith
    then show ?thesis
    proof cases
      case 1
      with True e show ?thesis using t [of Completed] i n
        by (intro over [of x s2]) (simp_all add: prepare_one_def now_of_def x)
    next
      case 2
      with True e show ?thesis using i n by (intro early [of x s2]) (simp_all add: prepare_one_def now_of_def x)
    next
      case 3
      with True e show ?thesis using t [of Preparing] i n
        by (intro due [of x s2]) (simp_all add: prepare_one_def now_of_def x moved_to_fields [OF c2] due_def)
    qed
  qed
qed

lemma prepare_one_effect:
  assumes d: "data_inv s" and c: "get_candidate i (registry s) = Some c"
  shows "get_candidate j (registry (prepare_one clk c s)) =
      (if j = i then Some (c\<lparr>cd_phase := next_phase (clk (reads s)) c\<rparr>) else get_candidate j (registry s))"
    "generationCounter (registry (prepare_one clk c s)) = generationCounter (registry s)"
    "reads (prepare_one clk c s) = Suc (reads s)"
    "\<exists>tok. launched (prepare_one clk c s) = launched s @ (if due (clk (reads s)) c
       then [Preparation (c\<lparr>cd_phase := Preparing\<rparr>) (cd_generation c) tok] else [])"
proof -
  have triv: "c\<lparr>cd_phase := cd_phase c\<rparr> = c" by simp
  have all: "get_candidate j (registry (prepare_one clk c s)) =
      (if j = i then Some (c\<lparr>cd_phase := next_phase (clk (reads s)) c\<rparr>) else get_candidate j (registry s)) \<and>
    generationCounter (registry (prepare_one clk c s)) = generationCounter (registry s) \<and>
    reads (prepare_one clk c s) = Suc (reads s) \<and>
    (\<exists>tok. launched (prepare_one clk c s) = launched s @ (if due (clk (reads s)) c
       then [Preparation (c\<lparr>cd_phase := Preparing\<rparr>) (cd_generation c) tok] else []))"
  proof (cases rule: prepare_one_cases [OF d c refl, of clk, case_names skip early over due])
    case skip
    then show ?thesis using c triv by (simp add: next_phase_def due_def)
  next
    case (early x s2)
    then show ?thesis using c triv by (simp add: ensuredD [OF early(4)] next_phase_def due_def)
  next
    case (over x s2)
    then have "get_candidate i (registry s2) = Some c" using c by (simp add: ensuredD [OF over(3)])
    from over moved_to_fields [OF this, where x = x and q = Completed] show ?thesis
      by (simp add: ensuredD [OF over(3)] next_phase_def due_def)
  next
    case (due x s2)
    then have "get_candidate i (registry s2) = Some c" using c by (simp add: ensuredD [OF due(2)])
    from due moved_to_fields [OF this, where x = x and q = Preparing] show ?thesis
      by (auto simp: ensuredD [OF due(2)] next_phase_def due_def)
  qed
  from all show "get_candidate j (registry (prepare_one clk c s)) =
      (if j = i then Some (c\<lparr>cd_phase := next_phase (clk (reads s)) c\<rparr>) else get_candidate j (registry s))"
    "generationCounter (registry (prepare_one clk c s)) = generationCounter (registry s)"
    "reads (prepare_one clk c s) = Suc (reads s)"
    "\<exists>tok. launched (prepare_one clk c s) = launched s @ (if due (clk (reads s)) c
       then [Preparation (c\<lparr>cd_phase := Preparing\<rparr>) (cd_generation c) tok] else [])" by blast+
qed

lemma good_reads [simp]: "good w s (s\<lparr>reads := k\<rparr>)"
  by (rule good_frame) (simp_all add: prep_tokens_def)

text \<open>The token of a session that was waiting has not been prepared before.\<close>

lemma prep_inv_due:
  assumes p: "prep_inv s" and d: "data_inv s" and x: "map_of (sessions s) i = Some x" "se_phase x = Waiting"
    and s': "prep_tokens s' = prep_tokens s @ [se_sessionToken x]" "sessionTokenCounter s' = sessionTokenCounter s"
      "sessions s' = map_set i (x\<lparr>se_phase := Preparing\<rparr>) (sessions s)"
  shows "prep_inv s'"
proof -
  have new: "se_sessionToken x \<notin> set (prep_tokens s)" using p x unfolding prep_inv_def by blast
  have le: "se_sessionToken x \<le> sessionTokenCounter s"
    using data_session [OF d [unfolded data_inv_def] x(1)] by (simp add: session_ok_def)
  have "t \<le> sessionTokenCounter s' \<and> (\<forall>j y. map_of (sessions s') j = Some y \<longrightarrow> se_sessionToken y = t \<longrightarrow> se_phase y \<noteq> Waiting)"
    if "t \<in> set (prep_tokens s')" for t
  proof (intro conjI allI impI)
    from that s'(1) have t: "t \<in> set (prep_tokens s) \<or> t = se_sessionToken x" by auto
    show "t \<le> sessionTokenCounter s'" using t le p s'(2) unfolding prep_inv_def by auto
    fix j y assume y: "map_of (sessions s') j = Some y" "se_sessionToken y = t"
    show "se_phase y \<noteq> Waiting"
    proof (cases "j = i")
      case True
      with y s'(3) show ?thesis by auto
    next
      case False
      with y s'(3) have yj: "map_of (sessions s) j = Some y" by simp
      then have "t \<noteq> se_sessionToken x" using data_token_unique [OF d [unfolded data_inv_def] yj x(1)] y(2) False by blast
      with t yj y(2) p show ?thesis unfolding prep_inv_def by blast
    qed
  qed
  moreover have "distinct (prep_tokens s')" using p new s'(1) by (simp add: prep_inv_def)
  ultimately show ?thesis unfolding prep_inv_def by blast
qed

lemma good_prepare_one:
  assumes d: "data_inv s" and c: "get_candidate i (registry s) = Some c"
  shows "good w s (prepare_one clk c s)"
proof (cases rule: prepare_one_cases [OF d c refl, of clk, case_names skip early over due])
  case skip
  then show ?thesis by simp
next
  case (early x s2)
  from good_trans [OF good_reads ensured_good [OF early(4)]] early(5) show ?thesis by simp
next
  case (over x s2)
  have c': "get_candidate i (registry (s\<lparr>reads := Suc (reads s)\<rparr>)) = Some c" using c by simp
  from good_trans [OF good_trans [OF good_reads ensured_good [OF over(3)]] moved_to_good [OF over(3) c', of w Completed]] over(4)
  show ?thesis by simp
next
  case (due x s2)
  have c': "get_candidate i (registry (s\<lparr>reads := Suc (reads s)\<rparr>)) = Some c" using c by simp
  have c2: "get_candidate i (registry s2) = Some c" using c by (simp add: ensuredD [OF due(2)])
  let ?m = "moved_to i c x Preparing s2"
  let ?t = "launch (Preparation (c\<lparr>cd_phase := Preparing\<rparr>) (cd_generation c) (se_sessionToken x)) ?m"
  note f = moved_to_fields [OF c2, where x = x and q = Preparing]
  have w: "se_phase x = Waiting" using due(1) ensuredD(7) [OF due(2)] by (simp add: due_def)
  have "data_inv ?t" using moved_to_inv [OF due(2) c', of Preparing] by simp
  moreover have "follows w s2 ?t"
    by (rule follows_congR [OF moved_to_follows [OF due(2), of w Preparing]]) simp_all
  moreover have "prep_tokens ?t = prep_tokens s2 @ [se_sessionToken x]"
    using prep_tokens_cong [OF f(3)] by simp
  then have "prep_inv ?t" if "prep_inv s2"
    by (rule prep_inv_due [OF that ensured_inv [OF due(2)] ensuredD(5) [OF due(2)] w]) (simp_all add: f(5,6))
  ultimately have "good w s2 ?t" by (simp add: good_def)
  from good_trans [OF good_trans [OF good_reads ensured_good [OF due(2)]] this] due(3) show ?thesis by simp
qed

text \<open>A list of candidates that is still as it was read from the registry.\<close>

definition unread :: "recording_candidate list \<Rightarrow> schedule \<Rightarrow> bool" where
  "unread cs s \<longleftrightarrow> distinct (map cd_reservationId cs) \<and>
     (\<forall>c \<in> set cs. get_candidate (cd_reservationId c) (registry s) = Some c)"

lemma unread_Cons:
  assumes d: "data_inv s" and u: "unread (c # cs) s"
  shows "get_candidate (cd_reservationId c) (registry s) = Some c" "unread cs (prepare_one clk c s)"
proof -
  show c: "get_candidate (cd_reservationId c) (registry s) = Some c" using u by (simp add: unread_def)
  show "unread cs (prepare_one clk c s)"
    unfolding unread_def
  proof (intro conjI ballI)
    show "distinct (map cd_reservationId cs)" using u by (simp add: unread_def)
    fix e assume e: "e \<in> set cs"
    then have "cd_reservationId e \<noteq> cd_reservationId c" using u by (force simp: unread_def)
    moreover have "get_candidate (cd_reservationId e) (registry s) = Some e" using u e unfolding unread_def by simp
    ultimately show "get_candidate (cd_reservationId e) (registry (prepare_one clk c s)) = Some e"
      using prepare_one_effect(1) [OF d c, where clk = clk] by simp
  qed
qed

lemma good_prepare_all: "data_inv s \<Longrightarrow> unread cs s \<Longrightarrow> good w s (prepare_all clk cs s)"
proof (induction cs arbitrary: s)
  case (Cons c cs)
  note u = unread_Cons [OF Cons.prems]
  have g: "good w s (prepare_one clk c s)" by (rule good_prepare_one [OF Cons.prems(1) u(1)])
  then show ?case using good_trans [OF g Cons.IH [OF good_data [OF g Cons.prems(1)] u(2)]] by simp
qed simp

lemma unread_list: "registry_ok (registry s) \<Longrightarrow> unread (list_candidates (registry s)) s"
proof -
  assume ok: "registry_ok (registry s)"
  have k: "keys_ok (candidates (registry s))" by (rule registry_ok_keys(1) [OF ok])
  have p: "get_candidate i (registry s) = Some c \<and> cd_reservationId c = i" if "(i, c) \<in> set (candidates (registry s))" for i c
    using that in_map [OF k] candidate_id [OF ok] by (simp add: get_candidate_def)
  have "map cd_reservationId (list_candidates (registry s)) = map fst (candidates (registry s))"
    using p by (force simp: list_candidates_def intro: map_cong)
  moreover have "get_candidate (cd_reservationId c) (registry s) = Some c" if "c \<in> set (list_candidates (registry s))" for c
    using that p by (force simp: list_candidates_def)
  ultimately show ?thesis using k by (simp add: unread_def keys_ok_def)
qed

lemma data_inv_registry: "data_inv s \<Longrightarrow> registry_ok (registry s)"
  unfolding data_inv_def by (rule data_okD(1))

lemma good_preparations: "good w s (dispatchDuePreparations clk s)"
proof (cases "data_inv s")
  case True
  then show ?thesis unfolding dispatchDuePreparations_def
    by (intro good_prepare_all unread_list data_inv_registry)
qed (simp add: good_def)

subsection \<open>The milestones\<close>

lemma good_delete_end: "good w s (s\<lparr>timeSpecifiedEnds := map_delete i (timeSpecifiedEnds s)\<rparr>)"
  by (rule goodI) (simp_all add: data_inv_def data_delete_end follows_frame prep_tokens_def)

definition end_due :: "int \<Rightarrow> schedule \<Rightarrow> time_end \<Rightarrow> bool" where
  "end_due n s m \<longleftrightarrow> te_dueAt m \<le> n \<and>
     (\<exists>c. get_candidate (te_reservationId m) (registry s) = Some c \<and> isActiveTimeSpecifiedMilestone c m)"

lemma end_one_cases:
  assumes d: "data_inv s" and m: "map_of (timeSpecifiedEnds s) i = Some m"
  obtains (gone) "get_candidate i (registry s) = None" "end_one clk m s = s"
  | (stale) c x s1 where "get_candidate i (registry s) = Some c" "\<not> isActiveTimeSpecifiedMilestone c m"
      "ensured i c s x s1" "end_one clk m s = s1\<lparr>timeSpecifiedEnds := map_delete i (timeSpecifiedEnds s1)\<rparr>"
  | (wait) c where "get_candidate i (registry s) = Some c" "isActiveTimeSpecifiedMilestone c m"
      "clk (reads s) < te_dueAt m" "end_one clk m s = s\<lparr>reads := Suc (reads s)\<rparr>"
  | (due) c x where "get_candidate i (registry s) = Some c" "isActiveTimeSpecifiedMilestone c m"
      "te_dueAt m \<le> clk (reads s)" "ensured i c s x s"
      "end_one clk m s = launch (TimeEnd m) ((moved_to i c x Finishing (s\<lparr>reads := Suc (reads s)\<rparr>))
         \<lparr>timeSpecifiedEnds := map_delete i (timeSpecifiedEnds s)\<rparr>)"
proof -
  have e: "end_ok (registry s) (sessions s) i m" by (rule data_end [OF d [unfolded data_inv_def] m])
  then have i: "te_reservationId m = i" by (simp add: end_ok_def)
  show ?thesis
  proof (cases "get_candidate i (registry s)")
    case None
    then show ?thesis by (intro gone) (simp_all add: end_one_def i)
  next
    case (Some c)
    obtain x s1 where x: "ensureSession c s = (x, s1)" by (cases "ensureSession c s")
    have en: "ensured i c s x s1" by (rule ensureSession_ensured [OF d Some x])
    show ?thesis
    proof (cases "isActiveTimeSpecifiedMilestone c m")
      case False
      with Some en show ?thesis by (intro stale [of c x s1]) (simp_all add: end_one_def i x)
    next
      case True
      then have g: "te_generation m = cd_generation c" by (simp add: isActiveTimeSpecifiedMilestone_def)
      with e Some obtain y where y: "map_of (sessions s) i = Some y" "se_generation y = cd_generation c"
        "se_sessionToken y = te_sessionToken m" by (auto simp: end_ok_def)
      have "cd_reservationId c = i" by (rule candidate_id [OF data_inv_registry [OF d] Some])
      with x y have xs: "x = y" "s1 = s" by (auto simp: ensureSession_def)
      let ?s2 = "s\<lparr>reads := Suc (reads s)\<rparr>"
      have en2: "ensured i c ?s2 y ?s2" using en xs by (simp add: ensured_def)
      have c2: "get_candidate i (registry ?s2) = Some c" using Some by simp
      have t: "tryTransitionSession i (te_generation m) (te_sessionToken m) (se_phase y) Finishing ?s2 =
          (True, moved_to i c y Finishing ?s2)"
        using transition_succeeds [OF en2 c2, of Finishing] g y(3) ensuredD(7) [OF en] xs by simp
      show ?thesis
      proof (cases "clk (reads s) < te_dueAt m")
        case True
        with \<open>isActiveTimeSpecifiedMilestone c m\<close> Some show ?thesis
          by (intro wait [of c]) (simp_all add: end_one_def i x xs now_of_def)
      next
        case False
        have "timeSpecifiedEnds (moved_to i c y Finishing ?s2) = timeSpecifiedEnds s"
          using moved_to_fields(7) [OF c2, of y Finishing] by simp
        with False \<open>isActiveTimeSpecifiedMilestone c m\<close> Some en xs t show ?thesis
          by (intro due [of c y]) (simp_all add: end_one_def i x now_of_def)
      qed
    qed
  qed
qed

lemma good_end_one:
  assumes d: "data_inv s" and m: "map_of (timeSpecifiedEnds s) i = Some m"
  shows "good w s (end_one clk m s)"
proof (cases rule: end_one_cases [OF d m, of clk, case_names gone stale wait due])
  case gone
  then show ?thesis by simp
next
  case (stale c x s1)
  with good_trans [OF ensured_good [OF stale(3)] good_delete_end] show ?thesis by simp
next
  case wait
  then show ?thesis by simp
next
  case (due c x)
  let ?s2 = "s\<lparr>reads := Suc (reads s)\<rparr>" and ?m = "moved_to i c x Finishing (s\<lparr>reads := Suc (reads s)\<rparr>)"
  have c2: "get_candidate i (registry ?s2) = Some c" using due(1) by simp
  have e2: "ensured i c ?s2 x ?s2" using due(4) by (simp add: ensured_def)
  have "good w s ?m" by (rule good_trans [OF good_reads moved_to_good [OF e2 c2]]) simp
  moreover have "timeSpecifiedEnds ?m = timeSpecifiedEnds s" using moved_to_fields(7) [OF c2, of x Finishing] by simp
  moreover have "good w ?m (?m\<lparr>timeSpecifiedEnds := map_delete i (timeSpecifiedEnds ?m)\<rparr>)" by (rule good_delete_end)
  ultimately show ?thesis using due(5) good_trans good_launch(3) by metis
qed

lemma end_one_effect:
  assumes d: "data_inv s" and m: "map_of (timeSpecifiedEnds s) i = Some m"
  shows "map_of (timeSpecifiedEnds (end_one clk m s)) j = (if j = i \<and> get_candidate i (registry s) \<noteq> None \<and>
        (end_due (clk (reads s)) s m \<or> (\<nexists>c. get_candidate i (registry s) = Some c \<and> isActiveTimeSpecifiedMilestone c m))
      then None else map_of (timeSpecifiedEnds s) j)"
    "get_candidate j (registry (end_one clk m s)) = (if j = i \<and> end_due (clk (reads s)) s m
      then map_option (cd_phase_update (\<lambda>_. Finishing)) (get_candidate j (registry s)) else get_candidate j (registry s))"
    "launched (end_one clk m s) = launched s @ (if end_due (clk (reads s)) s m then [TimeEnd m] else [])"
proof -
  have i: "te_reservationId m = i" using data_end [OF d [unfolded data_inv_def] m] by (simp add: end_ok_def)
  have "map_of (timeSpecifiedEnds (end_one clk m s)) j = (if j = i \<and> get_candidate i (registry s) \<noteq> None \<and>
        (end_due (clk (reads s)) s m \<or> (\<nexists>c. get_candidate i (registry s) = Some c \<and> isActiveTimeSpecifiedMilestone c m))
      then None else map_of (timeSpecifiedEnds s) j) \<and>
    get_candidate j (registry (end_one clk m s)) = (if j = i \<and> end_due (clk (reads s)) s m
      then map_option (cd_phase_update (\<lambda>_. Finishing)) (get_candidate j (registry s)) else get_candidate j (registry s)) \<and>
    launched (end_one clk m s) = launched s @ (if end_due (clk (reads s)) s m then [TimeEnd m] else [])"
  proof (cases rule: end_one_cases [OF d m, of clk, case_names gone stale wait due])
    case gone
    then show ?thesis by (simp add: end_due_def i)
  next
    case (stale c x s1)
    then show ?thesis by (simp add: end_due_def i ensuredD [OF stale(3)])
  next
    case (wait c)
    then show ?thesis by (simp add: end_due_def i)
  next
    case (due c x)
    have "get_candidate i (registry (s\<lparr>reads := Suc (reads s)\<rparr>)) = Some c" using due(1) by simp
    from moved_to_fields [OF this, where x = x and q = Finishing] due show ?thesis by (simp add: end_due_def i)
  qed
  then show "map_of (timeSpecifiedEnds (end_one clk m s)) j = (if j = i \<and> get_candidate i (registry s) \<noteq> None \<and>
        (end_due (clk (reads s)) s m \<or> (\<nexists>c. get_candidate i (registry s) = Some c \<and> isActiveTimeSpecifiedMilestone c m))
      then None else map_of (timeSpecifiedEnds s) j)"
    "get_candidate j (registry (end_one clk m s)) = (if j = i \<and> end_due (clk (reads s)) s m
      then map_option (cd_phase_update (\<lambda>_. Finishing)) (get_candidate j (registry s)) else get_candidate j (registry s))"
    "launched (end_one clk m s) = launched s @ (if end_due (clk (reads s)) s m then [TimeEnd m] else [])" by blast+
qed

text \<open>The milestones of a list that are still registered.\<close>

definition registered :: "time_end list \<Rightarrow> schedule \<Rightarrow> bool" where
  "registered ms s \<longleftrightarrow> distinct (map te_reservationId ms) \<and>
     (\<forall>m \<in> set ms. map_of (timeSpecifiedEnds s) (te_reservationId m) = Some m)"

lemma registered_Cons:
  assumes d: "data_inv s" and r: "registered (m # ms) s"
  shows "map_of (timeSpecifiedEnds s) (te_reservationId m) = Some m" "registered ms (end_one clk m s)"
proof -
  show m: "map_of (timeSpecifiedEnds s) (te_reservationId m) = Some m" using r by (simp add: registered_def)
  show "registered ms (end_one clk m s)"
    unfolding registered_def
  proof (intro conjI ballI)
    show "distinct (map te_reservationId ms)" using r by (simp add: registered_def)
    fix e assume e: "e \<in> set ms"
    then have "te_reservationId e \<noteq> te_reservationId m" using r by (force simp: registered_def)
    moreover have "map_of (timeSpecifiedEnds s) (te_reservationId e) = Some e" using r e unfolding registered_def by simp
    ultimately show "map_of (timeSpecifiedEnds (end_one clk m s)) (te_reservationId e) = Some e"
      using end_one_effect(1) [OF d m, where clk = clk] by simp
  qed
qed

lemma good_end_all: "data_inv s \<Longrightarrow> registered ms s \<Longrightarrow> good w s (end_all clk ms s)"
proof (induction ms arbitrary: s)
  case (Cons m ms)
  note r = registered_Cons [OF Cons.prems]
  have g: "good w s (end_one clk m s)" by (rule good_end_one [OF Cons.prems(1) r(1)])
  then show ?case using good_trans [OF g Cons.IH [OF good_data [OF g Cons.prems(1)] r(2)]] by simp
qed simp

lemma registered_all:
  assumes d: "data_inv s"
  shows "registered (map snd (timeSpecifiedEnds s)) s"
proof -
  have k: "keys_ok (timeSpecifiedEnds s)" using d unfolding data_inv_def by (rule data_okD(3))
  have p: "map_of (timeSpecifiedEnds s) i = Some m \<and> te_reservationId m = i" if "(i, m) \<in> set (timeSpecifiedEnds s)" for i m
    using that in_map [OF k] data_end [OF d [unfolded data_inv_def], of i m] by (simp add: end_ok_def)
  have "map te_reservationId (map snd (timeSpecifiedEnds s)) = map fst (timeSpecifiedEnds s)"
    using p by (force intro: map_cong)
  moreover have "map_of (timeSpecifiedEnds s) (te_reservationId m) = Some m" if "m \<in> set (map snd (timeSpecifiedEnds s))" for m
    using that p by force
  ultimately show ?thesis using k unfolding registered_def keys_ok_def by metis
qed

lemma good_ends: "good w s (dispatchDueTimeSpecifiedEnds clk s)"
proof (cases "data_inv s")
  case True
  then show ?thesis unfolding dispatchDueTimeSpecifiedEnds_def by (intro good_end_all registered_all)
qed (simp add: good_def)

subsection \<open>The evaluation\<close>

lemma good_rerun [simp]: "good w s (s\<lparr>rerunRequested := b\<rparr>)"
  by (rule good_frame) (simp_all add: prep_tokens_def)

lemma good_round: "good w s (evaluate_round clk s)"
proof -
  let ?s0 = "s\<lparr>rerunRequested := False\<rparr>"
  let ?s1 = "applyQueuedWork ?s0"
  let ?s2 = "dispatchDuePreparations clk ?s1"
  have 1: "good w s ?s1" by (rule good_trans [OF good_rerun good_queue])
  have 2: "good w s ?s2" by (rule good_trans [OF 1 good_preparations])
  have 3: "good w s (dispatchDueTimeSpecifiedEnds clk ?s2)" by (rule good_trans [OF 2 good_ends])
  have "good w s (?s1\<lparr>rerunRequested := True\<rparr>)" "good w s (?s2\<lparr>rerunRequested := True\<rparr>)"
    using good_trans [OF 1 good_rerun] good_trans [OF 2 good_rerun] by blast+
  with 3 show ?thesis by (simp add: evaluate_round_def Let_def)
qed

lemma round_control:
  "queuedMutations (evaluate_round clk s) = []" "\<not> resetRequested (evaluate_round clk s)"
  "\<not> rerunRequested (evaluate_round clk s)" "started (evaluate_round clk s) = started s"
  "\<not> hasQueuedWork (evaluate_round clk s)"
  using control_eqD(1-4) [OF control_round [of clk s]] by (simp_all add: hasQueuedWork_def)

lemma loop_is_round: "evaluate_loop clk s = evaluate_round clk s"
  by (subst evaluate_loop.simps) (simp add: Let_def round_control)

declare evaluate_loop.simps [simp del]

text \<open>The evaluation without its arming.\<close>

definition evaluated :: "clock \<Rightarrow> schedule \<Rightarrow> schedule" where
  "evaluated clk s = (evaluate_round clk (s\<lparr>evaluationRunning := True\<rparr>))\<lparr>evaluationRunning := False\<rparr>"

lemma evaluate_evaluated:
  "evaluate clk s = resolveIdleWaiters (if started s then armSingleWake clk (evaluated clk s) else evaluated clk s)"
  by (simp add: evaluate_def evaluated_def loop_is_round round_control Let_def)

lemma evaluated_control:
  "control (evaluated clk s) = control (s\<lparr>queuedMutations := [], resetRequested := False, rerunRequested := False,
     evaluationRunning := False\<rparr>)"
  using control_eqD [OF control_round [of clk "s\<lparr>evaluationRunning := True\<rparr>"]]
  by (simp add: control_def evaluated_def)

lemma good_evaluated: "good w s (evaluated clk s)"
proof -
  let ?t = "s\<lparr>evaluationRunning := True\<rparr>"
  have "good w s ?t" by (rule good_frame) (simp_all add: prep_tokens_def)
  moreover have "good w ?t (evaluate_round clk ?t)" by (rule good_round)
  moreover have "good w (evaluate_round clk ?t) (evaluated clk s)"
    unfolding evaluated_def by (rule good_frame) (simp_all add: prep_tokens_def)
  ultimately show ?thesis by (blast intro: good_trans)
qed

lemma good_milestones: "good w s (snd (milestone_deadlines ms s))"
proof (induction ms s rule: milestone_deadlines.induct)
  case (2 i m ms s)
  let ?t = "s\<lparr>timeSpecifiedEnds := map_delete (te_reservationId m) (timeSpecifiedEnds s)\<rparr>"
  have t: "good w s ?t" by (rule good_delete_end)
  show ?case
  proof (cases "get_candidate (te_reservationId m) (registry s)")
    case None
    with 2(1) good_trans [OF t] show ?thesis by simp
  next
    case (Some c)
    with 2 good_trans [OF t] show ?thesis by (cases "isActiveTimeSpecifiedMilestone c m") (simp_all add: case_prod_beta)
  qed
qed simp

lemma control_milestones [control_simps]: "control (snd (milestone_deadlines ms s)) = control s"
proof (induction ms s rule: milestone_deadlines.induct)
  case (2 i m ms s)
  then show ?case by (simp add: control_simps case_prod_beta split: option.splits)
qed simp

text \<open>\<open>same_data\<close>: only control fields differ.\<close>

definition same_data :: "schedule \<Rightarrow> schedule \<Rightarrow> bool" where
  "same_data s t \<longleftrightarrow> registry t = registry s \<and> sessions t = sessions s \<and> timeSpecifiedEnds t = timeSpecifiedEnds s \<and>
     sessionTokenCounter t = sessionTokenCounter s \<and> launched t = launched s"

lemma same_data_good: "same_data s t \<Longrightarrow> good w s t"
  by (rule good_frame) (simp_all add: same_data_def prep_tokens_def)

lemma same_cancel: "same_data s (cancel_timer s)"
  by (simp add: cancel_timer_def same_data_def split: option.splits)

lemma same_invalidate: "same_data s (invalidateScheduledWake s)"
  by (simp add: invalidateScheduledWake_def issueControllerToken_def cancel_timer_def same_data_def Let_def split: option.splits)

lemma same_microtask: "same_data s (scheduleMicrotaskWake s)"
  by (simp add: scheduleMicrotaskWake_def issueControllerToken_def same_data_def Let_def)

lemma same_coalesce: "same_data s (requestCoalescedEvaluation s)"
  by (simp add: requestCoalescedEvaluation_def scheduleMicrotaskWake_def cancelArmedWake_def cancel_timer_def
      issueControllerToken_def same_data_def Let_def split: option.splits)

lemma same_resolve: "same_data s (resolveIdleWaiters s)"
  by (simp add: resolveIdleWaiters_def same_data_def)

text \<open>The state \<open>armSingleWake\<close> schedules from.\<close>

definition deadlines_state :: "clock \<Rightarrow> schedule \<Rightarrow> schedule" where
  "deadlines_state clk s = snd (schedulerOwnedDeadlines (snd (now_of clk s)))"

lemma good_deadlines: "good w s (deadlines_state clk s)"
  using good_trans [OF good_reads good_milestones]
  by (simp add: deadlines_state_def schedulerOwnedDeadlines_def now_of_def case_prod_beta)

lemma control_deadlines [control_simps]: "control (deadlines_state clk s) = control s"
  using control_milestones [of "timeSpecifiedEnds s" "s\<lparr>reads := Suc (reads s)\<rparr>"]
  by (simp add: deadlines_state_def schedulerOwnedDeadlines_def now_of_def control_simps case_prod_beta)

definition deadlines_of :: "schedule \<Rightarrow> int list" where
  "deadlines_of s = map cd_prepareAt (filter (\<lambda>c. cd_phase c = Waiting) (list_candidates (registry s))) @
     fst (milestone_deadlines (timeSpecifiedEnds s) (s\<lparr>reads := Suc (reads s)\<rparr>))"

lemma armSingleWake_eq:
  "armSingleWake clk s =
     (let s2 = deadlines_state clk s; delay = computeNextDelay (clk (reads s)) (deadlines_of s)
      in if delay = 0 then scheduleMicrotaskWake s2
         else s2\<lparr>controllerTokenCounter := controllerTokenCounter s2 + 1,
                currentControllerToken := controllerTokenCounter s2 + 1,
                timers := timers s2 @ [(controllerTokenCounter s2 + 1, delay)],
                armedWake := Some (controllerTokenCounter s2 + 1)\<rparr>)"
  by (simp add: armSingleWake_def now_of_def schedulerOwnedDeadlines_def deadlines_state_def deadlines_of_def
      issueControllerToken_def Let_def split: prod.splits)

lemma good_arm: "good w s (armSingleWake clk s)"
proof -
  have "same_data (deadlines_state clk s) (armSingleWake clk s)"
    using same_microtask [of "deadlines_state clk s"] by (simp add: armSingleWake_eq Let_def same_data_def)
  then show ?thesis using good_trans [OF good_deadlines same_data_good] by blast
qed

lemma good_evaluate: "good w s (evaluate clk s)"
proof -
  have "good w s (if started s then armSingleWake clk (evaluated clk s) else evaluated clk s)"
    using good_evaluated good_trans [OF good_evaluated good_arm] by simp
  then show ?thesis unfolding evaluate_evaluated by (rule good_trans) (rule same_data_good [OF same_resolve])
qed

lemma good_wake: "good w s (wake clk s)"
  using good_trans [OF same_data_good [OF same_invalidate] good_evaluate] by (simp add: wake_def)

lemma good_registry:
  assumes "registry_ok (registry s) \<Longrightarrow> registry_later (registry s) g"
  shows "good w s (s\<lparr>registry := g\<rparr>)"
proof (rule goodI)
  assume d: "data_inv s"
  from data_later [OF d [unfolded data_inv_def] assms [OF data_inv_registry [OF d]]]
  show "data_inv (s\<lparr>registry := g\<rparr>)" by (simp add: data_inv_def)
qed (simp_all add: follows_frame prep_tokens_def)

lemma good_stop: "good w s (stop s)"
proof -
  let ?t = "s\<lparr>started := False, rerunRequested := False, resetRequested := False, queuedMutations := [],
      timeSpecifiedEnds := [], sessions := []\<rparr>"
  have "good w s ?t"
    by (rule goodI) (auto simp: data_inv_def data_ok_def prep_tokens_def follows_def)
  moreover have "good w ?t (invalidateScheduledWake ?t)" by (rule same_data_good [OF same_invalidate])
  moreover have "good w (invalidateScheduledWake ?t) (stop s)"
    unfolding stop_def by (rule same_data_good [OF same_resolve])
  ultimately show ?thesis by (blast intro: good_trans)
qed

lemma good_accept: "good w s (acceptMutation m s)"
proof (cases "copyMutation m")
  case (Inl e)
  then show ?thesis by (simp add: acceptMutation_def) (rule same_data_good, simp add: same_data_def)
next
  case (Inr copy)
  have "good w s (s\<lparr>queuedMutations := queuedMutations s @ [copy]\<rparr>)"
    by (rule same_data_good) (simp add: same_data_def)
  from good_trans [OF this same_data_good [OF same_coalesce]] Inr show ?thesis by (simp add: acceptMutation_def)
qed

lemma good_register: "good w s (registerTimeSpecifiedEnd clk i g t d s)"
proof (cases "data_inv s")
  case True
  show ?thesis
  proof (cases "get_candidate i (registry s)")
    case None
    then show ?thesis by (simp add: registerTimeSpecifiedEnd_def)
  next
    case (Some c)
    obtain x s1 where x: "ensureSession c s = (x, s1)" by (cases "ensureSession c s")
    have e: "ensured i c s x s1" by (rule ensureSession_ensured [OF True Some x])
    have 1: "good w s s1" by (rule ensured_good [OF e])
    let ?m = "\<lparr>te_reservationId = i, te_generation = g, te_sessionToken = se_sessionToken x, te_dueAt = d\<rparr>"
    let ?t = "s1\<lparr>timeSpecifiedEnds := map_set i ?m (timeSpecifiedEnds s1)\<rparr>"
    have 2: "good w s1 ?t" if a: "isActiveTimeSpecifiedMilestone c ?m"
    proof (rule goodI)
      have g: "se_generation x = te_generation ?m" using a ensuredD(6) [OF e] by (simp add: isActiveTimeSpecifiedMilestone_def)
      show "data_inv s1 \<Longrightarrow> data_inv ?t"
        using data_set_end [OF _ ensuredD(5) [OF e] g] by (simp add: data_inv_def)
    qed (simp_all add: follows_frame prep_tokens_def)
    show ?thesis
      using Some x 1 good_trans [OF 1 good_trans [OF 2 good_wake]]
      by (simp add: registerTimeSpecifiedEnd_def Let_def)
  qed
qed (simp add: good_def)

lemma good_unregister: "good w s (removeTimeSpecifiedEnd clk i eg et s)"
  using good_trans [OF good_delete_end good_wake]
  by (simp add: removeTimeSpecifiedEnd_def split: option.splits)

lemma good_timer: "good w s (timer_fires clk t s)"
proof -
  let ?s1 = "s\<lparr>timers := filter (\<lambda>p. fst p \<noteq> t) (timers s)\<rparr>"
  have "good w s ?s1" "good w s (?s1\<lparr>armedWake := None\<rparr>)"
    by (rule same_data_good, simp add: same_data_def)+
  with good_trans [OF this(2) good_evaluate] show ?thesis
    unfolding timer_fires_def Let_def by (simp only: if_split) blast
qed

lemma good_microtask: "good w s (microtask_runs clk s)"
proof (cases "microtasks s")
  case (Cons t ts)
  let ?s1 = "s\<lparr>microtasks := ts\<rparr>"
  have "good w s ?s1" "good w s (?s1\<lparr>microtaskScheduled := False\<rparr>)"
    by (rule same_data_good, simp add: same_data_def)+
  with good_trans [OF this(2) good_evaluate] Cons show ?thesis by (simp add: microtask_runs_def Let_def)
qed (simp add: microtask_runs_def)

lemma good_step: "schedule_step clk w s s' \<Longrightarrow> good w s s'"
proof (induction rule: schedule_step.induct)
  case (start s)
  have "good w s (s\<lparr>started := True\<rparr>)" by (rule same_data_good) (simp add: same_data_def)
  from good_trans [OF this good_wake] show ?case by (simp add: start_def)
next
  case (reset s)
  have "good w s (s\<lparr>resetRequested := True\<rparr>)" by (rule same_data_good) (simp add: same_data_def)
  from good_trans [OF this same_data_good [OF same_coalesce]] show ?case by (simp add: requestReset_def)
next
  case (idle s w)
  show ?case by (simp add: whenIdle_def) (intro conjI impI same_data_good, simp_all add: same_data_def)
next
  case (transition q s i g t p)
  then show ?case by (intro good_transition) auto
next
  case (rebuild s rs)
  show ?case by (rule good_registry) (rule later_rebuild)
next
  case (remove s i)
  show ?case by (rule good_registry) (rule later_remove)
qed (simp_all add: good_stop good_accept good_wake good_snapshot good_register good_unregister good_timer good_microtask)

subsection \<open>The wake-ups\<close>

lemma computeNextDelay_bounds: "0 \<le> computeNextDelay n ds \<and> computeNextDelay n ds \<le> SCAN_INTERVAL_MS"
  by (auto simp: computeNextDelay_def SCAN_INTERVAL_MS_def Let_def split: option.splits)

text \<open>Between the steps: exactly one wake-up is pending while the controller runs, it is the one the
  current token names, work in the queue has its microtask, and nobody waits for an idle controller.\<close>

definition tokens_ok :: "schedule \<Rightarrow> bool" where
  "tokens_ok s \<longleftrightarrow> currentControllerToken s \<le> controllerTokenCounter s \<and> distinct (microtasks s) \<and>
     (\<forall>t \<in> set (microtasks s). t \<le> controllerTokenCounter s) \<and> \<not> evaluationRunning s \<and> \<not> rerunRequested s"

definition timer_ok :: "schedule \<Rightarrow> bool" where
  "timer_ok s \<longleftrightarrow> (case armedWake s of
      None \<Rightarrow> timers s = []
    | Some t \<Rightarrow> (\<exists>d. timers s = [(t, d)] \<and> 0 < d \<and> d \<le> SCAN_INTERVAL_MS) \<and> t = currentControllerToken s \<and>
        started s \<and> \<not> microtaskScheduled s)"

definition wake_inv :: "schedule \<Rightarrow> bool" where
  "wake_inv s \<longleftrightarrow> tokens_ok s \<and> timer_ok s \<and>
     (microtaskScheduled s \<longleftrightarrow> currentControllerToken s \<in> set (microtasks s)) \<and>
     (microtaskScheduled s \<longrightarrow> started s) \<and>
     (started s \<longrightarrow> armedWake s \<noteq> None \<or> microtaskScheduled s) \<and>
     (started s \<longrightarrow> hasQueuedWork s \<longrightarrow> microtaskScheduled s) \<and>
     (isIdle s \<longrightarrow> idleWaiters s = [])"

text \<open>About to evaluate: running, and no wake-up is pending.\<close>

definition awake :: "schedule \<Rightarrow> bool" where
  "awake s \<longleftrightarrow> tokens_ok s \<and> started s \<and> armedWake s = None \<and> timers s = [] \<and> \<not> microtaskScheduled s \<and>
     currentControllerToken s \<notin> set (microtasks s)"

lemma wake_inv_new: "wake_inv new_schedule"
  by (simp add: wake_inv_def new_schedule_def tokens_ok_def timer_ok_def hasQueuedWork_def)

lemma control_cong:
  assumes "control s = control t"
  shows "tokens_ok s = tokens_ok t" "timer_ok s = timer_ok t" "hasQueuedWork s = hasQueuedWork t"
    "isIdle s = isIdle t" "awake s = awake t" "wake_inv s = wake_inv t"
  using control_eqD [OF assms]
  by (simp_all add: tokens_ok_def timer_ok_def hasQueuedWork_def isIdle_def awake_def wake_inv_def split: option.split)

lemma tokens_fresh: "tokens_ok s \<Longrightarrow> controllerTokenCounter s + 1 \<notin> set (microtasks s)"
  by (auto simp: tokens_ok_def)

lemma invalidate_awake:
  assumes t: "tokens_ok s" "timer_ok s" "started s"
  shows "awake (invalidateScheduledWake s)" "queuedMutations (invalidateScheduledWake s) = queuedMutations s"
  using t tokens_fresh [OF t(1)]
  by (auto simp: awake_def tokens_ok_def timer_ok_def invalidateScheduledWake_def issueControllerToken_def
      cancel_timer_def Let_def split: option.splits)

lemma microtask_inv:
  assumes a: "awake s"
  shows "tokens_ok (scheduleMicrotaskWake s)" "timer_ok (scheduleMicrotaskWake s)"
    "microtaskScheduled (scheduleMicrotaskWake s)" "started (scheduleMicrotaskWake s)"
    "currentControllerToken (scheduleMicrotaskWake s) \<in> set (microtasks (scheduleMicrotaskWake s))"
    "hasQueuedWork (scheduleMicrotaskWake s) = hasQueuedWork s"
  using a tokens_fresh [of s]
  by (auto simp: awake_def scheduleMicrotaskWake_def issueControllerToken_def tokens_ok_def timer_ok_def
      hasQueuedWork_def Let_def)

text \<open>A state with its wake-up pending.\<close>

definition pending :: "schedule \<Rightarrow> bool" where
  "pending s \<longleftrightarrow> tokens_ok s \<and> timer_ok s \<and> started s \<and>
     (microtaskScheduled s \<longleftrightarrow> currentControllerToken s \<in> set (microtasks s)) \<and>
     (armedWake s \<noteq> None \<or> microtaskScheduled s) \<and> (hasQueuedWork s \<longrightarrow> microtaskScheduled s)"

lemma wake_inv_pending: "wake_inv s \<longleftrightarrow> (if started s then pending s \<and> (isIdle s \<longrightarrow> idleWaiters s = [])
    else tokens_ok s \<and> armedWake s = None \<and> timers s = [] \<and> \<not> microtaskScheduled s \<and>
      currentControllerToken s \<notin> set (microtasks s) \<and> (isIdle s \<longrightarrow> idleWaiters s = []))"
  by (cases "armedWake s") (auto simp: wake_inv_def pending_def timer_ok_def)

lemma microtask_pending: "awake s \<Longrightarrow> pending (scheduleMicrotaskWake s)"
  using microtask_inv [of s] by (simp add: pending_def)

lemma arm_pending:
  assumes a: "awake s" and q: "\<not> hasQueuedWork s"
  shows "pending (armSingleWake clk s)"
proof -
  let ?s2 = "deadlines_state clk s" and ?delay = "computeNextDelay (clk (reads s)) (deadlines_of s)"
  have c: "control ?s2 = control s" by (rule control_deadlines)
  have a2: "awake ?s2" and q2: "\<not> hasQueuedWork ?s2" using a q control_cong [OF c] by auto
  show ?thesis
  proof (cases "?delay = 0")
    case True
    with microtask_pending [OF a2] show ?thesis by (simp add: armSingleWake_eq Let_def)
  next
    case False
    with computeNextDelay_bounds [of "clk (reads s)" "deadlines_of s"] have "0 < ?delay" "?delay \<le> SCAN_INTERVAL_MS" by linarith+
    with False a2 q2 tokens_fresh [of ?s2] show ?thesis
      by (auto simp: armSingleWake_eq Let_def pending_def tokens_ok_def timer_ok_def awake_def hasQueuedWork_def)
  qed
qed

lemma resolve_pending: "pending s \<Longrightarrow> wake_inv (resolveIdleWaiters s)"
  unfolding wake_inv_pending
  by (auto simp: resolveIdleWaiters_def pending_def tokens_ok_def timer_ok_def hasQueuedWork_def isIdle_def split: option.splits)

lemma evaluate_wake_inv:
  assumes a: "awake s"
  shows "wake_inv (evaluate clk s)"
proof -
  have "awake (evaluated clk s)" "\<not> hasQueuedWork (evaluated clk s)"
    using a by (simp_all add: control_cong [OF evaluated_control]) (auto simp: awake_def tokens_ok_def hasQueuedWork_def)
  then have "pending (armSingleWake clk (evaluated clk s))" by (rule arm_pending)
  moreover have "started s" using a by (simp add: awake_def)
  ultimately show ?thesis by (simp add: evaluate_evaluated resolve_pending)
qed

lemma wake_inv_parts:
  assumes "wake_inv s"
  shows "tokens_ok s" "timer_ok s" "\<not> evaluationRunning s" "started s \<Longrightarrow> pending s"
  using assms by (auto simp: wake_inv_def pending_def tokens_ok_def)

lemma wake_wake_inv: "wake_inv s \<Longrightarrow> wake_inv (wake clk s)"
  using evaluate_wake_inv [OF invalidate_awake(1)] wake_inv_parts [of s] by (simp add: wake_def)

lemma coalesce_wake_inv:
  assumes w: "wake_inv s" and c: "control t = control (s\<lparr>queuedMutations := qs, resetRequested := b\<rparr>)"
    and q: "hasQueuedWork t"
  shows "wake_inv (requestCoalescedEvaluation t)"
proof -
  have t: "tokens_ok t" "timer_ok t" "\<not> evaluationRunning t" "started t = started s" "\<not> isIdle t"
    "microtaskScheduled t = microtaskScheduled s"
    using w q control_eqD [OF c] by (auto simp: control_cong [OF c] wake_inv_def tokens_ok_def timer_ok_def isIdle_def split: option.splits)
  have eq: "currentControllerToken t = currentControllerToken s" "microtasks t = microtasks s"
    "armedWake t = armedWake s" "timers t = timers s" using control_eqD [OF c] by simp_all
  consider "\<not> started t" | "started t" "microtaskScheduled t" | "started t" "\<not> microtaskScheduled t" by blast
  then show ?thesis
  proof cases
    case 1
    with w t eq show ?thesis by (auto simp: requestCoalescedEvaluation_def wake_inv_pending)
  next
    case 2
    then have "pending t" using w t eq unfolding wake_inv_pending by (auto simp: pending_def)
    with 2 t show ?thesis by (simp add: requestCoalescedEvaluation_def wake_inv_pending)
  next
    case 3
    have cur: "currentControllerToken t \<notin> set (microtasks t)" using w eq t(6) 3 by (simp add: wake_inv_def)
    have "awake (cancelArmedWake t)"
      using t 3 cur tokens_fresh [OF t(1)]
      by (auto simp: cancelArmedWake_def cancel_timer_def issueControllerToken_def awake_def tokens_ok_def timer_ok_def
          Let_def split: option.splits)
    then have p: "pending (scheduleMicrotaskWake (cancelArmedWake t))" "microtaskScheduled (scheduleMicrotaskWake (cancelArmedWake t))"
      by (rule microtask_pending, rule microtask_inv)
    then have "wake_inv (scheduleMicrotaskWake (cancelArmedWake t))" by (simp add: wake_inv_pending pending_def isIdle_def)
    with 3 t(3) show ?thesis by (simp add: requestCoalescedEvaluation_def)
  qed
qed

lemma frame_wake_inv: "wake_inv s \<Longrightarrow> control t = control s \<Longrightarrow> wake_inv t"
  using control_cong(6) by blast

lemma invalidate_eq:
  "invalidateScheduledWake s = s\<lparr>controllerTokenCounter := controllerTokenCounter s + 1,
     currentControllerToken := controllerTokenCounter s + 1, microtaskScheduled := False, armedWake := None,
     timers := (case armedWake s of None \<Rightarrow> timers s | Some t \<Rightarrow> filter (\<lambda>p. fst p \<noteq> t) (timers s))\<rparr>"
  by (cases "armedWake s") (simp_all add: invalidateScheduledWake_def issueControllerToken_def cancel_timer_def Let_def)

lemma invalidate_quiet:
  assumes t: "tokens_ok s" and a: "case armedWake s of None \<Rightarrow> timers s = [] | Some t \<Rightarrow> (\<exists>d. timers s = [(t, d)])"
  shows "tokens_ok (invalidateScheduledWake s)" "armedWake (invalidateScheduledWake s) = None"
    "timers (invalidateScheduledWake s) = []" "\<not> microtaskScheduled (invalidateScheduledWake s)"
    "currentControllerToken (invalidateScheduledWake s) \<notin> set (microtasks (invalidateScheduledWake s))"
    "started (invalidateScheduledWake s) = started s"
proof -
  show "tokens_ok (invalidateScheduledWake s)" using t by (fastforce simp: tokens_ok_def invalidate_eq)
  show "timers (invalidateScheduledWake s) = []" using a by (cases "armedWake s") (auto simp: invalidate_eq)
  show "currentControllerToken (invalidateScheduledWake s) \<notin> set (microtasks (invalidateScheduledWake s))"
    using tokens_fresh [OF t] by (simp add: invalidate_eq)
qed (simp_all add: invalidate_eq)

lemma stop_wake_inv:
  assumes w: "wake_inv s"
  shows "wake_inv (stop s)"
proof -
  let ?t = "s\<lparr>started := False, rerunRequested := False, resetRequested := False, queuedMutations := [],
      timeSpecifiedEnds := [], sessions := []\<rparr>"
  have "tokens_ok ?t" using wake_inv_parts(1) [OF w] by (simp add: tokens_ok_def)
  moreover have "case armedWake ?t of None \<Rightarrow> timers ?t = [] | Some t \<Rightarrow> (\<exists>d. timers ?t = [(t, d)])"
    using wake_inv_parts(2) [OF w] by (cases "armedWake s") (auto simp: timer_ok_def)
  ultimately have q: "tokens_ok (invalidateScheduledWake ?t)" "armedWake (invalidateScheduledWake ?t) = None"
    "timers (invalidateScheduledWake ?t) = []" "\<not> microtaskScheduled (invalidateScheduledWake ?t)"
    "currentControllerToken (invalidateScheduledWake ?t) \<notin> set (microtasks (invalidateScheduledWake ?t))"
    "started (invalidateScheduledWake ?t) = started ?t" by (rule invalidate_quiet)+
  have r: "\<not> started (invalidateScheduledWake ?t)" "queuedMutations (invalidateScheduledWake ?t) = []"
    "\<not> resetRequested (invalidateScheduledWake ?t)" by (simp_all add: invalidate_eq)
  define u where "u = invalidateScheduledWake ?t"
  have "stop s = resolveIdleWaiters u" by (simp add: stop_def u_def)
  with q r show ?thesis unfolding u_def [symmetric]
    by (simp add: wake_inv_pending resolveIdleWaiters_def tokens_ok_def isIdle_def hasQueuedWork_def)
qed

lemma wake_inv_microtasks:
  assumes w: "wake_inv s" and ts: "distinct ts" "set ts \<subseteq> set (microtasks s)"
    "currentControllerToken s \<in> set ts \<longleftrightarrow> currentControllerToken s \<in> set (microtasks s)"
  shows "wake_inv (s\<lparr>microtasks := ts\<rparr>)"
proof -
  have "timer_ok (s\<lparr>microtasks := ts\<rparr>) = timer_ok s" by (cases "armedWake s") (simp_all add: timer_ok_def)
  moreover have "tokens_ok (s\<lparr>microtasks := ts\<rparr>)" using wake_inv_parts(1) [OF w] ts by (auto simp: tokens_ok_def)
  ultimately show ?thesis using w ts(3) by (auto simp: wake_inv_def hasQueuedWork_def isIdle_def)
qed

lemma timer_wake_inv:
  assumes w: "wake_inv s" and t: "(token, d) \<in> set (timers s)"
  shows "wake_inv (timer_fires clk token s)"
proof -
  have k: "tokens_ok s" "timer_ok s" using wake_inv_parts [OF w] by auto
  then have a: "armedWake s = Some token" "timers s = [(token, d)]" "token = currentControllerToken s" "started s"
    "\<not> microtaskScheduled s"
    using t by (auto simp: timer_ok_def split: option.splits)
  have "currentControllerToken s \<notin> set (microtasks s)" using w a(5) by (simp add: wake_inv_def)
  then have "awake (s\<lparr>timers := [], armedWake := None\<rparr>)" using k a by (simp add: awake_def tokens_ok_def)
  then show ?thesis using evaluate_wake_inv a by (simp add: timer_fires_def Let_def)
qed

lemma microtask_wake_inv:
  assumes w: "wake_inv s"
  shows "wake_inv (microtask_runs clk s)"
proof (cases "microtasks s")
  case Nil
  with w show ?thesis by (simp add: microtask_runs_def)
next
  case (Cons t ts)
  have k: "tokens_ok s" "timer_ok s" using wake_inv_parts [OF w] by auto
  show ?thesis
  proof (cases "started s \<and> t = currentControllerToken s")
    case True
    then have "microtaskScheduled s" using w Cons by (simp add: wake_inv_def)
    then have "armedWake s = None" "timers s = []" using k(2) by (auto simp: timer_ok_def split: option.splits)
    then have "awake (s\<lparr>microtasks := ts, microtaskScheduled := False\<rparr>)"
      using k(1) True Cons by (auto simp: awake_def tokens_ok_def)
    then show ?thesis using evaluate_wake_inv True Cons by (simp add: microtask_runs_def Let_def)
  next
    case False
    then have m: "microtask_runs clk s = s\<lparr>microtasks := ts\<rparr>" using Cons by (auto simp: microtask_runs_def Let_def)
    have d: "distinct (t # ts)" using k(1) Cons by (simp add: tokens_ok_def)
    have "currentControllerToken s \<in> set ts \<longleftrightarrow> currentControllerToken s \<in> set (microtasks s)"
    proof (cases "started s")
      case True
      with False Cons show ?thesis by auto
    next
      case False
      with w have "currentControllerToken s \<notin> set (microtasks s)" by (auto simp: wake_inv_def)
      with Cons show ?thesis by auto
    qed
    then show ?thesis unfolding m by (rule wake_inv_microtasks [OF w, rotated 2]) (use d Cons in auto)
  qed
qed

lemma idle_wake_inv: "wake_inv s \<Longrightarrow> wake_inv (whenIdle w s)"
  by (auto simp: wake_inv_def whenIdle_def tokens_ok_def timer_ok_def hasQueuedWork_def isIdle_def split: option.splits)

lemma start_wake_inv:
  assumes w: "wake_inv s"
  shows "wake_inv (start clk s)"
proof (cases "started s")
  case False
  have "tokens_ok (s\<lparr>started := True\<rparr>)" "timer_ok (s\<lparr>started := True\<rparr>)"
    using wake_inv_parts(1,2) [OF w] False by (auto simp: tokens_ok_def timer_ok_def split: option.splits)
  from evaluate_wake_inv [OF invalidate_awake(1) [OF this]] wake_inv_parts(3) [OF w] False
  show ?thesis by (simp add: start_def wake_def)
qed (simp add: start_def w)

lemma accept_wake_inv:
  assumes w: "wake_inv s"
  shows "wake_inv (acceptMutation m s)"
proof (cases "copyMutation m")
  case (Inl e)
  then show ?thesis using frame_wake_inv [OF w] by (simp add: acceptMutation_def control_simps)
next
  case (Inr copy)
  have "control (s\<lparr>queuedMutations := queuedMutations s @ [copy]\<rparr>) =
      control (s\<lparr>queuedMutations := queuedMutations s @ [copy], resetRequested := resetRequested s\<rparr>)" by simp
  from coalesce_wake_inv [OF w this] Inr show ?thesis by (simp add: acceptMutation_def hasQueuedWork_def)
qed

lemma reset_wake_inv:
  assumes w: "wake_inv s"
  shows "wake_inv (requestReset s)"
proof -
  have "control (s\<lparr>resetRequested := True\<rparr>) =
      control (s\<lparr>queuedMutations := queuedMutations s, resetRequested := True\<rparr>)" by simp
  from coalesce_wake_inv [OF w this] show ?thesis by (simp add: requestReset_def hasQueuedWork_def)
qed

lemma register_wake_inv:
  assumes w: "wake_inv s"
  shows "wake_inv (registerTimeSpecifiedEnd clk i g t d s)"
proof (cases "get_candidate i (registry s)")
  case (Some c)
  obtain x s1 where x: "ensureSession c s = (x, s1)" by (cases "ensureSession c s")
  have "control s1 = control s" using control_ensure [of c s] x by simp
  then have "wake_inv s1" "wake_inv (s1\<lparr>timeSpecifiedEnds := e\<rparr>)" for e
    using frame_wake_inv [OF w] by (simp_all add: control_simps)
  then show ?thesis using Some x wake_wake_inv by (simp add: registerTimeSpecifiedEnd_def Let_def)
qed (simp add: registerTimeSpecifiedEnd_def w)

lemma unregister_wake_inv:
  assumes w: "wake_inv s"
  shows "wake_inv (removeTimeSpecifiedEnd clk i eg et s)"
  using w wake_wake_inv [OF frame_wake_inv [OF w]]
  by (simp add: removeTimeSpecifiedEnd_def control_simps split: option.splits)

lemma step_wake_inv: "schedule_step clk w s s' \<Longrightarrow> wake_inv s \<Longrightarrow> wake_inv s'"
  by (induction rule: schedule_step.induct)
    (simp_all add: start_wake_inv stop_wake_inv accept_wake_inv reset_wake_inv idle_wake_inv wake_wake_inv
      register_wake_inv unregister_wake_inv timer_wake_inv microtask_wake_inv,
     (erule frame_wake_inv, simp add: control_simps)+)

end
