(* ===== verification/Schedule_Facts.thy ===== *)
theory Schedule_Facts
  imports Schedule_Laws
begin

text \<open>
  The properties of the recording scheduler: the wake-ups and waiting callers, the preparations and
  ends an evaluation dispatches, the rows behind the candidates, and the sessions. They rest on the
  invariants of \<open>Schedule_Laws\<close>.
\<close>

subsection \<open>Reachable states\<close>

definition scheduled :: "clock \<Rightarrow> bool \<Rightarrow> schedule \<Rightarrow> bool" where
  "scheduled clk requeue s \<longleftrightarrow> (schedule_step clk requeue)\<^sup>*\<^sup>* new_schedule s"

lemma good_steps: "(schedule_step clk w)\<^sup>*\<^sup>* s s' \<Longrightarrow> good w s s'"
  by (induction rule: rtranclp_induct) (auto intro: good_trans good_step)

lemma scheduled_data: "scheduled clk w s \<Longrightarrow> data_inv s"
  unfolding scheduled_def using good_steps good_data data_inv_new by blast

lemma scheduled_wake: "scheduled clk w s \<Longrightarrow> wake_inv s"
  unfolding scheduled_def
  by (induction rule: rtranclp_induct) (auto intro: wake_inv_new step_wake_inv)

lemma scheduled_step: "scheduled clk w s \<Longrightarrow> schedule_step clk w s s' \<Longrightarrow> scheduled clk w s'"
  unfolding scheduled_def by (rule rtranclp.rtrancl_into_rtrancl)

lemma scheduled_new: "scheduled clk w new_schedule"
  by (simp add: scheduled_def)

lemma count_distinct: "distinct xs \<Longrightarrow> count_list xs x = (if x \<in> set xs then 1 else 0)"
  by (induction xs) auto

text \<open>
  C15. The scheduler never loses its wake-up. In every reachable state a running controller has exactly
  one live wake-up pending: either the one timeout of the platform, for the current token and at most
  three seconds away, or the microtask of the current token; a state with changes or a reset in its
  queue always has the microtask. The callbacks of older tokens are dead, so an evaluation never
  happens twice for one wake-up.
\<close>

theorem one_wakeup_pending:
  assumes "scheduled clk requeue s" "started s"
  shows "(\<exists>d. timers s = [(currentControllerToken s, d)] \<and> 0 < d \<and> d \<le> 3000 \<and>
            currentControllerToken s \<notin> set (microtasks s)) \<noteq>
         (timers s = [] \<and> count_list (microtasks s) (currentControllerToken s) = 1) \<and>
       (hasQueuedWork s \<longrightarrow> currentControllerToken s \<in> set (microtasks s))"
proof -
  have p: "pending s" using scheduled_wake [OF assms(1)] assms(2) wake_inv_parts(4) by blast
  then have k: "tokens_ok s" "timer_ok s" "microtaskScheduled s \<longleftrightarrow> currentControllerToken s \<in> set (microtasks s)"
    "armedWake s \<noteq> None \<or> microtaskScheduled s" "hasQueuedWork s \<longrightarrow> microtaskScheduled s"
    by (auto simp: pending_def)
  have c: "count_list (microtasks s) (currentControllerToken s) =
      (if currentControllerToken s \<in> set (microtasks s) then 1 else 0)"
    using k(1) count_distinct [of "microtasks s"] by (simp add: tokens_ok_def)
  show ?thesis
  proof (cases "armedWake s")
    case None
    with k c show ?thesis by (auto simp: timer_ok_def)
  next
    case (Some t)
    with k c show ?thesis by (auto simp: timer_ok_def SCAN_INTERVAL_MS_def)
  qed
qed

text \<open>
  A recording session is prepared at most once. As long as no client puts a cancelled session back
  to waiting, no session token occurs in two dispatched preparations, however the changes of the
  reservations, the timers and the clients interleave; an update of a reservation keeps its token, so
  rescheduling a session that is already prepared does not prepare it again.
\<close>

theorem session_prepared_once:
  assumes "scheduled clk False s"
  shows "distinct (prep_tokens s)"
proof -
  have "prep_inv new_schedule" by (simp add: prep_inv_def prep_tokens_def new_schedule_def)
  moreover have "good False new_schedule s" using assms good_steps unfolding scheduled_def by blast
  ultimately show ?thesis using data_inv_new by (simp add: good_def prep_inv_def)
qed

subsection \<open>Session tokens\<close>

definition current_token :: "schedule \<Rightarrow> int \<Rightarrow> int option" where
  "current_token s i = map_option se_sessionToken (map_of (sessions s) i)"

interpretation session: fresh_handles data_inv "schedule_step clk True" current_token sessionTokenCounter for clk
proof
  fix s s' :: schedule and k h :: int
  show "data_inv s \<Longrightarrow> schedule_step clk True s s' \<Longrightarrow> data_inv s'" using good_step good_data by blast
  show "data_inv s \<Longrightarrow> schedule_step clk True s s' \<Longrightarrow> sessionTokenCounter s \<le> sessionTokenCounter s'"
    using good_step by (fastforce simp: good_def follows_def)
  show "data_inv s \<Longrightarrow> current_token s k = Some h \<Longrightarrow> h \<le> sessionTokenCounter s"
    using data_session unfolding data_inv_def current_token_def session_ok_def by fastforce
  assume a: "data_inv s" "schedule_step clk True s s'" "current_token s' k = Some h"
  then obtain x where x: "map_of (sessions s') k = Some x" "se_sessionToken x = h" by (auto simp: current_token_def)
  have "continues True s k x" using good_step [OF a(2)] a(1) x(1) by (simp add: good_def follows_def)
  with x(2) show "current_token s k = Some h \<or> sessionTokenCounter s < h" by (auto simp: continues_def current_token_def)
qed

text \<open>
  C18. A recorder that still holds the token of a replaced session cannot change the schedule. Once a
  token is no longer the one of its reservation it never is again, and in every later state a
  conditional transition with it fails and changes no candidate.
\<close>

theorem stale_session_rejected:
  assumes "data_inv s" "t \<le> sessionTokenCounter s" "current_token s i \<noteq> Some t"
    "(schedule_step clk True)\<^sup>*\<^sup>* s s'"
  shows "current_token s' i \<noteq> Some t \<and> \<not> fst (tryTransitionSession i g t p q s') \<and>
    registry (snd (tryTransitionSession i g t p q s')) = registry s'"
proof -
  have c: "current_token s' i \<noteq> Some t"
    by (rule session.replaced_stays_replaced [OF assms(1,4,3,2)])
  have d: "data_inv s'" and n: "sessionTokenCounter s \<le> sessionTokenCounter s'"
    using session.ok_steps [OF assms(4,1)] session.issued_steps [OF assms(4,1)] by auto
  obtain b s'' where e: "tryTransitionSession i g t p q s' = (b, s'')" by (cases "tryTransitionSession i g t p q s'")
  have no: "se_sessionToken x \<noteq> t" if "ensured i cd s' x s1" for cd x s1
    using that c n assms(2) unfolding ensured_def current_token_def by auto
  from transition_cases [OF d e] no show ?thesis using c e ensuredD(1) by auto
qed

subsection \<open>What an evaluation dispatches\<close>

definition prepared :: "schedule \<Rightarrow> recording_candidate list" where
  "prepared s = concat (map (\<lambda>d. case d of Preparation c g t \<Rightarrow> [c] | _ \<Rightarrow> []) (launched s))"

definition ended :: "schedule \<Rightarrow> time_end list" where
  "ended s = concat (map (\<lambda>d. case d of TimeEnd m \<Rightarrow> [m] | _ \<Rightarrow> []) (launched s))"

lemma prepare_all_effect:
  assumes "data_inv s" "unread cs s" "started s" "\<not> hasQueuedWork s"
  shows "get_candidate j (registry (prepare_all (\<lambda>_. t) cs s)) = (if j \<in> cd_reservationId ` set cs
      then map_option (\<lambda>c. c\<lparr>cd_phase := next_phase t c\<rparr>) (get_candidate j (registry s)) else get_candidate j (registry s))
    \<and> prepared (prepare_all (\<lambda>_. t) cs s) = prepared s @ map (cd_phase_update (\<lambda>_. Preparing)) (filter (due t) cs)
    \<and> ended (prepare_all (\<lambda>_. t) cs s) = ended s"
  using assms(1-4)
proof (induction cs arbitrary: s)
  case (Cons c cs)
  let ?s = "prepare_one (\<lambda>_. t) c s" and ?i = "cd_reservationId c"
  note u = unread_Cons(1) [OF Cons.prems(1,2)] unread_Cons(2) [OF Cons.prems(1,2), of "\<lambda>_. t"]
  note f = prepare_one_effect [OF Cons.prems(1) u(1), where clk = "\<lambda>_. t"]
  have d: "data_inv ?s" by (rule good_data [OF good_prepare_one [OF Cons.prems(1) u(1)] Cons.prems(1)])
  have q: "started ?s" "\<not> hasQueuedWork ?s"
    using Cons.prems(3,4) control_cong(3) [OF control_prepare_one [of "\<lambda>_. t" c s]]
      control_eqD(4) [OF control_prepare_one [of "\<lambda>_. t" c s]] by auto
  note ih = Cons.IH [OF d u(2) q]
  have i: "?i \<notin> cd_reservationId ` set cs" using Cons.prems(2) by (simp add: unread_def)
  obtain tok where l: "launched ?s = launched s @ (if due t c
      then [Preparation (c\<lparr>cd_phase := Preparing\<rparr>) (cd_generation c) tok] else [])" using f(4) by blast
  have p: "prepared ?s = prepared s @ (if due t c then [c\<lparr>cd_phase := Preparing\<rparr>] else [])" "ended ?s = ended s"
    by (simp_all add: prepared_def ended_def l)
  have step: "prepare_all (\<lambda>_. t) (c # cs) s = prepare_all (\<lambda>_. t) cs ?s" using Cons.prems(3,4) by simp
  have "get_candidate j (registry (prepare_all (\<lambda>_. t) cs ?s)) = (if j \<in> cd_reservationId ` set (c # cs)
      then map_option (\<lambda>c. c\<lparr>cd_phase := next_phase t c\<rparr>) (get_candidate j (registry s)) else get_candidate j (registry s))"
    using conjunct1 [OF ih] f(1) [of j] u(1) i by (cases "j = ?i") simp_all
  with ih p step show ?case by simp
qed simp

lemma end_all_effect:
  assumes "data_inv s" "registered ms s" "started s" "\<not> hasQueuedWork s"
  shows "ended (end_all (\<lambda>_. t) ms s) = ended s @ filter (end_due t s) ms
    \<and> prepared (end_all (\<lambda>_. t) ms s) = prepared s
    \<and> get_candidate j (registry (end_all (\<lambda>_. t) ms s)) = (if \<exists>m \<in> set ms. te_reservationId m = j \<and> end_due t s m
        then map_option (cd_phase_update (\<lambda>_. Finishing)) (get_candidate j (registry s)) else get_candidate j (registry s))
    \<and> (\<forall>m. map_of (timeSpecifiedEnds (end_all (\<lambda>_. t) ms s)) j = Some m \<longrightarrow> map_of (timeSpecifiedEnds s) j = Some m \<and>
        (m \<in> set ms \<longrightarrow> \<not> end_due t s m))"
  using assms(1-4)
proof (induction ms arbitrary: s)
  case (Cons m ms)
  let ?s = "end_one (\<lambda>_. t) m s" and ?i = "te_reservationId m"
  note r = registered_Cons(1) [OF Cons.prems(1,2)] registered_Cons(2) [OF Cons.prems(1,2), of "\<lambda>_. t"]
  note f = end_one_effect [OF Cons.prems(1) r(1), where clk = "\<lambda>_. t"]
  have d: "data_inv ?s" by (rule good_data [OF good_end_one [OF Cons.prems(1) r(1)] Cons.prems(1)])
  have q: "started ?s" "\<not> hasQueuedWork ?s"
    using Cons.prems(3,4) control_cong(3) [OF control_end_one [of "\<lambda>_. t" m s]]
      control_eqD(4) [OF control_end_one [of "\<lambda>_. t" m s]] by auto
  note ih = Cons.IH [OF d r(2) q]
  have i: "te_reservationId e \<noteq> ?i" if "e \<in> set ms" for e using Cons.prems(2) that by (force simp: registered_def)
  have due_same: "end_due t ?s e = end_due t s e" if "e \<in> set ms" for e
    using f(2) [of "te_reservationId e"] i [OF that] by (simp add: end_due_def)
  have fl: "filter (end_due t ?s) ms = filter (end_due t s) ms" by (rule filter_cong) (simp_all add: due_same)
  have step: "end_all (\<lambda>_. t) (m # ms) s = end_all (\<lambda>_. t) ms ?s" using Cons.prems(3,4) by simp
  have l: "ended ?s = ended s @ (if end_due t s m then [m] else [])" "prepared ?s = prepared s"
    by (simp_all add: f(3) ended_def prepared_def)
  have 1: "ended (end_all (\<lambda>_. t) (m # ms) s) = ended s @ filter (end_due t s) (m # ms)"
    "prepared (end_all (\<lambda>_. t) (m # ms) s) = prepared s"
    using ih step l fl by simp_all
  have ex: "(\<exists>e \<in> set ms. te_reservationId e = j \<and> end_due t ?s e) \<longleftrightarrow> (\<exists>e \<in> set ms. te_reservationId e = j \<and> end_due t s e)"
    using due_same by blast
  have no: "\<not> (\<exists>e \<in> set ms. te_reservationId e = ?i \<and> end_due t s e)" using i by blast
  have 2: "get_candidate j (registry (end_all (\<lambda>_. t) (m # ms) s)) = (if \<exists>e \<in> set (m # ms). te_reservationId e = j \<and> end_due t s e
      then map_option (cd_phase_update (\<lambda>_. Finishing)) (get_candidate j (registry s)) else get_candidate j (registry s))"
  proof -
    note g = conjunct1 [OF conjunct2 [OF conjunct2 [OF ih]], unfolded ex]
    show ?thesis
    proof (cases "j = ?i")
      case True
      then have "\<not> (\<exists>e \<in> set ms. te_reservationId e = j \<and> end_due t s e)" using no by simp
      then have "get_candidate j (registry (end_all (\<lambda>_. t) ms ?s)) = get_candidate j (registry ?s)"
        using g by (simp only: if_False)
      then show ?thesis unfolding step using f(2) [of j] True no by auto
    next
      case False
      then have "get_candidate j (registry ?s) = get_candidate j (registry s)" using f(2) [of j] by simp
      then show ?thesis unfolding step g using False by auto
    qed
  qed
  have 3: "map_of (timeSpecifiedEnds s) j = Some e \<and> (e \<in> set (m # ms) \<longrightarrow> \<not> end_due t s e)"
    if e: "map_of (timeSpecifiedEnds (end_all (\<lambda>_. t) (m # ms) s)) j = Some e" for e
  proof -
    have e1: "map_of (timeSpecifiedEnds ?s) j = Some e" "e \<in> set ms \<longrightarrow> \<not> end_due t ?s e"
      using ih e step by auto
    then have e2: "map_of (timeSpecifiedEnds s) j = Some e" using f(1) [of j] by (auto split: if_splits)
    have "\<not> end_due t s m" if "e = m"
    proof
      assume due: "end_due t s m"
      then have "get_candidate ?i (registry s) \<noteq> None" by (auto simp: end_due_def)
      moreover have "j = ?i" using data_end [OF Cons.prems(1) [unfolded data_inv_def] e2] that by (simp add: end_ok_def)
      ultimately show False using f(1) [of j] e1(1) due by simp
    qed
    with e1 e2 due_same show ?thesis by auto
  qed
  from 1 2 3 show ?case by blast
qed simp

text \<open>The preparations leave every due milestone alone, and make none due.\<close>

lemma filter_delete: "(\<And>v. (i, v) \<in> set m \<Longrightarrow> \<not> P v) \<Longrightarrow> filter P (map snd (map_delete i m)) = filter P (map snd m)"
  by (induction m) (auto simp: AList.delete_eq)

lemma prepare_one_ends:
  assumes d: "data_inv s" and c: "get_candidate i (registry s) = Some c"
  shows "filter (end_due t s) (map snd (timeSpecifiedEnds (prepare_one clk c s))) =
      filter (end_due t s) (map snd (timeSpecifiedEnds s))"
proof -
  have k: "keys_ok (timeSpecifiedEnds s)" using d unfolding data_inv_def by (rule data_okD(3))
  have w: "filter (end_due t s) (map snd (map_delete i (timeSpecifiedEnds s))) =
      filter (end_due t s) (map snd (timeSpecifiedEnds s))" if "cd_phase c = Waiting"
  proof (rule filter_delete)
    fix m assume "(i, m) \<in> set (timeSpecifiedEnds s)"
    then have "end_ok (registry s) (sessions s) i m"
      using in_map [OF k] data_end [OF d [unfolded data_inv_def]] by blast
    then have "te_reservationId m = i" by (simp add: end_ok_def)
    with c that show "\<not> end_due t s m"
      by (auto simp: end_due_def isActiveTimeSpecifiedMilestone_def active_end_phases_def)
  qed
  show ?thesis
  proof (cases rule: prepare_one_cases [OF d c refl, of clk, case_names skip early over due])
    case skip
    then show ?thesis by simp
  next
    case (early x s2)
    then show ?thesis by (simp add: ensuredD [OF early(4)])
  next
    case (over x s2)
    then have "get_candidate i (registry s2) = Some c" using c by (simp add: ensuredD [OF over(3)])
    from moved_to_fields(7) [OF this, of x Completed] over w show ?thesis by (simp add: ensuredD [OF over(3)])
  next
    case (due x s2)
    then have "get_candidate i (registry s2) = Some c" using c by (simp add: ensuredD [OF due(2)])
    from moved_to_fields(7) [OF this, of x Preparing] due show ?thesis by (simp add: ensuredD [OF due(2)])
  qed
qed

lemma not_due_phase: "cd_phase c \<noteq> next_phase n c \<Longrightarrow>
    \<not> isActiveTimeSpecifiedMilestone c m \<and> \<not> isActiveTimeSpecifiedMilestone (c\<lparr>cd_phase := next_phase n c\<rparr>) m"
  by (auto simp: next_phase_def isActiveTimeSpecifiedMilestone_def active_end_phases_def split: if_splits)

lemma active_next_phase:
  "isActiveTimeSpecifiedMilestone (c\<lparr>cd_phase := next_phase n c\<rparr>) m = isActiveTimeSpecifiedMilestone c m"
  using not_due_phase [of c n m] by (cases "cd_phase c = next_phase n c") (auto simp: isActiveTimeSpecifiedMilestone_def)

lemma prepare_one_due:
  assumes d: "data_inv s" and c: "get_candidate i (registry s) = Some c"
  shows "end_due t (prepare_one clk c s) = end_due t s"
proof
  fix m
  have "(\<exists>e. get_candidate j (registry (prepare_one clk c s)) = Some e \<and> isActiveTimeSpecifiedMilestone e m) \<longleftrightarrow>
      (\<exists>e. get_candidate j (registry s) = Some e \<and> isActiveTimeSpecifiedMilestone e m)" for j
    using prepare_one_effect(1) [OF d c, of j clk] c by (simp add: active_next_phase)
  then show "end_due t (prepare_one clk c s) m = end_due t s m" by (simp add: end_due_def)
qed

lemma prepare_all_ends:
  "data_inv s \<Longrightarrow> unread cs s \<Longrightarrow>
     filter (end_due t s) (map snd (timeSpecifiedEnds (prepare_all clk cs s))) =
       filter (end_due t s) (map snd (timeSpecifiedEnds s)) \<and>
     end_due t (prepare_all clk cs s) = end_due t s"
proof (induction cs arbitrary: s)
  case (Cons c cs)
  note u = unread_Cons(1) [OF Cons.prems] unread_Cons(2) [OF Cons.prems, of clk]
  have d: "data_inv (prepare_one clk c s)" by (rule good_data [OF good_prepare_one [OF Cons.prems(1) u(1)] Cons.prems(1)])
  note e = prepare_one_due [OF Cons.prems(1) u(1), of t clk]
  from Cons.IH [OF d u(2), unfolded e] prepare_one_ends [OF Cons.prems(1) u(1), of t clk] e
  show ?case by simp
qed simp

subsection \<open>A quiet evaluation\<close>

lemma quiet_round:
  assumes q: "\<not> hasQueuedWork s"
  shows "evaluate_round clk s = dispatchDueTimeSpecifiedEnds clk (dispatchDuePreparations clk (s\<lparr>rerunRequested := False\<rparr>))"
proof -
  have a: "applyQueuedWork (s\<lparr>rerunRequested := False\<rparr>) = s\<lparr>rerunRequested := False\<rparr>"
    using q by (cases s) (simp add: applyQueuedWork_def hasQueuedWork_def)
  have "\<not> hasQueuedWork (dispatchDuePreparations clk (s\<lparr>rerunRequested := False\<rparr>))"
    using q control_cong(3) [OF control_prepare_all] by (simp add: dispatchDuePreparations_def hasQueuedWork_def)
  with a q show ?thesis by (simp add: evaluate_round_def Let_def hasQueuedWork_def)
qed

text \<open>What becomes of the candidate of a reservation.\<close>

definition outcome :: "int \<Rightarrow> schedule \<Rightarrow> int \<Rightarrow> recording_candidate option" where
  "outcome t s i =
     (if \<exists>m \<in> set (map snd (timeSpecifiedEnds s)). te_reservationId m = i \<and> end_due t s m
      then map_option (cd_phase_update (\<lambda>_. Finishing)) (get_candidate i (registry s))
      else map_option (\<lambda>c. c\<lparr>cd_phase := next_phase t c\<rparr>) (get_candidate i (registry s)))"

text \<open>What the evaluation at one instant makes of the data.\<close>

definition evaluated_at :: "int \<Rightarrow> schedule \<Rightarrow> schedule \<Rightarrow> bool" where
  "evaluated_at t s s' \<longleftrightarrow>
     prepared s' = prepared s @ map (cd_phase_update (\<lambda>_. Preparing)) (filter (due t) (list_candidates (registry s))) \<and>
     ended s' = ended s @ filter (end_due t s) (map snd (timeSpecifiedEnds s)) \<and>
     (\<forall>i. get_candidate i (registry s') =
        outcome t s i) \<and>
     (\<forall>i m. map_of (timeSpecifiedEnds s') i = Some m \<longrightarrow> \<not> end_due t s m)"

lemma candidate_listed:
  assumes ok: "registry_ok g"
  shows "i \<in> cd_reservationId ` set (list_candidates g) \<longleftrightarrow> get_candidate i g \<noteq> None"
proof -
  have k: "keys_ok (candidates g)" by (rule registry_ok_keys(1) [OF ok])
  have "c \<in> set (list_candidates g) \<longleftrightarrow> (\<exists>j. get_candidate j g = Some c)" for c
    unfolding list_candidates_def get_candidate_def by (rule in_values [OF k])
  then show ?thesis using candidate_id [OF ok] by fastforce
qed

lemma round_at:
  assumes d: "data_inv s" and s: "started s" and q: "\<not> hasQueuedWork s"
  shows "evaluated_at t s (evaluate_round (\<lambda>_. t) s)"
proof -
  let ?s0 = "s\<lparr>rerunRequested := False\<rparr>"
  let ?cs = "list_candidates (registry s)"
  let ?s1 = "prepare_all (\<lambda>_. t) ?cs ?s0"
  let ?ms = "map snd (timeSpecifiedEnds ?s1)"
  have d0: "data_inv ?s0" and q0: "\<not> hasQueuedWork ?s0" "started ?s0" using d q s by (simp_all add: hasQueuedWork_def)
  have u: "unread ?cs ?s0" using unread_list [OF data_inv_registry [OF d0]] by simp
  have d1: "data_inv ?s1" by (rule good_data [OF good_prepare_all [OF d0 u] d0])
  have q1: "\<not> hasQueuedWork ?s1" "started ?s1"
    using q0 control_cong(3) [OF control_prepare_all [of "\<lambda>_. t" ?cs ?s0]]
      control_eqD(4) [OF control_prepare_all [of "\<lambda>_. t" ?cs ?s0]] by auto
  have r: "evaluate_round (\<lambda>_. t) s = end_all (\<lambda>_. t) ?ms ?s1"
    by (simp add: quiet_round [OF q] dispatchDuePreparations_def dispatchDueTimeSpecifiedEnds_def)
  have s0: "end_due t ?s0 = end_due t s" by (rule ext) (simp add: end_due_def)
  note p = prepare_all_effect [OF d0 u q0(2,1), of _ t]
  note e = end_all_effect [OF d1 registered_all [OF d1] q1(2,1), of t]
  note pe = prepare_all_ends [OF d0 u, of t "\<lambda>_. t", unfolded s0]
  have f: "filter (end_due t s) ?ms = filter (end_due t s) (map snd (timeSpecifiedEnds s))" "end_due t ?s1 = end_due t s"
    using pe by simp_all
  have ex: "(\<exists>m \<in> set ?ms. te_reservationId m = i \<and> end_due t s m) \<longleftrightarrow>
      (\<exists>m \<in> set (map snd (timeSpecifiedEnds s)). te_reservationId m = i \<and> end_due t s m)" for i
  proof -
    have "m \<in> set (filter (end_due t s) ?ms) \<longleftrightarrow> m \<in> set (filter (end_due t s) (map snd (timeSpecifiedEnds s)))" for m
      using f(1) by simp
    then show ?thesis unfolding set_filter by blast
  qed
  have g1: "get_candidate i (registry ?s1) = map_option (\<lambda>c. c\<lparr>cd_phase := next_phase t c\<rparr>) (get_candidate i (registry s))" for i
    using conjunct1 [OF p, of i] candidate_listed [OF data_inv_registry [OF d], of i] by auto
  have twice: "map_option (cd_phase_update (\<lambda>_. Finishing)) (map_option (\<lambda>c. c\<lparr>cd_phase := next_phase t c\<rparr>) z) =
      map_option (cd_phase_update (\<lambda>_. Finishing)) z" for z
    by (cases z) simp_all
  have ids: "map_of (timeSpecifiedEnds ?s1) i = Some m \<Longrightarrow> m \<in> set ?ms" for i m
    by (force dest: map_of_SomeD)
  show ?thesis
    unfolding evaluated_at_def r
  proof (intro conjI allI impI)
    show "prepared (end_all (\<lambda>_. t) ?ms ?s1) = prepared s @ map (cd_phase_update (\<lambda>_. Preparing)) (filter (due t) ?cs)"
      using e p by (simp add: prepared_def)
    show "ended (end_all (\<lambda>_. t) ?ms ?s1) = ended s @ filter (end_due t s) (map snd (timeSpecifiedEnds s))"
      using e p f by (simp add: ended_def)
  next
    fix i
    show "get_candidate i (registry (end_all (\<lambda>_. t) ?ms ?s1)) =
        outcome t s i"
      using conjunct1 [OF conjunct2 [OF conjunct2 [OF e [of i]]]] unfolding f(2) ex g1 twice outcome_def .
  next
    fix i m assume "map_of (timeSpecifiedEnds (end_all (\<lambda>_. t) ?ms ?s1)) i = Some m"
    with e [of i] ids f(2) show "\<not> end_due t s m" by auto
  qed
qed

subsection \<open>The delay of the next wake-up\<close>

lemma fold_min: "fold (\<lambda>d e. case e of None \<Rightarrow> Some d | Some x \<Rightarrow> Some (min x d)) ds (Some (x::int)) =
    Some (Min (insert x (set ds)))"
proof (induction ds arbitrary: x)
  case (Cons d ds)
  have "Min (insert (min x d) (set ds)) = Min (insert x (insert d (set ds)))"
    by (cases "set ds = {}") (simp_all add: min.assoc)
  with Cons show ?case by simp
qed simp

lemma next_delay:
  "computeNextDelay now ds = (if ds = [] then 3000 else min 3000 (max 0 (Min (set ds) - now)))"
proof (cases ds)
  case (Cons d es)
  then show ?thesis using fold_min [of es d] by (simp add: computeNextDelay_def SCAN_INTERVAL_MS_def Let_def)
qed (simp add: computeNextDelay_def SCAN_INTERVAL_MS_def)

lemma delay_pos: "(\<And>d. d \<in> set ds \<Longrightarrow> now < d) \<Longrightarrow> 0 < computeNextDelay now ds"
  unfolding next_delay [of now ds] by (cases "ds = []") simp_all

lemma delay_le: "d \<in> set ds \<Longrightarrow> computeNextDelay now ds \<le> max 0 (d - now)"
proof -
  assume d: "d \<in> set ds"
  then have "Min (set ds) \<le> d" "ds \<noteq> []" by (auto intro: Min_le)
  then show ?thesis unfolding next_delay [of now ds] by (simp add: min_def max_def)
qed

text \<open>
  The delay to the next wake-up is the time to the earliest deadline, not less than zero and not more
  than the scan interval of three seconds, which is also the delay without any deadline.
\<close>

theorem computeNextDelay_earliest:
  "computeNextDelay now ds = (if ds = [] then 3000 else min 3000 (max 0 (Min (set ds) - now)))"
  by (rule next_delay)

lemma milestone_dues:
  "registry s = g \<Longrightarrow> fst (milestone_deadlines ms s) =
     map te_dueAt (filter (\<lambda>m. \<exists>c. get_candidate (te_reservationId m) g = Some c \<and> isActiveTimeSpecifiedMilestone c m)
       (map snd ms))"
proof (induction ms s rule: milestone_deadlines.induct)
  case (2 i m ms s)
  then show ?case
    by (cases "get_candidate (te_reservationId m) (registry s)") (auto simp: case_prod_beta)
qed simp

text \<open>Nothing is due at \<open>t\<close>, and the next wake-up comes no later than the next deadline.\<close>

definition settled :: "int \<Rightarrow> schedule \<Rightarrow> int \<Rightarrow> bool" where
  "settled t s delay \<longleftrightarrow> 0 < delay \<and> delay \<le> 3000 \<and>
     (\<forall>i c. get_candidate i (registry s) = Some c \<longrightarrow> cd_phase c = Waiting \<longrightarrow>
        t < cd_prepareAt c \<and> t < cd_endAt c \<and> delay \<le> cd_prepareAt c - t) \<and>
     (\<forall>i c m. map_of (timeSpecifiedEnds s) i = Some m \<longrightarrow> get_candidate i (registry s) = Some c \<longrightarrow>
        isActiveTimeSpecifiedMilestone c m \<longrightarrow> t < te_dueAt m \<and> delay \<le> te_dueAt m - t)"

lemma settledI:
  assumes d: "data_inv s"
    and w: "\<And>i c. get_candidate i (registry s) = Some c \<Longrightarrow> cd_phase c = Waiting \<Longrightarrow> t < cd_prepareAt c \<and> t < cd_endAt c"
    and m: "\<And>i m. map_of (timeSpecifiedEnds s) i = Some m \<Longrightarrow> \<not> end_due t s m"
  shows "settled t s (computeNextDelay t (deadlines_of s))"
proof -
  have k: "keys_ok (candidates (registry s))" "keys_ok (timeSpecifiedEnds s)"
    using registry_ok_keys(1) [OF data_inv_registry [OF d]] d unfolding data_inv_def by (blast, blast dest: data_okD(3))
  let ?act = "\<lambda>m. \<exists>c. get_candidate (te_reservationId m) (registry s) = Some c \<and> isActiveTimeSpecifiedMilestone c m"
  have ds: "deadlines_of s = map cd_prepareAt (filter (\<lambda>c. cd_phase c = Waiting) (list_candidates (registry s))) @
      map te_dueAt (filter ?act (map snd (timeSpecifiedEnds s)))"
    unfolding deadlines_of_def using milestone_dues [of "s\<lparr>reads := Suc (reads s)\<rparr>" "registry s" "timeSpecifiedEnds s"] by simp
  have c: "c \<in> set (list_candidates (registry s)) \<longleftrightarrow> (\<exists>i. get_candidate i (registry s) = Some c)" for c
    unfolding list_candidates_def get_candidate_def by (rule in_values [OF k(1)])
  have e: "m \<in> set (map snd (timeSpecifiedEnds s)) \<longleftrightarrow> (\<exists>i. map_of (timeSpecifiedEnds s) i = Some m)" for m
    by (rule in_values [OF k(2)])
  have late: "t < d" if "d \<in> set (deadlines_of s)" for d
  proof -
    from that consider c where "d = cd_prepareAt c" "cd_phase c = Waiting" "c \<in> set (list_candidates (registry s))"
      | m where "d = te_dueAt m" "?act m" "m \<in> set (map snd (timeSpecifiedEnds s))" unfolding ds by auto
    then show ?thesis
    proof cases
      case 1
      with c w show ?thesis by blast
    next
      case 2
      then obtain i where "map_of (timeSpecifiedEnds s) i = Some m" using e by blast
      from m [OF this] 2(1,2) show ?thesis by (auto simp: end_due_def)
    qed
  qed
  let ?delay = "computeNextDelay t (deadlines_of s)"
  have "0 < ?delay" "?delay \<le> 3000"
    using delay_pos [OF late] computeNextDelay_bounds [of t "deadlines_of s"] by (simp_all add: SCAN_INTERVAL_MS_def)
  moreover have "?delay \<le> d - t" if "d \<in> set (deadlines_of s)" for d
    using delay_le [OF that, of t] late [OF that] by linarith
  moreover have "cd_prepareAt cd \<in> set (deadlines_of s)"
    if "get_candidate i (registry s) = Some cd" "cd_phase cd = Waiting" for i cd
    unfolding ds using c that by auto
  moreover have "te_dueAt m \<in> set (deadlines_of s)"
    if "map_of (timeSpecifiedEnds s) i = Some m" "get_candidate i (registry s) = Some cd" "isActiveTimeSpecifiedMilestone cd m" for i cd m
  proof -
    have "te_reservationId m = i" using data_end [OF d [unfolded data_inv_def] that(1)] by (simp add: end_ok_def)
    then have "?act m" using that by blast
    moreover have "m \<in> set (map snd (timeSpecifiedEnds s))" using e that(1) by blast
    ultimately show ?thesis unfolding ds by auto
  qed
  ultimately show ?thesis unfolding settled_def using w late by meson
qed

lemma evaluated_at_settles:
  assumes e: "evaluated_at t s s'" and d: "data_inv s'"
  shows "settled t s' (computeNextDelay t (deadlines_of s'))"
proof (rule settledI [OF d])
  have g: "get_candidate i (registry s') =
        outcome t s i" for i
    using e unfolding evaluated_at_def by blast
  have back_phase: "\<exists>b. get_candidate i (registry s) = Some b \<and> (c = b\<lparr>cd_phase := Finishing\<rparr> \<or> c = b\<lparr>cd_phase := next_phase t b\<rparr>)"
    if "get_candidate i (registry s') = Some c" for i c
    using that unfolding g [of i] outcome_def by (auto split: if_splits)
  fix i c
  {
    assume c: "get_candidate i (registry s') = Some c" "cd_phase c = Waiting"
    from back_phase [OF c(1)] obtain b where "c = b\<lparr>cd_phase := Finishing\<rparr> \<or> c = b\<lparr>cd_phase := next_phase t b\<rparr>" by blast
    with c(2) show "t < cd_prepareAt c \<and> t < cd_endAt c" by (auto simp: next_phase_def split: if_splits)
  next
    fix m assume m: "map_of (timeSpecifiedEnds s') i = Some m"
    show "\<not> end_due t s' m"
    proof
      assume "end_due t s' m"
      then obtain c where c: "te_dueAt m \<le> t" "get_candidate (te_reservationId m) (registry s') = Some c"
        "isActiveTimeSpecifiedMilestone c m" by (auto simp: end_due_def)
      from back_phase [OF c(2)] obtain b where b: "get_candidate (te_reservationId m) (registry s) = Some b"
        "c = b\<lparr>cd_phase := Finishing\<rparr> \<or> c = b\<lparr>cd_phase := next_phase t b\<rparr>" by blast
      have "isActiveTimeSpecifiedMilestone b m"
        using b(2)
      proof
        assume "c = b\<lparr>cd_phase := Finishing\<rparr>"
        with c(3) show ?thesis by (simp add: isActiveTimeSpecifiedMilestone_def active_end_phases_def)
      next
        assume "c = b\<lparr>cd_phase := next_phase t b\<rparr>"
        with c(3) show ?thesis by (simp add: active_next_phase)
      qed
      with b(1) c(1) have "end_due t s m" by (auto simp: end_due_def)
      then show False using e m unfolding evaluated_at_def by blast
    qed
  }
qed

text \<open>The queue first, then the quiet evaluation of what it left.\<close>

lemma round_after_queue:
  "evaluate_round clk s = evaluate_round clk (applyQueuedWork (s\<lparr>rerunRequested := False\<rparr>))"
proof -
  let ?q = "applyQueuedWork (s\<lparr>rerunRequested := False\<rparr>)"
  have c: "queuedMutations ?q = []" "\<not> resetRequested ?q" "\<not> rerunRequested ?q"
    using control_eqD(1-3) [OF control_queue [of "s\<lparr>rerunRequested := False\<rparr>"]] by simp_all
  then have n: "\<not> hasQueuedWork ?q" "?q\<lparr>rerunRequested := False\<rparr> = ?q" by (simp_all add: hasQueuedWork_def)
  have "\<not> hasQueuedWork (dispatchDuePreparations clk ?q)"
    using n(1) control_cong(3) [OF control_prepare_all] by (simp add: dispatchDuePreparations_def)
  with n show ?thesis by (simp add: quiet_round [OF n(1)]) (simp add: evaluate_round_def Let_def)
qed

text \<open>The state that arms: after the queue and the evaluation.\<close>

lemma evaluated_settles:
  assumes d: "data_inv s" and s: "started s"
  shows "settled t (evaluated (\<lambda>_. t) s) (computeNextDelay t (deadlines_of (evaluated (\<lambda>_. t) s)))"
proof -
  let ?r = "s\<lparr>evaluationRunning := True\<rparr>" let ?q = "applyQueuedWork (?r\<lparr>rerunRequested := False\<rparr>)"
  have c: "control ?q = control (?r\<lparr>rerunRequested := False, queuedMutations := [], resetRequested := False\<rparr>)"
    by (simp add: control_queue)
  have q: "started ?q" "\<not> hasQueuedWork ?q" using control_eqD(4) [OF c] control_cong(3) [OF c] s by (simp_all add: hasQueuedWork_def)
  have "good False (?r\<lparr>rerunRequested := False\<rparr>) ?q" by (rule good_queue)
  then have dq: "data_inv ?q" using d good_data by fastforce
  have e: "evaluated_at t ?q (evaluate_round (\<lambda>_. t) ?r)"
    using round_at [OF dq q] round_after_queue [of "\<lambda>_. t" ?r] by simp
  have "evaluated_at t ?q (evaluated (\<lambda>_. t) s)"
    using e by (simp add: evaluated_at_def evaluated_def prepared_def ended_def)
  then show ?thesis using good_data [OF good_evaluated d] by (rule evaluated_at_settles)
qed

lemma milestones_shrink:
  "map_of (timeSpecifiedEnds (snd (milestone_deadlines ms s))) i = Some m \<Longrightarrow> map_of (timeSpecifiedEnds s) i = Some m"
  "registry (snd (milestone_deadlines ms s)) = registry s"
proof (induction ms s rule: milestone_deadlines.induct)
  case (2 j e ms s)
  {
    case 1
    then show ?case using 2
      by (cases "get_candidate (te_reservationId e) (registry s)")
        (auto simp: case_prod_beta split: if_splits)
  next
    case 2
    then show ?case using "2.IH"
      by (cases "get_candidate (te_reservationId e) (registry s)") (auto simp: case_prod_beta)
  }
qed simp_all

lemma deadlines_shrink:
  "map_of (timeSpecifiedEnds (deadlines_state clk s)) i = Some m \<Longrightarrow> map_of (timeSpecifiedEnds s) i = Some m"
  "registry (deadlines_state clk s) = registry s"
  using milestones_shrink [of "timeSpecifiedEnds s" "s\<lparr>reads := Suc (reads s)\<rparr>"]
  by (simp_all add: deadlines_state_def schedulerOwnedDeadlines_def now_of_def case_prod_beta)

lemma settled_shrink:
  "settled t s delay \<Longrightarrow> registry s' = registry s \<Longrightarrow>
   (\<And>i m. map_of (timeSpecifiedEnds s') i = Some m \<Longrightarrow> map_of (timeSpecifiedEnds s) i = Some m) \<Longrightarrow> settled t s' delay"
  unfolding settled_def by (simp, blast)

lemma evaluate_settles:
  assumes d: "data_inv s" and a: "awake s"
  shows "\<exists>delay. settled t (evaluate (\<lambda>_. t) s) delay \<and>
     timers (evaluate (\<lambda>_. t) s) = [(currentControllerToken (evaluate (\<lambda>_. t) s), delay)] \<and>
     isIdle (evaluate (\<lambda>_. t) s) \<and> idleWaiters (evaluate (\<lambda>_. t) s) = [] \<and>
     resolvedWaiters (evaluate (\<lambda>_. t) s) = resolvedWaiters s @ idleWaiters s"
proof -
  let ?e = "evaluated (\<lambda>_. t) s"
  define u where "u = deadlines_state (\<lambda>_. t) ?e"
  define delay where "delay = computeNextDelay t (deadlines_of ?e)"
  have s: "started s" "\<not> microtaskScheduled s" "timers s = []" using a by (auto simp: awake_def)
  have st: "settled t ?e delay" unfolding delay_def by (rule evaluated_settles [OF d s(1)])
  have c: "control u = control (s\<lparr>queuedMutations := [], resetRequested := False, rerunRequested := False,
     evaluationRunning := False\<rparr>)" unfolding u_def by (simp add: control_deadlines evaluated_control)
  note f = control_eqD [OF c]
  have su: "settled t u delay" unfolding u_def by (rule settled_shrink [OF st deadlines_shrink(2) deadlines_shrink(1)])
  have "delay \<noteq> 0" using st by (simp add: settled_def)
  then have arm: "armSingleWake (\<lambda>_. t) ?e = u\<lparr>controllerTokenCounter := controllerTokenCounter u + 1,
      currentControllerToken := controllerTokenCounter u + 1,
      timers := timers u @ [(controllerTokenCounter u + 1, delay)], armedWake := Some (controllerTokenCounter u + 1)\<rparr>"
    by (simp add: armSingleWake_eq Let_def u_def delay_def)
  have ev: "evaluate (\<lambda>_. t) s = resolveIdleWaiters (u\<lparr>controllerTokenCounter := controllerTokenCounter u + 1,
      currentControllerToken := controllerTokenCounter u + 1,
      timers := [(controllerTokenCounter u + 1, delay)], armedWake := Some (controllerTokenCounter u + 1)\<rparr>)"
    using s f by (simp add: evaluate_evaluated arm)
  have "isIdle (u\<lparr>controllerTokenCounter := x, currentControllerToken := x, timers := y, armedWake := z\<rparr>)" for x y z
    using s f by (simp add: isIdle_def hasQueuedWork_def)
  then have ev2: "evaluate (\<lambda>_. t) s = u\<lparr>controllerTokenCounter := controllerTokenCounter u + 1,
      currentControllerToken := controllerTokenCounter u + 1,
      timers := [(controllerTokenCounter u + 1, delay)], armedWake := Some (controllerTokenCounter u + 1),
      idleWaiters := [], resolvedWaiters := resolvedWaiters u @ idleWaiters u\<rparr>"
    unfolding ev resolveIdleWaiters_def by simp
  show ?thesis
  proof (intro exI conjI)
    show "settled t (evaluate (\<lambda>_. t) s) delay"
      by (rule settled_shrink [OF su]) (simp_all add: ev2)
    show "timers (evaluate (\<lambda>_. t) s) = [(currentControllerToken (evaluate (\<lambda>_. t) s), delay)]"
      "idleWaiters (evaluate (\<lambda>_. t) s) = []" by (simp_all add: ev2)
    show "isIdle (evaluate (\<lambda>_. t) s)" using s f by (simp add: ev2 isIdle_def hasQueuedWork_def)
    show "resolvedWaiters (evaluate (\<lambda>_. t) s) = resolvedWaiters s @ idleWaiters s" using f by (simp add: ev2)
  qed
qed

text \<open>Arming and resolving leave the data of the evaluation alone.\<close>

lemma evaluate_data:
  "registry (evaluate clk s) = registry (evaluated clk s)" "launched (evaluate clk s) = launched (evaluated clk s)"
proof -
  let ?e = "evaluated clk s"
  have l: "launched (snd (milestone_deadlines ms r)) = launched r" for ms r
    by (induction ms r rule: milestone_deadlines.induct) (auto simp: case_prod_beta split: option.splits)
  have d: "registry (deadlines_state clk ?e) = registry ?e" "launched (deadlines_state clk ?e) = launched ?e"
    using l by (simp_all add: deadlines_shrink) (simp add: deadlines_state_def schedulerOwnedDeadlines_def now_of_def case_prod_beta)
  have "registry (armSingleWake clk ?e) = registry ?e" "launched (armSingleWake clk ?e) = launched ?e"
    using d same_microtask [of "deadlines_state clk ?e"] by (simp_all add: armSingleWake_eq Let_def same_data_def)
  then show "registry (evaluate clk s) = registry ?e" "launched (evaluate clk s) = launched ?e"
    using same_resolve [of ?e] same_resolve [of "armSingleWake clk ?e"]
    by (simp_all add: evaluate_evaluated same_data_def)
qed

lemma quiet_evaluate:
  assumes "data_inv s" "started s" "\<not> hasQueuedWork s"
  shows "prepared (evaluate (\<lambda>_. t) s) = prepared s @ map (cd_phase_update (\<lambda>_. Preparing)) (filter (due t) (list_candidates (registry s)))"
    "ended (evaluate (\<lambda>_. t) s) = ended s @ filter (end_due t s) (map snd (timeSpecifiedEnds s))"
    "get_candidate i (registry (evaluate (\<lambda>_. t) s)) =
        outcome t s i"
proof -
  let ?r = "s\<lparr>evaluationRunning := True\<rparr>"
  have "evaluated_at t ?r (evaluate_round (\<lambda>_. t) ?r)"
    by (rule round_at) (use assms in \<open>simp_all add: hasQueuedWork_def\<close>)
  moreover have e: "end_due t ?r = end_due t s" by (rule ext) (simp add: end_due_def)
  moreover have "outcome t ?r = outcome t s" by (rule ext) (auto simp: outcome_def e)
  ultimately show "prepared (evaluate (\<lambda>_. t) s) = prepared s @ map (cd_phase_update (\<lambda>_. Preparing)) (filter (due t) (list_candidates (registry s)))"
    "ended (evaluate (\<lambda>_. t) s) = ended s @ filter (end_due t s) (map snd (timeSpecifiedEnds s))"
    "get_candidate i (registry (evaluate (\<lambda>_. t) s)) =
        outcome t s i"
    by (simp_all add: evaluated_at_def evaluate_data evaluated_def prepared_def ended_def)
qed

lemma timer_is_evaluate:
  assumes s: "scheduled clk w s" and t: "(token, d) \<in> set (timers s)"
  shows "timer_fires c token s = evaluate c (s\<lparr>timers := [], armedWake := None\<rparr>)"
    "data_inv (s\<lparr>timers := [], armedWake := None\<rparr>)" "awake (s\<lparr>timers := [], armedWake := None\<rparr>)"
    "\<not> hasQueuedWork s"
proof -
  have w: "wake_inv s" and k: "tokens_ok s" "timer_ok s" using scheduled_wake [OF s] wake_inv_parts by blast+
  then have a: "armedWake s = Some token" "timers s = [(token, d)]" "token = currentControllerToken s" "started s"
    "\<not> microtaskScheduled s" using t by (auto simp: timer_ok_def split: option.splits)
  then show "timer_fires c token s = evaluate c (s\<lparr>timers := [], armedWake := None\<rparr>)" "\<not> hasQueuedWork s"
    using w by (auto simp: timer_fires_def Let_def wake_inv_def)
  show "data_inv (s\<lparr>timers := [], armedWake := None\<rparr>)" using scheduled_data [OF s] by simp
  have "currentControllerToken s \<notin> set (microtasks s)" using w a(5) by (simp add: wake_inv_def)
  then show "awake (s\<lparr>timers := [], armedWake := None\<rparr>)" using k a by (simp add: awake_def tokens_ok_def)
qed

text \<open>
  C17. When the timer fires at time \<open>t\<close>, exactly the waiting candidates whose preparation time has
  come and whose end has not are dispatched, once each and in the order of the registry, and exactly the
  active milestones whose time has come; waiting candidates that are already over become completed,
  dispatched ones preparing and finishing, and every other candidate stays as it is.
\<close>

theorem timer_dispatches_due:
  assumes "scheduled clk requeue s" "(token, d) \<in> set (timers s)"
  shows "prepared (timer_fires (\<lambda>_. t) token s) =
      prepared s @ map (cd_phase_update (\<lambda>_. Preparing)) (filter (due t) (list_candidates (registry s))) \<and>
    ended (timer_fires (\<lambda>_. t) token s) = ended s @ filter (end_due t s) (map snd (timeSpecifiedEnds s)) \<and>
    get_candidate i (registry (timer_fires (\<lambda>_. t) token s)) =
      outcome t s i"
proof -
  note e = timer_is_evaluate [OF assms]
  let ?s = "s\<lparr>timers := [], armedWake := None\<rparr>"
  have "started ?s" "\<not> hasQueuedWork ?s" using e(3,4) by (simp_all add: awake_def hasQueuedWork_def)
  note q = quiet_evaluate(1,2) [OF e(2) this, of t] quiet_evaluate(3) [OF e(2) this, where t = t]
  have d: "end_due t ?s = end_due t s" by (rule ext) (simp add: end_due_def)
  moreover have "outcome t ?s = outcome t s" by (rule ext) (auto simp: outcome_def d)
  ultimately show ?thesis using q(1,2) q(3) [where i = i] unfolding e(1) by (simp add: prepared_def ended_def)
qed

text \<open>The three ways a running controller is woken: by a call, by its timer, by its microtask.\<close>

definition woken :: "int \<Rightarrow> schedule \<Rightarrow> schedule \<Rightarrow> bool" where
  "woken t s s' \<longleftrightarrow> s' = wake (\<lambda>_. t) s \<or> (\<exists>token d. (token, d) \<in> set (timers s) \<and> s' = timer_fires (\<lambda>_. t) token s) \<or>
     (\<exists>ts. microtasks s = currentControllerToken s # ts \<and> s' = microtask_runs (\<lambda>_. t) s)"

lemma woken_evaluate:
  assumes s: "scheduled clk w s" "started s" and k: "woken t s s'"
  shows "\<exists>r. s' = evaluate (\<lambda>_. t) r \<and> data_inv r \<and> awake r \<and> resolvedWaiters r = resolvedWaiters s \<and>
    idleWaiters r = idleWaiters s"
proof -
  have w: "wake_inv s" by (rule scheduled_wake [OF s(1)])
  note p = wake_inv_parts [OF w]
  from k consider "s' = wake (\<lambda>_. t) s" | token d where "(token, d) \<in> set (timers s)" "s' = timer_fires (\<lambda>_. t) token s"
    | ts where "microtasks s = currentControllerToken s # ts" "s' = microtask_runs (\<lambda>_. t) s" unfolding woken_def by blast
  then show ?thesis
  proof cases
    case 1
    have "data_inv (invalidateScheduledWake s)"
      using good_data [OF same_data_good [OF same_invalidate, of False] scheduled_data [OF s(1)]] .
    with 1 invalidate_awake(1) [OF p(1,2) s(2)] s(2) p(3) show ?thesis
      by (intro exI [of _ "invalidateScheduledWake s"]) (simp add: wake_def invalidate_eq)
  next
    case 2
    with timer_is_evaluate [OF s(1) 2(1)] show ?thesis
      by (intro exI [of _ "s\<lparr>timers := [], armedWake := None\<rparr>"]) simp
  next
    case 3
    let ?r = "s\<lparr>microtasks := ts, microtaskScheduled := False\<rparr>"
    have m: "microtaskScheduled s" using w 3(1) by (simp add: wake_inv_def)
    then have "armedWake s = None" "timers s = []" using p(2) by (auto simp: timer_ok_def split: option.splits)
    then have "awake ?r" using p(1) 3(1) s(2) by (auto simp: awake_def tokens_ok_def)
    moreover have "data_inv ?r" using scheduled_data [OF s(1)] by simp
    ultimately show ?thesis using 3 s(2) by (intro exI [of _ ?r]) (simp add: microtask_runs_def Let_def)
  qed
qed

text \<open>
  C16. A wake-up settles the schedule. However a running controller is woken at time \<open>t\<close>, after it no
  waiting candidate is due or over, no active milestone is due, the only pending wake-up is a timer
  whose delay is positive, at most three seconds and not later than any preparation or milestone, so
  the controller never spins; the controller is idle, and every caller that waited for that has been
  resolved.
\<close>

theorem wakeup_settles:
  assumes "scheduled clk requeue s" "started s" "woken t s s'"
  shows "\<exists>delay. settled t s' delay \<and> timers s' = [(currentControllerToken s', delay)] \<and> isIdle s' \<and>
    idleWaiters s' = [] \<and> resolvedWaiters s' = resolvedWaiters s @ idleWaiters s"
proof -
  obtain r where r: "s' = evaluate (\<lambda>_. t) r" "data_inv r" "awake r" "resolvedWaiters r = resolvedWaiters s"
    "idleWaiters r = idleWaiters s" using woken_evaluate [OF assms] by blast
  from evaluate_settles [OF r(2,3), of t] show ?thesis unfolding r(1) r(4,5) .
qed

subsection \<open>The rows behind the candidates\<close>

definition apply_rows :: "update_values \<Rightarrow> (int \<Rightarrow> reserve option) \<Rightarrow> int \<Rightarrow> reserve option" where
  "apply_rows m f = fold (\<lambda>r h. h(reservation_id r := None)) (uv_delete m)
     (fold put_row (uv_update m) (fold put_row (uv_insert m) f))"

definition rows_of :: "schedule \<Rightarrow> int \<Rightarrow> reserve option" where
  "rows_of s = registry_abs (registry s)"

lemma ensure_registry: "registry (snd (ensureSession c s)) = registry s"
  by (simp add: ensureSession_def create_session_def issueSessionToken_def Let_def split: option.splits)

lemma snapshot_registry: "registry (snd (getSessionSnapshot i s)) = registry s"
  using ensure_registry by (simp add: getSessionSnapshot_def case_prod_beta split: option.splits)

lemma rows_upsert: "rows_of (applyUpsert u b r s) = put_row r (rows_of s)"
proof -
  obtain x s1 where e: "getSessionSnapshot (reservation_id r) s = (x, s1)"
    by (cases "getSessionSnapshot (reservation_id r) s")
  have r: "registry s1 = registry s" using snapshot_registry [of "reservation_id r" s] e by simp
  have "registry (upserted u r x s1) = snd (upsert r
      (case x of Some y \<Rightarrow> if u then se_phase y else Waiting | None \<Rightarrow> Waiting) (registry s1))"
    by (simp add: upserted_def Let_def)
  then have "registry_abs (registry (upserted u r x s1)) = put_row r (rows_of s)"
    by (simp add: abs_upsert r rows_of_def)
  with applyUpsert_cases [OF e refl, of u b] show ?thesis by (auto simp: rows_of_def)
qed

lemma rows_remove: "rows_of (applyRemove b r s) = (rows_of s)(reservation_id r := None)"
proof -
  obtain x s1 where e: "getSessionSnapshot (reservation_id r) s = (x, s1)"
    by (cases "getSessionSnapshot (reservation_id r) s")
  have r: "registry s1 = registry s" using snapshot_registry [of "reservation_id r" s] e by simp
  have "registry (applyRemove b r s) = snd (remove_candidate (reservation_id r) (registry s1))"
    by (simp add: applyRemove_def e case_prod_beta)
  then show ?thesis by (simp add: rows_of_def abs_remove r)
qed

lemma rows_fold: "(\<And>x s. rows_of (f x s) = g x (rows_of s)) \<Longrightarrow> rows_of (fold f xs s) = fold g xs (rows_of s)"
  by (induction xs arbitrary: s) simp_all

lemma rows_mutation: "rows_of (apply_mutation m s) = apply_rows m (rows_of s)"
  unfolding apply_mutation_def apply_rows_def
  using rows_fold [of "applyRemove (isSuppressLog m)" "\<lambda>r h. h(reservation_id r := None)", OF rows_remove]
    rows_fold [of "applyUpsert True (isSuppressLog m)" put_row, OF rows_upsert]
    rows_fold [of "applyUpsert False (isSuppressLog m)" put_row, OF rows_upsert] by simp

lemma rows_queue: "rows_of (applyQueuedWork s) = fold apply_rows (queuedMutations s) (rows_of s)"
proof -
  have "rows_of (fold apply_mutation (queuedMutations s) (s\<lparr>queuedMutations := [], resetRequested := False\<rparr>)) =
      fold apply_rows (queuedMutations s) (rows_of s)"
    using rows_fold [of apply_mutation apply_rows, OF rows_mutation] by (simp add: rows_of_def)
  then show ?thesis by (simp add: applyQueuedWork_def Let_def rows_of_def)
qed

lemma rows_phase:
  "(\<And>i. \<exists>q. get_candidate i (registry s') = map_option (\<lambda>c. c\<lparr>cd_phase := q c\<rparr>) (get_candidate i (registry s))) \<Longrightarrow>
     rows_of s' = rows_of s"
proof
  fix i assume a: "\<And>i. \<exists>q. get_candidate i (registry s') = map_option (\<lambda>c. c\<lparr>cd_phase := q c\<rparr>) (get_candidate i (registry s))"
  from a [of i] show "rows_of s' i = rows_of s i"
    by (auto simp: rows_of_def registry_abs_def option.map_comp comp_def)
qed

lemma keep_phase: "x = map_option (\<lambda>c. c\<lparr>cd_phase := cd_phase c\<rparr>) x"
  by (cases x) simp_all

lemma rows_prepare_all: "data_inv s \<Longrightarrow> unread cs s \<Longrightarrow> rows_of (prepare_all clk cs s) = rows_of s"
proof (induction cs arbitrary: s)
  case (Cons c cs)
  note u = unread_Cons(1) [OF Cons.prems] unread_Cons(2) [OF Cons.prems, of clk]
  have "rows_of (prepare_one clk c s) = rows_of s"
  proof (rule rows_phase)
    fix i
    show "\<exists>q. get_candidate i (registry (prepare_one clk c s)) = map_option (\<lambda>c. c\<lparr>cd_phase := q c\<rparr>) (get_candidate i (registry s))"
    proof (cases "i = cd_reservationId c")
      case True
      then show ?thesis using prepare_one_effect(1) [OF Cons.prems(1) u(1), of i clk] u(1)
        by (intro exI [of _ "\<lambda>_. next_phase (clk (reads s)) c"]) simp
    next
      case False
      then show ?thesis using prepare_one_effect(1) [OF Cons.prems(1) u(1), of i clk] keep_phase
        by (intro exI [of _ cd_phase]) simp
    qed
  qed
  with Cons.IH [OF good_data [OF good_prepare_one [OF Cons.prems(1) u(1)] Cons.prems(1)] u(2)] show ?case by simp
qed simp

lemma rows_end_all: "data_inv s \<Longrightarrow> registered ms s \<Longrightarrow> rows_of (end_all clk ms s) = rows_of s"
proof (induction ms arbitrary: s)
  case (Cons m ms)
  note r = registered_Cons(1) [OF Cons.prems] registered_Cons(2) [OF Cons.prems, of clk]
  have "rows_of (end_one clk m s) = rows_of s"
  proof (rule rows_phase)
    fix i
    note e = end_one_effect(2) [OF Cons.prems(1) r(1), where clk = clk and j = i]
    show "\<exists>q. get_candidate i (registry (end_one clk m s)) = map_option (\<lambda>c. c\<lparr>cd_phase := q c\<rparr>) (get_candidate i (registry s))"
    proof (cases "i = te_reservationId m \<and> end_due (clk (reads s)) s m")
      case True
      then show ?thesis unfolding e by (intro exI [of _ "\<lambda>_. Finishing"]) simp
    next
      case False
      then show ?thesis unfolding e using keep_phase by (intro exI [of _ cd_phase]) auto
    qed
  qed
  with Cons.IH [OF good_data [OF good_end_one [OF Cons.prems(1) r(1)] Cons.prems(1)] r(2)] show ?case by simp
qed simp

lemma rows_round:
  assumes d: "data_inv s"
  shows "rows_of (evaluate_round clk s) = fold apply_rows (queuedMutations s) (rows_of s)"
proof -
  let ?q = "applyQueuedWork (s\<lparr>rerunRequested := False\<rparr>)"
  have dq: "data_inv ?q" using good_data [OF good_queue [of False "s\<lparr>rerunRequested := False\<rparr>"]] d by simp
  have p: "rows_of (dispatchDuePreparations clk ?q) = rows_of ?q" "data_inv (dispatchDuePreparations clk ?q)"
    using rows_prepare_all [OF dq unread_list [OF data_inv_registry [OF dq]]] good_data [OF good_preparations dq]
    by (simp_all add: dispatchDuePreparations_def)
  have "rows_of (dispatchDueTimeSpecifiedEnds clk (dispatchDuePreparations clk ?q)) = rows_of ?q"
    using rows_end_all [OF p(2) registered_all [OF p(2)]] p(1) by (simp add: dispatchDueTimeSpecifiedEnds_def)
  with p have "rows_of (evaluate_round clk s) = rows_of ?q" by (simp add: evaluate_round_def Let_def) (simp add: rows_of_def)
  then show ?thesis by (simp add: rows_queue) (simp add: rows_of_def)
qed

lemma rows_evaluate:
  assumes d: "data_inv s"
  shows "rows_of (evaluate clk s) = fold apply_rows (queuedMutations s) (rows_of s)"
  using rows_round [of "s\<lparr>evaluationRunning := True\<rparr>" clk] d
  by (simp add: rows_of_def evaluate_data evaluated_def)

text \<open>
  C19. The controller implements a partial map from reservations to rows. Accepting a change does not
  touch it, and when the microtask of the current token runs, whatever the clock shows, the rows behind
  the candidates become the old ones with all queued changes replayed in order: the inserted and updated
  rows are written, unless they are skipped or overlaps, and the deleted ones erased. No dispatch changes
  a row.
\<close>

theorem queue_refines_rows:
  assumes "scheduled clk requeue s" "started s" "microtasks s = currentControllerToken s # ts"
  shows "rows_of (microtask_runs c s) = fold apply_rows (queuedMutations s) (rows_of s) \<and>
    queuedMutations (microtask_runs c s) = [] \<and> rows_of (acceptMutation m s) = rows_of s"
proof -
  let ?r = "s\<lparr>microtasks := ts, microtaskScheduled := False\<rparr>"
  have m: "microtask_runs c s = evaluate c ?r" using assms(2,3) by (simp add: microtask_runs_def Let_def)
  have d: "data_inv ?r" using scheduled_data [OF assms(1)] by simp
  have "queuedMutations (evaluated c ?r) = []" using control_eqD(1) [OF evaluated_control] by simp
  moreover have "queuedMutations (armSingleWake c t) = queuedMutations t" for t
    using control_eqD(1) [OF control_deadlines [of c t]]
    by (simp add: armSingleWake_eq Let_def scheduleMicrotaskWake_def issueControllerToken_def)
  ultimately have "queuedMutations (evaluate c ?r) = []" by (simp add: evaluate_evaluated resolveIdleWaiters_def)
  moreover have "rows_of (acceptMutation m s) = rows_of s"
    using same_coalesce by (simp add: acceptMutation_def rows_of_def same_data_def split: sum.splits)
  ultimately show ?thesis using rows_evaluate [OF d, of c] by (simp add: m rows_of_def)
qed

subsection \<open>Changes of a reservation with a session\<close>

text \<open>
  An update keeps a running session and an insertion starts a new one. For a reservation that has a
  candidate, an update to a row that is still to be recorded leaves the phase and the session token as
  they are under a fresh generation, while an insertion (the retry after a failure) waits again under a
  token that was never issued before; a row that is skipped or an overlap ends the session. Each is
  announced by exactly one dispatch that carries the previous token.
\<close>

theorem update_keeps_session:
  assumes "data_inv s" "get_candidate i (registry s) = Some c" "i = reservation_id r"
    "getSessionSnapshot i s = (Some x, s1)"
  shows "(\<not> isSkip r \<and> \<not> isOverlap r \<longrightarrow>
      get_candidate i (registry (applyUpsert True b r s)) =
        Some (candidate_of r (generationCounter (registry s) + 1) (cd_phase c)) \<and>
      current_token (applyUpsert True b r s) i = Some (se_sessionToken x) \<and>
      get_candidate i (registry (applyUpsert False b r s)) =
        Some (candidate_of r (generationCounter (registry s) + 1) Waiting) \<and>
      current_token (applyUpsert False b r s) i = Some (sessionTokenCounter s1 + 1) \<and>
      sessionTokenCounter s < sessionTokenCounter s1 + 1) \<and>
    (isSkip r \<or> isOverlap r \<longrightarrow> get_candidate i (registry (applyUpsert u b r s)) = None \<and>
      current_token (applyUpsert u b r s) i = None) \<and>
    (\<exists>m. launched (applyUpsert u b r s) = launched s @ [Mutation m] \<and> md_reservationId m = i \<and>
      md_previousSessionToken m = Some (se_sessionToken x))"
proof -
  have e: "ensured i c s x s1" using snapshot_cases [OF assms(1,4)] assms(2) by auto
  have r: "registry s1 = registry s" "launched s1 = launched s" "se_phase x = cd_phase c" using ensuredD [OF e] by simp_all
  have n: "sessionTokenCounter s \<le> sessionTokenCounter s1" using ensured_follows [OF e, of False] by (simp add: follows_def)
  have g: "getSessionSnapshot (reservation_id r) s = (Some x, s1)" using assms(3,4) by simp
  have up: "upsert r p (registry s1) = (fst (upsert r p (registry s1)), snd (upsert r p (registry s1)))" for p by simp
  show ?thesis
  proof (cases "isSkip r \<or> isOverlap r")
    case True
    have "fst (upsert r p (registry s1)) = None" for p using True by (simp add: registry_simps)
    with True show ?thesis
      by (simp add: applyUpsert_def g Let_def case_prod_beta r current_token_def get_upsert assms(3))
  next
    case False
    have f: "fst (upsert r p (registry s1)) = Some (candidate_of r (generationCounter (registry s) + 1) p)" for p
      using False r by (simp add: registry_simps)
    with False n show ?thesis
      by (simp add: applyUpsert_def g Let_def case_prod_beta r current_token_def get_upsert assms(3) issueSessionToken_def)
  qed
qed

subsection \<open>A run\<close>

text \<open>The controller is started, one reservation of 100 to 200 seconds is inserted and the microtask
  runs, all at 80 seconds; the timer is then armed for the scan interval.\<close>

definition demo_start :: "int \<Rightarrow> schedule" where
  "demo_start t = acceptMutation ((new_values False)\<lparr>uv_insert := [demo_row]\<rparr>) (start (\<lambda>_. t) new_schedule)"

definition demo_armed :: "int \<Rightarrow> schedule" where
  "demo_armed t = microtask_runs (\<lambda>_. t) (demo_start t)"

lemma demo_start_values:
  "started (demo_start 80000)" "microtasks (demo_start 80000) = currentControllerToken (demo_start 80000) # []"
  "hasQueuedWork (demo_start 80000)" "microtasks (demo_start 86000) \<noteq> []" "microtasks (demo_start 80000) \<noteq> []"
  by code_simp+

lemma demo_armed_values:
  "started (demo_armed 80000)" "timers (demo_armed 80000) = [(5, 3000)]" "currentControllerToken (demo_armed 80000) = 5"
  "prep_tokens (demo_armed 86000) = [1]" "current_token (demo_armed 86000) 7 = Some 1"
  "sessionTokenCounter (demo_armed 86000) = 1"
  by code_simp+

lemma scheduled_start: "scheduled (\<lambda>_. t) w (demo_start t)"
  unfolding demo_start_def
  by (rule scheduled_step [OF scheduled_step [OF scheduled_new schedule_step.start] schedule_step.accept])

lemma scheduled_armed: "microtasks (demo_start t) \<noteq> [] \<Longrightarrow> scheduled (\<lambda>_. t) w (demo_armed t)"
  unfolding demo_armed_def by (rule scheduled_step [OF scheduled_start schedule_step.microtask])

theorem one_wakeup_pending_witness:
  "(\<exists>d. timers (demo_armed 80000) = [(currentControllerToken (demo_armed 80000), d)] \<and> 0 < d \<and> d \<le> 3000 \<and>
      currentControllerToken (demo_armed 80000) \<notin> set (microtasks (demo_armed 80000))) \<noteq>
   (timers (demo_armed 80000) = [] \<and>
      count_list (microtasks (demo_armed 80000)) (currentControllerToken (demo_armed 80000)) = 1) \<and>
   currentControllerToken (demo_start 80000) \<in> set (microtasks (demo_start 80000))"
  using one_wakeup_pending [OF scheduled_armed [OF demo_start_values(5)] demo_armed_values(1)]
    one_wakeup_pending [OF scheduled_start demo_start_values(1)] demo_start_values(3) by blast

theorem session_prepared_once_witness:
  "distinct (prep_tokens (demo_armed 86000)) \<and> prep_tokens (demo_armed 86000) = [1]"
  using session_prepared_once [OF scheduled_armed [OF demo_start_values(4)]] demo_armed_values(4) by simp

text \<open>The reservation is removed and inserted again: the first token is stale.\<close>

definition demo_again :: schedule where
  "demo_again = microtask_runs (\<lambda>_. 86000) (acceptMutation
     \<lparr>uv_insert = [demo_row], uv_update = [], uv_delete = [], isSuppressLog = False, isStartupRebuild = False\<rparr> (demo_armed 86000))"

theorem stale_session_rejected_witness:
  "current_token (stop demo_again) 7 \<noteq> Some 1 \<and>
   \<not> fst (tryTransitionSession 7 1 1 Preparing Recording (stop demo_again)) \<and>
   registry (snd (tryTransitionSession 7 1 1 Preparing Recording (stop demo_again))) = registry (stop demo_again)"
proof (rule stale_session_rejected)
  have a: "microtasks (acceptMutation \<lparr>uv_insert = [demo_row], uv_update = [], uv_delete = [], isSuppressLog = False,
      isStartupRebuild = False\<rparr> (demo_armed 86000)) \<noteq> []" by code_simp
  have "scheduled (\<lambda>_. 86000) True demo_again"
    unfolding demo_again_def
    by (rule scheduled_step [OF scheduled_step [OF scheduled_armed [OF demo_start_values(4)] schedule_step.accept]
        schedule_step.microtask [OF a]])
  then show "data_inv demo_again" by (rule scheduled_data)
  show "1 \<le> sessionTokenCounter demo_again" by code_simp
  show "current_token demo_again 7 \<noteq> Some 1" by code_simp
  show "(schedule_step (\<lambda>_. 86000) True)\<^sup>*\<^sup>* demo_again (stop demo_again)"
    by (rule r_into_rtranclp) (rule schedule_step.stop)
qed

theorem timer_dispatches_due_witness:
  "prepared (timer_fires (\<lambda>_. 85000) 5 (demo_armed 80000)) =
     prepared (demo_armed 80000) @
       map (cd_phase_update (\<lambda>_. Preparing)) (filter (due 85000) (list_candidates (registry (demo_armed 80000)))) \<and>
   ended (timer_fires (\<lambda>_. 85000) 5 (demo_armed 80000)) =
     ended (demo_armed 80000) @ filter (end_due 85000 (demo_armed 80000)) (map snd (timeSpecifiedEnds (demo_armed 80000))) \<and>
   get_candidate 7 (registry (timer_fires (\<lambda>_. 85000) 5 (demo_armed 80000))) = outcome 85000 (demo_armed 80000) 7"
proof (rule timer_dispatches_due)
  show "scheduled (\<lambda>_. 80000) True (demo_armed 80000)" by (rule scheduled_armed [OF demo_start_values(5)])
  show "(5, 3000) \<in> set (timers (demo_armed 80000))" by (simp add: demo_armed_values)
qed

theorem wakeup_settles_witness:
  "\<exists>delay. settled 85000 (timer_fires (\<lambda>_. 85000) 5 (demo_armed 80000)) delay \<and>
    timers (timer_fires (\<lambda>_. 85000) 5 (demo_armed 80000)) =
      [(currentControllerToken (timer_fires (\<lambda>_. 85000) 5 (demo_armed 80000)), delay)] \<and>
    isIdle (timer_fires (\<lambda>_. 85000) 5 (demo_armed 80000)) \<and>
    idleWaiters (timer_fires (\<lambda>_. 85000) 5 (demo_armed 80000)) = [] \<and>
    resolvedWaiters (timer_fires (\<lambda>_. 85000) 5 (demo_armed 80000)) =
      resolvedWaiters (demo_armed 80000) @ idleWaiters (demo_armed 80000)"
proof (rule wakeup_settles [OF scheduled_armed [OF demo_start_values(5)] demo_armed_values(1)])
  have "(5, 3000) \<in> set (timers (demo_armed 80000))" by (simp add: demo_armed_values)
  then show "woken 85000 (demo_armed 80000) (timer_fires (\<lambda>_. 85000) 5 (demo_armed 80000))"
    unfolding woken_def by blast
qed

theorem queue_refines_rows_witness:
  "rows_of (microtask_runs (\<lambda>_. 80000) (demo_start 80000)) =
     fold apply_rows (queuedMutations (demo_start 80000)) (rows_of (demo_start 80000)) \<and>
   queuedMutations (microtask_runs (\<lambda>_. 80000) (demo_start 80000)) = [] \<and>
   rows_of (acceptMutation (new_values True) (demo_start 80000)) = rows_of (demo_start 80000)"
  by (rule queue_refines_rows [OF scheduled_start demo_start_values(1,2)])

theorem update_keeps_session_witness:
  "get_candidate 7 (registry (applyUpsert True False demo_row (demo_armed 86000))) = Some (candidate_of demo_row 2 Preparing) \<and>
   current_token (applyUpsert True False demo_row (demo_armed 86000)) 7 = Some 1 \<and>
   current_token (applyUpsert False False demo_row (demo_armed 86000)) 7 = Some 2"
proof -
  let ?s = "demo_armed 86000" and ?c = "candidate_of demo_row 1 Preparing"
  let ?x = "\<lparr>se_reservationId = 7, se_generation = 1, se_sessionToken = 1, se_phase = Preparing\<rparr>"
  have d: "data_inv ?s" by (rule scheduled_data [OF scheduled_armed [OF demo_start_values(4)]])
  have c: "get_candidate 7 (registry ?s) = Some ?c" "7 = reservation_id demo_row"
    "fst (getSessionSnapshot 7 ?s) = Some ?x" "\<not> isSkip demo_row" "\<not> isOverlap demo_row"
    "generationCounter (registry ?s) = 1" "sessionTokenCounter (snd (getSessionSnapshot 7 ?s)) = 1"
    by code_simp+
  have "getSessionSnapshot 7 ?s = (Some ?x, snd (getSessionSnapshot 7 ?s))" using c(3) by (metis prod.collapse)
  from update_keeps_session [OF d c(1,2) this] c show ?thesis by simp
qed

end
