(* ===== verification/Recording_Manage.thy ===== *)
theory Recording_Manage
  imports Schedule_Facts Recorded_Use
begin

text \<open>
  \<open>RecordingManageModel\<close> (\<open>src/src/model/operator/recording/RecordingManageModel.ts\<close>): it
  starts the scheduler of the recordings, turns its dispatches into recorders, retries failed recordings
  and tells which recorded programmes are being written. The model is the machine of its synchronous
  stretches: a public method, a listener or a callback runs to its first \<open>await\<close>, and the rest is a
  step of its own. \<open>sessionMutationTail\<close> is the queue \<open>chain\<close>: what \<open>queueSessionOperation\<close>
  appends blocks the entries behind it until it has finished, what \<open>afterSessionMutations\<close> appends
  runs in its place and does not block. Recorders, use objects and unknown identities are numbers; a
  reservation object is its row, which is the same comparison because a generation belongs to one object.
\<close>

subsection \<open>State\<close>

datatype startup_state = NotStarted | Starting | Started | Failed

text \<open>How far \<open>rebuildCandidatesAndStartInternal\<close> is.\<close>

datatype startup_stage = Not_running | Reading_rows | Awaiting_start

record failure_identity =
  fi_reservationId :: int
  fi_generation :: int
  fi_sessionToken :: int
  fi_reservation :: reserve
  fi_isRetryable :: bool

record active_use =
  au_recordedId :: int
  au_use :: nat
  au_reservationId :: int

datatype recorder_call =
    SetTimer nat int int reserve
  | BindSession nat recording_session reserve
  | UpdateRecorder nat reserve
  | CancelRecorder nat bool
  | StartPreparation nat int int
  | FinishAtTimeSpecifiedEnd nat int int
  | ResetTimer nat

datatype chain_entry =
    Session_operation mutation_dispatch
  | After_preparation recording_candidate int int
  | After_time_end time_end

datatype running_operation =
    Awaiting_provider mutation_dispatch recording_session recording_candidate
  | Awaiting_call

record manager =
  sch :: schedule
  taken :: nat
  uses :: use_provider
  recordingIndex :: "(int, nat) jsmap"
  recordingSessionTokens :: "(int, int) jsmap"
  recordingFailureClaims :: "int list"
  activeRecordedUseSessions :: "(nat, active_use) jsmap"
  normalRecordedUseTerminals :: "(nat, nat) jsmap"
  unknownRecordedUseSessions :: "(int, nat) jsmap"
  deletionStops :: "(int, nat \<times> nat) jsmap"
  chain :: "chain_entry list"
  running_op :: "running_operation option"
  scheduleStarted :: bool
  candidateStartupState :: startup_state
  stage :: startup_stage
  pendingStartupMutations :: "update_values list"
  pendingStartupRecordingFailures :: "(reserve \<times> failure_identity option) list"
  startupRemovedReservationIds :: "int list"
  failuresToFlush :: "(reserve \<times> failure_identity option) list"
  failuresInProgress :: "(reserve \<times> failure_identity) list"
  object_count :: nat
  calls :: "recorder_call list"
  retryOver :: "reserve list"

definition new_manager :: manager where
  "new_manager = \<lparr>sch = new_schedule, taken = 0, uses = new_use_provider, recordingIndex = [],
     recordingSessionTokens = [], recordingFailureClaims = [], activeRecordedUseSessions = [],
     normalRecordedUseTerminals = [], unknownRecordedUseSessions = [], deletionStops = [], chain = [],
     running_op = None, scheduleStarted = False, candidateStartupState = NotStarted, stage = Not_running,
     pendingStartupMutations = [], pendingStartupRecordingFailures = [], startupRemovedReservationIds = [],
     failuresToFlush = [], failuresInProgress = [], object_count = 0, calls = [], retryOver = []\<rparr>"

definition RECORDING_ATTEMPT_LIMIT :: nat where
  "RECORDING_ATTEMPT_LIMIT = 5"

subsection \<open>Dispatches of the scheduler\<close>

fun enqueue :: "dispatch \<Rightarrow> manager \<Rightarrow> manager" where
  "enqueue (Mutation md) m = m\<lparr>recordingFailureClaims := removeAll (md_reservationId md) (recordingFailureClaims m),
     chain := chain m @ [Session_operation md]\<rparr>"
| "enqueue (Preparation c generation token) m = m\<lparr>chain := chain m @ [After_preparation c generation token]\<rparr>"
| "enqueue Reset m = m"
| "enqueue (TimeEnd e) m = m\<lparr>chain := chain m @ [After_time_end e]\<rparr>"

text \<open>An operation of the scheduler, with the callbacks it calls.\<close>

definition with_schedule :: "(schedule \<Rightarrow> schedule) \<Rightarrow> manager \<Rightarrow> manager" where
  "with_schedule f m =
     (let s = f (sch m)
      in fold enqueue (drop (taken m) (launched s)) (m\<lparr>sch := s, taken := length (launched s)\<rparr>))"

definition session_of :: "int \<Rightarrow> manager \<Rightarrow> recording_session option" where
  "session_of i m = fst (getSessionSnapshot i (sch m))"

text \<open>\<open>getSessionSnapshot\<close> may create the session it returns.\<close>

definition snapshot :: "int \<Rightarrow> manager \<Rightarrow> recording_session option \<times> manager" where
  "snapshot i m = (session_of i m, with_schedule (\<lambda>s. snd (getSessionSnapshot i s)) m)"

definition log_call :: "recorder_call \<Rightarrow> manager \<Rightarrow> manager" where
  "log_call c m = m\<lparr>calls := calls m @ [c]\<rparr>"

definition bindRecorder :: "nat \<Rightarrow> recording_session \<Rightarrow> manager \<Rightarrow> manager" where
  "bindRecorder recorder session m = (case get_candidate (se_reservationId session) (registry (sch m)) of
     None \<Rightarrow> m
   | Some candidate \<Rightarrow> log_call (BindSession recorder session (cd_reservation candidate)) m)"

definition deleteRecording :: "int \<Rightarrow> manager \<Rightarrow> manager" where
  "deleteRecording i m =
     (if map_of (deletionStops m) i \<noteq> None then m
      else m\<lparr>recordingIndex := map_delete i (recordingIndex m),
             recordingSessionTokens := map_delete i (recordingSessionTokens m)\<rparr>)"

subsection \<open>The operations of the chain\<close>

definition is_session :: "int \<Rightarrow> int \<Rightarrow> recording_session option \<Rightarrow> bool" where
  "is_session generation token session = (case session of
     None \<Rightarrow> False | Some x \<Rightarrow> se_generation x = generation \<and> se_sessionToken x = token)"

definition dispatchPreparation :: "recording_candidate \<Rightarrow> int \<Rightarrow> int \<Rightarrow> manager \<Rightarrow> manager" where
  "dispatchPreparation candidate generation sessionToken m =
     (let i = cd_reservationId candidate;
          (current, m1) = snapshot i m
      in case current of
           None \<Rightarrow> m1
         | Some x \<Rightarrow>
             if \<not> is_session generation sessionToken current \<or> se_phase x \<noteq> Preparing then m1
             else (case map_of (recordingIndex m1) i of
               None \<Rightarrow> m1
             | Some recorder \<Rightarrow>
                 if map_of (recordingSessionTokens m1) i \<noteq> Some sessionToken then m1
                 else log_call (StartPreparation recorder i sessionToken) (bindRecorder recorder x m1)))"

definition dispatchTimeSpecifiedEnd :: "time_end \<Rightarrow> manager \<Rightarrow> manager" where
  "dispatchTimeSpecifiedEnd milestone m =
     (let i = te_reservationId milestone;
          recorder = map_of (recordingIndex m) i;
          (current, m1) = snapshot i m
      in case recorder of
           None \<Rightarrow> m1
         | Some r \<Rightarrow>
             if map_of (recordingSessionTokens m1) i \<noteq> Some (te_sessionToken milestone) then m1
             else (case current of
               None \<Rightarrow> m1
             | Some x \<Rightarrow>
                 if \<not> is_session (te_generation milestone) (te_sessionToken milestone) current \<or> se_phase x \<noteq> Finishing then m1
                 else log_call (FinishAtTimeSpecifiedEnd r i (te_sessionToken milestone)) (bindRecorder r x m1)))"

definition applyScheduleRemoval :: "mutation_dispatch \<Rightarrow> manager \<Rightarrow> manager" where
  "applyScheduleRemoval mutation m =
     (let i = md_reservationId mutation
      in case map_of (recordingIndex m) i of
           None \<Rightarrow> m
         | Some recorder \<Rightarrow>
             (let indexedToken = map_of (recordingSessionTokens m) i
              in if indexedToken \<noteq> None \<and> md_previousSessionToken mutation \<noteq> None \<and>
                    indexedToken \<noteq> md_previousSessionToken mutation then m
                 else let m1 = deleteRecording i m
                      in if isSkip (md_reservation mutation) \<or> isOverlap (md_reservation mutation)
                         then (log_call (UpdateRecorder recorder (md_reservation mutation)) m1)\<lparr>running_op := Some Awaiting_call\<rparr>
                         else (log_call (CancelRecorder recorder False) m1)\<lparr>running_op := Some Awaiting_call\<rparr>))"

text \<open>\<open>applyScheduleMutation\<close> up to its first \<open>await\<close>; the margin is in seconds.\<close>

definition applyScheduleMutation :: "clock \<Rightarrow> int \<Rightarrow> mutation_dispatch \<Rightarrow> manager \<Rightarrow> manager" where
  "applyScheduleMutation clk timeSpecifiedEndMargin mutation m =
     (let i = md_reservationId mutation;
          stopped = (case map_of (deletionStops m) i of
             None \<Rightarrow> False | Some st \<Rightarrow> Some (fst st) = map_of (recordingIndex m) i)
      in if stopped then m
         else if md_action mutation = RemoveAction then applyScheduleRemoval mutation m
         else let (current, m1) = snapshot i m
              in case current of
                   None \<Rightarrow> m1
                 | Some x \<Rightarrow> (case get_candidate i (registry (sch m1)) of
                     None \<Rightarrow> m1
                   | Some candidate \<Rightarrow>
                       if md_sessionToken mutation \<noteq> Some (se_sessionToken x) then m1
                       else let recorder = map_of (recordingIndex m1) i;
                                indexedToken = map_of (recordingSessionTokens m1) i
                            in if recorder \<noteq> None \<and> indexedToken \<noteq> None \<and> indexedToken \<noteq> Some (se_sessionToken x) then m1
                               else (case recorder of
                                 None \<Rightarrow> m1\<lparr>running_op := Some (Awaiting_provider mutation x candidate)\<rparr>
                               | Some r \<Rightarrow>
                                   let m2 = bindRecorder r x m1;
                                       m3 = (if cd_kind candidate = TimeSpecified
                                             then with_schedule (registerTimeSpecifiedEnd clk i (se_generation x)
                                                    (Some (se_sessionToken x)) (cd_endAt candidate + timeSpecifiedEndMargin * 1000)) m2
                                             else m2)
                                   in (log_call (UpdateRecorder r (cd_reservation candidate)) m3)\<lparr>running_op := Some Awaiting_call\<rparr>)))"

text \<open>The provider has answered with a new recorder; \<open>timer_set\<close> is what its \<open>setTimer\<close> returns.\<close>

definition provider_returns :: "bool \<Rightarrow> mutation_dispatch \<Rightarrow> recording_session \<Rightarrow> recording_candidate \<Rightarrow> manager \<Rightarrow> manager" where
  "provider_returns timer_set mutation current candidate m =
     (let recorder = object_count m;
          (afterProvider, m1) = snapshot (md_reservationId mutation) (m\<lparr>object_count := recorder + 1, running_op := None\<rparr>)
      in case afterProvider of
           None \<Rightarrow> m1
         | Some x \<Rightarrow>
             if \<not> is_session (se_generation current) (se_sessionToken current) afterProvider then m1
             else let m2 = log_call (SetTimer recorder (cd_reservationId candidate) (se_sessionToken x) (cd_reservation candidate))
                             (bindRecorder recorder x m1)
                  in if \<not> timer_set
                     then with_schedule (\<lambda>s. snd (tryTransitionSession (cd_reservationId candidate) (se_generation x)
                            (se_sessionToken x) (se_phase x) Completed s)) m2
                     else m2\<lparr>recordingIndex := map_set (cd_reservationId candidate) recorder (recordingIndex m2),
                             recordingSessionTokens := map_set (cd_reservationId candidate) (se_sessionToken x) (recordingSessionTokens m2)\<rparr>)"

fun run_entry :: "clock \<Rightarrow> int \<Rightarrow> chain_entry \<Rightarrow> manager \<Rightarrow> manager" where
  "run_entry clk margin (Session_operation md) m = applyScheduleMutation clk margin md m"
| "run_entry clk margin (After_preparation c generation token) m = dispatchPreparation c generation token m"
| "run_entry clk margin (After_time_end e) m = dispatchTimeSpecifiedEnd e m"

definition run_chain :: "clock \<Rightarrow> int \<Rightarrow> manager \<Rightarrow> manager" where
  "run_chain clk margin m = (case chain m of
     [] \<Rightarrow> m
   | e # rest \<Rightarrow> if running_op m \<noteq> None then m else run_entry clk margin e (m\<lparr>chain := rest\<rparr>))"

subsection \<open>Start-up\<close>

definition flushPendingStartupMutations :: "manager \<Rightarrow> manager" where
  "flushPendingStartupMutations m =
     fold (\<lambda>d. with_schedule (acceptMutation d)) (pendingStartupMutations m) (m\<lparr>pendingStartupMutations := []\<rparr>)"

text \<open>The filter of the stored rows; the clock is read for the rows that are neither skipped nor overlaps,
  and \<open>clk n\<close> is its n-th reading.\<close>

fun startup_candidates :: "clock \<Rightarrow> nat \<Rightarrow> int list \<Rightarrow> reserve list \<Rightarrow> reserve list" where
  "startup_candidates clk n removed [] = []"
| "startup_candidates clk n removed (r # rs) =
     (if isSkip r \<or> isOverlap r then startup_candidates clk n removed rs
      else let cs = startup_candidates clk (Suc n) removed rs
           in if endAt r > clk n \<and> reservation_id r \<notin> set removed then r # cs else cs)"

definition rebuildCandidatesAndStart :: "manager \<Rightarrow> manager" where
  "rebuildCandidatesAndStart m =
     (if candidateStartupState m \<noteq> NotStarted then m
      else m\<lparr>candidateStartupState := Starting, stage := Reading_rows\<rparr>)"

definition rows_are_read :: "clock \<Rightarrow> clock \<Rightarrow> reserve list \<Rightarrow> manager \<Rightarrow> manager" where
  "rows_are_read clk now reservations m =
     (let candidates = startup_candidates now 0 (startupRemovedReservationIds m) reservations;
          m1 = with_schedule (\<lambda>s. s\<lparr>registry := rebuild candidates (registry s)\<rparr>) m;
          m2 = with_schedule (acceptMutation ((new_values True)\<lparr>uv_insert := candidates\<rparr>)) m1;
          m3 = flushPendingStartupMutations m2
      in (with_schedule (start clk) m3)\<lparr>stage := Awaiting_start\<rparr>)"

definition start_returns :: "manager \<Rightarrow> manager" where
  "start_returns m =
     (let m1 = flushPendingStartupMutations (m\<lparr>scheduleStarted := True\<rparr>)
      in m1\<lparr>candidateStartupState := Started, stage := Not_running, pendingStartupRecordingFailures := [],
            failuresToFlush := failuresToFlush m1 @ pendingStartupRecordingFailures m1\<rparr>)"

definition forget_reservation :: "int \<Rightarrow> manager \<Rightarrow> manager" where
  "forget_reservation i m =
     with_schedule (\<lambda>s. s\<lparr>registry := snd (remove_candidate i (registry s))\<rparr>)
       (m\<lparr>recordingIndex := map_delete i (recordingIndex m), recordingSessionTokens := map_delete i (recordingSessionTokens m),
          recordingFailureClaims := removeAll i (recordingFailureClaims m)\<rparr>)"

text \<open>The elements of a \<open>Set\<close>, in the order in which they are added first.\<close>

definition added_once :: "'a list \<Rightarrow> 'a list" where
  "added_once xs = rev (remdups (rev xs))"

text \<open>The keys of \<open>recordingIndex\<close> are integers, so they come in ascending order.
  The cancellations of the recorders are only waited for, and their errors only logged.\<close>

definition failCandidateStartup :: "manager \<Rightarrow> manager" where
  "failCandidateStartup m =
     (let wasStarting = (candidateStartupState m = Starting);
          m1 = m\<lparr>candidateStartupState := Failed, scheduleStarted := False, pendingStartupMutations := [],
                 pendingStartupRecordingFailures := [], stage := Not_running\<rparr>;
          ids = (if wasStarting
                 then added_once (map cd_reservationId (list_candidates (registry (sch m))) @ sort (map fst (recordingIndex m))) else []);
          recorders = added_once (List.map_filter (map_of (recordingIndex m)) ids);
          m2 = with_schedule stop (fold forget_reservation ids m1)
      in fold (\<lambda>r. log_call (CancelRecorder r False)) recorders m2)"

subsection \<open>Changes of the reservations\<close>

definition ensureScheduleStarted :: "clock \<Rightarrow> manager \<Rightarrow> manager" where
  "ensureScheduleStarted clk m =
     (if candidateStartupState m \<noteq> Started \<or> scheduleStarted m then m
      else with_schedule (start clk) (m\<lparr>scheduleStarted := True\<rparr>))"

text \<open>Rows without an id make the snapshot \<open>None\<close>; the scheduler then refuses the change with a report.\<close>

definition snapshotStartupMutation :: "update_values \<Rightarrow> update_values option" where
  "snapshotStartupMutation diff =
     (if list_all (\<lambda>r. reserveId r \<noteq> None) (uv_insert diff @ uv_update diff @ uv_delete diff)
      then Some (diff\<lparr>isStartupRebuild := False\<rparr>) else None)"

definition manager_acceptMutation :: "clock \<Rightarrow> update_values \<Rightarrow> manager \<Rightarrow> manager" where
  "manager_acceptMutation clk diff m =
     (if candidateStartupState m = Failed then m
      else if candidateStartupState m \<noteq> Started then (case snapshotStartupMutation diff of
          None \<Rightarrow> with_schedule (acceptMutation diff) m
        | Some copy \<Rightarrow> m\<lparr>pendingStartupMutations := pendingStartupMutations m @ [copy]\<rparr>)
      else with_schedule (acceptMutation diff) (ensureScheduleStarted clk m))"

definition resetTimer :: "clock \<Rightarrow> manager \<Rightarrow> manager" where
  "resetTimer clk m =
     (if candidateStartupState m \<noteq> Started then m
      else let m1 = with_schedule requestReset (ensureScheduleStarted clk m)
           in fold (\<lambda>i. log_call (ResetTimer (the (map_of (recordingIndex m1) i)))) (sort (map fst (recordingIndex m1))) m1)"

definition hasReserve :: "int \<Rightarrow> manager \<Rightarrow> bool" where
  "hasReserve i m = (map_of (recordingIndex m) i \<noteq> None)"

subsection \<open>Failed recordings\<close>

text \<open>The code compares the reservation of the candidate with the one of the failure as objects. A candidate keeps
  one object as long as its generation lasts, and the generations are compared as well, so comparing the rows comes
  to the same.\<close>

definition isCurrentRecordingFailure :: "failure_identity \<Rightarrow> manager \<Rightarrow> bool \<times> manager" where
  "isCurrentRecordingFailure failure m =
     (let (currentSession, m1) = snapshot (fi_reservationId failure) m;
          currentCandidate = get_candidate (fi_reservationId failure) (registry (sch m1))
      in (is_session (fi_generation failure) (fi_sessionToken failure) currentSession \<and>
          (case currentCandidate of None \<Rightarrow> False | Some c \<Rightarrow>
             cd_generation c = fi_generation failure \<and> cd_reservation c = fi_reservation failure), m1))"

definition isValidRecordingFailure :: "reserve \<Rightarrow> failure_identity option \<Rightarrow> manager \<Rightarrow> bool \<times> manager" where
  "isValidRecordingFailure r failedIdentity m = (case failedIdentity of
     None \<Rightarrow> (False, m)
   | Some failure \<Rightarrow>
       if fi_reservationId failure \<noteq> reservation_id r then (False, m) else isCurrentRecordingFailure failure m)"

text \<open>\<open>processRecordingFailure\<close> up to the query of the recorded programmes, and what follows it.\<close>

definition processRecordingFailure :: "reserve \<Rightarrow> failure_identity option \<Rightarrow> manager \<Rightarrow> manager" where
  "processRecordingFailure r failedIdentity m =
     (let i = reservation_id r
      in if map_of (deletionStops m) i \<noteq> None \<or> candidateStartupState m \<noteq> Started then m
         else let (valid, m1) = isValidRecordingFailure r failedIdentity m
              in if \<not> valid then m1
                 else if i \<in> set (recordingFailureClaims m1) then m1
                 else let m2 = deleteRecording i (m1\<lparr>recordingFailureClaims := i # recordingFailureClaims m1\<rparr>)
                      in m2\<lparr>failuresInProgress := failuresInProgress m2 @ [(r, the failedIdentity)]\<rparr>)"

definition recordeds_found :: "int \<Rightarrow> nat \<Rightarrow> reserve \<times> failure_identity \<Rightarrow> manager \<Rightarrow> manager" where
  "recordeds_found now n f m =
     (let (r, failure) = f;
          (current, m1) = isCurrentRecordingFailure failure (m\<lparr>failuresInProgress := remove1 f (failuresInProgress m)\<rparr>)
      in if \<not> current then m1
         else if fi_isRetryable failure \<and> n < RECORDING_ATTEMPT_LIMIT
           then if endAt (fi_reservation failure) \<le> now then m1
                else with_schedule (acceptMutation ((new_values False)\<lparr>uv_insert := [fi_reservation failure]\<rparr>)) m1
           else m1\<lparr>retryOver := retryOver m1 @ [r]\<rparr>)"

text \<open>The query was rejected: the claim stays.\<close>

definition recordeds_rejected :: "reserve \<times> failure_identity \<Rightarrow> manager \<Rightarrow> manager" where
  "recordeds_rejected f m = m\<lparr>failuresInProgress := remove1 f (failuresInProgress m)\<rparr>"

definition on_recording_failed :: "reserve \<Rightarrow> failure_identity option \<Rightarrow> manager \<Rightarrow> manager" where
  "on_recording_failed r failedIdentity m =
     (if candidateStartupState m = Starting
      then m\<lparr>pendingStartupRecordingFailures := pendingStartupRecordingFailures m @ [(r, failedIdentity)]\<rparr>
      else processRecordingFailure r failedIdentity m)"

definition flush_failure :: "manager \<Rightarrow> manager" where
  "flush_failure m = (case failuresToFlush m of
     [] \<Rightarrow> m | (r, failure) # rest \<Rightarrow> processRecordingFailure r failure (m\<lparr>failuresToFlush := rest\<rparr>))"

subsection \<open>Recorded programmes in use\<close>

definition isRecordedUseId :: "int \<Rightarrow> bool" where
  "isRecordedUseId i \<longleftrightarrow> 0 \<le> i \<and> i \<le> 9007199254740991"

definition hasActiveRecordedUse :: "nat \<Rightarrow> manager \<Rightarrow> bool" where
  "hasActiveRecordedUse recorder m = (map_of (activeRecordedUseSessions m) recorder \<noteq> None)"

definition register_use :: "nat \<Rightarrow> session_use \<Rightarrow> manager \<Rightarrow> registration \<times> manager" where
  "register_use identity u m =
     (let (res, p) = tryRegisterSessionUse identity u (uses m) in (res, m\<lparr>uses := p\<rparr>))"

definition release_use :: "nat \<Rightarrow> tracked_use option \<Rightarrow> manager \<Rightarrow> manager" where
  "release_use identity expected m = m\<lparr>uses := releaseSessionUse identity expected (uses m)\<rparr>"

definition observePreparingRecordedUse :: "int \<Rightarrow> manager \<Rightarrow> manager" where
  "observePreparingRecordedUse i m = (case map_of (recordingIndex m) i of
     None \<Rightarrow> m
   | Some recorder \<Rightarrow> if hasActiveRecordedUse recorder m then m else snd (register_use recorder Preparing_use m))"

text \<open>\<open>has_terminal\<close>: the recorder has a \<open>whenNormalRecordingTerminal\<close>.\<close>

definition observeActiveRecordedUse :: "bool \<Rightarrow> int \<Rightarrow> int \<Rightarrow> manager \<Rightarrow> manager" where
  "observeActiveRecordedUse has_terminal i recordedId m =
     (case (if isRecordedUseId recordedId then map_of (recordingIndex m) i else None) of
        None \<Rightarrow>
          (let (identity, m1) = (case map_of (recordingIndex m) i of
                 Some recorder \<Rightarrow> (recorder, m)
               | None \<Rightarrow> (case map_of (unknownRecordedUseSessions m) i of
                   Some x \<Rightarrow> (x, m)
                 | None \<Rightarrow> (object_count m, m\<lparr>object_count := object_count m + 1\<rparr>)))
           in snd (register_use identity Unknown_use
                (m1\<lparr>unknownRecordedUseSessions := map_set i identity (unknownRecordedUseSessions m1)\<rparr>)))
      | Some recorder \<Rightarrow>
          (let use = object_count m;
               (res, m1) = register_use recorder (Active_use use recordedId) (m\<lparr>object_count := use + 1\<rparr>)
           in if res \<noteq> Registered then m1
              else let unknown = map_of (unknownRecordedUseSessions m1) i;
                       m2 = m1\<lparr>unknownRecordedUseSessions := map_delete i (unknownRecordedUseSessions m1)\<rparr>;
                       m3 = (case unknown of None \<Rightarrow> m2 | Some x \<Rightarrow> if x \<noteq> recorder then release_use x None m2 else m2);
                       m4 = m3\<lparr>activeRecordedUseSessions := map_set recorder
                              \<lparr>au_recordedId = recordedId, au_use = use, au_reservationId = i\<rparr> (activeRecordedUseSessions m3)\<rparr>
                   in if has_terminal
                      then m4\<lparr>normalRecordedUseTerminals := map_set recorder use (normalRecordedUseTerminals m4)\<rparr>
                      else m4))"

text \<open>\<open>findActiveRecordedUse\<close> without an expectation: the recorder and its entry.\<close>

definition findActiveRecordedUse :: "int \<Rightarrow> int \<Rightarrow> manager \<Rightarrow> (nat \<times> active_use) option" where
  "findActiveRecordedUse i recordedId m =
     find (\<lambda>p. au_reservationId (snd p) = i \<and> au_recordedId (snd p) = recordedId) (activeRecordedUseSessions m)"

definition isAwaitingNormalRecordedUseTerminal :: "int \<Rightarrow> int \<Rightarrow> manager \<Rightarrow> bool" where
  "isAwaitingNormalRecordedUseTerminal i recordedId m =
     (if \<not> isRecordedUseId recordedId then False
      else case findActiveRecordedUse i recordedId m of
        None \<Rightarrow> False
      | Some (recorder, active) \<Rightarrow> map_of (normalRecordedUseTerminals m) recorder = Some (au_use active))"

text \<open>One active entry goes, with what waits for its terminal.\<close>

definition drop_active :: "nat \<times> active_use \<Rightarrow> manager \<Rightarrow> manager" where
  "drop_active p m =
     (let (recorder, active) = p;
          m1 = m\<lparr>activeRecordedUseSessions := map_delete recorder (activeRecordedUseSessions m)\<rparr>;
          m2 = (if map_of (normalRecordedUseTerminals m1) recorder = Some (au_use active)
                then m1\<lparr>normalRecordedUseTerminals := map_delete recorder (normalRecordedUseTerminals m1)\<rparr> else m1)
      in release_use recorder (Some (Tracked_active (au_use active) (au_recordedId active))) m2)"

definition drop_unknown :: "int \<Rightarrow> manager \<Rightarrow> manager" where
  "drop_unknown i m = (case map_of (unknownRecordedUseSessions m) i of
     None \<Rightarrow> m
   | Some x \<Rightarrow> release_use x None (m\<lparr>unknownRecordedUseSessions := map_delete i (unknownRecordedUseSessions m)\<rparr>))"

text \<open>The expectation is the recorder and its use object.\<close>

definition releaseRecordedUse :: "int \<Rightarrow> int \<Rightarrow> (nat \<times> nat) option \<Rightarrow> manager \<Rightarrow> manager" where
  "releaseRecordedUse i recordedId expected m =
     (let active = (if \<not> isRecordedUseId recordedId then None
            else case expected of
              None \<Rightarrow> findActiveRecordedUse i recordedId m
            | Some (recorder, use) \<Rightarrow> (case map_of (activeRecordedUseSessions m) recorder of
                None \<Rightarrow> None | Some a \<Rightarrow> if au_use a = use then Some (recorder, a) else None))
      in case active of
           Some p \<Rightarrow> drop_active p m
         | None \<Rightarrow> if expected \<noteq> None then m else drop_unknown i m)"

definition releaseRecordedUsesForReservation :: "int \<Rightarrow> manager \<Rightarrow> manager" where
  "releaseRecordedUsesForReservation i m =
     drop_unknown i (fold drop_active (filter (\<lambda>p. au_reservationId (snd p) = i) (activeRecordedUseSessions m)) m)"

text \<open>The promise of the normal end has resolved, for the use it was registered with.\<close>

definition normal_terminal :: "int \<Rightarrow> int \<Rightarrow> nat \<Rightarrow> nat \<Rightarrow> manager \<Rightarrow> manager" where
  "normal_terminal i recordedId recorder use m =
     (if map_of (normalRecordedUseTerminals m) recorder \<noteq> Some use then m
      else releaseRecordedUse i recordedId (Some (recorder, use))
             (m\<lparr>normalRecordedUseTerminals := map_delete recorder (normalRecordedUseTerminals m)\<rparr>))"

text \<open>The listeners of the recording events.\<close>

definition on_preparation_ended :: "int \<Rightarrow> manager \<Rightarrow> manager" where
  "on_preparation_ended i m = deleteRecording i (releaseRecordedUsesForReservation i m)"

definition on_finish_recording :: "int \<Rightarrow> int \<Rightarrow> manager \<Rightarrow> manager" where
  "on_finish_recording i recordedId m =
     deleteRecording i (if isAwaitingNormalRecordedUseTerminal i recordedId m then m else releaseRecordedUse i recordedId None m)"

subsection \<open>Cancellation\<close>

text \<open>\<open>cancel\<close>; the second component of a stop is its identity.\<close>

definition cancel :: "int \<Rightarrow> bool \<Rightarrow> manager \<Rightarrow> manager" where
  "cancel i isPlanToDelete m = (case map_of (recordingIndex m) i of
     None \<Rightarrow> m
   | Some recording \<Rightarrow>
       if (case map_of (deletionStops m) i of None \<Rightarrow> False | Some st \<Rightarrow> fst st = recording) then m
       else if isPlanToDelete
         then let m1 = log_call (CancelRecorder recording True) m
              in m1\<lparr>deletionStops := map_set i (recording, object_count m1) (deletionStops m1),
                    object_count := object_count m1 + 1\<rparr>
         else log_call (CancelRecorder recording False) (deleteRecording i m))"

definition deletion_terminal :: "int \<Rightarrow> nat \<times> nat \<Rightarrow> manager \<Rightarrow> manager" where
  "deletion_terminal i deletionStop m =
     (if map_of (deletionStops m) i \<noteq> Some deletionStop then m
      else deleteRecording i (releaseRecordedUsesForReservation i
             (m\<lparr>deletionStops := map_delete i (deletionStops m)\<rparr>)))"

subsection \<open>What a recorder does through its binding\<close>

definition binding_requeue :: "clock \<Rightarrow> recording_session \<Rightarrow> manager \<Rightarrow> manager" where
  "binding_requeue clk session m =
     (let requeued = fst (tryTransitionSession (se_reservationId session) (se_generation session)
            (se_sessionToken session) Cancelled Waiting (sch m));
          m1 = with_schedule (\<lambda>s. snd (tryTransitionSession (se_reservationId session) (se_generation session)
            (se_sessionToken session) Cancelled Waiting s)) m
      in if requeued then with_schedule (wake clk) m1 else m1)"

definition binding_transition :: "recording_session \<Rightarrow> recording_phase \<Rightarrow> recording_phase \<Rightarrow> manager \<Rightarrow> manager" where
  "binding_transition session expectedPhase nextPhase m =
     with_schedule (\<lambda>s. snd (tryTransitionSession (se_reservationId session) (se_generation session)
       (se_sessionToken session) expectedPhase nextPhase s)) m"

definition binding_registerEnd :: "clock \<Rightarrow> recording_session \<Rightarrow> int \<Rightarrow> manager \<Rightarrow> manager" where
  "binding_registerEnd clk session dueAt m =
     with_schedule (registerTimeSpecifiedEnd clk (se_reservationId session) (se_generation session)
       (Some (se_sessionToken session)) dueAt) m"

definition binding_removeEnd :: "clock \<Rightarrow> recording_session \<Rightarrow> manager \<Rightarrow> manager" where
  "binding_removeEnd clk session m =
     with_schedule (removeTimeSpecifiedEnd clk (se_reservationId session) (Some (se_generation session))
       (Some (se_sessionToken session))) m"

subsection \<open>Steps\<close>

text \<open>Everything that can happen to the manager; \<open>margin\<close> is \<open>timeSpecifiedEndMargin\<close>. The ids of recorded
  programmes come from their table, so they are valid.\<close>

inductive manager_step :: "clock \<Rightarrow> int \<Rightarrow> manager \<Rightarrow> manager \<Rightarrow> bool" for clk margin where
  accept: "manager_step clk margin m (manager_acceptMutation clk d m)"
| rebuild_start: "manager_step clk margin m (rebuildCandidatesAndStart m)"
| rows_read: "stage m = Reading_rows \<Longrightarrow> manager_step clk margin m (rows_are_read clk now rs m)"
| start_done: "stage m = Awaiting_start \<Longrightarrow> manager_step clk margin m (start_returns m)"
| startup_failed: "candidateStartupState m \<in> {NotStarted, Starting} \<Longrightarrow> manager_step clk margin m (failCandidateStartup m)"
| startup_removed: "manager_step clk margin m
    (m\<lparr>startupRemovedReservationIds := i # startupRemovedReservationIds m\<rparr>)"
| chain_runs: "manager_step clk margin m (run_chain clk margin m)"
| provider: "running_op m = Some (Awaiting_provider md x c) \<Longrightarrow>
    manager_step clk margin m (provider_returns timer_set md x c m)"
| provider_failed: "running_op m = Some (Awaiting_provider md x c) \<Longrightarrow>
    manager_step clk margin m (m\<lparr>running_op := None\<rparr>)"
| call_settled: "running_op m = Some Awaiting_call \<Longrightarrow> manager_step clk margin m (m\<lparr>running_op := None\<rparr>)"
| timer: "(token, d) \<in> set (timers (sch m)) \<Longrightarrow> manager_step clk margin m (with_schedule (timer_fires clk token) m)"
| microtask: "microtasks (sch m) \<noteq> [] \<Longrightarrow> manager_step clk margin m (with_schedule (microtask_runs clk) m)"
| idle: "manager_step clk margin m (with_schedule (whenIdle w) m)"
| reset: "manager_step clk margin m (resetTimer clk m)"
| failed: "manager_step clk margin m (on_recording_failed r f m)"
| flush: "manager_step clk margin m (flush_failure m)"
| found: "f \<in> set (failuresInProgress m) \<Longrightarrow> manager_step clk margin m (recordeds_found now n f m)"
| found_rejected: "f \<in> set (failuresInProgress m) \<Longrightarrow> manager_step clk margin m (recordeds_rejected f m)"
| start_preparation: "manager_step clk margin m (observePreparingRecordedUse i m)"
| start_recording: "isRecordedUseId recordedId \<Longrightarrow>
    manager_step clk margin m (observeActiveRecordedUse has_terminal i recordedId m)"
| preparation_ended: "manager_step clk margin m (on_preparation_ended i m)"
| finish_recording: "isRecordedUseId recordedId \<Longrightarrow> manager_step clk margin m (on_finish_recording i recordedId m)"
| normal_end: "manager_step clk margin m (normal_terminal i recordedId recorder use m)"
| cancel: "manager_step clk margin m (cancel i b m)"
| deletion_end: "manager_step clk margin m (deletion_terminal i st m)"
| requeue: "manager_step clk margin m (binding_requeue clk x m)"
| transition: "manager_step clk margin m (binding_transition x p q m)"
| register_end: "manager_step clk margin m (binding_registerEnd clk x dueAt m)"
| remove_end: "manager_step clk margin m (binding_removeEnd clk x m)"
| acquire_deletion: "manager_step clk margin m (m\<lparr>uses := snd (recording_tryAcquireDeletion i (uses m))\<rparr>)"
| release_deletion: "manager_step clk margin m (m\<lparr>uses := recording_releaseDeletion t (uses m)\<rparr>)"

end
