(* ===== verification/Recording_Laws.thy ===== *)
theory Recording_Laws
  imports Recording_Manage
begin

text \<open>
  The invariants of the recording manager: how the scheduler's generations go with its dispatches, that
  every step of the manager is a sequence of steps of the scheduler, and which recorders, uses and failures
  belong together. The properties are in \<open>Recording_Facts\<close>.
\<close>

subsection \<open>Generations and dispatches\<close>

definition generation_of :: "schedule \<Rightarrow> int \<Rightarrow> int option" where
  "generation_of s i = map_option cd_generation (get_candidate i (registry s))"

definition mutated :: "dispatch list \<Rightarrow> int set" where
  "mutated ds = {md_reservationId md | md. Mutation md \<in> set ds}"

lemma mutated_simps [simp]:
  "mutated [] = {}" "mutated (a @ b) = mutated a \<union> mutated b" "mutated [Mutation md] = {md_reservationId md}"
  "mutated [Preparation c g t] = {}" "mutated [Reset] = {}" "mutated [TimeEnd e] = {}"
  by (auto simp: mutated_def)

text \<open>A reservation keeps its generation unless a change of it is dispatched, or it gets a new one.\<close>

definition evolves :: "schedule \<Rightarrow> schedule \<Rightarrow> bool" where
  "evolves s s' \<longleftrightarrow> generationCounter (registry s) \<le> generationCounter (registry s') \<and>
     (\<exists>ds. launched s' = launched s @ ds \<and>
       (\<forall>i. (i \<notin> mutated ds \<and> generation_of s' i = generation_of s i) \<or> generation_of s' i = None \<or>
            (\<exists>g. generation_of s' i = Some g \<and> generationCounter (registry s) < g)))"

lemma evolves_frame:
  assumes "registry s' = registry s" "launched s' = launched s @ ds" "mutated ds = {}"
  shows "evolves s s'"
  using assms by (auto simp: evolves_def generation_of_def)

lemma evolves_refl [simp]: "evolves s s"
  by (rule evolves_frame [where ds = "[]"]) simp_all

lemma evolves_trans:
  assumes "evolves s t" "evolves t u"
  shows "evolves s u"
proof -
  obtain a b where a: "launched t = launched s @ a" "launched u = launched t @ b"
    "\<And>i. (i \<notin> mutated a \<and> generation_of t i = generation_of s i) \<or> generation_of t i = None \<or>
        (\<exists>g. generation_of t i = Some g \<and> generationCounter (registry s) < g)"
    "\<And>i. (i \<notin> mutated b \<and> generation_of u i = generation_of t i) \<or> generation_of u i = None \<or>
        (\<exists>g. generation_of u i = Some g \<and> generationCounter (registry t) < g)"
    "generationCounter (registry s) \<le> generationCounter (registry t)"
    "generationCounter (registry t) \<le> generationCounter (registry u)"
    using assms unfolding evolves_def by blast
  have "(i \<notin> mutated (a @ b) \<and> generation_of u i = generation_of s i) \<or> generation_of u i = None \<or>
      (\<exists>g. generation_of u i = Some g \<and> generationCounter (registry s) < g)" for i
    using a(3) [of i] a(4) [of i] a(5) by (auto dest: order_le_less_trans)
  moreover have "launched u = launched s @ (a @ b)" using a(1,2) by simp
  ultimately show ?thesis unfolding evolves_def using order_trans [OF a(5,6)] by blast
qed

lemma evolves_data:
  "evolves (s\<lparr>reads := k\<rparr>) s' = evolves s s'" "evolves s (s'\<lparr>reads := k\<rparr>) = evolves s s'"
  "evolves (s\<lparr>timeSpecifiedEnds := e\<rparr>) s' = evolves s s'" "evolves s (s'\<lparr>timeSpecifiedEnds := e\<rparr>) = evolves s s'"
  "evolves (s\<lparr>sessions := x\<rparr>) s' = evolves s s'" "evolves s (s'\<lparr>sessions := x\<rparr>) = evolves s s'"
  "evolves s (s'\<lparr>evaluationRunning := b\<rparr>) = evolves s s'" "evolves (s\<lparr>evaluationRunning := b\<rparr>) s' = evolves s s'"
  "evolves (s\<lparr>queuedMutations := q, resetRequested := b\<rparr>) s' = evolves s s'"
  "evolves (s\<lparr>rerunRequested := b\<rparr>) s' = evolves s s'" "evolves s (s'\<lparr>rerunRequested := b\<rparr>) = evolves s s'"
  by (simp_all add: evolves_def generation_of_def)

lemma evolves_now: "evolves s (snd (now_of clk s))"
  by (rule evolves_frame [where ds = "[]"]) (simp_all add: now_of_def)

lemma evolves_ensure: "evolves s (snd (ensureSession c s))"
  by (rule evolves_frame [where ds = "[]"])
    (simp_all add: ensureSession_def create_session_def issueSessionToken_def Let_def split: option.split)

lemma evolves_snapshot: "evolves s (snd (getSessionSnapshot i s))"
  using evolves_ensure by (simp add: getSessionSnapshot_def case_prod_beta split: option.split)

lemma evolves_launch: "mutated [d] = {} \<Longrightarrow> evolves s (launch d s)"
  by (rule evolves_frame [where ds = "[d]"]) (simp_all add: launch_def)

lemma evolves_launched: "evolves s t \<Longrightarrow> mutated [d] = {} \<Longrightarrow> evolves s (launch d t)"
  using evolves_trans evolves_launch by blast

lemma transition_generation: "(b, g') = tryTransitionPhase i n p q g \<Longrightarrow>
    map_option cd_generation (get_candidate j g') = map_option cd_generation (get_candidate j g) \<and>
    generationCounter g' = generationCounter g"
  by (auto simp: tryTransitionPhase_def get_candidate_def split: option.splits if_splits)

lemma evolves_transition: "evolves s (snd (tryTransitionSession i g t p q s))"
proof (cases "get_candidate i (registry s)")
  case (Some c)
  obtain x s1 where e: "ensureSession c s = (x, s1)" by (cases "ensureSession c s")
  have 1: "evolves s s1" using evolves_ensure [of s c] e by simp
  obtain b g' where t: "(b, g') = tryTransitionPhase i g p q (registry s1)"
    by (metis surj_pair)
  have "evolves s1 (s1\<lparr>registry := g', sessions := ss, timeSpecifiedEnds := es\<rparr>)" for ss es
    using transition_generation [OF t] by (auto simp: evolves_def generation_of_def)
  then have "evolves s1 (s1\<lparr>registry := g', sessions := ss\<rparr>)" for ss
    by (metis evolves_data(4) schedule.surjective schedule.update_convs(2))
  then show ?thesis using 1 Some e t [symmetric]
    by (auto simp: tryTransitionSession_def Let_def evolves_data intro: evolves_trans)
qed (simp add: tryTransitionSession_def)

lemma upsert_generation:
  assumes "(c, g') = upsert r p g"
  shows "map_option cd_generation (get_candidate i g') =
      (if i = reservation_id r then (if isSkip r \<or> isOverlap r then None else Some (generationCounter g + 1))
       else map_option cd_generation (get_candidate i g))" "generationCounter g' = generationCounter g + 1"
  using assms by (auto simp: upsert_def issueGeneration_def get_candidate_def candidate_of_def Let_def split: if_splits)

lemma evolves_upsert: "evolves s (applyUpsert u b r s)"
proof -
  let ?i = "reservation_id r"
  obtain x s1 where e: "getSessionSnapshot ?i s = (x, s1)" by (cases "getSessionSnapshot ?i s")
  have 1: "evolves s s1" using evolves_snapshot [of s ?i] e by simp
  obtain c g' where up: "(c, g') = upsert r (case x of Some y \<Rightarrow> if u then se_phase y else Waiting | None \<Rightarrow> Waiting) (registry s1)"
    by (metis surj_pair)
  note g = upsert_generation [OF up]
  let ?s' = "applyUpsert u b r s"
  have reg: "registry ?s' = g'"
    by (auto simp: applyUpsert_def e up [symmetric] Let_def issueSessionToken_def launch_def split: option.splits)
  have c: "c = None \<longleftrightarrow> isSkip r \<or> isOverlap r"
    using up by (simp add: upsert_def issueGeneration_def Let_def split: if_splits)
  have "\<exists>ds. launched ?s' = launched s1 @ ds \<and> mutated ds \<subseteq> {?i}"
    using up by (auto simp: applyUpsert_def e up [symmetric] Let_def issueSessionToken_def launch_def mutated_def
        upsert_def issueGeneration_def candidate_of_def split: option.splits if_splits)
  then obtain ds where ds: "launched ?s' = launched s1 @ ds" "mutated ds \<subseteq> {?i}" by blast
  have "(i \<notin> mutated ds \<and> generation_of ?s' i = generation_of s1 i) \<or> generation_of ?s' i = None \<or>
      (\<exists>g. generation_of ?s' i = Some g \<and> generationCounter (registry s1) < g)" for i
    using g(1) [of i] ds(2) by (auto simp: generation_of_def reg)
  then have "evolves s1 ?s'" unfolding evolves_def using ds(1) g(2) by (auto simp: reg)
  with 1 show ?thesis by (rule evolves_trans)
qed

lemma evolves_remove: "evolves s (applyRemove b r s)"
proof -
  let ?i = "reservation_id r"
  obtain x s1 where e: "getSessionSnapshot ?i s = (x, s1)" by (cases "getSessionSnapshot ?i s")
  have 1: "evolves s s1" using evolves_snapshot [of s ?i] e by simp
  let ?s' = "applyRemove b r s"
  have reg: "registry ?s' = snd (remove_candidate ?i (registry s1))"
    by (simp add: applyRemove_def e case_prod_beta launch_def)
  have "\<exists>ds. launched ?s' = launched s1 @ ds \<and> mutated ds = {?i}"
    by (auto simp: applyRemove_def e case_prod_beta launch_def mutated_def)
  then obtain ds where ds: "launched ?s' = launched s1 @ ds" "mutated ds = {?i}" by blast
  have "(i \<notin> mutated ds \<and> generation_of ?s' i = generation_of s1 i) \<or> generation_of ?s' i = None" for i
    using ds(2) by (auto simp: generation_of_def reg remove_candidate_def issueGeneration_def get_candidate_def Let_def)
  moreover have "generationCounter (registry s1) \<le> generationCounter (registry ?s')"
    by (simp add: reg remove_candidate_def issueGeneration_def Let_def)
  ultimately have "evolves s1 ?s'" unfolding evolves_def using ds(1) by blast
  with 1 show ?thesis by (rule evolves_trans)
qed

lemma evolves_fold: "(\<And>x s. evolves s (f x s)) \<Longrightarrow> evolves s (fold f xs s)"
proof (induction xs arbitrary: s)
  case (Cons x xs)
  have "evolves s (f x s)" "evolves (f x s) (fold f xs (f x s))" using Cons by auto
  then show ?case using evolves_trans by simp
qed simp

lemma evolves_queue: "evolves s (applyQueuedWork s)"
proof -
  have m: "evolves s (apply_mutation m s)" for m s
    unfolding apply_mutation_def
    by (rule evolves_trans [OF evolves_trans [OF evolves_fold [OF evolves_upsert] evolves_fold [OF evolves_upsert]]
          evolves_fold [OF evolves_remove]])
  have "evolves (s\<lparr>queuedMutations := [], resetRequested := False\<rparr>)
      (fold apply_mutation (queuedMutations s) (s\<lparr>queuedMutations := [], resetRequested := False\<rparr>))"
    by (rule evolves_fold) (rule m)
  then have "evolves s (fold apply_mutation (queuedMutations s) (s\<lparr>queuedMutations := [], resetRequested := False\<rparr>))"
    by (simp add: evolves_data)
  then show ?thesis by (simp add: applyQueuedWork_def Let_def evolves_launched)
qed

lemma evolves_prepare_one: "evolves s (prepare_one clk c s)"
proof -
  obtain n s1 where n: "now_of clk s = (n, s1)" by (cases "now_of clk s")
  obtain x s2 where x: "ensureSession c s1 = (x, s2)" by (cases "ensureSession c s1")
  have 1: "evolves s s1" "evolves s s2"
    using evolves_now [of s clk] evolves_ensure [of s1 c] n x evolves_trans by fastforce+
  have t: "evolves s2 (snd (tryTransitionSession i g t p q s2))" for i g t p q by (rule evolves_transition)
  have t': "evolves s (snd (tryTransitionSession i g t p q s2))" for i g t p q by (rule evolves_trans [OF 1(2) t])
  show ?thesis using 1 t'
    by (auto simp: prepare_one_def n x case_prod_beta Let_def intro: evolves_launched)
qed

lemma evolves_prepare_all: "evolves s (prepare_all clk cs s)"
proof (induction clk cs s rule: prepare_all.induct)
  case (2 clk c cs s)
  then show ?case using evolves_prepare_one [of s clk c] evolves_trans by auto
qed simp

lemma evolves_end_one: "evolves s (end_one clk m s)"
proof (cases "get_candidate (te_reservationId m) (registry s)")
  case (Some c)
  obtain x s1 where x: "ensureSession c s = (x, s1)" by (cases "ensureSession c s")
  obtain n s2 where n: "now_of clk s1 = (n, s2)" by (cases "now_of clk s1")
  have 1: "evolves s s1" "evolves s s2"
    using evolves_now [of s1 clk] evolves_ensure [of s c] n x evolves_trans by fastforce+
  have t: "evolves s2 (snd (tryTransitionSession i g t p q s2))" for i g t p q by (rule evolves_transition)
  have t': "evolves s (snd (tryTransitionSession i g t p q s2))" for i g t p q by (rule evolves_trans [OF 1(2) t])
  show ?thesis using 1 t' Some
    by (auto simp: end_one_def n x case_prod_beta Let_def evolves_data intro!: evolves_launched)
qed (simp add: end_one_def)

lemma evolves_end_all: "evolves s (end_all clk ms s)"
proof (induction clk ms s rule: end_all.induct)
  case (2 clk m ms s)
  then show ?case using evolves_end_one [of s clk m] evolves_trans by auto
qed simp

lemma evolves_round: "evolves s (evaluate_round clk s)"
proof -
  let ?s1 = "applyQueuedWork (s\<lparr>rerunRequested := False\<rparr>)"
  have 1: "evolves s ?s1"
    using evolves_queue [of "s\<lparr>rerunRequested := False\<rparr>"] by (simp add: evolves_data)
  have 2: "evolves s (dispatchDuePreparations clk ?s1)"
    unfolding dispatchDuePreparations_def by (rule evolves_trans [OF 1 evolves_prepare_all])
  have 3: "evolves s (dispatchDueTimeSpecifiedEnds clk (dispatchDuePreparations clk ?s1))"
    unfolding dispatchDueTimeSpecifiedEnds_def by (rule evolves_trans [OF 2 evolves_end_all])
  from 1 2 3 show ?thesis by (simp add: evaluate_round_def Let_def evolves_data)
qed

lemma evolves_same: "same_data s t \<Longrightarrow> evolves s t"
  by (rule evolves_frame [where ds = "[]"]) (simp_all add: same_data_def)

lemma evolves_milestones: "evolves s (snd (milestone_deadlines ms s))"
proof (induction ms s rule: milestone_deadlines.induct)
  case (2 i m ms s)
  then show ?case by (auto simp: case_prod_beta evolves_data split: option.split)
qed simp

lemma evolves_evaluate: "evolves s (evaluate clk s)"
proof -
  have 1: "evolves s (evaluated clk s)"
    using evolves_round [of "s\<lparr>evaluationRunning := True\<rparr>" clk] by (simp add: evaluated_def evolves_data)
  have "evolves t (deadlines_state clk t)" for t
    using evolves_milestones [of "t\<lparr>reads := Suc (reads t)\<rparr>"]
    by (simp add: deadlines_state_def schedulerOwnedDeadlines_def now_of_def case_prod_beta evolves_data)
  moreover have "same_data (deadlines_state clk t) (armSingleWake clk t)" for t
    using same_microtask [of "deadlines_state clk t"] by (simp add: armSingleWake_eq Let_def same_data_def)
  ultimately have 2: "evolves t (armSingleWake clk t)" for t using evolves_trans evolves_same by blast
  show ?thesis unfolding evaluate_evaluated
    by (rule evolves_trans [OF _ evolves_same [OF same_resolve]]) (use 1 evolves_trans [OF 1 2] in simp)
qed

lemma evolves_wake: "evolves s (wake clk s)"
  using evolves_trans [OF evolves_same [OF same_invalidate] evolves_evaluate]
  by (auto simp: wake_def evolves_data)

lemma rebuild_generation:
  "generationCounter g < generationCounter (rebuild rs g)"
  "map_option cd_generation (get_candidate i (rebuild rs g)) = Some n \<Longrightarrow> generationCounter g < n"
proof -
  define f where "f = (\<lambda>r h. snd (upsert r Waiting h))"
  have step: "generationCounter (f r h) = generationCounter h + 1"
    "map_option cd_generation (get_candidate i (f r h)) =
      (if i = reservation_id r then (if isSkip r \<or> isOverlap r then None else Some (generationCounter h + 1))
       else map_option cd_generation (get_candidate i h))" for r h i
    using upsert_generation [of "fst (upsert r Waiting h)" "f r h" r Waiting h] by (simp_all add: f_def)
  define P where "P n h \<longleftrightarrow> n \<le> generationCounter h \<and>
      (\<forall>i k. map_option cd_generation (get_candidate i h) = Some k \<longrightarrow> n \<le> k)" for n and h :: candidate_registry
  have one: "P n (f r h)" if "P n h" for n r h
    using that unfolding P_def step by (auto split: if_splits)
  have all: "P n (fold f rs h)" if "P n h" for n h
    using that by (induction rs arbitrary: h) (simp_all add: one)
  let ?h = "(snd (issueGeneration g))\<lparr>generations := fold (\<lambda>i m. map_set i (generationCounter g + 1) m) (map fst (candidates g)) (generations g),
      candidates := []\<rparr>"
  have r: "rebuild rs g = fold f rs ?h"
    by (simp add: rebuild_def f_def issueGeneration_def Let_def)
  have "P (generationCounter g + 1) ?h" by (simp add: P_def issueGeneration_def get_candidate_def Let_def)
  from all [OF this] have "P (generationCounter g + 1) (rebuild rs g)" unfolding r .
  then have p: "generationCounter g + 1 \<le> generationCounter (rebuild rs g)"
    "\<And>i k. map_option cd_generation (get_candidate i (rebuild rs g)) = Some k \<Longrightarrow> generationCounter g + 1 \<le> k"
    unfolding P_def by blast+
  show "generationCounter g < generationCounter (rebuild rs g)" using p(1) by simp
  show "generationCounter g < n" if "map_option cd_generation (get_candidate i (rebuild rs g)) = Some n"
    using p(2) [OF that] by simp
qed

lemma evolves_rebuild: "evolves s (s\<lparr>registry := rebuild rs (registry s)\<rparr>)"
proof -
  let ?s' = "s\<lparr>registry := rebuild rs (registry s)\<rparr>"
  have "generation_of ?s' i = None \<or> (\<exists>n. generation_of ?s' i = Some n \<and> generationCounter (registry s) < n)" for i
    using rebuild_generation(2) [of i rs "registry s"] by (cases "get_candidate i (rebuild rs (registry s))") (simp_all add: generation_of_def)
  then show ?thesis unfolding evolves_def using rebuild_generation(1) [of "registry s" rs]
    by (auto intro!: exI [of _ "[]"])
qed

lemma evolves_remove_candidate: "evolves s (s\<lparr>registry := snd (remove_candidate i (registry s))\<rparr>)"
  unfolding evolves_def generation_of_def
  by (auto simp: remove_candidate_def issueGeneration_def get_candidate_def Let_def)

lemma evolves_register: "evolves s (registerTimeSpecifiedEnd clk i g t d s)"
proof (cases "get_candidate i (registry s)")
  case (Some c)
  obtain x s1 where x: "ensureSession c s = (x, s1)" by (cases "ensureSession c s")
  have 1: "evolves s s1" using evolves_ensure [of s c] x by simp
  have "evolves s (wake clk (s1\<lparr>timeSpecifiedEnds := es\<rparr>))" for es
    by (rule evolves_trans [OF _ evolves_wake]) (simp add: evolves_data 1)
  then show ?thesis using 1 Some x by (auto simp: registerTimeSpecifiedEnd_def Let_def)
qed (simp add: registerTimeSpecifiedEnd_def)

lemma evolves_step: "schedule_step clk w s s' \<Longrightarrow> evolves s s'"
proof (induction rule: schedule_step.induct)
  case (start s)
  have "evolves s (s\<lparr>started := True\<rparr>)" by (rule evolves_same) (simp add: same_data_def)
  then show ?case using evolves_trans [OF _ evolves_wake] by (simp add: start_def)
next
  case (stop s)
  have "evolves s (s\<lparr>started := False, rerunRequested := False, resetRequested := False, queuedMutations := [],
      timeSpecifiedEnds := [], sessions := []\<rparr>)" by (rule evolves_frame [where ds = "[]"]) simp_all
  then show ?case unfolding stop_def
    by (rule evolves_trans [OF evolves_trans [OF _ evolves_same [OF same_invalidate]] evolves_same [OF same_resolve]])
next
  case (accept s m)
  have "evolves s (s\<lparr>reported := n\<rparr>)" "evolves s (s\<lparr>queuedMutations := q\<rparr>)" for n q
    by (rule evolves_same, simp add: same_data_def)+
  then show ?case using evolves_trans [OF _ evolves_same [OF same_coalesce]]
    by (auto simp: acceptMutation_def split: sum.split)
next
  case (reset s)
  have "evolves s (s\<lparr>resetRequested := True\<rparr>)" by (rule evolves_same) (simp add: same_data_def)
  then show ?case unfolding requestReset_def by (rule evolves_trans [OF _ evolves_same [OF same_coalesce]])
next
  case (idle s w)
  show ?case by (rule evolves_same) (simp add: whenIdle_def same_data_def)
next
  case (wake s)
  show ?case by (rule evolves_wake)
next
  case (snapshot s i)
  show ?case by (rule evolves_snapshot)
next
  case (transition q s i g t p)
  show ?case by (rule evolves_transition)
next
  case (register s i g t d)
  show ?case by (rule evolves_register)
next
  case (unregister s i eg et)
  have "evolves s (wake clk (s\<lparr>timeSpecifiedEnds := es\<rparr>))" for es
    by (rule evolves_trans [OF _ evolves_wake]) (simp add: evolves_data)
  then show ?case by (simp add: removeTimeSpecifiedEnd_def split: option.split)
next
  case (timer token d s)
  have "evolves s (s\<lparr>timers := ts\<rparr>)" "evolves s (evaluate clk (s\<lparr>timers := ts, armedWake := None\<rparr>))" for ts
    by (rule evolves_same, simp add: same_data_def,
        rule evolves_trans [OF evolves_same evolves_evaluate], simp add: same_data_def)
  then show ?case by (simp add: timer_fires_def Let_def)
next
  case (microtask s)
  have "evolves s (s\<lparr>microtasks := ts\<rparr>)" "evolves s (evaluate clk (s\<lparr>microtasks := ts, microtaskScheduled := False\<rparr>))" for ts
    by (rule evolves_same, simp add: same_data_def,
        rule evolves_trans [OF evolves_same evolves_evaluate], simp add: same_data_def)
  then show ?case by (simp add: microtask_runs_def Let_def split: list.split)
next
  case (rebuild s rs)
  show ?case by (rule evolves_rebuild)
next
  case (remove s i)
  show ?case by (rule evolves_remove_candidate)
qed

lemma evolves_steps: "(schedule_step clk w)\<^sup>*\<^sup>* s s' \<Longrightarrow> evolves s s'"
  by (induction rule: rtranclp_induct) (auto intro: evolves_trans evolves_step)

subsection \<open>The dispatches reach the chain\<close>

fun chain_entries :: "dispatch list \<Rightarrow> chain_entry list" where
  "chain_entries [] = []"
| "chain_entries (Mutation md # ds) = Session_operation md # chain_entries ds"
| "chain_entries (Preparation c g t # ds) = After_preparation c g t # chain_entries ds"
| "chain_entries (Reset # ds) = chain_entries ds"
| "chain_entries (TimeEnd e # ds) = After_time_end e # chain_entries ds"

lemma fold_enqueue: "fold enqueue ds m = m\<lparr>recordingFailureClaims := filter (\<lambda>i. i \<notin> mutated ds) (recordingFailureClaims m),
    chain := chain m @ chain_entries ds\<rparr>"
proof (induction ds arbitrary: m rule: chain_entries.induct)
  case (2 md ds)
  have "mutated (Mutation md # ds) = insert (md_reservationId md) (mutated ds)" by (auto simp: mutated_def)
  then show ?case by (simp add: 2 removeAll_filter_not_eq conj_commute eq_commute)
next
  case (3 c g t ds)
  then show ?case by (simp add: mutated_def)
next
  case (4 ds)
  then show ?case by (simp add: mutated_def)
next
  case (5 e ds)
  then show ?case by (simp add: mutated_def)
qed simp

lemma with_schedule_eq: "with_schedule f m = m\<lparr>sch := f (sch m), taken := length (launched (f (sch m))),
    recordingFailureClaims := filter (\<lambda>i. i \<notin> mutated (drop (taken m) (launched (f (sch m))))) (recordingFailureClaims m),
    chain := chain m @ chain_entries (drop (taken m) (launched (f (sch m))))\<rparr>"
  by (simp add: with_schedule_def Let_def fold_enqueue)

lemma with_schedule_rest [simp]:
  "sch (with_schedule f m) = f (sch m)" "uses (with_schedule f m) = uses m"
  "recordingIndex (with_schedule f m) = recordingIndex m"
  "recordingSessionTokens (with_schedule f m) = recordingSessionTokens m"
  "activeRecordedUseSessions (with_schedule f m) = activeRecordedUseSessions m"
  "normalRecordedUseTerminals (with_schedule f m) = normalRecordedUseTerminals m"
  "unknownRecordedUseSessions (with_schedule f m) = unknownRecordedUseSessions m"
  "deletionStops (with_schedule f m) = deletionStops m" "running_op (with_schedule f m) = running_op m"
  "scheduleStarted (with_schedule f m) = scheduleStarted m"
  "candidateStartupState (with_schedule f m) = candidateStartupState m" "stage (with_schedule f m) = stage m"
  "pendingStartupMutations (with_schedule f m) = pendingStartupMutations m"
  "pendingStartupRecordingFailures (with_schedule f m) = pendingStartupRecordingFailures m"
  "startupRemovedReservationIds (with_schedule f m) = startupRemovedReservationIds m"
  "failuresToFlush (with_schedule f m) = failuresToFlush m"
  "failuresInProgress (with_schedule f m) = failuresInProgress m" "object_count (with_schedule f m) = object_count m"
  "calls (with_schedule f m) = calls m" "retryOver (with_schedule f m) = retryOver m"
  by (simp_all add: with_schedule_eq)

lemma log_call_rest [simp]:
  "sch (log_call c m) = sch m" "taken (log_call c m) = taken m" "uses (log_call c m) = uses m"
  "recordingIndex (log_call c m) = recordingIndex m"
  "recordingSessionTokens (log_call c m) = recordingSessionTokens m"
  "recordingFailureClaims (log_call c m) = recordingFailureClaims m"
  "activeRecordedUseSessions (log_call c m) = activeRecordedUseSessions m"
  "normalRecordedUseTerminals (log_call c m) = normalRecordedUseTerminals m"
  "unknownRecordedUseSessions (log_call c m) = unknownRecordedUseSessions m"
  "deletionStops (log_call c m) = deletionStops m" "chain (log_call c m) = chain m"
  "running_op (log_call c m) = running_op m" "scheduleStarted (log_call c m) = scheduleStarted m"
  "candidateStartupState (log_call c m) = candidateStartupState m" "stage (log_call c m) = stage m"
  "pendingStartupMutations (log_call c m) = pendingStartupMutations m"
  "failuresToFlush (log_call c m) = failuresToFlush m"
  "failuresInProgress (log_call c m) = failuresInProgress m" "object_count (log_call c m) = object_count m"
  "calls (log_call c m) = calls m @ [c]" "retryOver (log_call c m) = retryOver m"
  by (simp_all add: log_call_def)

text \<open>What \<open>bindRecorder\<close> does: at most a call of \<open>bindScheduleSession\<close>.\<close>

lemma bindRecorder_cases: "bindRecorder r x m = m \<or> (\<exists>row. bindRecorder r x m = log_call (BindSession r x row) m)"
  by (simp add: bindRecorder_def split: option.split) blast

subsection \<open>The schedule of a manager\<close>

text \<open>Between the steps every dispatch has been taken.\<close>

definition tidy :: "manager \<Rightarrow> bool" where
  "tidy m \<longleftrightarrow> taken m = length (launched (sch m))"

definition renewed :: "manager \<Rightarrow> manager \<Rightarrow> int \<Rightarrow> bool" where
  "renewed m m' i \<longleftrightarrow> generation_of (sch m') i = None \<or>
     (\<exists>g. generation_of (sch m') i = Some g \<and> generationCounter (registry (sch m)) < g)"

text \<open>\<open>keeps\<close>: the manager takes steps of its scheduler, and a claim on a failure only goes with the generation it
  was made for.\<close>

definition keeps :: "clock \<Rightarrow> manager \<Rightarrow> manager \<Rightarrow> bool" where
  "keeps clk m m' \<longleftrightarrow> (schedule_step clk True)\<^sup>*\<^sup>* (sch m) (sch m') \<and> (tidy m \<longrightarrow> tidy m' \<and>
     (\<forall>i \<in> set (recordingFailureClaims m). i \<in> set (recordingFailureClaims m') \<or> renewed m m' i))"

lemma keeps_same:
  "sch m' = sch m \<Longrightarrow> taken m' = taken m \<Longrightarrow> set (recordingFailureClaims m) \<subseteq> set (recordingFailureClaims m') \<Longrightarrow> keeps clk m m'"
  by (auto simp: keeps_def tidy_def)

lemma keeps_refl [simp]: "keeps clk m m"
  by (rule keeps_same) simp_all

lemma keeps_trans [trans]:
  assumes "keeps clk a b" "keeps clk b c"
  shows "keeps clk a c"
proof -
  have st: "(schedule_step clk True)\<^sup>*\<^sup>* (sch a) (sch b)" "(schedule_step clk True)\<^sup>*\<^sup>* (sch b) (sch c)"
    using assms by (simp_all add: keeps_def)
  have le: "generationCounter (registry (sch a)) \<le> generationCounter (registry (sch b))"
    using evolves_steps [OF st(1)] by (simp add: evolves_def)
  have renew: "renewed a c i" if "renewed a b i" for i
    using evolves_steps [OF st(2)] le that unfolding evolves_def renewed_def by (metis order_le_less_trans)
  have later: "renewed a c i" if "renewed b c i" for i
    using le that unfolding renewed_def by auto
  have "tidy a \<longrightarrow> tidy c \<and> (\<forall>i \<in> set (recordingFailureClaims a). i \<in> set (recordingFailureClaims c) \<or> renewed a c i)"
    using assms renew later unfolding keeps_def by blast
  then show ?thesis using rtranclp_trans [OF st] by (simp add: keeps_def)
qed

lemma keeps_with:
  assumes "schedule_step clk True (sch m) (f (sch m))"
  shows "keeps clk m (with_schedule f m)"
proof -
  have "i \<in> set (recordingFailureClaims (with_schedule f m)) \<or> renewed m (with_schedule f m) i"
    if i: "i \<in> set (recordingFailureClaims m)" and t: "tidy m" for i
  proof -
    obtain ds where ds: "launched (f (sch m)) = launched (sch m) @ ds"
      "(i \<notin> mutated ds \<and> generation_of (f (sch m)) i = generation_of (sch m) i) \<or> generation_of (f (sch m)) i = None \<or>
            (\<exists>g. generation_of (f (sch m)) i = Some g \<and> generationCounter (registry (sch m)) < g)"
      using evolves_step [OF assms] unfolding evolves_def by blast
    have "drop (taken m) (launched (f (sch m))) = ds" using ds(1) t by (simp add: tidy_def)
    then show ?thesis using ds(2) i by (auto simp: with_schedule_eq renewed_def)
  qed
  then show ?thesis using assms by (auto simp: keeps_def tidy_def with_schedule_eq)
qed

lemma keeps_fold: "(\<And>x m. keeps clk m (f x m)) \<Longrightarrow> keeps clk m (fold f xs m)"
proof (induction xs arbitrary: m)
  case (Cons x xs)
  have "keeps clk m (f x m)" "keeps clk (f x m) (fold f xs (f x m))" using Cons by auto
  then show ?case using keeps_trans by simp
qed simp

named_theorems keeps_intros \<open>operations of the manager that take steps of its scheduler\<close>

lemma keeps_log [keeps_intros]: "keeps clk m (log_call c m)"
  by (rule keeps_same) simp_all

lemma keeps_bind [keeps_intros]: "keeps clk m (bindRecorder r x m)"
  using bindRecorder_cases [of r x m] keeps_log by fastforce

lemma keeps_snapshot [keeps_intros]: "keeps clk m (snd (snapshot i m))"
  unfolding snapshot_def snd_conv by (rule keeps_with) (rule schedule_step.snapshot)

lemma keeps_deleteRecording [keeps_intros]: "keeps clk m (deleteRecording i m)"
  by (rule keeps_same) (simp_all add: deleteRecording_def)

lemma keeps_with_accept [keeps_intros]: "keeps clk m (with_schedule (acceptMutation d) m)"
  by (rule keeps_with) (rule schedule_step.accept)

lemma keeps_with_start [keeps_intros]: "keeps clk m (with_schedule (start clk) m)"
  by (rule keeps_with) (rule schedule_step.start)

lemma keeps_with_transition [keeps_intros]: "keeps clk m (with_schedule (\<lambda>s. snd (tryTransitionSession i g t p q s)) m)"
  by (rule keeps_with) (rule schedule_step.transition, simp)

lemma keeps_with_register [keeps_intros]: "keeps clk m (with_schedule (registerTimeSpecifiedEnd clk i g t d) m)"
  by (rule keeps_with) (rule schedule_step.register)

lemma keeps_dispatchPreparation: "keeps clk m (dispatchPreparation c g t m)"
proof -
  obtain x m1 where x: "snapshot (cd_reservationId c) m = (x, m1)" by (cases "snapshot (cd_reservationId c) m")
  have 1: "keeps clk m m1" using keeps_snapshot [of clk m "cd_reservationId c"] x by simp
  have "keeps clk m1 (log_call e (bindRecorder r y m1))" for e r y
    by (rule keeps_trans [OF keeps_bind keeps_log])
  then show ?thesis using 1 keeps_trans [OF 1]
    by (auto simp: dispatchPreparation_def x Let_def split: option.split)
qed

lemma keeps_dispatchTimeSpecifiedEnd: "keeps clk m (dispatchTimeSpecifiedEnd e m)"
proof -
  obtain x m1 where x: "snapshot (te_reservationId e) m = (x, m1)" by (cases "snapshot (te_reservationId e) m")
  have 1: "keeps clk m m1" using keeps_snapshot [of clk m "te_reservationId e"] x by simp
  have "keeps clk m1 (log_call e (bindRecorder r y m1))" for e r y
    by (rule keeps_trans [OF keeps_bind keeps_log])
  then show ?thesis using 1 keeps_trans [OF 1]
    by (auto simp: dispatchTimeSpecifiedEnd_def x Let_def split: option.split)
qed

lemma keeps_update [simp]:
  "keeps clk m (m'\<lparr>running_op := b\<rparr>) = keeps clk m m'" "keeps clk (m\<lparr>chain := es\<rparr>) m' = keeps clk m m'"
  "keeps clk (m\<lparr>object_count := n, running_op := b\<rparr>) m' = keeps clk m m'"
  "keeps clk m (m'\<lparr>recordingIndex := x, recordingSessionTokens := y\<rparr>) = keeps clk m m'"
  "keeps clk m (m'\<lparr>stage := g\<rparr>) = keeps clk m m'" "keeps clk (m\<lparr>pendingStartupMutations := ps\<rparr>) m' = keeps clk m m'"
  "keeps clk (m\<lparr>scheduleStarted := b1\<rparr>) m' = keeps clk m m'" "keeps clk (m\<lparr>failuresInProgress := fs\<rparr>) m' = keeps clk m m'"
  "keeps clk m (m'\<lparr>failuresInProgress := fs\<rparr>) = keeps clk m m'" "keeps clk m (m'\<lparr>retryOver := rs\<rparr>) = keeps clk m m'"
  "keeps clk (m\<lparr>failuresToFlush := ff\<rparr>) m' = keeps clk m m'"
  by (simp_all add: keeps_def tidy_def renewed_def)

lemma keeps_applyScheduleRemoval: "keeps clk m (applyScheduleRemoval md m)"
proof -
  have "keeps clk m (log_call e (deleteRecording i m))" for e i
    by (rule keeps_trans [OF keeps_deleteRecording keeps_log])
  then show ?thesis by (auto simp: applyScheduleRemoval_def Let_def split: option.split)
qed

lemma keeps_applyScheduleMutation: "keeps clk m (applyScheduleMutation clk margin md m)"
proof -
  let ?i = "md_reservationId md"
  obtain x m1 where x: "snapshot ?i m = (x, m1)" by (cases "snapshot ?i m")
  have 1: "keeps clk m m1" using keeps_snapshot [of clk m ?i] x by simp
  have b: "keeps clk m (bindRecorder r y m1)" for r y by (rule keeps_trans [OF 1 keeps_bind])
  have e: "keeps clk m (with_schedule (registerTimeSpecifiedEnd clk i g t d) (bindRecorder r y m1))" for i g t d r y
    by (rule keeps_trans [OF b keeps_with_register])
  have "keeps clk m (log_call e (bindRecorder r y m1))"
    "keeps clk m (log_call e (with_schedule (registerTimeSpecifiedEnd clk i g t d) (bindRecorder r y m1)))" for e i g t d r y
    by (rule keeps_trans [OF b keeps_log], rule keeps_trans [OF e keeps_log])
  then show ?thesis using 1 keeps_applyScheduleRemoval
    by (auto simp: applyScheduleMutation_def x Let_def split: option.split)
qed

lemma keeps_run_chain: "keeps clk m (run_chain clk margin m)"
proof (cases "chain m")
  case (Cons e es)
  have "keeps clk (m\<lparr>chain := es\<rparr>) (run_entry clk margin e (m\<lparr>chain := es\<rparr>))"
    by (cases e) (simp_all add: keeps_applyScheduleMutation keeps_dispatchPreparation keeps_dispatchTimeSpecifiedEnd del: keeps_update)
  then show ?thesis using Cons by (simp add: run_chain_def)
qed (simp add: run_chain_def)

lemma keeps_provider: "keeps clk m (provider_returns b md y c m)"
proof -
  let ?m0 = "m\<lparr>object_count := Suc (object_count m), running_op := None\<rparr>"
  obtain x m1 where x: "snapshot (md_reservationId md) ?m0 = (x, m1)" by (cases "snapshot (md_reservationId md) ?m0")
  have 1: "keeps clk m m1" using keeps_snapshot [of clk ?m0 "md_reservationId md"] x by simp
  have 2: "keeps clk m (log_call e (bindRecorder r y m1))" for e r y
    by (rule keeps_trans [OF keeps_trans [OF 1 keeps_bind] keeps_log])
  have "keeps clk m (with_schedule (\<lambda>s. snd (tryTransitionSession i g t p q s)) (log_call e (bindRecorder r y m1)))" for i g t p q e r y
    by (rule keeps_trans [OF 2 keeps_with_transition])
  then show ?thesis using 1 2 by (auto simp: provider_returns_def x Let_def split: option.split)
qed

lemma keeps_flush [keeps_intros]: "keeps clk m (flushPendingStartupMutations m)"
proof -
  have "keeps clk (m\<lparr>pendingStartupMutations := []\<rparr>) (flushPendingStartupMutations m)"
    unfolding flushPendingStartupMutations_def by (rule keeps_fold) (rule keeps_with_accept)
  then show ?thesis by simp
qed

lemma keeps_rows_read: "keeps clk m (rows_are_read clk now rs m)"
proof -
  have r: "keeps clk m (with_schedule (\<lambda>s. s\<lparr>registry := rebuild cs (registry s)\<rparr>) m)" for cs m
    by (rule keeps_with) (rule schedule_step.rebuild)
  show ?thesis
    by (simp add: rows_are_read_def Let_def
        keeps_trans [OF keeps_trans [OF keeps_trans [OF r keeps_with_accept] keeps_flush] keeps_with_start])
qed

lemma keeps_start_returns: "keeps clk m (start_returns m)"
proof -
  let ?m1 = "flushPendingStartupMutations (m\<lparr>scheduleStarted := True\<rparr>)"
  have "keeps clk (m\<lparr>scheduleStarted := True\<rparr>) ?m1" by (rule keeps_flush)
  then have "keeps clk m ?m1" by simp
  then show ?thesis by (rule keeps_trans) (rule keeps_same, simp_all add: start_returns_def Let_def)
qed

lemma keeps_forget: "keeps clk m (forget_reservation i m)"
proof -
  let ?m0 = "m\<lparr>recordingIndex := map_delete i (recordingIndex m), recordingSessionTokens := map_delete i (recordingSessionTokens m),
          recordingFailureClaims := removeAll i (recordingFailureClaims m)\<rparr>"
  have "schedule_step clk True (sch ?m0) (sch ?m0\<lparr>registry := snd (remove_candidate i (registry (sch ?m0)))\<rparr>)"
    by (rule schedule_step.remove)
  then have k: "keeps clk ?m0 (forget_reservation i m)"
    unfolding forget_reservation_def by (rule keeps_with)
  have "renewed m (forget_reservation i m) i"
    by (simp add: renewed_def generation_of_def forget_reservation_def remove_candidate_def issueGeneration_def get_candidate_def Let_def)
  then show ?thesis using k by (auto simp: keeps_def tidy_def renewed_def)
qed

lemma keeps_failStartup: "keeps clk m (failCandidateStartup m)"
proof -
  have s: "keeps clk m (with_schedule stop m)" for m by (rule keeps_with) (rule schedule_step.stop)
  have l: "keeps clk m (fold (\<lambda>r. log_call (CancelRecorder r False)) rs m)" for rs m
    by (rule keeps_fold) (rule keeps_log)
  have f: "keeps clk m (fold forget_reservation is m)" for m "is" by (rule keeps_fold) (rule keeps_forget)
  let ?m1 = "m\<lparr>candidateStartupState := Failed, scheduleStarted := False, pendingStartupMutations := [],
                 pendingStartupRecordingFailures := [], stage := Not_running\<rparr>"
  have "keeps clk m ?m1" by (rule keeps_same) simp_all
  then show ?thesis unfolding failCandidateStartup_def Let_def
    by (rule keeps_trans [OF keeps_trans [OF keeps_trans [OF _ f] s] l])
qed

lemma keeps_ensureStarted [keeps_intros]: "keeps clk m (ensureScheduleStarted clk m)"
proof -
  have "keeps clk (m\<lparr>scheduleStarted := True\<rparr>) (with_schedule (start clk) (m\<lparr>scheduleStarted := True\<rparr>))"
    by (rule keeps_with_start)
  then show ?thesis by (simp add: ensureScheduleStarted_def)
qed

lemma keeps_accept: "keeps clk m (manager_acceptMutation clk d m)"
proof -
  have "keeps clk m (m\<lparr>pendingStartupMutations := ps\<rparr>)" for ps by (rule keeps_same) simp_all
  then show ?thesis
    using keeps_with_accept keeps_trans [OF keeps_ensureStarted keeps_with_accept]
    by (auto simp: manager_acceptMutation_def split: option.split)
qed

lemma keeps_resetTimer: "keeps clk m (resetTimer clk m)"
proof -
  have r: "keeps clk m (with_schedule requestReset m)" for m by (rule keeps_with) (rule schedule_step.reset)
  have l: "keeps clk m (fold (\<lambda>i. log_call (ResetTimer (the (map_of x i)))) is m)" for m "is" and x :: "(int \<times> nat) list"
    by (rule keeps_fold) (rule keeps_log)
  show ?thesis using keeps_trans [OF keeps_trans [OF keeps_ensureStarted r] l]
    by (simp add: resetTimer_def Let_def)
qed

lemma keeps_isCurrent [keeps_intros]: "keeps clk m (snd (isCurrentRecordingFailure f m))"
  using keeps_snapshot [of clk m "fi_reservationId f"] by (simp add: isCurrentRecordingFailure_def case_prod_beta Let_def)

lemma keeps_isValid [keeps_intros]: "keeps clk m (snd (isValidRecordingFailure r f m))"
  using keeps_isCurrent by (simp add: isValidRecordingFailure_def split: option.split)

lemma keeps_processFailure: "keeps clk m (processRecordingFailure r f m)"
proof -
  obtain v m1 where v: "isValidRecordingFailure r f m = (v, m1)" by (cases "isValidRecordingFailure r f m")
  have 1: "keeps clk m m1" using keeps_isValid [of clk m r f] v by simp
  have "keeps clk m1 (m1\<lparr>recordingFailureClaims := i # recordingFailureClaims m1\<rparr>)" for i by (rule keeps_same) auto
  then have "keeps clk m (deleteRecording i (m1\<lparr>recordingFailureClaims := i # recordingFailureClaims m1\<rparr>))" for i
    using keeps_trans [OF keeps_trans [OF 1] keeps_deleteRecording] by blast
  then show ?thesis using 1 by (simp add: processRecordingFailure_def v Let_def)
qed

lemma keeps_found: "keeps clk m (recordeds_found now n f m)"
proof -
  let ?m0 = "m\<lparr>failuresInProgress := remove1 f (failuresInProgress m)\<rparr>"
  obtain v m1 where v: "isCurrentRecordingFailure (snd f) ?m0 = (v, m1)" by (cases "isCurrentRecordingFailure (snd f) ?m0")
  have "keeps clk ?m0 m1" using keeps_isCurrent [of clk ?m0 "snd f"] v by simp
  then have 1: "keeps clk m m1" by simp
  then show ?thesis using v keeps_trans [OF 1 keeps_with_accept]
    by (cases f) (simp add: recordeds_found_def Let_def)
qed

lemma keeps_use [simp]: "keeps clk m (m\<lparr>uses := p\<rparr>)"
  by (rule keeps_same) simp_all

lemma drop_active_rest [simp]:
  "sch (drop_active p m) = sch m" "taken (drop_active p m) = taken m"
  "recordingFailureClaims (drop_active p m) = recordingFailureClaims m" "recordingIndex (drop_active p m) = recordingIndex m"
  "recordingSessionTokens (drop_active p m) = recordingSessionTokens m" "calls (drop_active p m) = calls m"
  "object_count (drop_active p m) = object_count m" "unknownRecordedUseSessions (drop_active p m) = unknownRecordedUseSessions m"
  "failuresInProgress (drop_active p m) = failuresInProgress m" "deletionStops (drop_active p m) = deletionStops m"
  by (simp_all add: drop_active_def release_use_def Let_def case_prod_beta)

lemma drop_unknown_rest [simp]:
  "sch (drop_unknown i m) = sch m" "taken (drop_unknown i m) = taken m"
  "recordingFailureClaims (drop_unknown i m) = recordingFailureClaims m" "recordingIndex (drop_unknown i m) = recordingIndex m"
  "recordingSessionTokens (drop_unknown i m) = recordingSessionTokens m" "calls (drop_unknown i m) = calls m"
  "object_count (drop_unknown i m) = object_count m" "activeRecordedUseSessions (drop_unknown i m) = activeRecordedUseSessions m"
  "failuresInProgress (drop_unknown i m) = failuresInProgress m" "deletionStops (drop_unknown i m) = deletionStops m"
  by (simp_all add: drop_unknown_def release_use_def split: option.split)

lemma fold_drop_rest [simp]:
  "sch (fold drop_active ps m) = sch m" "taken (fold drop_active ps m) = taken m"
  "recordingFailureClaims (fold drop_active ps m) = recordingFailureClaims m" "recordingIndex (fold drop_active ps m) = recordingIndex m"
  "recordingSessionTokens (fold drop_active ps m) = recordingSessionTokens m" "calls (fold drop_active ps m) = calls m"
  "object_count (fold drop_active ps m) = object_count m"
  "failuresInProgress (fold drop_active ps m) = failuresInProgress m" "deletionStops (fold drop_active ps m) = deletionStops m"
  by (induction ps arbitrary: m) simp_all

lemma releaseForReservation_rest [simp]:
  "sch (releaseRecordedUsesForReservation i m) = sch m" "taken (releaseRecordedUsesForReservation i m) = taken m"
  "recordingFailureClaims (releaseRecordedUsesForReservation i m) = recordingFailureClaims m"
  "recordingIndex (releaseRecordedUsesForReservation i m) = recordingIndex m"
  "recordingSessionTokens (releaseRecordedUsesForReservation i m) = recordingSessionTokens m"
  "calls (releaseRecordedUsesForReservation i m) = calls m" "object_count (releaseRecordedUsesForReservation i m) = object_count m"
  "failuresInProgress (releaseRecordedUsesForReservation i m) = failuresInProgress m"
  "deletionStops (releaseRecordedUsesForReservation i m) = deletionStops m"
  by (simp_all add: releaseRecordedUsesForReservation_def)

lemma releaseRecordedUse_rest [simp]:
  "sch (releaseRecordedUse i j e m) = sch m" "taken (releaseRecordedUse i j e m) = taken m"
  "recordingFailureClaims (releaseRecordedUse i j e m) = recordingFailureClaims m"
  "recordingIndex (releaseRecordedUse i j e m) = recordingIndex m"
  "recordingSessionTokens (releaseRecordedUse i j e m) = recordingSessionTokens m"
  "calls (releaseRecordedUse i j e m) = calls m" "object_count (releaseRecordedUse i j e m) = object_count m"
  "failuresInProgress (releaseRecordedUse i j e m) = failuresInProgress m"
  by (simp_all add: releaseRecordedUse_def Let_def split: option.split)

lemma observeActive_rest [simp]:
  "sch (observeActiveRecordedUse b i j m) = sch m" "taken (observeActiveRecordedUse b i j m) = taken m"
  "recordingFailureClaims (observeActiveRecordedUse b i j m) = recordingFailureClaims m"
  "recordingIndex (observeActiveRecordedUse b i j m) = recordingIndex m"
  "recordingSessionTokens (observeActiveRecordedUse b i j m) = recordingSessionTokens m"
  "calls (observeActiveRecordedUse b i j m) = calls m"
  "object_count m \<le> object_count (observeActiveRecordedUse b i j m)"
  "failuresInProgress (observeActiveRecordedUse b i j m) = failuresInProgress m"
  by (simp_all add: observeActiveRecordedUse_def Let_def register_use_def release_use_def case_prod_beta split: option.split)

lemma observePreparing_rest [simp]:
  "sch (observePreparingRecordedUse i m) = sch m" "taken (observePreparingRecordedUse i m) = taken m"
  "recordingFailureClaims (observePreparingRecordedUse i m) = recordingFailureClaims m"
  "recordingIndex (observePreparingRecordedUse i m) = recordingIndex m"
  "recordingSessionTokens (observePreparingRecordedUse i m) = recordingSessionTokens m"
  "calls (observePreparingRecordedUse i m) = calls m" "object_count (observePreparingRecordedUse i m) = object_count m"
  "failuresInProgress (observePreparingRecordedUse i m) = failuresInProgress m"
  by (simp_all add: observePreparingRecordedUse_def register_use_def case_prod_beta split: option.split)

lemma normal_terminal_rest [simp]:
  "sch (normal_terminal i j r u m) = sch m" "taken (normal_terminal i j r u m) = taken m"
  "recordingFailureClaims (normal_terminal i j r u m) = recordingFailureClaims m"
  "recordingIndex (normal_terminal i j r u m) = recordingIndex m"
  "recordingSessionTokens (normal_terminal i j r u m) = recordingSessionTokens m"
  "calls (normal_terminal i j r u m) = calls m" "object_count (normal_terminal i j r u m) = object_count m"
  "failuresInProgress (normal_terminal i j r u m) = failuresInProgress m"
  by (simp_all add: normal_terminal_def)

lemma keeps_cancel: "keeps clk m (cancel i b m)"
proof -
  have "keeps clk m ((log_call c m)\<lparr>deletionStops := ds, object_count := n\<rparr>)" for c ds n by (rule keeps_same) simp_all
  then show ?thesis using keeps_trans [OF keeps_deleteRecording keeps_log]
    by (simp add: cancel_def Let_def split: option.split)
qed

lemma keeps_deletion_terminal: "keeps clk m (deletion_terminal i st m)"
proof -
  have "keeps clk m (releaseRecordedUsesForReservation i (m\<lparr>deletionStops := ds\<rparr>))" for ds
    by (rule keeps_same) simp_all
  then show ?thesis using keeps_trans [OF _ keeps_deleteRecording] by (simp add: deletion_terminal_def)
qed

lemma keeps_step: "manager_step clk margin m m' \<Longrightarrow> keeps clk m m'"
proof (induction rule: manager_step.induct)
  case (timer token d m)
  then show ?case by (intro keeps_with schedule_step.timer)
next
  case (microtask m)
  then show ?case by (intro keeps_with schedule_step.microtask)
next
  case (idle m w)
  show ?case by (intro keeps_with schedule_step.idle)
next
  case (flush m)
  have "keeps clk m (processRecordingFailure r f (m\<lparr>failuresToFlush := ff\<rparr>))" for r f ff
    using keeps_processFailure [of clk "m\<lparr>failuresToFlush := ff\<rparr>" r f] by simp
  then show ?case by (auto simp: flush_failure_def split: list.split)
next
  case (failed m r f)
  have "keeps clk m (m\<lparr>pendingStartupRecordingFailures := ps\<rparr>)" for ps by (rule keeps_same) simp_all
  then show ?case using keeps_processFailure [of clk m r f] by (simp add: on_recording_failed_def)
next
  case (preparation_ended m i)
  have "keeps clk m (releaseRecordedUsesForReservation i m)" by (rule keeps_same) simp_all
  then show ?case unfolding on_preparation_ended_def by (rule keeps_trans) (rule keeps_deleteRecording)
next
  case (finish_recording j m i)
  have "keeps clk m (releaseRecordedUse i j None m)" by (rule keeps_same) simp_all
  then show ?case unfolding on_finish_recording_def
    using keeps_deleteRecording [of clk m i] keeps_trans [OF _ keeps_deleteRecording [of clk "releaseRecordedUse i j None m" i]]
    by (cases "isAwaitingNormalRecordedUseTerminal i j m") simp_all
next
  case (requeue m x)
  have w: "keeps clk m (with_schedule (wake clk) m)" for m by (intro keeps_with schedule_step.wake)
  show ?case unfolding binding_requeue_def Let_def
    by (cases "fst (tryTransitionSession (se_reservationId x) (se_generation x) (se_sessionToken x) Cancelled Waiting (sch m))")
      (simp_all add: keeps_with_transition keeps_trans [OF keeps_with_transition w])
next
  case (remove_end m x)
  show ?case unfolding binding_removeEnd_def by (intro keeps_with schedule_step.unregister)
next
  case (transition m x p q)
  show ?case unfolding binding_transition_def by (rule keeps_with_transition)
next
  case (register_end m x dueAt)
  show ?case unfolding binding_registerEnd_def by (rule keeps_with_register)
next
  case (rebuild_start m)
  show ?case by (rule keeps_same) (simp_all add: rebuildCandidatesAndStart_def)
next
  case (startup_removed m i)
  show ?case by (rule keeps_same) simp_all
next
  case (found_rejected f m)
  show ?case by (rule keeps_same) (simp_all add: recordeds_rejected_def)
next
  case (start_preparation m i)
  show ?case by (rule keeps_same) simp_all
next
  case (start_recording j m b i)
  show ?case by (rule keeps_same) simp_all
next
  case (normal_end m i j r u)
  show ?case by (rule keeps_same) simp_all
qed (rule keeps_accept keeps_rows_read keeps_start_returns keeps_failStartup keeps_run_chain keeps_provider
    keeps_resetTimer keeps_found keeps_cancel keeps_deletion_terminal keeps_use | simp)+

definition managed :: "clock \<Rightarrow> int \<Rightarrow> manager \<Rightarrow> bool" where
  "managed clk margin m \<longleftrightarrow> (manager_step clk margin)\<^sup>*\<^sup>* new_manager m"

lemma keeps_steps: "(manager_step clk margin)\<^sup>*\<^sup>* m m' \<Longrightarrow> keeps clk m m'"
  by (induction rule: rtranclp_induct) (auto intro: keeps_trans keeps_step)

lemma managed_schedule: "managed clk margin m \<Longrightarrow> scheduled clk True (sch m) \<and> tidy m"
  using keeps_steps [of clk margin new_manager m]
  by (auto simp: managed_def keeps_def scheduled_def new_manager_def tidy_def new_schedule_def)

end
