(* ===== verification/Recording_Facts.thy ===== *)
theory Recording_Facts
  imports Recording_Laws
begin

text \<open>
  Properties of the recording manager: what it tells its recorders and what it decides about a failed
  recording.
\<close>

subsection \<open>A recorder and its session\<close>

text \<open>What a step may tell a recorder that exists already: only what its entry in the index allows.\<close>

fun allowed :: "(int, nat) jsmap \<Rightarrow> (int, int) jsmap \<Rightarrow> recorder_call \<Rightarrow> bool" where
  "allowed idx toks (SetTimer r i t row) = False"
| "allowed idx toks (StartPreparation r i t) = (map_of idx i = Some r \<and> map_of toks i = Some t)"
| "allowed idx toks (FinishAtTimeSpecifiedEnd r i t) = (map_of idx i = Some r \<and> map_of toks i = Some t)"
| "allowed idx toks (BindSession r x row) = (\<exists>i. map_of idx i = Some r \<and> map_of toks i = Some (se_sessionToken x))"
| "allowed idx toks c = True"

definition quiet :: "manager \<Rightarrow> manager \<Rightarrow> bool" where
  "quiet m m' \<longleftrightarrow> object_count m \<le> object_count m' \<and>
     (\<exists>cs. calls m' = calls m @ cs \<and> list_all (allowed (recordingIndex m) (recordingSessionTokens m)) cs) \<and>
     (\<forall>i r. map_of (recordingIndex m') i = Some r \<longrightarrow>
        map_of (recordingIndex m) i = Some r \<and> map_of (recordingSessionTokens m') i = map_of (recordingSessionTokens m) i)"

lemma quiet_same:
  "object_count m \<le> object_count m' \<Longrightarrow> calls m' = calls m \<Longrightarrow> recordingIndex m' = recordingIndex m \<Longrightarrow>
   recordingSessionTokens m' = recordingSessionTokens m \<Longrightarrow> quiet m m'"
  by (simp add: quiet_def)

lemma quiet_refl [simp]: "quiet m m"
  by (rule quiet_same) simp_all

lemma allowed_mono:
  assumes "allowed idx' toks' c" "\<And>i r. map_of idx' i = Some r \<Longrightarrow> map_of idx i = Some r \<and> map_of toks' i = map_of toks i"
  shows "allowed idx toks c"
proof (cases c)
  case (BindSession r x row)
  then show ?thesis using assms by (metis allowed.simps(4))
qed (use assms in auto)

lemma quiet_trans:
  assumes "quiet a b" "quiet b c"
  shows "quiet a c"
proof -
  obtain cs ds where l: "calls b = calls a @ cs" "calls c = calls b @ ds"
    "list_all (allowed (recordingIndex a) (recordingSessionTokens a)) cs"
    "list_all (allowed (recordingIndex b) (recordingSessionTokens b)) ds"
    using assms unfolding quiet_def by blast
  have i: "\<And>i r. map_of (recordingIndex b) i = Some r \<Longrightarrow>
      map_of (recordingIndex a) i = Some r \<and> map_of (recordingSessionTokens b) i = map_of (recordingSessionTokens a) i"
    "\<And>i r. map_of (recordingIndex c) i = Some r \<Longrightarrow>
      map_of (recordingIndex b) i = Some r \<and> map_of (recordingSessionTokens c) i = map_of (recordingSessionTokens b) i"
    using assms unfolding quiet_def by blast+
  have "list_all (allowed (recordingIndex a) (recordingSessionTokens a)) ds"
    using l(4) by (rule list.pred_mono_strong) (rule allowed_mono, assumption, rule i(1))
  then have "calls c = calls a @ (cs @ ds) \<and> list_all (allowed (recordingIndex a) (recordingSessionTokens a)) (cs @ ds)"
    using l by simp
  moreover have "object_count a \<le> object_count c" using assms unfolding quiet_def by linarith
  moreover have "map_of (recordingIndex a) i = Some r \<and> map_of (recordingSessionTokens c) i = map_of (recordingSessionTokens a) i"
    if "map_of (recordingIndex c) i = Some r" for i r
    using i(2) [OF that] i(1) by metis
  ultimately show ?thesis unfolding quiet_def by blast
qed

lemma quiet_with [simp]: "quiet m (with_schedule f m)"
  by (rule quiet_same) simp_all

lemma quiet_snapshot [simp]: "quiet m (snd (snapshot i m))"
  by (simp add: snapshot_def)

lemma quiet_delete [simp]: "quiet m (deleteRecording i m)"
  by (auto simp: quiet_def deleteRecording_def)

lemma quiet_log: "allowed (recordingIndex m) (recordingSessionTokens m) c \<Longrightarrow> quiet m (log_call c m)"
  by (simp add: quiet_def)

lemma quiet_bind: "map_of (recordingIndex m) i = Some r \<Longrightarrow> map_of (recordingSessionTokens m) i = Some (se_sessionToken x) \<Longrightarrow>
    quiet m (bindRecorder r x m)"
  using bindRecorder_cases [of r x m] by (auto intro!: quiet_log) blast

lemma quiet_fold: "(\<And>x m. quiet m (f x m)) \<Longrightarrow> quiet m (fold f xs m)"
proof (induction xs arbitrary: m)
  case (Cons x xs)
  have "quiet m (f x m)" "quiet (f x m) (fold f xs (f x m))" using Cons by auto
  then show ?case using quiet_trans by simp
qed simp

lemma quiet_update [simp]:
  "quiet m (m'\<lparr>running_op := b\<rparr>) = quiet m m'" "quiet (m\<lparr>chain := es\<rparr>) m' = quiet m m'"
  "quiet m (m'\<lparr>stage := g\<rparr>) = quiet m m'" "quiet (m\<lparr>pendingStartupMutations := ps\<rparr>) m' = quiet m m'"
  "quiet (m\<lparr>scheduleStarted := b1\<rparr>) m' = quiet m m'" "quiet (m\<lparr>failuresInProgress := fs\<rparr>) m' = quiet m m'"
  "quiet m (m'\<lparr>failuresInProgress := fs\<rparr>) = quiet m m'" "quiet m (m'\<lparr>retryOver := rs\<rparr>) = quiet m m'"
  "quiet (m\<lparr>failuresToFlush := ff\<rparr>) m' = quiet m m'" "quiet m (m'\<lparr>recordingFailureClaims := cl\<rparr>) = quiet m m'"
  "quiet (m\<lparr>recordingFailureClaims := cl\<rparr>) m' = quiet m m'" "quiet (m\<lparr>deletionStops := st\<rparr>) m' = quiet m m'"
  by (simp_all add: quiet_def)

lemma snapshot_rest [simp]:
  "recordingIndex (snd (snapshot i m)) = recordingIndex m"
  "recordingSessionTokens (snd (snapshot i m)) = recordingSessionTokens m"
  "calls (snd (snapshot i m)) = calls m" "object_count (snd (snapshot i m)) = object_count m"
  "failuresInProgress (snd (snapshot i m)) = failuresInProgress m"
  by (simp_all add: snapshot_def)

lemma bindRecorder_rest [simp]:
  "recordingIndex (bindRecorder r x m) = recordingIndex m" "recordingSessionTokens (bindRecorder r x m) = recordingSessionTokens m"
  "object_count (bindRecorder r x m) = object_count m" "failuresInProgress (bindRecorder r x m) = failuresInProgress m"
  using bindRecorder_cases [of r x m] by auto

lemma quiet_dispatchPreparation: "quiet m (dispatchPreparation c g t m)"
proof -
  let ?i = "cd_reservationId c"
  obtain x m1 where x: "snapshot ?i m = (x, m1)" by (cases "snapshot ?i m")
  have 1: "quiet m m1" using quiet_snapshot [of m ?i] x by simp
  have "quiet m1 (log_call (StartPreparation r ?i t) (bindRecorder r y m1))"
    if "map_of (recordingIndex m1) ?i = Some r" "map_of (recordingSessionTokens m1) ?i = Some t" "se_sessionToken y = t" for r y
    by (rule quiet_trans [OF quiet_bind [of _ ?i] quiet_log]) (simp_all add: that)
  then show ?thesis using 1 quiet_trans [OF 1]
    by (auto simp: dispatchPreparation_def x Let_def is_session_def split: option.split)
qed

lemma quiet_dispatchTimeSpecifiedEnd: "quiet m (dispatchTimeSpecifiedEnd e m)"
proof -
  let ?i = "te_reservationId e"
  obtain x m1 where x: "snapshot ?i m = (x, m1)" by (cases "snapshot ?i m")
  have 1: "quiet m m1" and i: "recordingIndex m1 = recordingIndex m" using quiet_snapshot [of m ?i] snapshot_rest(1) [of ?i m] x by simp_all
  have "quiet m1 (log_call (FinishAtTimeSpecifiedEnd r ?i (te_sessionToken e)) (bindRecorder r y m1))"
    if "map_of (recordingIndex m1) ?i = Some r" "map_of (recordingSessionTokens m1) ?i = Some (te_sessionToken e)"
      "se_sessionToken y = te_sessionToken e" for r y
    by (rule quiet_trans [OF quiet_bind [of _ ?i] quiet_log]) (simp_all add: that)
  then show ?thesis using 1 quiet_trans [OF 1] i
    by (auto simp: dispatchTimeSpecifiedEnd_def x Let_def is_session_def split: option.split)
qed

lemma quiet_applyScheduleRemoval: "quiet m (applyScheduleRemoval md m)"
proof -
  have "quiet m (log_call (UpdateRecorder r row) (deleteRecording i m))"
    "quiet m (log_call (CancelRecorder r False) (deleteRecording i m))" for r row i
    by (rule quiet_trans [OF quiet_delete quiet_log], simp)+
  then show ?thesis by (auto simp: applyScheduleRemoval_def Let_def split: option.split)
qed

text \<open>A recorder in the index has its token there.\<close>

definition indexed :: "manager \<Rightarrow> bool" where
  "indexed m \<longleftrightarrow> (\<forall>i r. map_of (recordingIndex m) i = Some r \<longrightarrow> map_of (recordingSessionTokens m) i \<noteq> None)"

lemma quiet_applyScheduleMutation:
  assumes "indexed m"
  shows "quiet m (applyScheduleMutation clk margin md m)"
proof -
  let ?i = "md_reservationId md"
  obtain x m1 where x: "snapshot ?i m = (x, m1)" by (cases "snapshot ?i m")
  have 1: "quiet m m1" and i: "recordingIndex m1 = recordingIndex m" "recordingSessionTokens m1 = recordingSessionTokens m"
    using quiet_snapshot [of m ?i] snapshot_rest(1,2) [of ?i m] x by simp_all
  have b: "quiet m (bindRecorder r y m1)"
    if "map_of (recordingIndex m1) ?i = Some r" "map_of (recordingSessionTokens m1) ?i = Some (se_sessionToken y)" for r y
    by (rule quiet_trans [OF 1 quiet_bind [OF that]])
  have "quiet m (log_call (UpdateRecorder r row) (bindRecorder r y m1))"
    "quiet m (log_call (UpdateRecorder r row) (with_schedule f (bindRecorder r y m1)))"
    if "map_of (recordingIndex m1) ?i = Some r" "map_of (recordingSessionTokens m1) ?i \<noteq> None \<Longrightarrow>
      map_of (recordingSessionTokens m1) ?i = Some (se_sessionToken y)" for row r y f
  proof -
    have "map_of (recordingSessionTokens m1) ?i = Some (se_sessionToken y)"
      using that assms unfolding i indexed_def by blast
    note bind = b [OF that(1) this]
    show "quiet m (log_call (UpdateRecorder r row) (bindRecorder r y m1))" by (rule quiet_trans [OF bind quiet_log]) simp
    show "quiet m (log_call (UpdateRecorder r row) (with_schedule f (bindRecorder r y m1)))"
      by (rule quiet_trans [OF quiet_trans [OF bind quiet_with] quiet_log]) simp
  qed
  then show ?thesis using 1 quiet_applyScheduleRemoval
    by (auto simp: applyScheduleMutation_def x Let_def split: option.split)
qed

lemma quiet_run_chain:
  assumes "indexed m"
  shows "quiet m (run_chain clk margin m)"
proof (cases "chain m")
  case (Cons e es)
  have "indexed (m\<lparr>chain := es\<rparr>)" using assms by (simp add: indexed_def)
  then have "quiet (m\<lparr>chain := es\<rparr>) (run_entry clk margin e (m\<lparr>chain := es\<rparr>))"
    by (cases e) (simp_all add: quiet_applyScheduleMutation quiet_dispatchPreparation quiet_dispatchTimeSpecifiedEnd del: quiet_update)
  then show ?thesis using Cons by (simp add: run_chain_def)
qed (simp add: run_chain_def)

lemma quiet_flush [simp]: "quiet m (flushPendingStartupMutations m)"
proof -
  have "quiet (m\<lparr>pendingStartupMutations := []\<rparr>) (flushPendingStartupMutations m)"
    unfolding flushPendingStartupMutations_def by (rule quiet_fold) simp
  then show ?thesis by simp
qed

lemma quiet_rows_read: "quiet m (rows_are_read clk now rs m)"
  by (simp add: rows_are_read_def Let_def
      quiet_trans [OF quiet_trans [OF quiet_trans [OF quiet_with quiet_with] quiet_flush] quiet_with])

lemma quiet_start_returns: "quiet m (start_returns m)"
proof -
  let ?m1 = "flushPendingStartupMutations (m\<lparr>scheduleStarted := True\<rparr>)"
  have "quiet m ?m1" using quiet_flush [of "m\<lparr>scheduleStarted := True\<rparr>"] unfolding quiet_update .
  then show ?thesis by (rule quiet_trans) (rule quiet_same, simp_all add: start_returns_def Let_def)
qed

lemma quiet_forget: "quiet m (forget_reservation i m)"
  by (auto simp: quiet_def forget_reservation_def)

lemma quiet_failStartup: "quiet m (failCandidateStartup m)"
proof -
  have l: "quiet m (fold (\<lambda>r. log_call (CancelRecorder r False)) rs m)" for rs m
    by (rule quiet_fold) (rule quiet_log, simp)
  have f: "quiet m (fold forget_reservation is m)" for m "is" by (rule quiet_fold) (rule quiet_forget)
  let ?m1 = "m\<lparr>candidateStartupState := Failed, scheduleStarted := False, pendingStartupMutations := [],
                 pendingStartupRecordingFailures := [], stage := Not_running\<rparr>"
  have "quiet m ?m1" by (rule quiet_same) simp_all
  then show ?thesis unfolding failCandidateStartup_def Let_def
    by (rule quiet_trans [OF quiet_trans [OF quiet_trans [OF _ f] quiet_with] l])
qed

lemma quiet_ensureStarted [simp]: "quiet m (ensureScheduleStarted clk m)"
  by (rule quiet_same) (simp_all add: ensureScheduleStarted_def)

lemma quiet_accept: "quiet m (manager_acceptMutation clk d m)"
  by (rule quiet_same) (simp_all add: manager_acceptMutation_def ensureScheduleStarted_def split: option.split)

lemma quiet_resetTimer: "quiet m (resetTimer clk m)"
proof -
  have l: "quiet m (fold (\<lambda>i. log_call (ResetTimer (the (map_of x i)))) is m)" for m "is" and x :: "(int \<times> nat) list"
    by (rule quiet_fold) (rule quiet_log, simp)
  show ?thesis using quiet_trans [OF quiet_trans [OF quiet_ensureStarted quiet_with] l]
    by (simp add: resetTimer_def Let_def)
qed

lemma quiet_isCurrent [simp]: "quiet m (snd (isCurrentRecordingFailure f m))"
  using quiet_snapshot [of m "fi_reservationId f"] by (simp add: isCurrentRecordingFailure_def case_prod_beta Let_def)

lemma quiet_isValid [simp]: "quiet m (snd (isValidRecordingFailure r f m))"
  by (simp add: isValidRecordingFailure_def split: option.split)

lemma quiet_processFailure: "quiet m (processRecordingFailure r f m)"
proof -
  obtain v m1 where v: "isValidRecordingFailure r f m = (v, m1)" by (cases "isValidRecordingFailure r f m")
  have 1: "quiet m m1" using quiet_isValid [of m r f] v by simp
  have "quiet m1 (deleteRecording i (m1\<lparr>recordingFailureClaims := cl\<rparr>))" for i cl
    using quiet_delete [of "m1\<lparr>recordingFailureClaims := cl\<rparr>" i] unfolding quiet_update .
  from quiet_trans [OF 1 this] have "quiet m (deleteRecording i (m1\<lparr>recordingFailureClaims := cl\<rparr>))" for i cl .
  then show ?thesis using 1 by (simp add: processRecordingFailure_def v Let_def)
qed

lemma quiet_found: "quiet m (recordeds_found now n f m)"
proof -
  let ?m0 = "m\<lparr>failuresInProgress := remove1 f (failuresInProgress m)\<rparr>"
  obtain v m1 where v: "isCurrentRecordingFailure (snd f) ?m0 = (v, m1)" by (cases "isCurrentRecordingFailure (snd f) ?m0")
  have "quiet ?m0 m1" using quiet_isCurrent [of ?m0 "snd f"] v by simp
  then have 1: "quiet m m1" by simp
  then show ?thesis using v quiet_trans [OF 1 quiet_with]
    by (cases f) (simp add: recordeds_found_def Let_def)
qed

lemma quiet_cancel: "quiet m (cancel i b m)"
proof -
  have "quiet m ((log_call (CancelRecorder r True) m)\<lparr>deletionStops := ds, object_count := Suc (object_count m)\<rparr>)" for r ds
    by (simp add: quiet_def)
  moreover have "quiet m (log_call (CancelRecorder r False) (deleteRecording i m))" for r
    by (rule quiet_trans [OF quiet_delete quiet_log]) simp
  ultimately show ?thesis by (simp add: cancel_def Let_def split: option.split)
qed

lemma quiet_deletion_terminal: "quiet m (deletion_terminal i st m)"
proof -
  have "quiet m (releaseRecordedUsesForReservation i (m\<lparr>deletionStops := ds\<rparr>))" for ds
    by (rule quiet_same) simp_all
  then show ?thesis using quiet_trans [OF _ quiet_delete] by (simp add: deletion_terminal_def)
qed

text \<open>Every step but the answer of the provider is quiet.\<close>

lemma step_quiet:
  assumes "manager_step clk margin m m'" "indexed m"
  obtains (provider) md x c b where "m' = provider_returns b md x c m" | (quiet) "quiet m m'"
  using assms(1)
proof (cases rule: manager_step.cases)
  case (flush)
  have "quiet m (processRecordingFailure r f (m\<lparr>failuresToFlush := ff\<rparr>))" for r f ff
    using quiet_processFailure [of "m\<lparr>failuresToFlush := ff\<rparr>" r f] by simp
  then have "quiet m (flush_failure m)" by (auto simp: flush_failure_def split: list.split)
  then show ?thesis using flush quiet by simp
next
  case (failed r f)
  have "quiet m (m\<lparr>pendingStartupRecordingFailures := ps\<rparr>)" for ps by (rule quiet_same) simp_all
  then have "quiet m (on_recording_failed r f m)" using quiet_processFailure [of m r f] by (simp add: on_recording_failed_def)
  then show ?thesis using failed quiet by simp
next
  case (preparation_ended i)
  have "quiet m (releaseRecordedUsesForReservation i m)" by (rule quiet_same) simp_all
  then have "quiet m (on_preparation_ended i m)" unfolding on_preparation_ended_def by (rule quiet_trans) (rule quiet_delete)
  then show ?thesis using preparation_ended quiet by simp
next
  case (finish_recording j i)
  have "quiet m (releaseRecordedUse i j None m)" by (rule quiet_same) simp_all
  then have "quiet m (deleteRecording i (releaseRecordedUse i j None m))" by (rule quiet_trans) (rule quiet_delete)
  then have "quiet m (on_finish_recording i j m)" by (simp add: on_finish_recording_def)
  then show ?thesis using finish_recording quiet by simp
next
  case (requeue x)
  have "quiet m (binding_requeue clk x m)" by (simp add: binding_requeue_def Let_def quiet_trans [OF quiet_with quiet_with])
  then show ?thesis using requeue quiet by simp
qed (use quiet_accept quiet_rows_read quiet_start_returns quiet_failStartup quiet_run_chain [OF assms(2)] quiet_resetTimer quiet_found
      quiet_cancel quiet_deletion_terminal provider in
    \<open>(auto intro!: quiet quiet_same simp: binding_removeEnd_def binding_transition_def binding_registerEnd_def
       rebuildCandidatesAndStart_def recordeds_rejected_def; fail)+\<close>)

text \<open>The recorders whose timer was set, in order.\<close>

fun timer_of :: "recorder_call \<Rightarrow> nat option" where
  "timer_of (SetTimer r i t row) = Some r"
| "timer_of c = None"

definition recorders_ok :: "manager \<Rightarrow> bool" where
  "recorders_ok m \<longleftrightarrow> distinct (List.map_filter timer_of (calls m)) \<and>
     (\<forall>r \<in> set (List.map_filter timer_of (calls m)). r < object_count m) \<and>
     (\<forall>i r. map_of (recordingIndex m) i = Some r \<longrightarrow>
        (\<exists>t row. map_of (recordingSessionTokens m) i = Some t \<and> SetTimer r i t row \<in> set (calls m))) \<and>
     (\<forall>r i t. StartPreparation r i t \<in> set (calls m) \<or> FinishAtTimeSpecifiedEnd r i t \<in> set (calls m) \<longrightarrow>
        (\<exists>row. SetTimer r i t row \<in> set (calls m))) \<and>
     (\<forall>r x row. BindSession r x row \<in> set (calls m) \<longrightarrow> (\<exists>i row. SetTimer r i (se_sessionToken x) row \<in> set (calls m)))"

lemma recorders_indexed: "recorders_ok m \<Longrightarrow> indexed m"
  unfolding recorders_ok_def indexed_def by blast

lemma timer_of_set: "r \<in> set (List.map_filter timer_of cs) \<longleftrightarrow> (\<exists>i t row. SetTimer r i t row \<in> set cs)"
proof (induction cs)
  case (Cons c cs)
  then show ?case by (cases c) (auto simp: List.map_filter_simps)
qed (simp add: List.map_filter_simps)

lemma timer_of_append: "List.map_filter timer_of (cs @ ds) = List.map_filter timer_of cs @ List.map_filter timer_of ds"
  by (simp add: List.map_filter_def)

lemma recorders_ok_quiet:
  assumes "recorders_ok m" "quiet m m'"
  shows "recorders_ok m'"
proof -
  obtain cs where cs: "calls m' = calls m @ cs" "list_all (allowed (recordingIndex m) (recordingSessionTokens m)) cs"
    "object_count m \<le> object_count m'"
    and idx: "\<And>i r. map_of (recordingIndex m') i = Some r \<Longrightarrow>
        map_of (recordingIndex m) i = Some r \<and> map_of (recordingSessionTokens m') i = map_of (recordingSessionTokens m) i"
    using assms(2) unfolding quiet_def by blast
  have a: "allowed (recordingIndex m) (recordingSessionTokens m) c" if "c \<in> set cs" for c
    using cs(2) that by (auto simp: list_all_iff)
  have none: "List.map_filter timer_of cs = []"
  proof -
    have "r \<notin> set (List.map_filter timer_of cs)" for r using a by (force simp: timer_of_set)
    then show ?thesis by (metis last_in_set)
  qed
  have entry: "\<exists>t row. map_of (recordingSessionTokens m) i = Some t \<and> SetTimer r i t row \<in> set (calls m)"
    if "map_of (recordingIndex m) i = Some r" for i r
    using assms(1) that unfolding recorders_ok_def by blast
  have old: "\<exists>row. SetTimer r i t row \<in> set (calls m)"
    if "StartPreparation r i t \<in> set (calls m) \<or> FinishAtTimeSpecifiedEnd r i t \<in> set (calls m)" for r i t
    using assms(1) that unfolding recorders_ok_def by blast
  have new: "\<exists>row. SetTimer r i t row \<in> set (calls m)"
    if "StartPreparation r i t \<in> set cs \<or> FinishAtTimeSpecifiedEnd r i t \<in> set cs" for r i t
    using that a entry [of i r] by force
  have bound: "\<exists>i row. SetTimer r i (se_sessionToken x) row \<in> set (calls m)" if "BindSession r x row \<in> set (calls m')" for r x row
  proof (cases "BindSession r x row \<in> set (calls m)")
    case True
    then show ?thesis using assms(1) unfolding recorders_ok_def by blast
  next
    case False
    then have "BindSession r x row \<in> set cs" using that by (simp add: cs(1))
    from a [OF this] obtain i where "map_of (recordingIndex m) i = Some r" "map_of (recordingSessionTokens m) i = Some (se_sessionToken x)"
      by auto
    then show ?thesis using entry by force
  qed
  show ?thesis unfolding recorders_ok_def
  proof (intro conjI allI impI ballI)
    show "\<exists>i row. SetTimer r i (se_sessionToken x) row \<in> set (calls m')" if "BindSession r x row \<in> set (calls m')" for r x row
      using bound [OF that] by (auto simp: cs(1))
    show "distinct (List.map_filter timer_of (calls m'))"
      using assms(1) by (simp add: cs(1) timer_of_append none recorders_ok_def)
    show "r < object_count m'" if "r \<in> set (List.map_filter timer_of (calls m'))" for r
      using assms(1) that cs(3) by (force simp: cs(1) timer_of_append none recorders_ok_def)
    show "\<exists>t row. map_of (recordingSessionTokens m') i = Some t \<and> SetTimer r i t row \<in> set (calls m')"
      if "map_of (recordingIndex m') i = Some r" for i r
      using idx [OF that] entry [of i r] by (auto simp: cs(1))
    show "\<exists>row. SetTimer r i t row \<in> set (calls m')"
      if "StartPreparation r i t \<in> set (calls m') \<or> FinishAtTimeSpecifiedEnd r i t \<in> set (calls m')" for r i t
      using that old [of r i t] new [of r i t] unfolding cs(1) set_append by blast
  qed
qed

lemma recorders_ok_set_timer:
  assumes "recorders_ok m" "r < object_count m" "r \<notin> set (List.map_filter timer_of (calls m))"
    and m: "n = log_call (SetTimer r i (se_sessionToken z) row) (bindRecorder r z m)"
  shows "recorders_ok n" "recorders_ok (n\<lparr>recordingIndex := map_set i r (recordingIndex n),
       recordingSessionTokens := map_set i (se_sessionToken z) (recordingSessionTokens n)\<rparr>)"
proof -
  obtain cs where cs: "calls (bindRecorder r z m) = calls m @ cs" "cs = [] \<or> (\<exists>row. cs = [BindSession r z row])"
    using bindRecorder_cases [of r z m] by auto
  have f: "List.map_filter timer_of (calls (bindRecorder r z m)) = List.map_filter timer_of (calls m)"
    using cs by (auto simp: timer_of_append List.map_filter_simps)
  have idx: "recordingIndex n = recordingIndex m" "recordingSessionTokens n = recordingSessionTokens m" by (simp_all add: m)
  have c: "c \<in> set (calls n) \<longleftrightarrow> c \<in> set (calls m) \<or> c \<in> set cs \<or> c = SetTimer r i (se_sessionToken z) row" for c
    using cs(1) by (auto simp: m)
  have t: "List.map_filter timer_of (calls n) = List.map_filter timer_of (calls m) @ [r]"
    using f by (simp add: m timer_of_append List.map_filter_simps)
  have told: "\<exists>row. SetTimer q k u row \<in> set (calls n)"
    if "StartPreparation q k u \<in> set (calls n) \<or> FinishAtTimeSpecifiedEnd q k u \<in> set (calls n)" for q k u
  proof -
    have "StartPreparation q k u \<in> set (calls m) \<or> FinishAtTimeSpecifiedEnd q k u \<in> set (calls m)"
      using that cs(2) unfolding c by auto
    then show ?thesis using assms(1) unfolding c recorders_ok_def by blast
  qed
  have bound: "\<exists>k row. SetTimer q k (se_sessionToken x) row \<in> set (calls n)" if "BindSession q x w \<in> set (calls n)" for q x w
  proof -
    have "BindSession q x w \<in> set (calls m) \<or> q = r \<and> x = z" using that cs(2) unfolding c by auto
    then show ?thesis using assms(1) unfolding c recorders_ok_def by blast
  qed
  have entry: "\<exists>u row. map_of (recordingSessionTokens m) k = Some u \<and> SetTimer q k u row \<in> set (calls n)"
    if "map_of (recordingIndex m) k = Some q" for k q
    using that assms(1) unfolding c recorders_ok_def by blast
  have set: "SetTimer r i (se_sessionToken z) row \<in> set (calls n)" by (simp add: c)
  have rest: "distinct (List.map_filter timer_of (calls n))" "\<And>q. q \<in> set (List.map_filter timer_of (calls n)) \<Longrightarrow> q < object_count n"
    using assms unfolding t recorders_ok_def by (auto simp: m)
  show "recorders_ok n" unfolding recorders_ok_def idx using rest told bound entry by blast
  show "recorders_ok (n\<lparr>recordingIndex := map_set i r (recordingIndex n),
       recordingSessionTokens := map_set i (se_sessionToken z) (recordingSessionTokens n)\<rparr>)"
    unfolding recorders_ok_def using rest told bound entry set by (auto simp: idx)
qed

lemma recorders_ok_provider:
  assumes "recorders_ok m"
  shows "recorders_ok (provider_returns b md x c m)"
proof -
  let ?m0 = "m\<lparr>object_count := Suc (object_count m), running_op := None\<rparr>" and ?r = "object_count m"
  obtain y m1 where y: "snapshot (md_reservationId md) ?m0 = (y, m1)" by (cases "snapshot (md_reservationId md) ?m0")
  have "recorders_ok ?m0" using assms unfolding recorders_ok_def by auto
  then have 1: "recorders_ok m1" using recorders_ok_quiet [OF _ quiet_snapshot [of ?m0 "md_reservationId md"]] y by simp
  have c: "calls m1 = calls m" "object_count m1 = Suc (object_count m)"
    using snapshot_rest(3,4) [of "md_reservationId md" ?m0] y by simp_all
  have new: "?r \<notin> set (List.map_filter timer_of (calls m1))" using assms unfolding c recorders_ok_def by blast
  note 3 = recorders_ok_set_timer [OF 1 _ new refl, unfolded c(2), simplified]
  have "recorders_ok (with_schedule f (log_call (SetTimer ?r i (se_sessionToken z) row) (bindRecorder ?r z m1)))" for f i row z
    by (rule recorders_ok_quiet [OF 3(1) quiet_with])
  then show ?thesis using 1 3 y by (auto simp: provider_returns_def Let_def split: option.split)
qed

lemma managed_recorders: "managed clk margin m \<Longrightarrow> recorders_ok m"
  unfolding managed_def
proof (induction rule: rtranclp_induct)
  case base
  show ?case by (simp add: recorders_ok_def new_manager_def List.map_filter_simps)
next
  case (step y z)
  from step(2) show ?case
    by (cases rule: step_quiet [OF _ recorders_indexed [OF step(3)]]) (use step(3) recorders_ok_provider recorders_ok_quiet in blast)+
qed


lemma filter_timer: "List.map_filter timer_of (filter (\<lambda>c. timer_of c = Some r) cs) = filter (\<lambda>x. x = r) (List.map_filter timer_of cs)"
proof (induction cs)
  case (Cons c cs)
  then show ?case by (cases "timer_of c") (auto simp: List.map_filter_simps)
qed (simp add: List.map_filter_simps)

lemma one_timer:
  assumes "distinct (List.map_filter timer_of cs)" "SetTimer r i t row \<in> set cs"
  shows "filter (\<lambda>c. timer_of c = Some r) cs = [SetTimer r i t row]"
proof -
  let ?f = "filter (\<lambda>c. timer_of c = Some r) cs"
  have "length (List.map_filter timer_of ?f) \<le> 1"
    using card_mono [of "{r}" "{r} \<inter> set (List.map_filter timer_of cs)"] assms(1)
    by (simp add: filter_timer distinct_length_filter)
  moreover have "List.map_filter timer_of xs = map (the \<circ> timer_of) xs" if "\<forall>c \<in> set xs. timer_of c = Some r" for xs
    using that by (induction xs) (auto simp: List.map_filter_simps)
  ultimately have "length ?f \<le> 1" by simp
  moreover have "SetTimer r i t row \<in> set ?f" using assms(2) by simp
  ultimately show ?thesis by (cases ?f) auto
qed

text \<open>C30. A recorder serves one recording session: whatever session the manager binds a recorder to, and whatever
  session it tells it to prepare or to end at its specified time, the timer of the recorder has been set exactly once, and
  for the token of that very session (for the last two also for the very reservation).\<close>

theorem recorder_one_session:
  assumes "managed clk margin m"
  shows "(StartPreparation r i t \<in> set (calls m) \<or> FinishAtTimeSpecifiedEnd r i t \<in> set (calls m) \<longrightarrow>
      (\<exists>row. filter (\<lambda>c. timer_of c = Some r) (calls m) = [SetTimer r i t row])) \<and>
    (BindSession r x bound \<in> set (calls m) \<longrightarrow>
      (\<exists>j row. filter (\<lambda>c. timer_of c = Some r) (calls m) = [SetTimer r j (se_sessionToken x) row]))"
proof -
  have ok: "recorders_ok m" by (rule managed_recorders [OF assms])
  then have "distinct (List.map_filter timer_of (calls m))" unfolding recorders_ok_def by blast
  note one = one_timer [OF this]
  show ?thesis using ok one unfolding recorders_ok_def by metis
qed

subsection \<open>A failed recording is decided once\<close>

abbreviation failure_key :: "reserve \<times> failure_identity \<Rightarrow> int \<times> int" where
  "failure_key f \<equiv> (fi_reservationId (snd f), fi_generation (snd f))"

text \<open>The failure of a generation is claimed, or the generation is over.\<close>

definition claimed :: "manager \<Rightarrow> int \<times> int \<Rightarrow> bool" where
  "claimed m k \<longleftrightarrow> snd k \<le> generationCounter (registry (sch m)) \<and>
     (fst k \<in> set (recordingFailureClaims m) \<or> generation_of (sch m) (fst k) \<noteq> Some (snd k))"

definition failures_ok :: "manager \<Rightarrow> bool" where
  "failures_ok m \<longleftrightarrow> distinct (map failure_key (failuresInProgress m)) \<and>
     (\<forall>f \<in> set (failuresInProgress m). claimed m (failure_key f))"

lemma claimed_keeps:
  assumes "keeps clk m m'" "tidy m" "claimed m k"
  shows "claimed m' k"
proof -
  have e: "evolves (sch m) (sch m')" using assms(1) evolves_steps unfolding keeps_def by blast
  then have le: "generationCounter (registry (sch m)) \<le> generationCounter (registry (sch m'))" by (simp add: evolves_def)
  have "fst k \<in> set (recordingFailureClaims m') \<or> generation_of (sch m') (fst k) \<noteq> Some (snd k)"
  proof (cases "fst k \<in> set (recordingFailureClaims m)")
    case True
    then have "fst k \<in> set (recordingFailureClaims m') \<or> renewed m m' (fst k)"
      using assms(1,2) unfolding keeps_def by blast
    then show ?thesis using assms(3) unfolding claimed_def renewed_def by force
  next
    case False
    then have "generation_of (sch m) (fst k) \<noteq> Some (snd k)" "snd k \<le> generationCounter (registry (sch m))"
      using assms(3) by (simp_all add: claimed_def)
    moreover have "generation_of (sch m') (fst k) = generation_of (sch m) (fst k) \<or> generation_of (sch m') (fst k) = None \<or>
        (\<exists>g. generation_of (sch m') (fst k) = Some g \<and> generationCounter (registry (sch m)) < g)"
      using e unfolding evolves_def by blast
    ultimately show ?thesis by force
  qed
  then show ?thesis using le assms(3) by (simp add: claimed_def)
qed

lemma generation_issued:
  assumes "data_inv s" "generation_of s i = Some n"
  shows "n \<le> generationCounter (registry s)"
proof -
  obtain c where c: "get_candidate i (registry s) = Some c" "cd_generation c = n"
    using assms(2) by (auto simp: generation_of_def)
  have ok: "registry_ok (registry s)" using assms(1) by (simp add: data_inv_def data_ok_def)
  then have "candidate_ok (registry s) i c" using c(1) unfolding registry_ok_def by blast
  then show ?thesis using ok c(2) unfolding registry_ok_def candidate_ok_def by blast
qed

lemma processRecordingFailure_cases:
  assumes "data_inv (sch m)" "tidy m"
  shows "failuresInProgress (processRecordingFailure r f m) = failuresInProgress m \<or>
    (\<exists>g. f = Some g \<and> failuresInProgress (processRecordingFailure r f m) = failuresInProgress m @ [(r, g)] \<and>
       \<not> claimed m (failure_key (r, g)) \<and> claimed (processRecordingFailure r f m) (failure_key (r, g)))"
proof (cases f)
  case (Some g)
  let ?i = "reservation_id r"
  obtain v m1 where v: "isValidRecordingFailure r f m = (v, m1)" by (cases "isValidRecordingFailure r f m")
  have same: "failuresInProgress m1 = failuresInProgress m"
    using v Some by (auto simp: isValidRecordingFailure_def isCurrentRecordingFailure_def Let_def case_prod_beta split: if_splits)
  have k: "keeps clk m m1" for clk using keeps_isValid [of clk m r f] v by simp
  show ?thesis
  proof (cases "map_of (deletionStops m) ?i \<noteq> None \<or> candidateStartupState m \<noteq> Started \<or> \<not> v \<or>
      ?i \<in> set (recordingFailureClaims m1)")
    case True
    then show ?thesis using same by (auto simp: processRecordingFailure_def v Let_def)
  next
    case False
    let ?m' = "deleteRecording ?i (m1\<lparr>recordingFailureClaims := ?i # recordingFailureClaims m1\<rparr>)"
    have run: "processRecordingFailure r f m = ?m'\<lparr>failuresInProgress := failuresInProgress ?m' @ [(r, g)]\<rparr>"
      using False v unfolding Some by (simp add: processRecordingFailure_def Let_def)
    have d [simp]: "failuresInProgress ?m' = failuresInProgress m1" "sch ?m' = sch m1"
      "recordingFailureClaims ?m' = ?i # recordingFailureClaims m1"
      by (simp_all add: deleteRecording_def)
    have c: "fi_reservationId g = ?i" "isCurrentRecordingFailure g m = (True, m1)"
      using v False Some by (auto simp: isValidRecordingFailure_def split: if_splits)
    have m1: "sch m1 = snd (getSessionSnapshot ?i (sch m))"
      using c by (auto simp: isCurrentRecordingFailure_def snapshot_def Let_def)
    have gen: "generation_of (sch m1) ?i = Some (fi_generation g)"
      using c by (auto simp: isCurrentRecordingFailure_def generation_of_def snapshot_def Let_def split: option.splits)
    have "data_inv (sch m1)"
      using good_data [OF good_step [OF schedule_step.snapshot [of _ True "sch m" ?i]] assms(1)] m1 by simp
    then have "fi_generation g \<le> generationCounter (registry (sch m1))"
      using gen by (rule generation_issued)
    then have "claimed (processRecordingFailure r f m) (failure_key (r, g))"
      by (simp add: claimed_def run c(1))
    moreover have "\<not> claimed m1 (failure_key (r, g))" using gen False c(1) by (simp add: claimed_def)
    then have "\<not> claimed m (failure_key (r, g))" using claimed_keeps [OF k assms(2)] by blast
    moreover have "failuresInProgress (processRecordingFailure r f m) = failuresInProgress m @ [(r, g)]" by (simp add: run same)
    ultimately show ?thesis using Some by blast
  qed
qed (simp add: processRecordingFailure_def isValidRecordingFailure_def Let_def)

text \<open>A step starts the decision of one failure or none, and may end one.\<close>

lemma fold_frame: "(\<And>x m. h (f x m) = h m) \<Longrightarrow> h (fold f xs m) = h m"
  by (induction xs arbitrary: m) simp_all

lemma failuresInProgress_frames [simp]:
  "failuresInProgress (deleteRecording i m) = failuresInProgress m"
  "failuresInProgress (flushPendingStartupMutations m) = failuresInProgress m"
  "failuresInProgress (forget_reservation i m) = failuresInProgress m"
  "failuresInProgress (ensureScheduleStarted clk m) = failuresInProgress m"
  "failuresInProgress (snd (isCurrentRecordingFailure f m)) = failuresInProgress m"
  "failuresInProgress (applyScheduleRemoval md m) = failuresInProgress m"
  by (simp_all add: deleteRecording_def flushPendingStartupMutations_def fold_frame [where h = failuresInProgress]
      forget_reservation_def ensureScheduleStarted_def isCurrentRecordingFailure_def applyScheduleRemoval_def case_prod_beta Let_def
      split: option.split)

lemma failuresInProgress_step:
  assumes "manager_step clk margin m m'"
  obtains (started) r f ff where "m' = processRecordingFailure r f (m\<lparr>failuresToFlush := ff\<rparr>)"
    | (ended) f where "f \<in> set (failuresInProgress m)" "failuresInProgress m' = remove1 f (failuresInProgress m)"
    | (same) "failuresInProgress m' = failuresInProgress m"
  using assms
proof (cases rule: manager_step.cases)
  case (flush)
  then show ?thesis using started same by (auto simp: flush_failure_def split: list.splits)
next
  case (failed r f)
  have "m = m\<lparr>failuresToFlush := failuresToFlush m\<rparr>" by simp
  then show ?thesis using failed started [of r f "failuresToFlush m"] same by (cases "candidateStartupState m = Starting") (simp_all add: on_recording_failed_def)
next
  case (found f now n)
  obtain r g where f: "f = (r, g)" by (cases f)
  show ?thesis by (rule ended [of f]) (use found in \<open>simp_all add: recordeds_found_def f case_prod_beta Let_def\<close>)
next
  case (found_rejected f)
  then show ?thesis using ended by (auto simp: recordeds_rejected_def)
next
  case (chain_runs)
  have "failuresInProgress (run_entry clk margin e m) = failuresInProgress m" for e m
    by (cases e) (simp_all add: applyScheduleMutation_def dispatchPreparation_def dispatchTimeSpecifiedEnd_def case_prod_beta Let_def
        split: option.split)
  then show ?thesis using chain_runs by (intro same) (simp add: run_chain_def split: list.split)
next
  case (startup_failed)
  then show ?thesis by (intro same) (simp add: failCandidateStartup_def Let_def fold_frame [where h = failuresInProgress])
next
  case (reset)
  then show ?thesis by (intro same) (simp add: resetTimer_def Let_def fold_frame [where h = failuresInProgress])
qed (auto intro!: same simp: rebuildCandidatesAndStart_def rows_are_read_def start_returns_def manager_acceptMutation_def
    provider_returns_def case_prod_beta Let_def on_preparation_ended_def on_finish_recording_def cancel_def deletion_terminal_def
    binding_requeue_def binding_transition_def binding_registerEnd_def binding_removeEnd_def split: option.split)

lemma claimed_flush [simp]: "claimed (m\<lparr>failuresToFlush := ff\<rparr>) k = claimed m k" "tidy (m\<lparr>failuresToFlush := ff\<rparr>) = tidy m"
  by (simp_all add: claimed_def tidy_def)

text \<open>A failure that is claimed and not being decided is never decided again.\<close>

lemma claimed_started:
  assumes "data_inv (sch m)" "tidy m" "claimed m k" "k \<notin> failure_key ` set (failuresInProgress m)"
  shows "k \<notin> failure_key ` set (failuresInProgress (processRecordingFailure r f m))"
  using processRecordingFailure_cases [OF assms(1,2), of r f] assms(3,4) by auto

lemma failures_step:
  assumes "manager_step clk margin m m'" "data_inv (sch m)" "tidy m"
  shows "failures_ok m \<Longrightarrow> failures_ok m'"
    and "claimed m k \<Longrightarrow> k \<notin> failure_key ` set (failuresInProgress m) \<Longrightarrow> k \<notin> failure_key ` set (failuresInProgress m')"
proof -
  have keep: "claimed m' k" if "claimed m k" for k using claimed_keeps [OF keeps_step [OF assms(1)] assms(3) that] .
  show "failures_ok m'" if ok: "failures_ok m"
    using assms(1)
  proof (cases rule: failuresInProgress_step)
    case (started r f ff)
    let ?m = "m\<lparr>failuresToFlush := ff\<rparr>"
    have old: "distinct (map failure_key (failuresInProgress m))" "\<forall>f \<in> set (failuresInProgress m). claimed m (failure_key f)"
      using ok unfolding failures_ok_def by blast+
    have "failuresInProgress m' = failuresInProgress m \<or>
        (\<exists>g. failuresInProgress m' = failuresInProgress m @ [(r, g)] \<and> \<not> claimed m (failure_key (r, g)) \<and>
          claimed m' (failure_key (r, g)))"
      using processRecordingFailure_cases [of ?m r f] assms(2,3) unfolding started [symmetric] by auto
    then show ?thesis
    proof (elim disjE exE conjE)
      fix g assume g: "failuresInProgress m' = failuresInProgress m @ [(r, g)]" "\<not> claimed m (failure_key (r, g))"
        "claimed m' (failure_key (r, g))"
      have "failure_key (r, g) \<notin> failure_key ` set (failuresInProgress m)" using old(2) g(2) by (metis (no_types, lifting) imageE)
      then show ?thesis using old g keep unfolding failures_ok_def by auto
    qed (use ok keep in \<open>auto simp: failures_ok_def\<close>)
  next
    case (ended f)
    have "distinct (map failure_key (remove1 f xs))" if "distinct (map failure_key xs)" for xs
      using that by (induction xs) (auto dest: notin_set_remove1 simp: image_iff)
    then have "distinct (map failure_key (failuresInProgress m'))"
      using ok unfolding failures_ok_def ended(2) by blast
    moreover have "claimed m' (failure_key e)" if "e \<in> set (failuresInProgress m')" for e
      using ok keep that set_remove1_subset [of f "failuresInProgress m"] unfolding failures_ok_def ended(2) by blast
    ultimately show ?thesis unfolding failures_ok_def by blast
  qed (use ok keep in \<open>auto simp: failures_ok_def\<close>)
  show "k \<notin> failure_key ` set (failuresInProgress m')" if "claimed m k" "k \<notin> failure_key ` set (failuresInProgress m)"
    using assms(1)
  proof (cases rule: failuresInProgress_step)
    case (started r f ff)
    then show ?thesis using claimed_started [of "m\<lparr>failuresToFlush := ff\<rparr>" k r f] assms(2,3) that by simp
  next
    case (ended f)
    then show ?thesis using that(2) set_remove1_subset [of f "failuresInProgress m"] by fastforce
  qed (use that in simp)
qed

lemma managed_data: "managed clk margin m \<Longrightarrow> data_inv (sch m) \<and> tidy m"
  using managed_schedule scheduled_data by blast

lemma managed_step: "managed clk margin m \<Longrightarrow> manager_step clk margin m m' \<Longrightarrow> managed clk margin m'"
  unfolding managed_def by (rule rtranclp.rtrancl_into_rtrancl)

lemma managed_failures: "managed clk margin m \<Longrightarrow> failures_ok m"
proof (unfold managed_def, induction rule: rtranclp_induct)
  case base
  show ?case by (simp add: failures_ok_def new_manager_def)
next
  case (step y z)
  then show ?case using failures_step(1) managed_data [of clk margin y] by (simp add: managed_def)
qed

lemma claimed_for_good:
  assumes "(manager_step clk margin)\<^sup>*\<^sup>* m m'" "managed clk margin m" "claimed m k"
    "k \<notin> failure_key ` set (failuresInProgress m)"
  shows "managed clk margin m' \<and> claimed m' k \<and> k \<notin> failure_key ` set (failuresInProgress m')"
  using assms(1)
proof (induction rule: rtranclp_induct)
  case (step y z)
  then have y: "managed clk margin y" "claimed y k" "k \<notin> failure_key ` set (failuresInProgress y)" by simp_all
  then show ?case
    using managed_step [OF y(1) step(2)] claimed_keeps [OF keeps_step [OF step(2)] _ y(2)] managed_data [OF y(1)]
      failures_step(2) [OF step(2) _ _ y(2,3)] by blast
qed (use assms in simp)

text \<open>C31. The failure of a recording is decided at most once: when the query of the recorded programmes has
  answered or been rejected, no later step takes up a failure of the same reservation and generation again,
  however often the recorder reports it, until a change of the reservation has given it a new generation.\<close>

theorem failure_decided_once:
  assumes "managed clk margin m" "f \<in> set (failuresInProgress m)"
    and "decided = recordeds_found now n f m \<or> decided = recordeds_rejected f m"
    and "(manager_step clk margin)\<^sup>*\<^sup>* decided m'" "failure_key (r, g) = failure_key f"
  shows "failure_key f \<notin> failure_key ` set (failuresInProgress m') \<and>
    failuresInProgress (processRecordingFailure r (Some g) m') = failuresInProgress m'"
proof -
  have ok: "failures_ok m" by (rule managed_failures [OF assms(1)])
  have st: "manager_step clk margin m decided"
    using assms(2,3) manager_step.found [of f m clk margin now n] manager_step.found_rejected [of f m clk margin] by auto
  have c: "claimed decided (failure_key f)"
    using ok assms(2) claimed_keeps [OF keeps_step [OF st]] managed_data [OF assms(1)] unfolding failures_ok_def by blast
  have fp: "failuresInProgress decided = remove1 f (failuresInProgress m)"
    using assms(3) by (cases f) (auto simp: recordeds_found_def recordeds_rejected_def case_prod_beta Let_def)
  have "failure_key f \<notin> failure_key ` set (remove1 f xs)" if "distinct (map failure_key xs)" "f \<in> set xs" for xs
    using that by (induction xs) (auto simp: image_iff)
  then have n: "failure_key f \<notin> failure_key ` set (failuresInProgress decided)"
    using ok assms(2) unfolding failures_ok_def fp by blast
  note l = claimed_for_good [OF assms(4) managed_step [OF assms(1) st] c n]
  have "failuresInProgress (processRecordingFailure r (Some g) m') = failuresInProgress m'"
    using processRecordingFailure_cases [of m' r "Some g"] managed_data [of clk margin m'] l assms(5) by auto
  then show ?thesis using l by blast
qed

subsection \<open>A run\<close>

text \<open>At 86 seconds the manager starts with one reservation of 100 to 200 seconds: its recorder is made, its timer is
  set and its preparation begins; then the preparation fails.\<close>

definition demo_clk :: clock where
  "demo_clk = (\<lambda>_. 86000)"

definition demo_started :: manager where
  "demo_started = start_returns (rows_are_read demo_clk demo_clk [demo_row] (rebuildCandidatesAndStart new_manager))"

definition demo_called :: manager where
  "demo_called = run_chain demo_clk 5 demo_started"

definition demo_provided :: manager where
  "demo_provided = (case running_op demo_called of
     Some (Awaiting_provider md x c) \<Rightarrow> provider_returns True md x c demo_called | _ \<Rightarrow> demo_called)"

definition demo_prepared :: manager where
  "demo_prepared = run_chain demo_clk 5 demo_provided"

definition demo_failure :: failure_identity where
  "demo_failure = \<lparr>fi_reservationId = 7, fi_generation = 3, fi_sessionToken = 2, fi_reservation = demo_row, fi_isRetryable = True\<rparr>"

definition demo_failed :: manager where
  "demo_failed = on_recording_failed demo_row (Some demo_failure) demo_prepared"

lemma managed_new: "managed clk margin new_manager"
  by (simp add: managed_def)

lemma demo_managed: "managed demo_clk 5 demo_prepared" "managed demo_clk 5 demo_failed"
proof -
  let ?m = "rebuildCandidatesAndStart new_manager"
  have "managed demo_clk 5 ?m" by (rule managed_step [OF managed_new manager_step.rebuild_start])
  moreover have "stage ?m = Reading_rows" by (simp add: rebuildCandidatesAndStart_def new_manager_def)
  ultimately have "managed demo_clk 5 (rows_are_read demo_clk demo_clk [demo_row] ?m)"
    by (rule managed_step [OF _ manager_step.rows_read])
  moreover have "stage (rows_are_read demo_clk demo_clk [demo_row] ?m) = Awaiting_start" by (simp add: rows_are_read_def Let_def)
  ultimately have "managed demo_clk 5 demo_started" unfolding demo_started_def
    by (rule managed_step [OF _ manager_step.start_done])
  then have c: "managed demo_clk 5 demo_called" unfolding demo_called_def
    by (rule managed_step [OF _ manager_step.chain_runs])
  then have "managed demo_clk 5 demo_provided"
    using managed_step [OF c manager_step.provider] by (auto simp: demo_provided_def split: option.split running_operation.split)
  then show p: "managed demo_clk 5 demo_prepared" unfolding demo_prepared_def
    by (rule managed_step [OF _ manager_step.chain_runs])
  show "managed demo_clk 5 demo_failed" unfolding demo_failed_def
    by (rule managed_step [OF p manager_step.failed])
qed

lemma demo_values:
  "StartPreparation 0 7 2 \<in> set (calls demo_prepared)" "(demo_row, demo_failure) \<in> set (failuresInProgress demo_failed)"
  by code_simp+

theorem recorder_one_session_witness:
  "\<exists>row. filter (\<lambda>c. timer_of c = Some 0) (calls demo_prepared) = [SetTimer 0 7 2 row]"
  using recorder_one_session [OF demo_managed(1), of 0 7 2] by (simp add: demo_values)

theorem failure_decided_once_witness:
  "failure_key (demo_row, demo_failure) \<notin> failure_key `
     set (failuresInProgress (on_preparation_ended 7 (recordeds_found 86000 0 (demo_row, demo_failure) demo_failed))) \<and>
   failuresInProgress (processRecordingFailure demo_row (Some demo_failure)
     (on_preparation_ended 7 (recordeds_found 86000 0 (demo_row, demo_failure) demo_failed))) =
   failuresInProgress (on_preparation_ended 7 (recordeds_found 86000 0 (demo_row, demo_failure) demo_failed))"
proof (rule failure_decided_once [OF demo_managed(2) demo_values(2) disjI1 [OF refl] _ refl])
  show "(manager_step demo_clk 5)\<^sup>*\<^sup>* (recordeds_found 86000 0 (demo_row, demo_failure) demo_failed)
      (on_preparation_ended 7 (recordeds_found 86000 0 (demo_row, demo_failure) demo_failed))"
    by (rule r_into_rtranclp) (rule manager_step.preparation_ended)
qed

end
