(* ===== verification/Recording_Uses.thy ===== *)
theory Recording_Uses
  imports Recording_Facts
begin

text \<open>
  The recorded programmes the recording manager writes: while a recorder is registered for a programme no
  deletion of the programme gets a token, and \<open>written_until_end\<close> lists what may unregister it.
\<close>

subsection \<open>The programmes being written\<close>

text \<open>\<open>calm\<close>: the bookkeeping of the uses is untouched, and a recorder that is new in the index is a new object.\<close>

definition calm :: "manager \<Rightarrow> manager \<Rightarrow> bool" where
  "calm m m' \<longleftrightarrow> uses m' = uses m \<and> activeRecordedUseSessions m' = activeRecordedUseSessions m \<and>
     unknownRecordedUseSessions m' = unknownRecordedUseSessions m \<and> object_count m \<le> object_count m' \<and>
     (\<forall>i r. map_of (recordingIndex m') i = Some r \<longrightarrow>
        map_of (recordingIndex m) i = Some r \<or> object_count m \<le> r \<and> r < object_count m')"

definition use_part :: "manager \<Rightarrow> use_provider \<times> (nat, active_use) jsmap \<times> (int, nat) jsmap" where
  "use_part m = (uses m, activeRecordedUseSessions m, unknownRecordedUseSessions m)"

lemma calm_quiet: "quiet m m' \<Longrightarrow> use_part m' = use_part m \<Longrightarrow> calm m m'"
  unfolding quiet_def calm_def use_part_def by auto

lemma use_part_update [simp]:
  "use_part (m\<lparr>running_op := b\<rparr>) = use_part m" "use_part (m\<lparr>chain := es\<rparr>) = use_part m"
  "use_part (m\<lparr>stage := g\<rparr>) = use_part m" "use_part (m\<lparr>pendingStartupMutations := ps\<rparr>) = use_part m"
  "use_part (m\<lparr>scheduleStarted := b1\<rparr>) = use_part m" "use_part (m\<lparr>failuresInProgress := fs\<rparr>) = use_part m"
  "use_part (m\<lparr>retryOver := rs\<rparr>) = use_part m" "use_part (m\<lparr>failuresToFlush := ff\<rparr>) = use_part m"
  "use_part (m\<lparr>recordingFailureClaims := cl\<rparr>) = use_part m" "use_part (m\<lparr>deletionStops := st\<rparr>) = use_part m"
  "use_part (m\<lparr>candidateStartupState := ss\<rparr>) = use_part m" "use_part (m\<lparr>recordingIndex := idx\<rparr>) = use_part m"
  "use_part (m\<lparr>pendingStartupRecordingFailures := pf\<rparr>) = use_part m" "use_part (m\<lparr>recordingSessionTokens := tk\<rparr>) = use_part m"
  "use_part (m\<lparr>object_count := oc\<rparr>) = use_part m" "use_part (m\<lparr>startupRemovedReservationIds := sr\<rparr>) = use_part m"
  "use_part (with_schedule f m) = use_part m" "use_part (log_call c m) = use_part m"
  by (simp_all add: use_part_def)

lemma use_frames [simp]:
  "use_part (snd (snapshot i m)) = use_part m" "use_part (bindRecorder r x m) = use_part m"
  "use_part (deleteRecording i m) = use_part m" "use_part (flushPendingStartupMutations m) = use_part m"
  "use_part (forget_reservation i m) = use_part m" "use_part (ensureScheduleStarted clk m) = use_part m"
  "use_part (snd (isCurrentRecordingFailure f m)) = use_part m" "use_part (applyScheduleRemoval md m) = use_part m"
  "use_part (snd (isValidRecordingFailure row g m)) = use_part m"
  using bindRecorder_cases [of r x m]
  by (auto simp: snapshot_def deleteRecording_def flushPendingStartupMutations_def fold_frame [where h = use_part]
      forget_reservation_def ensureScheduleStarted_def isCurrentRecordingFailure_def isValidRecordingFailure_def applyScheduleRemoval_def
      case_prod_beta Let_def split: option.splits)

text \<open>Which uses are recorded where.\<close>

definition guarded :: "manager \<Rightarrow> bool" where
  "guarded m \<longleftrightarrow> use_ok (uses m) \<and>
     (\<forall>r a. map_of (activeRecordedUseSessions m) r = Some a \<longrightarrow> r < object_count m \<and>
        map_of (sessionUses (uses m)) r = Some (Tracked_active (au_use a) (au_recordedId a))) \<and>
     (\<forall>i x. map_of (unknownRecordedUseSessions m) i = Some x \<longrightarrow> x < object_count m \<and>
        map_of (activeRecordedUseSessions m) x = None \<and> (\<forall>j. map_of (recordingIndex m) j \<noteq> Some x)) \<and>
     (\<forall>i r. map_of (recordingIndex m) i = Some r \<longrightarrow> r < object_count m)"

lemma guarded_calm: "guarded m \<Longrightarrow> calm m m' \<Longrightarrow> guarded m'"
  unfolding guarded_def calm_def by (metis leD order_less_le_trans)


lemma calm_provider: "calm m (provider_returns b md x c m)"
  by (auto simp: calm_def provider_returns_def snapshot_def bindRecorder_def case_prod_beta Let_def split: option.split)

text \<open>The steps that do change the bookkeeping.\<close>

inductive use_change :: "manager \<Rightarrow> manager \<Rightarrow> bool" where
  start_preparation: "use_change m (observePreparingRecordedUse i m)"
| start_recording: "isRecordedUseId recordedId \<Longrightarrow> use_change m (observeActiveRecordedUse has_terminal i recordedId m)"
| preparation_ended: "use_change m (on_preparation_ended i m)"
| finish_recording: "isRecordedUseId recordedId \<Longrightarrow> \<not> isAwaitingNormalRecordedUseTerminal i recordedId m \<Longrightarrow>
    use_change m (on_finish_recording i recordedId m)"
| normal_end: "map_of (normalRecordedUseTerminals m) recorder = Some use \<Longrightarrow> use_change m (normal_terminal i recordedId recorder use m)"
| deletion_end: "map_of (deletionStops m) i = Some st \<Longrightarrow> use_change m (deletion_terminal i st m)"
| acquire_deletion: "use_change m (m\<lparr>uses := snd (recording_tryAcquireDeletion i (uses m))\<rparr>)"
| release_deletion: "use_change m (m\<lparr>uses := recording_releaseDeletion t (uses m)\<rparr>)"

lemma step_calm:
  assumes "managed clk margin m" "manager_step clk margin m m'"
  shows "calm m m' \<or> use_change m m'"
  using assms(2)
proof (cases rule: manager_step.cases)
  case (flush)
  have "calm m (processRecordingFailure r f (m\<lparr>failuresToFlush := ff\<rparr>))" for r f ff
    using quiet_processFailure [of "m\<lparr>failuresToFlush := ff\<rparr>" r f]
    by (intro calm_quiet) (simp_all add: processRecordingFailure_def case_prod_beta Let_def)
  moreover have "calm m m" by (rule calm_quiet) simp_all
  ultimately show ?thesis using flush by (auto simp: flush_failure_def split: list.split)
next
  case (failed r f)
  have "quiet m (m\<lparr>pendingStartupRecordingFailures := ps\<rparr>)" for ps by (rule quiet_same) simp_all
  then have "calm m (on_recording_failed r f m)"
    using quiet_processFailure [of m r f]
    by (intro calm_quiet) (simp_all add: on_recording_failed_def processRecordingFailure_def case_prod_beta Let_def)
  then show ?thesis using failed by simp
next
  case (chain_runs)
  have "use_part (run_entry clk margin e m) = use_part m" for e m
    by (cases e) (simp_all add: applyScheduleMutation_def dispatchPreparation_def dispatchTimeSpecifiedEnd_def case_prod_beta Let_def
        split: option.split)
  then have "use_part (run_chain clk margin m) = use_part m" by (simp add: run_chain_def split: list.split)
  then show ?thesis
    using chain_runs calm_quiet quiet_run_chain [OF recorders_indexed [OF managed_recorders [OF assms(1)]]] by simp
next
  case (startup_failed)
  have "use_part (failCandidateStartup m) = use_part m"
    by (simp add: failCandidateStartup_def Let_def fold_frame [where h = use_part])
  then show ?thesis using startup_failed calm_quiet quiet_failStartup by simp
next
  case (reset)
  have "use_part (resetTimer clk m) = use_part m"
    by (simp add: resetTimer_def Let_def fold_frame [where h = use_part])
  then show ?thesis using reset calm_quiet quiet_resetTimer by simp
next
  case (provider md x c timer_set)
  then show ?thesis using calm_provider by simp
next
  case (requeue x)
  have "quiet m (binding_requeue clk x m)" by (simp add: binding_requeue_def Let_def quiet_trans [OF quiet_with quiet_with])
  then have "calm m (binding_requeue clk x m)" by (rule calm_quiet) (simp add: binding_requeue_def Let_def)
  then show ?thesis using requeue by simp
next
  case (finish_recording j i)
  show ?thesis
  proof (cases "isAwaitingNormalRecordedUseTerminal i j m")
    case True
    then show ?thesis using finish_recording calm_quiet [OF quiet_delete [of m i]] by (simp add: on_finish_recording_def)
  qed (use finish_recording use_change.finish_recording in blast)
next
  case (normal_end i j r u)
  show ?thesis
  proof (cases "map_of (normalRecordedUseTerminals m) r = Some u")
    case False
    then have "m' = m" using normal_end by (simp add: normal_terminal_def)
    then show ?thesis using calm_quiet [of m m] by simp
  qed (use normal_end use_change.normal_end in blast)
next
  case (deletion_end i st)
  show ?thesis
  proof (cases "map_of (deletionStops m) i = Some st")
    case False
    then have "m' = m" using deletion_end by (simp add: deletion_terminal_def)
    then show ?thesis using calm_quiet [of m m] by simp
  qed (use deletion_end use_change.deletion_end in blast)
next
  case (cancel i b)
  have "use_part (cancel i b m) = use_part m" by (simp add: cancel_def Let_def split: option.split)
  then show ?thesis using cancel calm_quiet quiet_cancel by simp
next
  case (accept d)
  have "use_part (manager_acceptMutation clk d m) = use_part m" by (simp add: manager_acceptMutation_def split: option.split)
  then show ?thesis using accept calm_quiet quiet_accept by simp
next
  case (rows_read now rs)
  have "use_part (rows_are_read clk now rs m) = use_part m" by (simp add: rows_are_read_def Let_def)
  then show ?thesis using rows_read calm_quiet quiet_rows_read by simp
next
  case (start_done)
  have "use_part (start_returns m) = use_part (m\<lparr>scheduleStarted := True\<rparr>)"
    unfolding use_frames(4) [of "m\<lparr>scheduleStarted := True\<rparr>", symmetric] by (simp add: start_returns_def Let_def use_part_def)
  then show ?thesis using start_done calm_quiet quiet_start_returns by simp
next
  case (found f now n)
  have "use_part (recordeds_found now n f m) = use_part m" by (simp add: recordeds_found_def case_prod_beta Let_def)
  then show ?thesis using found calm_quiet quiet_found by simp
qed (auto intro: use_change.intros intro!: calm_quiet quiet_same simp: rebuildCandidatesAndStart_def
    recordeds_rejected_def binding_transition_def binding_registerEnd_def binding_removeEnd_def)


lemma guardedD:
  assumes "guarded m"
  shows "use_ok (uses m)" "map_of (activeRecordedUseSessions m) r = Some a \<Longrightarrow> r < object_count m"
    "map_of (activeRecordedUseSessions m) r = Some a \<Longrightarrow>
       map_of (sessionUses (uses m)) r = Some (Tracked_active (au_use a) (au_recordedId a))"
    "map_of (unknownRecordedUseSessions m) i = Some x \<Longrightarrow> x < object_count m"
    "map_of (unknownRecordedUseSessions m) i = Some x \<Longrightarrow> map_of (activeRecordedUseSessions m) x = None"
    "map_of (unknownRecordedUseSessions m) i = Some x \<Longrightarrow> map_of (recordingIndex m) j \<noteq> Some x"
    "map_of (recordingIndex m) i = Some r \<Longrightarrow> r < object_count m"
  using assms unfolding guarded_def by blast+

text \<open>Enough of the maps to be guarded again.\<close>

lemma guardedI:
  assumes "guarded m" "use_ok (uses m')" "object_count m \<le> object_count m'"
    and "\<And>r a. map_of (activeRecordedUseSessions m') r = Some a \<Longrightarrow>
      map_of (activeRecordedUseSessions m) r = Some a \<and> map_of (sessionUses (uses m')) r = map_of (sessionUses (uses m)) r"
    and "\<And>i x. map_of (unknownRecordedUseSessions m') i = Some x \<Longrightarrow> map_of (unknownRecordedUseSessions m) i = Some x"
    and "\<And>i r. map_of (recordingIndex m') i = Some r \<Longrightarrow> map_of (recordingIndex m) i = Some r"
  shows "guarded m'"
proof -
  note d = guardedD [OF assms(1)]
  show ?thesis unfolding guarded_def
  proof (intro conjI allI impI)
    fix r a assume r: "map_of (activeRecordedUseSessions m') r = Some a"
    show "r < object_count m'" using d(2) assms(3,4) r by (meson order_less_le_trans)
    show "map_of (sessionUses (uses m')) r = Some (Tracked_active (au_use a) (au_recordedId a))"
      using d(3) assms(4) [OF r] by simp
  next
    fix i x assume x: "map_of (unknownRecordedUseSessions m') i = Some x"
    show "x < object_count m'" using d(4) assms(3,5) x by (meson order_less_le_trans)
    show "map_of (activeRecordedUseSessions m') x = None" using d(5) [OF assms(5) [OF x]] assms(4) [of x] by fastforce
    show "map_of (recordingIndex m') j \<noteq> Some x" for j using d(6) [OF assms(5) [OF x]] assms(6) by blast
  next
    fix i r assume "map_of (recordingIndex m') i = Some r"
    then show "r < object_count m'" using d(7) assms(3,6) by (meson order_less_le_trans)
  qed (rule assms(2))
qed

lemma guarded_uses:
  assumes "guarded m" "use_ok p"
    "\<And>r. map_of (activeRecordedUseSessions m) r \<noteq> None \<Longrightarrow> map_of (sessionUses p) r = map_of (sessionUses (uses m)) r"
  shows "guarded (m\<lparr>uses := p\<rparr>)"
  by (rule guardedI [OF assms(1)]) (use assms in auto)

lemma release_sessions: "r \<noteq> x \<Longrightarrow> map_of (sessionUses (releaseSessionUse x e p)) r = map_of (sessionUses p) r"
  by (simp add: releaseSessionUse_def)

lemma guarded_drop_active [simp]:
  assumes "guarded m"
  shows "guarded (drop_active p m)"
proof -
  obtain r a where p: "p = (r, a)" by (cases p)
  show ?thesis
    by (rule guardedI [OF assms])
      (use guardedD(1) [OF assms] in \<open>auto simp: drop_active_def p release_use_def Let_def release_use_ok release_sessions split: if_splits\<close>)
qed

lemma guarded_drop_unknown [simp]:
  assumes "guarded m"
  shows "guarded (drop_unknown i m)"
proof (cases "map_of (unknownRecordedUseSessions m) i")
  case (Some x)
  have rel: "map_of (sessionUses (releaseSessionUse x None (uses m))) r = map_of (sessionUses (uses m)) r"
    if "map_of (activeRecordedUseSessions m) r = Some a" for r a
    using guardedD(5) [OF assms Some] that by (intro release_sessions) auto
  show ?thesis
    by (rule guardedI [OF assms])
      (use guardedD(1) [OF assms] rel Some in \<open>auto simp: drop_unknown_def release_use_def release_use_ok split: if_splits\<close>)
qed (simp add: drop_unknown_def assms)

lemma guarded_fold_drop [simp]: "guarded m \<Longrightarrow> guarded (fold drop_active ps m)"
  by (induction ps arbitrary: m) simp_all

lemma guarded_update [simp]:
  "guarded (m\<lparr>normalRecordedUseTerminals := nt\<rparr>) = guarded m" "guarded (m\<lparr>deletionStops := st\<rparr>) = guarded m"
  by (simp_all add: guarded_def)

lemma guarded_releases [simp]:
  assumes "guarded m"
  shows "guarded (releaseRecordedUse i j e m)" "guarded (releaseRecordedUsesForReservation i m)" "guarded (deleteRecording i m)"
  using assms guarded_calm [OF assms calm_quiet [OF quiet_delete]]
  by (auto simp: releaseRecordedUse_def releaseRecordedUsesForReservation_def Let_def split: option.split)

lemma guarded_preparing:
  assumes "guarded m"
  shows "guarded (observePreparingRecordedUse i m)"
proof (cases "map_of (recordingIndex m) i")
  case (Some r)
  have "guarded (m\<lparr>uses := snd (tryRegisterSessionUse r Preparing_use (uses m))\<rparr>)"
    if "map_of (activeRecordedUseSessions m) r = None"
    by (rule guarded_uses [OF assms register_ok [OF guardedD(1) [OF assms]]])
      (use that in \<open>auto simp: tryRegisterSessionUse_def\<close>)
  then show ?thesis using Some assms by (simp add: observePreparingRecordedUse_def hasActiveRecordedUse_def register_use_def case_prod_beta)
qed (simp add: observePreparingRecordedUse_def assms)


lemma guarded_observeActive:
  assumes "guarded m" "isRecordedUseId j"
  shows "guarded (observeActiveRecordedUse b i j m)"
proof (cases "map_of (recordingIndex m) i")
  case None
  define x where "x = (case map_of (unknownRecordedUseSessions m) i of Some x \<Rightarrow> x | None \<Rightarrow> object_count m)"
  define n where "n = (if map_of (unknownRecordedUseSessions m) i = None then object_count m + 1 else object_count m)"
  let ?p = "snd (tryRegisterSessionUse x Unknown_use (uses m))"
  note d = guardedD [OF assms(1)]
  have run: "observeActiveRecordedUse b i j m = m\<lparr>object_count := n,
      unknownRecordedUseSessions := map_set i x (unknownRecordedUseSessions m), uses := ?p\<rparr>"
    using None assms(2) by (simp add: observeActiveRecordedUse_def register_use_def case_prod_beta x_def n_def split: option.split)
  have fresh: "map_of (activeRecordedUseSessions m) (object_count m) = None"
    using d(2) [of "object_count m"] by (cases "map_of (activeRecordedUseSessions m) (object_count m)") auto
  have x: "x < n" "map_of (activeRecordedUseSessions m) x = None" "map_of (recordingIndex m) k \<noteq> Some x" for k
    using fresh d(7) [of k x] d(4-6) [of i x] by (auto simp: x_def n_def split: option.splits)
  have "map_of (sessionUses ?p) r = map_of (sessionUses (uses m)) r" if "r \<noteq> x" for r
    using that by (simp add: tryRegisterSessionUse_def)
  then have "guarded (m\<lparr>uses := ?p\<rparr>)"
    using x(2) by (intro guarded_uses [OF assms(1) register_ok [OF d(1)]]) metis
  moreover have "k < object_count m \<Longrightarrow> k < n" for k by (simp add: n_def)
  ultimately show ?thesis using x unfolding run guarded_def by auto
next
  case (Some r)
  let ?u = "object_count m" and ?p = "tryRegisterSessionUse r (Active_use (object_count m) j) (uses m)"
  note d = guardedD [OF assms(1)]
  have g0: "guarded (m\<lparr>object_count := ?u + 1\<rparr>)" by (rule guardedI [OF assms(1)]) (use d(1) in auto)
  show ?thesis
  proof (cases "fst ?p = Registered")
    case False
    then have "snd ?p = uses m" by (simp add: tryRegisterSessionUse_def split: if_splits)
    then show ?thesis using False Some assms(2) g0
      by (simp add: observeActiveRecordedUse_def register_use_def case_prod_beta Let_def)
  next
    case True
    let ?m1 = "m\<lparr>object_count := ?u + 1, uses := snd ?p,
      unknownRecordedUseSessions := map_delete i (unknownRecordedUseSessions m)\<rparr>"
    let ?m2 = "case map_of (unknownRecordedUseSessions m) i of None \<Rightarrow> ?m1 | Some x \<Rightarrow> if x \<noteq> r then release_use x None ?m1 else ?m1"
    let ?m3 = "?m2\<lparr>activeRecordedUseSessions := map_set r \<lparr>au_recordedId = j, au_use = ?u, au_reservationId = i\<rparr> (activeRecordedUseSessions m)\<rparr>"
    have run: "observeActiveRecordedUse b i j m = (if b then ?m3\<lparr>normalRecordedUseTerminals := map_set r ?u (normalRecordedUseTerminals m)\<rparr> else ?m3)"
      using True Some assms(2)
      by (simp add: observeActiveRecordedUse_def register_use_def release_use_def case_prod_beta Let_def split: option.split)
    have p: "use_ok (snd ?p)" "sessionUses (snd ?p) = map_set r (Tracked_active ?u j) (sessionUses (uses m))"
      by (rule register_ok [OF d(1)]) (use True in \<open>simp add: tryRegisterSessionUse_def split: if_splits\<close>)
    have same: "object_count ?m2 = ?u + 1" "activeRecordedUseSessions ?m2 = activeRecordedUseSessions m"
      "unknownRecordedUseSessions ?m2 = map_delete i (unknownRecordedUseSessions m)" "recordingIndex ?m2 = recordingIndex m"
      "use_ok (uses ?m2)"
      using p(1) by (simp_all add: release_use_def release_use_ok split: option.split)
    have s: "map_of (sessionUses (uses ?m2)) q = (if q = r then Some (Tracked_active ?u j) else map_of (sessionUses (uses m)) q)"
      if "q = r \<or> map_of (activeRecordedUseSessions m) q \<noteq> None" for q
      using that d(5) [of i] by (auto simp: release_use_def releaseSessionUse_def p(2) split: option.splits)
    have "guarded ?m3" unfolding guarded_def
      using same s d Some by (auto simp: less_Suc_eq split: if_splits)
    then show ?thesis using run by simp
  qed
qed

lemma guarded_change:
  assumes "use_change m m'" "guarded m"
  shows "guarded m'"
  using assms
proof (induction rule: use_change.induct)
  case (acquire_deletion m i)
  then show ?case
    by (intro guarded_uses) (simp_all add: guardedD(1) recording_acquire_ok, simp add: recording_tryAcquireDeletion_def Let_def split: option.split)
next
  case (release_deletion m t)
  then show ?case
    by (intro guarded_uses) (simp_all add: guardedD(1) recording_release_cases(2), simp add: recording_releaseDeletion_def split: option.split)
qed (auto simp: guarded_preparing guarded_observeActive on_preparation_ended_def on_finish_recording_def normal_terminal_def deletion_terminal_def)

lemma managed_guarded: "managed clk margin m \<Longrightarrow> guarded m"
proof (unfold managed_def, induction rule: rtranclp_induct)
  case base
  show ?case by (simp add: guarded_def new_manager_def use_ok_def new_use_provider_def)
next
  case (step y z)
  then show ?case using step_calm [OF step(1) [folded managed_def] step(2)] guarded_calm guarded_change by blast
qed

lemma active_entry: "keys_ok m \<Longrightarrow> find P m = Some (r, a) \<Longrightarrow> map_of m r = Some a \<and> P (r, a)"
  by (auto simp: find_Some_iff in_map [symmetric])

lemma active_fold_drop: "map_of (activeRecordedUseSessions (fold drop_active ps m)) r =
    (if r \<in> fst ` set ps then None else map_of (activeRecordedUseSessions m) r)"
proof (induction ps arbitrary: m)
  case (Cons p ps)
  have "activeRecordedUseSessions (drop_active p m) = map_delete (fst p) (activeRecordedUseSessions m)"
    by (simp add: drop_active_def release_use_def case_prod_beta Let_def)
  then show ?case by (auto simp: Cons)
qed simp

lemma active_keys_fold: "keys_ok (activeRecordedUseSessions m) \<Longrightarrow> keys_ok (activeRecordedUseSessions (fold drop_active ps m))"
  by (induction ps arbitrary: m) (simp_all add: drop_active_def release_use_def case_prod_beta Let_def)

lemma active_update [simp]:
  "activeRecordedUseSessions (deleteRecording i m) = activeRecordedUseSessions m"
  "activeRecordedUseSessions (observePreparingRecordedUse i m) = activeRecordedUseSessions m"
  "activeRecordedUseSessions (drop_active p m) = map_delete (fst p) (activeRecordedUseSessions m)"
  by (simp_all add: deleteRecording_def observePreparingRecordedUse_def register_use_def drop_active_def release_use_def
      case_prod_beta Let_def split: option.split)

lemma active_observe:
  "activeRecordedUseSessions (observeActiveRecordedUse b i j m) = activeRecordedUseSessions m \<or>
   (\<exists>r a. map_of (recordingIndex m) i = Some r \<and>
      activeRecordedUseSessions (observeActiveRecordedUse b i j m) = map_set r a (activeRecordedUseSessions m))"
  by (cases "map_of (recordingIndex m) i")
    (auto simp: observeActiveRecordedUse_def register_use_def release_use_def case_prod_beta Let_def split: option.splits)

lemma active_release:
  "activeRecordedUseSessions (releaseRecordedUse i j e m) = activeRecordedUseSessions m \<or>
   (\<exists>r a. activeRecordedUseSessions (releaseRecordedUse i j e m) = map_delete r (activeRecordedUseSessions m) \<and>
      (case e of None \<Rightarrow> findActiveRecordedUse i j m = Some (r, a)
       | Some (x, u) \<Rightarrow> x = r \<and> map_of (activeRecordedUseSessions m) r = Some a \<and> au_use a = u))"
  by (auto simp: releaseRecordedUse_def Let_def split: option.splits if_splits)

lemma managed_active: "managed clk margin m \<Longrightarrow> keys_ok (activeRecordedUseSessions m)"
proof (unfold managed_def, induction rule: rtranclp_induct)
  case base
  show ?case by (simp add: new_manager_def)
next
  case (step y z)
  from step(2) consider "calm y z" | "use_change y z" using step_calm [OF step(1) [folded managed_def]] by blast
  then show ?case
  proof cases
    case 2
    then show ?thesis using step(3)
    proof (induction rule: use_change.induct)
      case (start_recording j m b i)
      then show ?case using active_observe [of b i j m] by auto
    next
      case (finish_recording j i m)
      then show ?case using active_release [of i j None m] by (auto simp: on_finish_recording_def)
    next
      case (normal_end m r u i j)
      then show ?case using active_release [of i j "Some (r, u)" "m\<lparr>normalRecordedUseTerminals := map_delete r (normalRecordedUseTerminals m)\<rparr>"]
        by (auto simp: normal_terminal_def)
    qed (simp_all add: on_preparation_ended_def deletion_terminal_def releaseRecordedUsesForReservation_def active_keys_fold)
  qed (use step(3) in \<open>simp add: calm_def\<close>)
qed

text \<open>C32. A programme that is being written cannot be deleted: while the manager has a recorder registered for a
  recorded programme, the recording side refuses every deletion of it and no deletion holds it.\<close>

theorem written_programme_protected:
  assumes "managed clk margin m" "map_of (activeRecordedUseSessions m) r = Some a"
  shows "fst (recording_tryAcquireDeletion (au_recordedId a) (uses m)) \<in> {Busy, UnknownUse} \<and>
    recording_held (uses m) (au_recordedId a) = None"
proof -
  note g = managed_guarded [OF assms(1)]
  have "Tracked_active (au_use a) (au_recordedId a) \<in> snd ` set (sessionUses (uses m))"
    using map_of_SomeD [OF guardedD(3) [OF g assms(2)]] by force
  then have u: "au_recordedId a \<in> recording_used (uses m)" unfolding recording_used_def by auto
  have "fst (recording_tryAcquireDeletion (au_recordedId a) (uses m)) \<noteq> Token t" for t
    using acquire_granted(2) [of "au_recordedId a" "uses m" t] u by (metis prod.collapse)
  moreover have "recording_held (uses m) (au_recordedId a) = None"
    using recording_gate.excluded [OF guardedD(1) [OF g]] u by (cases "recording_held (uses m) (au_recordedId a)") auto
  ultimately show ?thesis by (cases "fst (recording_tryAcquireDeletion (au_recordedId a) (uses m))") auto
qed


text \<open>Which entries the ends of a recording take.\<close>

lemma dropped_reservation:
  assumes "keys_ok (activeRecordedUseSessions m)" "map_of (activeRecordedUseSessions m) r = Some a"
    and "map_of (activeRecordedUseSessions (releaseRecordedUsesForReservation i m)) r \<noteq> Some a"
  shows "au_reservationId a = i"
proof -
  have "r \<in> fst ` set (filter (\<lambda>p. au_reservationId (snd p) = i) (activeRecordedUseSessions m))"
    using assms(2,3) by (auto simp: releaseRecordedUsesForReservation_def active_fold_drop split: if_splits)
  then obtain b where b: "(r, b) \<in> set (activeRecordedUseSessions m)" "au_reservationId b = i" by auto
  then have "b = a" using assms(2) in_map [OF assms(1)] by simp
  then show ?thesis using b(2) by simp
qed

lemma dropped_entry:
  assumes "keys_ok (activeRecordedUseSessions m)" "map_of (activeRecordedUseSessions m) r = Some a"
    and "map_of (activeRecordedUseSessions (releaseRecordedUse i j e m)) r \<noteq> Some a"
  shows "case e of None \<Rightarrow> au_reservationId a = i \<and> au_recordedId a = j | Some (x, u) \<Rightarrow> x = r \<and> u = au_use a"
proof -
  obtain x b where x: "activeRecordedUseSessions (releaseRecordedUse i j e m) = map_delete x (activeRecordedUseSessions m)"
    "case e of None \<Rightarrow> findActiveRecordedUse i j m = Some (x, b)
      | Some (y, u) \<Rightarrow> y = x \<and> map_of (activeRecordedUseSessions m) x = Some b \<and> au_use b = u"
    using active_release [of i j e m] assms(2,3) by auto
  have r: "x = r" using assms(2,3) unfolding x(1) by (auto split: if_splits)
  show ?thesis
  proof (cases e)
    case None
    then have "findActiveRecordedUse i j m = Some (x, b)" using x(2) by simp
    then show ?thesis using active_entry [OF assms(1), of _ x b] assms(2) r None unfolding findActiveRecordedUse_def by fastforce
  qed (use x(2) r assms(2) in auto)
qed

text \<open>A programme stays registered until its recording is over: the entry of a recorder goes only when the
  preparation of its reservation is given up, when the end of that recording is reported and no normal terminal is
  awaited, when the awaited terminal of exactly this use comes, when the deletion that stopped the recorder has ended,
  or when the same recorder starts to write again.\<close>

theorem written_until_end:
  assumes "managed clk margin m" "manager_step clk margin m m'"
    and "map_of (activeRecordedUseSessions m) r = Some a" "map_of (activeRecordedUseSessions m') r \<noteq> Some a"
  shows "m' = on_preparation_ended (au_reservationId a) m \<or>
    m' = on_finish_recording (au_reservationId a) (au_recordedId a) m \<and>
      \<not> isAwaitingNormalRecordedUseTerminal (au_reservationId a) (au_recordedId a) m \<or>
    (\<exists>i j. m' = normal_terminal i j r (au_use a) m \<and> map_of (normalRecordedUseTerminals m) r = Some (au_use a)) \<or>
    (\<exists>st. m' = deletion_terminal (au_reservationId a) st m \<and> map_of (deletionStops m) (au_reservationId a) = Some st) \<or>
    (\<exists>b i j. m' = observeActiveRecordedUse b i j m \<and> map_of (recordingIndex m) i = Some r)"
proof -
  note keys = managed_active [OF assms(1)]
  have "\<not> calm m m'" using assms(3,4) by (auto simp: calm_def)
  then have "use_change m m'" using step_calm [OF assms(1,2)] by blast
  then show ?thesis
  proof cases
    case (start_recording j b i)
    then have "map_of (recordingIndex m) i = Some r"
      using active_observe [of b i j m] assms(3,4) by (auto split: if_splits)
    then show ?thesis using start_recording by blast
  next
    case (preparation_ended i)
    then show ?thesis using dropped_reservation [OF keys assms(3), of i] assms(4) by (simp add: on_preparation_ended_def)
  next
    case (finish_recording j i)
    then show ?thesis using dropped_entry [OF keys assms(3), of i j None] assms(4) by (simp add: on_finish_recording_def)
  next
    case (normal_end q u i j)
    let ?m1 = "m\<lparr>normalRecordedUseTerminals := map_delete q (normalRecordedUseTerminals m)\<rparr>"
    have "q = r \<and> u = au_use a"
      using dropped_entry [of ?m1 r a i j "Some (q, u)"] keys assms(3,4) normal_end by (simp add: normal_terminal_def)
    then show ?thesis using normal_end by blast
  next
    case (deletion_end i st)
    then show ?thesis
      using dropped_reservation [of "m\<lparr>deletionStops := map_delete i (deletionStops m)\<rparr>" r a i] keys assms(3,4)
      by (simp add: deletion_terminal_def)
  qed (use assms(3,4) in simp_all)
qed

subsection \<open>A run\<close>

definition demo_written :: manager where
  "demo_written = observeActiveRecordedUse True 7 40 demo_prepared"

lemma demo_written_managed: "managed demo_clk 5 demo_written"
  unfolding demo_written_def
  by (rule managed_step [OF demo_managed(1) manager_step.start_recording]) (simp add: isRecordedUseId_def)

lemma demo_written_values:
  "map_of (activeRecordedUseSessions demo_written) 0 = Some \<lparr>au_recordedId = 40, au_use = 1, au_reservationId = 7\<rparr>"
  "map_of (activeRecordedUseSessions (on_preparation_ended 7 demo_written)) 0 = None"
  by code_simp+

theorem written_programme_protected_witness:
  "fst (recording_tryAcquireDeletion 40 (uses demo_written)) \<in> {Busy, UnknownUse} \<and>
   recording_held (uses demo_written) 40 = None"
  using written_programme_protected [OF demo_written_managed demo_written_values(1)] by simp

theorem written_until_end_witness:
  "map_of (activeRecordedUseSessions (on_preparation_ended 7 demo_written)) 0 = None \<and>
   (on_preparation_ended 7 demo_written = on_preparation_ended 7 demo_written \<or>
    on_preparation_ended 7 demo_written = on_finish_recording 7 40 demo_written \<and>
      \<not> isAwaitingNormalRecordedUseTerminal 7 40 demo_written \<or>
    (\<exists>i j. on_preparation_ended 7 demo_written = normal_terminal i j 0 1 demo_written \<and>
      map_of (normalRecordedUseTerminals demo_written) 0 = Some 1) \<or>
    (\<exists>st. on_preparation_ended 7 demo_written = deletion_terminal 7 st demo_written \<and>
      map_of (deletionStops demo_written) 7 = Some st) \<or>
    (\<exists>b i j. on_preparation_ended 7 demo_written = observeActiveRecordedUse b i j demo_written \<and>
      map_of (recordingIndex demo_written) i = Some 0))"
proof -
  have "map_of (activeRecordedUseSessions (on_preparation_ended 7 demo_written)) 0 \<noteq>
      Some \<lparr>au_recordedId = 40, au_use = 1, au_reservationId = 7\<rparr>"
    by (simp add: demo_written_values(2))
  note w = written_until_end [OF demo_written_managed manager_step.preparation_ended demo_written_values(1) this]
  show ?thesis by (rule conjI [OF demo_written_values(2)]) (use w in \<open>simp only: active_use.select_convs\<close>)
qed

end
