(* ===== verification/Encode_Queue.thy ===== *)
theory Encode_Queue
  imports Complex_Main Js_Map
begin

text \<open>
  \<open>EncodeQueueStore\<close> (\<open>src/src/model/operator/encode/EncodeQueueStore.ts\<close>), the record of
  the encode requests in the table \<open>encode_queue\<close>: it assigns the ids and keeps what the table holds in
  memory. Its operations run one after the other (\<open>run\<close>), so each is one step; every call of the table may
  be rejected, and then changes nothing. A restart keeps the table and nothing else. The lemmas show the order of
  acceptance, which survives the wrap of the ids, that a restart loses no request, that ids are never given twice, and
  that whatever the table holds only well-typed requests come out.
\<close>

subsection \<open>Values and rows\<close>

text \<open>What \<open>JSON.parse\<close> returns.\<close>

datatype json = JNull | JBool bool | JNum rat | JStr string | JArr "json list" | JObj "(string, json) jsmap"

text \<open>A row; \<open>q_option\<close> is the column \<open>option\<close> as \<open>JSON.parse\<close> reads it, \<open>None\<close> when it throws.
  \<open>JSON.parse\<close> of the text that \<open>JSON.stringify\<close> makes of a JSON value is that value, so an inserted row
  holds the value of the request.\<close>

record queue_row =
  q_id :: int
  q_option :: "json option"
  q_outputPath :: "string option"
  q_createdAt :: int

record queue_record =
  r_id :: int
  r_option :: json
  r_outputPath :: "string option"
  r_createdAt :: int

record encode_store =
  table :: "queue_row list"
  db_calls :: nat
  records :: "(int, queue_record) jsmap"
  blockedIds :: "int list"
  requestTokens :: "(string, int) jsmap"
  nextId :: int
  isLoaded :: bool
  sent_requests :: "(int \<times> json) list"

definition new_store :: "queue_row list \<Rightarrow> encode_store" where
  "new_store rows = \<lparr>table = rows, db_calls = 0, records = [], blockedIds = [], requestTokens = [], nextId = 1,
     isLoaded = False, sent_requests = []\<rparr>"

text \<open>A new process finds the table as it is.\<close>

definition restart :: "encode_store \<Rightarrow> encode_store" where
  "restart s = s\<lparr>records := [], blockedIds := [], requestTokens := [], nextId := 1, isLoaded := False\<rparr>"

subsection \<open>Ids\<close>

definition advance :: "int \<Rightarrow> int" where
  "advance encodeId = (if encodeId = MAX_SAFE_INTEGER then 1 else encodeId + 1)"

text \<open>The loop of \<open>orderByAcceptance\<close> from index \<open>i\<close>, with \<open>largestGap\<close> and \<open>largestGapIndex\<close>.\<close>

fun gap_loop :: "int list \<Rightarrow> nat \<Rightarrow> int \<Rightarrow> nat \<Rightarrow> nat" where
  "gap_loop (a # b # xs) i largestGap largestGapIndex =
     (let gap = b - a
      in if gap > largestGap then gap_loop (b # xs) (Suc i) gap i
         else gap_loop (b # xs) (Suc i) largestGap largestGapIndex)"
| "gap_loop xs i largestGap largestGapIndex = largestGapIndex"

definition orderByAcceptance :: "int list \<Rightarrow> int list" where
  "orderByAcceptance xs =
     (let ss = sort xs
      in if length ss \<le> 1 then ss
         else let largestGapIndex = gap_loop ss 0 (MAX_SAFE_INTEGER - last ss + hd ss) (length ss - 1);
                  start = (largestGapIndex + 1) mod length ss
              in drop start ss @ take start ss)"

text \<open>The search for a free id does not end when every id is taken, hence the option.\<close>

partial_function (option) find_free :: "(int \<Rightarrow> bool) \<Rightarrow> int \<Rightarrow> int option" where
  "find_free taken encodeId = (if taken encodeId then find_free taken (advance encodeId) else Some encodeId)"

declare find_free.simps [code]

subsection \<open>Reading a row\<close>

definition is_num :: "json option \<Rightarrow> bool" where
  "is_num v = (case v of Some (JNum x) \<Rightarrow> True | _ \<Rightarrow> False)"

definition is_str :: "json option \<Rightarrow> bool" where
  "is_str v = (case v of Some (JStr x) \<Rightarrow> True | _ \<Rightarrow> False)"

definition is_bool :: "json option \<Rightarrow> bool" where
  "is_bool v = (case v of Some (JBool x) \<Rightarrow> True | _ \<Rightarrow> False)"

definition isAddEncodeProgramOption :: "json \<Rightarrow> bool" where
  "isAddEncodeProgramOption v = (case v of
     JObj fs \<Rightarrow>
       is_num (map_of fs ''recordedId'') \<and> is_num (map_of fs ''sourceVideoFileId'') \<and> is_str (map_of fs ''parentDir'') \<and>
       (map_of fs ''directory'' = None \<or> is_str (map_of fs ''directory'')) \<and>
       is_str (map_of fs ''mode'') \<and> is_bool (map_of fs ''removeOriginal'')
   | _ \<Rightarrow> False)"

definition isSafeInteger :: "int \<Rightarrow> bool" where
  "isSafeInteger i = (- MAX_SAFE_INTEGER \<le> i \<and> i \<le> MAX_SAFE_INTEGER)"

definition parseRow :: "queue_row \<Rightarrow> queue_record option" where
  "parseRow row =
     (if \<not> isSafeInteger (q_id row) \<or> q_id row < 1 then None
      else case q_option row of
        None \<Rightarrow> None
      | Some value \<Rightarrow>
          if \<not> isAddEncodeProgramOption value then None
          else Some \<lparr>r_id = q_id row, r_option = value, r_outputPath = q_outputPath row, r_createdAt = q_createdAt row\<rparr>)"

subsection \<open>The table\<close>

datatype queue_call = InsertRow queue_row | UpdateOutput int string | DeleteRow int | FindAll

text \<open>\<open>rejects n c\<close>: the \<open>n\<close>-th call of the table is rejected. An insert with a primary key that exists is
  always rejected. A call stands for all attempts of \<open>PromiseRetry.run\<close> together: it takes effect once or, when the
  last attempt is rejected as well, not at all; a statement that took effect although its answer got lost is not
  represented. \<open>Number(row.id)\<close> and \<open>Number(row.createdAt)\<close> read the integers of the
  columns.\<close>

type_synonym rejections = "nat \<Rightarrow> queue_call \<Rightarrow> bool"

definition db_run :: "rejections \<Rightarrow> queue_call \<Rightarrow> encode_store \<Rightarrow> bool \<times> encode_store" where
  "db_run rejects c s =
     (let s1 = s\<lparr>db_calls := db_calls s + 1\<rparr>
      in if rejects (db_calls s) c then (False, s1)
         else case c of
           InsertRow row \<Rightarrow>
             if q_id row \<in> set (map q_id (table s)) then (False, s1) else (True, s1\<lparr>table := table s @ [row]\<rparr>)
         | UpdateOutput i p \<Rightarrow>
             (True, s1\<lparr>table := map (\<lambda>r. if q_id r = i then r\<lparr>q_outputPath := Some p\<rparr> else r) (table s)\<rparr>)
         | DeleteRow i \<Rightarrow> (True, s1\<lparr>table := filter (\<lambda>r. q_id r \<noteq> i) (table s)\<rparr>)
         | FindAll \<Rightarrow> (True, s1))"

subsection \<open>Operations\<close>

text \<open>The loop of \<open>load\<close> over the rows, with the records and the blocked ids found so far.\<close>

fun load_rows :: "rejections \<Rightarrow> queue_row list \<Rightarrow> (int, queue_record) jsmap \<Rightarrow> int list \<Rightarrow> encode_store \<Rightarrow>
    (int, queue_record) jsmap \<times> int list \<times> encode_store" where
  "load_rows rejects [] recs blocked s = (recs, blocked, s)"
| "load_rows rejects (row # rows) recs blocked s = (case parseRow row of
     Some r \<Rightarrow> load_rows rejects rows (map_set (r_id r) r recs) blocked s
   | None \<Rightarrow>
       let (deleted, s1) = db_run rejects (DeleteRow (q_id row)) s
       in load_rows rejects rows recs
            (if \<not> deleted \<and> isSafeInteger (q_id row) \<and> q_id row \<ge> 1 then set_add blocked (q_id row) else blocked) s1)"

definition load :: "rejections \<Rightarrow> encode_store \<Rightarrow> unit result \<times> encode_store" where
  "load rejects s =
     (if isLoaded s then (Inr (), s)
      else let (found, s1) = db_run rejects FindAll s
           in if \<not> found then (Inl DbFailure, s1)
              else let (recs, blocked, s2) = load_rows rejects (sort_key q_id (table s1)) [] [] s1;
                       ordered = orderByAcceptance (map fst recs)
                   in (Inr (), s2\<lparr>records := recs, blockedIds := blocked,
                        nextId := (if length ordered = 0 then 1 else advance (last ordered)), isLoaded := True\<rparr>))"

definition addRecord :: "rejections \<Rightarrow> int \<Rightarrow> json \<Rightarrow> encode_store \<Rightarrow> (int result \<times> encode_store) option" where
  "addRecord rejects now opt s =
     (case find_free (\<lambda>i. i \<in> set (map fst (records s)) \<or> i \<in> set (blockedIds s)) (nextId s) of
        None \<Rightarrow> None
      | Some encodeId \<Rightarrow>
          (let r = \<lparr>r_id = encodeId, r_option = opt, r_outputPath = None, r_createdAt = now\<rparr>;
               (inserted, s1) = db_run rejects (InsertRow \<lparr>q_id = r_id r, q_option = Some (r_option r),
                 q_outputPath = r_outputPath r, q_createdAt = r_createdAt r\<rparr>) s
           in if \<not> inserted then Some (Inl DbFailure, s1)
              else Some (Inr encodeId, s1\<lparr>records := map_set encodeId r (records s1), nextId := advance encodeId\<rparr>)))"

definition deleteRecord :: "rejections \<Rightarrow> int \<Rightarrow> encode_store \<Rightarrow> unit result \<times> encode_store" where
  "deleteRecord rejects encodeId s =
     (let (deleted, s1) = db_run rejects (DeleteRow encodeId) s
      in if \<not> deleted then (Inl DbFailure, s1)
         else (Inr (), s1\<lparr>records := map_delete encodeId (records s1),
                          requestTokens := filter (\<lambda>p. snd p \<noteq> encodeId) (requestTokens s1)\<rparr>))"

text \<open>\<open>run\<close>: the records are read before the first task.\<close>

definition run_task :: "rejections \<Rightarrow> (encode_store \<Rightarrow> ('a result \<times> encode_store) option) \<Rightarrow> encode_store \<Rightarrow>
    ('a result \<times> encode_store) option" where
  "run_task rejects task s = (case load rejects s of
     (Inl e, s1) \<Rightarrow> Some (Inl e, s1) | (Inr u, s1) \<Rightarrow> task s1)"

definition add_request :: "rejections \<Rightarrow> int \<Rightarrow> json \<Rightarrow> string option \<Rightarrow> encode_store \<Rightarrow> (int result \<times> encode_store) option" where
  "add_request rejects now opt requestToken =
     run_task rejects (\<lambda>s. case addRecord rejects now opt s of
         None \<Rightarrow> None
       | Some (Inl e, s1) \<Rightarrow> Some (Inl e, s1)
       | Some (Inr encodeId, s1) \<Rightarrow>
           Some (Inr encodeId, case requestToken of None \<Rightarrow> s1
             | Some t \<Rightarrow> s1\<lparr>requestTokens := map_set t encodeId (requestTokens s1)\<rparr>))"

definition abandon :: "rejections \<Rightarrow> string \<Rightarrow> encode_store \<Rightarrow> (unit result \<times> encode_store) option" where
  "abandon rejects requestToken =
     run_task rejects (\<lambda>s. Some (case map_of (requestTokens s) requestToken of
         None \<Rightarrow> (Inr (), s) | Some encodeId \<Rightarrow> deleteRecord rejects encodeId s))"

definition updateOutputPath :: "rejections \<Rightarrow> int \<Rightarrow> string \<Rightarrow> encode_store \<Rightarrow> (unit result \<times> encode_store) option" where
  "updateOutputPath rejects encodeId outputPath =
     run_task rejects (\<lambda>s.
       let (updated, s1) = db_run rejects (UpdateOutput encodeId outputPath) s
       in Some (if \<not> updated then (Inl DbFailure, s1)
          else (Inr (), case map_of (records s1) encodeId of None \<Rightarrow> s1
            | Some r \<Rightarrow> s1\<lparr>records := map_set encodeId (r\<lparr>r_outputPath := Some outputPath\<rparr>) (records s1)\<rparr>)))"

definition remove_request :: "rejections \<Rightarrow> int \<Rightarrow> encode_store \<Rightarrow> (unit result \<times> encode_store) option" where
  "remove_request rejects encodeId = run_task rejects (\<lambda>s. Some (deleteRecord rejects encodeId s))"

definition listed :: "encode_store \<Rightarrow> queue_record list" where
  "listed s = map (\<lambda>i. the (map_of (records s) i)) (orderByAcceptance (map fst (records s)))"

definition list_requests :: "rejections \<Rightarrow> encode_store \<Rightarrow> (queue_record list result \<times> encode_store) option" where
  "list_requests rejects = run_task rejects (\<lambda>s. Some (Inr (listed s), s))"

text \<open>\<open>enqueueFromRecording\<close> returns at once; this is what it puts into the chain. What \<open>send\<close> answers is only
  logged.\<close>

definition enqueueFromRecording :: "rejections \<Rightarrow> int \<Rightarrow> json \<Rightarrow> encode_store \<Rightarrow> (unit result \<times> encode_store) option" where
  "enqueueFromRecording rejects now opt =
     run_task rejects (\<lambda>s. case addRecord rejects now opt s of
         None \<Rightarrow> None
       | Some (Inl e, s1) \<Rightarrow> Some (Inr (), s1)
       | Some (Inr encodeId, s1) \<Rightarrow> Some (Inr (), s1\<lparr>sent_requests := sent_requests s1 @ [(encodeId, opt)]\<rparr>))"

text \<open>What may happen to the store. Requests come typed.\<close>

inductive store_step :: "encode_store \<Rightarrow> encode_store \<Rightarrow> bool" where
  add: "isAddEncodeProgramOption opt \<Longrightarrow> add_request rejects now opt t s = Some (res, s') \<Longrightarrow> store_step s s'"
| abandon: "abandon rejects t s = Some (res, s') \<Longrightarrow> store_step s s'"
| update: "updateOutputPath rejects i p s = Some (res, s') \<Longrightarrow> store_step s s'"
| remove: "remove_request rejects i s = Some (res, s') \<Longrightarrow> store_step s s'"
| list: "list_requests rejects s = Some (res, s') \<Longrightarrow> store_step s s'"
| enqueue: "isAddEncodeProgramOption opt \<Longrightarrow> enqueueFromRecording rejects now opt s = Some (res, s') \<Longrightarrow> store_step s s'"
| restart: "store_step s (restart s)"

subsection \<open>The order of acceptance\<close>

text \<open>The ids in the order in which they are given from \<open>base\<close> on.\<close>

definition nth_id :: "int \<Rightarrow> int \<Rightarrow> int" where
  "nth_id base d = (if base + d \<le> MAX_SAFE_INTEGER then base + d else base + d - MAX_SAFE_INTEGER)"

lemma gap_none: "(\<And>k. Suc k < length xs \<Longrightarrow> xs ! Suc k - xs ! k \<le> g) \<Longrightarrow> gap_loop xs i g n = n"
proof (induction xs i g n rule: gap_loop.induct)
  case (1 a b xs i g n)
  have "b - a \<le> g" using "1.prems" [of 0] by simp
  moreover have "(b # xs) ! Suc k - (b # xs) ! k \<le> g" if "Suc k < length (b # xs)" for k
    using "1.prems" [of "Suc k"] that by simp
  ultimately show ?case using "1.IH"(2) by (simp add: Let_def)
qed simp_all

lemma gap_found:
  assumes "Suc k < length xs" "g < xs ! Suc k - xs ! k"
    and "\<And>j. Suc j < length xs \<Longrightarrow> j \<noteq> k \<Longrightarrow> xs ! Suc j - xs ! j < xs ! Suc k - xs ! k"
  shows "gap_loop xs i g n = i + k"
  using assms
proof (induction xs i g n arbitrary: k rule: gap_loop.induct)
  case (1 a b xs i g n)
  show ?case
  proof (cases k)
    case 0
    have "(b # xs) ! Suc j - (b # xs) ! j \<le> b - a" if "Suc j < length (b # xs)" for j
      using "1.prems"(3) [of "Suc j"] that 0 by simp
    then have "gap_loop (b # xs) (Suc i) (b - a) i = i" by (rule gap_none)
    then show ?thesis using "1.prems"(2) 0 by (simp add: Let_def)
  next
    case (Suc l)
    have first: "b - a < (b # xs) ! Suc l - (b # xs) ! l" using "1.prems"(3) [of 0] Suc by simp
    have l: "Suc l < length (b # xs)" "g < (b # xs) ! Suc l - (b # xs) ! l"
      "\<And>j. Suc j < length (b # xs) \<Longrightarrow> j \<noteq> l \<Longrightarrow> (b # xs) ! Suc j - (b # xs) ! j < (b # xs) ! Suc l - (b # xs) ! l"
      using "1.prems"(1,2) "1.prems"(3) [of "Suc j" for j] Suc by auto
    show ?thesis
    proof (cases "b - a > g")
      case True
      then have "gap_loop (b # xs) (Suc i) (b - a) i = Suc i + l" using "1.IH"(1) [OF refl True l(1) first l(3)] by simp
      then show ?thesis using True Suc by (simp add: Let_def)
    next
      case False
      then have "gap_loop (b # xs) (Suc i) g n = Suc i + l" using "1.IH"(2) [OF refl False l] by simp
      then show ?thesis using False Suc by (simp add: Let_def)
    qed
  qed
qed simp_all

text \<open>Ids that were given one after the other, some of them gone again, so that the way from the last back to the
  first is longer than every gap between two that follow each other.\<close>

definition window :: "int \<Rightarrow> int list \<Rightarrow> bool" where
  "window base ds \<longleftrightarrow> base \<in> {1..MAX_SAFE_INTEGER} \<and> sorted_wrt (<) ds \<and>
     (ds \<noteq> [] \<longrightarrow> hd ds = 0 \<and> last ds < MAX_SAFE_INTEGER) \<and>
     (\<forall>k. Suc k < length ds \<longrightarrow> ds ! Suc k - ds ! k < MAX_SAFE_INTEGER - last ds)"

lemma sort_mset: "mset xs = mset ys \<Longrightarrow> sorted ys \<Longrightarrow> sort xs = ys"
  by (metis properties_for_sort mset_sort)

lemma sorted_gaps:
  fixes a b :: "int list"
  assumes "sorted_wrt (<) (a @ b)" "a \<noteq> []" "b \<noteq> []"
  shows "(a @ b) ! length a = hd b" "(a @ b) ! (length a - 1) = last a"
  using assms by (simp_all add: nth_append hd_conv_nth last_conv_nth)

lemma le_last: "sorted_wrt (<) ds \<Longrightarrow> d \<in> set ds \<Longrightarrow> d \<le> last ds" for ds :: "int list"
  by (induction ds) (auto simp: less_imp_le)

lemma order_of_window:
  assumes "window base ds" "mset xs = mset (map (nth_id base) ds)"
  shows "orderByAcceptance xs = map (nth_id base) ds"
proof (cases "length ds \<le> 1")
  case True
  then have "sorted (map (nth_id base) ds)" by (cases ds) auto
  then have "sort xs = map (nth_id base) ds" using assms(2) by (intro sort_mset)
  then show ?thesis using True by (simp add: orderByAcceptance_def)
next
  case False
  let ?M = MAX_SAFE_INTEGER
  have ne: "ds \<noteq> []" "\<not> length ds \<le> 1" using False by auto
  have base: "1 \<le> base" "base \<le> ?M" and ds: "sorted_wrt (<) ds" "hd ds = 0" "last ds < ?M"
    and gaps: "\<And>k. Suc k < length ds \<Longrightarrow> ds ! Suc k - ds ! k < ?M - last ds"
    using assms(1) ne unfolding window_def by auto
  define A where "A = takeWhile (\<lambda>d. base + d \<le> ?M) ds"
  define B where "B = dropWhile (\<lambda>d. base + d \<le> ?M) ds"
  have split: "ds = A @ B" by (simp add: A_def B_def)
  have A: "\<forall>d \<in> set A. base + d \<le> ?M" using set_takeWhileD by (force simp: A_def)
  have B: "\<forall>d \<in> set B. \<not> base + d \<le> ?M"
  proof (cases B)
    case (Cons d0 B0)
    then have "\<not> base + d0 \<le> ?M" using hd_dropWhile [of "\<lambda>d. base + d \<le> ?M" ds] by (simp add: B_def)
    moreover have "\<forall>d \<in> set B0. d0 < d" using ds(1) unfolding split Cons by (simp add: sorted_wrt_append)
    ultimately show ?thesis using Cons by auto
  qed simp
  have AB: "\<forall>a \<in> set A. \<forall>b \<in> set B. a < b" "sorted_wrt (<) A" "sorted_wrt (<) B"
    using ds(1) unfolding split by (auto simp: sorted_wrt_append)
  define A' where "A' = map (\<lambda>d. base + d) A"
  define B' where "B' = map (\<lambda>d. base + d - ?M) B"
  have ids: "map (nth_id base) ds = A' @ B'" using A B by (auto simp: split nth_id_def A'_def B'_def)
  have last_le: "d \<le> last ds" if "d \<in> set ds" for d
    using le_last [OF ds(1) that] .
  have first_le: "0 \<le> d" if "d \<in> set ds" for d
    using ds(1,2) that ne by (cases ds) auto
  have small: "b < a" if "b \<in> set B'" "a \<in> set A'" for a b
    using that ds(3) last_le first_le unfolding A'_def B'_def split by fastforce
  have s': "sorted_wrt (<) (B' @ A')"
    using AB small by (auto simp: sorted_wrt_append A'_def B'_def sorted_wrt_map)
  have "mset xs = mset (B' @ A')" using assms(2) unfolding ids by (simp add: union_commute)
  then have srt: "sort xs = B' @ A'" by (rule sort_mset) (rule strict_sorted_imp_sorted [OF s'])
  have len: "length (B' @ A') = length ds" by (simp add: A'_def B'_def split)
  have Ane: "A \<noteq> []"
    using ds(2) base ne by (cases ds) (auto simp: A_def)
  show ?thesis
  proof (cases "B = []")
    case True
    then have "A = ds" by (simp add: split)
    then have ss: "sort xs = A'" "A' = map (\<lambda>d. base + d) ds" using srt True by (simp_all add: B'_def A'_def)
    have e: "last A' = base + last ds" "hd A' = base" using ne ds(2) by (simp_all add: ss(2) last_map hd_map)
    have "A' ! Suc k - A' ! k \<le> ?M - last A' + hd A'" if "Suc k < length A'" for k
      using gaps [of k] that unfolding e by (simp add: ss(2))
    then have g: "gap_loop A' 0 (?M - last A' + hd A') (length A' - 1) = length A' - 1"
      by (rule gap_none)
    have l: "length A' = length ds" by (simp only: ss(2) length_map)
    then have m: "(length A' - 1 + 1) mod length A' = 0" using ne by simp
    have "orderByAcceptance xs = drop 0 A' @ take 0 A'"
      using ne(2) unfolding orderByAcceptance_def Let_def ss(1) g m l [symmetric] by simp
    then show ?thesis using True by (simp add: ids B'_def)
  next
    case Bne: False
    let ?s = "B' @ A'"
    have nb: "length B' \<noteq> 0" "length A' \<noteq> 0" using Bne Ane by (simp_all add: A'_def B'_def)
    have lastB: "last B' = base + last ds - ?M" using Bne by (simp add: B'_def last_map split)
    have hdA: "hd A' = base" using Ane ds(2) by (simp add: A'_def hd_map split)
    have big: "?s ! Suc (length B' - 1) - ?s ! (length B' - 1) = ?M - last ds"
      using nb lastB hdA by (simp add: nth_append hd_conv_nth last_conv_nth)
    have other: "?s ! Suc j - ?s ! j < ?M - last ds" if j: "Suc j < length ?s" "j \<noteq> length B' - 1" for j
    proof (cases "Suc j < length B'")
      case True
      then have "?s ! Suc j - ?s ! j = ds ! Suc (length A + j) - ds ! (length A + j)"
        by (simp add: nth_append B'_def split)
      moreover have "Suc (length A + j) < length ds" using True by (simp add: split B'_def)
      ultimately show ?thesis using gaps by simp
    next
      case False
      then have l: "length B' \<le> j" using j(2) nb by simp
      then have "?s ! Suc j - ?s ! j = A' ! (Suc j - length B') - A' ! (j - length B')" by (simp add: nth_append)
      also have "\<dots> = ds ! Suc (j - length B') - ds ! (j - length B')"
      proof -
        have "Suc (j - length B') < length A" "Suc j - length B' = Suc (j - length B')" using l j(1) by (simp_all add: A'_def)
        then show ?thesis by (simp add: A'_def split nth_append)
      qed
      finally show ?thesis using gaps [of "j - length B'"] l j(1) by (simp add: split A'_def B'_def)
    qed
    have wrap: "?M - last ?s + hd ?s < ?M - last ds"
    proof -
      have "last ?s = base + last A" "hd ?s = base + hd B - ?M" using Ane Bne nb
        by (simp_all add: A'_def B'_def last_map hd_map)
      moreover have "hd B - last A < ?M - last ds"
        using gaps [of "length A - 1"] Ane Bne by (simp add: split nth_append hd_conv_nth last_conv_nth)
      ultimately show ?thesis by simp
    qed
    have "gap_loop ?s 0 (?M - last ?s + hd ?s) (length ?s - 1) = 0 + (length B' - 1)"
      by (rule gap_found) (use nb big other wrap in auto)
    moreover have "length B' mod length ds = length B'" using nb unfolding len [symmetric] by (intro mod_less) simp
    ultimately show ?thesis using ne(2) len nb by (simp add: orderByAcceptance_def srt ids Let_def)
  qed
qed

lemma set_orderByAcceptance [simp]: "set (orderByAcceptance xs) = set xs"
  using set_append [of "take n (sort xs)" "drop n (sort xs)" for n]
  by (simp add: orderByAcceptance_def Let_def Un_commute del: set_append) (metis append_take_drop_id set_append set_sort sup_commute)

lemma distinct_order: "distinct xs \<Longrightarrow> distinct (orderByAcceptance xs)"
proof -
  assume "distinct xs"
  then have "distinct (take n (sort xs) @ drop n (sort xs))" for n by simp
  then show ?thesis using \<open>distinct xs\<close> unfolding orderByAcceptance_def Let_def distinct_append by (auto simp: Int_commute)
qed

lemma orderByAcceptance_cong: "mset xs = mset ys \<Longrightarrow> orderByAcceptance xs = orderByAcceptance ys"
  by (simp add: orderByAcceptance_def sort_mset [of xs "sort ys"])

subsection \<open>The search for a free id\<close>

lemma nth_id_0: "base \<in> {1..MAX_SAFE_INTEGER} \<Longrightarrow> nth_id base 0 = base"
  by (simp add: nth_id_def)

lemma nth_id_step: "base \<in> {1..MAX_SAFE_INTEGER} \<Longrightarrow> 0 \<le> d \<Longrightarrow> d + 1 < MAX_SAFE_INTEGER \<Longrightarrow> nth_id (advance base) d = nth_id base (d + 1)"
  by (simp add: nth_id_def advance_def)

lemma nth_id_range: "base \<in> {1..MAX_SAFE_INTEGER} \<Longrightarrow> 0 \<le> d \<Longrightarrow> d < MAX_SAFE_INTEGER \<Longrightarrow> nth_id base d \<in> {1..MAX_SAFE_INTEGER}"
  by (auto simp: nth_id_def)

lemma nth_id_onto: "base \<in> {1..MAX_SAFE_INTEGER} \<Longrightarrow> i \<in> {1..MAX_SAFE_INTEGER} \<Longrightarrow>
    \<exists>d. 0 \<le> d \<and> d < MAX_SAFE_INTEGER \<and> nth_id base d = i"
  by (cases "base \<le> i"; intro exI [of _ "if base \<le> i then i - base else i - base + MAX_SAFE_INTEGER"]) (auto simp: nth_id_def)

lemma advance_range: "i \<in> {1..MAX_SAFE_INTEGER} \<Longrightarrow> advance i \<in> {1..MAX_SAFE_INTEGER}"
  by (auto simp: advance_def MAX_SAFE_INTEGER_def)

lemma find_free_steps:
  assumes "base \<in> {1..MAX_SAFE_INTEGER}" "\<forall>k < n. taken (nth_id base (int k))" "\<not> taken (nth_id base (int n))"
    "int n < MAX_SAFE_INTEGER"
  shows "find_free taken base = Some (nth_id base (int n))"
  using assms
proof (induction n arbitrary: base)
  case 0
  then show ?case by (simp add: nth_id_0 find_free.simps [of taken base])
next
  case (Suc n)
  have t: "taken base" using Suc.prems(1,2) nth_id_0 by fastforce
  have shift: "nth_id (advance base) (int k) = nth_id base (int (Suc k))" if "k \<le> n" for k
    using that Suc.prems(4) nth_id_step [OF Suc.prems(1), of "int k"] by (simp add: add.commute)
  have "find_free taken (advance base) = Some (nth_id (advance base) (int n))"
    by (rule Suc.IH) (use Suc.prems advance_range shift in auto)
  then show ?case using t shift by (simp add: find_free.simps [of taken base])
qed

lemma find_free_finds:
  assumes "base \<in> {1..MAX_SAFE_INTEGER}" "i \<in> {1..MAX_SAFE_INTEGER}" "\<not> taken i"
  shows "\<exists>j \<in> {1..MAX_SAFE_INTEGER}. find_free taken base = Some j \<and> \<not> taken j"
proof -
  obtain d where d: "0 \<le> d" "d < MAX_SAFE_INTEGER" "nth_id base d = i" using nth_id_onto [OF assms(1,2)] by blast
  define n where "n = (LEAST k. \<not> taken (nth_id base (int k)))"
  have "\<not> taken (nth_id base (int (nat d)))" using d assms(3) by simp
  then have n: "\<not> taken (nth_id base (int n))" "n \<le> nat d" "\<forall>k < n. taken (nth_id base (int k))"
    unfolding n_def by (rule LeastI, rule Least_le) (use not_less_Least in blast)
  have "nth_id base (int n) \<in> {1..MAX_SAFE_INTEGER}" using n(2) d by (intro nth_id_range [OF assms(1)]) auto
  then show ?thesis using find_free_steps [OF assms(1) n(3,1)] n(1,2) d by auto
qed

lemma find_free_sound:
  assumes "find_free taken base = Some k" "base \<in> {1..MAX_SAFE_INTEGER}"
  shows "k \<in> {1..MAX_SAFE_INTEGER} \<and> \<not> taken k"
proof -
  have "base \<in> {1..MAX_SAFE_INTEGER} \<longrightarrow> k \<in> {1..MAX_SAFE_INTEGER} \<and> \<not> taken k"
    using assms(1)
  proof (rule find_free.raw_induct [where P = "\<lambda>t b k. b \<in> {1..MAX_SAFE_INTEGER} \<longrightarrow> k \<in> {1..MAX_SAFE_INTEGER} \<and> \<not> t k", rotated])
    fix f t b k
    assume ih: "\<And>t b k. f t b = Some k \<Longrightarrow> b \<in> {1..MAX_SAFE_INTEGER} \<longrightarrow> k \<in> {1..MAX_SAFE_INTEGER} \<and> \<not> t k"
      and e: "(if t b then f t (advance b) else Some b) = Some k"
    show "b \<in> {1..MAX_SAFE_INTEGER} \<longrightarrow> k \<in> {1..MAX_SAFE_INTEGER} \<and> \<not> t k"
      using e ih [of t "advance b" k] advance_range [of b] by (auto split: if_splits)
  qed
  then show ?thesis using assms(2) by blast
qed

lemma free_exists:
  assumes "int (length xs) < MAX_SAFE_INTEGER"
  shows "\<exists>i \<in> {1..MAX_SAFE_INTEGER}. i \<notin> set xs"
proof (rule ccontr)
  assume "\<not> ?thesis"
  then have "{1..MAX_SAFE_INTEGER} \<subseteq> set xs" by blast
  then have "card {1..MAX_SAFE_INTEGER} \<le> card (set xs)" by (intro card_mono) simp_all
  then have "nat MAX_SAFE_INTEGER \<le> length xs" using card_length [of xs] by simp
  then show False using assms by simp
qed

subsection \<open>The table and the records in memory\<close>

text \<open>The requests the table holds.\<close>

definition requests :: "encode_store \<Rightarrow> queue_record set" where
  "requests s = {r. \<exists>row \<in> set (table s). parseRow row = Some r}"

definition loaded_ok :: "encode_store \<Rightarrow> bool" where
  "loaded_ok s \<longleftrightarrow> keys_ok (records s) \<and> nextId s \<in> {1..MAX_SAFE_INTEGER} \<and>
     (\<forall>i r. map_of (records s) i = Some r \<longleftrightarrow> r_id r = i \<and> r \<in> requests s) \<and>
     (\<forall>row \<in> set (table s). parseRow row = None \<longrightarrow> q_id row \<in> {1..MAX_SAFE_INTEGER} \<longrightarrow> q_id row \<in> set (blockedIds s))"

definition store_ok :: "encode_store \<Rightarrow> bool" where
  "store_ok s \<longleftrightarrow> distinct (map q_id (table s)) \<and> (isLoaded s \<longrightarrow> loaded_ok s)"

lemma parseRow_typed:
  assumes "parseRow row = Some r"
  shows "r_id r = q_id row" "r_id r \<in> {1..MAX_SAFE_INTEGER}" "isAddEncodeProgramOption (r_option r)"
  using assms by (auto simp: parseRow_def isSafeInteger_def split: if_splits option.splits)

lemma requests_typed:
  "r \<in> requests s \<Longrightarrow> r_id r \<in> {1..MAX_SAFE_INTEGER} \<and> isAddEncodeProgramOption (r_option r) \<and> r_id r \<in> q_id ` set (table s)"
  using parseRow_typed unfolding requests_def by fastforce

lemma requests_distinct:
  assumes "distinct (map q_id (table s))" "r \<in> requests s" "q \<in> requests s" "r_id r = r_id q"
  shows "r = q"
proof -
  obtain x y where "x \<in> set (table s)" "parseRow x = Some r" "y \<in> set (table s)" "parseRow y = Some q"
    using assms(2,3) by (auto simp: requests_def)
  moreover from this have "x = y"
    using assms(1,4) parseRow_typed(1) by (metis distinct_map inj_onD)
  ultimately show ?thesis by simp
qed

lemma db_run_same [simp]:
  "records (snd (db_run rej c s)) = records s" "blockedIds (snd (db_run rej c s)) = blockedIds s"
  "requestTokens (snd (db_run rej c s)) = requestTokens s" "nextId (snd (db_run rej c s)) = nextId s"
  "isLoaded (snd (db_run rej c s)) = isLoaded s" "sent_requests (snd (db_run rej c s)) = sent_requests s"
  by (simp_all add: db_run_def Let_def split: queue_call.split)

lemma db_run_table:
  "table (snd (db_run rej c s)) = (if \<not> fst (db_run rej c s) then table s else case c of
     InsertRow row \<Rightarrow> table s @ [row]
   | UpdateOutput i p \<Rightarrow> map (\<lambda>r. if q_id r = i then r\<lparr>q_outputPath := Some p\<rparr> else r) (table s)
   | DeleteRow i \<Rightarrow> filter (\<lambda>r. q_id r \<noteq> i) (table s)
   | FindAll \<Rightarrow> table s)"
  "fst (db_run rej (InsertRow row) s) \<Longrightarrow> q_id row \<notin> q_id ` set (table s)"
  by (auto simp: db_run_def Let_def split: queue_call.splits if_splits)

text \<open>What the loop of \<open>load\<close> collects and deletes.\<close>

lemma load_rows_spec:
  assumes "load_rows rej rows recs bl s = (recs', bl', s')" "distinct (map q_id rows)" "keys_ok recs"
  shows "keys_ok recs' \<and>
    (\<forall>i r. map_of recs' i = Some r \<longleftrightarrow> (\<exists>row \<in> set rows. parseRow row = Some r \<and> q_id row = i) \<or>
       map_of recs i = Some r \<and> (\<forall>row \<in> set rows. q_id row = i \<longrightarrow> parseRow row = None)) \<and>
    (\<exists>D. (\<forall>i \<in> D. \<exists>row \<in> set rows. q_id row = i \<and> parseRow row = None) \<and>
       table s' = filter (\<lambda>x. q_id x \<notin> D) (table s) \<and> set bl \<subseteq> set bl' \<and>
       (\<forall>row \<in> set rows. parseRow row = None \<longrightarrow> q_id row \<in> {1..MAX_SAFE_INTEGER} \<longrightarrow> q_id row \<notin> D \<longrightarrow> q_id row \<in> set bl')) \<and>
    requestTokens s' = requestTokens s \<and> sent_requests s' = sent_requests s"
  using assms
proof (induction rows arbitrary: recs bl s)
  case Nil
  then show ?case by (auto intro: exI [of _ "{}"])
next
  case (Cons row rows)
  have new: "q_id row \<notin> q_id ` set rows" using Cons.prems(2) by simp
  show ?case
  proof (cases "parseRow row")
    case (Some r)
    have id: "r_id r = q_id row" by (rule parseRow_typed [OF Some])
    have run: "load_rows rej rows (map_set (r_id r) r recs) bl s = (recs', bl', s')" using Cons.prems(1) Some by simp
    note ih = Cons.IH [OF run]
    obtain D where D: "\<forall>i \<in> D. \<exists>row \<in> set rows. q_id row = i \<and> parseRow row = None"
      "table s' = filter (\<lambda>x. q_id x \<notin> D) (table s)" "set bl \<subseteq> set bl'"
      "\<forall>row \<in> set rows. parseRow row = None \<longrightarrow> q_id row \<in> {1..MAX_SAFE_INTEGER} \<longrightarrow> q_id row \<notin> D \<longrightarrow> q_id row \<in> set bl'"
      using ih Cons.prems(2,3) by auto
    have maps: "map_of recs' i = Some q \<longleftrightarrow> (\<exists>x \<in> set (row # rows). parseRow x = Some q \<and> q_id x = i) \<or>
       map_of recs i = Some q \<and> (\<forall>x \<in> set (row # rows). q_id x = i \<longrightarrow> parseRow x = None)" for i q
      using ih Cons.prems(2,3) new id Some by (auto simp: image_iff)
    show ?thesis
      using ih Cons.prems(2,3) maps D Some by (intro conjI allI exI [of _ D]) auto
  next
    case None
    let ?d = "db_run rej (DeleteRow (q_id row)) s"
    let ?bl = "if \<not> fst ?d \<and> isSafeInteger (q_id row) \<and> q_id row \<ge> 1 then set_add bl (q_id row) else bl"
    have run: "load_rows rej rows recs ?bl (snd ?d) = (recs', bl', s')"
      using Cons.prems(1) None by (simp add: case_prod_beta Let_def)
    note ih = Cons.IH [OF run]
    obtain D where D: "\<forall>i \<in> D. \<exists>row \<in> set rows. q_id row = i \<and> parseRow row = None"
      "table s' = filter (\<lambda>x. q_id x \<notin> D) (table (snd ?d))" "set ?bl \<subseteq> set bl'"
      "\<forall>row \<in> set rows. parseRow row = None \<longrightarrow> q_id row \<in> {1..MAX_SAFE_INTEGER} \<longrightarrow> q_id row \<notin> D \<longrightarrow> q_id row \<in> set bl'"
      using ih Cons.prems(2,3) by auto
    let ?D = "if fst ?d then insert (q_id row) D else D"
    have t: "table s' = filter (\<lambda>x. q_id x \<notin> ?D) (table s)"
      unfolding D(2) db_run_table by (auto intro: filter_cong)
    have b: "q_id row \<in> set bl'" if "q_id row \<in> {1..MAX_SAFE_INTEGER}" "\<not> fst ?d"
      using that D(3) by (auto simp: isSafeInteger_def split: if_splits)
    have maps: "map_of recs' i = Some q \<longleftrightarrow> (\<exists>x \<in> set (row # rows). parseRow x = Some q \<and> q_id x = i) \<or>
       map_of recs i = Some q \<and> (\<forall>x \<in> set (row # rows). q_id x = i \<longrightarrow> parseRow x = None)" for i q
      using ih Cons.prems(2,3) None by auto
    have "set bl \<subseteq> set bl'" using D(3) by (auto split: if_splits)
    then show ?thesis
      using ih Cons.prems(2,3) maps D(1,4) t b None by (intro conjI allI exI [of _ ?D]) auto
  qed
qed

lemma requests_filter:
  assumes "distinct (map q_id (table s))" "table s' = filter (\<lambda>x. q_id x \<notin> D) (table s)"
    and "\<forall>i \<in> D. \<exists>row \<in> set (table s). q_id row = i \<and> parseRow row = None"
  shows "requests s' = requests s"
proof -
  have "q_id row \<notin> D" if row: "row \<in> set (table s)" "parseRow row = Some r" for row r
  proof
    assume "q_id row \<in> D"
    then obtain x where "x \<in> set (table s)" "q_id x = q_id row" "parseRow x = None" using assms(3) by blast
    then have "x = row" using assms(1) row(1) by (metis distinct_map inj_onD)
    then show False using row(2) \<open>parseRow x = None\<close> by simp
  qed
  then show ?thesis unfolding requests_def assms(2) by auto
qed

lemma load_keeps:
  assumes "load rej s = (res, s')" "store_ok s"
  shows "store_ok s'" "requests s' = requests s" "set (table s') \<subseteq> set (table s)" "res = Inr () \<Longrightarrow> isLoaded s'"
    "isLoaded s \<Longrightarrow> res = Inr () \<and> s' = s" "requestTokens s' = requestTokens s"
    "(\<And>n. \<not> rej n FindAll) \<Longrightarrow> res = Inr ()"
proof -
  have "store_ok s' \<and> requests s' = requests s \<and> set (table s') \<subseteq> set (table s) \<and> (res = Inr () \<longrightarrow> isLoaded s') \<and>
     (isLoaded s \<longrightarrow> res = Inr () \<and> s' = s) \<and> requestTokens s' = requestTokens s \<and> ((\<forall>n. \<not> rej n FindAll) \<longrightarrow> res = Inr ())"
  proof (cases "isLoaded s \<or> \<not> fst (db_run rej FindAll s)")
    case True
    have "store_ok (snd (db_run rej FindAll s)) \<and> requests (snd (db_run rej FindAll s)) = requests s" if "\<not> isLoaded s"
      using assms(2) that by (simp add: store_ok_def requests_def db_run_table)
    then show ?thesis using True assms by (auto simp: load_def case_prod_beta Let_def db_run_table db_run_def split: if_splits)
  next
    case False
    let ?s1 = "snd (db_run rej FindAll s)" and ?rows = "sort_key q_id (table (snd (db_run rej FindAll s)))"
    have t1: "table ?s1 = table s" by (simp add: db_run_table)
    obtain recs bl s2 where run: "load_rows rej ?rows [] [] ?s1 = (recs, bl, s2)" by (metis surj_pair)
    let ?o = "orderByAcceptance (map fst recs)"
    have s': "res = Inr ()" "s' = s2\<lparr>records := recs, blockedIds := bl,
        nextId := (if length ?o = 0 then 1 else advance (last ?o)), isLoaded := True\<rparr>"
      using assms(1) False run by (auto simp: load_def case_prod_beta Let_def)
    have dist: "distinct (map q_id ?rows)" "set ?rows = set (table s)"
      using assms(2) by (simp_all add: store_ok_def t1 distinct_map)
    note spec = load_rows_spec [OF run dist(1) keys_ok_Nil]
    obtain D where D: "\<forall>i \<in> D. \<exists>row \<in> set (table s). q_id row = i \<and> parseRow row = None"
      "table s2 = filter (\<lambda>x. q_id x \<notin> D) (table s)"
      "\<forall>row \<in> set (table s). parseRow row = None \<longrightarrow> q_id row \<in> {1..MAX_SAFE_INTEGER} \<longrightarrow> q_id row \<notin> D \<longrightarrow> q_id row \<in> set bl"
      using spec dist(2) t1 by auto
    have req: "requests s2 = requests s"
      by (rule requests_filter [OF _ D(2,1)]) (use assms(2) in \<open>simp add: store_ok_def\<close>)
    have maps: "map_of recs i = Some r \<longleftrightarrow> r_id r = i \<and> r \<in> requests s" for i r
      using spec dist(2) parseRow_typed(1) by (auto simp: requests_def)
    have "map_of recs i \<noteq> None" if "i \<in> set (map fst recs)" for i using that by (simp add: map_of_eq_None_iff)
    then have keys: "i \<in> {1..MAX_SAFE_INTEGER}" if "i \<in> set (map fst recs)" for i
      using maps requests_typed that by fastforce
    have next_ok: "(if length ?o = 0 then 1 else advance (last ?o)) \<in> {1..MAX_SAFE_INTEGER}"
      using keys advance_range [of "last ?o"] last_in_set [of ?o] by (auto simp: MAX_SAFE_INTEGER_def)
    have "loaded_ok s'"
      using spec maps D(2,3) next_ok req unfolding loaded_ok_def s'(2) by (auto simp: requests_def)
    moreover have "distinct (map q_id (table s'))"
      using assms(2) D(2) unfolding s'(2) store_ok_def by (simp add: distinct_map_filter)
    ultimately show ?thesis using s' req False spec D(2) by (simp add: store_ok_def requests_def)
  qed
  then show "store_ok s'" "requests s' = requests s" "set (table s') \<subseteq> set (table s)" "res = Inr () \<Longrightarrow> isLoaded s'"
    "isLoaded s \<Longrightarrow> res = Inr () \<and> s' = s" "requestTokens s' = requestTokens s"
    "(\<And>n. \<not> rej n FindAll) \<Longrightarrow> res = Inr ()"
    by blast+
qed

lemma store_okD:
  assumes "store_ok s" "isLoaded s"
  shows "keys_ok (records s)" "nextId s \<in> {1..MAX_SAFE_INTEGER}" "distinct (map q_id (table s))"
    "map_of (records s) i = Some r \<longleftrightarrow> r_id r = i \<and> r \<in> requests s"
    "row \<in> set (table s) \<Longrightarrow> parseRow row = None \<Longrightarrow> q_id row \<in> {1..MAX_SAFE_INTEGER} \<Longrightarrow> q_id row \<in> set (blockedIds s)"
  using assms unfolding store_ok_def loaded_ok_def by blast+

lemma known_ids:
  assumes "store_ok s" "isLoaded s"
  shows "set (map fst (records s)) = r_id ` requests s"
proof -
  have "i \<in> set (map fst (records s)) \<longleftrightarrow> (\<exists>r. map_of (records s) i = Some r)" for i
    using map_of_eq_None_iff [of "records s" i] by (cases "map_of (records s) i") simp_all
  then have "i \<in> set (map fst (records s)) \<longleftrightarrow> (\<exists>r. r_id r = i \<and> r \<in> requests s)" for i
    unfolding store_okD(4) [OF assms] .
  then show ?thesis by (intro set_eqI) (simp add: image_iff del: set_map, blast)
qed

text \<open>An id that is not known in memory is not in the table.\<close>

lemma free_in_table:
  assumes "store_ok s" "isLoaded s" "i \<in> {1..MAX_SAFE_INTEGER}" "i \<notin> set (map fst (records s))" "i \<notin> set (blockedIds s)"
  shows "i \<notin> q_id ` set (table s)"
proof
  assume "i \<in> q_id ` set (table s)"
  then obtain row where row: "row \<in> set (table s)" "q_id row = i" by blast
  show False
  proof (cases "parseRow row")
    case None
    then show ?thesis using store_okD(5) [OF assms(1,2) row(1)] row(2) assms(3,5) by simp
  next
    case (Some r)
    then have "r \<in> requests s" "r_id r = i" using row parseRow_typed(1) [OF Some] by (auto simp: requests_def)
    then show ?thesis using known_ids [OF assms(1,2)] assms(4) by blast
  qed
qed

lemma parse_inserted:
  "i \<in> {1..MAX_SAFE_INTEGER} \<Longrightarrow> isAddEncodeProgramOption opt \<Longrightarrow>
   parseRow \<lparr>q_id = i, q_option = Some opt, q_outputPath = p, q_createdAt = t\<rparr> =
     Some \<lparr>r_id = i, r_option = opt, r_outputPath = p, r_createdAt = t\<rparr>"
  by (simp add: parseRow_def isSafeInteger_def)

lemma addRecord_effect:
  assumes "store_ok s" "isLoaded s" "isAddEncodeProgramOption opt" "addRecord rej now opt s = Some (res, s')"
  shows "store_ok s' \<and> isLoaded s' \<and> requestTokens s' = requestTokens s \<and>
    (case res of Inl e \<Rightarrow> requests s' = requests s \<and> nextId s' = nextId s
     | Inr i \<Rightarrow> i \<in> {1..MAX_SAFE_INTEGER} \<and> i \<notin> q_id ` set (table s) \<and>
         requests s' = insert \<lparr>r_id = i, r_option = opt, r_outputPath = None, r_createdAt = now\<rparr> (requests s))"
proof -
  let ?taken = "\<lambda>i. i \<in> set (map fst (records s)) \<or> i \<in> set (blockedIds s)"
  obtain i where i: "find_free ?taken (nextId s) = Some i"
    using assms(4) by (auto simp: addRecord_def split: option.splits)
  let ?r = "\<lparr>r_id = i, r_option = opt, r_outputPath = None, r_createdAt = now\<rparr>"
  let ?row = "\<lparr>q_id = i, q_option = Some opt, q_outputPath = None, q_createdAt = now\<rparr>"
  let ?s1 = "snd (db_run rej (InsertRow ?row) s)"
  have res: "(res, s') = (if fst (db_run rej (InsertRow ?row) s)
      then (Inr i, ?s1\<lparr>records := map_set i ?r (records s), nextId := advance i\<rparr>) else (Inl DbFailure, ?s1))"
    using assms(4) i by (auto simp: addRecord_def case_prod_beta Let_def split: if_splits)
  show ?thesis
  proof (cases "fst (db_run rej (InsertRow ?row) s)")
    case False
    then have "table ?s1 = table s" by (simp add: db_run_table)
    then show ?thesis using res False assms(1,2) by (simp add: store_ok_def loaded_ok_def requests_def)
  next
    case True
    have t: "table s' = table s @ [?row]" using res True by (simp add: db_run_table(1))
    have new: "i \<notin> q_id ` set (table s)" using db_run_table(2) [OF True] by simp
    note d = store_okD [OF assms(1,2)]
    have range: "i \<in> {1..MAX_SAFE_INTEGER}" "\<not> ?taken i" using find_free_sound [OF i d(2)] by blast+
    have req: "requests s' = insert ?r (requests s)"
      using parse_inserted [OF range(1) assms(3), of None now] by (auto simp: requests_def t)
    have s': "records s' = map_set i ?r (records s)" "nextId s' = advance i" "blockedIds s' = blockedIds s"
      "isLoaded s'" "requestTokens s' = requestTokens s" "res = Inr i"
      using res True assms(2) by simp_all
    have "map_of (records s') j = Some q \<longleftrightarrow> r_id q = j \<and> q \<in> requests s'" for j q
    proof (cases "j = i")
      case True
      have "q \<notin> requests s" if "r_id q = i" using that new requests_typed by blast
      then show ?thesis using True by (auto simp: s' req)
    next
      case False
      then show ?thesis using d(4) [of j q] by (auto simp: s' req)
    qed
    moreover have "q_id row \<in> set (blockedIds s')"
      if "row \<in> set (table s')" "parseRow row = None" "q_id row \<in> {1..MAX_SAFE_INTEGER}" for row
      using that d(5) parse_inserted [OF range(1) assms(3), of None now] by (auto simp: t s')
    ultimately have "loaded_ok s'"
      using d(1) advance_range [OF range(1)] unfolding loaded_ok_def by (auto simp: s')
    moreover have "distinct (map q_id (table s'))" using d(3) new by (auto simp: t)
    ultimately show ?thesis using s' range(1) new req by (simp add: store_ok_def)
  qed
qed

text \<open>A request is always taken when the table answers and an id is left.\<close>

lemma addRecord_returns:
  assumes "store_ok s" "isLoaded s" "int (length (records s) + length (blockedIds s)) < MAX_SAFE_INTEGER"
  shows "\<exists>res s'. addRecord rej now opt s = Some (res, s') \<and> ((\<forall>n c. \<not> rej n c) \<longrightarrow> (\<exists>i. res = Inr i))"
proof -
  let ?taken = "\<lambda>i. i \<in> set (map fst (records s)) \<or> i \<in> set (blockedIds s)"
  obtain j where j: "j \<in> {1..MAX_SAFE_INTEGER}" "\<not> ?taken j"
    using free_exists [of "map fst (records s) @ blockedIds s"] assms(3) by auto
  obtain i where i: "find_free ?taken (nextId s) = Some i" "i \<in> {1..MAX_SAFE_INTEGER}" "\<not> ?taken i"
    using find_free_finds [of "nextId s" j ?taken] j store_okD(2) [OF assms(1,2)] by blast
  have "i \<notin> q_id ` set (table s)" using free_in_table [OF assms(1,2) i(2)] i(3) by blast
  then have ok: "fst (db_run rej (InsertRow \<lparr>q_id = i, q_option = Some opt, q_outputPath = None, q_createdAt = now\<rparr>) s)"
    if "\<forall>n c. \<not> rej n c" using that by (simp add: db_run_def Let_def)
  show ?thesis unfolding addRecord_def i(1) option.case Let_def case_prod_beta queue_record.select_convs
    by (cases "fst (db_run rej (InsertRow \<lparr>q_id = i, q_option = Some opt, q_outputPath = None, q_createdAt = now\<rparr>) s)")
      (use ok in auto)
qed

lemma deleteRecord_effect:
  assumes "store_ok s" "isLoaded s" "deleteRecord rej i s = (res, s')"
  shows "store_ok s' \<and> isLoaded s' \<and>
    requests s' = (case res of Inl e \<Rightarrow> requests s | Inr u \<Rightarrow> {r \<in> requests s. r_id r \<noteq> i})"
proof -
  let ?d = "db_run rej (DeleteRow i) s"
  note d = store_okD [OF assms(1,2)]
  show ?thesis
  proof (cases "fst ?d")
    case False
    then show ?thesis using assms
      by (auto simp: deleteRecord_def case_prod_beta Let_def db_run_table store_ok_def loaded_ok_def requests_def)
  next
    case True
    have s': "records s' = map_delete i (records s)" "table s' = filter (\<lambda>r. q_id r \<noteq> i) (table s)" "nextId s' = nextId s"
      "blockedIds s' = blockedIds s" "isLoaded s'" "res = Inr ()"
      using assms(2,3) True by (auto simp: deleteRecord_def case_prod_beta Let_def db_run_table)
    have req: "requests s' = {r \<in> requests s. r_id r \<noteq> i}"
      using parseRow_typed(1) by (fastforce simp: requests_def s'(2))
    have "loaded_ok s'" using d unfolding loaded_ok_def by (auto simp: s' req)
    moreover have "distinct (map q_id (table s'))" using d(3) by (simp add: s' distinct_map_filter)
    ultimately show ?thesis using s' req by (simp add: store_ok_def)
  qed
qed


text \<open>What \<open>updateOutputPath\<close> makes of a request.\<close>

definition with_path :: "int \<Rightarrow> string \<Rightarrow> queue_record \<Rightarrow> queue_record" where
  "with_path i p r = (if r_id r = i then r\<lparr>r_outputPath := Some p\<rparr> else r)"

lemma with_path_id [simp]: "r_id (with_path i p r) = r_id r"
  by (simp add: with_path_def)

lemma parse_updated: "parseRow (if q_id row = i then row\<lparr>q_outputPath := Some p\<rparr> else row) = map_option (with_path i p) (parseRow row)"
  by (auto simp: parseRow_def with_path_def split: option.splits)

definition set_path :: "int \<Rightarrow> string \<Rightarrow> encode_store \<Rightarrow> encode_store" where
  "set_path encodeId outputPath s1 = (case map_of (records s1) encodeId of None \<Rightarrow> s1
     | Some r \<Rightarrow> s1\<lparr>records := map_set encodeId (r\<lparr>r_outputPath := Some outputPath\<rparr>) (records s1)\<rparr>)"

lemma update_effect:
  assumes "store_ok s" "isLoaded s" and that: "fst (db_run rej (UpdateOutput i p) s)"
  shows "store_ok (set_path i p (snd (db_run rej (UpdateOutput i p) s))) \<and>
     requests (set_path i p (snd (db_run rej (UpdateOutput i p) s))) = with_path i p ` requests s"
proof -
  let ?s1 = "snd (db_run rej (UpdateOutput i p) s)"
  let ?s' = "set_path i p ?s1"
  note d = store_okD [OF assms(1,2)]
  have t: "table ?s' = map (\<lambda>r. if q_id r = i then r\<lparr>q_outputPath := Some p\<rparr> else r) (table s)"
    using that by (simp add: set_path_def db_run_table split: option.split)
  have ids: "map q_id (table ?s') = map q_id (table s)" unfolding t by simp
  have req: "requests ?s' = with_path i p ` requests s"
  proof (rule set_eqI)
    fix q
    have "q \<in> requests ?s' \<longleftrightarrow> (\<exists>row \<in> set (table s). map_option (with_path i p) (parseRow row) = Some q)"
      unfolding requests_def t set_map by (simp only: mem_Collect_eq bex_simps parse_updated)
    also have "\<dots> \<longleftrightarrow> q \<in> with_path i p ` requests s"
      unfolding requests_def image_iff map_option_eq_Some by blast
    finally show "q \<in> requests ?s' \<longleftrightarrow> q \<in> with_path i p ` requests s" .
  qed
  have f: "nextId ?s' = nextId s" "blockedIds ?s' = blockedIds s" "isLoaded ?s' = isLoaded s"
    "keys_ok (records ?s')"
    using d(1) by (simp_all add: set_path_def split: option.split)
  have "map_of (records ?s') j = Some q \<longleftrightarrow> r_id q = j \<and> q \<in> with_path i p ` requests s" for j q
  proof -
    have id: "r_id r = k" if "map_of (records s) k = Some r" for k r using that d(4) by blast
    have all: "map_of (records ?s') j = map_option (with_path i p) (map_of (records s) j)"
    proof (cases "map_of (records s) i")
      case None
      then have "with_path i p r = r" if "map_of (records s) j = Some r" for r
        using id [OF that] that by (auto simp: with_path_def)
      then show ?thesis using None by (cases "map_of (records s) j") (simp_all add: set_path_def)
    next
      case (Some a)
      show ?thesis
      proof (cases "j = i")
        case True
        then show ?thesis using Some id [OF Some] by (simp add: set_path_def with_path_def)
      next
        case False
        then have "with_path i p r = r" if "map_of (records s) j = Some r" for r
          using id [OF that] by (simp add: with_path_def)
        then show ?thesis using Some False by (cases "map_of (records s) j") (simp_all add: set_path_def)
      qed
    qed
    have "q \<in> with_path i p ` requests s \<and> r_id q = j \<longleftrightarrow> (\<exists>r. map_of (records s) j = Some r \<and> with_path i p r = q)"
      unfolding d(4) by (auto simp: image_iff)
    then show ?thesis unfolding all map_option_eq_Some by blast
  qed
  moreover have "q_id row \<in> set (blockedIds s)"
    if "row \<in> set (table ?s')" "parseRow row = None" "q_id row \<in> {1..MAX_SAFE_INTEGER}" for row
  proof -
    note row = that(1)
    obtain x where x: "x \<in> set (table s)" "row = (if q_id x = i then x\<lparr>q_outputPath := Some p\<rparr> else x)"
      using row unfolding t set_map image_iff by blast
    have "parseRow x = None" using that(2) parse_updated [of x i p] x(2) by simp
    moreover have "q_id row = q_id x" using x(2) by simp
    ultimately show ?thesis using d(5) [OF x(1)] that(3) by simp
  qed
  ultimately have "loaded_ok ?s'" unfolding loaded_ok_def f req using d(2) f(4) by blast
  moreover have "distinct (map q_id (table ?s'))" unfolding ids by (rule d(3))
  ultimately show ?thesis by (simp add: store_ok_def req)
qed

text \<open>A task of the chain: either the records cannot be read, or it runs on a loaded store with the same requests.\<close>

lemma run_task_cases [consumes 2, case_names unread ran]:
  assumes "run_task rej task s = Some (res, s')" "store_ok s"
  obtains (unread) e where "res = Inl e" "store_ok s'" "requests s' = requests s" "requestTokens s' = requestTokens s" "\<not> isLoaded s"
  | (ran) s1 where "store_ok s1" "isLoaded s1" "requests s1 = requests s" "requestTokens s1 = requestTokens s"
      "isLoaded s \<Longrightarrow> s1 = s" "task s1 = Some (res, s')"
proof -
  obtain r s1 where l: "load rej s = (r, s1)" by (metis surj_pair)
  note k = load_keeps [OF l assms(2)]
  show thesis
  proof (cases r)
    case (Inl e)
    then show thesis using unread [of e] assms(1) k(1,2,5,6) l by (auto simp: run_task_def)
  next
    case (Inr u)
    then show thesis using ran [of s1] assms(1) k(1,2,4,5,6) l by (auto simp: run_task_def)
  qed
qed

lemma add_request_effect:
  assumes "store_ok s" "isAddEncodeProgramOption opt" "add_request rej now opt t s = Some (res, s')"
  shows "store_ok s' \<and> (case res of Inl e \<Rightarrow> requests s' = requests s \<and> requestTokens s' = requestTokens s
     | Inr i \<Rightarrow> i \<in> {1..MAX_SAFE_INTEGER} \<and> i \<notin> r_id ` requests s \<and>
         requests s' = insert \<lparr>r_id = i, r_option = opt, r_outputPath = None, r_createdAt = now\<rparr> (requests s) \<and>
         (\<forall>x. t = Some x \<longrightarrow> map_of (requestTokens s') x = Some i) \<and> isLoaded s')"
  using assms(3) assms(1) unfolding add_request_def
proof (cases rule: run_task_cases)
  case (unread e)
  then show ?thesis by simp
next
  case (ran s1)
  then obtain r s2 where a: "addRecord rej now opt s1 = Some (r, s2)" by (auto split: option.splits)
  note eff = addRecord_effect [OF ran(1,2) assms(2) a]
  have out: "res = r" "s' = (case (r, t) of (Inr i, Some x) \<Rightarrow> s2\<lparr>requestTokens := map_set x i (requestTokens s2)\<rparr> | _ \<Rightarrow> s2)"
    using ran(6) a by (auto split: sum.splits option.splits)
  have same: "store_ok s' = store_ok s2" "requests s' = requests s2" "isLoaded s' = isLoaded s2"
    unfolding out(2) by (auto simp: store_ok_def loaded_ok_def requests_def split: sum.split option.split)
  show ?thesis
  proof (cases r)
    case (Inl e)
    then show ?thesis using eff same out ran(3,4) by simp
  next
    case (Inr i)
    have "i \<notin> r_id ` requests s" using eff ran(3) requests_typed [of _ s1] unfolding Inr by auto
    then show ?thesis using eff same out ran(3) Inr by auto
  qed
qed

lemma store_step_ok: "store_step s s' \<Longrightarrow> store_ok s \<Longrightarrow> store_ok s'"
proof (induction rule: store_step.induct)
  case (add opt rejects now t s res s')
  then show ?case using add_request_effect by blast
next
  case (abandon rejects t s res s')
  show ?case using abandon(1) abandon(2) unfolding abandon_def
  proof (cases rule: run_task_cases)
    case (ran s1)
    show ?thesis
    proof (cases "map_of (requestTokens s1) t")
      case None
      then show ?thesis using ran by simp
    next
      case (Some i)
      then have "deleteRecord rejects i s1 = (res, s')" using ran(6) by simp
      then show ?thesis using deleteRecord_effect [OF ran(1,2)] by blast
    qed
  qed
next
  case (update rejects i p s res s')
  show ?case using update(1) update(2) unfolding updateOutputPath_def
  proof (cases rule: run_task_cases)
    case (ran s1)
    let ?u = "db_run rejects (UpdateOutput i p) s1"
    have s': "s' = (if fst ?u then set_path i p (snd ?u) else snd ?u)"
      using ran(6) by (auto simp: set_path_def case_prod_beta Let_def split: if_splits)
    have "store_ok (snd ?u)" if "\<not> fst ?u"
      using that ran(1) by (simp add: store_ok_def loaded_ok_def requests_def db_run_table)
    then show ?thesis using update_effect [OF ran(1,2)] unfolding s' by simp
  qed
next
  case (remove rejects i s res s')
  show ?case using remove(1) remove(2) unfolding remove_request_def
  proof (cases rule: run_task_cases)
    case (ran s1)
    then show ?thesis using deleteRecord_effect [OF ran(1,2)] by simp
  qed
next
  case (list rejects s res s')
  show ?case using list(1) list(2) unfolding list_requests_def
    by (cases rule: run_task_cases) auto
next
  case (enqueue opt rejects now s res s')
  show ?case using enqueue(2) enqueue(3) unfolding enqueueFromRecording_def
  proof (cases rule: run_task_cases)
    case (ran s1)
    then obtain r s2 where a: "addRecord rejects now opt s1 = Some (r, s2)" by (auto split: option.splits)
    then have s': "s' = (case r of Inl e \<Rightarrow> s2 | Inr i \<Rightarrow> s2\<lparr>sent_requests := sent_requests s2 @ [(i, opt)]\<rparr>)"
      using ran(6) by (auto split: sum.splits)
    have "store_ok s2" using addRecord_effect [OF ran(1,2) enqueue(1) a] by blast
    then show ?thesis unfolding s' by (auto simp: store_ok_def loaded_ok_def requests_def split: sum.split)
  qed
next
  case (restart s)
  then show ?case by (simp add: store_ok_def restart_def)
qed

lemma store_invariant: "store_step\<^sup>*\<^sup>* (new_store rows) s \<Longrightarrow> distinct (map q_id rows) \<Longrightarrow> store_ok s"
proof (induction rule: rtranclp_induct)
  case base
  then show ?case by (simp add: store_ok_def new_store_def)
next
  case (step s t)
  then show ?case using store_step_ok by blast
qed

text \<open>What is listed is what the table holds, ordered by its ids alone.\<close>

lemma listed_spec:
  assumes "store_ok s" "isLoaded s"
  shows "set (listed s) = requests s" "map r_id (listed s) = orderByAcceptance (map fst (records s))"
    "distinct (map fst (records s))"
proof -
  have get: "\<exists>r. map_of (records s) i = Some r \<and> r_id r = i \<and> r \<in> requests s" if "i \<in> set (map fst (records s))" for i
  proof -
    have "map_of (records s) i \<noteq> None" using that by (simp add: map_of_eq_None_iff)
    then obtain r where "map_of (records s) i = Some r" by blast
    then show ?thesis using store_okD(4) [OF assms] by blast
  qed
  have "r \<in> set (listed s) \<longleftrightarrow> r \<in> requests s" for r
  proof
    assume "r \<in> set (listed s)"
    then show "r \<in> requests s" using get by (fastforce simp: listed_def)
  next
    assume r: "r \<in> requests s"
    then have "map_of (records s) (r_id r) = Some r" "r_id r \<in> set (map fst (records s))"
      using store_okD(4) [OF assms] known_ids [OF assms] by blast+
    then show "r \<in> set (listed s)" unfolding listed_def set_map [of _ "orderByAcceptance _"] set_orderByAcceptance
      by (metis imageI option.sel)
  qed
  then show "set (listed s) = requests s" by blast
  show "map r_id (listed s) = orderByAcceptance (map fst (records s))"
    unfolding listed_def map_map by (rule map_idI) (use get in fastforce)
  show "distinct (map fst (records s))" using store_okD(1) [OF assms] by (simp add: keys_ok_def)
qed

text \<open>Two loaded stores with the same requests list the same.\<close>

lemma listed_eq:
  assumes "store_ok s" "isLoaded s" "store_ok t" "isLoaded t" "requests s = requests t"
  shows "listed s = listed t"
proof -
  note ls = listed_spec [OF assms(1,2)] and lt = listed_spec [OF assms(3,4)]
  have "set (map fst (records s)) = set (map fst (records t))"
    using known_ids [OF assms(1,2)] known_ids [OF assms(3,4)] assms(5) by simp
  then have m: "mset (map fst (records s)) = mset (map fst (records t))"
    using ls(3) lt(3) by (simp add: set_eq_iff_mset_eq_distinct del: set_map mset_map)
  have look: "map_of (records s) i = map_of (records t) i" for i
    using store_okD(4) [OF assms(1,2), of i] store_okD(4) [OF assms(3,4), of i] assms(5)
    by (cases "map_of (records s) i"; cases "map_of (records t) i") auto
  show ?thesis unfolding listed_def orderByAcceptance_cong [OF m] look ..
qed

lemma list_effect:
  assumes "store_ok s" "\<And>n. \<not> rej n FindAll"
  shows "\<exists>s1. list_requests rej s = Some (Inr (listed s1), s1) \<and> store_ok s1 \<and> isLoaded s1 \<and> requests s1 = requests s"
proof -
  obtain r s1 where l: "load rej s = (r, s1)" by (metis surj_pair)
  note k = load_keeps [OF l assms(1)]
  have "r = Inr ()" using k(7) assms(2) by blast
  then show ?thesis using k(1,2,4) l by (auto simp: list_requests_def run_task_def)
qed

lemma restart_keeps: "store_ok s \<Longrightarrow> store_ok (restart s)" "requests (restart s) = requests s"
  by (simp_all add: store_ok_def restart_def requests_def)


subsection \<open>Properties\<close>

text \<open>C35. The ids are listed in the order in which the requests were accepted, also after the ids have gone past the
  largest one and started at 1 again: for requests given ids one after the other from any id on, some of them finished
  since, \<open>orderByAcceptance\<close> restores their order from the set of ids alone, as long as no gap between two that
  are left is as long as the way from the last of them on to the first.\<close>

theorem acceptance_order:
  "window base ds \<Longrightarrow> mset xs = mset (map (nth_id base) ds) \<Longrightarrow> orderByAcceptance xs = map (nth_id base) ds"
  by (rule order_of_window)

theorem acceptance_order_witness:
  "orderByAcceptance [2, MAX_SAFE_INTEGER - 1, 1, MAX_SAFE_INTEGER] = [MAX_SAFE_INTEGER - 1, MAX_SAFE_INTEGER, 1, 2]"
proof -
  have w: "window (MAX_SAFE_INTEGER - 1) [0, 1, 2, 3]"
    unfolding window_def by (simp add: MAX_SAFE_INTEGER_def All_less_Suc numeral_nat)
  have m: "map (nth_id (MAX_SAFE_INTEGER - 1)) [0, 1, 2, 3] = [MAX_SAFE_INTEGER - 1, MAX_SAFE_INTEGER, 1, 2]"
    by (simp add: nth_id_def)
  have perm: "mset [a, b, c, d] = mset [b, d, c, a]" for a b c d :: int
    by (rule multiset_eqI) simp
  have p: "mset [2, MAX_SAFE_INTEGER - 1, 1, MAX_SAFE_INTEGER] = mset (map (nth_id (MAX_SAFE_INTEGER - 1)) [0, 1, 2, 3])"
    unfolding m by (rule perm)
  show ?thesis using acceptance_order [OF w p] unfolding m .
qed

text \<open>C33. A restart of the manager loses no request and keeps the order: in every state the store can reach, whichever
  calls of the table were rejected before, listing the requests and listing them after a restart give the same, and this
  is exactly what the table holds. (A rejected call has had no effect on the table, and the primary key keeps the ids of the
  rows apart.)\<close>

theorem queue_survives_restart:
  assumes "store_step\<^sup>*\<^sup>* (new_store rows) s" "distinct (map q_id rows)"
  shows "\<exists>L s1 s2. list_requests (\<lambda>n c. False) s = Some (Inr L, s1) \<and>
    list_requests (\<lambda>n c. False) (restart s) = Some (Inr L, s2) \<and> set L = requests s"
proof -
  note ok = store_invariant [OF assms]
  obtain s1 where s1: "list_requests (\<lambda>n c. False) s = Some (Inr (listed s1), s1)" "store_ok s1" "isLoaded s1"
    "requests s1 = requests s" using list_effect [OF ok, of "\<lambda>n c. False"] by metis
  obtain s2 where s2: "list_requests (\<lambda>n c. False) (restart s) = Some (Inr (listed s2), s2)" "store_ok s2" "isLoaded s2"
    "requests s2 = requests s" using list_effect [OF restart_keeps(1) [OF ok], of "\<lambda>n c. False"] unfolding restart_keeps(2) by metis
  have "listed s2 = listed s1" by (rule listed_eq [OF s2(2,3) s1(2,3)]) (simp add: s1(4) s2(4))
  then show ?thesis using s1 s2 listed_spec(1) [OF s1(2,3)] by auto
qed

definition sample_option :: json where
  "sample_option = JObj [(''recordedId'', JNum 7), (''sourceVideoFileId'', JNum 9), (''parentDir'', JStr ''main''),
     (''mode'', JStr ''H.264''), (''removeOriginal'', JBool True)]"

definition sample_rows :: "queue_row list" where
  "sample_rows = [\<lparr>q_id = 3, q_option = Some sample_option, q_outputPath = None, q_createdAt = 1\<rparr>,
     \<lparr>q_id = 1, q_option = Some JNull, q_outputPath = None, q_createdAt = 0\<rparr>]"

lemma sample_add:
  "(case add_request (\<lambda>n c. c = DeleteRow 1) 5 sample_option (Some ''x'') (new_store sample_rows) of
      Some (res, s) \<Rightarrow> res = Inr 4 \<and> map q_id (table s) = [3, 1, 4] \<and> blockedIds s = [1] | None \<Rightarrow> False)"
  by code_simp

theorem queue_survives_restart_witness:
  "\<exists>s L s1 s2. map q_id (table s) = [3, 1, 4] \<and> list_requests (\<lambda>n c. False) s = Some (Inr L, s1) \<and>
    list_requests (\<lambda>n c. False) (restart s) = Some (Inr L, s2) \<and> set L = requests s"
proof -
  obtain s where s: "add_request (\<lambda>n c. c = DeleteRow 1) 5 sample_option (Some ''x'') (new_store sample_rows) = Some (Inr 4, s)"
    "map q_id (table s) = [3, 1, 4]" using sample_add by (auto split: option.splits)
  have "isAddEncodeProgramOption sample_option" by code_simp
  then have r: "store_step\<^sup>*\<^sup>* (new_store sample_rows) s" using s(1) by - (rule r_into_rtranclp, rule store_step.add)
  have "distinct (map q_id sample_rows)" by code_simp
  then show ?thesis using queue_survives_restart [OF r] s(2) by (intro exI [of _ s]) simp
qed

text \<open>C34. Accepting a request is exact: in every state the store can reach, a request is either refused, and then the
  table holds the same requests as before, or it gets an id from 1 to the largest safe integer that no request has, and
  the table holds exactly one more, the request as it was given; giving it up by its token afterwards restores the
  requests. (A rejected call has had no effect on the table.)\<close>

theorem add_request_exact:
  assumes "store_step\<^sup>*\<^sup>* (new_store rows) s" "distinct (map q_id rows)" "isAddEncodeProgramOption opt"
    and "add_request rejects now opt (Some t) s = Some (res, s1)"
  shows "case res of
      Inl e \<Rightarrow> requests s1 = requests s
    | Inr i \<Rightarrow> i \<in> {1..MAX_SAFE_INTEGER} \<and> i \<notin> r_id ` requests s \<and>
        requests s1 = insert \<lparr>r_id = i, r_option = opt, r_outputPath = None, r_createdAt = now\<rparr> (requests s) \<and>
        (\<exists>s2. abandon (\<lambda>n c. False) t s1 = Some (Inr (), s2) \<and> requests s2 = requests s)"
proof -
  note eff = add_request_effect [OF store_invariant [OF assms(1,2)] assms(3,4)]
  show ?thesis
  proof (cases res)
    case (Inl e)
    then show ?thesis using eff by simp
  next
    case (Inr i)
    have l: "isLoaded s1" "store_ok s1" "map_of (requestTokens s1) t = Some i" using eff Inr by simp_all
    obtain r s2 where d: "deleteRecord (\<lambda>n c. False) i s1 = (r, s2)" by (metis surj_pair)
    have "r = Inr ()" using d by (auto simp: deleteRecord_def db_run_def Let_def)
    then have "abandon (\<lambda>n c. False) t s1 = Some (Inr (), s2)"
      using d l by (simp add: abandon_def run_task_def load_def)
    moreover have "requests s2 = {r \<in> requests s1. r_id r \<noteq> i}"
      using deleteRecord_effect [OF l(2,1) d] \<open>r = Inr ()\<close> by simp
    moreover have "\<dots> = requests s" using eff Inr by auto
    ultimately show ?thesis using eff Inr by simp
  qed
qed

theorem add_request_exact_witness:
  "\<exists>s1 s2. abandon (\<lambda>n c. False) ''x'' s1 = Some (Inr (), s2) \<and> requests s2 = requests (new_store sample_rows) \<and>
     map q_id (table s1) = [3, 1, 4]"
proof -
  obtain s where s: "add_request (\<lambda>n c. c = DeleteRow 1) 5 sample_option (Some ''x'') (new_store sample_rows) = Some (Inr 4, s)"
    "map q_id (table s) = [3, 1, 4]" using sample_add by (auto split: option.splits)
  have a: "isAddEncodeProgramOption sample_option" "distinct (map q_id sample_rows)" by code_simp+
  note e = add_request_exact [OF rtranclp.rtrancl_refl a(2,1) s(1), unfolded sum.case]
  then obtain s2 where "abandon (\<lambda>n c. False) ''x'' s = Some (Inr (), s2)" "requests s2 = requests (new_store sample_rows)"
    by (elim conjE exE)
  then show ?thesis using s(2) by (intro exI [of _ s] exI [of _ s2] conjI)
qed

text \<open>C36. Whatever rows the table holds, text that is no JSON, JSON of another shape and ids out of bounds included,
  every record that the list returns is well typed: its option has the fields of an encode request with their types, and its id
  is an integer from 1 to the largest safe one; and no id is listed twice.\<close>

theorem listed_records_typed:
  assumes "store_step\<^sup>*\<^sup>* (new_store rows) s" "distinct (map q_id rows)"
    and "list_requests rejects s = Some (Inr L, s1)"
  shows "list_all (\<lambda>r. isAddEncodeProgramOption (r_option r) \<and> 1 \<le> r_id r \<and> r_id r \<le> MAX_SAFE_INTEGER) L \<and>
    distinct (map r_id L)"
proof -
  obtain s0 where s0: "store_ok s0" "isLoaded s0" "L = listed s0"
    using assms(3) store_invariant [OF assms(1,2)] unfolding list_requests_def by (cases rule: run_task_cases) auto
  have "distinct (orderByAcceptance (map fst (records s0)))"
    by (rule distinct_order [OF listed_spec(3) [OF s0(1,2)]])
  then show ?thesis using listed_spec [OF s0(1,2)] requests_typed s0(3) by (auto simp: list_all_iff)
qed

theorem listed_records_typed_witness:
  "\<exists>L s. list_requests (\<lambda>n c. c = DeleteRow 1) (new_store sample_rows) = Some (Inr L, s) \<and> map r_id L = [3] \<and>
     list_all (\<lambda>r. isAddEncodeProgramOption (r_option r) \<and> 1 \<le> r_id r \<and> r_id r \<le> MAX_SAFE_INTEGER) L"
proof -
  have "case list_requests (\<lambda>n c. c = DeleteRow 1) (new_store sample_rows) of
     Some (Inr L, s) \<Rightarrow> map r_id L = [3] | _ \<Rightarrow> False" by code_simp
  then obtain L s where l: "list_requests (\<lambda>n c. c = DeleteRow 1) (new_store sample_rows) = Some (Inr L, s)" "map r_id L = [3]"
    by (auto split: option.splits sum.splits)
  have "distinct (map q_id sample_rows)" by code_simp
  then show ?thesis using listed_records_typed [OF rtranclp.rtrancl_refl _ l(1)] l by (intro exI conjI) simp_all
qed

end
