(* ===== verification/Encode_Manage.thy ===== *)
theory Encode_Manage
  imports Encode_Suspend
begin

text \<open>
  The queue of the encodes of the service process (\<open>src/src/model/service/encode/EncodeManageModel.ts\<close>)
  as a machine: every call of the manager is an operation with a number, and a step is the stretch of code from one
  \<open>await\<close> to the next, so the operations interleave in every order that the code allows. The execution
  lock (the theory \<open>Exec_Lock\<close>) grants or refuses a request for it; the recorded-resource port, the port of the
  queue store, the provider of the encoders and the encoders answer as they like. Encoders and leases are
  numbered in the order of their creation.
\<close>

subsection \<open>Data\<close>

record add_option =
  a_recordedId :: int
  a_sourceVideoFileId :: int
  a_parentDir :: string
  a_directory :: "string option"
  a_mode :: string
  a_removeOriginal :: bool

record encode_option = add_option +
  encodeId :: int

record persisted_record =
  p_id :: int
  p_option :: add_option
  p_outputPath :: "string option"

record finish_info =
  fi_recordedId :: int
  fi_videoFileId :: int
  fi_parentDirName :: string
  fi_filePath :: "string option"
  fi_fullOutputPath :: "string option"
  fi_mode :: string
  fi_removeOriginal :: bool

record use_lease =
  releasePromise :: bool
  terminalPromise :: bool

datatype encode_event = AddEncode int | CancelEncode int | ErrorEncode

text \<open>What follows when one cancellation ends: nothing, or those that \<open>cancelEncodeByRecordedId\<close> has left, with
  \<open>isError\<close>.\<close>

datatype cancel_rest = JustCancel | ThenCancel "int list" bool

text \<open>What the release of the use belongs to: an encode that could not be started, one that has ended, or the item of a
  cancellation.\<close>

datatype release_for = AfterStart | AfterFinish | AfterSettlement | AfterCancel nat

text \<open>Where an operation is waiting.\<close>

datatype op =
    WaitPush add_option
  | WaitPersisted int add_option
  | WaitCancel int cancel_rest
  | WaitCancelRecorded int
  | AdmitExec "int option" add_option
  | AdmitAcquire "int option" add_option
  | AdmitRecord add_option nat
  | AdmitEncoder "int option" add_option int nat
  | AdmitRemove err nat
  | AdmitRelease "int option" err
  | PersistedRemove int
  | CheckExec
  | CheckStart nat
  | FinalExec nat release_for
  | Settling nat
  | ReleaseRecord nat release_for
  | ReleaseLease nat release_for
  | CancelExec int cancel_rest
  | CancelRunning cancel_rest
  | CancelReleasing nat cancel_rest
  | RestoreList
  | RestoreJudge persisted_record "persisted_record list"
  | RestoreAcquire persisted_record "persisted_record list"
  | RestoreDrop "persisted_record list"
  | RestoreEncoder persisted_record nat "persisted_record list"
  | RestoreRelease "persisted_record list"

record encode_manager =
  concurrentEncodeNum :: int
  encodeQueueLimit :: int
  encodeSuspendTimes :: "suspend_time list"
  hasStore :: bool
  encoderOption :: "nat \<Rightarrow> encode_option option"
  nextEncoder :: nat
  startedEncoders :: "nat list"
  admissionReservations :: int
  waitQueue :: "nat list"
  runningQueue :: "nat list"
  leases :: "use_lease list"
  recordedUseLeases :: "(nat, nat) jsmap"
  suspendResumeTimer :: "int option"
  restoreStarted :: bool
  restoring :: bool
  restoreRetryTimer :: bool
  listedEncodeIds :: "int list"
  admittingEncodeIds :: "int list"
  processLocalNextEncodeId :: int
  ops :: "(nat, op) jsmap"
  nextOp :: nat
  ticks :: nat
  lost_checks :: nat
  granted_to :: "nat list"
  unlocked_by :: "nat list"
  released_leases :: "nat list"
  removed_records :: "int list"
  removed_outputs :: "string list"
  restored :: nat
  abandoned :: nat
  encode_events :: "encode_event list"
  finishes :: "finish_info list"
  answers :: "(nat \<times> int result) list"

definition DEFAULT_QUEUE_LIMIT :: int where
  "DEFAULT_QUEUE_LIMIT = 1024"

text \<open>The constructor; \<open>None\<close> for a setting that the configuration does not have. A limit that is no safe integer
  is refused like one below 1.\<close>

definition new_encode_manager :: "int \<Rightarrow> int option \<Rightarrow> json option \<Rightarrow> bool \<Rightarrow> encode_manager result" where
  "new_encode_manager concurrent queueLimit suspendTimes store =
     (let limit = (case queueLimit of None \<Rightarrow> DEFAULT_QUEUE_LIMIT | Some l \<Rightarrow> l)
      in if \<not> isSafeInteger limit \<or> limit < 1 then Inl (Thrown ''InvalidEncodeQueueLimit'')
         else case (case suspendTimes of None \<Rightarrow> Inr [] | Some v \<Rightarrow> parseSuspendTimes v) of
           Inl e \<Rightarrow> Inl e
         | Inr ts \<Rightarrow> Inr \<lparr>concurrentEncodeNum = concurrent, encodeQueueLimit = limit, encodeSuspendTimes = ts,
             hasStore = store, encoderOption = (\<lambda>_. None), nextEncoder = 0, startedEncoders = [],
             admissionReservations = 0, waitQueue = [], runningQueue = [], leases = [], recordedUseLeases = [],
             suspendResumeTimer = None, restoreStarted = False, restoring = False, restoreRetryTimer = False,
             listedEncodeIds = [], admittingEncodeIds = [], processLocalNextEncodeId = 1, ops = [], nextOp = 0,
             ticks = 0, lost_checks = 0, granted_to = [], unlocked_by = [], released_leases = [], removed_records = [],
             removed_outputs = [], restored = 0,             abandoned = 0, encode_events = [], finishes = [], answers = []\<rparr>)"

subsection \<open>Operations, the lock and the leases\<close>

definition set_op :: "nat \<Rightarrow> op \<Rightarrow> encode_manager \<Rightarrow> encode_manager" where
  "set_op n p s = s\<lparr>ops := map_set n p (ops s)\<rparr>"

definition end_op :: "nat \<Rightarrow> encode_manager \<Rightarrow> encode_manager" where
  "end_op n s = s\<lparr>ops := map_delete n (ops s)\<rparr>"

definition new_op :: "op \<Rightarrow> encode_manager \<Rightarrow> encode_manager" where
  "new_op p s = s\<lparr>ops := map_set (nextOp s) p (ops s), nextOp := nextOp s + 1\<rparr>"

definition answer :: "nat \<Rightarrow> int result \<Rightarrow> encode_manager \<Rightarrow> encode_manager" where
  "answer n r s = end_op n (s\<lparr>answers := answers s @ [(n, r)]\<rparr>)"

definition granted :: "nat \<Rightarrow> encode_manager \<Rightarrow> encode_manager" where
  "granted n s = s\<lparr>granted_to := granted_to s @ [n]\<rparr>"

definition unlock :: "nat \<Rightarrow> encode_manager \<Rightarrow> encode_manager" where
  "unlock n s = s\<lparr>unlocked_by := unlocked_by s @ [n]\<rparr>"

definition emit_event :: "encode_event \<Rightarrow> encode_manager \<Rightarrow> encode_manager" where
  "emit_event e s = s\<lparr>encode_events := encode_events s @ [e]\<rparr>"

definition new_lease :: "encode_manager \<Rightarrow> nat \<times> encode_manager" where
  "new_lease s = (length (leases s), s\<lparr>leases := leases s @ [\<lparr>releasePromise = False, terminalPromise = False\<rparr>]\<rparr>)"

definition releaseRecordedUse :: "nat \<Rightarrow> encode_manager \<Rightarrow> encode_manager" where
  "releaseRecordedUse l s =
     (if releasePromise (leases s ! l) then s
      else s\<lparr>leases := (leases s)[l := (leases s ! l)\<lparr>releasePromise := True\<rparr>], released_leases := released_leases s @ [l]\<rparr>)"

definition removeRecord :: "int \<Rightarrow> encode_manager \<Rightarrow> encode_manager" where
  "removeRecord i s = (if \<not> hasStore s then s else s\<lparr>removed_records := removed_records s @ [i]\<rparr>)"

definition getEncodeId :: "encode_manager \<Rightarrow> nat \<Rightarrow> int option" where
  "getEncodeId s e = map_option encodeId (encoderOption s e)"

definition hasQueuedEncodeId :: "int \<Rightarrow> encode_manager \<Rightarrow> bool" where
  "hasQueuedEncodeId i s = list_ex (\<lambda>e. getEncodeId s e = Some i) (runningQueue s @ waitQueue s)"

definition isEncodeIdInUse :: "int \<Rightarrow> encode_manager \<Rightarrow> bool" where
  "isEncodeIdInUse i s = (hasQueuedEncodeId i s \<or> i \<in> set (admittingEncodeIds s))"

definition createEncodeOption :: "add_option \<Rightarrow> int \<Rightarrow> encode_option" where
  "createEncodeOption base i = \<lparr>a_recordedId = a_recordedId base, a_sourceVideoFileId = a_sourceVideoFileId base,
     a_parentDir = a_parentDir base, a_directory = a_directory base, a_mode = a_mode base,
     a_removeOriginal = a_removeOriginal base, encodeId = i\<rparr>"

text \<open>The encoder that the provider returns gets its option and its lease and is queued.\<close>

definition queue_encoder :: "add_option \<Rightarrow> int \<Rightarrow> nat \<Rightarrow> encode_manager \<Rightarrow> encode_manager" where
  "queue_encoder opt i l s =
     (let e = nextEncoder s
      in s\<lparr>nextEncoder := e + 1, encoderOption := (encoderOption s)(e := Some (createEncodeOption opt i)),
           recordedUseLeases := map_set e l (recordedUseLeases s), waitQueue := waitQueue s @ [e]\<rparr>)"

subsection \<open>Requests to look at the queue\<close>

definition SUSPEND_RECHECK_MAX_DELAY_MS :: int where
  "SUSPEND_RECHECK_MAX_DELAY_MS = 60 * 1000"

text \<open>\<open>now\<close> is the local time as milliseconds of the day.\<close>

definition scheduleSuspendResume :: "int \<Rightarrow> int \<Rightarrow> encode_manager \<Rightarrow> encode_manager" where
  "scheduleSuspendResume now remainingMinutes s =
     (if suspendResumeTimer s \<noteq> None then s
      else s\<lparr>suspendResumeTimer := Some (min (remainingMinutes * 60 * 1000 - now mod 60000) SUSPEND_RECHECK_MAX_DELAY_MS)\<rparr>)"

text \<open>\<open>emitNeedsCheckQueue\<close> calls \<open>requestCheckQueue\<close> at once.\<close>

definition requestCheckQueue :: "int \<Rightarrow> encode_manager \<Rightarrow> encode_manager" where
  "requestCheckQueue now s = (case getSuspendRemainingMinutes (encodeSuspendTimes s) (now div 60000) of
     None \<Rightarrow> new_op CheckExec s
   | Some minutes \<Rightarrow> if length (waitQueue s) > 0 then scheduleSuspendResume now minutes s else s)"

fun request_checks :: "nat \<Rightarrow> int \<Rightarrow> encode_manager \<Rightarrow> encode_manager" where
  "request_checks 0 now s = s"
| "request_checks (Suc k) now s = request_checks k now (requestCheckQueue now s)"

definition checkCount :: "encode_manager \<Rightarrow> nat" where
  "checkCount s = nat (min (concurrentEncodeNum s - int (length (runningQueue s))) (int (length (waitQueue s))))"

definition suspend_timer_fires :: "int \<Rightarrow> encode_manager \<Rightarrow> encode_manager" where
  "suspend_timer_fires now s = (let s1 = s\<lparr>suspendResumeTimer := None\<rparr> in request_checks (checkCount s1) now s1)"

definition tick :: "int \<Rightarrow> encode_manager \<Rightarrow> encode_manager" where
  "tick now s = requestCheckQueue now (s\<lparr>ticks := ticks s - 1\<rparr>)"

subsection \<open>Admission\<close>

text \<open>The promise of \<open>admit\<close> is rejected; \<open>pushPersisted\<close> then removes the record.\<close>

definition admit_rejected :: "nat \<Rightarrow> int option \<Rightarrow> err \<Rightarrow> encode_manager \<Rightarrow> encode_manager" where
  "admit_rejected n persisted e s = (case persisted of
     None \<Rightarrow> answer n (Inl e) s
   | Some i \<Rightarrow> set_op n (PersistedRemove i) (removeRecord i s))"

definition admit :: "nat \<Rightarrow> int option \<Rightarrow> add_option \<Rightarrow> encode_manager \<Rightarrow> encode_manager" where
  "admit n persisted opt s =
     (if concurrentEncodeNum s \<le> 0 then admit_rejected n persisted (Thrown ''ConcurrentEncodeNumIsZero'') s
      else if admissionReservations s + int (length (waitQueue s)) \<ge> encodeQueueLimit s
      then admit_rejected n persisted (Thrown ''EncodeQueueIsFull'') s
      else set_op n (AdmitExec persisted opt) (s\<lparr>admissionReservations := admissionReservations s + 1\<rparr>))"

definition push :: "add_option \<Rightarrow> encode_manager \<Rightarrow> encode_manager" where
  "push opt s =
     (let n = nextOp s; s1 = s\<lparr>nextOp := n + 1\<rparr>
      in if restoring s then set_op n (WaitPush opt) s1 else admit n None opt s1)"

definition persisted_admission :: "nat \<Rightarrow> int \<Rightarrow> add_option \<Rightarrow> encode_manager \<Rightarrow> encode_manager" where
  "persisted_admission n i opt s =
     (if isEncodeIdInUse i s \<or> i \<in> set (listedEncodeIds s) then answer n (Inr i) s
      else admit n (Some i) opt (s\<lparr>admittingEncodeIds := set_add (admittingEncodeIds s) i\<rparr>))"

definition pushPersisted :: "int \<Rightarrow> add_option \<Rightarrow> encode_manager \<Rightarrow> encode_manager" where
  "pushPersisted i opt s =
     (let n = nextOp s; s1 = s\<lparr>nextOp := n + 1\<rparr>
      in if restoring s then set_op n (WaitPersisted i opt) s1 else persisted_admission n i opt s1)"

definition persisted_ends :: "nat \<Rightarrow> int \<Rightarrow> encode_manager \<Rightarrow> encode_manager" where
  "persisted_ends n i s = answer n (Inr i) (s\<lparr>admittingEncodeIds := filter (\<lambda>j. j \<noteq> i) (admittingEncodeIds s)\<rparr>)"

text \<open>The end of the error path, from the \<open>finally\<close> block on.\<close>

definition admit_fails :: "nat \<Rightarrow> int option \<Rightarrow> err \<Rightarrow> encode_manager \<Rightarrow> encode_manager" where
  "admit_fails n persisted e s =
     (let s1 = unlock n s
      in admit_rejected n persisted e (s1\<lparr>admissionReservations := admissionReservations s1 - 1\<rparr>))"

definition admit_exec :: "nat \<Rightarrow> int option \<Rightarrow> add_option \<Rightarrow> err option \<Rightarrow> encode_manager \<Rightarrow> encode_manager" where
  "admit_exec n persisted opt refused s = (case refused of
     None \<Rightarrow> set_op n (AdmitAcquire persisted opt) (granted n s)
   | Some e \<Rightarrow> admit_rejected n persisted e (s\<lparr>admissionReservations := admissionReservations s - 1\<rparr>))"

text \<open>\<open>acquired\<close> is the answer of the port: whether it is a lease with a token.\<close>

definition admit_acquired :: "nat \<Rightarrow> int option \<Rightarrow> add_option \<Rightarrow> bool result \<Rightarrow> encode_manager \<Rightarrow> encode_manager" where
  "admit_acquired n persisted opt acquired s = (case acquired of
     Inl e \<Rightarrow> admit_fails n persisted e s
   | Inr False \<Rightarrow> admit_fails n persisted (Thrown ''InvalidRecordedResourceUseLease'') s
   | Inr True \<Rightarrow>
       (let (l, s1) = new_lease s
        in case persisted of
             Some i \<Rightarrow> set_op n (AdmitEncoder persisted opt i l) s1
           | None \<Rightarrow>
               if hasStore s1 then set_op n (AdmitRecord opt l) s1
               else set_op n (AdmitEncoder persisted opt (processLocalNextEncodeId s1) l)
                      (s1\<lparr>processLocalNextEncodeId := processLocalNextEncodeId s1 + 1\<rparr>)))"

definition admit_recorded :: "nat \<Rightarrow> add_option \<Rightarrow> nat \<Rightarrow> int result \<Rightarrow> encode_manager \<Rightarrow> encode_manager" where
  "admit_recorded n opt l recorded s = (case recorded of
     Inr i \<Rightarrow> set_op n (AdmitEncoder None opt i l) s
   | Inl e \<Rightarrow> set_op n (AdmitRelease None e) (releaseRecordedUse l (s\<lparr>abandoned := abandoned s + 1\<rparr>)))"

text \<open>The provider rejects, or a listener of the event throws after the encoder has been queued, or all is well.\<close>

datatype encoder_outcome = NoEncoder err | ListenerThrew err | EncoderReady

definition admit_undo :: "nat \<Rightarrow> int option \<Rightarrow> int \<Rightarrow> nat \<Rightarrow> err \<Rightarrow> encode_manager \<Rightarrow> encode_manager" where
  "admit_undo n persisted i l e s = (case persisted of
     None \<Rightarrow> set_op n (AdmitRemove e l) (removeRecord i s)
   | Some j \<Rightarrow> set_op n (AdmitRelease persisted e) (releaseRecordedUse l s))"

definition admit_encoder :: "nat \<Rightarrow> int option \<Rightarrow> add_option \<Rightarrow> int \<Rightarrow> nat \<Rightarrow> encoder_outcome \<Rightarrow> int \<Rightarrow> encode_manager \<Rightarrow> encode_manager" where
  "admit_encoder n persisted opt i l outcome now s = (case outcome of
     NoEncoder e \<Rightarrow> admit_undo n persisted i l e s
   | ListenerThrew e \<Rightarrow>
       (let encoder = nextEncoder s; s1 = emit_event (AddEncode i) (queue_encoder opt i l s)
        in admit_undo n persisted i l e (s1\<lparr>waitQueue := filter (\<lambda>item. item \<noteq> encoder) (waitQueue s1)\<rparr>))
   | EncoderReady \<Rightarrow>
       (let s1 = emit_event (AddEncode i) (queue_encoder opt i l s);
            s2 = requestCheckQueue now (unlock n (s1\<lparr>admissionReservations := admissionReservations s1 - 1\<rparr>))
        in case persisted of None \<Rightarrow> answer n (Inr i) s2 | Some j \<Rightarrow> persisted_ends n j s2))"

definition admit_removed :: "nat \<Rightarrow> err \<Rightarrow> nat \<Rightarrow> encode_manager \<Rightarrow> encode_manager" where
  "admit_removed n e l s = set_op n (AdmitRelease None e) (releaseRecordedUse l s)"

subsection \<open>The end of an encode\<close>

definition start_release :: "nat \<Rightarrow> nat \<Rightarrow> release_for \<Rightarrow> encode_manager \<Rightarrow> encode_manager" where
  "start_release n e k s =
     set_op n (ReleaseRecord e k) (case getEncodeId s e of None \<Rightarrow> s | Some i \<Rightarrow> removeRecord i s)"

definition start_cancel :: "nat \<Rightarrow> int \<Rightarrow> cancel_rest \<Rightarrow> encode_manager \<Rightarrow> encode_manager" where
  "start_cancel n i rest s = (if restoring s then set_op n (WaitCancel i rest) s else set_op n (CancelExec i rest) s)"

text \<open>One cancellation has ended, \<open>failed\<close> with an error.\<close>

definition cancel_ends :: "nat \<Rightarrow> cancel_rest \<Rightarrow> err option \<Rightarrow> encode_manager \<Rightarrow> encode_manager" where
  "cancel_ends n rest failed s = (case rest of
     JustCancel \<Rightarrow> answer n (case failed of None \<Rightarrow> Inr 0 | Some e \<Rightarrow> Inl e) s
   | ThenCancel [] isError \<Rightarrow>
       answer n (if isError \<or> failed \<noteq> None then Inl (Thrown ''StopEncodeError'') else Inr 0) s
   | ThenCancel (i # is) isError \<Rightarrow> start_cancel n i (ThenCancel is (isError \<or> failed \<noteq> None)) s)"

definition cancel_released :: "nat \<Rightarrow> cancel_rest \<Rightarrow> encode_manager \<Rightarrow> encode_manager" where
  "cancel_released n rest s = cancel_ends n rest None (unlock n (s\<lparr>ticks := ticks s + 1\<rparr>))"

text \<open>One item of the \<open>Promise.all\<close> of \<open>cancel\<close> has been released.\<close>

definition item_released :: "nat \<Rightarrow> encode_manager \<Rightarrow> encode_manager" where
  "item_released parent s = (case map_of (ops s) parent of
     Some (CancelReleasing k rest) \<Rightarrow>
       if k \<le> 1 then cancel_released parent rest s else set_op parent (CancelReleasing (k - 1) rest) s
   | _ \<Rightarrow> s)"

definition release_done :: "nat \<Rightarrow> release_for \<Rightarrow> int \<Rightarrow> encode_manager \<Rightarrow> encode_manager" where
  "release_done n k now s = (case k of
     AfterStart \<Rightarrow> requestCheckQueue now (end_op n s)
   | AfterCancel parent \<Rightarrow> item_released parent (end_op n s)
   | _ \<Rightarrow> end_op n s)"

text \<open>The record has been removed.\<close>

definition record_removed :: "nat \<Rightarrow> nat \<Rightarrow> release_for \<Rightarrow> int \<Rightarrow> encode_manager \<Rightarrow> encode_manager" where
  "record_removed n e k now s = (case map_of (recordedUseLeases s) e of
     None \<Rightarrow> release_done n k now s
   | Some l \<Rightarrow> set_op n (ReleaseLease e k) (releaseRecordedUse l s))"

definition finalize :: "nat \<Rightarrow> nat \<Rightarrow> release_for \<Rightarrow> bool \<Rightarrow> encode_manager \<Rightarrow> encode_manager" where
  "finalize n e k isGranted s =
     (let s1 = (if \<not> isGranted then s
                else let s2 = granted n s;
                         s3 = unlock n (s2\<lparr>runningQueue := filter (\<lambda>q. getEncodeId s2 q \<noteq> getEncodeId s2 e) (runningQueue s2)\<rparr>)
                     in if k = AfterStart then s3 else s3\<lparr>ticks := ticks s3 + 1\<rparr>)
      in if k = AfterSettlement then set_op n (Settling e) s1 else start_release n e k s1)"

text \<open>\<open>checkQueue\<close>.\<close>

definition check_exec :: "nat \<Rightarrow> bool \<Rightarrow> encode_manager \<Rightarrow> encode_manager" where
  "check_exec n isGranted s =
     (if \<not> isGranted then end_op n (s\<lparr>lost_checks := lost_checks s + 1\<rparr>)
      else let s1 = granted n s
           in if int (length (runningQueue s1)) \<ge> concurrentEncodeNum s1 \<or> length (waitQueue s1) = 0 then end_op n (unlock n s1)
              else case waitQueue s1 of
                [] \<Rightarrow> end_op n (unlock n s1)
              | encoder # rest \<Rightarrow>
                  (let s2 = s1\<lparr>waitQueue := rest\<rparr>
                   in case encoderOption s2 encoder of
                        None \<Rightarrow> start_release n encoder AfterStart (unlock n s2)
                      | Some opt \<Rightarrow> set_op n (CheckStart encoder) (s2\<lparr>runningQueue := runningQueue s2 @ [encoder],
                          startedEncoders := startedEncoders s2 @ [encoder]\<rparr>)))"

definition check_started :: "nat \<Rightarrow> nat \<Rightarrow> bool \<Rightarrow> encode_manager \<Rightarrow> encode_manager" where
  "check_started n e started s =
     (if started then end_op n (unlock n s) else set_op n (FinalExec e AfterStart) (unlock n (emit_event ErrorEncode s)))"

definition hasSamVideoFileIdItem :: "int \<Rightarrow> int \<Rightarrow> encode_manager \<Rightarrow> bool" where
  "hasSamVideoFileIdItem videoFileId excludeEncodeId s =
     (let other = (\<lambda>e. case encoderOption s e of None \<Rightarrow> False
        | Some opt \<Rightarrow> a_sourceVideoFileId opt = videoFileId \<and> encodeId opt \<noteq> excludeEncodeId)
      in list_ex other (runningQueue s) \<or> list_ex other (waitQueue s))"

text \<open>\<open>base\<close> and \<open>join\<close> are \<open>basename\<close> and \<open>join\<close> of the library \<open>path\<close>.\<close>

definition createFinishEncodeInfo :: "(string \<Rightarrow> string) \<Rightarrow> (string \<Rightarrow> string \<Rightarrow> string) \<Rightarrow> nat \<Rightarrow> encode_option \<Rightarrow> string option \<Rightarrow>
    encode_manager \<Rightarrow> finish_info \<times> encode_manager" where
  "createFinishEncodeInfo base join e opt output s =
     (let keep = a_removeOriginal opt \<and> hasSamVideoFileIdItem (a_sourceVideoFileId opt) (encodeId opt) s;
          opt1 = (if keep then opt\<lparr>a_removeOriginal := False\<rparr> else opt)
      in (\<lparr>fi_recordedId = a_recordedId opt1, fi_videoFileId = a_sourceVideoFileId opt1, fi_parentDirName = a_parentDir opt1,
            fi_filePath = (case output of None \<Rightarrow> None
              | Some f \<Rightarrow> Some (case a_directory opt1 of None \<Rightarrow> base f | Some d \<Rightarrow> join d (base f))),
            fi_fullOutputPath = output, fi_mode = a_mode opt1, fi_removeOriginal = a_removeOriginal opt1\<rparr>,
          s\<lparr>encoderOption := (encoderOption s)(e := Some opt1)\<rparr>))"

text \<open>\<open>finish\<close> up to its first await. The option is the one the encoder was started with; every encoder that
  was started has one.\<close>

definition finish :: "(string \<Rightarrow> string) \<Rightarrow> (string \<Rightarrow> string \<Rightarrow> string) \<Rightarrow> nat \<Rightarrow> bool \<Rightarrow> string option \<Rightarrow> encode_manager \<Rightarrow> encode_manager" where
  "finish base join e isError output s = (case encoderOption s e of
     None \<Rightarrow> s
   | Some opt \<Rightarrow>
       if isError then new_op (FinalExec e AfterFinish) (emit_event ErrorEncode s)
       else (let (info, s1) = createFinishEncodeInfo base join e opt output s
             in new_op (FinalExec e AfterSettlement) (s1\<lparr>finishes := finishes s1 @ [info]\<rparr>)))"

definition onFinish :: "(string \<Rightarrow> string) \<Rightarrow> (string \<Rightarrow> string \<Rightarrow> string) \<Rightarrow> nat \<Rightarrow> bool \<Rightarrow> string option \<Rightarrow> encode_manager \<Rightarrow> encode_manager" where
  "onFinish base join e isError output s = (case map_of (recordedUseLeases s) e of
     None \<Rightarrow> finish base join e isError output s
   | Some l \<Rightarrow>
       if terminalPromise (leases s ! l) then s
       else finish base join e isError output (s\<lparr>leases := (leases s)[l := (leases s ! l)\<lparr>terminalPromise := True\<rparr>]\<rparr>))"

subsection \<open>Cancellation\<close>

definition cancel_encode :: "int \<Rightarrow> encode_manager \<Rightarrow> encode_manager" where
  "cancel_encode i s = (let n = nextOp s in start_cancel n i JustCancel (s\<lparr>nextOp := n + 1\<rparr>))"

fun release_items :: "nat list \<Rightarrow> nat \<Rightarrow> encode_manager \<Rightarrow> encode_manager" where
  "release_items [] parent s = s"
| "release_items (e # es) parent s =
     (let n = nextOp s in release_items es parent (start_release n e (AfterCancel parent) (s\<lparr>nextOp := n + 1\<rparr>)))"

definition cancel_exec :: "nat \<Rightarrow> int \<Rightarrow> cancel_rest \<Rightarrow> err option \<Rightarrow> encode_manager \<Rightarrow> encode_manager" where
  "cancel_exec n i rest refused s = (case refused of
     Some e \<Rightarrow> cancel_ends n rest (Some e) s
   | None \<Rightarrow>
       (let s1 = emit_event (CancelEncode i) (granted n s)
        in if list_ex (\<lambda>q. getEncodeId s1 q = Some i) (runningQueue s1) then set_op n (CancelRunning rest) s1
           else let canceledItems = filter (\<lambda>q. getEncodeId s1 q = Some i) (waitQueue s1);
                    s2 = s1\<lparr>waitQueue := filter (\<lambda>q. getEncodeId s1 q \<noteq> Some i) (waitQueue s1)\<rparr>
                in if canceledItems = [] then cancel_released n rest s2
                   else release_items canceledItems n (set_op n (CancelReleasing (length canceledItems) rest) s2)))"

definition cancel_running_done :: "nat \<Rightarrow> cancel_rest \<Rightarrow> err option \<Rightarrow> encode_manager \<Rightarrow> encode_manager" where
  "cancel_running_done n rest failed s = cancel_ends n rest failed (unlock n s)"

definition ids_of_recorded :: "int \<Rightarrow> encode_manager \<Rightarrow> int list" where
  "ids_of_recorded r s = concat (map (\<lambda>e. case encoderOption s e of None \<Rightarrow> []
     | Some opt \<Rightarrow> if a_recordedId opt = r then [encodeId opt] else []) (waitQueue s @ runningQueue s))"

definition cancel_recorded :: "nat \<Rightarrow> int \<Rightarrow> encode_manager \<Rightarrow> encode_manager" where
  "cancel_recorded n r s = cancel_ends n (ThenCancel (ids_of_recorded r s) False) None s"

definition cancelEncodeByRecordedId :: "int \<Rightarrow> encode_manager \<Rightarrow> encode_manager" where
  "cancelEncodeByRecordedId r s =
     (let n = nextOp s; s1 = s\<lparr>nextOp := n + 1\<rparr>
      in if restoring s then set_op n (WaitCancelRecorded r) s1 else cancel_recorded n r s1)"

subsection \<open>The restoration at the start\<close>

definition runRestoration :: "encode_manager \<Rightarrow> encode_manager" where
  "runRestoration s = new_op RestoreList (s\<lparr>restoring := True\<rparr>)"

definition restore :: "encode_manager \<Rightarrow> encode_manager" where
  "restore s = (if restoreStarted s then s else runRestoration (s\<lparr>restoreStarted := True\<rparr>))"

definition restoration_ends :: "nat \<Rightarrow> encode_manager \<Rightarrow> encode_manager" where
  "restoration_ends n s = end_op n (s\<lparr>restoring := False\<rparr>)"

fun restore_loop :: "nat \<Rightarrow> persisted_record list \<Rightarrow> int \<Rightarrow> encode_manager \<Rightarrow> encode_manager" where
  "restore_loop n [] now s = restoration_ends n (request_checks (checkCount s) now s)"
| "restore_loop n (r # rs) now s =
     (if isEncodeIdInUse (p_id r) s then restore_loop n rs now s else set_op n (RestoreJudge r rs) s)"

text \<open>The records that the store lists; without a store nothing is restored.\<close>

definition restore_listed :: "nat \<Rightarrow> persisted_record list result \<Rightarrow> int \<Rightarrow> encode_manager \<Rightarrow> encode_manager" where
  "restore_listed n listing now s =
     (if \<not> hasStore s then restoration_ends n s
      else case listing of
        Inl e \<Rightarrow> restoration_ends n (s\<lparr>restoreRetryTimer := True\<rparr>)
      | Inr rs \<Rightarrow> restore_loop n rs now (s\<lparr>listedEncodeIds := foldl set_add (listedEncodeIds s) (map p_id rs)\<rparr>))"

definition retry_timer_fires :: "encode_manager \<Rightarrow> encode_manager" where
  "retry_timer_fires s = runRestoration (s\<lparr>restoreRetryTimer := False\<rparr>)"

text \<open>\<open>judgeRestorableRecord\<close>. \<open>recorded\<close> is the answer of the database, the files of the programme with their ids and
  whether the registered path of the file is the output path; \<open>relative\<close> is the output path relative to the
  parent directory, if that is known.\<close>

definition is_outside :: "(string \<Rightarrow> bool) \<Rightarrow> string option \<Rightarrow> bool" where
  "is_outside isAbsolute relative = (case relative of
     None \<Rightarrow> True | Some f \<Rightarrow> f = [] \<or> take 2 f = ''..'' \<or> isAbsolute f)"

definition judgeRestorableRecord :: "(string \<Rightarrow> bool) \<Rightarrow> bool \<Rightarrow> (int \<times> bool) list option result \<Rightarrow> string option \<Rightarrow>
    persisted_record \<Rightarrow> encode_manager \<Rightarrow> bool \<times> encode_manager" where
  "judgeRestorableRecord isAbsolute removeInterruptedOutput recorded relative r s = (case recorded of
     Inl e \<Rightarrow> (False, s)
   | Inr None \<Rightarrow> (False, removeRecord (p_id r) s)
   | Inr (Some videoFiles) \<Rightarrow>
       if \<not> list_ex (\<lambda>f. fst f = a_sourceVideoFileId (p_option r)) videoFiles then (False, removeRecord (p_id r) s)
       else case p_outputPath r of
         None \<Rightarrow> (True, s)
       | Some outputPath \<Rightarrow>
           if list_ex snd videoFiles then (False, removeRecord (p_id r) s)
           else (True, if removeInterruptedOutput \<and> \<not> is_outside isAbsolute relative
                       then s\<lparr>removed_outputs := removed_outputs s @ [outputPath]\<rparr> else s))"

text \<open>Without the dependencies every record is restored.\<close>

definition restore_judged :: "nat \<Rightarrow> persisted_record \<Rightarrow> persisted_record list \<Rightarrow>
    ((string \<Rightarrow> bool) \<times> bool \<times> (int \<times> bool) list option result \<times> string option) option \<Rightarrow> int \<Rightarrow> encode_manager \<Rightarrow> encode_manager" where
  "restore_judged n r rs dependencies now s =
     (let (isRestorable, s1) = (case dependencies of None \<Rightarrow> (True, s)
        | Some (isAbsolute, removeInterruptedOutput, recorded, relative) \<Rightarrow>
            judgeRestorableRecord isAbsolute removeInterruptedOutput recorded relative r s)
      in if isRestorable then set_op n (RestoreAcquire r rs) s1 else restore_loop n rs now s1)"

definition restore_acquired :: "nat \<Rightarrow> persisted_record \<Rightarrow> persisted_record list \<Rightarrow> bool \<Rightarrow> encode_manager \<Rightarrow> encode_manager" where
  "restore_acquired n r rs acquired s =
     (if acquired then let (l, s1) = new_lease s in set_op n (RestoreEncoder r l rs) s1
      else set_op n (RestoreDrop rs) (removeRecord (p_id r) s))"

definition restore_encoder :: "nat \<Rightarrow> persisted_record \<Rightarrow> nat \<Rightarrow> persisted_record list \<Rightarrow> bool \<Rightarrow> int \<Rightarrow> encode_manager \<Rightarrow> encode_manager" where
  "restore_encoder n r l rs ready now s =
     (if ready then restore_loop n rs now ((queue_encoder (p_option r) (p_id r) l s)\<lparr>restored := restored s + 1\<rparr>)
      else set_op n (RestoreRelease rs) (releaseRecordedUse l s))"


subsection \<open>What may happen\<close>

text \<open>The store gives a request an id that no other request has (\<open>Encode_Queue.add_request_exact\<close>). A request that
  \<open>push\<close> is about to queue is neither handed over by \<open>pushPersisted\<close>, which passes on the requests of the
  operator alone, nor restored, because its encoder is queued before another message of the operator is read.\<close>

definition op_id :: "op \<Rightarrow> int option" where
  "op_id p = (case p of
     AdmitExec j opt \<Rightarrow> j | AdmitAcquire j opt \<Rightarrow> j | AdmitEncoder j opt i l \<Rightarrow> Some i
   | RestoreJudge r rs \<Rightarrow> Some (p_id r) | RestoreAcquire r rs \<Rightarrow> Some (p_id r) | RestoreEncoder r l rs \<Rightarrow> Some (p_id r)
   | _ \<Rightarrow> None)"

definition fresh_id :: "int \<Rightarrow> encode_manager \<Rightarrow> bool" where
  "fresh_id i s = (\<not> hasQueuedEncodeId i s \<and> list_all (\<lambda>(n, p). op_id p \<noteq> Some i) (ops s))"

definition not_pushed :: "int \<Rightarrow> encode_manager \<Rightarrow> bool" where
  "not_pushed i s = list_all (\<lambda>(n, p). case p of AdmitEncoder j opt k l \<Rightarrow> j = Some i \<or> k \<noteq> i | _ \<Rightarrow> True) (ops s)"

definition none_pushed :: "persisted_record list \<Rightarrow> encode_manager \<Rightarrow> bool" where
  "none_pushed rs s = list_all (\<lambda>r. not_pushed (p_id r) s) rs"

inductive encode_step :: "encode_manager \<Rightarrow> encode_manager \<Rightarrow> bool" where
  push: "encode_step s (push opt s)"
| persisted: "not_pushed i s \<Longrightarrow> encode_step s (pushPersisted i opt s)"
| cancel: "encode_step s (cancel_encode i s)"
| cancel_all: "encode_step s (cancelEncodeByRecordedId i s)"
| restore: "encode_step s (restore s)"
| retry: "restoreRetryTimer s \<Longrightarrow> encode_step s (retry_timer_fires s)"
| suspend_timer: "suspendResumeTimer s = Some d \<Longrightarrow> encode_step s (suspend_timer_fires now s)"
| next_tick: "ticks s > 0 \<Longrightarrow> encode_step s (tick now s)"
| finished: "e \<in> set (startedEncoders s) \<Longrightarrow> encode_step s (onFinish base join e isError output s)"
| wait_push: "map_of (ops s) n = Some (WaitPush opt) \<Longrightarrow> \<not> restoring s \<Longrightarrow> encode_step s (admit n None opt s)"
| wait_persisted: "map_of (ops s) n = Some (WaitPersisted i opt) \<Longrightarrow> \<not> restoring s \<Longrightarrow> not_pushed i s \<Longrightarrow>
    encode_step s (persisted_admission n i opt s)"
| wait_cancel: "map_of (ops s) n = Some (WaitCancel i rest) \<Longrightarrow> \<not> restoring s \<Longrightarrow> encode_step s (set_op n (CancelExec i rest) s)"
| wait_cancel_all: "map_of (ops s) n = Some (WaitCancelRecorded i) \<Longrightarrow> \<not> restoring s \<Longrightarrow> encode_step s (cancel_recorded n i s)"
| admit_exec: "map_of (ops s) n = Some (AdmitExec j opt) \<Longrightarrow> encode_step s (admit_exec n j opt refused s)"
| admit_acquired: "map_of (ops s) n = Some (AdmitAcquire j opt) \<Longrightarrow> encode_step s (admit_acquired n j opt acquired s)"
| admit_recorded: "map_of (ops s) n = Some (AdmitRecord opt l) \<Longrightarrow> pred_sum (\<lambda>e. True) (\<lambda>i. fresh_id i s) recorded \<Longrightarrow>
    encode_step s (admit_recorded n opt l recorded s)"
| admit_encoder: "map_of (ops s) n = Some (AdmitEncoder j opt i l) \<Longrightarrow> encode_step s (admit_encoder n j opt i l outcome now s)"
| admit_removed: "map_of (ops s) n = Some (AdmitRemove e l) \<Longrightarrow> encode_step s (admit_removed n e l s)"
| admit_released: "map_of (ops s) n = Some (AdmitRelease j e) \<Longrightarrow> encode_step s (admit_fails n j e s)"
| persisted_removed: "map_of (ops s) n = Some (PersistedRemove i) \<Longrightarrow> encode_step s (persisted_ends n i s)"
| check_exec: "map_of (ops s) n = Some CheckExec \<Longrightarrow> encode_step s (check_exec n isGranted s)"
| check_started: "map_of (ops s) n = Some (CheckStart e) \<Longrightarrow> encode_step s (check_started n e started s)"
| finalize: "map_of (ops s) n = Some (FinalExec e k) \<Longrightarrow> encode_step s (finalize n e k isGranted s)"
| settled: "map_of (ops s) n = Some (Settling e) \<Longrightarrow> encode_step s (start_release n e AfterSettlement s)"
| record_removed: "map_of (ops s) n = Some (ReleaseRecord e k) \<Longrightarrow> encode_step s (record_removed n e k now s)"
| lease_released: "map_of (ops s) n = Some (ReleaseLease e k) \<Longrightarrow> encode_step s (release_done n k now s)"
| cancel_exec: "map_of (ops s) n = Some (CancelExec i rest) \<Longrightarrow> encode_step s (cancel_exec n i rest refused s)"
| cancel_running: "map_of (ops s) n = Some (CancelRunning rest) \<Longrightarrow> encode_step s (cancel_running_done n rest failed s)"
| restore_listed: "map_of (ops s) n = Some RestoreList \<Longrightarrow> pred_sum (\<lambda>e. True) (\<lambda>rs. none_pushed rs s) listing \<Longrightarrow>
    encode_step s (restore_listed n listing now s)"
| restore_judged: "map_of (ops s) n = Some (RestoreJudge r rs) \<Longrightarrow> none_pushed rs s \<Longrightarrow>
    encode_step s (restore_judged n r rs dependencies now s)"
| restore_acquired: "map_of (ops s) n = Some (RestoreAcquire r rs) \<Longrightarrow> encode_step s (restore_acquired n r rs acquired s)"
| restore_dropped: "map_of (ops s) n = Some (RestoreDrop rs) \<Longrightarrow> none_pushed rs s \<Longrightarrow> encode_step s (restore_loop n rs now s)"
| restore_encoder: "map_of (ops s) n = Some (RestoreEncoder r l rs) \<Longrightarrow> none_pushed rs s \<Longrightarrow>
    encode_step s (restore_encoder n r l rs ready now s)"
| restore_released: "map_of (ops s) n = Some (RestoreRelease rs) \<Longrightarrow> none_pushed rs s \<Longrightarrow> encode_step s (restore_loop n rs now s)"

text \<open>The service process creates the manager with the port of the store.\<close>

definition encoding :: "encode_manager \<Rightarrow> bool" where
  "encoding s \<longleftrightarrow> (\<exists>c q t s0. new_encode_manager c q t True = Inr s0 \<and> encode_step\<^sup>*\<^sup>* s0 s)"

end
