(* ===== verification/Encode_Laws.thy ===== *)
theory Encode_Laws
  imports Encode_Manage
begin

text \<open>
  Invariants of the queue of the encodes. Each is an equation or inequality between a field and a sum over the
  operations in progress, so a step, which moves one operation on, changes it by what the operation
  counts before and after.
\<close>

subsection \<open>Sums over the operations\<close>

definition tot :: "(op \<Rightarrow> int) \<Rightarrow> (nat, op) jsmap \<Rightarrow> int" where
  "tot f m = (\<Sum>x\<leftarrow>m. f (snd x))"

definition at_op :: "(op \<Rightarrow> int) \<Rightarrow> nat \<Rightarrow> (nat, op) jsmap \<Rightarrow> int" where
  "at_op f n m = (case map_of m n of None \<Rightarrow> 0 | Some p \<Rightarrow> f p)"

lemma tot_set [simp]: "keys_ok m \<Longrightarrow> tot f (map_set n p m) = tot f m - at_op f n m + f p"
proof (induction m)
  case (Cons x m)
  then have "keys_ok m" "fst x \<notin> fst ` set m" by (simp_all add: keys_ok_def)
  then show ?case using Cons.IH by (cases x) (auto simp: tot_def at_op_def map_of_eq_None_iff)
qed (simp add: tot_def at_op_def)

lemma tot_delete [simp]: "keys_ok m \<Longrightarrow> tot f (map_delete n m) = tot f m - at_op f n m"
proof (induction m)
  case (Cons x m)
  then have k: "keys_ok m" "fst x \<notin> fst ` set m" by (simp_all add: keys_ok_def)
  show ?case
  proof (cases "fst x = n")
    case True
    then have "map_delete n m = m" using k(2) by (simp add: delete_id)
    then show ?thesis using True by (cases x) (simp add: tot_def at_op_def)
  next
    case False
    then show ?thesis using Cons.IH [OF k(1)] by (cases x) (simp add: tot_def at_op_def)
  qed
qed (simp add: tot_def at_op_def)

lemma tot_Nil [simp]: "tot f [] = 0"
  by (simp add: tot_def)

lemma at_op_set [simp]: "at_op f k (map_set n p m) = (if k = n then f p else at_op f k m)"
  "at_op f k (map_delete n m) = (if k = n then 0 else at_op f k m)"
  by (simp_all add: at_op_def)

lemma at_op_eq: "map_of m n = Some p \<Longrightarrow> at_op f n m = f p"
  by (simp add: at_op_def)

lemma tot_nonneg: "(\<And>p. 0 \<le> f p) \<Longrightarrow> 0 \<le> tot f m"
  by (induction m) (simp_all add: tot_def)

lemma at_op_le: "(\<And>p. 0 \<le> f p) \<Longrightarrow> at_op f n m \<le> tot f m"
proof (induction m)
  case (Cons x m)
  then show ?case using tot_nonneg [of f m] Cons.prems [of "snd x"] by (cases x) (simp add: tot_def at_op_def add_increasing)
qed (simp add: tot_def at_op_def)

definition ops_ok :: "encode_manager \<Rightarrow> bool" where
  "ops_ok s \<longleftrightarrow> keys_ok (ops s) \<and> (\<forall>n. nextOp s \<le> n \<longrightarrow> map_of (ops s) n = None)"

lemma ops_okD [simp]: "ops_ok s \<Longrightarrow> keys_ok (ops s)" "ops_ok s \<Longrightarrow> map_of (ops s) (nextOp s) = None"
  "ops_ok s \<Longrightarrow> at_op f (nextOp s) (ops s) = 0"
  by (simp_all add: ops_ok_def at_op_def)

lemma op_below: "ops_ok s \<Longrightarrow> map_of (ops s) n = Some p \<Longrightarrow> n < nextOp s"
  by (metis linorder_not_le ops_ok_def option.distinct(1))

text \<open>The functions that only touch the operations, and the records that they frame.\<close>

lemmas op_defs = set_op_def end_op_def new_op_def answer_def

lemmas small_defs = granted_def unlock_def emit_event_def

lemmas admit_defs = admit_rejected_def admit_def push_def persisted_admission_def pushPersisted_def persisted_ends_def
  admit_fails_def admit_exec_def admit_acquired_def admit_recorded_def admit_undo_def admit_encoder_def admit_removed_def

lemma ops_ok_same: "ops s' = ops s \<Longrightarrow> nextOp s' = nextOp s \<Longrightarrow> ops_ok s' = ops_ok s"
  by (simp add: ops_ok_def)

subsection \<open>Compound steps\<close>

text \<open>Everything but the operations, the records of the calls and the timer.\<close>

lemma requestCheckQueue_cases:
  obtains "requestCheckQueue now s = new_op CheckExec s"
  | d where "waitQueue s \<noteq> []" "requestCheckQueue now s = s\<lparr>suspendResumeTimer := Some d\<rparr>"
  | "waitQueue s = [] \<or> suspendResumeTimer s \<noteq> None" "requestCheckQueue now s = s"
proof (cases "getSuspendRemainingMinutes (encodeSuspendTimes s) (now div 60000)")
  case None
  then show thesis by (intro that(1)) (simp add: requestCheckQueue_def)
next
  case (Some m)
  note e = requestCheckQueue_def [of now s, unfolded Some option.case]
  show thesis
  proof (cases "waitQueue s = [] \<or> suspendResumeTimer s \<noteq> None")
    case True
    then show thesis by (intro that(3)) (auto simp: e scheduleSuspendResume_def)
  next
    case False
    then show thesis by (intro that(2)) (auto simp: e scheduleSuspendResume_def)
  qed
qed

lemma requestCheckQueue_frame [simp]:
  "concurrentEncodeNum (requestCheckQueue now s) = concurrentEncodeNum s"
  "encodeQueueLimit (requestCheckQueue now s) = encodeQueueLimit s"
  "hasStore (requestCheckQueue now s) = hasStore s"
  "encoderOption (requestCheckQueue now s) = encoderOption s"
  "nextEncoder (requestCheckQueue now s) = nextEncoder s"
  "startedEncoders (requestCheckQueue now s) = startedEncoders s"
  "admissionReservations (requestCheckQueue now s) = admissionReservations s"
  "waitQueue (requestCheckQueue now s) = waitQueue s"
  "runningQueue (requestCheckQueue now s) = runningQueue s"
  "leases (requestCheckQueue now s) = leases s"
  "recordedUseLeases (requestCheckQueue now s) = recordedUseLeases s"
  "restoreStarted (requestCheckQueue now s) = restoreStarted s"
  "restoring (requestCheckQueue now s) = restoring s"
  "restoreRetryTimer (requestCheckQueue now s) = restoreRetryTimer s"
  "listedEncodeIds (requestCheckQueue now s) = listedEncodeIds s"
  "admittingEncodeIds (requestCheckQueue now s) = admittingEncodeIds s"
  "ticks (requestCheckQueue now s) = ticks s"
  "lost_checks (requestCheckQueue now s) = lost_checks s"
  "granted_to (requestCheckQueue now s) = granted_to s"
  "unlocked_by (requestCheckQueue now s) = unlocked_by s"
  "released_leases (requestCheckQueue now s) = released_leases s"
  "restored (requestCheckQueue now s) = restored s"
  by (rule requestCheckQueue_cases [of now s]; simp add: new_op_def)+

lemma ops_ok_new [simp]: "ops_ok s \<Longrightarrow> ops_ok (new_op p s)"
  by (auto simp: ops_ok_def new_op_def)

lemma requestCheckQueue_ops [simp]: "ops_ok s \<Longrightarrow> ops_ok (requestCheckQueue now s)"
  by (rule requestCheckQueue_cases [of now s]) (simp, simp_all add: ops_ok_def)

lemma requestCheckQueue_tot: "ops_ok s \<Longrightarrow> f CheckExec = 0 \<Longrightarrow> tot f (ops (requestCheckQueue now s)) = tot f (ops s)"
  by (rule requestCheckQueue_cases [of now s]) (simp_all add: new_op_def)

lemma requestCheckQueue_at: "ops_ok s \<Longrightarrow> map_of (ops s) n \<noteq> None \<Longrightarrow> map_of (ops (requestCheckQueue now s)) n = map_of (ops s) n"
  by (rule requestCheckQueue_cases [of now s]) (auto simp: new_op_def)

lemma request_checks_ops [simp]: "ops_ok s \<Longrightarrow> ops_ok (request_checks k now s)"
  by (induction k arbitrary: s) simp_all

lemma request_checks_tot: "ops_ok s \<Longrightarrow> f CheckExec = 0 \<Longrightarrow> tot f (ops (request_checks k now s)) = tot f (ops s)"
  by (induction k arbitrary: s) (simp_all add: requestCheckQueue_tot)

lemma request_checks_at: "ops_ok s \<Longrightarrow> map_of (ops s) n \<noteq> None \<Longrightarrow> map_of (ops (request_checks k now s)) n = map_of (ops s) n"
  by (induction k arbitrary: s) (simp_all add: requestCheckQueue_at)

lemma request_checks_frame [simp]:
  "concurrentEncodeNum (request_checks k now s) = concurrentEncodeNum s"
  "encodeQueueLimit (request_checks k now s) = encodeQueueLimit s"
  "hasStore (request_checks k now s) = hasStore s"
  "encoderOption (request_checks k now s) = encoderOption s"
  "nextEncoder (request_checks k now s) = nextEncoder s"
  "startedEncoders (request_checks k now s) = startedEncoders s"
  "admissionReservations (request_checks k now s) = admissionReservations s"
  "waitQueue (request_checks k now s) = waitQueue s"
  "runningQueue (request_checks k now s) = runningQueue s"
  "leases (request_checks k now s) = leases s"
  "recordedUseLeases (request_checks k now s) = recordedUseLeases s"
  "restoreStarted (request_checks k now s) = restoreStarted s"
  "restoring (request_checks k now s) = restoring s"
  "restoreRetryTimer (request_checks k now s) = restoreRetryTimer s"
  "listedEncodeIds (request_checks k now s) = listedEncodeIds s"
  "admittingEncodeIds (request_checks k now s) = admittingEncodeIds s"
  "ticks (request_checks k now s) = ticks s"
  "lost_checks (request_checks k now s) = lost_checks s"
  "granted_to (request_checks k now s) = granted_to s"
  "unlocked_by (request_checks k now s) = unlocked_by s"
  "released_leases (request_checks k now s) = released_leases s"
  "restored (request_checks k now s) = restored s"
  by (induction k arbitrary: s) simp_all

lemma removeRecord_frame [simp]:
  "concurrentEncodeNum (removeRecord i s) = concurrentEncodeNum s"
  "encodeQueueLimit (removeRecord i s) = encodeQueueLimit s"
  "hasStore (removeRecord i s) = hasStore s"
  "encoderOption (removeRecord i s) = encoderOption s"
  "nextEncoder (removeRecord i s) = nextEncoder s"
  "startedEncoders (removeRecord i s) = startedEncoders s"
  "admissionReservations (removeRecord i s) = admissionReservations s"
  "waitQueue (removeRecord i s) = waitQueue s"
  "runningQueue (removeRecord i s) = runningQueue s"
  "leases (removeRecord i s) = leases s"
  "recordedUseLeases (removeRecord i s) = recordedUseLeases s"
  "restoreStarted (removeRecord i s) = restoreStarted s"
  "restoring (removeRecord i s) = restoring s"
  "restoreRetryTimer (removeRecord i s) = restoreRetryTimer s"
  "listedEncodeIds (removeRecord i s) = listedEncodeIds s"
  "admittingEncodeIds (removeRecord i s) = admittingEncodeIds s"
  "ticks (removeRecord i s) = ticks s"
  "lost_checks (removeRecord i s) = lost_checks s"
  "granted_to (removeRecord i s) = granted_to s"
  "unlocked_by (removeRecord i s) = unlocked_by s"
  "released_leases (removeRecord i s) = released_leases s"
  "restored (removeRecord i s) = restored s"
  "suspendResumeTimer (removeRecord i s) = suspendResumeTimer s"
  by (simp_all add: removeRecord_def)

lemma start_release_frame [simp]:
  "concurrentEncodeNum (start_release n e k s) = concurrentEncodeNum s"
  "encodeQueueLimit (start_release n e k s) = encodeQueueLimit s"
  "hasStore (start_release n e k s) = hasStore s"
  "encoderOption (start_release n e k s) = encoderOption s"
  "nextEncoder (start_release n e k s) = nextEncoder s"
  "startedEncoders (start_release n e k s) = startedEncoders s"
  "admissionReservations (start_release n e k s) = admissionReservations s"
  "waitQueue (start_release n e k s) = waitQueue s"
  "runningQueue (start_release n e k s) = runningQueue s"
  "leases (start_release n e k s) = leases s"
  "recordedUseLeases (start_release n e k s) = recordedUseLeases s"
  "restoreStarted (start_release n e k s) = restoreStarted s"
  "restoring (start_release n e k s) = restoring s"
  "restoreRetryTimer (start_release n e k s) = restoreRetryTimer s"
  "listedEncodeIds (start_release n e k s) = listedEncodeIds s"
  "admittingEncodeIds (start_release n e k s) = admittingEncodeIds s"
  "ticks (start_release n e k s) = ticks s"
  "lost_checks (start_release n e k s) = lost_checks s"
  "granted_to (start_release n e k s) = granted_to s"
  "unlocked_by (start_release n e k s) = unlocked_by s"
  "released_leases (start_release n e k s) = released_leases s"
  "restored (start_release n e k s) = restored s"
  "suspendResumeTimer (start_release n e k s) = suspendResumeTimer s"
  by (simp_all add: start_release_def set_op_def split: option.split)

lemma releaseRecordedUse_frame [simp]:
  "concurrentEncodeNum (releaseRecordedUse l s) = concurrentEncodeNum s"
  "encodeQueueLimit (releaseRecordedUse l s) = encodeQueueLimit s"
  "hasStore (releaseRecordedUse l s) = hasStore s"
  "encoderOption (releaseRecordedUse l s) = encoderOption s"
  "nextEncoder (releaseRecordedUse l s) = nextEncoder s"
  "startedEncoders (releaseRecordedUse l s) = startedEncoders s"
  "admissionReservations (releaseRecordedUse l s) = admissionReservations s"
  "waitQueue (releaseRecordedUse l s) = waitQueue s"
  "runningQueue (releaseRecordedUse l s) = runningQueue s"
  "recordedUseLeases (releaseRecordedUse l s) = recordedUseLeases s"
  "restoreStarted (releaseRecordedUse l s) = restoreStarted s"
  "restoring (releaseRecordedUse l s) = restoring s"
  "restoreRetryTimer (releaseRecordedUse l s) = restoreRetryTimer s"
  "listedEncodeIds (releaseRecordedUse l s) = listedEncodeIds s"
  "admittingEncodeIds (releaseRecordedUse l s) = admittingEncodeIds s"
  "ticks (releaseRecordedUse l s) = ticks s"
  "lost_checks (releaseRecordedUse l s) = lost_checks s"
  "granted_to (releaseRecordedUse l s) = granted_to s"
  "unlocked_by (releaseRecordedUse l s) = unlocked_by s"
  "restored (releaseRecordedUse l s) = restored s"
  "suspendResumeTimer (releaseRecordedUse l s) = suspendResumeTimer s"
  by (simp_all add: releaseRecordedUse_def)

lemma small_ops [simp]:
  "ops (removeRecord i s) = ops s" "nextOp (removeRecord i s) = nextOp s"
  "ops (releaseRecordedUse l s) = ops s" "nextOp (releaseRecordedUse l s) = nextOp s"
  "ops (start_release n e k s) = map_set n (ReleaseRecord e k) (ops s)" "nextOp (start_release n e k s) = nextOp s"
  by (simp_all add: removeRecord_def releaseRecordedUse_def start_release_def set_op_def split: option.split)

lemma release_items_frame [simp]:
  "concurrentEncodeNum (release_items es parent s) = concurrentEncodeNum s"
  "encodeQueueLimit (release_items es parent s) = encodeQueueLimit s"
  "hasStore (release_items es parent s) = hasStore s"
  "encoderOption (release_items es parent s) = encoderOption s"
  "nextEncoder (release_items es parent s) = nextEncoder s"
  "startedEncoders (release_items es parent s) = startedEncoders s"
  "admissionReservations (release_items es parent s) = admissionReservations s"
  "waitQueue (release_items es parent s) = waitQueue s"
  "runningQueue (release_items es parent s) = runningQueue s"
  "leases (release_items es parent s) = leases s"
  "recordedUseLeases (release_items es parent s) = recordedUseLeases s"
  "restoreStarted (release_items es parent s) = restoreStarted s"
  "restoring (release_items es parent s) = restoring s"
  "restoreRetryTimer (release_items es parent s) = restoreRetryTimer s"
  "listedEncodeIds (release_items es parent s) = listedEncodeIds s"
  "admittingEncodeIds (release_items es parent s) = admittingEncodeIds s"
  "ticks (release_items es parent s) = ticks s"
  "lost_checks (release_items es parent s) = lost_checks s"
  "granted_to (release_items es parent s) = granted_to s"
  "unlocked_by (release_items es parent s) = unlocked_by s"
  "released_leases (release_items es parent s) = released_leases s"
  "restored (release_items es parent s) = restored s"
  "suspendResumeTimer (release_items es parent s) = suspendResumeTimer s"
  by (induction es arbitrary: s) (simp_all add: Let_def)


lemma release_items_ops:
  assumes "ops_ok s" "k < nextOp s"
  shows "ops_ok (release_items es parent s)" "map_of (ops (release_items es parent s)) k = map_of (ops s) k"
    "tot f (ops (release_items es parent s)) = tot f (ops s) + (\<Sum>e\<leftarrow>es. f (ReleaseRecord e (AfterCancel parent)))"
proof -
  have "ops_ok (release_items es parent s) \<and> map_of (ops (release_items es parent s)) k = map_of (ops s) k \<and>
    tot f (ops (release_items es parent s)) = tot f (ops s) + (\<Sum>e\<leftarrow>es. f (ReleaseRecord e (AfterCancel parent)))"
    using assms
  proof (induction es arbitrary: s)
    case (Cons e es)
    let ?s = "start_release (nextOp s) e (AfterCancel parent) (s\<lparr>nextOp := nextOp s + 1\<rparr>)"
    have "ops_ok ?s" using Cons.prems(1) by (auto simp: ops_ok_def)
    then show ?case using Cons.IH [of ?s] Cons.prems by (simp add: Let_def)
  qed simp
  then show "ops_ok (release_items es parent s)" "map_of (ops (release_items es parent s)) k = map_of (ops s) k"
    "tot f (ops (release_items es parent s)) = tot f (ops s) + (\<Sum>e\<leftarrow>es. f (ReleaseRecord e (AfterCancel parent)))"
    by blast+
qed

text \<open>The loop of the restoration stops at the first record that nobody uses, or ends.\<close>

lemma restore_loop_cases:
  obtains r rs' where "restore_loop n rs now s = set_op n (RestoreJudge r rs') s" "\<not> isEncodeIdInUse (p_id r) s"
      "r \<in> set rs"
  | "restore_loop n rs now s = restoration_ends n (request_checks (checkCount s) now s)"
proof (induction n rs now s rule: restore_loop.induct)
  case (2 n r rs now s)
  then show ?case by (cases "isEncodeIdInUse (p_id r) s") auto
qed simp


subsection \<open>The operations are numbered\<close>

lemma ops_ok_simps [simp]:
  "n < nextOp s \<Longrightarrow> ops_ok s \<Longrightarrow> ops_ok (s\<lparr>ops := map_set n p (ops s)\<rparr>)"
  "ops_ok s \<Longrightarrow> ops_ok (s\<lparr>ops := map_delete n (ops s)\<rparr>)"
  "ops_ok s \<Longrightarrow> ops_ok (s\<lparr>nextOp := Suc (nextOp s)\<rparr>)"
  by (auto simp: ops_ok_def)

lemma next_grows [simp]: "n < nextOp s \<Longrightarrow> n < nextOp (requestCheckQueue now s)" "n < nextOp s \<Longrightarrow> n < nextOp (request_checks k now s)"
  "n < nextOp s \<Longrightarrow> n < nextOp (release_items es parent s)"
proof -
  show one: "n < nextOp s \<Longrightarrow> n < nextOp (requestCheckQueue now s)" for s
    by (rule requestCheckQueue_cases [of now s]) (simp_all add: new_op_def)
  show "n < nextOp s \<Longrightarrow> n < nextOp (request_checks k now s)"
    by (induction k arbitrary: s) (simp_all add: one)
  show "n < nextOp s \<Longrightarrow> n < nextOp (release_items es parent s)"
    by (induction es arbitrary: s) (simp_all add: Let_def)
qed

lemma ops_ok_fields [simp]:
  "ops_ok (granted n s) = ops_ok s" "ops_ok (unlock n s) = ops_ok s" "ops_ok (emit_event ev s) = ops_ok s"
  "ops_ok (removeRecord i s) = ops_ok s" "ops_ok (releaseRecordedUse l s) = ops_ok s"
  "ops_ok (queue_encoder opt i l s) = ops_ok s" "ops_ok (snd (new_lease s)) = ops_ok s"
  "nextOp (granted n s) = nextOp s" "nextOp (unlock n s) = nextOp s" "nextOp (emit_event ev s) = nextOp s"
  "nextOp (queue_encoder opt i l s) = nextOp s" "nextOp (snd (new_lease s)) = nextOp s" "nextOp (end_op n s) = nextOp s"
  "nextOp (set_op n p s) = nextOp s"
  by (simp_all add: ops_ok_def granted_def unlock_def emit_event_def queue_encoder_def new_lease_def end_op_def set_op_def Let_def)

lemma ops_ok_update [simp]:
  "ops_ok (s\<lparr>restoring := b\<rparr>) = ops_ok s" "ops_ok (s\<lparr>restoreStarted := b\<rparr>) = ops_ok s" "ops_ok (s\<lparr>restoreRetryTimer := b\<rparr>) = ops_ok s"
  "ops_ok (s\<lparr>suspendResumeTimer := d\<rparr>) = ops_ok s" "ops_ok (s\<lparr>ticks := k\<rparr>) = ops_ok s" "ops_ok (s\<lparr>lost_checks := k\<rparr>) = ops_ok s"
  "ops_ok (s\<lparr>waitQueue := q\<rparr>) = ops_ok s" "ops_ok (s\<lparr>runningQueue := q\<rparr>) = ops_ok s" "ops_ok (s\<lparr>startedEncoders := q\<rparr>) = ops_ok s"
  "ops_ok (s\<lparr>leases := ls\<rparr>) = ops_ok s" "ops_ok (s\<lparr>admissionReservations := a\<rparr>) = ops_ok s"
  "ops_ok (s\<lparr>processLocalNextEncodeId := a\<rparr>) = ops_ok s" "ops_ok (s\<lparr>abandoned := k\<rparr>) = ops_ok s"
  "ops_ok (s\<lparr>admittingEncodeIds := is\<rparr>) = ops_ok s"
  "ops_ok (s\<lparr>listedEncodeIds := is\<rparr>) = ops_ok s" "ops_ok (s\<lparr>restored := k\<rparr>) = ops_ok s"
  "ops_ok (s\<lparr>removed_outputs := fs\<rparr>) = ops_ok s" "ops_ok (s\<lparr>finishes := fi\<rparr>) = ops_ok s" "ops_ok (s\<lparr>encoderOption := eo\<rparr>) = ops_ok s"
  by (simp_all add: ops_ok_def)

text \<open>What an operation number that is in use, or the next one, may do.\<close>

lemma ops_ok_op [simp]:
  "ops_ok s \<Longrightarrow> n < nextOp s \<Longrightarrow> ops_ok (set_op n p s)" "ops_ok s \<Longrightarrow> ops_ok (end_op n s)"
  "ops_ok s \<Longrightarrow> ops_ok (answer n r s)"
  by (auto simp: ops_ok_def set_op_def end_op_def answer_def)

lemma ops_ok_rejected [simp]: "ops_ok s \<Longrightarrow> n < nextOp s \<Longrightarrow> ops_ok (admit_rejected n j e s)"
  by (simp add: admit_rejected_def split: option.split)

lemma ops_ok_admit [simp]: "ops_ok s \<Longrightarrow> n < nextOp s \<Longrightarrow> ops_ok (admit n j opt s)"
  by (simp add: admit_def)

lemma ops_ok_admission [simp]:
  "ops_ok s \<Longrightarrow> n < nextOp s \<Longrightarrow> ops_ok (persisted_admission n i opt s)"
  "ops_ok s \<Longrightarrow> n < nextOp s \<Longrightarrow> ops_ok (persisted_ends n i s)"
  "ops_ok s \<Longrightarrow> n < nextOp s \<Longrightarrow> ops_ok (admit_fails n j e s)"
  "ops_ok s \<Longrightarrow> n < nextOp s \<Longrightarrow> ops_ok (start_release n e' k s)"
  "ops_ok s \<Longrightarrow> n < nextOp s \<Longrightarrow> ops_ok (start_cancel n i rest s)"
  by (simp_all add: persisted_admission_def persisted_ends_def admit_fails_def start_release_def start_cancel_def Let_def split: option.split)

lemma ops_ok_cancel [simp]:
  "ops_ok s \<Longrightarrow> n < nextOp s \<Longrightarrow> ops_ok (cancel_ends n rest failed s)"
  "ops_ok s \<Longrightarrow> n < nextOp s \<Longrightarrow> ops_ok (cancel_released n rest s)"
  by (simp_all add: cancel_released_def cancel_ends_def split: cancel_rest.split list.split)

lemma ops_ok_restore [simp]: "ops_ok s \<Longrightarrow> ops_ok (restoration_ends n s)"
  "ops_ok s \<Longrightarrow> n < nextOp s \<Longrightarrow> ops_ok (restore_loop n rs now s)"
proof -
  show fin: "ops_ok s \<Longrightarrow> ops_ok (restoration_ends n s)" for s by (simp add: restoration_ends_def)
  show "ops_ok s \<Longrightarrow> n < nextOp s \<Longrightarrow> ops_ok (restore_loop n rs now s)"
    by (rule restore_loop_cases [of n rs now s]) (simp_all add: fin)
qed

lemma ops_ok_item [simp]: "ops_ok s \<Longrightarrow> ops_ok (item_released parent s)"
  using op_below [of s parent] by (simp add: item_released_def split: option.split op.split)

lemma ops_ok_judge [simp]: "ops_ok (snd (judgeRestorableRecord a b c d r s)) = ops_ok s"
  "ops (snd (judgeRestorableRecord a b c d r s)) = ops s" "nextOp (snd (judgeRestorableRecord a b c d r s)) = nextOp s"
  by (simp_all add: judgeRestorableRecord_def split: sum.split option.split)

lemmas step_defs = push_def pushPersisted_def cancel_encode_def cancelEncodeByRecordedId_def restore_def runRestoration_def
  retry_timer_fires_def suspend_timer_fires_def tick_def onFinish_def finish_def createFinishEncodeInfo_def
  cancel_recorded_def admit_exec_def admit_acquired_def new_lease_def admit_recorded_def admit_encoder_def admit_undo_def
  admit_removed_def check_exec_def check_started_def finalize_def record_removed_def release_done_def cancel_exec_def
  cancel_running_done_def restore_listed_def restore_judged_def restore_acquired_def restore_encoder_def Let_def

lemma ops_ok_functions:
  "ops_ok s \<Longrightarrow> ops_ok (push opt s)" "ops_ok s \<Longrightarrow> ops_ok (pushPersisted i opt s)"
  "ops_ok s \<Longrightarrow> ops_ok (cancel_encode i s)" "ops_ok s \<Longrightarrow> ops_ok (cancelEncodeByRecordedId i s)"
  "ops_ok s \<Longrightarrow> ops_ok (restore s)" "ops_ok s \<Longrightarrow> ops_ok (retry_timer_fires s)"
  "ops_ok s \<Longrightarrow> ops_ok (suspend_timer_fires now s)" "ops_ok s \<Longrightarrow> ops_ok (tick now s)"
  by (simp_all add: push_def pushPersisted_def cancel_encode_def cancelEncodeByRecordedId_def restore_def runRestoration_def
    retry_timer_fires_def suspend_timer_fires_def tick_def cancel_recorded_def Let_def)

lemma ops_ok_finish: "ops_ok s \<Longrightarrow> ops_ok (onFinish base join e isError output s)"
proof -
  have "ops_ok (finish base join e isError output s)" if "ops_ok s" for s
    using that by (simp add: finish_def createFinishEncodeInfo_def Let_def split: option.split)
  then show "ops_ok s \<Longrightarrow> ops_ok (onFinish base join e isError output s)"
    by (simp add: onFinish_def split: option.split)
qed

lemma ops_ok_admissions:
  assumes "ops_ok s" "n < nextOp s"
  shows "ops_ok (admit_exec n j opt refused s)" "ops_ok (admit_acquired n j opt acquired s)" "ops_ok (admit_recorded n opt l recorded s)"
    "ops_ok (admit_removed n e l s)" "ops_ok (admit_encoder n j opt i l outcome now s)"
  using assms
  by (simp_all add: admit_exec_def admit_acquired_def new_lease_def admit_recorded_def admit_removed_def admit_undo_def
    admit_encoder_def Let_def split: option.split sum.split bool.split encoder_outcome.split)

lemma ops_ok_done [simp]: "ops_ok s \<Longrightarrow> ops_ok (release_done n k now s)"
  by (simp add: release_done_def split: release_for.split)

lemma ops_ok_ends:
  assumes "ops_ok s" "n < nextOp s"
  shows "ops_ok (check_exec n isGranted s)" "ops_ok (check_started n e started s)" "ops_ok (finalize n e k isGranted s)"
    "ops_ok (record_removed n e k now s)" "ops_ok (cancel_running_done n rest failed s)" "ops_ok (cancel_exec n i rest refused s)"
proof -
  show "ops_ok (check_exec n isGranted s)" "ops_ok (check_started n e started s)" "ops_ok (record_removed n e k now s)"
    "ops_ok (cancel_running_done n rest failed s)"
    using assms by (simp_all add: check_exec_def check_started_def record_removed_def cancel_running_done_def Let_def
      split: list.split option.split)
  show "ops_ok (finalize n e k isGranted s)"
    using assms by (cases isGranted; cases "k = AfterStart"; cases "k = AfterSettlement") (simp_all add: finalize_def Let_def)
  have "ops_ok (release_items es n t)" if "ops_ok t" "n < nextOp t" for es t
    using release_items_ops(1) [OF that] .
  then show "ops_ok (cancel_exec n i rest refused s)"
    using assms by (simp add: cancel_exec_def Let_def split: option.split)
qed

lemma ops_ok_restoring:
  assumes "ops_ok s" "n < nextOp s"
  shows "ops_ok (restore_listed n listing now s)" "ops_ok (restore_judged n r rs dependencies now s)"
    "ops_ok (restore_acquired n r rs acquired s)" "ops_ok (restore_encoder n r l rs ready now s)"
proof -
  show "ops_ok (restore_listed n listing now s)" "ops_ok (restore_acquired n r rs acquired s)" "ops_ok (restore_encoder n r l rs ready now s)"
    using assms by (simp_all add: restore_listed_def restore_acquired_def new_lease_def restore_encoder_def Let_def split: sum.split)
  show "ops_ok (restore_judged n r rs dependencies now s)"
    using assms by (cases dependencies) (simp_all add: restore_judged_def case_prod_beta Let_def)
qed

lemma ops_ok_step: "encode_step s s' \<Longrightarrow> ops_ok s \<Longrightarrow> ops_ok s'"
  by (erule encode_step.cases)
    (simp_all add: ops_ok_functions ops_ok_finish ops_ok_admissions ops_ok_ends ops_ok_restoring cancel_recorded_def op_below)

subsection \<open>Frames and sums of the shared parts\<close>

lemma set_op_frame [simp]:
  "concurrentEncodeNum (set_op n p s) = concurrentEncodeNum s"
  "encodeQueueLimit (set_op n p s) = encodeQueueLimit s"
  "hasStore (set_op n p s) = hasStore s"
  "encoderOption (set_op n p s) = encoderOption s"
  "nextEncoder (set_op n p s) = nextEncoder s"
  "startedEncoders (set_op n p s) = startedEncoders s"
  "admissionReservations (set_op n p s) = admissionReservations s"
  "waitQueue (set_op n p s) = waitQueue s"
  "runningQueue (set_op n p s) = runningQueue s"
  "leases (set_op n p s) = leases s"
  "recordedUseLeases (set_op n p s) = recordedUseLeases s"
  "suspendResumeTimer (set_op n p s) = suspendResumeTimer s"
  "restoreStarted (set_op n p s) = restoreStarted s"
  "restoring (set_op n p s) = restoring s"
  "restoreRetryTimer (set_op n p s) = restoreRetryTimer s"
  "listedEncodeIds (set_op n p s) = listedEncodeIds s"
  "admittingEncodeIds (set_op n p s) = admittingEncodeIds s"
  "ticks (set_op n p s) = ticks s"
  "lost_checks (set_op n p s) = lost_checks s"
  "granted_to (set_op n p s) = granted_to s"
  "unlocked_by (set_op n p s) = unlocked_by s"
  "released_leases (set_op n p s) = released_leases s"
  "restored (set_op n p s) = restored s"
  by (simp_all add: set_op_def)

lemma end_op_frame [simp]:
  "concurrentEncodeNum (end_op n s) = concurrentEncodeNum s"
  "encodeQueueLimit (end_op n s) = encodeQueueLimit s"
  "hasStore (end_op n s) = hasStore s"
  "encoderOption (end_op n s) = encoderOption s"
  "nextEncoder (end_op n s) = nextEncoder s"
  "startedEncoders (end_op n s) = startedEncoders s"
  "admissionReservations (end_op n s) = admissionReservations s"
  "waitQueue (end_op n s) = waitQueue s"
  "runningQueue (end_op n s) = runningQueue s"
  "leases (end_op n s) = leases s"
  "recordedUseLeases (end_op n s) = recordedUseLeases s"
  "suspendResumeTimer (end_op n s) = suspendResumeTimer s"
  "restoreStarted (end_op n s) = restoreStarted s"
  "restoring (end_op n s) = restoring s"
  "restoreRetryTimer (end_op n s) = restoreRetryTimer s"
  "listedEncodeIds (end_op n s) = listedEncodeIds s"
  "admittingEncodeIds (end_op n s) = admittingEncodeIds s"
  "ticks (end_op n s) = ticks s"
  "lost_checks (end_op n s) = lost_checks s"
  "granted_to (end_op n s) = granted_to s"
  "unlocked_by (end_op n s) = unlocked_by s"
  "released_leases (end_op n s) = released_leases s"
  "restored (end_op n s) = restored s"
  by (simp_all add: end_op_def)

lemma new_op_frame [simp]:
  "concurrentEncodeNum (new_op p s) = concurrentEncodeNum s"
  "encodeQueueLimit (new_op p s) = encodeQueueLimit s"
  "hasStore (new_op p s) = hasStore s"
  "encoderOption (new_op p s) = encoderOption s"
  "nextEncoder (new_op p s) = nextEncoder s"
  "startedEncoders (new_op p s) = startedEncoders s"
  "admissionReservations (new_op p s) = admissionReservations s"
  "waitQueue (new_op p s) = waitQueue s"
  "runningQueue (new_op p s) = runningQueue s"
  "leases (new_op p s) = leases s"
  "recordedUseLeases (new_op p s) = recordedUseLeases s"
  "suspendResumeTimer (new_op p s) = suspendResumeTimer s"
  "restoreStarted (new_op p s) = restoreStarted s"
  "restoring (new_op p s) = restoring s"
  "restoreRetryTimer (new_op p s) = restoreRetryTimer s"
  "listedEncodeIds (new_op p s) = listedEncodeIds s"
  "admittingEncodeIds (new_op p s) = admittingEncodeIds s"
  "ticks (new_op p s) = ticks s"
  "lost_checks (new_op p s) = lost_checks s"
  "granted_to (new_op p s) = granted_to s"
  "unlocked_by (new_op p s) = unlocked_by s"
  "released_leases (new_op p s) = released_leases s"
  "restored (new_op p s) = restored s"
  by (simp_all add: new_op_def)

lemma answer_frame [simp]:
  "concurrentEncodeNum (answer n r s) = concurrentEncodeNum s"
  "encodeQueueLimit (answer n r s) = encodeQueueLimit s"
  "hasStore (answer n r s) = hasStore s"
  "encoderOption (answer n r s) = encoderOption s"
  "nextEncoder (answer n r s) = nextEncoder s"
  "startedEncoders (answer n r s) = startedEncoders s"
  "admissionReservations (answer n r s) = admissionReservations s"
  "waitQueue (answer n r s) = waitQueue s"
  "runningQueue (answer n r s) = runningQueue s"
  "leases (answer n r s) = leases s"
  "recordedUseLeases (answer n r s) = recordedUseLeases s"
  "suspendResumeTimer (answer n r s) = suspendResumeTimer s"
  "restoreStarted (answer n r s) = restoreStarted s"
  "restoring (answer n r s) = restoring s"
  "restoreRetryTimer (answer n r s) = restoreRetryTimer s"
  "listedEncodeIds (answer n r s) = listedEncodeIds s"
  "admittingEncodeIds (answer n r s) = admittingEncodeIds s"
  "ticks (answer n r s) = ticks s"
  "lost_checks (answer n r s) = lost_checks s"
  "granted_to (answer n r s) = granted_to s"
  "unlocked_by (answer n r s) = unlocked_by s"
  "released_leases (answer n r s) = released_leases s"
  "restored (answer n r s) = restored s"
  by (simp_all add: answer_def)

lemma granted_frame [simp]:
  "concurrentEncodeNum (granted n s) = concurrentEncodeNum s"
  "encodeQueueLimit (granted n s) = encodeQueueLimit s"
  "hasStore (granted n s) = hasStore s"
  "encoderOption (granted n s) = encoderOption s"
  "nextEncoder (granted n s) = nextEncoder s"
  "startedEncoders (granted n s) = startedEncoders s"
  "admissionReservations (granted n s) = admissionReservations s"
  "waitQueue (granted n s) = waitQueue s"
  "runningQueue (granted n s) = runningQueue s"
  "leases (granted n s) = leases s"
  "recordedUseLeases (granted n s) = recordedUseLeases s"
  "suspendResumeTimer (granted n s) = suspendResumeTimer s"
  "restoreStarted (granted n s) = restoreStarted s"
  "restoring (granted n s) = restoring s"
  "restoreRetryTimer (granted n s) = restoreRetryTimer s"
  "listedEncodeIds (granted n s) = listedEncodeIds s"
  "admittingEncodeIds (granted n s) = admittingEncodeIds s"
  "ticks (granted n s) = ticks s"
  "lost_checks (granted n s) = lost_checks s"
  "unlocked_by (granted n s) = unlocked_by s"
  "released_leases (granted n s) = released_leases s"
  "restored (granted n s) = restored s"
  by (simp_all add: granted_def)

lemma unlock_frame [simp]:
  "concurrentEncodeNum (unlock n s) = concurrentEncodeNum s"
  "encodeQueueLimit (unlock n s) = encodeQueueLimit s"
  "hasStore (unlock n s) = hasStore s"
  "encoderOption (unlock n s) = encoderOption s"
  "nextEncoder (unlock n s) = nextEncoder s"
  "startedEncoders (unlock n s) = startedEncoders s"
  "admissionReservations (unlock n s) = admissionReservations s"
  "waitQueue (unlock n s) = waitQueue s"
  "runningQueue (unlock n s) = runningQueue s"
  "leases (unlock n s) = leases s"
  "recordedUseLeases (unlock n s) = recordedUseLeases s"
  "suspendResumeTimer (unlock n s) = suspendResumeTimer s"
  "restoreStarted (unlock n s) = restoreStarted s"
  "restoring (unlock n s) = restoring s"
  "restoreRetryTimer (unlock n s) = restoreRetryTimer s"
  "listedEncodeIds (unlock n s) = listedEncodeIds s"
  "admittingEncodeIds (unlock n s) = admittingEncodeIds s"
  "ticks (unlock n s) = ticks s"
  "lost_checks (unlock n s) = lost_checks s"
  "granted_to (unlock n s) = granted_to s"
  "released_leases (unlock n s) = released_leases s"
  "restored (unlock n s) = restored s"
  by (simp_all add: unlock_def)

lemma emit_event_frame [simp]:
  "concurrentEncodeNum (emit_event ev s) = concurrentEncodeNum s"
  "encodeQueueLimit (emit_event ev s) = encodeQueueLimit s"
  "hasStore (emit_event ev s) = hasStore s"
  "encoderOption (emit_event ev s) = encoderOption s"
  "nextEncoder (emit_event ev s) = nextEncoder s"
  "startedEncoders (emit_event ev s) = startedEncoders s"
  "admissionReservations (emit_event ev s) = admissionReservations s"
  "waitQueue (emit_event ev s) = waitQueue s"
  "runningQueue (emit_event ev s) = runningQueue s"
  "leases (emit_event ev s) = leases s"
  "recordedUseLeases (emit_event ev s) = recordedUseLeases s"
  "suspendResumeTimer (emit_event ev s) = suspendResumeTimer s"
  "restoreStarted (emit_event ev s) = restoreStarted s"
  "restoring (emit_event ev s) = restoring s"
  "restoreRetryTimer (emit_event ev s) = restoreRetryTimer s"
  "listedEncodeIds (emit_event ev s) = listedEncodeIds s"
  "admittingEncodeIds (emit_event ev s) = admittingEncodeIds s"
  "ticks (emit_event ev s) = ticks s"
  "lost_checks (emit_event ev s) = lost_checks s"
  "granted_to (emit_event ev s) = granted_to s"
  "unlocked_by (emit_event ev s) = unlocked_by s"
  "released_leases (emit_event ev s) = released_leases s"
  "restored (emit_event ev s) = restored s"
  by (simp_all add: emit_event_def)

lemma rejected_frame [simp]:
  "concurrentEncodeNum (admit_rejected n j e s) = concurrentEncodeNum s"
  "encodeQueueLimit (admit_rejected n j e s) = encodeQueueLimit s"
  "hasStore (admit_rejected n j e s) = hasStore s"
  "encoderOption (admit_rejected n j e s) = encoderOption s"
  "nextEncoder (admit_rejected n j e s) = nextEncoder s"
  "startedEncoders (admit_rejected n j e s) = startedEncoders s"
  "admissionReservations (admit_rejected n j e s) = admissionReservations s"
  "waitQueue (admit_rejected n j e s) = waitQueue s"
  "runningQueue (admit_rejected n j e s) = runningQueue s"
  "leases (admit_rejected n j e s) = leases s"
  "recordedUseLeases (admit_rejected n j e s) = recordedUseLeases s"
  "suspendResumeTimer (admit_rejected n j e s) = suspendResumeTimer s"
  "restoreStarted (admit_rejected n j e s) = restoreStarted s"
  "restoring (admit_rejected n j e s) = restoring s"
  "restoreRetryTimer (admit_rejected n j e s) = restoreRetryTimer s"
  "listedEncodeIds (admit_rejected n j e s) = listedEncodeIds s"
  "admittingEncodeIds (admit_rejected n j e s) = admittingEncodeIds s"
  "ticks (admit_rejected n j e s) = ticks s"
  "lost_checks (admit_rejected n j e s) = lost_checks s"
  "granted_to (admit_rejected n j e s) = granted_to s"
  "unlocked_by (admit_rejected n j e s) = unlocked_by s"
  "released_leases (admit_rejected n j e s) = released_leases s"
  "restored (admit_rejected n j e s) = restored s"
  by (simp_all add: admit_rejected_def split: option.split)

lemma admit_fails_frame [simp]:
  "concurrentEncodeNum (admit_fails n j e s) = concurrentEncodeNum s"
  "encodeQueueLimit (admit_fails n j e s) = encodeQueueLimit s"
  "hasStore (admit_fails n j e s) = hasStore s"
  "encoderOption (admit_fails n j e s) = encoderOption s"
  "nextEncoder (admit_fails n j e s) = nextEncoder s"
  "startedEncoders (admit_fails n j e s) = startedEncoders s"
  "waitQueue (admit_fails n j e s) = waitQueue s"
  "runningQueue (admit_fails n j e s) = runningQueue s"
  "leases (admit_fails n j e s) = leases s"
  "recordedUseLeases (admit_fails n j e s) = recordedUseLeases s"
  "suspendResumeTimer (admit_fails n j e s) = suspendResumeTimer s"
  "restoreStarted (admit_fails n j e s) = restoreStarted s"
  "restoring (admit_fails n j e s) = restoring s"
  "restoreRetryTimer (admit_fails n j e s) = restoreRetryTimer s"
  "listedEncodeIds (admit_fails n j e s) = listedEncodeIds s"
  "admittingEncodeIds (admit_fails n j e s) = admittingEncodeIds s"
  "ticks (admit_fails n j e s) = ticks s"
  "lost_checks (admit_fails n j e s) = lost_checks s"
  "granted_to (admit_fails n j e s) = granted_to s"
  "released_leases (admit_fails n j e s) = released_leases s"
  "restored (admit_fails n j e s) = restored s"
  by (simp_all add: admit_fails_def Let_def)

lemma start_cancel_frame [simp]:
  "concurrentEncodeNum (start_cancel n i rest s) = concurrentEncodeNum s"
  "encodeQueueLimit (start_cancel n i rest s) = encodeQueueLimit s"
  "hasStore (start_cancel n i rest s) = hasStore s"
  "encoderOption (start_cancel n i rest s) = encoderOption s"
  "nextEncoder (start_cancel n i rest s) = nextEncoder s"
  "startedEncoders (start_cancel n i rest s) = startedEncoders s"
  "admissionReservations (start_cancel n i rest s) = admissionReservations s"
  "waitQueue (start_cancel n i rest s) = waitQueue s"
  "runningQueue (start_cancel n i rest s) = runningQueue s"
  "leases (start_cancel n i rest s) = leases s"
  "recordedUseLeases (start_cancel n i rest s) = recordedUseLeases s"
  "suspendResumeTimer (start_cancel n i rest s) = suspendResumeTimer s"
  "restoreStarted (start_cancel n i rest s) = restoreStarted s"
  "restoring (start_cancel n i rest s) = restoring s"
  "restoreRetryTimer (start_cancel n i rest s) = restoreRetryTimer s"
  "listedEncodeIds (start_cancel n i rest s) = listedEncodeIds s"
  "admittingEncodeIds (start_cancel n i rest s) = admittingEncodeIds s"
  "ticks (start_cancel n i rest s) = ticks s"
  "lost_checks (start_cancel n i rest s) = lost_checks s"
  "granted_to (start_cancel n i rest s) = granted_to s"
  "unlocked_by (start_cancel n i rest s) = unlocked_by s"
  "released_leases (start_cancel n i rest s) = released_leases s"
  "restored (start_cancel n i rest s) = restored s"
  by (simp_all add: start_cancel_def)

lemma cancel_ends_frame [simp]:
  "concurrentEncodeNum (cancel_ends n rest failed s) = concurrentEncodeNum s"
  "encodeQueueLimit (cancel_ends n rest failed s) = encodeQueueLimit s"
  "hasStore (cancel_ends n rest failed s) = hasStore s"
  "encoderOption (cancel_ends n rest failed s) = encoderOption s"
  "nextEncoder (cancel_ends n rest failed s) = nextEncoder s"
  "startedEncoders (cancel_ends n rest failed s) = startedEncoders s"
  "admissionReservations (cancel_ends n rest failed s) = admissionReservations s"
  "waitQueue (cancel_ends n rest failed s) = waitQueue s"
  "runningQueue (cancel_ends n rest failed s) = runningQueue s"
  "leases (cancel_ends n rest failed s) = leases s"
  "recordedUseLeases (cancel_ends n rest failed s) = recordedUseLeases s"
  "suspendResumeTimer (cancel_ends n rest failed s) = suspendResumeTimer s"
  "restoreStarted (cancel_ends n rest failed s) = restoreStarted s"
  "restoring (cancel_ends n rest failed s) = restoring s"
  "restoreRetryTimer (cancel_ends n rest failed s) = restoreRetryTimer s"
  "listedEncodeIds (cancel_ends n rest failed s) = listedEncodeIds s"
  "admittingEncodeIds (cancel_ends n rest failed s) = admittingEncodeIds s"
  "ticks (cancel_ends n rest failed s) = ticks s"
  "lost_checks (cancel_ends n rest failed s) = lost_checks s"
  "granted_to (cancel_ends n rest failed s) = granted_to s"
  "unlocked_by (cancel_ends n rest failed s) = unlocked_by s"
  "released_leases (cancel_ends n rest failed s) = released_leases s"
  "restored (cancel_ends n rest failed s) = restored s"
  by (simp_all add: cancel_ends_def split: cancel_rest.split list.split)

lemma cancel_released_frame [simp]:
  "concurrentEncodeNum (cancel_released n rest s) = concurrentEncodeNum s"
  "encodeQueueLimit (cancel_released n rest s) = encodeQueueLimit s"
  "hasStore (cancel_released n rest s) = hasStore s"
  "encoderOption (cancel_released n rest s) = encoderOption s"
  "nextEncoder (cancel_released n rest s) = nextEncoder s"
  "startedEncoders (cancel_released n rest s) = startedEncoders s"
  "admissionReservations (cancel_released n rest s) = admissionReservations s"
  "waitQueue (cancel_released n rest s) = waitQueue s"
  "runningQueue (cancel_released n rest s) = runningQueue s"
  "leases (cancel_released n rest s) = leases s"
  "recordedUseLeases (cancel_released n rest s) = recordedUseLeases s"
  "suspendResumeTimer (cancel_released n rest s) = suspendResumeTimer s"
  "restoreStarted (cancel_released n rest s) = restoreStarted s"
  "restoring (cancel_released n rest s) = restoring s"
  "restoreRetryTimer (cancel_released n rest s) = restoreRetryTimer s"
  "listedEncodeIds (cancel_released n rest s) = listedEncodeIds s"
  "admittingEncodeIds (cancel_released n rest s) = admittingEncodeIds s"
  "lost_checks (cancel_released n rest s) = lost_checks s"
  "granted_to (cancel_released n rest s) = granted_to s"
  "released_leases (cancel_released n rest s) = released_leases s"
  "restored (cancel_released n rest s) = restored s"
  by (simp_all add: cancel_released_def)

lemma item_released_frame [simp]:
  "concurrentEncodeNum (item_released parent s) = concurrentEncodeNum s"
  "encodeQueueLimit (item_released parent s) = encodeQueueLimit s"
  "hasStore (item_released parent s) = hasStore s"
  "encoderOption (item_released parent s) = encoderOption s"
  "nextEncoder (item_released parent s) = nextEncoder s"
  "startedEncoders (item_released parent s) = startedEncoders s"
  "admissionReservations (item_released parent s) = admissionReservations s"
  "waitQueue (item_released parent s) = waitQueue s"
  "runningQueue (item_released parent s) = runningQueue s"
  "leases (item_released parent s) = leases s"
  "recordedUseLeases (item_released parent s) = recordedUseLeases s"
  "suspendResumeTimer (item_released parent s) = suspendResumeTimer s"
  "restoreStarted (item_released parent s) = restoreStarted s"
  "restoring (item_released parent s) = restoring s"
  "restoreRetryTimer (item_released parent s) = restoreRetryTimer s"
  "listedEncodeIds (item_released parent s) = listedEncodeIds s"
  "admittingEncodeIds (item_released parent s) = admittingEncodeIds s"
  "lost_checks (item_released parent s) = lost_checks s"
  "granted_to (item_released parent s) = granted_to s"
  "released_leases (item_released parent s) = released_leases s"
  "restored (item_released parent s) = restored s"
  by (simp_all add: item_released_def split: option.split op.split)

lemma restoration_ends_frame [simp]:
  "concurrentEncodeNum (restoration_ends n s) = concurrentEncodeNum s"
  "encodeQueueLimit (restoration_ends n s) = encodeQueueLimit s"
  "hasStore (restoration_ends n s) = hasStore s"
  "encoderOption (restoration_ends n s) = encoderOption s"
  "nextEncoder (restoration_ends n s) = nextEncoder s"
  "startedEncoders (restoration_ends n s) = startedEncoders s"
  "admissionReservations (restoration_ends n s) = admissionReservations s"
  "waitQueue (restoration_ends n s) = waitQueue s"
  "runningQueue (restoration_ends n s) = runningQueue s"
  "leases (restoration_ends n s) = leases s"
  "recordedUseLeases (restoration_ends n s) = recordedUseLeases s"
  "suspendResumeTimer (restoration_ends n s) = suspendResumeTimer s"
  "restoreStarted (restoration_ends n s) = restoreStarted s"
  "restoreRetryTimer (restoration_ends n s) = restoreRetryTimer s"
  "listedEncodeIds (restoration_ends n s) = listedEncodeIds s"
  "admittingEncodeIds (restoration_ends n s) = admittingEncodeIds s"
  "ticks (restoration_ends n s) = ticks s"
  "lost_checks (restoration_ends n s) = lost_checks s"
  "granted_to (restoration_ends n s) = granted_to s"
  "unlocked_by (restoration_ends n s) = unlocked_by s"
  "released_leases (restoration_ends n s) = released_leases s"
  "restored (restoration_ends n s) = restored s"
  by (simp_all add: restoration_ends_def)

lemma judge_frame [simp]:
  "concurrentEncodeNum (snd (judgeRestorableRecord a b c d r s)) = concurrentEncodeNum s"
  "encodeQueueLimit (snd (judgeRestorableRecord a b c d r s)) = encodeQueueLimit s"
  "hasStore (snd (judgeRestorableRecord a b c d r s)) = hasStore s"
  "encoderOption (snd (judgeRestorableRecord a b c d r s)) = encoderOption s"
  "nextEncoder (snd (judgeRestorableRecord a b c d r s)) = nextEncoder s"
  "startedEncoders (snd (judgeRestorableRecord a b c d r s)) = startedEncoders s"
  "admissionReservations (snd (judgeRestorableRecord a b c d r s)) = admissionReservations s"
  "waitQueue (snd (judgeRestorableRecord a b c d r s)) = waitQueue s"
  "runningQueue (snd (judgeRestorableRecord a b c d r s)) = runningQueue s"
  "leases (snd (judgeRestorableRecord a b c d r s)) = leases s"
  "recordedUseLeases (snd (judgeRestorableRecord a b c d r s)) = recordedUseLeases s"
  "suspendResumeTimer (snd (judgeRestorableRecord a b c d r s)) = suspendResumeTimer s"
  "restoreStarted (snd (judgeRestorableRecord a b c d r s)) = restoreStarted s"
  "restoring (snd (judgeRestorableRecord a b c d r s)) = restoring s"
  "restoreRetryTimer (snd (judgeRestorableRecord a b c d r s)) = restoreRetryTimer s"
  "listedEncodeIds (snd (judgeRestorableRecord a b c d r s)) = listedEncodeIds s"
  "admittingEncodeIds (snd (judgeRestorableRecord a b c d r s)) = admittingEncodeIds s"
  "ticks (snd (judgeRestorableRecord a b c d r s)) = ticks s"
  "lost_checks (snd (judgeRestorableRecord a b c d r s)) = lost_checks s"
  "granted_to (snd (judgeRestorableRecord a b c d r s)) = granted_to s"
  "unlocked_by (snd (judgeRestorableRecord a b c d r s)) = unlocked_by s"
  "released_leases (snd (judgeRestorableRecord a b c d r s)) = released_leases s"
  "restored (snd (judgeRestorableRecord a b c d r s)) = restored s"
  by (simp_all add: judgeRestorableRecord_def split: sum.split option.split)

lemma part_fields [simp]:
  "granted_to (granted n s) = granted_to s @ [n]" "unlocked_by (unlock n s) = unlocked_by s @ [n]"
  "ops (set_op n p s) = map_set n p (ops s)" "ops (end_op n s) = map_delete n (ops s)" "ops (answer n r s) = map_delete n (ops s)"
  "ops (new_op p s) = map_set (nextOp s) p (ops s)" "ops (granted n s) = ops s" "ops (unlock n s) = ops s" "ops (emit_event ev s) = ops s"
  "admissionReservations (admit_fails n j e s) = admissionReservations s - 1" "unlocked_by (admit_fails n j e s) = unlocked_by s @ [n]"
  "restoring (restoration_ends n s) = False" "ops (restoration_ends n s) = map_delete n (ops s)"
  "unlocked_by (cancel_released n rest s) = unlocked_by s @ [n]" "ticks (cancel_released n rest s) = ticks s + 1"
  by (simp_all add: granted_def unlock_def set_op_def end_op_def answer_def new_op_def emit_event_def admit_fails_def Let_def
    restoration_ends_def cancel_released_def)

text \<open>What counts in an operation, where waiting operations and cancellations count nothing.\<close>

definition plain :: "(op \<Rightarrow> int) \<Rightarrow> bool" where
  "plain f \<longleftrightarrow> (\<forall>p. case p of
     WaitPush opt \<Rightarrow> f p = 0 | WaitPersisted i opt \<Rightarrow> f p = 0 | WaitCancel i rest \<Rightarrow> f p = 0 | WaitCancelRecorded i \<Rightarrow> f p = 0
   | CancelExec i rest \<Rightarrow> f p = 0 | CancelRunning rest \<Rightarrow> f p = 0 | CancelReleasing k rest \<Rightarrow> f p = 0 | _ \<Rightarrow> True)"

lemma plainD [simp]:
  assumes "plain f"
  shows "f (WaitPush opt) = 0" "f (WaitPersisted i opt) = 0" "f (WaitCancel i rest) = 0" "f (WaitCancelRecorded i) = 0"
    "f (CancelExec i rest) = 0" "f (CancelRunning rest) = 0" "f (CancelReleasing k rest) = 0"
proof -
  have p: "case p of WaitPush opt \<Rightarrow> f p = 0 | WaitPersisted i opt \<Rightarrow> f p = 0 | WaitCancel i rest \<Rightarrow> f p = 0
     | WaitCancelRecorded i \<Rightarrow> f p = 0 | CancelExec i rest \<Rightarrow> f p = 0 | CancelRunning rest \<Rightarrow> f p = 0
     | CancelReleasing k rest \<Rightarrow> f p = 0 | _ \<Rightarrow> True" for p
    using assms unfolding plain_def by (rule spec)
  show "f (WaitPush opt) = 0" "f (WaitPersisted i opt) = 0" "f (WaitCancel i rest) = 0" "f (WaitCancelRecorded i) = 0"
    "f (CancelExec i rest) = 0" "f (CancelRunning rest) = 0" "f (CancelReleasing k rest) = 0"
    using p [of "WaitPush opt"] p [of "WaitPersisted i opt"] p [of "WaitCancel i rest"] p [of "WaitCancelRecorded i"]
      p [of "CancelExec i rest"] p [of "CancelRunning rest"] p [of "CancelReleasing k rest"] by simp_all
qed

definition rejected_weight :: "(op \<Rightarrow> int) \<Rightarrow> int option \<Rightarrow> int" where
  "rejected_weight f j = (case j of None \<Rightarrow> 0 | Some i \<Rightarrow> f (PersistedRemove i))"

lemma tot_parts [simp]:
  assumes "ops_ok s"
  shows "tot f (ops (admit_rejected n j e s)) = tot f (ops s) - at_op f n (ops s) + rejected_weight f j"
    "tot f (ops (admit_fails n j e s)) = tot f (ops s) - at_op f n (ops s) + rejected_weight f j"
    "plain f \<Longrightarrow> tot f (ops (start_cancel n i rest s)) = tot f (ops s) - at_op f n (ops s)"
    "plain f \<Longrightarrow> tot f (ops (cancel_ends n rest failed s)) = tot f (ops s) - at_op f n (ops s)"
    "plain f \<Longrightarrow> tot f (ops (cancel_released n rest s)) = tot f (ops s) - at_op f n (ops s)"
proof -
  have r: "tot f (ops (admit_rejected n j e s)) = tot f (ops s) - at_op f n (ops s) + rejected_weight f j" if "ops_ok s" for s
    using that by (simp add: admit_rejected_def rejected_weight_def split: option.split)
  show "tot f (ops (admit_rejected n j e s)) = tot f (ops s) - at_op f n (ops s) + rejected_weight f j" by (rule r [OF assms])
  show "tot f (ops (admit_fails n j e s)) = tot f (ops s) - at_op f n (ops s) + rejected_weight f j"
    using assms by (simp add: admit_fails_def Let_def r)
  show "plain f \<Longrightarrow> tot f (ops (start_cancel n i rest s)) = tot f (ops s) - at_op f n (ops s)"
    using assms by (simp add: start_cancel_def)
  have d: "plain f \<Longrightarrow> tot f (ops (cancel_ends n rest failed s)) = tot f (ops s) - at_op f n (ops s)" if "ops_ok s" for s failed
    using that by (simp add: cancel_ends_def start_cancel_def split: cancel_rest.split list.split)
  show "plain f \<Longrightarrow> tot f (ops (cancel_ends n rest failed s)) = tot f (ops s) - at_op f n (ops s)" by (rule d [OF assms])
  show "plain f \<Longrightarrow> tot f (ops (cancel_released n rest s)) = tot f (ops s) - at_op f n (ops s)"
    using assms by (simp add: cancel_released_def d)
qed

lemma tot_item [simp]: "ops_ok s \<Longrightarrow> plain f \<Longrightarrow> tot f (ops (item_released parent s)) = tot f (ops s)"
  by (auto simp: item_released_def at_op_def split: option.split op.split)

lemma tot_admit [simp]:
  assumes "ops_ok s"
  shows "tot f (ops (admit n j opt s)) = tot f (ops s) - at_op f n (ops s) +
    (if admissionReservations (admit n j opt s) = admissionReservations s then rejected_weight f j else f (AdmitExec j opt))"
  using assms by (simp add: admit_def)

end
