(* ===== verification/Encode_Facts.thy ===== *)
theory Encode_Facts
  imports Encode_Laws
begin

text \<open>
  The invariants of the queue of the encodes and its properties: how many encodes run and wait, that
  the lock is given back, that the queue does not come to a stop, and the life of the leases.
\<close>

subsection \<open>Reservations, the lock and the restoration\<close>

text \<open>An admission that has taken its place.\<close>

definition adm :: "op \<Rightarrow> int" where
  "adm p = (case p of
     AdmitExec j opt \<Rightarrow> 1
   | AdmitAcquire j opt \<Rightarrow> 1
   | AdmitRecord opt l \<Rightarrow> 1
   | AdmitEncoder j opt i l \<Rightarrow> 1
   | AdmitRemove err l \<Rightarrow> 1
   | AdmitRelease j err \<Rightarrow> 1
   | _ \<Rightarrow> 0)"

lemma adm_op [simp]:
  "adm (WaitPush opt) = 0" "adm (WaitPersisted i opt) = 0" "adm (WaitCancel i rest) = 0" "adm (WaitCancelRecorded i) = 0"
  "adm (AdmitExec j opt) = 1" "adm (AdmitAcquire j opt) = 1" "adm (AdmitRecord opt l) = 1" "adm (AdmitEncoder j opt i l) = 1"
  "adm (AdmitRemove err l) = 1" "adm (AdmitRelease j err) = 1" "adm (PersistedRemove i) = 0" "adm CheckExec = 0"
  "adm (CheckStart e) = 0" "adm (FinalExec e k) = 0" "adm (Settling e) = 0" "adm (ReleaseRecord e k) = 0"
  "adm (ReleaseLease e k) = 0" "adm (CancelExec i rest) = 0" "adm (CancelRunning rest) = 0" "adm (CancelReleasing m rest) = 0"
  "adm RestoreList = 0" "adm (RestoreJudge r rs) = 0" "adm (RestoreAcquire r rs) = 0" "adm (RestoreDrop rs) = 0"
  "adm (RestoreEncoder r l rs) = 0" "adm (RestoreRelease rs) = 0"
  by (simp_all add: adm_def)

lemma adm_plain [simp]: "plain (adm)" "0 \<le> adm p"
  by (simp_all add: plain_def adm_def split: op.split)

text \<open>An operation that holds the execution lock.\<close>

definition holds :: "op \<Rightarrow> int" where
  "holds p = (case p of
     AdmitAcquire j opt \<Rightarrow> 1
   | AdmitRecord opt l \<Rightarrow> 1
   | AdmitEncoder j opt i l \<Rightarrow> 1
   | AdmitRemove err l \<Rightarrow> 1
   | AdmitRelease j err \<Rightarrow> 1
   | CheckStart e \<Rightarrow> 1
   | CancelRunning rest \<Rightarrow> 1
   | CancelReleasing m rest \<Rightarrow> 1
   | _ \<Rightarrow> 0)"

lemma holds_op [simp]:
  "holds (WaitPush opt) = 0" "holds (WaitPersisted i opt) = 0" "holds (WaitCancel i rest) = 0" "holds (WaitCancelRecorded i) = 0"
  "holds (AdmitExec j opt) = 0" "holds (AdmitAcquire j opt) = 1" "holds (AdmitRecord opt l) = 1"
  "holds (AdmitEncoder j opt i l) = 1" "holds (AdmitRemove err l) = 1" "holds (AdmitRelease j err) = 1"
  "holds (PersistedRemove i) = 0" "holds CheckExec = 0" "holds (CheckStart e) = 1" "holds (FinalExec e k) = 0"
  "holds (Settling e) = 0" "holds (ReleaseRecord e k) = 0" "holds (ReleaseLease e k) = 0" "holds (CancelExec i rest) = 0"
  "holds (CancelRunning rest) = 1" "holds (CancelReleasing m rest) = 1" "holds RestoreList = 0" "holds (RestoreJudge r rs) = 0"
  "holds (RestoreAcquire r rs) = 0" "holds (RestoreDrop rs) = 0" "holds (RestoreEncoder r l rs) = 0"
  "holds (RestoreRelease rs) = 0"
  by (simp_all add: holds_def)

lemma holds_nonneg [simp]: "0 \<le> holds p"
  by (simp add: holds_def split: op.split)

text \<open>The restoration.\<close>

definition looping :: "op \<Rightarrow> int" where
  "looping p = (case p of
     RestoreJudge r rs \<Rightarrow> 1
   | RestoreAcquire r rs \<Rightarrow> 1
   | RestoreDrop rs \<Rightarrow> 1
   | RestoreEncoder r l rs \<Rightarrow> 1
   | RestoreRelease rs \<Rightarrow> 1
   | _ \<Rightarrow> 0)"

lemma looping_op [simp]:
  "looping (WaitPush opt) = 0" "looping (WaitPersisted i opt) = 0" "looping (WaitCancel i rest) = 0"
  "looping (WaitCancelRecorded i) = 0" "looping (AdmitExec j opt) = 0" "looping (AdmitAcquire j opt) = 0"
  "looping (AdmitRecord opt l) = 0" "looping (AdmitEncoder j opt i l) = 0" "looping (AdmitRemove err l) = 0"
  "looping (AdmitRelease j err) = 0" "looping (PersistedRemove i) = 0" "looping CheckExec = 0" "looping (CheckStart e) = 0"
  "looping (FinalExec e k) = 0" "looping (Settling e) = 0" "looping (ReleaseRecord e k) = 0" "looping (ReleaseLease e k) = 0"
  "looping (CancelExec i rest) = 0" "looping (CancelRunning rest) = 0" "looping (CancelReleasing m rest) = 0"
  "looping RestoreList = 0" "looping (RestoreJudge r rs) = 1" "looping (RestoreAcquire r rs) = 1" "looping (RestoreDrop rs) = 1"
  "looping (RestoreEncoder r l rs) = 1" "looping (RestoreRelease rs) = 1"
  by (simp_all add: looping_def)

lemma looping_plain [simp]: "plain (looping)" "0 \<le> looping p"
  by (simp_all add: plain_def looping_def split: op.split)

definition restop :: "op \<Rightarrow> int" where
  "restop p = (case p of
     RestoreList \<Rightarrow> 1
   | RestoreJudge r rs \<Rightarrow> 1
   | RestoreAcquire r rs \<Rightarrow> 1
   | RestoreDrop rs \<Rightarrow> 1
   | RestoreEncoder r l rs \<Rightarrow> 1
   | RestoreRelease rs \<Rightarrow> 1
   | _ \<Rightarrow> 0)"

lemma restop_op [simp]:
  "restop (WaitPush opt) = 0" "restop (WaitPersisted i opt) = 0" "restop (WaitCancel i rest) = 0"
  "restop (WaitCancelRecorded i) = 0" "restop (AdmitExec j opt) = 0" "restop (AdmitAcquire j opt) = 0"
  "restop (AdmitRecord opt l) = 0" "restop (AdmitEncoder j opt i l) = 0" "restop (AdmitRemove err l) = 0"
  "restop (AdmitRelease j err) = 0" "restop (PersistedRemove i) = 0" "restop CheckExec = 0" "restop (CheckStart e) = 0"
  "restop (FinalExec e k) = 0" "restop (Settling e) = 0" "restop (ReleaseRecord e k) = 0" "restop (ReleaseLease e k) = 0"
  "restop (CancelExec i rest) = 0" "restop (CancelRunning rest) = 0" "restop (CancelReleasing m rest) = 0"
  "restop RestoreList = 1" "restop (RestoreJudge r rs) = 1" "restop (RestoreAcquire r rs) = 1" "restop (RestoreDrop rs) = 1"
  "restop (RestoreEncoder r l rs) = 1" "restop (RestoreRelease rs) = 1"
  by (simp_all add: restop_def)

lemma restop_plain [simp]: "plain (restop)" "0 \<le> restop p"
  by (simp_all add: plain_def restop_def split: op.split)

lemma weight_none [simp]: "rejected_weight adm j = 0" "rejected_weight holds j = 0" "rejected_weight looping j = 0" "rejected_weight restop j = 0"
  by (simp_all add: rejected_weight_def split: option.split)

lemma queue_encoder_fields [simp]:
  "ops (queue_encoder opt i l s) = ops s" "admissionReservations (queue_encoder opt i l s) = admissionReservations s"
  "waitQueue (queue_encoder opt i l s) = waitQueue s @ [nextEncoder s]" "runningQueue (queue_encoder opt i l s) = runningQueue s"
  "restoring (queue_encoder opt i l s) = restoring s" "restoreRetryTimer (queue_encoder opt i l s) = restoreRetryTimer s"
  "restoreStarted (queue_encoder opt i l s) = restoreStarted s" "granted_to (queue_encoder opt i l s) = granted_to s"
  "unlocked_by (queue_encoder opt i l s) = unlocked_by s" "concurrentEncodeNum (queue_encoder opt i l s) = concurrentEncodeNum s"
  "suspendResumeTimer (queue_encoder opt i l s) = suspendResumeTimer s" "ticks (queue_encoder opt i l s) = ticks s"
  "lost_checks (queue_encoder opt i l s) = lost_checks s" "startedEncoders (queue_encoder opt i l s) = startedEncoders s"
  "leases (queue_encoder opt i l s) = leases s" "nextEncoder (queue_encoder opt i l s) = nextEncoder s + 1"
  "encodeQueueLimit (queue_encoder opt i l s) = encodeQueueLimit s" "restored (queue_encoder opt i l s) = restored s"
  "admittingEncodeIds (queue_encoder opt i l s) = admittingEncodeIds s" "released_leases (queue_encoder opt i l s) = released_leases s"
  "hasStore (queue_encoder opt i l s) = hasStore s"
  by (simp_all add: queue_encoder_def Let_def)

definition inv_res :: "encode_manager \<Rightarrow> bool" where
  "inv_res s \<longleftrightarrow> admissionReservations s = tot adm (ops s)"

lemmas split_steps = list.split option.split sum.split bool.split encoder_outcome.split release_for.split

lemma tot_loop [simp]: "ops_ok s \<Longrightarrow> f CheckExec = 0 \<Longrightarrow> map_of (ops s) n = Some p \<Longrightarrow> (\<And>r rs. f (RestoreJudge r rs) = 0) \<Longrightarrow>
    tot f (ops (restore_loop n rs now s)) = tot f (ops s) - f p"
  by (rule restore_loop_cases [of n rs now s]) (simp_all add: at_op_eq request_checks_tot request_checks_at)

lemma loop_frame [simp]:
  "concurrentEncodeNum (restore_loop n rs now s) = concurrentEncodeNum s"
  "encodeQueueLimit (restore_loop n rs now s) = encodeQueueLimit s"
  "hasStore (restore_loop n rs now s) = hasStore s"
  "encoderOption (restore_loop n rs now s) = encoderOption s"
  "nextEncoder (restore_loop n rs now s) = nextEncoder s"
  "startedEncoders (restore_loop n rs now s) = startedEncoders s"
  "admissionReservations (restore_loop n rs now s) = admissionReservations s"
  "waitQueue (restore_loop n rs now s) = waitQueue s"
  "runningQueue (restore_loop n rs now s) = runningQueue s"
  "leases (restore_loop n rs now s) = leases s"
  "recordedUseLeases (restore_loop n rs now s) = recordedUseLeases s"
  "restoreStarted (restore_loop n rs now s) = restoreStarted s"
  "restoreRetryTimer (restore_loop n rs now s) = restoreRetryTimer s"
  "listedEncodeIds (restore_loop n rs now s) = listedEncodeIds s"
  "admittingEncodeIds (restore_loop n rs now s) = admittingEncodeIds s"
  "ticks (restore_loop n rs now s) = ticks s"
  "lost_checks (restore_loop n rs now s) = lost_checks s"
  "granted_to (restore_loop n rs now s) = granted_to s"
  "unlocked_by (restore_loop n rs now s) = unlocked_by s"
  "released_leases (restore_loop n rs now s) = released_leases s"
  "restored (restore_loop n rs now s) = restored s"
  by (rule restore_loop_cases [of n rs now s]; simp)+

lemma of_bool_one [simp]: "(1 :: int) \<le> of_bool b \<longleftrightarrow> b"
  by (cases b) simp_all

lemma res_step: "encode_step s s' \<Longrightarrow> ops_ok s \<Longrightarrow> inv_res s \<Longrightarrow> inv_res s'"
proof (induction rule: encode_step.induct)
  case (push s opt)
  then show ?case by (simp add: inv_res_def step_defs admit_def) 
next
  case (persisted i s opt)
  then show ?case by (simp add: inv_res_def step_defs admit_def persisted_admission_def) 
next
  case (cancel_exec s n i rest refused)
  then show ?case using op_below [OF cancel_exec(2,1)] by (simp add: inv_res_def step_defs at_op_eq release_items_ops split: option.split)
qed (simp_all add: inv_res_def step_defs at_op_eq persisted_ends_def case_prod_beta  admit_def persisted_admission_def requestCheckQueue_tot requestCheckQueue_at request_checks_tot split: split_steps)

definition inv_restop :: "encode_manager \<Rightarrow> bool" where
  "inv_restop s \<longleftrightarrow> tot restop (ops s) = of_bool (restoring s) \<and> (restoring s \<longrightarrow> \<not> restoreRetryTimer s \<and> restoreStarted s) \<and>
     (restoreRetryTimer s \<longrightarrow> restoreStarted s)"

lemma restop_at: "ops_ok s \<Longrightarrow> tot restop (ops s) = of_bool (restoring s) \<Longrightarrow> map_of (ops s) n = Some p \<Longrightarrow> restop p = 1 \<Longrightarrow> restoring s"
  using at_op_le [of restop n "ops s"] by (cases "restoring s") (simp_all add: at_op_eq)

lemma restop_loop:
  assumes "ops_ok s" "inv_restop s" "map_of (ops s) n = Some p" "restop p = 1"
  shows "inv_restop (restore_loop n rs now s)"
proof -
  have t: "tot restop (ops s) = of_bool (restoring s)" using assms(2) by (simp add: inv_restop_def)
  have r: "restoring s" by (rule restop_at [OF assms(1) t assms(3,4)])
  have n: "at_op restop n (ops s) = 1" "tot restop (ops s) = 1" "restoreStarted s" "\<not> restoreRetryTimer s"
    using assms(2,3,4) r by (simp_all add: at_op_eq inv_restop_def)
  have m: "at_op restop n (ops (request_checks k now s)) = 1" for k
    using request_checks_at [OF assms(1), of n k now] assms(3,4) by (simp add: at_op_eq)
  show ?thesis
    by (rule restore_loop_cases [of n rs now s]) (use assms(1) r n m in \<open>simp_all add: inv_restop_def request_checks_tot\<close>)
qed

lemma restop_step: "encode_step s s' \<Longrightarrow> ops_ok s \<Longrightarrow> inv_restop s \<Longrightarrow> inv_restop s'"
proof (induction rule: encode_step.induct)
  case (restore s)
  then show ?case by (auto simp: inv_restop_def step_defs)
next
  case (cancel_exec s n i rest refused)
  then show ?case using op_below [OF cancel_exec(2,1)] by (auto simp: inv_restop_def step_defs at_op_eq release_items_ops split: option.split)
next
  case (restore_listed s n listing now)
  then have r: "restoring s" using restop_at [of s n RestoreList] by (simp add: inv_restop_def)
  have "inv_restop (restore_loop n rs now (s\<lparr>listedEncodeIds := is\<rparr>))" for rs "is"
    by (rule restop_loop [of _ _ RestoreList]) (use restore_listed in \<open>simp_all add: inv_restop_def\<close>)
  moreover have "inv_restop (restoration_ends n (s\<lparr>restoreRetryTimer := b\<rparr>))" "inv_restop (restoration_ends n s)" for b
    using restore_listed r by (simp_all add: inv_restop_def at_op_eq)
  ultimately show ?case by (cases listing) (simp_all add: restore_listed_def)
next
  case (restore_judged s n r rs dependencies now)
  have "inv_restop (restore_loop n rs now (snd (judgeRestorableRecord a b c d r s)))" for a b c d
    by (rule restop_loop [of _ _ "RestoreJudge r rs"]) (use restore_judged in \<open>simp_all add: inv_restop_def\<close>)
  then show ?case using restore_judged by (cases dependencies) (simp_all add: restore_judged_def case_prod_beta Let_def inv_restop_def at_op_eq)
next
  case (restore_encoder s n r l rs ready now)
  have "inv_restop (restore_loop n rs now ((queue_encoder (p_option r) (p_id r) l s)\<lparr>restored := restored s + 1\<rparr>))"
    by (rule restop_loop [of _ _ "RestoreEncoder r l rs"]) (use restore_encoder in \<open>simp_all add: inv_restop_def\<close>)
  then show ?case using restore_encoder by (simp add: restore_encoder_def inv_restop_def at_op_eq)
qed (simp_all add: restop_loop, simp_all add: inv_restop_def step_defs at_op_eq persisted_ends_def case_prod_beta admit_def persisted_admission_def requestCheckQueue_tot requestCheckQueue_at request_checks_tot split: split_steps)

text \<open>What is granted is given back once.\<close>

definition inv_lock :: "encode_manager \<Rightarrow> bool" where
  "inv_lock s \<longleftrightarrow> (\<forall>n. int (count_list (granted_to s) n) = int (count_list (unlocked_by s) n) + at_op holds n (ops s))"

lemma at_below: "ops_ok s \<Longrightarrow> nextOp s \<le> k \<Longrightarrow> at_op f k (ops s) = 0"
  by (simp add: ops_ok_def at_op_def)

lemma request_holds [simp]:
  assumes "ops_ok s"
  shows "at_op holds k (ops (requestCheckQueue now s)) = at_op holds k (ops s)" "at_op holds k (ops (request_checks m now s)) = at_op holds k (ops s)"
proof -
  have one: "at_op holds k (ops (requestCheckQueue now s)) = at_op holds k (ops s)" if "ops_ok s" for s
    by (rule requestCheckQueue_cases [of now s]) (use that in \<open>simp_all add: new_op_def\<close>)
  then show "at_op holds k (ops (requestCheckQueue now s)) = at_op holds k (ops s)" using assms by blast
  show "at_op holds k (ops (request_checks m now s)) = at_op holds k (ops s)"
    using assms by (induction m arbitrary: s) (simp_all add: one)
qed

lemma parts_hold [simp]:
  "at_op holds k (ops (admit_rejected n j e s)) = (if k = n then 0 else at_op holds k (ops s))"
  "at_op holds k (ops (admit_fails n j e s)) = (if k = n then 0 else at_op holds k (ops s))"
  "at_op holds k (ops (cancel_ends n rest failed s)) = (if k = n then 0 else at_op holds k (ops s))"
  "at_op holds k (ops (start_cancel n i rest s)) = (if k = n then 0 else at_op holds k (ops s))"
  "at_op holds k (ops (cancel_released n rest s)) = (if k = n then 0 else at_op holds k (ops s))"
  by (simp_all add: admit_rejected_def admit_fails_def cancel_ends_def start_cancel_def cancel_released_def Let_def
    split: option.split cancel_rest.split list.split)

lemma holds_loop [simp]:
  "ops_ok s \<Longrightarrow> at_op holds k (ops (restore_loop n rs now s)) = (if k = n then 0 else at_op holds k (ops s))"
  by (rule restore_loop_cases [of n rs now s]) simp_all

lemma holds_items [simp]:
  assumes "ops_ok s"
  shows "at_op holds k (ops (release_items es parent s)) = at_op holds k (ops s)"
  using assms
proof (induction es arbitrary: s)
  case (Cons e es)
  let ?s = "start_release (nextOp s) e (AfterCancel parent) (s\<lparr>nextOp := nextOp s + 1\<rparr>)"
  have "ops_ok ?s" using Cons.prems(1) by (auto simp: ops_ok_def)
  then show ?case using Cons.IH [of ?s] Cons.prems by (simp add: Let_def)
qed simp

lemma lock_item:
  assumes "inv_lock s"
  shows "inv_lock (item_released parent s)"
proof (cases "\<exists>m rest. map_of (ops s) parent = Some (CancelReleasing m rest)")
  case True
  then obtain m rest where p: "map_of (ops s) parent = Some (CancelReleasing m rest)" by blast
  then have "int (count_list (granted_to s) parent) = int (count_list (unlocked_by s) parent) + 1"
    using assms by (simp add: inv_lock_def at_op_eq)
  then show ?thesis using assms p by (simp add: item_released_def inv_lock_def at_op_eq)
next
  case False
  then have "item_released parent s = s"
    by (cases "map_of (ops s) parent") (simp_all add: item_released_def split: op.split)
  then show ?thesis using assms by simp
qed

lemma lock_done: "inv_lock s \<Longrightarrow> ops_ok s \<Longrightarrow> at_op holds n (ops s) = 0 \<Longrightarrow> inv_lock (release_done n k now s)"
proof -
  assume a: "inv_lock s" "ops_ok s" "at_op holds n (ops s) = 0"
  then have e: "inv_lock (end_op n s)" by (simp add: inv_lock_def)
  then show ?thesis using a lock_item [OF e] by (cases k) (simp_all add: release_done_def inv_lock_def)
qed

lemma lock_step: "encode_step s s' \<Longrightarrow> ops_ok s \<Longrightarrow> inv_lock s \<Longrightarrow> inv_lock s'"
proof (induction rule: encode_step.induct)
  case (record_removed s n e k now)
  then have "at_op holds n (ops s) = 0" by (simp add: at_op_eq)
  then show ?case using record_removed lock_done [of s n k now]
    by (cases "map_of (recordedUseLeases s) e") (simp_all add: record_removed_def inv_lock_def)
next
  case (lease_released s n e k now)
  then have "at_op holds n (ops s) = 0" by (simp add: at_op_eq)
  then show ?case using lease_released lock_done by blast
next
  case (cancel_exec s n i rest refused)
  then have "n < nextOp s" "at_op holds n (ops s) = 0" using op_below by (blast, simp add: at_op_eq)
  then show ?case using cancel_exec by (simp add: inv_lock_def step_defs getEncodeId_def split: option.split)
next
  case (restore_judged s n r rs dependencies now)
  then have "int (count_list (granted_to s) n) = int (count_list (unlocked_by s) n)" by (simp add: inv_lock_def at_op_eq)
  then show ?case using restore_judged
    by (cases dependencies) (simp_all add: restore_judged_def case_prod_beta Let_def inv_lock_def at_op_eq)
qed (simp_all add: inv_lock_def step_defs at_op_eq persisted_ends_def case_prod_beta admit_def persisted_admission_def split: split_steps)

subsection \<open>How many run and wait\<close>

definition inv_room :: "encode_manager \<Rightarrow> bool" where
  "inv_room s \<longleftrightarrow> 1 \<le> encodeQueueLimit s \<and> int (length (runningQueue s)) \<le> max 0 (concurrentEncodeNum s) \<and>
     admissionReservations s + int (length (waitQueue s)) \<le> encodeQueueLimit s + int (restored s)"

lemma filter_bound: "int (length xs) \<le> c \<Longrightarrow> int (length (filter P xs)) \<le> c" "a + int (length xs) \<le> c \<Longrightarrow> a + int (length (filter P xs)) \<le> c"
  using length_filter_le [of P xs] by linarith+

lemma room_step: "encode_step s s' \<Longrightarrow> inv_room s \<Longrightarrow> inv_room s'"
proof (induction rule: encode_step.induct)
  case (admit_encoder s n j opt i l outcome now)
  then show ?case
    by (auto simp: inv_room_def step_defs persisted_ends_def intro!: filter_bound split: option.split encoder_outcome.split)
next
  case (finalize s n e k isGranted)
  then show ?case by (auto simp: inv_room_def step_defs intro!: filter_bound)
next
  case (cancel_exec s n i rest refused)
  then show ?case by (auto simp: inv_room_def step_defs intro!: filter_bound split: option.split)
next
  case (check_exec s n isGranted)
  then show ?case by (auto simp: inv_room_def step_defs split: list.split option.split)
qed (auto simp: inv_room_def step_defs persisted_ends_def case_prod_beta admit_def persisted_admission_def split: split_steps)

subsection \<open>Ids\<close>

text \<open>Operations that will queue an encode with the id, operations on a request that was handed over with the id, and
  requests of \<open>push\<close> that have got it.\<close>

definition has_id :: "int \<Rightarrow> op \<Rightarrow> int" where
  "has_id i0 p = (case p of
     AdmitExec j opt \<Rightarrow> of_bool (j = Some i0)
   | AdmitAcquire j opt \<Rightarrow> of_bool (j = Some i0)
   | AdmitEncoder j opt i l \<Rightarrow> of_bool (i = i0)
   | RestoreJudge r rs \<Rightarrow> of_bool (p_id r = i0)
   | RestoreAcquire r rs \<Rightarrow> of_bool (p_id r = i0)
   | RestoreEncoder r l rs \<Rightarrow> of_bool (p_id r = i0)
   | _ \<Rightarrow> 0)"

lemma has_id_op [simp]:
  "has_id i0 (WaitPush opt) = 0" "has_id i0 (WaitPersisted i opt) = 0" "has_id i0 (WaitCancel i rest) = 0"
  "has_id i0 (WaitCancelRecorded i) = 0" "has_id i0 (AdmitExec j opt) = of_bool (j = Some i0)"
  "has_id i0 (AdmitAcquire j opt) = of_bool (j = Some i0)" "has_id i0 (AdmitRecord opt l) = 0"
  "has_id i0 (AdmitEncoder j opt i l) = of_bool (i = i0)" "has_id i0 (AdmitRemove err l) = 0" "has_id i0 (AdmitRelease j err) = 0"
  "has_id i0 (PersistedRemove i) = 0" "has_id i0 CheckExec = 0" "has_id i0 (CheckStart e) = 0" "has_id i0 (FinalExec e k) = 0"
  "has_id i0 (Settling e) = 0" "has_id i0 (ReleaseRecord e k) = 0" "has_id i0 (ReleaseLease e k) = 0"
  "has_id i0 (CancelExec i rest) = 0" "has_id i0 (CancelRunning rest) = 0" "has_id i0 (CancelReleasing m rest) = 0"
  "has_id i0 RestoreList = 0" "has_id i0 (RestoreJudge r rs) = of_bool (p_id r = i0)"
  "has_id i0 (RestoreAcquire r rs) = of_bool (p_id r = i0)" "has_id i0 (RestoreDrop rs) = 0"
  "has_id i0 (RestoreEncoder r l rs) = of_bool (p_id r = i0)" "has_id i0 (RestoreRelease rs) = 0"
  by (simp_all add: has_id_def)

lemma has_id_plain [simp]: "plain (has_id i0)" "0 \<le> has_id i0 p"
  by (simp_all add: plain_def has_id_def split: op.split)

definition persisting :: "int \<Rightarrow> op \<Rightarrow> int" where
  "persisting i0 p = (case p of
     AdmitExec j opt \<Rightarrow> of_bool (j = Some i0)
   | AdmitAcquire j opt \<Rightarrow> of_bool (j = Some i0)
   | AdmitEncoder j opt i l \<Rightarrow> of_bool (j = Some i0)
   | AdmitRelease j err \<Rightarrow> of_bool (j = Some i0)
   | PersistedRemove i \<Rightarrow> of_bool (i = i0)
   | _ \<Rightarrow> 0)"

lemma persisting_op [simp]:
  "persisting i0 (WaitPush opt) = 0" "persisting i0 (WaitPersisted i opt) = 0" "persisting i0 (WaitCancel i rest) = 0"
  "persisting i0 (WaitCancelRecorded i) = 0" "persisting i0 (AdmitExec j opt) = of_bool (j = Some i0)"
  "persisting i0 (AdmitAcquire j opt) = of_bool (j = Some i0)" "persisting i0 (AdmitRecord opt l) = 0"
  "persisting i0 (AdmitEncoder j opt i l) = of_bool (j = Some i0)" "persisting i0 (AdmitRemove err l) = 0"
  "persisting i0 (AdmitRelease j err) = of_bool (j = Some i0)" "persisting i0 (PersistedRemove i) = of_bool (i = i0)"
  "persisting i0 CheckExec = 0" "persisting i0 (CheckStart e) = 0" "persisting i0 (FinalExec e k) = 0"
  "persisting i0 (Settling e) = 0" "persisting i0 (ReleaseRecord e k) = 0" "persisting i0 (ReleaseLease e k) = 0"
  "persisting i0 (CancelExec i rest) = 0" "persisting i0 (CancelRunning rest) = 0" "persisting i0 (CancelReleasing m rest) = 0"
  "persisting i0 RestoreList = 0" "persisting i0 (RestoreJudge r rs) = 0" "persisting i0 (RestoreAcquire r rs) = 0"
  "persisting i0 (RestoreDrop rs) = 0" "persisting i0 (RestoreEncoder r l rs) = 0" "persisting i0 (RestoreRelease rs) = 0"
  by (simp_all add: persisting_def)

lemma persisting_plain [simp]: "plain (persisting i0)" "0 \<le> persisting i0 p"
  by (simp_all add: plain_def persisting_def split: op.split)

definition pushed :: "int \<Rightarrow> op \<Rightarrow> int" where
  "pushed i0 p = (case p of
     AdmitEncoder j opt i l \<Rightarrow> of_bool (j \<noteq> Some i0 \<and> i = i0)
   | _ \<Rightarrow> 0)"

lemma pushed_op [simp]:
  "pushed i0 (WaitPush opt) = 0" "pushed i0 (WaitPersisted i opt) = 0" "pushed i0 (WaitCancel i rest) = 0"
  "pushed i0 (WaitCancelRecorded i) = 0" "pushed i0 (AdmitExec j opt) = 0" "pushed i0 (AdmitAcquire j opt) = 0"
  "pushed i0 (AdmitRecord opt l) = 0" "pushed i0 (AdmitEncoder j opt i l) = of_bool (j \<noteq> Some i0 \<and> i = i0)"
  "pushed i0 (AdmitRemove err l) = 0" "pushed i0 (AdmitRelease j err) = 0" "pushed i0 (PersistedRemove i) = 0"
  "pushed i0 CheckExec = 0" "pushed i0 (CheckStart e) = 0" "pushed i0 (FinalExec e k) = 0" "pushed i0 (Settling e) = 0"
  "pushed i0 (ReleaseRecord e k) = 0" "pushed i0 (ReleaseLease e k) = 0" "pushed i0 (CancelExec i rest) = 0"
  "pushed i0 (CancelRunning rest) = 0" "pushed i0 (CancelReleasing m rest) = 0" "pushed i0 RestoreList = 0"
  "pushed i0 (RestoreJudge r rs) = 0" "pushed i0 (RestoreAcquire r rs) = 0" "pushed i0 (RestoreDrop rs) = 0"
  "pushed i0 (RestoreEncoder r l rs) = 0" "pushed i0 (RestoreRelease rs) = 0"
  by (simp_all add: pushed_def)

lemma pushed_plain [simp]: "plain (pushed i0)" "0 \<le> pushed i0 p"
  by (simp_all add: plain_def pushed_def split: op.split)

definition inv_persist :: "encode_manager \<Rightarrow> bool" where
  "inv_persist s \<longleftrightarrow> (\<forall>i. tot (persisting i) (ops s) = of_bool (i \<in> set (admittingEncodeIds s)))"

lemma weight_persisting [simp]: "rejected_weight (persisting i) j = of_bool (j = Some i)" "rejected_weight (has_id i) j = 0"
  by (auto simp: rejected_weight_def split: option.split)

lemma persist_in: "inv_persist s \<Longrightarrow> map_of (ops s) n = Some p \<Longrightarrow> persisting i p = 1 \<Longrightarrow> i \<in> set (admittingEncodeIds s)"
  using at_op_le [of "persisting i" n "ops s"] by (simp add: inv_persist_def at_op_eq)

lemma persist_step: "encode_step s s' \<Longrightarrow> ops_ok s \<Longrightarrow> inv_persist s \<Longrightarrow> inv_persist s'"
proof (induction rule: encode_step.induct)
  case (push s opt)
  then show ?case by (simp add: inv_persist_def step_defs admit_def)
next
  case (persisted i s opt)
  then show ?case by (auto simp: inv_persist_def step_defs admit_def persisted_admission_def isEncodeIdInUse_def)
next
  case (wait_persisted s n i opt)
  then show ?case by (auto simp: inv_persist_def step_defs admit_def persisted_admission_def isEncodeIdInUse_def at_op_eq)
next
  case (persisted_removed s n i)
  then have "i \<in> set (admittingEncodeIds s)" using persist_in by simp
  then show ?case using persisted_removed by (auto simp: inv_persist_def persisted_ends_def at_op_eq)
next
  case (admit_encoder s n j opt i l outcome now)
  then have "x \<in> set (admittingEncodeIds s)" if "j = Some x" for x using persist_in [OF _ admit_encoder(1)] that by simp
  then show ?case using admit_encoder
    by (auto simp: inv_persist_def step_defs persisted_ends_def at_op_eq requestCheckQueue_tot requestCheckQueue_at split: option.split encoder_outcome.split)
next
  case (cancel_exec s n i rest refused)
  then show ?case using op_below [OF cancel_exec(2,1)] by (simp add: inv_persist_def step_defs at_op_eq release_items_ops split: option.split)
qed (simp_all add: inv_persist_def step_defs at_op_eq persisted_ends_def case_prod_beta admit_def persisted_admission_def requestCheckQueue_tot requestCheckQueue_at request_checks_tot split: split_steps)

subsection \<open>Encoders\<close>

text \<open>Operations on an encoder that has left the waiting list, and those that will release its lease.\<close>

definition about :: "nat \<Rightarrow> op \<Rightarrow> int" where
  "about e0 p = (case p of
     CheckStart e \<Rightarrow> of_bool (e = e0)
   | FinalExec e k \<Rightarrow> of_bool (e = e0)
   | Settling e \<Rightarrow> of_bool (e = e0)
   | ReleaseRecord e k \<Rightarrow> of_bool (e = e0)
   | ReleaseLease e k \<Rightarrow> of_bool (e = e0)
   | _ \<Rightarrow> 0)"

lemma about_op [simp]:
  "about e0 (WaitPush opt) = 0" "about e0 (WaitPersisted i opt) = 0" "about e0 (WaitCancel i rest) = 0"
  "about e0 (WaitCancelRecorded i) = 0" "about e0 (AdmitExec j opt) = 0" "about e0 (AdmitAcquire j opt) = 0"
  "about e0 (AdmitRecord opt l) = 0" "about e0 (AdmitEncoder j opt i l) = 0" "about e0 (AdmitRemove err l) = 0"
  "about e0 (AdmitRelease j err) = 0" "about e0 (PersistedRemove i) = 0" "about e0 CheckExec = 0"
  "about e0 (CheckStart e) = of_bool (e = e0)" "about e0 (FinalExec e k) = of_bool (e = e0)"
  "about e0 (Settling e) = of_bool (e = e0)" "about e0 (ReleaseRecord e k) = of_bool (e = e0)"
  "about e0 (ReleaseLease e k) = of_bool (e = e0)" "about e0 (CancelExec i rest) = 0" "about e0 (CancelRunning rest) = 0"
  "about e0 (CancelReleasing m rest) = 0" "about e0 RestoreList = 0" "about e0 (RestoreJudge r rs) = 0"
  "about e0 (RestoreAcquire r rs) = 0" "about e0 (RestoreDrop rs) = 0" "about e0 (RestoreEncoder r l rs) = 0"
  "about e0 (RestoreRelease rs) = 0"
  by (simp_all add: about_def)

lemma about_plain [simp]: "plain (about e0)" "0 \<le> about e0 p"
  by (simp_all add: plain_def about_def split: op.split)

definition ending :: "nat \<Rightarrow> op \<Rightarrow> int" where
  "ending e0 p = (case p of
     FinalExec e k \<Rightarrow> of_bool (e = e0)
   | Settling e \<Rightarrow> of_bool (e = e0)
   | ReleaseRecord e k \<Rightarrow> of_bool (e = e0)
   | _ \<Rightarrow> 0)"

lemma ending_op [simp]:
  "ending e0 (WaitPush opt) = 0" "ending e0 (WaitPersisted i opt) = 0" "ending e0 (WaitCancel i rest) = 0"
  "ending e0 (WaitCancelRecorded i) = 0" "ending e0 (AdmitExec j opt) = 0" "ending e0 (AdmitAcquire j opt) = 0"
  "ending e0 (AdmitRecord opt l) = 0" "ending e0 (AdmitEncoder j opt i l) = 0" "ending e0 (AdmitRemove err l) = 0"
  "ending e0 (AdmitRelease j err) = 0" "ending e0 (PersistedRemove i) = 0" "ending e0 CheckExec = 0"
  "ending e0 (CheckStart e) = 0" "ending e0 (FinalExec e k) = of_bool (e = e0)" "ending e0 (Settling e) = of_bool (e = e0)"
  "ending e0 (ReleaseRecord e k) = of_bool (e = e0)" "ending e0 (ReleaseLease e k) = 0" "ending e0 (CancelExec i rest) = 0"
  "ending e0 (CancelRunning rest) = 0" "ending e0 (CancelReleasing m rest) = 0" "ending e0 RestoreList = 0"
  "ending e0 (RestoreJudge r rs) = 0" "ending e0 (RestoreAcquire r rs) = 0" "ending e0 (RestoreDrop rs) = 0"
  "ending e0 (RestoreEncoder r l rs) = 0" "ending e0 (RestoreRelease rs) = 0"
  by (simp_all add: ending_def)

lemma ending_plain [simp]: "plain (ending e0)" "0 \<le> ending e0 p"
  by (simp_all add: plain_def ending_def split: op.split)

lemma weight_about [simp]: "rejected_weight (about e) j = 0" "rejected_weight (ending e) j = 0"
  by (auto simp: rejected_weight_def split: option.split)

definition inv_enc :: "encode_manager \<Rightarrow> bool" where
  "inv_enc s \<longleftrightarrow> (\<forall>e \<in> set (waitQueue s) \<union> set (runningQueue s) \<union> set (startedEncoders s). e < nextEncoder s \<and> encoderOption s e \<noteq> None) \<and>
     (\<forall>e. nextEncoder s \<le> e \<longrightarrow> encoderOption s e = None \<and> tot (about e) (ops s) = 0) \<and>
     distinct (waitQueue s) \<and> distinct (runningQueue s) \<and> set (runningQueue s) \<subseteq> set (startedEncoders s) \<and>
     (\<forall>e \<in> set (waitQueue s). e \<notin> set (startedEncoders s) \<and> tot (about e) (ops s) = 0)"

lemma encD:
  assumes "inv_enc s"
  shows "e \<in> set (waitQueue s) \<Longrightarrow> e < nextEncoder s" "e \<in> set (runningQueue s) \<Longrightarrow> e < nextEncoder s"
    "e \<in> set (startedEncoders s) \<Longrightarrow> e < nextEncoder s" "nextEncoder s \<notin> set (waitQueue s)"
    "filter (\<lambda>item. item \<noteq> nextEncoder s) (waitQueue s) = waitQueue s"
proof -
  show b: "e \<in> set (waitQueue s) \<Longrightarrow> e < nextEncoder s" "e \<in> set (runningQueue s) \<Longrightarrow> e < nextEncoder s"
    "e \<in> set (startedEncoders s) \<Longrightarrow> e < nextEncoder s" for e using assms unfolding inv_enc_def by blast+
  show "nextEncoder s \<notin> set (waitQueue s)" using b(1) by blast
  then show "filter (\<lambda>item. item \<noteq> nextEncoder s) (waitQueue s) = waitQueue s" by (intro filter_True) metis
qed

text \<open>An encoder is created: it waits, or has been taken out again.\<close>

lemma enc_queue:
  assumes "inv_enc s" "waitQueue s' = waitQueue s @ [nextEncoder s] \<or> waitQueue s' = waitQueue s"
    "nextEncoder s' = nextEncoder s + 1" "encoderOption s' = (encoderOption s)(nextEncoder s := Some opt)"
    "runningQueue s' = runningQueue s" "startedEncoders s' = startedEncoders s" "\<And>e. tot (about e) (ops s') = tot (about e) (ops s)"
  shows "inv_enc s'"
  using assms encD [OF assms(1)] unfolding inv_enc_def by (auto simp: less_Suc_eq)

lemma queue_encoder_option [simp]: "encoderOption (queue_encoder opt i l s) = (encoderOption s)(nextEncoder s := Some (createEncodeOption opt i))"
  "recordedUseLeases (queue_encoder opt i l s) = map_set (nextEncoder s) l (recordedUseLeases s)"
  by (simp_all add: queue_encoder_def Let_def)

lemma about_enc:
  assumes "inv_enc s" "map_of (ops s) n = Some p" "about e p = 1"
  shows "e < nextEncoder s" "e \<notin> set (waitQueue s)"
proof -
  have "tot (about e) (ops s) \<noteq> 0" using at_op_le [of "about e" n "ops s"] assms(2,3) by (simp add: at_op_eq)
  then show "e < nextEncoder s" "e \<notin> set (waitQueue s)" using assms(1) not_less unfolding inv_enc_def by blast+
qed

lemma enc_step: "encode_step s s' \<Longrightarrow> ops_ok s \<Longrightarrow> inv_enc s \<Longrightarrow> inv_enc s'"
proof (induction rule: encode_step.induct)
  case (admit_encoder s n j opt i l outcome now)
  then show ?case
  proof (cases outcome)
    case (NoEncoder err)
    then show ?thesis using admit_encoder by (simp add: admit_encoder_def admit_undo_def inv_enc_def at_op_eq split: option.split)
  next
    case (ListenerThrew err)
    show ?thesis by (rule enc_queue [OF admit_encoder(3), of _ "createEncodeOption opt i"])
      (use ListenerThrew admit_encoder encD [OF admit_encoder(3)] in \<open>simp_all add: admit_encoder_def admit_undo_def Let_def at_op_eq split: option.split\<close>)
  next
    case EncoderReady
    show ?thesis by (rule enc_queue [OF admit_encoder(3), of _ "createEncodeOption opt i"])
      (use EncoderReady admit_encoder encD [OF admit_encoder(3)] in \<open>simp_all add: admit_encoder_def persisted_ends_def Let_def at_op_eq
        requestCheckQueue_tot requestCheckQueue_at split: option.split\<close>)
  qed
next
  case (restore_encoder s n r l rs ready now)
  show ?case
  proof (cases ready)
    case True
    show ?thesis by (rule enc_queue [OF restore_encoder(4), of _ "createEncodeOption (p_option r) (p_id r)"])
      (use True restore_encoder in \<open>simp_all add: restore_encoder_def\<close>)
  qed (use restore_encoder in \<open>simp add: restore_encoder_def inv_enc_def at_op_eq\<close>)
next
  case (cancel_exec s n i rest refused)
  let ?items = "filter (\<lambda>q. getEncodeId s q = Some i) (waitQueue s)"
  have "(\<Sum>x\<leftarrow>xs. about e (ReleaseRecord x (AfterCancel n))) = 0" if "e \<notin> set xs" for e xs
    using that by (induction xs) simp_all
  then show ?case using cancel_exec op_below [OF cancel_exec(2,1)] encD [OF cancel_exec(3)] unfolding inv_enc_def
    by (auto simp: step_defs at_op_eq release_items_ops getEncodeId_def split: option.split)
next
  case (check_exec s n isGranted)
  then show ?case unfolding inv_enc_def by (auto simp: step_defs at_op_eq split: list.split option.split)
next
  case (finished e s base join isError f)
  then show ?case using encD [OF finished(3)] unfolding inv_enc_def by (auto simp: step_defs split: option.split)
next
  case (finalize s n e k isGranted)
  then show ?case unfolding inv_enc_def by (auto simp: step_defs at_op_eq)
next
  case (check_started s n e started)
  then show ?case using about_enc [OF check_started(3,1), of e] unfolding inv_enc_def by (auto simp: step_defs at_op_eq)
next
  case (record_removed s n e k now)
  then show ?case using about_enc [OF record_removed(3,1), of e] unfolding inv_enc_def
    by (auto simp: step_defs at_op_eq requestCheckQueue_tot split: option.split release_for.split)
next
  case (lease_released s n e k now)
  then show ?case using about_enc [OF lease_released(3,1), of e] unfolding inv_enc_def
    by (auto simp: step_defs at_op_eq requestCheckQueue_tot split: release_for.split)
qed (simp_all add: inv_enc_def step_defs at_op_eq persisted_ends_def case_prod_beta admit_def persisted_admission_def requestCheckQueue_tot requestCheckQueue_at request_checks_tot split: split_steps)

subsection \<open>No id is queued twice\<close>

definition queued :: "int \<Rightarrow> encode_manager \<Rightarrow> int" where
  "queued i s = int (count_list (map (getEncodeId s) (runningQueue s @ waitQueue s)) (Some i))"

definition inv_ids :: "encode_manager \<Rightarrow> bool" where
  "inv_ids s \<longleftrightarrow> (\<forall>i. tot (has_id i) (ops s) + queued i s \<le> 1)"

lemma queued_cong:
  "runningQueue s' = runningQueue s \<Longrightarrow> waitQueue s' = waitQueue s \<Longrightarrow>
   (\<And>e. e \<in> set (runningQueue s) \<union> set (waitQueue s) \<Longrightarrow> getEncodeId s' e = getEncodeId s e) \<Longrightarrow> queued i s' = queued i s"
  by (simp add: queued_def cong: map_cong)

lemma queued_alt: "queued i s = int (count_list (map (\<lambda>e. map_option encodeId (encoderOption s e)) (runningQueue s @ waitQueue s)) (Some i))"
proof -
  have "getEncodeId s = (\<lambda>e. map_option encodeId (encoderOption s e))" by (rule ext) (simp add: getEncodeId_def)
  then show ?thesis by (simp add: queued_def)
qed

lemma queued_same: "runningQueue s' = runningQueue s \<Longrightarrow> waitQueue s' = waitQueue s \<Longrightarrow> encoderOption s' = encoderOption s \<Longrightarrow>
    queued i s' = queued i s"
  by (rule queued_cong) (simp_all add: getEncodeId_def)

lemma queued_none: "\<not> hasQueuedEncodeId i s \<Longrightarrow> queued i s = 0"
proof -
  assume "\<not> hasQueuedEncodeId i s"
  then have "Some i \<notin> set (map (getEncodeId s) (runningQueue s @ waitQueue s))"
    by (auto simp: hasQueuedEncodeId_def list_ex_iff)
  then have "count_list (map (getEncodeId s) (runningQueue s @ waitQueue s)) (Some i) = 0" by (rule iffD2 [OF count_list_0_iff])
  then show ?thesis unfolding queued_def by simp
qed

lemma queued_added:
  assumes "inv_enc s" "runningQueue s' = runningQueue s" "waitQueue s' = waitQueue s @ [nextEncoder s]"
    "encoderOption s' = (encoderOption s)(nextEncoder s := Some opt)"
  shows "queued i s' = queued i s + of_bool (encodeId opt = i)"
proof -
  have "getEncodeId s' e = getEncodeId s e" if "e \<in> set (runningQueue s) \<union> set (waitQueue s)" for e
    using that encD [OF assms(1)] by (auto simp: getEncodeId_def assms(4))
  then have "map (getEncodeId s') (runningQueue s @ waitQueue s) = map (getEncodeId s) (runningQueue s @ waitQueue s)" by auto
  moreover have "getEncodeId s' (nextEncoder s) = Some (encodeId opt)" by (simp add: getEncodeId_def assms(4))
  moreover have "runningQueue s' @ waitQueue s' = (runningQueue s @ waitQueue s) @ [nextEncoder s]" by (simp add: assms(2,3))
  ultimately show ?thesis unfolding queued_def map_append [of _ "runningQueue s @ waitQueue s"]
    by (simp only: map_append count_list_append list.map count_list.simps) simp
qed

lemma count_filter_le: "count_list (map f (filter P xs)) y \<le> count_list (map f xs) y"
  by (induction xs) auto

lemma tot_rest_mono:
  assumes "\<And>p. f p \<le> g p"
  shows "tot f m - at_op f n m \<le> tot g m - at_op g n m"
proof (induction m)
  case (Cons x m)
  have "tot f m \<le> tot g m" unfolding tot_def using assms by (intro sum_list_mono)
  moreover have "f (snd x) \<le> g (snd x)" by (rule assms)
  moreover have "tot h (x # m) = h (snd x) + tot h m" "at_op h n (x # m) = (if fst x = n then h (snd x) else at_op h n m)" for h
    by (cases x; simp add: tot_def at_op_def)+
  ultimately show ?case using Cons.IH by simp
qed (simp add: tot_def at_op_def)

definition id_source :: "int \<Rightarrow> op \<Rightarrow> int" where
  "id_source i p = persisting i p + pushed i p + restop p"

lemma has_id_source: "has_id i p \<le> id_source i p"
  by (cases p) (simp_all add: id_source_def)

lemma tot_source: "tot (id_source i) m = tot (persisting i) m + tot (pushed i) m + tot restop m"
  "at_op (id_source i) n m = at_op (persisting i) n m + at_op (pushed i) n m + at_op restop n m"
  by (induction m) (simp_all add: tot_def id_source_def at_op_def split: option.split)

lemma not_pushed_tot: "not_pushed i s \<Longrightarrow> tot (pushed i) (ops s) = 0"
proof -
  have "tot (pushed i) m = 0" if "list_all (\<lambda>(n, p). case p of AdmitEncoder j opt k l \<Rightarrow> j = Some i \<or> k \<noteq> i | _ \<Rightarrow> True) m" for m
    using that by (induction m) (auto simp: tot_def pushed_def split: op.splits option.splits)
  then show "not_pushed i s \<Longrightarrow> tot (pushed i) (ops s) = 0" by (simp add: not_pushed_def)
qed

lemma fresh_tot: "fresh_id i s \<Longrightarrow> tot (has_id i) (ops s) = 0" "fresh_id i s \<Longrightarrow> queued i s = 0"
proof -
  have "tot (has_id i) m = 0" if "list_all (\<lambda>(n, p). op_id p \<noteq> Some i) m" for m
    using that by (induction m) (auto simp: tot_def has_id_def op_id_def split: op.splits)
  then show "fresh_id i s \<Longrightarrow> tot (has_id i) (ops s) = 0" "fresh_id i s \<Longrightarrow> queued i s = 0"
    by (simp_all add: fresh_id_def queued_none)
qed

text \<open>An id that is not in use is nowhere, but for what the operation itself holds.\<close>

lemma unused_id:
  assumes "inv_persist s" "inv_restop s" "not_pushed i s" "\<not> isEncodeIdInUse i s"
  shows "tot (has_id i) (ops s) - at_op (has_id i) n (ops s) \<le> of_bool (restoring s) - at_op restop n (ops s)" "queued i s = 0"
proof -
  have z: "tot (persisting i) (ops s) = 0" "tot (pushed i) (ops s) = 0" "tot restop (ops s) = of_bool (restoring s)"
    using assms not_pushed_tot by (simp_all add: inv_persist_def isEncodeIdInUse_def inv_restop_def)
  have "at_op (persisting i) n (ops s) \<ge> 0" "at_op (pushed i) n (ops s) \<ge> 0"
    by (simp_all add: at_op_def split: option.split)
  then show "tot (has_id i) (ops s) - at_op (has_id i) n (ops s) \<le> of_bool (restoring s) - at_op restop n (ops s)"
    using tot_rest_mono [of "has_id i" "id_source i" "ops s" n, OF has_id_source] unfolding tot_source z by simp
  show "queued i s = 0" using assms(4) by (simp add: queued_none isEncodeIdInUse_def)
qed

lemma ids_queued:
  assumes "inv_ids s" "\<And>i. tot (has_id i) (ops s') + queued i s' \<le> tot (has_id i) (ops s) + queued i s"
  shows "inv_ids s'"
  using assms order_trans unfolding inv_ids_def by blast

lemma at_nonneg: "(\<And>p. 0 \<le> f p) \<Longrightarrow> 0 \<le> at_op f n m"
  by (simp add: at_op_def split: option.split)

lemma has_id_nonneg [simp]: "0 \<le> at_op (has_id i) n m"
  by (simp add: at_nonneg)

text \<open>The loop replaces the operation \<open>n\<close>, so what that held does not count.\<close>

lemma has_id_loop:
  assumes "ops_ok s" "inv_persist s" "inv_restop s" "map_of (ops s) n = Some p" "restop p = 1" "none_pushed rs s"
    "\<And>i. tot (has_id i) (ops s) - at_op (has_id i) n (ops s) + queued i s \<le> 1"
  shows "inv_ids (restore_loop n rs now s)"
proof (rule restore_loop_cases [of n rs now s])
  fix r rs'
  assume l: "restore_loop n rs now s = set_op n (RestoreJudge r rs') s" "\<not> isEncodeIdInUse (p_id r) s" "r \<in> set rs"
  have r: "restoring s" using restop_at [OF assms(1) _ assms(4,5)] assms(3) by (simp add: inv_restop_def)
  have np: "not_pushed (p_id r) s" using assms(6) l(3) by (simp add: none_pushed_def list_all_iff)
  have z: "tot (has_id (p_id r)) (ops s) - at_op (has_id (p_id r)) n (ops s) \<le> 0" "queued (p_id r) s = 0"
    using unused_id(1) [OF assms(2,3) np l(2), of n] unused_id(2) [OF assms(2,3) np l(2)] r assms(4,5) by (simp_all add: at_op_eq)
  have q: "queued i (set_op n (RestoreJudge r rs') s) = queued i s" for i by (rule queued_same) simp_all
  have "tot (has_id i) (ops (set_op n (RestoreJudge r rs') s)) + queued i (set_op n (RestoreJudge r rs') s) \<le> 1" for i
    unfolding q using assms(1) z assms(7) [of i] by (cases "i = p_id r") simp_all
  then show ?thesis unfolding l(1) inv_ids_def by blast
next
  assume l: "restore_loop n rs now s = restoration_ends n (request_checks (checkCount s) now s)"
  have q: "queued i (restore_loop n rs now s) = queued i s" for i by (rule queued_same) simp_all
  have "at_op f n (ops (request_checks (checkCount s) now s)) = at_op f n (ops s)" for f
    using request_checks_at [OF assms(1), of n] assms(4) by (simp add: at_op_def)
  then have "tot (has_id i) (ops (restore_loop n rs now s)) = tot (has_id i) (ops s) - at_op (has_id i) n (ops s)" for i
    unfolding l using assms(1) by (simp add: request_checks_tot)
  then show ?thesis using q assms(7) unfolding inv_ids_def by simp
qed

lemma ids_rest: "inv_ids s \<Longrightarrow> tot (has_id i) (ops s) - at_op (has_id i) n (ops s) + queued i s \<le> 1"
  using has_id_nonneg [of i n "ops s"] unfolding inv_ids_def by (metis add_mono_thms_linordered_semiring(3) diff_left_mono diff_zero order_trans)

lemma ids_admission:
  assumes "ops_ok s" "inv_persist s" "inv_restop s" "inv_ids s" "not_pushed i s" "\<not> restoring s" "n < nextOp s" "at_op restop n (ops s) = 0"
  shows "inv_ids (persisted_admission n i opt s)"
proof (cases "isEncodeIdInUse i s \<or> i \<in> set (listedEncodeIds s)")
  case True
  have "queued k (answer n (Inr i) s) = queued k s" for k by (rule queued_same) simp_all
  moreover have "0 \<le> at_op (has_id k) n (ops s)" for k by (simp add: at_op_def split: option.split)
  ultimately show ?thesis using True assms(1,4) by (intro ids_queued [OF assms(4)]) (simp add: persisted_admission_def)
next
  case False
  let ?s = "persisted_admission n i opt s"
  have q: "queued k ?s = queued k s" for k
    by (rule queued_same) (use False in \<open>simp_all add: persisted_admission_def admit_def\<close>)
  have z: "tot (has_id i) (ops s) - at_op (has_id i) n (ops s) \<le> 0" "queued i s = 0"
    using unused_id(1) [OF assms(2,3,5), of n] unused_id(2) [OF assms(2,3,5)] False assms(6,8) by simp_all
  have t: "tot (has_id k) (ops ?s) \<le> tot (has_id k) (ops s) - at_op (has_id k) n (ops s) + of_bool (k = i)" for k
    using False assms(1) by (simp add: persisted_admission_def admit_def)
  have a: "0 \<le> at_op (has_id k) n (ops s)" "tot (has_id k) (ops s) + queued k s \<le> 1" for k
    using assms(4) unfolding inv_ids_def by (simp_all add: at_op_def split: option.split)
  have "tot (has_id k) (ops ?s) + queued k ?s \<le> 1" for k
  proof (cases "k = i")
    case True
    then show ?thesis using t [of i] z by (simp add: q)
  next
    case False
    then have "tot (has_id k) (ops ?s) \<le> tot (has_id k) (ops s) - at_op (has_id k) n (ops s)" using t [of k] by simp
    then show ?thesis using a [of k] unfolding q by linarith
  qed
  then show ?thesis unfolding inv_ids_def by blast
qed

text \<open>Steps that create no operation with an id and leave the queues alone.\<close>

lemma ids_keep:
  assumes "inv_ids s" "runningQueue s' = runningQueue s" "waitQueue s' = waitQueue s"
    "\<And>e. getEncodeId s' e = getEncodeId s e" "\<And>i. tot (has_id i) (ops s') \<le> tot (has_id i) (ops s)"
  shows "inv_ids s'"
proof -
  have "queued i s' = queued i s" for i by (rule queued_cong) (simp_all add: assms)
  then show ?thesis using assms(5) by (intro ids_queued [OF assms(1)]) simp
qed

lemma ids_queue_encoder:
  assumes "inv_enc s" "inv_ids s" "runningQueue s' = runningQueue s" "waitQueue s' = waitQueue s @ [nextEncoder s]"
    "encoderOption s' = (encoderOption s)(nextEncoder s := Some (createEncodeOption opt i))"
    "\<And>k. tot (has_id k) (ops s') \<le> tot (has_id k) (ops s) - of_bool (k = i)"
  shows "inv_ids s'"
proof -
  have "queued k s' = queued k s + of_bool (k = i)" for k
    using queued_added [OF assms(1,3,4,5)] by (simp add: createEncodeOption_def eq_commute)
  then show ?thesis using assms(6) by (intro ids_queued [OF assms(2)]) (simp add: le_diff_eq)
qed

lemma store_step: "encode_step s s' \<Longrightarrow> hasStore s' = hasStore s"
  by (erule encode_step.cases) (simp_all add: step_defs case_prod_beta admit_def persisted_admission_def persisted_ends_def split: split_steps)

lemma ids_step:
  assumes "encode_step s s'" "ops_ok s" "inv_enc s" "inv_persist s" "inv_restop s" "inv_ids s" "hasStore s"
  shows "inv_ids s'"
  using assms
proof (induction rule: encode_step.induct)
  case (persisted i s opt)
  let ?s = "s\<lparr>nextOp := nextOp s + 1\<rparr>"
  have k: "ops_ok ?s" "inv_persist ?s" "inv_restop ?s" "inv_ids ?s" "not_pushed i ?s"
    using persisted queued_same [of ?s s] by (simp_all add: inv_persist_def inv_restop_def inv_ids_def not_pushed_def)
  show ?case
  proof (cases "restoring s")
    case True
    then show ?thesis using persisted(2) k by (intro ids_keep [OF persisted(6)]) (simp_all add: pushPersisted_def getEncodeId_def Let_def)
  next
    case False
    then show ?thesis using ids_admission [OF k, of "nextOp s" opt] persisted(2)
      by (simp add: pushPersisted_def Let_def)
  qed
next
  case (wait_persisted s n i opt)
  then show ?case using op_below [OF wait_persisted(4,1)] by (intro ids_admission) (simp_all add: at_op_eq)
next
  case (admit_recorded s n opt l recorded)
  show ?case
  proof (cases recorded)
    case (Inl err)
    then show ?thesis using admit_recorded by (intro ids_keep [OF admit_recorded(7)]) (simp_all add: admit_recorded_def getEncodeId_def at_op_eq)
  next
    case (Inr i)
    have f: "tot (has_id i) (ops s) = 0" "queued i s = 0" using fresh_tot [of i s] admit_recorded(2) Inr by simp_all
    have "queued k (set_op n (AdmitEncoder None opt i l) s) = queued k s" for k by (rule queued_same) simp_all
    then show ?thesis using admit_recorded f unfolding inv_ids_def Inr
      by (auto simp: admit_recorded_def at_op_eq)
  qed
next
  case (admit_encoder s n j opt i l outcome now)
  show ?case
  proof (cases outcome)
    case (NoEncoder err)
    then show ?thesis using admit_encoder
      by (intro ids_keep [OF admit_encoder(6)]) (simp_all add: admit_encoder_def admit_undo_def getEncodeId_def at_op_eq split: option.split)
  next
    case (ListenerThrew err)
    let ?s' = "admit_encoder n j opt i l outcome now s"
    have q: "queued k ?s' = queued k s" for k
      using ListenerThrew encD [OF admit_encoder(3)]
      by (intro queued_cong) (auto simp: admit_encoder_def admit_undo_def Let_def getEncodeId_def split: option.split)
    have "tot (has_id k) (ops ?s') \<le> tot (has_id k) (ops s)" for k
      using ListenerThrew admit_encoder by (simp add: admit_encoder_def admit_undo_def Let_def at_op_eq split: option.split)
    then show ?thesis using q by (intro ids_queued [OF admit_encoder(6)]) simp
  next
    case EncoderReady
    show ?thesis
      by (rule ids_queue_encoder [OF admit_encoder(3,6), of _ opt i])
        (use EncoderReady admit_encoder in \<open>simp_all add: admit_encoder_def persisted_ends_def Let_def at_op_eq
          requestCheckQueue_tot requestCheckQueue_at split: option.split\<close>)
  qed
next
  case (restore_listed s n listing now)
  have l: "inv_ids (restore_loop n rs now (s\<lparr>listedEncodeIds := is\<rparr>))" if "none_pushed rs s" for rs "is"
  proof (rule has_id_loop [of _ _ RestoreList])
    have "queued i (s\<lparr>listedEncodeIds := is\<rparr>) = queued i s" for i by (rule queued_same) simp_all
    then have "inv_ids (s\<lparr>listedEncodeIds := is\<rparr>)" using restore_listed by (simp add: inv_ids_def)
    then show "tot (has_id i) (ops (s\<lparr>listedEncodeIds := is\<rparr>)) - at_op (has_id i) n (ops (s\<lparr>listedEncodeIds := is\<rparr>)) +
      queued i (s\<lparr>listedEncodeIds := is\<rparr>) \<le> 1" for i by (rule ids_rest)
  qed (use restore_listed that in \<open>simp_all add: inv_persist_def inv_restop_def none_pushed_def not_pushed_def\<close>)
  have e: "inv_ids (restoration_ends n (s\<lparr>restoreRetryTimer := b\<rparr>))" "inv_ids (restoration_ends n s)" for b
    using restore_listed by (intro ids_keep [OF restore_listed(7)]; simp add: getEncodeId_def)+
  show ?case using restore_listed(2) l e by (cases listing) (simp_all add: restore_listed_def)
next
  case (restore_judged s n r rs dependencies now)
  have l: "inv_ids (restore_loop n rs now (snd (judgeRestorableRecord a b c d r s)))" for a b c d
  proof (rule has_id_loop [of _ _ "RestoreJudge r rs"])
    let ?t = "snd (judgeRestorableRecord a b c d r s)"
    have "inv_ids ?t" by (rule ids_keep [OF restore_judged(7)]) (simp_all add: getEncodeId_def)
    then show "tot (has_id i) (ops ?t) - at_op (has_id i) n (ops ?t) + queued i ?t \<le> 1" for i by (rule ids_rest)
  qed (use restore_judged in \<open>simp_all add: inv_persist_def inv_restop_def none_pushed_def not_pushed_def\<close>)
  have e: "inv_ids (set_op n (RestoreAcquire r rs) s')" if "ops s' = ops s" "runningQueue s' = runningQueue s" "waitQueue s' = waitQueue s"
    "encoderOption s' = encoderOption s" for s'
    using restore_judged that by (intro ids_keep [OF restore_judged(7)]) (simp_all add: getEncodeId_def at_op_eq)
  show ?case using l e by (cases dependencies) (simp_all add: restore_judged_def case_prod_beta Let_def)
next
  case (restore_acquired s n r rs acquired)
  then show ?case
    by (intro ids_keep [OF restore_acquired(6)]) (simp_all add: restore_acquired_def new_lease_def getEncodeId_def at_op_eq Let_def)
next
  case (restore_dropped s n rs now)
  then show ?case by (intro has_id_loop [OF _ _ _ restore_dropped(1)] ids_rest) simp_all
next
  case (restore_released s n rs now)
  then show ?case by (intro has_id_loop [OF _ _ _ restore_released(1)] ids_rest) simp_all
next
  case (restore_encoder s n r l rs ready now)
  show ?case
  proof (cases ready)
    case True
    let ?s = "(queue_encoder (p_option r) (p_id r) l s)\<lparr>restored := restored s + 1\<rparr>"
    have q: "queued i ?s = queued i s + of_bool (p_id r = i)" for i
      using queued_added [OF restore_encoder(4), of ?s "createEncodeOption (p_option r) (p_id r)"] by (simp add: createEncodeOption_def)
    have "inv_ids (restore_loop n rs now ?s)"
    proof (rule has_id_loop [of _ _ "RestoreEncoder r l rs"])
      show "tot (has_id i) (ops ?s) - at_op (has_id i) n (ops ?s) + queued i ?s \<le> 1" for i
        using restore_encoder(1,7) unfolding q by (simp add: at_op_eq inv_ids_def)
    qed (use restore_encoder in \<open>simp_all add: inv_persist_def inv_restop_def none_pushed_def not_pushed_def\<close>)
    then show ?thesis using True by (simp add: restore_encoder_def)
  qed (use restore_encoder in \<open>intro ids_keep [OF restore_encoder(7)]; simp add: restore_encoder_def getEncodeId_def at_op_eq\<close>)
next
  case (check_exec s n isGranted)
  have "queued i (check_exec n isGranted s) \<le> queued i s" for i
    by (cases "waitQueue s") (simp_all add: check_exec_def queued_alt getEncodeId_def Let_def split: option.split)
  moreover have "tot (has_id i) (ops (check_exec n isGranted s)) = tot (has_id i) (ops s)" for i
    using check_exec by (simp add: check_exec_def at_op_eq Let_def split: list.split option.split)
  ultimately show ?case by (intro ids_queued [OF check_exec(6)]) simp
next
  case (finalize s n e k isGranted)
  have "queued i (finalize n e k isGranted s) \<le> queued i s" for i
    by (simp add: finalize_def queued_alt getEncodeId_def Let_def count_filter_le)
  moreover have "tot (has_id i) (ops (finalize n e k isGranted s)) = tot (has_id i) (ops s)" for i
    using finalize by (simp add: finalize_def at_op_eq Let_def)
  ultimately show ?case by (intro ids_queued [OF finalize(6)]) simp
next
  case (cancel_exec s n i rest refused)
  have "queued k (cancel_exec n i rest refused s) \<le> queued k s" for k
    by (simp add: cancel_exec_def queued_alt getEncodeId_def Let_def count_filter_le split: option.split)
  moreover have "tot (has_id k) (ops (cancel_exec n i rest refused s)) = tot (has_id k) (ops s)" for k
    using cancel_exec op_below [OF cancel_exec(2,1)] by (simp add: cancel_exec_def at_op_eq Let_def release_items_ops split: option.split)
  ultimately show ?case by (intro ids_queued [OF cancel_exec(6)]) simp
next
  case (finished e s base join isError f)
  have "getEncodeId (onFinish base join e isError f s) x = getEncodeId s x" for x
    by (auto simp: step_defs getEncodeId_def split: option.split)
  moreover have "tot (has_id i) (ops (onFinish base join e isError f s)) = tot (has_id i) (ops s)" for i
    using finished(2) by (simp add: step_defs split: option.split)
  ultimately show ?case by (intro ids_keep [OF finished(6)]) (simp_all add: step_defs split: option.split)
qed (rule ids_keep, assumption, (simp_all add: step_defs at_op_eq getEncodeId_def persisted_ends_def case_prod_beta admit_def persisted_admission_def requestCheckQueue_tot requestCheckQueue_at request_checks_tot split: split_steps)[4])+

subsection \<open>The queue does not come to a stop\<close>

text \<open>Requests to look at the queue that wait for the lock, and releases that end with one.\<close>

definition will :: "op \<Rightarrow> int" where
  "will p = (case p of
     CheckExec \<Rightarrow> 1
   | ReleaseRecord e k \<Rightarrow> of_bool (k = AfterStart)
   | ReleaseLease e k \<Rightarrow> of_bool (k = AfterStart)
   | _ \<Rightarrow> 0)"

lemma will_op [simp]:
  "will (WaitPush opt) = 0" "will (WaitPersisted i opt) = 0" "will (WaitCancel i rest) = 0" "will (WaitCancelRecorded i) = 0"
  "will (AdmitExec j opt) = 0" "will (AdmitAcquire j opt) = 0" "will (AdmitRecord opt l) = 0" "will (AdmitEncoder j opt i l) = 0"
  "will (AdmitRemove err l) = 0" "will (AdmitRelease j err) = 0" "will (PersistedRemove i) = 0" "will CheckExec = 1"
  "will (CheckStart e) = 0" "will (FinalExec e k) = 0" "will (Settling e) = 0"
  "will (ReleaseRecord e k) = of_bool (k = AfterStart)" "will (ReleaseLease e k) = of_bool (k = AfterStart)"
  "will (CancelExec i rest) = 0" "will (CancelRunning rest) = 0" "will (CancelReleasing m rest) = 0" "will RestoreList = 0"
  "will (RestoreJudge r rs) = 0" "will (RestoreAcquire r rs) = 0" "will (RestoreDrop rs) = 0" "will (RestoreEncoder r l rs) = 0"
  "will (RestoreRelease rs) = 0"
  by (simp_all add: will_def)

lemma will_plain [simp]: "plain (will)" "0 \<le> will p"
  by (simp_all add: plain_def will_def split: op.split)

lemma weight_will [simp]: "rejected_weight will j = 0"
  by (simp add: rejected_weight_def split: option.split)

text \<open>What is missing when \<open>k\<close> more requests are made.\<close>

definition enough :: "nat \<Rightarrow> encode_manager \<Rightarrow> bool" where
  "enough k s \<longleftrightarrow> (suspendResumeTimer s = None \<longrightarrow>
     int (checkCount s) \<le> tot will (ops s) + int (ticks s) + int (lost_checks s) + int k)"

definition inv_checks :: "encode_manager \<Rightarrow> bool" where
  "inv_checks s \<longleftrightarrow> (tot looping (ops s) = 0 \<longrightarrow> enough 0 s)"

lemma checkCount_frame: "concurrentEncodeNum s' = concurrentEncodeNum s \<Longrightarrow> runningQueue s' = runningQueue s \<Longrightarrow>
    waitQueue s' = waitQueue s \<Longrightarrow> checkCount s' = checkCount s"
  by (simp add: checkCount_def)

lemma request_enough: "ops_ok s \<Longrightarrow> enough (Suc k) s \<Longrightarrow> enough k (requestCheckQueue now s)"
proof (rule requestCheckQueue_cases [of now s])
  assume a: "ops_ok s" "enough (Suc k) s" "requestCheckQueue now s = new_op CheckExec s"
  then show ?thesis using checkCount_frame [of "new_op CheckExec s" s] by (auto simp: enough_def)
next
  assume "waitQueue s = [] \<or> suspendResumeTimer s \<noteq> None" "requestCheckQueue now s = s"
  moreover have "0 \<le> tot will (ops s)" by (rule tot_nonneg) simp
  ultimately show ?thesis by (auto simp: enough_def checkCount_def)
qed (simp add: enough_def)

lemma requests_enough: "ops_ok s \<Longrightarrow> enough (k + m) s \<Longrightarrow> enough k (request_checks m now s)"
  by (induction m arbitrary: s) (simp_all add: request_enough)

lemma all_enough: "enough (checkCount s) s"
  using tot_nonneg [of will "ops s"] by (simp add: enough_def)

definition covered :: "encode_manager \<Rightarrow> int" where
  "covered s = tot will (ops s) + int (ticks s) + int (lost_checks s) - int (checkCount s)"

lemma enough_covered: "enough k s \<longleftrightarrow> (suspendResumeTimer s = None \<longrightarrow> 0 \<le> covered s + int k)"
  by (auto simp: enough_def covered_def)

lemma checks_keep:
  assumes "inv_checks s" "tot looping (ops s') = tot looping (ops s)" "suspendResumeTimer s' = suspendResumeTimer s" "covered s \<le> covered s'"
  shows "inv_checks s'"
  using assms order_trans unfolding inv_checks_def enough_covered by auto

lemma looping_checks:
  assumes "map_of (ops s) n = Some p" "looping p = 1"
  shows "inv_checks s"
  using at_op_le [of looping n "ops s"] assms by (simp add: inv_checks_def at_op_eq)

lemma loop_checks:
  assumes "ops_ok s" "map_of (ops s) n = Some p" "will p = 0"
  shows "inv_checks (restore_loop n rs now s)"
proof (rule restore_loop_cases [of n rs now s])
  fix r rs'
  assume "restore_loop n rs now s = set_op n (RestoreJudge r rs') s"
  then show ?thesis by (intro looping_checks [of _ n "RestoreJudge r rs'"]) simp_all
next
  let ?s = "request_checks (checkCount s) now s"
  assume l: "restore_loop n rs now s = restoration_ends n ?s"
  have e: "enough 0 ?s" using requests_enough [of s 0 "checkCount s" now] all_enough [of s] assms(1) by simp
  have "at_op will n (ops ?s) = 0" using request_checks_at [OF assms(1), of n] assms(2,3) by (simp add: at_op_def)
  then have "covered (restoration_ends n ?s) = covered ?s" "suspendResumeTimer (restoration_ends n ?s) = suspendResumeTimer ?s"
    using assms(1) by (simp_all add: covered_def checkCount_def)
  then show ?thesis using e unfolding l inv_checks_def enough_covered by simp
qed

lemma filter_once:
  assumes "inv_enc s" "inv_ids s"
  shows "length (runningQueue s) \<le> Suc (length (filter (\<lambda>q. getEncodeId s q \<noteq> getEncodeId s e) (runningQueue s)))"
proof -
  let ?P = "\<lambda>q. getEncodeId s q = getEncodeId s e"
  have "length (filter ?P (runningQueue s)) \<le> 1"
  proof (cases "getEncodeId s e")
    case None
    then have "filter ?P (runningQueue s) = []" using assms(1) by (auto simp: filter_empty_conv getEncodeId_def inv_enc_def)
    then show ?thesis by simp
  next
    case (Some i)
    have "length (filter ?P xs) = count_list (map (getEncodeId s) xs) (Some i)" for xs
      by (induction xs) (auto simp: Some)
    moreover have "queued i s \<le> 1"
      using assms(2) tot_nonneg [of "has_id i" "ops s"] unfolding inv_ids_def by (smt (verit) has_id_plain(2))
    ultimately show ?thesis by (simp add: queued_def)
  qed
  then show ?thesis using sum_length_filter_compl [of ?P "runningQueue s"] by simp
qed

lemma item_ticks: "ticks s \<le> ticks (item_released parent s)"
  by (simp add: item_released_def split: option.split op.split)

lemma done_checks:
  assumes "ops_ok s" "inv_checks s" "map_of (ops s) n = Some p" "will p = of_bool (k = AfterStart)" "looping p = 0"
  shows "inv_checks (release_done n k now s)"
proof (cases "k = AfterStart")
  case True
  have "enough 0 (requestCheckQueue now (end_op n s))" if "tot looping (ops s) = 0"
  proof (rule request_enough)
    show "enough (Suc 0) (end_op n s)" using assms that True unfolding inv_checks_def enough_covered
      by (auto simp: covered_def checkCount_def at_op_eq)
  qed (use assms(1) in simp)
  then show ?thesis using True assms by (simp add: release_done_def inv_checks_def requestCheckQueue_tot at_op_eq)
next
  case False
  have e: "inv_checks (end_op n s)"
    using False assms by (intro checks_keep [OF assms(2)]) (simp_all add: at_op_eq covered_def checkCount_def)
  have "inv_checks (item_released parent (end_op n s))" for parent
    using item_ticks [of "end_op n s" parent] assms(1) by (intro checks_keep [OF e]) (simp_all add: covered_def checkCount_def)
  then show ?thesis using e False by (cases k) (simp_all add: release_done_def)
qed

lemma checks_step:
  assumes "encode_step s s'" "ops_ok s" "inv_enc s" "inv_ids s" "inv_checks s"
  shows "inv_checks s'"
  using assms
proof (induction rule: encode_step.induct)
  case (admit_encoder s n j opt i l outcome now)
  show ?case
  proof (cases outcome)
    case EncoderReady
    let ?s1 = "emit_event (AddEncode i) (queue_encoder opt i l s)"
    let ?s2 = "unlock n (?s1\<lparr>admissionReservations := admissionReservations ?s1 - 1\<rparr>)"
    have ok: "ops_ok ?s2" using admit_encoder(2) by simp
    have q: "enough 0 (requestCheckQueue now ?s2)" if "tot looping (ops s) = 0"
    proof (rule request_enough [OF ok])
      show "enough (Suc 0) ?s2" using admit_encoder(5) that unfolding inv_checks_def enough_covered
        by (auto simp: covered_def checkCount_def)
    qed
    let ?t = "admit_encoder n j opt i l outcome now s"
    have "at_op will n (ops (requestCheckQueue now ?s2)) = 0" "tot looping (ops (requestCheckQueue now ?s2)) = tot looping (ops s)"
      using requestCheckQueue_at [OF ok, of n now] admit_encoder(1) requestCheckQueue_tot [OF ok, of looping now] by (simp_all add: at_op_def)
    moreover from this(1) have "covered ?t = covered (requestCheckQueue now ?s2)" "suspendResumeTimer ?t = suspendResumeTimer (requestCheckQueue now ?s2)"
      using ok EncoderReady by (simp_all add: admit_encoder_def persisted_ends_def Let_def covered_def checkCount_def split: option.split)
    moreover have "tot looping (ops ?t) = tot looping (ops (requestCheckQueue now ?s2))"
      using ok EncoderReady requestCheckQueue_at [OF ok, of n now] admit_encoder(1)
      by (simp add: admit_encoder_def persisted_ends_def Let_def at_op_def split: option.split)
    ultimately show ?thesis using q unfolding inv_checks_def enough_covered by simp
  next
    case (ListenerThrew err)
    then show ?thesis using admit_encoder encD [OF admit_encoder(3)]
      by (intro checks_keep [OF admit_encoder(5)])
        (simp_all add: admit_encoder_def admit_undo_def Let_def at_op_eq covered_def checkCount_def split: option.split)
  next
    case (NoEncoder err)
    then show ?thesis using admit_encoder
      by (intro checks_keep [OF admit_encoder(5)]) (simp_all add: admit_encoder_def admit_undo_def at_op_eq covered_def checkCount_def split: option.split)
  qed
next
  case (suspend_timer s d now)
  let ?s = "s\<lparr>suspendResumeTimer := None\<rparr>"
  have "enough 0 (request_checks (checkCount ?s) now ?s)"
    using requests_enough [of ?s 0 "checkCount ?s" now] all_enough [of ?s] suspend_timer(2) by simp
  then show ?case by (simp add: suspend_timer_fires_def inv_checks_def Let_def)
next
  case (next_tick s now)
  let ?s = "s\<lparr>ticks := ticks s - 1\<rparr>"
  have "enough 0 (requestCheckQueue now ?s)" if "tot looping (ops s) = 0"
  proof (rule request_enough)
    show "enough (Suc 0) ?s" using next_tick(1,5) that unfolding inv_checks_def enough_covered by (auto simp: covered_def checkCount_def)
  qed (use next_tick in simp)
  then show ?case using next_tick(2) by (simp add: tick_def inv_checks_def requestCheckQueue_tot)
next
  case (restore_listed s n listing now)
  have l: "inv_checks (restore_loop n rs now (s\<lparr>listedEncodeIds := is\<rparr>))" for rs "is"
    by (rule loop_checks [of _ _ RestoreList]) (use restore_listed in simp_all)
  have e: "inv_checks (restoration_ends n (s\<lparr>restoreRetryTimer := b\<rparr>))" "inv_checks (restoration_ends n s)" for b
    using restore_listed by (intro checks_keep [OF restore_listed(6)]; simp add: at_op_eq covered_def checkCount_def)+
  show ?case using l e by (cases listing) (simp_all add: restore_listed_def)
next
  case (restore_judged s n r rs dependencies now)
  have l: "inv_checks (restore_loop n rs now (snd (judgeRestorableRecord a b c d r s)))" for a b c d
    by (rule loop_checks [of _ _ "RestoreJudge r rs"]) (use restore_judged in simp_all)
  have e: "inv_checks (set_op n (RestoreAcquire r rs) s')" for s'
    by (rule looping_checks [of _ n "RestoreAcquire r rs"]) simp_all
  show ?case using l e by (cases dependencies) (simp_all add: restore_judged_def case_prod_beta Let_def)
next
  case (restore_acquired s n r rs acquired)
  show ?case by (rule looping_checks [of _ n "if acquired then RestoreEncoder r (length (leases s)) rs else RestoreDrop rs"])
    (simp_all add: restore_acquired_def new_lease_def Let_def)
next
  case (restore_dropped s n rs now)
  then show ?case by (intro loop_checks [OF _ restore_dropped(1)]) simp_all
next
  case (restore_released s n rs now)
  then show ?case by (intro loop_checks [OF _ restore_released(1)]) simp_all
next
  case (restore_encoder s n r l rs ready now)
  have "inv_checks (restore_loop n rs now ((queue_encoder (p_option r) (p_id r) l s)\<lparr>restored := restored s + 1\<rparr>))"
    by (rule loop_checks [of _ _ "RestoreEncoder r l rs"]) (use restore_encoder in simp_all)
  moreover have "inv_checks (set_op n (RestoreRelease rs) (releaseRecordedUse l s))"
    by (rule looping_checks [of _ n "RestoreRelease rs"]) simp_all
  ultimately show ?case by (simp add: restore_encoder_def)
next
  case (check_exec s n isGranted)
  show ?case
  proof (cases "isGranted \<and> (concurrentEncodeNum s \<le> int (length (runningQueue s)) \<or> waitQueue s = [])")
    case True
    then have "check_exec n isGranted s = end_op n (unlock n (granted n s))" by (simp add: check_exec_def Let_def)
    moreover have "checkCount s = 0" using True by (auto simp: checkCount_def)
    moreover have "0 \<le> tot will (ops s) - at_op will n (ops s)" using at_op_le [of will n "ops s"] by simp
    ultimately show ?thesis using check_exec(2) unfolding inv_checks_def enough_covered by (simp add: covered_def checkCount_def)
  next
    case False
    note waiting = False
    show ?thesis
    proof (cases isGranted)
      case False
      then show ?thesis using check_exec by (intro checks_keep [OF check_exec(5)]) (simp_all add: check_exec_def at_op_eq covered_def checkCount_def)
    next
      case True
      then obtain e es where w: "waitQueue s = e # es" "int (length (runningQueue s)) < concurrentEncodeNum s" using waiting by (cases "waitQueue s") auto
      obtain opt where "encoderOption s e = Some opt" using check_exec(3) w(1) unfolding inv_enc_def by auto
      then show ?thesis using w True check_exec
        by (intro checks_keep [OF check_exec(5)]) (simp_all add: check_exec_def Let_def at_op_eq covered_def checkCount_def min_def)
    qed
  qed
next
  case (finalize s n e k isGranted)
  let ?s' = "finalize n e k isGranted s"
  have "int (checkCount ?s') \<le> int (checkCount s) + of_bool isGranted"
    using filter_once [OF finalize(3,4), of e] by (auto simp: finalize_def Let_def checkCount_def getEncodeId_def)
  moreover have "tot will (ops ?s') + int (ticks ?s') \<ge> tot will (ops s) + int (ticks s) + of_bool isGranted" "lost_checks ?s' = lost_checks s"
    using finalize(1,2) by (simp_all add: finalize_def Let_def at_op_eq)
  ultimately have "covered s \<le> covered ?s'" unfolding covered_def by simp
  then show ?case using finalize by (intro checks_keep [OF finalize(5)]) (simp_all add: finalize_def Let_def at_op_eq)
next
  case (cancel_exec s n i rest refused)
  let ?s' = "cancel_exec n i rest refused s"
  note defs = cancel_exec_def Let_def at_op_eq release_items_ops
  have "min a (int (length (filter P xs))) \<le> int (length xs)" for a P and xs :: "nat list"
    using length_filter_le [of P xs] by (simp add: min.coboundedI2)
  then have "checkCount ?s' \<le> checkCount s"
    by (auto simp: cancel_exec_def Let_def checkCount_def getEncodeId_def intro!: nat_mono split: option.split)
  moreover have "tot will (ops ?s') = tot will (ops s)" "ticks s \<le> ticks ?s'" "lost_checks ?s' = lost_checks s"
    using cancel_exec(1,2) op_below [OF cancel_exec(2,1)] by (simp_all add: defs split: option.split)
  ultimately have "covered s \<le> covered ?s'" unfolding covered_def by simp
  then show ?case using cancel_exec op_below [OF cancel_exec(2,1)]
    by (intro checks_keep [OF cancel_exec(5)]) (simp_all add: defs split: option.split)
next
  case (record_removed s n e k now)
  show ?case
  proof (cases "map_of (recordedUseLeases s) e")
    case None
    then show ?thesis using done_checks [OF record_removed(2,5,1)] by (simp add: record_removed_def)
  next
    case (Some l)
    then show ?thesis using record_removed
      by (intro checks_keep [OF record_removed(5)]) (simp_all add: record_removed_def at_op_eq covered_def checkCount_def)
  qed
next
  case (lease_released s n e k now)
  then show ?case using done_checks [OF lease_released(2,5,1)] by simp
qed (rule checks_keep, assumption, (simp_all add: step_defs at_op_eq covered_def checkCount_def persisted_ends_def case_prod_beta admit_def persisted_admission_def split: split_steps)[3])+

subsection \<open>Leases\<close>

text \<open>Operations that hold a lease which no encoder has taken over.\<close>

definition owns :: "nat \<Rightarrow> op \<Rightarrow> int" where
  "owns l0 p = (case p of
     AdmitRecord opt l \<Rightarrow> of_bool (l = l0)
   | AdmitEncoder j opt i l \<Rightarrow> of_bool (l = l0)
   | AdmitRemove err l \<Rightarrow> of_bool (l = l0)
   | RestoreEncoder r l rs \<Rightarrow> of_bool (l = l0)
   | _ \<Rightarrow> 0)"

lemma owns_op [simp]:
  "owns l0 (WaitPush opt) = 0" "owns l0 (WaitPersisted i opt) = 0" "owns l0 (WaitCancel i rest) = 0"
  "owns l0 (WaitCancelRecorded i) = 0" "owns l0 (AdmitExec j opt) = 0" "owns l0 (AdmitAcquire j opt) = 0"
  "owns l0 (AdmitRecord opt l) = of_bool (l = l0)" "owns l0 (AdmitEncoder j opt i l) = of_bool (l = l0)"
  "owns l0 (AdmitRemove err l) = of_bool (l = l0)" "owns l0 (AdmitRelease j err) = 0" "owns l0 (PersistedRemove i) = 0"
  "owns l0 CheckExec = 0" "owns l0 (CheckStart e) = 0" "owns l0 (FinalExec e k) = 0" "owns l0 (Settling e) = 0"
  "owns l0 (ReleaseRecord e k) = 0" "owns l0 (ReleaseLease e k) = 0" "owns l0 (CancelExec i rest) = 0"
  "owns l0 (CancelRunning rest) = 0" "owns l0 (CancelReleasing m rest) = 0" "owns l0 RestoreList = 0"
  "owns l0 (RestoreJudge r rs) = 0" "owns l0 (RestoreAcquire r rs) = 0" "owns l0 (RestoreDrop rs) = 0"
  "owns l0 (RestoreEncoder r l rs) = of_bool (l = l0)" "owns l0 (RestoreRelease rs) = 0"
  by (simp_all add: owns_def)

lemma owns_plain [simp]: "plain (owns l0)" "0 \<le> owns l0 p"
  by (simp_all add: plain_def owns_def split: op.split)

text \<open>Those of them whose lease an encoder may still take over.\<close>

definition takes :: "nat \<Rightarrow> op \<Rightarrow> int" where
  "takes l0 p = (case p of
     AdmitRecord opt l \<Rightarrow> of_bool (l = l0)
   | AdmitEncoder j opt i l \<Rightarrow> of_bool (l = l0)
   | RestoreEncoder r l rs \<Rightarrow> of_bool (l = l0)
   | _ \<Rightarrow> 0)"

lemma takes_op [simp]:
  "takes l0 (WaitPush opt) = 0" "takes l0 (WaitPersisted i opt) = 0" "takes l0 (WaitCancel i rest) = 0"
  "takes l0 (WaitCancelRecorded i) = 0" "takes l0 (AdmitExec j opt) = 0" "takes l0 (AdmitAcquire j opt) = 0"
  "takes l0 (AdmitRecord opt l) = of_bool (l = l0)" "takes l0 (AdmitEncoder j opt i l) = of_bool (l = l0)"
  "takes l0 (AdmitRemove err l) = 0" "takes l0 (AdmitRelease j err) = 0" "takes l0 (PersistedRemove i) = 0"
  "takes l0 CheckExec = 0" "takes l0 (CheckStart e) = 0" "takes l0 (FinalExec e k) = 0" "takes l0 (Settling e) = 0"
  "takes l0 (ReleaseRecord e k) = 0" "takes l0 (ReleaseLease e k) = 0" "takes l0 (CancelExec i rest) = 0"
  "takes l0 (CancelRunning rest) = 0" "takes l0 (CancelReleasing m rest) = 0" "takes l0 RestoreList = 0"
  "takes l0 (RestoreJudge r rs) = 0" "takes l0 (RestoreAcquire r rs) = 0" "takes l0 (RestoreDrop rs) = 0"
  "takes l0 (RestoreEncoder r l rs) = of_bool (l = l0)" "takes l0 (RestoreRelease rs) = 0"
  by (simp_all add: takes_def)

lemma takes_plain [simp]: "plain (takes l0)" "0 \<le> takes l0 p"
  by (simp_all add: plain_def takes_def split: op.split)

lemma weight_owns [simp]: "rejected_weight (owns l) j = 0" "rejected_weight (takes l) j = 0"
  by (simp_all add: rejected_weight_def split: option.split)

text \<open>An encoder whose lease is in use: it waits, or it has been started and has not reported its end, or its end is
  being handled.\<close>

definition in_use :: "encode_manager \<Rightarrow> nat \<Rightarrow> nat \<Rightarrow> bool" where
  "in_use s l e \<longleftrightarrow> e \<in> set (waitQueue s) \<or> e \<in> set (startedEncoders s) \<and> \<not> terminalPromise (leases s ! l) \<or> 0 < tot (ending e) (ops s)"

definition lease_refs :: "encode_manager \<Rightarrow> bool" where
  "lease_refs s \<longleftrightarrow> (\<forall>e l. map_of (recordedUseLeases s) e = Some l \<longrightarrow> l < length (leases s) \<and> e < nextEncoder s \<and>
       (terminalPromise (leases s ! l) \<longrightarrow> e \<in> set (startedEncoders s)) \<and>
       (0 < tot (owns l) (ops s) \<longrightarrow> e \<notin> set (waitQueue s) \<and> e \<notin> set (startedEncoders s) \<and> tot (about e) (ops s) = 0) \<and>
       tot (takes l) (ops s) = 0 \<and>
       (\<forall>x. map_of (recordedUseLeases s) x = Some l \<longrightarrow> x = e))"

definition lease_log :: "encode_manager \<Rightarrow> bool" where
  "lease_log s \<longleftrightarrow> distinct (released_leases s) \<and>
     (\<forall>l \<in> set (released_leases s). l < length (leases s) \<and> releasePromise (leases s ! l)) \<and>
     (\<forall>l < length (leases s). releasePromise (leases s ! l) \<longrightarrow> l \<in> set (released_leases s)) \<and>
     (\<forall>l. tot (owns l) (ops s) \<le> 1 \<and> (0 < tot (owns l) (ops s) \<longrightarrow> l < length (leases s) \<and> l \<notin> set (released_leases s) \<and> \<not> terminalPromise (leases s ! l)))"

definition lease_live :: "encode_manager \<Rightarrow> bool" where
  "lease_live s \<longleftrightarrow>
     (\<forall>e \<in> set (waitQueue s). \<exists>l. map_of (recordedUseLeases s) e = Some l \<and> l \<notin> set (released_leases s)) \<and>
     (\<forall>l < length (leases s). l \<notin> set (released_leases s) \<longrightarrow>
        0 < tot (owns l) (ops s) \<or> (\<exists>e. map_of (recordedUseLeases s) e = Some l \<and> in_use s l e))"

definition inv_lease :: "encode_manager \<Rightarrow> bool" where
  "inv_lease s \<longleftrightarrow> lease_refs s \<and> lease_log s \<and> lease_live s"

lemma lease_keep:
  assumes "inv_lease s" "leases s' = leases s" "recordedUseLeases s' = recordedUseLeases s" "released_leases s' = released_leases s"
    "waitQueue s' = waitQueue s" "startedEncoders s' = startedEncoders s" "nextEncoder s' = nextEncoder s"
    "\<And>l. tot (owns l) (ops s') = tot (owns l) (ops s)" "\<And>e. tot (about e) (ops s') \<le> tot (about e) (ops s)"
    "\<And>e. map_of (recordedUseLeases s) e \<noteq> None \<Longrightarrow> tot (ending e) (ops s) \<le> tot (ending e) (ops s')" "\<And>l. tot (takes l) (ops s') \<le> tot (takes l) (ops s)"
  shows "inv_lease s'"
proof -
  have "tot (takes l) (ops s') = 0" if "tot (takes l) (ops s) = 0" for l
    using assms(11) [of l] that tot_nonneg [of "takes l" "ops s'"] by simp
  moreover have "tot (about e) (ops s') = 0" if "tot (about e) (ops s) = 0" for e
    using assms(9) [of e] that tot_nonneg [of "about e" "ops s'"] by simp
  ultimately have "lease_refs s'" using assms unfolding inv_lease_def lease_refs_def by auto
  moreover have "lease_log s'" using assms(1) unfolding inv_lease_def lease_log_def assms(2-8) by blast
  moreover have "in_use s' l e" if "in_use s l e" "map_of (recordedUseLeases s) e = Some l" for l e
    using that assms(2,5,6) less_le_trans [OF _ assms(10) [of e]] unfolding in_use_def by auto
  then have "lease_live s'" using assms(1) unfolding inv_lease_def lease_live_def assms(2-8) by blast
  ultimately show ?thesis by (simp add: inv_lease_def)
qed

lemma owns_log:
  assumes "lease_log s"
  shows "tot (owns l) (ops s) \<le> 1" "0 < tot (owns l) (ops s) \<Longrightarrow> l < length (leases s) \<and> l \<notin> set (released_leases s) \<and> \<not> terminalPromise (leases s ! l)"
  using assms unfolding lease_log_def by blast+

lemma release_effect:
  assumes "lease_log s" "l < length (leases s)"
  shows "set (released_leases (releaseRecordedUse l s)) = insert l (set (released_leases s))" "distinct (released_leases (releaseRecordedUse l s))"
    "length (leases (releaseRecordedUse l s)) = length (leases s)"
    "terminalPromise (leases (releaseRecordedUse l s) ! k) = terminalPromise (leases s ! k)"
    "releasePromise (leases (releaseRecordedUse l s) ! k) = (releasePromise (leases s ! k) \<or> k = l)"
proof -
  have "l \<in> set (released_leases s) \<longleftrightarrow> releasePromise (leases s ! l)" "distinct (released_leases s)"
    using assms unfolding lease_log_def by blast+
  then show "set (released_leases (releaseRecordedUse l s)) = insert l (set (released_leases s))" "distinct (released_leases (releaseRecordedUse l s))"
    "length (leases (releaseRecordedUse l s)) = length (leases s)"
    "terminalPromise (leases (releaseRecordedUse l s) ! k) = terminalPromise (leases s ! k)"
    "releasePromise (leases (releaseRecordedUse l s) ! k) = (releasePromise (leases s ! k) \<or> k = l)"
    using assms(2) by (auto simp: releaseRecordedUse_def nth_list_update)
qed

text \<open>A lease is released that no waiting encoder has and no operation holds afterwards.\<close>

lemma lease_release:
  assumes "inv_lease s" "l < length (leases s)" "leases s' = leases (releaseRecordedUse l s)"
    "released_leases s' = released_leases (releaseRecordedUse l s)" "recordedUseLeases s' = recordedUseLeases s"
    "waitQueue s' = waitQueue s" "startedEncoders s' = startedEncoders s" "nextEncoder s' = nextEncoder s"
    "\<And>k. tot (owns k) (ops s') = (if k = l then 0 else tot (owns k) (ops s))" "\<And>e. tot (about e) (ops s') \<le> tot (about e) (ops s)"
    "\<And>e. map_of (recordedUseLeases s) e \<noteq> Some l \<Longrightarrow> tot (ending e) (ops s) \<le> tot (ending e) (ops s')"
    "\<And>e. map_of (recordedUseLeases s) e = Some l \<Longrightarrow> e \<notin> set (waitQueue s)" "\<And>l. tot (takes l) (ops s') \<le> tot (takes l) (ops s)"
  shows "inv_lease s'"
proof -
  have log: "lease_log s" using assms(1) by (simp add: inv_lease_def)
  note r = release_effect [OF log assms(2)]
  have z: "tot (about e) (ops s') = 0" if "tot (about e) (ops s) = 0" for e
    using assms(10) [of e] that tot_nonneg [of "about e" "ops s'"] by simp
  moreover have "tot (takes l) (ops s') = 0" if "tot (takes l) (ops s) = 0" for l
    using assms(13) [of l] that tot_nonneg [of "takes l" "ops s'"] by simp
  ultimately have "lease_refs s'" using assms(1) unfolding inv_lease_def lease_refs_def assms(3-9) r by auto
  moreover have "lease_log s'"
  proof -
    have "tot (owns k) (ops s') \<le> 1 \<and> (0 < tot (owns k) (ops s') \<longrightarrow> k < length (leases s) \<and> k \<notin> insert l (set (released_leases s)) \<and> \<not> terminalPromise (leases s ! k))" for k
      using owns_log [OF log, of k] unfolding assms(9) by (cases "k = l") simp_all
    moreover have "\<forall>k \<in> insert l (set (released_leases s)). k < length (leases s) \<and> (releasePromise (leases s ! k) \<or> k = l)"
      "\<forall>k < length (leases s). releasePromise (leases s ! k) \<or> k = l \<longrightarrow> k \<in> insert l (set (released_leases s))"
      using log assms(2) unfolding lease_log_def by blast+
    ultimately show ?thesis unfolding lease_log_def assms(3,4) r using r(2) by blast
  qed
  moreover have "in_use s' k e" if "in_use s k e" "map_of (recordedUseLeases s) e = Some k" "k \<noteq> l" for k e
    using that assms(6,7) less_le_trans [OF _ assms(11) [of e]] unfolding in_use_def assms(3) r by auto
  then have u: "in_use s' k e" if "in_use s k e" "map_of (recordedUseLeases s) e = Some k" "k \<noteq> l" for k e using that by blast
  have "lease_live s'"
  proof -
    have live: "lease_live s" using assms(1) by (simp add: inv_lease_def)
    have "\<exists>k. map_of (recordedUseLeases s) e = Some k \<and> k \<notin> insert l (set (released_leases s))" if "e \<in> set (waitQueue s)" for e
      using live that assms(12) [of e] unfolding lease_live_def by blast
    moreover have "0 < tot (owns k) (ops s') \<or> (\<exists>e. map_of (recordedUseLeases s) e = Some k \<and> in_use s' k e)"
      if "k < length (leases s)" "k \<notin> insert l (set (released_leases s))" for k
      using live that u [of k] assms(9) [of k] unfolding lease_live_def by (metis insertCI)
    ultimately show ?thesis unfolding lease_live_def assms(3-6) r by blast
  qed
  ultimately show ?thesis by (simp add: inv_lease_def)
qed

text \<open>A lease is acquired for an operation.\<close>

lemma lease_acquire:
  assumes "inv_lease s" "leases s' = leases s @ [\<lparr>releasePromise = False, terminalPromise = False\<rparr>]"
    "released_leases s' = released_leases s" "recordedUseLeases s' = recordedUseLeases s"
    "waitQueue s' = waitQueue s" "startedEncoders s' = startedEncoders s" "nextEncoder s' = nextEncoder s"
    "\<And>k. tot (owns k) (ops s') = tot (owns k) (ops s) + of_bool (length (leases s) = k)" "\<And>e. tot (about e) (ops s') = tot (about e) (ops s)"
    "\<And>e. tot (ending e) (ops s) = tot (ending e) (ops s')"
    "\<And>k. tot (takes k) (ops s') = tot (takes k) (ops s) + of_bool (length (leases s) = k)"
  shows "inv_lease s'"
proof -
  have log: "lease_log s" and refs: "lease_refs s" and live: "lease_live s" using assms(1) by (simp_all add: inv_lease_def)
  have old: "leases s' ! k = leases s ! k" if "k < length (leases s)" for k using that by (simp add: assms(2) nth_append)
  have "lease_refs s'" using refs old unfolding lease_refs_def assms(2-9,11) by (auto simp: nth_append less_Suc_eq)
  moreover have "lease_log s'"
  proof -
    have n: "tot (owns (length (leases s))) (ops s) = 0" "length (leases s) \<notin> set (released_leases s)"
    proof -
      have "\<not> 0 < tot (owns (length (leases s))) (ops s)" using owns_log(2) [OF log] by blast
      then show "tot (owns (length (leases s))) (ops s) = 0" using tot_nonneg [of "owns (length (leases s))" "ops s"] by simp
      show "length (leases s) \<notin> set (released_leases s)" using log unfolding lease_log_def by blast
    qed
    have "tot (owns k) (ops s') \<le> 1 \<and> (0 < tot (owns k) (ops s') \<longrightarrow> k < length (leases s') \<and> k \<notin> set (released_leases s) \<and> \<not> terminalPromise (leases s' ! k))" for k
      using owns_log [OF log, of k] n unfolding assms(2,8) by (cases "k = length (leases s)") (auto simp: less_Suc_eq nth_append)
    moreover have "\<forall>k \<in> set (released_leases s). k < length (leases s') \<and> releasePromise (leases s' ! k)"
    proof
      fix k assume "k \<in> set (released_leases s)"
      then have "k < length (leases s)" "releasePromise (leases s ! k)" using log unfolding lease_log_def by blast+
      then show "k < length (leases s') \<and> releasePromise (leases s' ! k)" using old by (simp add: assms(2))
    qed
    moreover have "k \<in> set (released_leases s)" if "k < length (leases s')" "releasePromise (leases s' ! k)" for k
    proof -
      have "k < length (leases s) \<and> releasePromise (leases s ! k)"
        using that by (cases "k < length (leases s)") (simp_all add: assms(2) nth_append less_Suc_eq)
      then show ?thesis using log unfolding lease_log_def by blast
    qed
    ultimately show ?thesis using log unfolding lease_log_def assms(3) by blast
  qed
  moreover have "in_use s' k e" if "in_use s k e" "k < length (leases s)" for k e
    using that old unfolding in_use_def assms(5,6,10) by auto
  then have u: "in_use s' k e" if "in_use s k e" "k < length (leases s)" for k e using that by blast
  have "lease_live s'"
  proof -
    have "0 < tot (owns k) (ops s') \<or> (\<exists>e. map_of (recordedUseLeases s) e = Some k \<and> in_use s' k e)"
      if "k < length (leases s')" "k \<notin> set (released_leases s)" for k
    proof (cases "k = length (leases s)")
      case True
      then show ?thesis using tot_nonneg [of "owns k" "ops s"] unfolding assms(8) by simp
    next
      case False
      then have k: "k < length (leases s)" using that(1) by (simp add: assms(2))
      then show ?thesis using live that(2) u [OF _ k] False unfolding lease_live_def assms(8) by (metis add.right_neutral of_bool_eq(1))
    qed
    then show ?thesis using live unfolding lease_live_def assms(3-5) by blast
  qed
  ultimately show ?thesis by (simp add: inv_lease_def)
qed

lemma owner:
  assumes "inv_lease s" "map_of (ops s) n = Some p" "owns l p = 1"
  shows "tot (owns l) (ops s) = 1" "l < length (leases s)" "l \<notin> set (released_leases s)" "\<not> terminalPromise (leases s ! l)"
    "map_of (recordedUseLeases s) e = Some l \<Longrightarrow> e \<notin> set (waitQueue s)"
proof -
  have log: "lease_log s" using assms(1) by (simp add: inv_lease_def)
  have "1 \<le> tot (owns l) (ops s)" using at_op_le [of "owns l" n "ops s"] assms(2,3) by (simp add: at_op_eq)
  then show t: "tot (owns l) (ops s) = 1" using owns_log(1) [OF log, of l] by simp
  then show "l < length (leases s)" "l \<notin> set (released_leases s)" "\<not> terminalPromise (leases s ! l)" using owns_log(2) [OF log, of l] by simp_all
  show "map_of (recordedUseLeases s) e = Some l \<Longrightarrow> e \<notin> set (waitQueue s)" using assms(1) t unfolding inv_lease_def lease_refs_def by auto
qed

lemma taker:
  assumes "inv_lease s" "map_of (ops s) n = Some p" "takes l p = 1"
  shows "map_of (recordedUseLeases s) e \<noteq> Some l"
proof
  assume "map_of (recordedUseLeases s) e = Some l"
  then have "tot (takes l) (ops s) = 0" using assms(1) unfolding inv_lease_def lease_refs_def by blast
  then show False using at_op_le [of "takes l" n "ops s"] assms(2,3) by (simp add: at_op_eq)
qed

text \<open>A new encoder takes the lease over; it waits, or the operation keeps the lease for the release.\<close>

lemma lease_take:
  assumes "inv_lease s" "inv_enc s" "map_of (ops s) n = Some p" "owns l p = 1" "takes l p = 1"
    "leases s' = leases s" "released_leases s' = released_leases s" "recordedUseLeases s' = map_set (nextEncoder s) l (recordedUseLeases s)"
    "startedEncoders s' = startedEncoders s" "nextEncoder s' = nextEncoder s + 1"
    "waitQueue s' = (if w then waitQueue s @ [nextEncoder s] else waitQueue s)"
    "\<And>k. tot (owns k) (ops s') = tot (owns k) (ops s) - of_bool (w \<and> k = l)"
    "\<And>k. tot (takes k) (ops s') = tot (takes k) (ops s) - of_bool (k = l)"
    "\<And>e. tot (about e) (ops s') = tot (about e) (ops s)" "\<And>e. tot (ending e) (ops s') = tot (ending e) (ops s)"
  shows "inv_lease s'"
proof -
  have log: "lease_log s" and refs: "lease_refs s" and live: "lease_live s" using assms(1) by (simp_all add: inv_lease_def)
  note o = owner [OF assms(1,3,4)] and t = taker [OF assms(1,3,5)]
  have tk: "tot (takes l) (ops s) = 1"
  proof -
    have "tot (takes l) (ops s) \<le> tot (owns l) (ops s)"
      unfolding tot_def by (intro sum_list_mono) (simp add: takes_def owns_def split: op.split)
    then show ?thesis using at_op_le [of "takes l" n "ops s"] assms(3,5) o(1) by (simp add: at_op_eq)
  qed
  have new: "nextEncoder s \<notin> set (waitQueue s)" "nextEncoder s \<notin> set (startedEncoders s)" "tot (about (nextEncoder s)) (ops s) = 0"
    "map_of (recordedUseLeases s) (nextEncoder s) = None"
  proof -
    show "nextEncoder s \<notin> set (waitQueue s)" "nextEncoder s \<notin> set (startedEncoders s)" using encD [OF assms(2)] by blast+
    show "tot (about (nextEncoder s)) (ops s) = 0" using assms(2) unfolding inv_enc_def by blast
    show "map_of (recordedUseLeases s) (nextEncoder s) = None"
      using refs unfolding lease_refs_def by (metis less_irrefl not_Some_eq)
  qed
  have "lease_refs s'" using refs new o t tk unfolding lease_refs_def assms(6-14) by (auto intro: less_SucI split: if_splits)
  moreover have "lease_log s'"
  proof -
    have "tot (owns k) (ops s') \<le> 1 \<and> (0 < tot (owns k) (ops s') \<longrightarrow> k < length (leases s) \<and> k \<notin> set (released_leases s) \<and> \<not> terminalPromise (leases s ! k))" for k
      using owns_log [OF log, of k] o(1) unfolding assms(12) by (cases "w \<and> k = l") simp_all
    then show ?thesis using log unfolding lease_log_def assms(6,7) by blast
  qed
  moreover have "lease_live s'"
  proof -
    have u: "in_use s' k e" if "in_use s k e" for k e using that unfolding in_use_def assms(6,9,11,15) by auto
    have "\<exists>k. map_of (recordedUseLeases s') e = Some k \<and> k \<notin> set (released_leases s)" if "e \<in> set (waitQueue s')" for e
      using live that o(3) new(1) unfolding lease_live_def assms(8,11) by (cases "e = nextEncoder s") (auto split: if_splits)
    moreover have "0 < tot (owns k) (ops s') \<or> (\<exists>e. map_of (recordedUseLeases s') e = Some k \<and> in_use s' k e)"
      if k: "k < length (leases s)" "k \<notin> set (released_leases s)" for k
    proof (cases "k = l")
      case True
      then show ?thesis using o(1) by (cases w) (auto simp: assms(8,11,12) in_use_def)
    next
      case False
      have "0 < tot (owns k) (ops s) \<or> (\<exists>e. map_of (recordedUseLeases s) e = Some k \<and> in_use s k e)"
        using live k unfolding lease_live_def by blast
      then show ?thesis
      proof
        assume "\<exists>e. map_of (recordedUseLeases s) e = Some k \<and> in_use s k e"
        then obtain e where e: "map_of (recordedUseLeases s) e = Some k" "in_use s k e" by blast
        then have "e \<noteq> nextEncoder s" using new(4) by auto
        then show ?thesis using e u by (auto simp: assms(8))
      qed (use False in \<open>simp add: assms(12)\<close>)
    qed
    ultimately show ?thesis unfolding lease_live_def assms(6,7) by blast
  qed
  ultimately show ?thesis by (simp add: inv_lease_def)
qed

lemma lease_admitted:
  assumes "inv_lease s" "inv_enc s" "ops_ok s" "map_of (ops s) n = Some (AdmitEncoder j opt i l)"
  shows "inv_lease (admit_encoder n j opt i l outcome now s)"
proof (cases outcome)
  case (NoEncoder err)
  show ?thesis
  proof (cases j)
    case None
    then show ?thesis using NoEncoder assms by (intro lease_keep [OF assms(1)]) (simp_all add: admit_encoder_def admit_undo_def at_op_eq)
  next
    case (Some k)
    then show ?thesis using NoEncoder assms owner [OF assms(1,4), of l]
      by (intro lease_release [OF assms(1), of l]) (simp_all add: admit_encoder_def admit_undo_def at_op_eq)
  qed
next
  case (ListenerThrew err)
  let ?q = "emit_event (AddEncode i) (queue_encoder opt i l s)"
  let ?s1 = "set_op n (AdmitRemove err l) (?q\<lparr>waitQueue := filter (\<lambda>item. item \<noteq> nextEncoder s) (waitQueue ?q)\<rparr>)"
  have s1: "inv_lease ?s1"
    by (rule lease_take [OF assms(1,2,4), of l _ False]) (use assms(3,4) encD [OF assms(2)] in \<open>simp_all add: at_op_eq\<close>)
  have ok: "ops_ok ?s1" using op_below [OF assms(3,4)] assms(3) by simp
  show ?thesis
  proof (cases j)
    case None
    then show ?thesis using ListenerThrew ok by (intro lease_keep [OF s1]) (simp_all add: admit_encoder_def admit_undo_def Let_def at_op_eq)
  next
    case (Some k)
    let ?s' = "admit_encoder n j opt i l outcome now s"
    have m: "map_of (ops ?s1) n = Some (AdmitRemove err l)" "owns l (AdmitRemove err l) = 1" by simp_all
    note own = owner [OF s1 m]
    have f: "leases ?s' = leases (releaseRecordedUse l ?s1)" "released_leases ?s' = released_leases (releaseRecordedUse l ?s1)"
      "recordedUseLeases ?s' = recordedUseLeases ?s1" "waitQueue ?s' = waitQueue ?s1" "startedEncoders ?s' = startedEncoders ?s1"
      "nextEncoder ?s' = nextEncoder ?s1"
      using ListenerThrew Some by (simp_all add: admit_encoder_def admit_undo_def Let_def releaseRecordedUse_def)
    have t: "tot h (ops ?s') = tot h (ops ?s1) - h (AdmitRemove err l) + h (AdmitRelease (Some k) err)" for h
      using ListenerThrew Some assms(3) by (simp add: admit_encoder_def admit_undo_def Let_def)
    show ?thesis
    proof (rule lease_release [OF s1 own(2) f])
      show "tot (owns m) (ops ?s') = (if m = l then 0 else tot (owns m) (ops ?s1))" for m
        unfolding t using own(1) by auto
      show "e \<notin> set (waitQueue ?s1)" if "map_of (recordedUseLeases ?s1) e = Some l" for e by (rule own(5) [OF that])
    qed (simp_all only: t, simp_all)
  qed
next
  case EncoderReady
  show ?thesis
    by (rule lease_take [OF assms(1,2,4), of l _ True])
      (use EncoderReady assms(3,4) in \<open>simp_all add: admit_encoder_def persisted_ends_def Let_def at_op_eq
        requestCheckQueue_tot requestCheckQueue_at split: option.split\<close>)
qed

lemma lease_loop:
  assumes "inv_lease s" "ops_ok s" "map_of (ops s) n = Some p" "p \<in> {RestoreList, RestoreDrop rs', RestoreRelease rs', RestoreJudge r rs'}"
  shows "inv_lease (restore_loop n rs now s)"
  by (rule lease_keep [OF assms(1)]) (use assms(2-4) in auto)

text \<open>The first waiting encoder is started.\<close>

lemma lease_start:
  assumes "inv_lease s" "inv_enc s" "waitQueue s = e # es"
    "leases s' = leases s" "recordedUseLeases s' = recordedUseLeases s" "released_leases s' = released_leases s"
    "nextEncoder s' = nextEncoder s" "waitQueue s' = es" "startedEncoders s' = startedEncoders s @ [e]"
    "\<And>l. tot (owns l) (ops s') = tot (owns l) (ops s)" "\<And>l. tot (takes l) (ops s') = tot (takes l) (ops s)"
    "\<And>x. tot (about x) (ops s') = tot (about x) (ops s) + of_bool (e = x)" "\<And>x. tot (ending x) (ops s') = tot (ending x) (ops s)"
  shows "inv_lease s'"
proof -
  have log: "lease_log s" and refs: "lease_refs s" and live: "lease_live s" using assms(1) by (simp_all add: inv_lease_def)
  obtain l where l: "map_of (recordedUseLeases s) e = Some l" "l \<notin> set (released_leases s)"
    using live assms(3) unfolding lease_live_def by auto
  have e: "e \<notin> set (startedEncoders s)" using assms(2,3) unfolding inv_enc_def by auto
  have nt: "\<not> terminalPromise (leases s ! l)" "\<not> 0 < tot (owns l) (ops s)"
    using refs l(1) e assms(3) unfolding lease_refs_def by auto
  have "x = e" if "map_of (recordedUseLeases s) x = Some l" for x using refs l(1) that unfolding lease_refs_def by blast
  then have "lease_refs s'" using refs l nt assms(3) unfolding lease_refs_def assms(4-12) by auto
  moreover have "lease_log s'" using log unfolding lease_log_def assms(4-10) by blast
  moreover have "lease_live s'"
  proof -
    have "in_use s' k x" if "in_use s k x" "map_of (recordedUseLeases s) x = Some k" for k x
      using that l nt assms(3) unfolding in_use_def assms(4,8,9,13) by auto
    then have "0 < tot (owns k) (ops s) \<or> (\<exists>x. map_of (recordedUseLeases s) x = Some k \<and> in_use s' k x)"
      if "k < length (leases s)" "k \<notin> set (released_leases s)" for k
      using live that unfolding lease_live_def by blast
    moreover have "\<forall>x \<in> set es. \<exists>k. map_of (recordedUseLeases s) x = Some k \<and> k \<notin> set (released_leases s)"
      using live unfolding lease_live_def assms(3) by simp
    ultimately show ?thesis unfolding lease_live_def assms(4-10) by blast
  qed
  ultimately show ?thesis by (simp add: inv_lease_def)
qed

text \<open>The end of a started encoder is reported.\<close>

lemma lease_finish:
  assumes "inv_lease s" "e \<in> set (startedEncoders s)"
    "leases s' = (case map_of (recordedUseLeases s) e of None \<Rightarrow> leases s | Some l \<Rightarrow> (leases s)[l := (leases s ! l)\<lparr>terminalPromise := True\<rparr>])"
    "recordedUseLeases s' = recordedUseLeases s" "released_leases s' = released_leases s" "nextEncoder s' = nextEncoder s"
    "waitQueue s' = waitQueue s" "startedEncoders s' = startedEncoders s" "\<And>l. tot (owns l) (ops s') = tot (owns l) (ops s)"
    "\<And>l. tot (takes l) (ops s') = tot (takes l) (ops s)" "\<And>x. tot (about x) (ops s') = tot (about x) (ops s) + of_bool (e = x)"
    "\<And>x. tot (ending x) (ops s') = tot (ending x) (ops s) + of_bool (e = x)"
  shows "inv_lease s'"
proof -
  have log: "lease_log s" and refs: "lease_refs s" and live: "lease_live s" using assms(1) by (simp_all add: inv_lease_def)
  have own: "\<not> 0 < tot (owns l) (ops s)" if "map_of (recordedUseLeases s) e = Some l" for l
    using refs assms(2) that unfolding lease_refs_def by blast
  have same: "length (leases s') = length (leases s)" "releasePromise (leases s' ! k) = releasePromise (leases s ! k)" for k
  proof -
    show "length (leases s') = length (leases s)" by (simp add: assms(3) split: option.split)
    show "releasePromise (leases s' ! k) = releasePromise (leases s ! k)"
    proof (cases "map_of (recordedUseLeases s) e")
      case (Some l)
      then show ?thesis
        by (cases "l = k"; cases "l < length (leases s)") (simp_all add: assms(3) list_update_beyond)
    qed (simp add: assms(3))
  qed
  have told: "terminalPromise (leases s' ! k) \<Longrightarrow> terminalPromise (leases s ! k) \<or> map_of (recordedUseLeases s) e = Some k" for k
  proof (cases "map_of (recordedUseLeases s) e")
    case (Some l)
    assume "terminalPromise (leases s' ! k)"
    then show ?thesis using Some by (cases "l = k") (simp_all add: assms(3))
  qed (simp add: assms(3))
  have "lease_refs s'"
  proof -
    have "x \<in> set (startedEncoders s)" if "map_of (recordedUseLeases s) x = Some l" "terminalPromise (leases s' ! l)" for x l
    proof (cases "map_of (recordedUseLeases s) e = Some l")
      case True
      then have "x = e" using refs that(1) unfolding lease_refs_def by blast
      then show ?thesis using assms(2) by simp
    next
      case False
      then have "terminalPromise (leases s ! l)" using told [OF that(2)] by blast
      then show ?thesis using refs that(1) unfolding lease_refs_def by blast
    qed
    moreover have "tot (about x) (ops s') = 0"
      if "map_of (recordedUseLeases s) x = Some l" "0 < tot (owns l) (ops s)" for x l
    proof -
      have "tot (about x) (ops s) = 0" "x \<notin> set (startedEncoders s)" using refs that unfolding lease_refs_def by blast+
      then show ?thesis using assms(2) by (auto simp: assms(11))
    qed
    ultimately show ?thesis using refs unfolding lease_refs_def same assms(4-10) by blast
  qed
  moreover have "lease_log s'" using log own told unfolding lease_log_def same assms(4-10) by blast
  moreover have "lease_live s'"
  proof -
    have "in_use s' k x" if "in_use s k x" "map_of (recordedUseLeases s) x = Some k" for k x
    proof (cases "x = e")
      case True
      then show ?thesis using tot_nonneg [of "ending e" "ops s"] by (simp add: in_use_def assms(12))
    next
      case False
      then have "map_of (recordedUseLeases s) e \<noteq> Some k" using refs that(2) unfolding lease_refs_def by blast
      then have "terminalPromise (leases s' ! k) = terminalPromise (leases s ! k)"
        by (cases "map_of (recordedUseLeases s) e") (auto simp: assms(3))
      then show ?thesis using that(1) False by (simp add: in_use_def assms(7,8,12))
    qed
    then show ?thesis using live unfolding lease_live_def same assms(4-10) by blast
  qed
  ultimately show ?thesis by (simp add: inv_lease_def)
qed

text \<open>Waiting encoders are cancelled: their release begins.\<close>

lemma lease_cancel:
  assumes "inv_lease s" "leases s' = leases s" "recordedUseLeases s' = recordedUseLeases s" "released_leases s' = released_leases s"
    "nextEncoder s' = nextEncoder s" "startedEncoders s' = startedEncoders s" "set (waitQueue s') \<subseteq> set (waitQueue s)"
    "\<And>l. tot (owns l) (ops s') = tot (owns l) (ops s)" "\<And>l. tot (takes l) (ops s') = tot (takes l) (ops s)"
    "\<And>x. x \<notin> set (waitQueue s) \<Longrightarrow> tot (about x) (ops s') = tot (about x) (ops s)"
    "\<And>x. tot (ending x) (ops s) \<le> tot (ending x) (ops s')"
    "\<And>x. x \<in> set (waitQueue s) \<Longrightarrow> x \<notin> set (waitQueue s') \<Longrightarrow> 0 < tot (ending x) (ops s')"
  shows "inv_lease s'"
proof -
  have log: "lease_log s" and refs: "lease_refs s" and live: "lease_live s" using assms(1) by (simp_all add: inv_lease_def)
  have "lease_refs s'" using refs assms(7,10) unfolding lease_refs_def assms(2-6,8,9) by auto
  moreover have "lease_log s'" using log unfolding lease_log_def assms(2-9) by blast
  moreover have "lease_live s'"
  proof -
    have "in_use s' k x" if "in_use s k x" for k x
      using that assms(12) [of x] less_le_trans [OF _ assms(11) [of x]] unfolding in_use_def assms(2,6) by blast
    then show ?thesis using live assms(7) unfolding lease_live_def assms(2-6,8) by blast
  qed
  ultimately show ?thesis by (simp add: inv_lease_def)
qed

lemma sum_items: "0 \<le> (\<Sum>x\<leftarrow>xs. of_bool (x = e) :: int)" "e \<in> set xs \<Longrightarrow> 0 < (\<Sum>x\<leftarrow>xs. of_bool (x = e) :: int)"
  "e \<notin> set xs \<Longrightarrow> (\<Sum>x\<leftarrow>xs. of_bool (x = e) :: int) = 0"
proof -
  have n: "0 \<le> (\<Sum>x\<leftarrow>xs. of_bool (x = e) :: int)" for xs by (induction xs) simp_all
  show "0 \<le> (\<Sum>x\<leftarrow>xs. of_bool (x = e) :: int)" by (rule n)
  show "e \<in> set xs \<Longrightarrow> 0 < (\<Sum>x\<leftarrow>xs. of_bool (x = e) :: int)"
  proof (induction xs)
    case (Cons y ys)
    then show ?case using n [of ys] by (cases "y = e") auto
  qed simp
  show "e \<notin> set xs \<Longrightarrow> (\<Sum>x\<leftarrow>xs. of_bool (x = e) :: int) = 0" by (induction xs) auto
qed

lemma lease_step:
  assumes "encode_step s s'" "ops_ok s" "inv_enc s" "inv_lease s"
  shows "inv_lease s'"
  using assms
proof (induction rule: encode_step.induct)
  case (admit_acquired s n j opt acquired)
  show ?case
  proof (cases "acquired = Inr True")
    case True
    then show ?thesis using admit_acquired
      by (intro lease_acquire [OF admit_acquired(4)]) (simp_all add: admit_acquired_def new_lease_def at_op_eq split: option.split)
  next
    case False
    then show ?thesis using admit_acquired
      by (intro lease_keep [OF admit_acquired(4)]) (simp_all add: admit_acquired_def at_op_eq split: sum.split bool.split)
  qed
next
  case (admit_recorded s n opt l recorded)
  show ?case
  proof (cases recorded)
    case (Inl err)
    then show ?thesis using admit_recorded owner [OF admit_recorded(5,1), of l]
      by (intro lease_release [OF admit_recorded(5), of l]) (simp_all add: admit_recorded_def releaseRecordedUse_def at_op_eq)
  next
    case (Inr i)
    then show ?thesis using admit_recorded by (intro lease_keep [OF admit_recorded(5)]) (simp_all add: admit_recorded_def at_op_eq)
  qed
next
  case (admit_encoder s n j opt i l outcome now)
  then show ?case by (intro lease_admitted)
next
  case (admit_removed s n e l)
  then show ?case using owner [OF admit_removed(4,1), of l]
    by (intro lease_release [OF admit_removed(4), of l]) (simp_all add: admit_removed_def at_op_eq)
next
  case (check_exec s n isGranted)
  show ?case
  proof (cases "isGranted \<and> int (length (runningQueue s)) < concurrentEncodeNum s \<and> waitQueue s \<noteq> []")
    case False
    then show ?thesis using check_exec
      by (intro lease_keep [OF check_exec(4)]) (auto simp: check_exec_def Let_def at_op_eq split: list.split)
  next
    case True
    then obtain e es where w: "waitQueue s = e # es" by (cases "waitQueue s") auto
    obtain opt where opt: "encoderOption s e = Some opt" using check_exec(3) w unfolding inv_enc_def by auto
    then show ?thesis using True w check_exec(1,2)
      by (intro lease_start [OF check_exec(4,3) w]) (simp_all add: check_exec_def Let_def at_op_eq)
  qed
next
  case (finished e s base join isError f)
  have "encoderOption s e \<noteq> None" using finished(1,3) unfolding inv_enc_def by blast
  then obtain opt where opt: "encoderOption s e = Some opt" by blast
  show ?case
  proof (cases "\<exists>l. map_of (recordedUseLeases s) e = Some l \<and> terminalPromise (leases s ! l)")
    case True
    then show ?thesis using finished(4) by (auto simp: onFinish_def)
  next
    case False
    then show ?thesis using finished(2) opt
      by (intro lease_finish [OF finished(4,1)]) (auto simp: step_defs split: option.split)
  qed
next
  case (record_removed s n e k now)
  note ae = about_enc [OF record_removed(3,1), of e, simplified]
  show ?case
  proof (cases "map_of (recordedUseLeases s) e")
    case None
    then have ne: "x \<noteq> e" "e \<noteq> x" if "map_of (recordedUseLeases s) x \<noteq> None" for x using that by auto
    from None show ?thesis using record_removed(1,2)
      by (intro lease_keep [OF record_removed(4)])
        (simp_all add: ne record_removed_def release_done_def at_op_eq requestCheckQueue_tot split: release_for.split)
  next
    case (Some l)
    have l: "l < length (leases s)" "\<And>x. map_of (recordedUseLeases s) x = Some l \<Longrightarrow> x = e" "\<not> 0 < tot (owns l) (ops s)"
    proof -
      show "l < length (leases s)" "\<And>x. map_of (recordedUseLeases s) x = Some l \<Longrightarrow> x = e"
        using record_removed(4) Some unfolding inv_lease_def lease_refs_def by blast+
      have "tot (about e) (ops s) \<noteq> 0" using at_op_le [of "about e" n "ops s"] record_removed(1) by (simp add: at_op_eq)
      then show "\<not> 0 < tot (owns l) (ops s)" using record_removed(4) Some unfolding inv_lease_def lease_refs_def by blast
    qed
    have o: "tot (owns l) (ops s) = 0" using l(3) tot_nonneg [of "owns l" "ops s"] by simp
    have ne: "x \<noteq> e" "e \<noteq> x" if "map_of (recordedUseLeases s) x \<noteq> Some l" for x using that Some by auto
    show ?thesis
    proof (rule lease_release [OF record_removed(4) l(1)])
      show "x \<notin> set (waitQueue s)" if "map_of (recordedUseLeases s) x = Some l" for x using l(2) [OF that] ae(2) by simp
    qed (use Some record_removed(1,2) o ne in \<open>simp_all add: record_removed_def at_op_eq\<close>)
  qed
next
  case (lease_released s n e k now)
  then show ?case
    by (intro lease_keep [OF lease_released(4)]) (simp_all add: release_done_def at_op_eq requestCheckQueue_tot split: release_for.split)
next
  case (cancel_exec s n i rest refused)
  let ?s' = "cancel_exec n i rest refused s"
  note below = op_below [OF cancel_exec(2,1)]
  show ?case
  proof (cases "refused = None \<and> \<not> list_ex (\<lambda>q. getEncodeId s q = Some i) (runningQueue s) \<and> filter (\<lambda>q. getEncodeId s q = Some i) (waitQueue s) \<noteq> []")
    case True
    let ?items = "filter (\<lambda>q. getEncodeId s q = Some i) (waitQueue s)"
    have g: "getEncodeId (emit_event ev (granted n s)) = getEncodeId s" for ev by (rule ext) (simp add: getEncodeId_def)
    have s': "?s' = release_items ?items n (set_op n (CancelReleasing (length ?items) rest)
        ((emit_event (CancelEncode i) (granted n s))\<lparr>waitQueue := filter (\<lambda>q. getEncodeId s q \<noteq> Some i) (waitQueue s)\<rparr>))"
      using True by (simp add: cancel_exec_def Let_def g)
    have t: "tot h (ops ?s') = tot h (ops s) - h (CancelExec i rest) + h (CancelReleasing (length ?items) rest) +
        (\<Sum>x\<leftarrow>?items. h (ReleaseRecord x (AfterCancel n)))" for h
      unfolding s' using cancel_exec(1,2) below by (simp add: release_items_ops at_op_eq)
    show ?thesis
    proof (rule lease_cancel [OF cancel_exec(4)])
      show "tot (about x) (ops ?s') = tot (about x) (ops s)" if "x \<notin> set (waitQueue s)" for x
        using that sum_items(3) [of x ?items] by (simp add: t)
      show "tot (ending x) (ops s) \<le> tot (ending x) (ops ?s')" for x using sum_items(1) [where xs = ?items] by (simp add: t)
      show "0 < tot (ending x) (ops ?s')" if "x \<in> set (waitQueue s)" "x \<notin> set (waitQueue ?s')" for x
      proof -
        have "x \<in> set ?items" using that by (simp add: s')
        then show ?thesis using sum_items(2) [of x ?items] tot_nonneg [of "ending x" "ops s"] by (simp add: t)
      qed
      show "tot (owns l) (ops ?s') = tot (owns l) (ops s)" "tot (takes l) (ops ?s') = tot (takes l) (ops s)" for l
        by (simp_all add: t)
    qed (auto simp: s')
  next
    case False
    have g: "getEncodeId (emit_event ev (granted n s)) = getEncodeId s" for ev by (rule ext) (simp add: getEncodeId_def)
    have w: "filter (\<lambda>q. getEncodeId s q \<noteq> Some i) (waitQueue s) = waitQueue s" if "filter (\<lambda>q. getEncodeId s q = Some i) (waitQueue s) = []"
      using that by (auto simp: filter_empty_conv filter_id_conv)
    show ?thesis using False cancel_exec(1,2) w
      by (intro lease_keep [OF cancel_exec(4)]) (auto simp: cancel_exec_def Let_def g at_op_eq split: option.split)
  qed
next
  case (restore_listed s n listing now)
  have l: "inv_lease (restore_loop n rs now (s\<lparr>listedEncodeIds := is\<rparr>))" for rs "is"
    by (rule lease_keep [OF restore_listed(5)]) (use restore_listed in simp_all)
  have e: "inv_lease (restoration_ends n (s\<lparr>restoreRetryTimer := b\<rparr>))" "inv_lease (restoration_ends n s)" for b
    using restore_listed by (intro lease_keep [OF restore_listed(5)]; simp add: at_op_eq)+
  show ?case using l e by (cases listing) (simp_all add: restore_listed_def)
next
  case (restore_judged s n r rs dependencies now)
  have l: "inv_lease (restore_loop n rs now (snd (judgeRestorableRecord a b c d r s)))"
    "inv_lease (set_op n (RestoreAcquire r rs) (snd (judgeRestorableRecord a b c d r s)))" "inv_lease (set_op n (RestoreAcquire r rs) s)" for a b c d
    using restore_judged by (intro lease_keep [OF restore_judged(5)]; simp add: at_op_eq)+
  show ?case using l by (cases dependencies) (simp_all add: restore_judged_def case_prod_beta Let_def)
next
  case (restore_acquired s n r rs acquired)
  show ?case
  proof (cases acquired)
    case True
    then show ?thesis using restore_acquired
      by (intro lease_acquire [OF restore_acquired(4)]) (simp_all add: restore_acquired_def new_lease_def Let_def at_op_eq)
  next
    case False
    then show ?thesis using restore_acquired
      by (intro lease_keep [OF restore_acquired(4)]) (simp_all add: restore_acquired_def at_op_eq)
  qed
next
  case (restore_dropped s n rs now)
  show ?case by (rule lease_loop [OF restore_dropped(5,3,1)]) simp
next
  case (restore_released s n rs now)
  show ?case by (rule lease_loop [OF restore_released(5,3,1)]) simp
next
  case (restore_encoder s n r l rs ready now)
  show ?case
  proof (cases ready)
    case True
    then show ?thesis using restore_encoder
      by (intro lease_take [OF restore_encoder(5,4,1), of l _ True]) (simp_all add: restore_encoder_def)
  next
    case False
    then show ?thesis using restore_encoder owner [OF restore_encoder(5,1), of l]
      by (intro lease_release [OF restore_encoder(5), of l]) (simp_all add: restore_encoder_def at_op_eq)
  qed
qed (rule lease_keep, assumption, (simp_all add: step_defs at_op_eq persisted_ends_def case_prod_beta admit_def persisted_admission_def requestCheckQueue_tot request_checks_tot split: split_steps)[10])+

end
