(* ===== verification/Encode_Properties.thy ===== *)
theory Encode_Properties
  imports Encode_Facts
begin

text \<open>
  The properties of the queue of the encodes (\<open>src/src/model/service/encode/EncodeManageModel.ts\<close>): its
  invariants hold in every state that a manager reaches, whatever the order of the operations and the answers of the
  lock, the ports, the store and the encoders.
\<close>

subsection \<open>The invariants of a reachable state\<close>

definition encode_inv :: "encode_manager \<Rightarrow> bool" where
  "encode_inv s \<longleftrightarrow> ops_ok s \<and> hasStore s \<and> inv_enc s \<and> inv_persist s \<and> inv_restop s \<and> inv_ids s \<and> inv_res s \<and> inv_lock s \<and>
     inv_room s \<and> inv_checks s \<and> inv_lease s"

lemma new_fields:
  assumes "new_encode_manager c q t b = Inr s"
  shows "ops s = []" "hasStore s = b" "waitQueue s = []" "runningQueue s = []" "startedEncoders s = []" "leases s = []"
    "encoderOption s = (\<lambda>_. None)" "recordedUseLeases s = []" "released_leases s = []" "admittingEncodeIds s = []" "\<not> restoring s"
    "\<not> restoreRetryTimer s" "granted_to s = []" "unlocked_by s = []" "admissionReservations s = 0" "restored s = 0" "1 \<le> encodeQueueLimit s"
  using assms by (auto simp: new_encode_manager_def Let_def split: if_splits sum.splits)

lemma encode_inv_new:
  assumes "new_encode_manager c q t True = Inr s"
  shows "encode_inv s"
  using new_fields [OF assms]
  by (simp add: encode_inv_def ops_ok_def keys_ok_def inv_enc_def inv_persist_def inv_restop_def inv_ids_def queued_def inv_res_def
    inv_lock_def inv_room_def inv_checks_def enough_def checkCount_def inv_lease_def lease_refs_def lease_log_def lease_live_def
    tot_def at_op_def)

lemma encode_inv_step: "encode_step s s' \<Longrightarrow> encode_inv s \<Longrightarrow> encode_inv s'"
  unfolding encode_inv_def
  by (blast intro: ops_ok_step enc_step persist_step restop_step ids_step res_step lock_step room_step checks_step lease_step
    dest: store_step [THEN iffD2, rotated])

lemma encoding_inv: "encoding s \<Longrightarrow> encode_inv s"
proof -
  assume "encoding s"
  then obtain c q t s0 where n: "new_encode_manager c q t True = Inr s0" and r: "encode_step\<^sup>*\<^sup>* s0 s" by (auto simp: encoding_def)
  from r show "encode_inv s" by (induction rule: rtranclp_induct) (auto intro: encode_inv_new [OF n] encode_inv_step)
qed

lemma tot_some: "tot f m \<noteq> 0 \<Longrightarrow> keys_ok m \<Longrightarrow> \<exists>n p. map_of m n = Some p \<and> f p \<noteq> 0"
proof (induction m)
  case (Cons x m)
  obtain n p where x: "x = (n, p)" by (cases x)
  show ?case
  proof (cases "f p = 0")
    case True
    then obtain k r where kr: "map_of m k = Some r" "f r \<noteq> 0" using Cons x by (auto simp: tot_def keys_ok_def)
    then have "k \<noteq> n" using Cons(3) x by (auto simp: keys_ok_def dest: map_of_SomeD intro: rev_image_eqI)
    then show ?thesis using kr x by (intro exI [of _ k] exI [of _ r]) simp
  qed (use x in auto)
qed (simp add: tot_def)

subsection \<open>A run of the machine\<close>

text \<open>One encode is pushed, admitted and started.\<close>

definition sample_option :: add_option where
  "sample_option = \<lparr>a_recordedId = 3, a_sourceVideoFileId = 5, a_parentDir = ''recorded'', a_directory = None, a_mode = ''H.264'',
     a_removeOriginal = True\<rparr>"

definition sample_admitting :: encode_manager where
  "sample_admitting = admit_recorded 0 sample_option 0 (Inr 7) (admit_acquired 0 None sample_option (Inr True)
     (admit_exec 0 None sample_option None (push sample_option (projr (new_encode_manager 1 None None True)))))"

definition sample_waiting :: encode_manager where
  "sample_waiting = admit_encoder 0 None sample_option 7 0 EncoderReady 0 sample_admitting"

definition sample_running :: encode_manager where
  "sample_running = check_exec 1 True sample_waiting"

lemma encoding_next: "encoding s \<Longrightarrow> encode_step s s' \<Longrightarrow> encoding s'"
  unfolding encoding_def by (meson rtranclp.rtrancl_into_rtrancl)

lemma sample_new: "encoding (projr (new_encode_manager 1 None None True))"
proof -
  have "new_encode_manager 1 None None True = Inr (projr (new_encode_manager 1 None None True))"
    by (simp add: new_encode_manager_def DEFAULT_QUEUE_LIMIT_def isSafeInteger_def MAX_SAFE_INTEGER_def)
  then show ?thesis unfolding encoding_def by blast
qed

lemma sample_encoding: "encoding sample_admitting" "encoding sample_waiting" "encoding sample_running"
proof -
  show a: "encoding sample_admitting" unfolding sample_admitting_def
    by (rule encoding_next [OF encoding_next [OF encoding_next [OF encoding_next [OF sample_new encode_step.push]
      encode_step.admit_exec] encode_step.admit_acquired] encode_step.admit_recorded]) code_simp+
  show w: "encoding sample_waiting" unfolding sample_waiting_def
    by (rule encoding_next [OF a encode_step.admit_encoder]) code_simp
  show "encoding sample_running" unfolding sample_running_def
    by (rule encoding_next [OF w encode_step.check_exec]) code_simp
qed

subsection \<open>Properties\<close>

lemma weight_one: "adm p \<noteq> 0 \<Longrightarrow> adm p = 1" "holds p \<noteq> 0 \<Longrightarrow> holds p = 1" "will p \<noteq> 0 \<Longrightarrow> will p = 1"
  "looping p \<noteq> 0 \<Longrightarrow> looping p = 1" "owns l p \<noteq> 0 \<Longrightarrow> owns l p = 1"
  by (simp_all add: adm_def holds_def will_def looping_def owns_def split: op.splits)

lemma distinct_count: "(\<And>x. count_list xs x \<le> 1) \<Longrightarrow> distinct xs"
proof (induction xs)
  case (Cons y ys)
  have "count_list ys x \<le> 1" for x using Cons(2) [of x] by (simp split: if_splits)
  moreover have "count_list ys y = 0" using Cons(2) [of y] by simp
  ultimately show ?case using Cons(1) by (simp add: count_list_0_iff)
qed simp

lemma at_holds: "at_op holds n (ops s) = of_bool (\<exists>p. map_of (ops s) n = Some p \<and> holds p = 1)"
  using weight_one(2) by (auto simp: at_op_def split: option.split)

text \<open>C38. However calls, releases and the restoration interleave, no more encodes run than are configured, and the queue
  never promises more places than it has: the waiting encodes and the admissions under way stay within the limit, exceeded by no
  more than the number of encodes that have been restored, which are queued whatever the limit is. No id is given to two
  encodes that wait or run. (The manager has the port of the queue store, whose ids are new.)\<close>

theorem encodes_bounded:
  assumes "encoding s"
  shows "int (length (runningQueue s)) \<le> max 0 (concurrentEncodeNum s) \<and> 0 \<le> admissionReservations s \<and>
    admissionReservations s + int (length (waitQueue s)) \<le> encodeQueueLimit s + int (restored s) \<and>
    distinct (map (getEncodeId s) (runningQueue s @ waitQueue s))"
proof -
  have i: "encode_inv s" by (rule encoding_inv [OF assms])
  have "count_list (map (getEncodeId s) (runningQueue s @ waitQueue s)) x \<le> 1" for x
  proof (cases x)
    case None
    have "getEncodeId s e \<noteq> None" if "e \<in> set (runningQueue s @ waitQueue s)" for e
      using i that unfolding encode_inv_def inv_enc_def getEncodeId_def by auto
    then have "None \<notin> set (map (getEncodeId s) (runningQueue s @ waitQueue s))" by fastforce
    then have "count_list (map (getEncodeId s) (runningQueue s @ waitQueue s)) None = 0" by (rule count_list_0_iff [THEN iffD2])
    then show ?thesis using None by simp
  next
    case (Some k)
    have "tot (has_id k) (ops s) + queued k s \<le> 1" using i by (simp add: encode_inv_def inv_ids_def)
    then show ?thesis using Some tot_nonneg [of "has_id k" "ops s"] by (simp add: queued_def del: map_append)
  qed
  then have "distinct (map (getEncodeId s) (runningQueue s @ waitQueue s))" by (rule distinct_count)
  moreover have "admissionReservations s = tot adm (ops s)" "inv_room s" using i by (simp_all add: encode_inv_def inv_res_def)
  ultimately show ?thesis using tot_nonneg [of adm "ops s"] by (simp add: inv_room_def)
qed

lemma encodes_bounded_witness: "length (runningQueue sample_running) \<le> 1 \<and> runningQueue sample_running = [0]"
proof -
  have "concurrentEncodeNum sample_running = 1" "runningQueue sample_running = [0]" by code_simp+
  then show ?thesis using encodes_bounded [OF sample_encoding(3)] by simp
qed

text \<open>C39. The queue does not come to a stop: while an encode waits and another could run, the queue is going to be looked
  at, because a request for that is on its way or will follow the work of an operation, the restoration is not over, or
  the timer of the suspend times is armed; requests that the lock refused are the exception. And a request that gets the
  lock in such a state starts the encode that has waited longest.\<close>

theorem encode_queue_never_stalls:
  assumes "encoding s" "waitQueue s \<noteq> []" "int (length (runningQueue s)) < concurrentEncodeNum s" "lost_checks s = 0"
  shows "(suspendResumeTimer s \<noteq> None \<or> 0 < ticks s \<or> (\<exists>n p. map_of (ops s) n = Some p \<and> (will p = 1 \<or> looping p = 1))) \<and>
    runningQueue (check_exec n True s) = runningQueue s @ [hd (waitQueue s)] \<and> waitQueue (check_exec n True s) = tl (waitQueue s)"
proof -
  have i: "encode_inv s" by (rule encoding_inv [OF assms(1)])
  have k: "keys_ok (ops s)" using i by (simp add: encode_inv_def)
  have c: "0 < int (checkCount s)" using assms(2,3) by (simp add: checkCount_def)
  have "\<exists>n p. map_of (ops s) n = Some p \<and> (will p = 1 \<or> looping p = 1)" if "suspendResumeTimer s = None" "ticks s = 0"
  proof (cases "tot looping (ops s) = 0")
    case True
    then have "int (checkCount s) \<le> tot will (ops s)"
      using i that assms(4) by (simp add: encode_inv_def inv_checks_def enough_def)
    then have "tot will (ops s) \<noteq> 0" using c by simp
    then show ?thesis using tot_some [OF _ k] weight_one by metis
  next
    case False
    then show ?thesis using tot_some [OF _ k] weight_one by metis
  qed
  moreover obtain e es where w: "waitQueue s = e # es" using assms(2) by (cases "waitQueue s") auto
  moreover have "encoderOption s e \<noteq> None" using i w unfolding encode_inv_def inv_enc_def by auto
  ultimately show ?thesis using assms(3) by (auto simp: check_exec_def Let_def)
qed

lemma encode_queue_never_stalls_witness:
  "map_of (ops sample_waiting) 1 = Some CheckExec \<and> runningQueue (check_exec 1 True sample_waiting) = [0]"
proof -
  have s: "waitQueue sample_waiting = [0]" "runningQueue sample_waiting = []" "concurrentEncodeNum sample_waiting = 1"
    "lost_checks sample_waiting = 0" "map_of (ops sample_waiting) 1 = Some CheckExec" by code_simp+
  then show ?thesis using encode_queue_never_stalls [OF sample_encoding(2), of 1] by simp
qed



text \<open>The execution lock goes back: every operation has given it back as often as it was granted to it, unless it is
  at a point where it works under the lock; so an operation that has ended owes nothing.\<close>

theorem encode_lock_returned:
  assumes "encoding s"
  shows "count_list (granted_to s) n =
    count_list (unlocked_by s) n + of_bool (\<exists>p. map_of (ops s) n = Some p \<and> holds p = 1)"
proof -
  have "int (count_list (granted_to s) n) = int (count_list (unlocked_by s) n) + at_op holds n (ops s)"
    using encoding_inv [OF assms] by (simp add: encode_inv_def inv_lock_def)
  then show ?thesis unfolding at_holds by (cases "\<exists>p. map_of (ops s) n = Some p \<and> holds p = 1") simp_all
qed

lemma encode_lock_returned_witness: "count_list (granted_to sample_running) 0 = 1 \<and> count_list (unlocked_by sample_running) 0 = 1"
proof -
  have s: "granted_to sample_running = [0, 1]" "ops sample_running = [(1, CheckStart 0)]" by code_simp+
  show ?thesis using encode_lock_returned [OF sample_encoding(3), of 0] by (simp add: s)
qed

text \<open>When no operation is under way, nothing is left behind: no place of the queue is reserved, no id is kept for an
  admission, the lock is given back by all, and every use is released but those of the encodes that wait or run.\<close>

theorem encode_quiescent:
  assumes "encoding s" "ops s = []"
  shows "admissionReservations s = 0 \<and> admittingEncodeIds s = [] \<and> \<not> restoring s \<and> mset (granted_to s) = mset (unlocked_by s) \<and>
    (\<forall>l < length (leases s). l \<in> set (released_leases s) \<or>
      (\<exists>e. map_of (recordedUseLeases s) e = Some l \<and> (e \<in> set (waitQueue s) \<or> e \<in> set (startedEncoders s) \<and> \<not> terminalPromise (leases s ! l))))"
proof -
  have i: "encode_inv s" by (rule encoding_inv [OF assms(1)])
  have z: "tot f (ops s) = 0" "at_op f n (ops s) = 0" for f n by (simp_all add: assms(2) tot_def at_op_def)
  have "admittingEncodeIds s = []" using i by (auto simp: encode_inv_def inv_persist_def z simp flip: set_empty)
  moreover have "admissionReservations s = 0" "\<not> restoring s" using i by (simp_all add: encode_inv_def inv_res_def inv_restop_def z)
  moreover have "mset (granted_to s) = mset (unlocked_by s)"
    using i by (intro multiset_eqI) (simp add: encode_inv_def inv_lock_def z count_mset)
  moreover have "lease_live s" using i by (simp add: encode_inv_def inv_lease_def)
  ultimately show ?thesis unfolding lease_live_def z in_use_def by auto
qed

definition sample_quiet :: encode_manager where
  "sample_quiet = check_started 1 0 True sample_running"

lemma encode_quiescent_witness: "mset (granted_to sample_quiet) = mset (unlocked_by sample_quiet) \<and> runningQueue sample_quiet = [0]"
proof -
  have e: "encoding sample_quiet" unfolding sample_quiet_def
    by (rule encoding_next [OF sample_encoding(3) encode_step.check_started]) code_simp
  have "ops sample_quiet = []" "runningQueue sample_quiet = [0]" by code_simp+
  then show ?thesis using encode_quiescent [OF e] by simp
qed

end
