(* ===== verification/Spec2Isabelle.thy ===== *)
theory Spec2Isabelle
  imports Exec_Lock Reservation_Laws Rule_Options Sub_Directory Reservation_Facts Hls_Ids Deletion_Tokens Upload_Admission Resource_Lock Storage_Manage Recording_Uses Encode_Properties
begin

text \<open>
  EPGStation records digital television: it downloads the programme guide from a tuner server
  (Mirakurun), keeps reservations that a user or a search rule makes, decides which of them the tuners
  can receive at the same time, and starts and ends the recordings. This development models the core of
  the server under \<open>src/src\<close>: the reservation manager with its database, the evaluation of
  conflicts, the lock that serialises its operations, the scheduler and the manager that turn reservations
  into recordings, the deletion of recorded programmes with the gates that protect those in use, and the
  queue of the encodes with its record in the database; with the option checks, string and path utilities
  they use.

  Parts and theories

  \<open>Epg_Prelude\<close> holds the model of the JavaScript constructs: strings as lists of UTF-16 code
  units, numbers as text, the stable sort with a comparator, \<open>findIndex\<close> and \<open>splice\<close>, and the
  type of thrown errors; \<open>Js_Map\<close> the insertion-ordered \<open>Map\<close> and the locale
  \<open>fresh_handles\<close> of handles that never become current again once they are replaced.

  \<open>Exec_Lock\<close> is \<open>ExecutionManagementModel.ts\<close>: requests with a priority and a time-out
  wait for one lock; the relation \<open>exec_step\<close> has a step for every request, release, time-out and
  watchdog. It shows mutual exclusion, that every request is settled at most once, the order of the
  hand-over and that an uncontended request is granted; the locale \<open>execution_lock\<close> states the
  contract towards the clients.

  \<open>Reserve_Types\<close> has the rows and request options as records (\<open>Reserve.ts\<close>,
  \<open>Program.ts\<close>, \<open>api.d.ts\<close>, \<open>IReserveEvent.ts\<close>). \<open>Tuner_Alloc\<close> is
  \<open>Tuner.ts\<close> with \<open>setTuners\<close> and the evaluation of one set of reservations;
  \<open>Reserve_Conflict\<close> is \<open>createReserves\<close> of \<open>ReservationManageModel.ts\<close>: the sorted
  sweep over the start and end events. It shows that what is left without conflict can be received at
  every instant, that lower priorities that carry no exclusion do not change the outcome of higher ones, and that no
  reservation is lost or invented. \<open>Reserve_Diff\<close> is \<open>createReservesDiff\<close> and its key, proved equal
  to a reference that uses no index, in which the last of the old rows with one key counts, with the case
  in which the key is too coarse.

  \<open>Db_World\<close> is the world the asynchronous code runs in: the rows of the table, the counter of
  database calls that an oracle may fail, the emitted events, the lock; and the monad of its actions with
  \<open>PromiseRetry.ts\<close>. \<open>Reserve_DB\<close> is \<open>ReserveDB.ts\<close> on it: the queries, the statements
  and the transaction of \<open>updateMany\<close>, which is shown to be atomic, whatever call is rejected, unless
  the rollback is rejected as well.

  \<open>Reservation_Manage\<close> is the rest of \<open>ReservationManageModel.ts\<close>: every public operation
  with its helpers. The programme, channel and rule tables and the clock are parameters (the record
  \<open>env\<close>). \<open>Reservation_Laws\<close> states what all operations share as the locale
  \<open>locked_operation\<close>, interpreted for each of them: the lock is free again afterwards, and a failed
  operation announces nothing. \<open>Reservation_Facts\<close> says what the operations do to the table: what
  the conflict sweep of \<open>updateAll\<close> leaves can be received, and \<open>cleanup\<close> ends. \<open>Rule_Options\<close>, \<open>Str_Util\<close> and \<open>Sub_Directory\<close> are
  \<open>ReserveOptionChecker.ts\<close>, \<open>StrUtil.ts\<close> and \<open>SubDirectoryUtil.ts\<close>.

  \<open>Candidate_Registry\<close> is \<open>RecordingCandidateRegistry.ts\<close>; \<open>Schedule_Control\<close> is
  \<open>RecordingScheduleController.ts\<close>, with the timeouts and microtasks of the platform as lists in
  its state and the relation \<open>schedule_step\<close> for everything that can happen to it.
  \<open>Schedule_Laws\<close> has the invariant of candidates, sessions and milestones and the invariant of
  the wake-ups; \<open>Schedule_Facts\<close> the properties: one pending wake-up, what an evaluation
  dispatches, that a wake-up settles the schedule, sessions prepared once unless a client puts them back,
  stale tokens refused, and the refinement of a plain map of rows.

  \<open>Recording_Manage\<close> is \<open>RecordingManageModel.ts\<close> on top of the scheduler: its handlers, the
  chain of the session operations, the start-up, failed recordings and the recorded programmes that are
  being written, as the relation \<open>manager_step\<close>; a recorder is a number, what it is told a log and what it does an
  event. \<open>Recording_Laws\<close> has the invariants, \<open>Recording_Facts\<close> shows that a recorder serves one session and
  that the failure of a recording is decided once, \<open>Recording_Uses\<close> that no deletion gets a token for a
  programme that is being written.

  \<open>Recorded_Use\<close> states the interface between the use of recorded programmes and their deletion as the
  locale \<open>deletion_gate\<close>, interpreted on \<open>RecordingRecordedUseProvider.ts\<close> there and on
  \<open>ServiceChildRecordedUseRegistry.ts\<close> in \<open>Child_Use\<close>. \<open>Deletion_Tokens\<close> is
  \<open>PreparedDeletionTokenRegistry.ts\<close> (a token is consumed once), \<open>Resource_Lock\<close> is
  \<open>RecordedResourceMutationLock.ts\<close> (exclusion and order per programme). \<open>Managed_Files\<close> is the removal
  of a recorded file by \<open>RecordedManageModel.ts\<close>, on Linux through the descriptors of the directories
  and elsewhere by real paths, on a file system that may answer every call differently; \<open>Recorded_Deletion\<close> the
  prepared deletions of the same class on the tables of the programmes, files, thumbnails and drop logs.
  \<open>Storage_Deletion\<close> is \<open>StoragePressureDeletionAdapter.ts\<close>, which takes both gates before it deletes, and
  \<open>Storage_Manage\<close> the loop of \<open>StorageManageModel.ts\<close> that makes space, shown to end.

  \<open>Encode_Queue\<close> is \<open>EncodeQueueStore.ts\<close> with \<open>EncodeQueueDB.ts\<close>: the ids of the requests, their
  order of acceptance, and that a restart loses none. \<open>Encode_Suspend\<close> has the times without encoding of
  \<open>EncodeManageModel.ts\<close>; \<open>Encode_Manage\<close> is the class itself as the relation \<open>encode_step\<close> over
  the operations under way, each at one of its awaits; the lock, the ports, the store and the encoders answer
  as they like, but for the ids of the store, which are new. \<open>Encode_Laws\<close> and \<open>Encode_Facts\<close> have the
  invariants, each a sum over the operations under way, and \<open>Encode_Properties\<close> what follows: the bounds
  of the running and waiting encodes, that the queue never stalls, that the lock and the uses are given back.

  \<open>Upload_Admission\<close> is \<open>UploadAdmissionController.ts\<close>, the places for uploads; \<open>Hls_Ids\<close> is
  \<open>HlsStreamIdAllocator.ts\<close>, the numbers of the streams.

  How the code is modelled

  Ids, times and \<open>bigint\<close> counters are \<open>int\<close>; columns that are \<open>null\<close> and properties
  that are \<open>undefined\<close> are \<open>None\<close>. A rejected promise or a throw is the left summand of a
  result. An operation that awaits is one action of the world where a lock or a chain of promises serialises
  the operations (the reservation manager, the commits of deletions, the store of the encode requests).
  Elsewhere, in the lock, the scheduler, the recording manager, the
  registries and the encode manager, a step is a synchronous stretch between two awaits. The loops are structural recursions, but for the loop of
  \<open>cleanup\<close>, which has as fuel the number of rows it may visit (every round takes a range off its
  list of pending ones or adds rows not seen before), the loop of \<open>evaluate\<close>, which is shown to end
  after one round, and the loop of \<open>assignAllocationWaiters\<close>, which shortens its queue. The search for a free
  encode id (\<open>find_free\<close>) is a partial function, with a lemma that it returns when an id is free.

  Not modelled

  Logging; the pauses between operations; the SQL text TypeORM builds (its documented meaning on a list
  of rows is used instead); the Windows interpretation of sub directories; the unprepared deletion of
  programmes, the clean-ups of orphaned files and the loop over interrupted recordings. A stored encode
  request is the JSON value itself, because reading what \<open>JSON.stringify\<close> wrote gives that value back, and
  the retries of one statement of \<open>EncodeQueueDB.ts\<close> are one call. The parts the manifest lists
  as not modelled are the recorder and the streams, files and child processes it drives, the encoder,
  the HTTP service and the other tables, the EPG updater, the tuner server clients, the communication
  between the processes, the web client and the build scripts: they are I/O around the core.
\<close>

end
